(* ===== verification/Prelude.thy ===== *)
theory Prelude
  imports Main "HOL-Library.Word"
begin

text \<open>
  Shared vocabulary of the development: the byte and word types of the C++ code, the
  conversions between C integer types (written out on \<open>nat\<close> and \<open>int\<close>), little-endian
  layout of machine words, and generic lemmas on lists and words that the component theories
  use. The target is the x86-64 build of the repository: \<open>int\<close> has 32 bits,
  \<open>unsigned long long\<close> and \<open>size_t\<close> have 64 bits, and words are stored little-endian.
\<close>

unbundle bit_operations_syntax

type_synonym byte = "8 word"
type_synonym u32 = "32 word"
type_synonym u64 = "64 word"

named_theorems c_int \<open>definitions of the C integer conversions\<close>

section \<open>C integer conversions\<close>

definition u8n :: "nat \<Rightarrow> nat" where
  [c_int]: "u8n n = n mod 2 ^ 8"

definition u16n :: "nat \<Rightarrow> nat" where
  [c_int]: "u16n n = n mod 2 ^ 16"

definition u32n :: "nat \<Rightarrow> nat" where
  [c_int]: "u32n n = n mod 2 ^ 32"

definition u48n :: "nat \<Rightarrow> nat" where
  [c_int]: "u48n n = n mod 2 ^ 48"

definition u64n :: "nat \<Rightarrow> nat" where
  [c_int]: "u64n n = n mod 2 ^ 64"

text \<open>Unsigned 64-bit subtraction, which wraps around.\<close>

definition sub64 :: "nat \<Rightarrow> nat \<Rightarrow> nat" where
  [c_int]: "sub64 a b = (a + (2 ^ 64 - b mod 2 ^ 64)) mod 2 ^ 64"

text \<open>The conversion of an unsigned value to \<open>int\<close> keeps the low 32 bits.\<close>

definition s32 :: "nat \<Rightarrow> int" where
  [c_int]: "s32 n = (if n mod 2 ^ 32 < 2 ^ 31 then int (n mod 2 ^ 32)
                      else int (n mod 2 ^ 32) - 2 ^ 32)"

text \<open>The conversion of an \<open>int\<close> to \<open>size_t\<close> or \<open>uint64_t\<close> in a mixed comparison.\<close>

definition usz :: "int \<Rightarrow> nat" where
  [c_int]: "usz i = nat (i mod 2 ^ 64)"

section \<open>Little-endian words\<close>

fun le_bytes :: "nat \<Rightarrow> 'a::len word \<Rightarrow> byte list" where
  "le_bytes 0 w = []"
| "le_bytes (Suc n) w = ucast w # le_bytes n (drop_bit 8 w)"

fun le_word :: "byte list \<Rightarrow> 'a::len word" where
  "le_word [] = 0"
| "le_word (b # bs) = ucast b OR push_bit 8 (le_word bs)"

section \<open>Memory comparison\<close>

text \<open>\<open>memcmp\<close> over two areas of the same length: the difference of the first bytes that differ.\<close>

fun memcmp :: "byte list \<Rightarrow> byte list \<Rightarrow> int" where
  "memcmp (a # as) (b # bs) = (if a = b then memcmp as bs else uint a - uint b)"
| "memcmp _ _ = 0"

section \<open>Generic lemmas\<close>

lemma memcmp_eq_0: "length as = length bs \<Longrightarrow> memcmp as bs = 0 \<longleftrightarrow> as = bs"
  by (induction as bs rule: memcmp.induct) (auto simp: word_uint_eq_iff)

lemma u8n_id [simp]: "n < 256 \<Longrightarrow> u8n n = n"
  by (simp add: u8n_def)

lemma u16n_id [simp]: "n < 65536 \<Longrightarrow> u16n n = n"
  by (simp add: u16n_def)

lemma u32n_id [simp]: "n < 4294967296 \<Longrightarrow> u32n n = n"
  by (simp add: u32n_def)

lemma u48n_id [simp]: "n < 281474976710656 \<Longrightarrow> u48n n = n"
  by (simp add: u48n_def)

lemma u64n_id [simp]: "n < 18446744073709551616 \<Longrightarrow> u64n n = n"
  by (simp add: u64n_def)

lemma sub64_id [simp]:
  assumes "b \<le> a" and "a < 18446744073709551616"
  shows "sub64 a b = a - b"
proof -
  have "sub64 a b = ((a - b) + 18446744073709551616) mod 18446744073709551616"
    using assms by (simp add: sub64_def)
  also have "\<dots> = a - b"
    using assms by (simp only: mod_add_self2 mod_less)
  finally show ?thesis .
qed

lemma s32_id [simp]: "n < 2147483648 \<Longrightarrow> s32 n = int n"
  by (simp add: s32_def)

lemma usz_nonneg [simp]: "0 \<le> i \<Longrightarrow> i < 2 ^ 64 \<Longrightarrow> usz i = nat i"
  by (simp add: usz_def)

lemma length_le_bytes [simp]: "length (le_bytes n w) = n"
  by (induction n arbitrary: w) auto

lemma nth_list_update_eq_if:
  "i < length xs \<Longrightarrow> xs[i := x] ! j = (if i = j then x else xs ! j)"
  by simp

lemma le_word_bit:
  fixes w :: "'a::len word"
  shows "bit (le_word (le_bytes n w) :: 'a word) k \<longleftrightarrow> k < 8 * n \<and> bit w k"
proof (induction n arbitrary: w k)
  case 0
  then show ?case by simp
next
  case (Suc n)
  show ?case
  proof (cases "k < 8")
    case True
    then show ?thesis
      by (auto simp: bit_or_iff bit_push_bit_iff bit_ucast_iff dest: bit_imp_le_length)
  next
    case False
    then show ?thesis
      using Suc.IH [of "drop_bit 8 w" "k - 8"]
      by (auto simp: bit_or_iff bit_push_bit_iff bit_ucast_iff bit_drop_bit_eq
          dest: bit_imp_le_length)
  qed
qed

lemma le_word_le_bytes:
  fixes w :: "'a::len word"
  assumes "LENGTH('a) \<le> 8 * n"
  shows "le_word (le_bytes n w) = w"
  by (rule bit_word_eqI) (use assms in \<open>auto simp: le_word_bit\<close>)

section \<open>Folds that may fail\<close>

fun mfold :: "('a \<Rightarrow> 's \<Rightarrow> 's option) \<Rightarrow> 'a list \<Rightarrow> 's \<Rightarrow> 's option" where
  "mfold f [] s = Some s"
| "mfold f (x # xs) s = Option.bind (f x s) (mfold f xs)"

lemma mfold_mono [partial_function_mono]:
  assumes "\<And>x s. mono_option (\<lambda>f. B f x s)"
  shows "mono_option (\<lambda>f. mfold (B f) xs s)"
proof (induction xs arbitrary: s)
  case Nil
  show ?case by (simp add: option.const_mono)
next
  case (Cons x xs)
  show ?case by (simp, intro bind_mono assms Cons.IH)
qed

lemma mfold_append: "mfold f (xs @ ys) s = Option.bind (mfold f xs s) (mfold f ys)"
proof (induction xs arbitrary: s)
  case (Cons x xs)
  then show ?case by (cases "f x s") simp_all
qed simp

end
