(* ===== verification/Pb.thy ===== *)
theory Pb
  imports Prelude
begin

text \<open>
  The wire codec of \<open>knv/pb.h\<close> and \<open>knv/pb.c\<close>: a protobuf reader that walks the fields of a
  byte buffer without a schema, and a writer that appends fields to a bounded buffer. The
  functions of \<open>knv/knv_codec.h\<close> forward to it when \<open>USE_EXTERNAL_CODEC\<close> is not defined,
  which is how the Makefile builds the library; they are definitions at the end of the model.

  A \<open>pb_field_t\<close> is the record \<open>pb_field\<close>. The pointer \<open>ptr\<close> is represented by the bytes it
  points at, up to the end of the caller's buffer; \<open>left\<close> is the C variable of that name.
  The union \<open>pb_field_val_t\<close> keeps its memory layout: its first eight bytes are \<open>val_i64\<close>, and
  both \<open>i32\<close> and \<open>str.len\<close> are the low four of them; \<open>str.data\<close> lies behind and is
  represented by the bytes it points at. Every function returns the C return code and the
  updated record, because a failing call still changes it. Error texts are not modelled.
\<close>

section \<open>Definitions\<close>

subsection \<open>Zig-zag coding of signed values\<close>

definition pb_int2uint :: "u64 \<Rightarrow> u64" where
  "pb_int2uint s = (if s <s 0 then NOT (push_bit 1 s) else push_bit 1 s)"

definition pb_uint2int :: "u64 \<Rightarrow> u64" where
  "pb_uint2int u = (if u AND 1 \<noteq> 0 then NOT (drop_bit 1 u) else drop_bit 1 u)"

subsection \<open>Data\<close>

text \<open>\<open>PB_WT_RAW\<close> stands for the enum values 3, 4, 6 and 7 that the cast of three bits can make.\<close>

datatype pb_wire_type = PB_WT_VARINT | PB_WT_FIXED64 | PB_WT_STRING | PB_WT_FIXED32 | PB_WT_RAW nat

definition wire_num :: "pb_wire_type \<Rightarrow> nat" where
  "wire_num t = (case t of PB_WT_VARINT \<Rightarrow> 0 | PB_WT_FIXED64 \<Rightarrow> 1 | PB_WT_STRING \<Rightarrow> 2
                  | PB_WT_FIXED32 \<Rightarrow> 5 | PB_WT_RAW n \<Rightarrow> n)"

definition wire_of :: "nat \<Rightarrow> pb_wire_type" where
  "wire_of n = (if n = 0 then PB_WT_VARINT else if n = 1 then PB_WT_FIXED64
                 else if n = 2 then PB_WT_STRING else if n = 5 then PB_WT_FIXED32
                 else PB_WT_RAW n)"

record pb_val =
  val_i64 :: u64
  val_data :: "byte list"

definition val_i32 :: "pb_val \<Rightarrow> u32" where
  "val_i32 v = ucast (val_i64 v)"

definition set_i32 :: "u32 \<Rightarrow> pb_val \<Rightarrow> pb_val" where
  "set_i32 x v = v\<lparr>val_i64 := (val_i64 v AND push_bit 32 (mask 32)) OR ucast x\<rparr>"

record pb_field =
  pf_tag :: u32
  pf_eom :: bool
  pf_type :: pb_wire_type
  pf_val :: pb_val
  pf_ptr :: "byte list"
  pf_left :: int

record pb_buff =
  bout :: "byte list"
  bsize :: nat
  bleft :: int

subsection \<open>Reading\<close>

definition pb_get :: "pb_field \<Rightarrow> nat \<Rightarrow> int \<times> byte list \<times> pb_field" where
  "pb_get f count =
     (if usz (pf_left f) < count then (-1, [], f)
      else (0, take count (pf_ptr f), f\<lparr>pf_ptr := drop count (pf_ptr f), pf_left := pf_left f - int count\<rparr>))"

definition pb_get_byte :: "pb_field \<Rightarrow> int \<times> byte \<times> pb_field" where
  "pb_get_byte f =
     (if pf_left f < 1 then (-1, 0, f)
      else (0, hd (pf_ptr f), f\<lparr>pf_ptr := drop 1 (pf_ptr f), pf_left := pf_left f - 1\<rparr>))"

definition pb_get_dword :: "pb_field \<Rightarrow> int \<times> u32 \<times> pb_field" where
  "pb_get_dword f =
     (if pf_left f < 4 then (-1, 0, f)
      else (0, le_word (take 4 (pf_ptr f)), f\<lparr>pf_ptr := drop 4 (pf_ptr f), pf_left := pf_left f - 4\<rparr>))"

definition pb_get_ddword :: "pb_field \<Rightarrow> int \<times> u64 \<times> pb_field" where
  "pb_get_ddword f =
     (if pf_left f < 8 then (-1, 0, f)
      else (0, le_word (take 8 (pf_ptr f)), f\<lparr>pf_ptr := drop 8 (pf_ptr f), pf_left := pf_left f - 8\<rparr>))"

text \<open>The \<open>do\<close>/\<open>while\<close> loop of \<open>pb_decode_varint\<close>, from its state \<open>bitpos\<close>, \<open>result\<close>.\<close>

function varint_loop :: "pb_field \<Rightarrow> nat \<Rightarrow> u64 \<Rightarrow> int \<times> pb_field" where
  "varint_loop f bitpos result =
     (if bitpos \<ge> 64 then (-1, f)
      else case pb_get_byte f of (ret, byte, f') \<Rightarrow>
        if ret \<noteq> 0 then (-2, f')
        else let result' = result OR push_bit bitpos (ucast (byte AND 0x7F))
             in if byte AND 0x80 \<noteq> 0 then varint_loop f' (bitpos + 7) result'
                else (0, f'\<lparr>pf_val := (pf_val f')\<lparr>val_i64 := result'\<rparr>\<rparr>))"
  by pat_completeness auto
termination
  by (relation "measure (\<lambda>(f, bitpos, result). 64 - bitpos)") auto

declare varint_loop.simps [simp del]

definition pb_decode_varint :: "pb_field \<Rightarrow> int \<times> pb_field" where
  "pb_decode_varint f = varint_loop f 0 0"

definition pb_decode_fixed32 :: "pb_field \<Rightarrow> int \<times> pb_field" where
  "pb_decode_fixed32 f =
     (case pb_get_dword f of (ret, x, f') \<Rightarrow>
        (ret, if ret = 0 then f'\<lparr>pf_val := set_i32 x (pf_val f')\<rparr> else f'))"

definition pb_decode_fixed64 :: "pb_field \<Rightarrow> int \<times> pb_field" where
  "pb_decode_fixed64 f =
     (case pb_get_ddword f of (ret, x, f') \<Rightarrow>
        (ret, if ret = 0 then f'\<lparr>pf_val := (pf_val f')\<lparr>val_i64 := x\<rparr>\<rparr> else f'))"

text \<open>\<open>f->val.i64 > f->left\<close> converts \<open>left\<close> to an unsigned value; \<open>sz\<close> has 32 bits.\<close>

definition pb_decode_string :: "pb_field \<Rightarrow> int \<times> pb_field" where
  "pb_decode_string f =
     (case pb_decode_varint f of (ret, f1) \<Rightarrow>
        if ret \<noteq> 0 then (-1, f1)
        else if unat (val_i64 (pf_val f1)) > usz (pf_left f1) then (-2, f1)
        else let sz = u32n (unat (val_i64 (pf_val f1)));
                 v = set_i32 (of_nat sz) (pf_val f1)
             in (0, f1\<lparr>pf_val := v\<lparr>val_data := take sz (pf_ptr f1)\<rparr>,
                       pf_ptr := drop sz (pf_ptr f1), pf_left := pf_left f1 - int sz\<rparr>))"

text \<open>\<open>pb_skip_varint\<close> reports success even when the input ends inside the number. The
  loop always ends, because every byte read lowers \<open>left\<close>.\<close>

function pb_skip_varint :: "pb_field \<Rightarrow> int \<times> pb_field" where
  "pb_skip_varint f =
     (case pb_get_byte f of (ret, byte, f') \<Rightarrow>
        if ret \<noteq> 0 then (0, f')
        else if byte AND 0x80 \<noteq> 0 then pb_skip_varint f' else (0, f'))"
  by pat_completeness auto
termination
  by (relation "measure (\<lambda>f. nat (pf_left f))") (auto simp: pb_get_byte_def split: if_splits)

declare pb_skip_varint.simps [simp del]

definition pb_skip_string :: "pb_field \<Rightarrow> int \<times> pb_field" where
  "pb_skip_string f =
     (case pb_decode_varint f of (ret, f1) \<Rightarrow>
        if ret \<noteq> 0 then (-1, f1)
        else case pb_get f1 (unat (val_i32 (pf_val f1))) of (r, _, f2) \<Rightarrow> (r, f2))"

text \<open>The \<open>switch\<close> over \<open>f->type\<close> at the end of \<open>pb_decode_tag\<close>.\<close>

definition pb_decode_body :: "pb_field \<Rightarrow> int \<times> pb_field" where
  "pb_decode_body f =
     (case pf_type f of
        PB_WT_VARINT \<Rightarrow> pb_decode_varint f
      | PB_WT_FIXED64 \<Rightarrow> pb_decode_fixed64 f
      | PB_WT_STRING \<Rightarrow> pb_decode_string f
      | PB_WT_FIXED32 \<Rightarrow> pb_decode_fixed32 f
      | PB_WT_RAW _ \<Rightarrow> (-3, f))"

definition pb_decode_tag :: "pb_field \<Rightarrow> int \<times> pb_field" where
  "pb_decode_tag f =
     (case pb_decode_varint f of (ret, f1) \<Rightarrow>
        if ret \<noteq> 0 then (-1, if pf_left f1 = 0 then f1\<lparr>pf_eom := True\<rparr> else f1)
        else if val_i64 (pf_val f1) = 0 then (-2, f1\<lparr>pf_eom := True\<rparr>)
        else pb_decode_body
               (f1\<lparr>pf_tag := ucast (drop_bit 3 (val_i64 (pf_val f1))),
                   pf_type := wire_of (unat (val_i32 (pf_val f1) AND 7))\<rparr>))"

definition pb_skip_field :: "pb_field \<Rightarrow> pb_wire_type \<Rightarrow> int \<times> pb_field" where
  "pb_skip_field f wt =
     (case wt of
        PB_WT_VARINT \<Rightarrow> pb_skip_varint f
      | PB_WT_FIXED64 \<Rightarrow> (case pb_get_ddword f of (r, _, f') \<Rightarrow> (r, f'))
      | PB_WT_STRING \<Rightarrow> pb_skip_string f
      | PB_WT_FIXED32 \<Rightarrow> (case pb_get_dword f of (r, _, f') \<Rightarrow> (r, f'))
      | PB_WT_RAW _ \<Rightarrow> (-1, f))"

text \<open>The iterators return the record when a field was read and whether the pointer returned
  is not \<open>NULL\<close>. The record a caller passes in is uninitialised memory: it is an argument.\<close>

definition pb_begin :: "pb_field \<Rightarrow> byte list \<Rightarrow> int \<Rightarrow> bool \<times> pb_field" where
  "pb_begin f data dlen =
     (case pb_decode_tag (f\<lparr>pf_ptr := data, pf_left := dlen, pf_eom := False\<rparr>) of
        (ret, f') \<Rightarrow> (ret = 0, f'))"

definition pb_begin_delimited :: "pb_field \<Rightarrow> byte list \<Rightarrow> int \<Rightarrow> bool \<times> pb_field" where
  "pb_begin_delimited f data dlen =
     (case pb_decode_varint (f\<lparr>pf_ptr := data, pf_left := dlen, pf_eom := False\<rparr>) of (ret, f1) \<Rightarrow>
        if ret \<noteq> 0 then (False, f1)
        else if unat (val_i64 (pf_val f1)) > usz (pf_left f1) then (False, f1)
        else case pb_decode_tag (f1\<lparr>pf_left := s32 (unat (val_i64 (pf_val f1)))\<rparr>) of
               (r, f2) \<Rightarrow> (r = 0, f2))"

definition pb_next :: "pb_field \<Rightarrow> bool \<times> pb_field" where
  "pb_next f = (case pb_decode_tag f of (ret, f') \<Rightarrow> (ret = 0, f'))"

subsection \<open>Writing\<close>

definition pb_init_buff :: "nat \<Rightarrow> pb_buff" where
  "pb_init_buff sz = \<lparr>bout = [], bsize = sz, bleft = s32 sz\<rparr>"

definition pb_get_encoded_length :: "pb_buff \<Rightarrow> int" where
  "pb_get_encoded_length b = s32 (usz (int (bsize b) - bleft b))"

definition pb_add :: "pb_buff \<Rightarrow> byte list \<Rightarrow> int \<times> pb_buff" where
  "pb_add b buf =
     (if usz (bleft b) < length buf then (-1, b)
      else (0, b\<lparr>bout := bout b @ buf, bleft := bleft b - int (length buf)\<rparr>))"

definition pb_add_user :: "pb_buff \<Rightarrow> byte list \<Rightarrow> int \<times> pb_buff" where
  "pb_add_user b buf = pb_add b buf"

definition pb_add_dword :: "pb_buff \<Rightarrow> u32 \<Rightarrow> int \<times> pb_buff" where
  "pb_add_dword b v =
     (if bleft b < 4 then (-1, b)
      else (0, b\<lparr>bout := bout b @ le_bytes 4 v, bleft := bleft b - 4\<rparr>))"

definition pb_add_ddword :: "pb_buff \<Rightarrow> u64 \<Rightarrow> int \<times> pb_buff" where
  "pb_add_ddword b v =
     (if bleft b < 8 then (-1, b)
      else (0, b\<lparr>bout := bout b @ le_bytes 8 v, bleft := bleft b - 8\<rparr>))"

lemma drop_bit7_less: "v \<noteq> 0 \<Longrightarrow> unat (drop_bit 7 v) < unat (v :: u64)"
proof -
  assume "v \<noteq> 0"
  then have "0 < unat v" by (simp add: unat_gt_0)
  then show ?thesis by (simp add: drop_bit_eq_div unat_div)
qed

text \<open>The bytes the loop of \<open>pb_add_vint\<close> stores in \<open>buffer\<close>, before the top bit of the last
  one is cleared.\<close>

function vint_loop :: "u64 \<Rightarrow> byte list" where
  "vint_loop value =
     (if value = 0 then [] else (ucast (value AND 0x7F) OR 0x80) # vint_loop (drop_bit 7 value))"
  by pat_completeness auto
termination
  by (relation "measure unat") (auto intro: drop_bit7_less)

declare vint_loop.simps [simp del]

definition vint_buffer :: "u64 \<Rightarrow> byte list" where
  "vint_buffer value =
     (if value = 0 then [0]
      else let buffer = vint_loop value; i = length buffer
           in buffer[i - 1 := (buffer ! (i - 1)) AND 0x7F])"

definition pb_add_vint :: "pb_buff \<Rightarrow> u64 \<Rightarrow> int \<times> pb_buff" where
  "pb_add_vint b value = pb_add b (vint_buffer value)"

text \<open>\<open>wiretype | (field_number << 3)\<close> is computed in 32 bits and then widened.\<close>

definition tag_word :: "pb_wire_type \<Rightarrow> u32 \<Rightarrow> u32" where
  "tag_word wt n = of_nat (wire_num wt) OR push_bit 3 n"

definition pb_add_tag :: "pb_buff \<Rightarrow> pb_wire_type \<Rightarrow> u32 \<Rightarrow> int \<times> pb_buff" where
  "pb_add_tag b wt n = pb_add_vint b (ucast (tag_word wt n))"

definition pb_add_field_val :: "pb_buff \<Rightarrow> u32 \<Rightarrow> pb_wire_type \<Rightarrow> pb_val \<Rightarrow> int \<times> pb_buff" where
  "pb_add_field_val b t wt v =
     (case pb_add_tag b wt t of (ret, b1) \<Rightarrow>
        if ret \<noteq> 0 then (-1, b1)
        else case wt of
            PB_WT_VARINT \<Rightarrow> pb_add_vint b1 (val_i64 v)
          | PB_WT_FIXED64 \<Rightarrow> pb_add_ddword b1 (val_i64 v)
          | PB_WT_STRING \<Rightarrow>
              (case pb_add_vint b1 (ucast (val_i32 v)) of (r, b2) \<Rightarrow>
                 if r \<noteq> 0 then (-2, b2) else pb_add b2 (take (unat (val_i32 v)) (val_data v)))
          | PB_WT_FIXED32 \<Rightarrow> pb_add_dword b1 (val_i32 v)
          | PB_WT_RAW _ \<Rightarrow> (-2, b1))"

definition pb_add_field :: "pb_buff \<Rightarrow> pb_field \<Rightarrow> int \<times> pb_buff" where
  "pb_add_field b f = pb_add_field_val b (pf_tag f) (pf_type f) (pf_val f)"

definition pb_add_varint :: "pb_buff \<Rightarrow> u32 \<Rightarrow> u64 \<Rightarrow> int \<times> pb_buff" where
  "pb_add_varint b t value =
     (case pb_add_tag b PB_WT_VARINT t of (ret, b1) \<Rightarrow>
        if ret \<noteq> 0 then (-1, b1) else pb_add_vint b1 value)"

definition pb_add_string :: "pb_buff \<Rightarrow> u32 \<Rightarrow> byte list \<Rightarrow> int \<times> pb_buff" where
  "pb_add_string b t buffer =
     (case pb_add_tag b PB_WT_STRING t of (ret, b1) \<Rightarrow>
        if ret \<noteq> 0 then (-1, b1)
        else case pb_add_vint b1 (of_nat (length buffer)) of (r, b2) \<Rightarrow>
          if r \<noteq> 0 then (-2, b2) else pb_add b2 buffer)"

definition pb_add_string_head :: "pb_buff \<Rightarrow> u32 \<Rightarrow> nat \<Rightarrow> int \<times> pb_buff" where
  "pb_add_string_head b t sz =
     (case pb_add_tag b PB_WT_STRING t of (ret, b1) \<Rightarrow>
        if ret \<noteq> 0 then (-1, b1) else pb_add_vint b1 (of_nat sz))"

definition pb_add_fixed32 :: "pb_buff \<Rightarrow> u32 \<Rightarrow> u32 \<Rightarrow> int \<times> pb_buff" where
  "pb_add_fixed32 b t value =
     (case pb_add_tag b PB_WT_FIXED32 t of (ret, b1) \<Rightarrow>
        if ret \<noteq> 0 then (-1, b1) else pb_add_dword b1 value)"

definition pb_add_fixed64 :: "pb_buff \<Rightarrow> u32 \<Rightarrow> u64 \<Rightarrow> int \<times> pb_buff" where
  "pb_add_fixed64 b t value =
     (case pb_add_tag b PB_WT_FIXED64 t of (ret, b1) \<Rightarrow>
        if ret \<noteq> 0 then (-1, b1) else pb_add_ddword b1 value)"

subsection \<open>Length evaluation\<close>

function vint_length_loop :: "u64 \<Rightarrow> nat" where
  "vint_length_loop value =
     (if value = 0 then 0 else Suc (vint_length_loop (drop_bit 7 value)))"
  by pat_completeness auto
termination
  by (relation "measure unat") (auto intro: drop_bit7_less)

declare vint_length_loop.simps [simp del]

definition pb_eval_vint_length :: "u64 \<Rightarrow> nat" where
  "pb_eval_vint_length value = (if value = 0 then 1 else vint_length_loop value)"

definition pb_eval_tag_length :: "pb_wire_type \<Rightarrow> u32 \<Rightarrow> nat" where
  "pb_eval_tag_length wt n = pb_eval_vint_length (ucast (tag_word wt n))"

text \<open>The sum for a string is computed in \<open>uint32_t\<close> and returned as an \<open>int\<close>.\<close>

definition pb_eval_field_length :: "u32 \<Rightarrow> pb_wire_type \<Rightarrow> pb_val \<Rightarrow> int" where
  "pb_eval_field_length t wt v =
     (case wt of
        PB_WT_VARINT \<Rightarrow> int (pb_eval_tag_length wt t + pb_eval_vint_length (val_i64 v))
      | PB_WT_FIXED64 \<Rightarrow> int (pb_eval_tag_length wt t + 8)
      | PB_WT_FIXED32 \<Rightarrow> int (pb_eval_tag_length wt t + 4)
      | _ \<Rightarrow> s32 (pb_eval_tag_length wt t + pb_eval_vint_length (ucast (val_i32 v))
                  + unat (val_i32 v)))"

subsection \<open>The codec interface of \<open>knv_codec.h\<close>\<close>

text \<open>With \<open>USE_EXTERNAL_CODEC\<close> undefined each wrapper is a call of the \<open>pb\<close> function.\<close>

definition knv_begin :: "pb_field \<Rightarrow> byte list \<Rightarrow> int \<Rightarrow> bool \<times> pb_field" where
  "knv_begin f data dlen = pb_begin f data dlen"

definition knv_begin_delimited :: "pb_field \<Rightarrow> byte list \<Rightarrow> int \<Rightarrow> bool \<times> pb_field" where
  "knv_begin_delimited f data dlen = pb_begin_delimited f data dlen"

definition knv_next :: "pb_field \<Rightarrow> bool \<times> pb_field" where
  "knv_next f = pb_next f"

definition knv_init_buff :: "nat \<Rightarrow> pb_buff" where
  "knv_init_buff sz = pb_init_buff sz"

definition knv_add_field :: "pb_buff \<Rightarrow> pb_field \<Rightarrow> int \<times> pb_buff" where
  "knv_add_field b f = pb_add_field b f"

definition knv_add_field_val :: "pb_buff \<Rightarrow> u32 \<Rightarrow> pb_wire_type \<Rightarrow> pb_val \<Rightarrow> int \<times> pb_buff" where
  "knv_add_field_val b t wt v = pb_add_field_val b t wt v"

definition knv_add_varint :: "pb_buff \<Rightarrow> u32 \<Rightarrow> u64 \<Rightarrow> int \<times> pb_buff" where
  "knv_add_varint b t value = pb_add_varint b t value"

definition knv_add_string :: "pb_buff \<Rightarrow> u32 \<Rightarrow> byte list \<Rightarrow> int \<times> pb_buff" where
  "knv_add_string b t buffer = pb_add_string b t buffer"

definition knv_add_string_head :: "pb_buff \<Rightarrow> u32 \<Rightarrow> nat \<Rightarrow> int \<times> pb_buff" where
  "knv_add_string_head b t sz = pb_add_string_head b t sz"

definition knv_add_fixed32 :: "pb_buff \<Rightarrow> u32 \<Rightarrow> u32 \<Rightarrow> int \<times> pb_buff" where
  "knv_add_fixed32 b t value = pb_add_fixed32 b t value"

definition knv_add_fixed64 :: "pb_buff \<Rightarrow> u32 \<Rightarrow> u64 \<Rightarrow> int \<times> pb_buff" where
  "knv_add_fixed64 b t value = pb_add_fixed64 b t value"

definition knv_add_user :: "pb_buff \<Rightarrow> byte list \<Rightarrow> int \<times> pb_buff" where
  "knv_add_user b buf = pb_add_user b buf"

definition knv_get_encoded_length :: "pb_buff \<Rightarrow> int" where
  "knv_get_encoded_length b = pb_get_encoded_length b"

definition knv_eval_field_length :: "u32 \<Rightarrow> pb_wire_type \<Rightarrow> pb_val \<Rightarrow> int" where
  "knv_eval_field_length t wt v = pb_eval_field_length t wt v"

section \<open>Specification vocabulary\<close>

text \<open>\<open>field_bytes\<close> is the protobuf encoding of one field, \<open>wf_field\<close> the fields the encoding can
  carry (a tag of 1 to 29 bits and a known wire type), \<open>dec_val\<close> the contents of the value union
  after a field was read over an old one, \<open>buff_ok\<close> the state of a write buffer between
  \<open>pb_init_buff\<close> and its last byte, and \<open>field_view\<close> the part of a field that its type makes
  meaningful. \<open>pb_add_all\<close> is a caller's loop of \<open>pb_add_field_val\<close> calls.\<close>

definition field_bytes :: "u32 \<Rightarrow> pb_wire_type \<Rightarrow> pb_val \<Rightarrow> byte list" where
  "field_bytes t wt v = vint_buffer (ucast (tag_word wt t)) @
     (case wt of
        PB_WT_VARINT \<Rightarrow> vint_buffer (val_i64 v)
      | PB_WT_FIXED64 \<Rightarrow> le_bytes 8 (val_i64 v)
      | PB_WT_STRING \<Rightarrow> vint_buffer (ucast (val_i32 v)) @ take (unat (val_i32 v)) (val_data v)
      | PB_WT_FIXED32 \<Rightarrow> le_bytes 4 (val_i32 v)
      | PB_WT_RAW _ \<Rightarrow> [])"

fun known_wire :: "pb_wire_type \<Rightarrow> bool" where
  "known_wire (PB_WT_RAW _) = False"
| "known_wire _ = True"

definition wf_field :: "u32 \<Rightarrow> pb_wire_type \<Rightarrow> pb_val \<Rightarrow> bool" where
  "wf_field t wt v \<longleftrightarrow> t \<noteq> 0 \<and> t < 2 ^ 29 \<and> known_wire wt \<and>
     (wt = PB_WT_STRING \<longrightarrow> length (val_data v) = unat (val_i32 v))"

definition dec_val :: "pb_wire_type \<Rightarrow> pb_val \<Rightarrow> pb_val \<Rightarrow> pb_val" where
  "dec_val wt v old =
     (if wt = PB_WT_STRING then \<lparr>val_i64 = ucast (val_i32 v), val_data = val_data v\<rparr>
      else if wt = PB_WT_FIXED32 then old\<lparr>val_i64 := ucast (val_i32 v)\<rparr>
      else old\<lparr>val_i64 := val_i64 v\<rparr>)"

definition buff_ok :: "pb_buff \<Rightarrow> bool" where
  "buff_ok b \<longleftrightarrow> 0 \<le> bleft b \<and> int (length (bout b)) + bleft b = int (bsize b) \<and> bsize b < 2 ^ 31"

fun pb_add_all :: "pb_buff \<Rightarrow> (u32 \<times> pb_wire_type \<times> pb_val) list \<Rightarrow> int \<times> pb_buff" where
  "pb_add_all b [] = (0, b)"
| "pb_add_all b ((t, wt, v) # fs) =
     (case pb_add_field_val b t wt v of (ret, b') \<Rightarrow> if ret \<noteq> 0 then (ret, b') else pb_add_all b' fs)"

fun field_view :: "u32 \<times> pb_wire_type \<times> pb_val \<Rightarrow> u32 \<times> pb_wire_type \<times> (u64 + byte list)" where
  "field_view (t, wt, v) =
     (t, wt, if wt = PB_WT_STRING then Inr (val_data v)
             else if wt = PB_WT_FIXED32 then Inl (ucast (val_i32 v)) else Inl (val_i64 v))"

definition pb_start :: "byte list \<Rightarrow> int \<Rightarrow> pb_field \<Rightarrow> pb_field" where
  "pb_start data dlen f = f\<lparr>pf_ptr := data, pf_left := dlen, pf_eom := False\<rparr>"

definition fields_bytes :: "(u32 \<times> pb_wire_type \<times> pb_val) list \<Rightarrow> byte list" where
  "fields_bytes fs = concat (map (\<lambda>(t, wt, v). field_bytes t wt v) fs)"

section \<open>Variable-length integers\<close>

lemma bit_int_7F: "bit (0x7F :: int) n \<longleftrightarrow> n < 7"
proof -
  have "(0x7F :: int) = mask 7" by (simp add: mask_eq_exp_minus_1)
  then show ?thesis by (simp only: bit_mask_iff) simp
qed

lemma bit_int_80: "bit (0x80 :: int) n \<longleftrightarrow> n = 7"
proof -
  have "(0x80 :: int) = push_bit 7 1" by simp
  then show ?thesis by (simp only: bit_push_bit_iff bit_1_iff) auto
qed

lemmas vint_bits = bit_and_iff bit_or_iff bit_ucast_iff bit_push_bit_iff bit_drop_bit_eq
  bit_int_7F bit_int_80

lemma cont_byte:
  fixes v :: u64
  shows "(ucast (v AND 0x7F) OR 0x80) AND (0x7F :: byte) = ucast (v AND 0x7F)"
    and "(ucast (v AND 0x7F) OR 0x80) AND (0x80 :: byte) \<noteq> 0"
    and "ucast (v AND 0x7F) AND (0x7F :: byte) = ucast (v AND 0x7F)"
    and "ucast (v AND 0x7F) AND (0x80 :: byte) = 0"
proof -
  show "(ucast (v AND 0x7F) OR 0x80) AND (0x7F :: byte) = ucast (v AND 0x7F)"
    by (rule bit_word_eqI) (auto simp: vint_bits)
  show "ucast (v AND 0x7F) AND (0x7F :: byte) = ucast (v AND 0x7F)"
    by (rule bit_word_eqI) (auto simp: vint_bits)
  show "ucast (v AND 0x7F) AND (0x80 :: byte) = 0"
    by (rule bit_word_eqI) (auto simp: vint_bits)
  have "bit ((ucast (v AND 0x7F) OR 0x80) AND (0x80 :: byte)) 7"
    by (simp add: vint_bits)
  then show "(ucast (v AND 0x7F) OR 0x80) AND (0x80 :: byte) \<noteq> 0"
    by (metis bit_0_eq bot_apply bot_bool_def)
qed

lemma vint_loop_zero [simp]: "vint_loop 0 = []"
  by (simp add: vint_loop.simps)

lemma vint_loop_nz [simp]: "v \<noteq> 0 \<Longrightarrow> vint_loop v \<noteq> []"
  by (subst vint_loop.simps) simp

lemma vint_buffer_last:
  assumes "v \<noteq> 0" and "drop_bit 7 v = 0"
  shows "vint_buffer v = [ucast (v AND 0x7F)]"
  using assms cont_byte(1) [of v]
  by (simp add: vint_buffer_def vint_loop.simps [of v] Let_def)

lemma vint_buffer_cont:
  assumes "drop_bit 7 v \<noteq> 0"
  shows "vint_buffer v = (ucast (v AND 0x7F) OR 0x80) # vint_buffer (drop_bit 7 v)"
proof -
  have v: "v \<noteq> 0" using assms by auto
  obtain x xs where "vint_loop (drop_bit 7 v) = x # xs"
    using vint_loop_nz [OF assms] by (cases "vint_loop (drop_bit 7 v)") auto
  then show ?thesis
    using assms v by (simp add: vint_buffer_def vint_loop.simps [of v] Let_def)
qed

lemma vint_buffer_length: "length (vint_buffer v) = pb_eval_vint_length v"
proof -
  have "length (vint_loop w) = vint_length_loop w" for w
  proof (induction w rule: vint_loop.induct)
    case (1 w)
    then show ?case by (simp add: vint_loop.simps [of w] vint_length_loop.simps [of w])
  qed
  then show ?thesis
    by (simp add: vint_buffer_def pb_eval_vint_length_def Let_def)
qed

lemma vint_buffer_zero [simp]: "vint_buffer 0 = [0]"
  by (simp add: vint_buffer_def)

lemma vint_buffer_short:
  assumes "drop_bit 7 v = 0"
  shows "vint_buffer v = [ucast (v AND 0x7F)]"
  using assms by (cases "v = 0") (simp_all add: vint_buffer_last)

lemma low7_id:
  assumes "drop_bit 7 v = (0 :: u64)"
  shows "v AND 0x7F = v"
proof (rule bit_word_eqI)
  fix n
  assume "n < LENGTH(64)"
  have "\<not> bit (drop_bit 7 v) (n - 7)" using assms by simp
  then have "n < 7 \<or> \<not> bit v n" by (cases "n < 7") (auto simp: bit_drop_bit_eq)
  then show "bit (v AND 0x7F) n \<longleftrightarrow> bit v n"
    using \<open>n < LENGTH(64)\<close> by (auto simp: vint_bits)
qed

lemma split7: "push_bit bp (v AND 0x7F) OR push_bit (bp + 7) (drop_bit 7 v) = push_bit bp (v :: u64)"
proof (rule bit_word_eqI)
  fix n
  assume "n < LENGTH(64)"
  have "7 + (n - (bp + 7)) = n - bp" if "bp + 7 \<le> n" using that by arith
  moreover have "bp + 7 \<le> n \<longleftrightarrow> bp \<le> n \<and> \<not> n - bp < 7" by arith
  ultimately show "bit (push_bit bp (v AND 0x7F) OR push_bit (bp + 7) (drop_bit 7 v)) n
      = bit (push_bit bp v) n"
    by (auto simp: vint_bits)
qed

lemma ucast_low7: "(ucast (ucast (v AND 0x7F) :: byte) :: u64) = v AND 0x7F"
  by (rule bit_word_eqI) (auto simp: vint_bits)

lemma unat_drop7: "unat (drop_bit 7 (v :: u64)) = unat v div 128"
  by (simp add: drop_bit_eq_div unat_div)

lemma varint_loop_vint:
  assumes "pf_ptr f = vint_buffer v @ rest"
    and "int (length (vint_buffer v)) \<le> pf_left f"
    and "bp < 64" and "unat v < 2 ^ (64 - bp)"
  shows "varint_loop f bp r =
    (0, f\<lparr>pf_val := (pf_val f)\<lparr>val_i64 := r OR push_bit bp v\<rparr>, pf_ptr := rest,
          pf_left := pf_left f - int (length (vint_buffer v))\<rparr>)"
  using assms
proof (induction v arbitrary: f bp r rule: vint_loop.induct)
  case (1 v)
  show ?case
  proof (cases "drop_bit 7 v = 0")
    case True
    then show ?thesis
      using "1.prems" cont_byte(3,4) [of v] ucast_low7 [of v]
      by (simp add: varint_loop.simps [of f] pb_get_byte_def vint_buffer_short low7_id)
  next
    case False
    let ?f = "f\<lparr>pf_ptr := vint_buffer (drop_bit 7 v) @ rest, pf_left := pf_left f - 1\<rparr>"
    let ?r = "r OR push_bit bp (v AND 0x7F)"
    have v0: "v \<noteq> 0" using False by auto
    have big: "128 \<le> unat v" using False unat_drop7 [of v] by (metis div_less not_le unat_eq_zero)
    have bp: "bp + 7 < 64"
    proof (rule ccontr)
      assume "\<not> bp + 7 < 64"
      then have "(2 :: nat) ^ (64 - bp) \<le> 2 ^ 7" by (intro power_increasing) auto
      then show False using "1.prems"(4) big by simp
    qed
    have "(2 :: nat) ^ (64 - bp) = 2 ^ (64 - (bp + 7)) * 128"
    proof -
      define d where "d = 57 - bp"
      have "64 - bp = d + 7" and "64 - (bp + 7) = d" using bp by (auto simp: d_def)
      then show ?thesis by (simp add: power_add)
    qed
    then have "unat (drop_bit 7 v) < 2 ^ (64 - (bp + 7))"
      using "1.prems"(4) by (simp add: unat_drop7 less_mult_imp_div_less)
    moreover have "int (length (vint_buffer (drop_bit 7 v))) \<le> pf_left ?f"
      using "1.prems"(2) vint_buffer_cont [OF False] by simp
    ultimately have IH: "varint_loop ?f (bp + 7) ?r =
      (0, ?f\<lparr>pf_val := (pf_val ?f)\<lparr>val_i64 := ?r OR push_bit (bp + 7) (drop_bit 7 v)\<rparr>, pf_ptr := rest,
          pf_left := pf_left ?f - int (length (vint_buffer (drop_bit 7 v)))\<rparr>)"
      using "1.IH" [OF v0, of ?f "bp + 7" ?r] bp by simp
    have "varint_loop f bp r = varint_loop ?f (bp + 7) ?r"
      using "1.prems" cont_byte(1,2) [of v] vint_buffer_cont [OF False]
      by (simp add: varint_loop.simps [of f bp] pb_get_byte_def ucast_low7)
    then show ?thesis
      using IH vint_buffer_cont [OF False] split7 [of bp v]
      by (simp add: or.assoc algebra_simps)
  qed
qed

lemma pb_decode_varint_vint:
  assumes "pf_ptr f = vint_buffer v @ rest"
    and "int (length (vint_buffer v)) \<le> pf_left f"
  shows "pb_decode_varint f =
    (0, f\<lparr>pf_val := (pf_val f)\<lparr>val_i64 := v\<rparr>, pf_ptr := rest,
          pf_left := pf_left f - int (length (vint_buffer v))\<rparr>)"
  using varint_loop_vint [OF assms, of 0 0] unsigned_less [of v]
  by (simp add: pb_decode_varint_def)

section \<open>One field\<close>

lemma pb_add_fits:
  assumes "int (length xs) \<le> bleft b" and "bleft b < 2147483648"
  shows "pb_add b xs = (0, b\<lparr>bout := bout b @ xs, bleft := bleft b - int (length xs)\<rparr>)"
  using assms by (simp add: pb_add_def)

lemma pb_add_dword_pb_add:
  "0 \<le> bleft b \<Longrightarrow> bleft b < 2147483648 \<Longrightarrow> pb_add_dword b w = pb_add b (le_bytes 4 w)"
  by (auto simp: pb_add_dword_def pb_add_def)

lemma pb_add_ddword_pb_add:
  "0 \<le> bleft b \<Longrightarrow> bleft b < 2147483648 \<Longrightarrow> pb_add_ddword b w = pb_add b (le_bytes 8 w)"
  by (auto simp: pb_add_ddword_def pb_add_def)

lemma pb_add_field_val_bytes:
  assumes "int (length (field_bytes t wt v)) \<le> bleft b" and "bleft b < 2147483648"
    and "known_wire wt"
  shows "pb_add_field_val b t wt v =
    (0, b\<lparr>bout := bout b @ field_bytes t wt v, bleft := bleft b - int (length (field_bytes t wt v))\<rparr>)"
  using assms
  by (cases wt) (simp_all add: pb_add_field_val_def pb_add_tag_def pb_add_vint_def field_bytes_def
      pb_add_fits pb_add_dword_pb_add pb_add_ddword_pb_add algebra_simps)

lemma field_bytes_length:
  assumes "wf_field t wt v" and "length (field_bytes t wt v) < 2 ^ 31"
  shows "pb_eval_field_length t wt v = int (length (field_bytes t wt v))"
  using assms
  by (cases wt) (simp_all add: pb_eval_field_length_def field_bytes_def wf_field_def
      pb_eval_tag_length_def vint_buffer_length)

lemma small_word_bit:
  fixes x :: "'a::len word"
  assumes "unat x < 2 ^ k" and "bit x n"
  shows "n < k"
proof -
  have "bit (unat x) n" using assms(2) by (simp add: bit_unsigned_iff bit_imp_le_length)
  moreover have "take_bit k (unat x) = unat x" using assms(1) by (rule take_bit_nat_eq_self)
  ultimately show ?thesis by (metis bit_take_bit_iff)
qed

lemma wire_bits:
  assumes "known_wire wt"
  shows "unat (of_nat (wire_num wt) :: u32) = wire_num wt" and "wire_num wt < 8"
    and [simp]: "wire_of (wire_num wt) = wt"
  using assms by (cases wt; simp add: wire_num_def wire_of_def)+

lemma bit_7_u32: "bit (7 :: u32) n \<longleftrightarrow> n < 3"
proof -
  have "(7 :: u32) = mask 3" by (simp add: mask_eq_exp_minus_1)
  then show ?thesis by (simp only: bit_mask_iff) auto
qed

lemma tag_word_fields:
  assumes "wf_field t wt v"
  shows "tag_word wt t AND 7 = of_nat (wire_num wt)"
    and "drop_bit 3 (tag_word wt t) = t"
    and "tag_word wt t \<noteq> 0"
proof -
  have raw: "known_wire wt" and t: "t < 2 ^ 29" "t \<noteq> 0"
    using assms by (auto simp: wf_field_def)
  have w: "bit (of_nat (wire_num wt) :: u32) n \<Longrightarrow> n < 3" for n
    using small_word_bit [of "of_nat (wire_num wt) :: u32" 3 n] wire_bits [OF raw] by simp
  have t29: "bit t n \<Longrightarrow> n < 29" for n
    using small_word_bit [of t 29 n] t(1) by (simp add: word_less_nat_alt)
  show "tag_word wt t AND 7 = of_nat (wire_num wt)"
  proof (rule bit_word_eqI)
    fix n
    show "bit (tag_word wt t AND 7) n = bit (of_nat (wire_num wt) :: u32) n"
      unfolding tag_word_def bit_and_iff bit_or_iff bit_push_bit_iff bit_7_u32
      using w by auto
  qed
  show *: "drop_bit 3 (tag_word wt t) = t"
  proof (rule bit_word_eqI)
    fix n
    show "bit (drop_bit 3 (tag_word wt t)) n = bit t n"
      unfolding tag_word_def bit_drop_bit_eq bit_or_iff bit_push_bit_iff comp_def
      using w [of "3 + n"] t29 [of n] by auto
  qed
  show "tag_word wt t \<noteq> 0" using * t(2) by auto
qed

lemma set_i32_small:
  assumes "val_i64 v = ucast (x :: u32)"
  shows "set_i32 y v = v\<lparr>val_i64 := ucast y\<rparr>"
proof -
  have "(ucast x :: u64) AND push_bit 32 (mask 32) = 0"
    by (rule bit_word_eqI) (auto simp: bit_and_iff bit_ucast_iff bit_push_bit_iff dest: bit_imp_le_length)
  then show ?thesis using assms by (simp add: set_i32_def)
qed

lemma ucast_u32 [simp]: "(ucast (ucast (x :: u32) :: u64) :: u32) = x"
  by (rule bit_word_eqI) (auto simp: bit_ucast_iff)

lemma ucast_drop3: "(ucast (drop_bit 3 (ucast (x :: u32) :: u64)) :: u32) = drop_bit 3 x"
  by (rule bit_word_eqI) (auto simp: bit_ucast_iff bit_drop_bit_eq dest: bit_imp_le_length)

lemma ucast_u32_zero: "(ucast (x :: u32) :: u64) = 0 \<longleftrightarrow> x = 0"
  by (metis ucast_u32 unsigned_0)

lemma unat_u32_less [simp]: "unat (x :: u32) < 4294967296"
  using unsigned_less [of x] by simp

lemma unat_ucast_u64 [simp]: "unat (ucast (x :: u32) :: u64) = unat x"
  using unat_u32_less [of x] by (simp add: unsigned_ucast_eq take_bit_nat_eq_self del: unat_u32_less)

lemma word_of_nat_unat_id: "(of_nat (unat x) :: 'a::len word) = x"
  by simp

lemma pb_decode_tag_field:
  assumes "wf_field t wt v" and "pf_ptr f = field_bytes t wt v @ rest"
    and "int (length (field_bytes t wt v)) \<le> pf_left f" and "pf_left f < 2 ^ 31"
  shows "pb_decode_tag f =
    (0, f\<lparr>pf_tag := t, pf_type := wt, pf_val := dec_val wt v (pf_val f), pf_ptr := rest,
          pf_left := pf_left f - int (length (field_bytes t wt v))\<rparr>)"
proof -
  define tw where "tw = (ucast (tag_word wt t) :: u64)"
  define body where "body = drop (length (vint_buffer tw)) (field_bytes t wt v)"
  let ?f = "f\<lparr>pf_val := (pf_val f)\<lparr>val_i64 := tw\<rparr>, pf_ptr := body @ rest,
              pf_left := pf_left f - int (length (vint_buffer tw))\<rparr>"
  have split: "field_bytes t wt v = vint_buffer tw @ body"
    by (simp add: field_bytes_def body_def tw_def)
  have len: "int (length (vint_buffer tw)) + int (length body) \<le> pf_left f"
    using assms(3) split by simp
  have tag: "pb_decode_varint f = (0, ?f)"
    using assms split len by (intro pb_decode_varint_vint) auto
  have raw: "known_wire wt" using assms(1) by (auto simp: wf_field_def)
  have tw: "tw \<noteq> 0" "unat ((ucast tw :: u32) AND 7) = wire_num wt" "ucast (drop_bit 3 tw) = t"
    using tag_word_fields [OF assms(1)] wire_bits [OF raw]
    by (auto simp: tw_def ucast_drop3 ucast_u32_zero)
  show ?thesis
  proof (cases wt)
    case PB_WT_VARINT
    then have "body = vint_buffer (val_i64 v)" by (simp add: body_def field_bytes_def tw_def)
    then show ?thesis
      using tag tw split len PB_WT_VARINT
      by (simp add: pb_decode_tag_def pb_decode_body_def Let_def val_i32_def 
          pb_decode_varint_vint [where v = "val_i64 v" and rest = rest] dec_val_def)
  next
    case PB_WT_FIXED64
    then have "body = le_bytes 8 (val_i64 v)" by (simp add: body_def field_bytes_def tw_def)
    then show ?thesis
      using tag tw split len PB_WT_FIXED64
      by (simp add: pb_decode_tag_def pb_decode_body_def Let_def val_i32_def 
          pb_decode_fixed64_def pb_get_ddword_def le_word_le_bytes dec_val_def)
  next
    case PB_WT_STRING
    let ?n = "ucast (val_i32 v) :: u64"
    have data: "take (unat (val_i32 v)) (val_data v) = val_data v"
      "length (val_data v) = unat (val_i32 v)"
      using assms(1) PB_WT_STRING by (auto simp: wf_field_def)
    have body: "body = vint_buffer ?n @ val_data v"
      using PB_WT_STRING data by (simp add: body_def field_bytes_def tw_def)
    have n: "unat ?n = unat (val_i32 v)" "u32n (unat (val_i32 v)) = unat (val_i32 v)"
      by (simp_all add: unat_ucast_u64 u32n_def unat_u32_less)
    let ?l = "pf_left f - int (length (vint_buffer tw)) - int (length (vint_buffer ?n))"
    have l: "int (unat (val_i32 v)) \<le> ?l" "?l < 2147483648"
      using len body data assms(4) by simp_all
    then have "int (length (vint_buffer ?n)) \<le> pf_left f - int (length (vint_buffer tw))"
      using of_nat_0_le_iff [of "unat (val_i32 v)"] by linarith
    moreover have "\<not> nat ?l < unat (val_i32 v)" using l by linarith
    moreover have "(pf_val f)\<lparr>val_i64 := a, val_data := b\<rparr> = \<lparr>val_i64 = a, val_data = b\<rparr>" for a b
      by simp
    ultimately show ?thesis
      using tag tw split PB_WT_STRING body data l n
      by (simp add: pb_decode_tag_def pb_decode_body_def Let_def val_i32_def [of "x\<lparr>val_i64 := y\<rparr>" for x y]
          pb_decode_string_def pb_decode_varint_vint [where v = ?n and rest = "val_data v @ rest"]
          dec_val_def set_i32_small [where x = "val_i32 v"] word_of_nat_unat_id algebra_simps
          del: of_nat_unat)
  next
    case PB_WT_FIXED32
    then have "body = le_bytes 4 (val_i32 v)" by (simp add: body_def field_bytes_def tw_def)
    then show ?thesis
      using tag tw split len PB_WT_FIXED32
      by (simp add: pb_decode_tag_def pb_decode_body_def Let_def val_i32_def [of "x\<lparr>val_i64 := y\<rparr>" for x y]
          pb_decode_fixed32_def pb_get_dword_def le_word_le_bytes dec_val_def
          set_i32_small [where x = "tag_word wt t"] tw_def)
  next
    case (PB_WT_RAW n)
    then show ?thesis using raw by (simp add:)
  qed
qed

section \<open>Reading arbitrary input\<close>

text \<open>What a reading step does to the input: it takes bytes off the front, never more than
  \<open>left\<close> of them.\<close>

definition consumed :: "pb_field \<Rightarrow> pb_field \<Rightarrow> bool" where
  "consumed f f' \<longleftrightarrow> (\<exists>n. int n \<le> max 0 (pf_left f) \<and> pf_ptr f' = drop n (pf_ptr f) \<and>
      pf_left f' = pf_left f - int n)"

lemma consumed_refl [simp]: "pf_ptr f' = pf_ptr f \<Longrightarrow> pf_left f' = pf_left f \<Longrightarrow> consumed f f'"
  unfolding consumed_def by (rule exI [of _ 0]) simp

lemma consumed_trans: "consumed f g \<Longrightarrow> consumed g h \<Longrightarrow> consumed f h"
  unfolding consumed_def
proof (elim exE conjE)
  fix m n
  assume "int m \<le> max 0 (pf_left f)" "pf_ptr g = drop m (pf_ptr f)" "pf_left g = pf_left f - int m"
    "int n \<le> max 0 (pf_left g)" "pf_ptr h = drop n (pf_ptr g)" "pf_left h = pf_left g - int n"
  then show "\<exists>n. int n \<le> max 0 (pf_left f) \<and> pf_ptr h = drop n (pf_ptr f) \<and>
      pf_left h = pf_left f - int n"
    by (intro exI [of _ "m + n"]) (auto simp: add.commute)
qed

lemma consumed_left: "consumed f f' \<Longrightarrow> pf_left f' \<le> pf_left f"
  by (auto simp: consumed_def)

lemma consumed_cong:
  "consumed f g \<Longrightarrow> pf_ptr h = pf_ptr g \<Longrightarrow> pf_left h = pf_left g \<Longrightarrow> consumed f h"
  by (simp add: consumed_def)

lemma pb_get_byte_consumed:
  assumes "pb_get_byte f = (ret, b, f')"
  shows "consumed f f'" and "ret = 0 \<Longrightarrow> 1 \<le> pf_left f \<and> pf_left f' = pf_left f - 1"
proof -
  show "consumed f f'"
    using assms by (auto simp: pb_get_byte_def consumed_def split: if_splits
        intro: exI [of _ 0] exI [of _ 1])
  show "ret = 0 \<Longrightarrow> 1 \<le> pf_left f \<and> pf_left f' = pf_left f - 1"
    using assms by (auto simp: pb_get_byte_def split: if_splits)
qed

lemma varint_loop_consumed:
  assumes "varint_loop f bp r = (ret, f')"
  shows "consumed f f' \<and> (ret = 0 \<longrightarrow> 1 \<le> pf_left f \<and> pf_left f' < pf_left f)"
  using assms
proof (induction f bp r arbitrary: ret f' rule: varint_loop.induct)
  case (1 f bp r)
  obtain rb b g where b: "pb_get_byte f = (rb, b, g)" by (cases "pb_get_byte f")
  note g = pb_get_byte_consumed [OF b]
  let ?r = "r OR push_bit bp (ucast (b AND 0x7F))"
  consider (over) "64 \<le> bp" | (fail) "bp < 64" "rb \<noteq> 0"
    | (cont) "bp < 64" "rb = 0" "b AND 0x80 \<noteq> 0" | (last) "bp < 64" "rb = 0" "b AND 0x80 = 0"
    by force
  then show ?case
  proof cases
    case over
    then show ?thesis using "1.prems" by (auto simp: varint_loop.simps [of f])
  next
    case fail
    then show ?thesis using "1.prems" b g by (auto simp: varint_loop.simps [of f])
  next
    case cont
    then have eq: "varint_loop g (bp + 7) ?r = (ret, f')"
      using "1.prems" b by (simp add: varint_loop.simps [of f])
    have "consumed g f' \<and> (ret = 0 \<longrightarrow> 1 \<le> pf_left g \<and> pf_left f' < pf_left g)"
      using "1.IH" [OF _ b [symmetric] refl, of ?r] cont eq by simp
    then show ?thesis using g cont by (auto intro: consumed_trans)
  next
    case last
    then have "f' = g\<lparr>pf_val := (pf_val g)\<lparr>val_i64 := ?r\<rparr>\<rparr>"
      using "1.prems" b by (auto simp: varint_loop.simps [of f])
    then show ?thesis using g last by (auto intro: consumed_cong)
  qed
qed

lemma pb_decode_varint_consumed:
  assumes "pb_decode_varint f = (ret, f')"
  shows "consumed f f'" and "ret = 0 \<Longrightarrow> 1 \<le> pf_left f \<and> pf_left f' < pf_left f"
  using varint_loop_consumed [of f 0 0 ret f'] assms by (auto simp: pb_decode_varint_def)

lemma pb_decode_fixed_consumed:
  shows "pb_decode_fixed32 f = (ret, f') \<Longrightarrow> consumed f f'"
    and "pb_decode_fixed64 f = (ret, f') \<Longrightarrow> consumed f f'"
  by (auto simp: pb_decode_fixed32_def pb_get_dword_def pb_decode_fixed64_def pb_get_ddword_def
      consumed_def split: if_splits intro: exI [of _ 0] exI [of _ 4] exI [of _ 8])

lemma pb_decode_string_consumed:
  assumes "pb_decode_string f = (ret, f')" and "0 \<le> pf_left f" and "pf_left f < 2 ^ 31"
  shows "consumed f f'"
proof -
  obtain r g where g: "pb_decode_varint f = (r, g)" by (cases "pb_decode_varint f")
  note c = pb_decode_varint_consumed [OF g]
  have bounds: "0 \<le> pf_left g" "pf_left g < 2 ^ 31"
    using c(1) assms(2,3) by (auto simp: consumed_def)
  show ?thesis
  proof (cases "r \<noteq> 0 \<or> unat (val_i64 (pf_val g)) > usz (pf_left g)")
    case True
    then have "f' = g" using assms(1) g by (auto simp: pb_decode_string_def split: if_splits)
    then show ?thesis using c by simp
  next
    case False
    then have "unat (val_i64 (pf_val g)) \<le> nat (pf_left g)" using bounds by simp
    then have le: "int (unat (val_i64 (pf_val g))) \<le> pf_left g"
      "u32n (unat (val_i64 (pf_val g))) = unat (val_i64 (pf_val g))"
      using bounds by (auto simp del: of_nat_unat)
    then have "consumed g f'"
      using assms(1) g False
      by (auto simp: pb_decode_string_def consumed_def Let_def simp del: of_nat_unat
          intro!: exI [of _ "unat (val_i64 (pf_val g))"])
    then show ?thesis using c(1) by (rule consumed_trans [rotated])
  qed
qed

text \<open>A record whose \<open>left\<close> bytes are inside the buffer: what \<open>pb_begin\<close> sets up.\<close>

definition pf_ok :: "pb_field \<Rightarrow> bool" where
  "pf_ok f \<longleftrightarrow> 0 \<le> pf_left f \<and> pf_left f \<le> int (length (pf_ptr f)) \<and> pf_left f < 2 ^ 31"

lemma consumed_ok: "consumed f f' \<Longrightarrow> pf_ok f \<Longrightarrow> pf_ok f'"
  by (auto simp: consumed_def pf_ok_def)

lemma pb_decode_body_left:
  assumes "pb_decode_body f = (ret, f')"
  shows "pf_left f' \<le> pf_left f"
proof (cases "pf_type f")
  case PB_WT_STRING
  obtain r g where g: "pb_decode_varint f = (r, g)" by (cases "pb_decode_varint f")
  have "pf_left g \<le> pf_left f" using pb_decode_varint_consumed(1) [OF g] by (rule consumed_left)
  moreover have "pf_left f' \<le> pf_left g"
    using assms g PB_WT_STRING
    by (auto simp: pb_decode_body_def pb_decode_string_def Let_def split: if_splits)
  ultimately show ?thesis by simp
qed (use assms in \<open>auto simp: pb_decode_body_def
      dest!: pb_decode_varint_consumed(1) pb_decode_fixed_consumed consumed_left\<close>)

lemma pb_decode_body_consumed:
  assumes "pb_decode_body f = (ret, f')" and "pf_ok f"
  shows "consumed f f'"
  using assms
  by (cases "pf_type f") (auto simp: pb_decode_body_def pf_ok_def
      dest: pb_decode_varint_consumed pb_decode_fixed_consumed pb_decode_string_consumed)

lemma pb_decode_tag_left:
  assumes "pb_decode_tag f = (0, f')"
  shows "1 \<le> pf_left f \<and> pf_left f' < pf_left f"
proof -
  obtain r g where g: "pb_decode_varint f = (r, g)" by (cases "pb_decode_varint f")
  then have "r = 0" using assms by (auto simp: pb_decode_tag_def split: if_splits)
  then have "1 \<le> pf_left f" "pf_left g < pf_left f" using pb_decode_varint_consumed(2) [OF g] by auto
  moreover have "pf_left f' \<le> pf_left g"
    using assms g by (auto simp: pb_decode_tag_def split: if_splits dest: pb_decode_body_left)
  ultimately show ?thesis by simp
qed

lemma pb_decode_tag_consumed:
  assumes "pb_decode_tag f = (ret, f')" and "pf_ok f"
  shows "consumed f f'"
proof -
  obtain r g where g: "pb_decode_varint f = (r, g)" by (cases "pb_decode_varint f")
  have c: "consumed f g" by (rule pb_decode_varint_consumed [OF g])
  have ok: "pf_ok g" using c assms(2) by (rule consumed_ok)
  define h where "h = g\<lparr>pf_tag := ucast (drop_bit 3 (val_i64 (pf_val g))),
      pf_type := wire_of (unat (val_i32 (pf_val g) AND 7))\<rparr>"
  have h: "consumed f h" "pf_ok h" using c ok by (auto simp: h_def pf_ok_def intro: consumed_cong)
  show ?thesis
  proof (cases "r \<noteq> 0 \<or> val_i64 (pf_val g) = 0")
    case True
    then have "pf_ptr f' = pf_ptr g \<and> pf_left f' = pf_left g"
      using assms(1) g by (auto simp: pb_decode_tag_def split: if_splits)
    then show ?thesis using c by (auto intro: consumed_cong)
  next
    case False
    then have "pb_decode_body h = (ret, f')"
      using assms(1) g by (auto simp: pb_decode_tag_def h_def)
    then have "consumed h f'" using h(2) by (rule pb_decode_body_consumed)
    with h(1) show ?thesis by (rule consumed_trans)
  qed
qed

text \<open>The loop \<open>knv_begin\<close>, \<open>knv_next\<close>, \<dots> that reads every field of a message.\<close>

function pb_read_all :: "pb_field \<Rightarrow> (u32 \<times> pb_wire_type \<times> pb_val) list \<times> bool" where
  "pb_read_all f =
     (case pb_next f of (ok, f') \<Rightarrow>
        if ok then (case pb_read_all f' of (fs, e) \<Rightarrow> ((pf_tag f', pf_type f', pf_val f') # fs, e))
        else ([], pf_eom f'))"
  by pat_completeness auto
termination
  by (relation "measure (\<lambda>f. nat (pf_left f))")
     (auto simp: pb_next_def split: prod.splits dest!: pb_decode_tag_left)

section \<open>Messages\<close>

declare pb_read_all.simps [simp del]

lemma pb_begin_next: "pb_begin f data dlen = pb_next (pb_start data dlen f)"
  by (simp add: pb_begin_def pb_next_def pb_start_def)

lemma pb_add_all_bytes:
  assumes "list_all (\<lambda>(t, wt, v). wf_field t wt v) fs"
    and "int (length (fields_bytes fs)) \<le> bleft b" and "bleft b < 2147483648"
  shows "pb_add_all b fs =
    (0, b\<lparr>bout := bout b @ fields_bytes fs, bleft := bleft b - int (length (fields_bytes fs))\<rparr>)"
  using assms
proof (induction fs arbitrary: b)
  case Nil
  then show ?case by (simp add: fields_bytes_def)
next
  case (Cons x fs)
  obtain t wt v where x: "x = (t, wt, v)" by (cases x)
  have len: "int (length (field_bytes t wt v)) + int (length (fields_bytes fs)) \<le> bleft b"
    using Cons.prems x by (simp add: fields_bytes_def)
  have "pb_add_field_val b t wt v = (0, b\<lparr>bout := bout b @ field_bytes t wt v,
      bleft := bleft b - int (length (field_bytes t wt v))\<rparr>)"
    using Cons.prems x len by (intro pb_add_field_val_bytes) (auto simp: wf_field_def)
  then show ?case
    using Cons x len by (simp add: fields_bytes_def algebra_simps)
qed

lemma pb_read_all_end:
  assumes "pf_left f = 0"
  shows "pb_read_all f = ([], True)"
proof -
  have "pb_decode_varint f = (-2, f)"
    using assms by (simp add: pb_decode_varint_def varint_loop.simps [of f] pb_get_byte_def)
  then show ?thesis
    using assms by (simp add: pb_read_all.simps [of f] pb_next_def pb_decode_tag_def)
qed

lemma dec_val_view:
  "wf_field t wt v \<Longrightarrow> field_view (t, wt, dec_val wt v old) = field_view (t, wt, v)"
  by (simp add: dec_val_def val_i32_def wf_field_def)

lemma pb_read_all_bytes:
  assumes "list_all (\<lambda>(t, wt, v). wf_field t wt v) fs"
    and "pf_ptr f = fields_bytes fs @ rest" and "pf_left f = int (length (fields_bytes fs))"
    and "pf_left f < 2147483648"
  shows "\<exists>gs. pb_read_all f = (gs, True) \<and> map field_view gs = map field_view fs"
  using assms
proof (induction fs arbitrary: f)
  case Nil
  then show ?case by (simp add: pb_read_all_end fields_bytes_def)
next
  case (Cons x fs)
  obtain t wt v where x: "x = (t, wt, v)" by (cases x)
  have wf: "wf_field t wt v" using Cons.prems x by simp
  let ?n = "int (length (field_bytes t wt v))"
  define g where "g = f\<lparr>pf_tag := t, pf_type := wt, pf_val := dec_val wt v (pf_val f),
      pf_ptr := fields_bytes fs @ rest, pf_left := pf_left f - ?n\<rparr>"
  have left: "pf_left f = ?n + int (length (fields_bytes fs))"
    using Cons.prems x by (simp add: fields_bytes_def)
  have "pb_decode_tag f = (0, g)"
    unfolding g_def using Cons.prems x wf left
    by (intro pb_decode_tag_field) (auto simp: fields_bytes_def)
  then have "pb_read_all f =
      (case pb_read_all g of (gs, e) \<Rightarrow> ((pf_tag g, pf_type g, pf_val g) # gs, e))"
    by (simp add: pb_read_all.simps [of f] pb_next_def)
  moreover have "pf_ptr g = fields_bytes fs @ rest" "pf_left g = int (length (fields_bytes fs))"
    "pf_left g < 2147483648" "list_all (\<lambda>(t, wt, v). wf_field t wt v) fs"
    using left Cons.prems by (auto simp: g_def)
  then obtain gs where "pb_read_all g = (gs, True)" "map field_view gs = map field_view fs"
    using Cons.IH [of g] by blast
  ultimately show ?case
    using dec_val_view [OF wf] x by (simp add: g_def)
qed

lemma sless_zero_bit: "s <s (0 :: u64) \<longleftrightarrow> bit s 63"
  by (simp add: word_sless_alt sint_uint signed_take_bit_negative_iff bit_uint_iff)

lemma and_1_bit: "u AND 1 \<noteq> (0 :: u64) \<longleftrightarrow> bit u 0"
  by (simp add: and_one_eq odd_iff_mod_2_eq_one bit_0)

lemma pb_int2uint_bit:
  assumes "n < 64"
  shows "bit (pb_int2uint s) n \<longleftrightarrow> (n \<noteq> 0 \<and> bit s (n - 1)) \<noteq> bit s 63"
proof -
  have "bit (push_bit 1 s) n \<longleftrightarrow> n \<noteq> 0 \<and> bit s (n - 1)"
    unfolding bit_push_bit_iff using assms by auto
  moreover have "bit (NOT (push_bit 1 s)) n \<longleftrightarrow> \<not> bit (push_bit 1 s) n"
    unfolding bit_not_iff using assms by simp
  ultimately show ?thesis
    unfolding pb_int2uint_def sless_zero_bit by presburger
qed

lemma pb_uint2int_bit:
  assumes "n < 64"
  shows "bit (pb_uint2int u) n \<longleftrightarrow> bit u (Suc n) \<noteq> bit u 0"
proof -
  have "bit (drop_bit 1 u) n \<longleftrightarrow> bit u (Suc n)"
    unfolding bit_drop_bit_eq by simp
  moreover have "bit (NOT (drop_bit 1 u)) n \<longleftrightarrow> \<not> bit (drop_bit 1 u) n"
    unfolding bit_not_iff using assms by simp
  ultimately show ?thesis
    unfolding pb_uint2int_def and_1_bit by presburger
qed

lemma bit_u64_top: "\<not> bit (x :: u64) 64"
  using bit_imp_le_length [of x 64] by auto

lemma varint_loop_type:
  "varint_loop f bp r = (ret, f') \<Longrightarrow> pf_type f' = pf_type f \<and> val_data (pf_val f') = val_data (pf_val f)"
proof (induction f bp r arbitrary: ret f' rule: varint_loop.induct)
  case (1 f bp r)
  obtain rb b g where b: "pb_get_byte f = (rb, b, g)" by (cases "pb_get_byte f")
  have g: "pf_type g = pf_type f" "val_data (pf_val g) = val_data (pf_val f)"
    using b by (auto simp: pb_get_byte_def split: if_splits)
  show ?case
    using "1.prems" "1.IH" [OF _ b [symmetric] refl] b g
    by (auto simp: varint_loop.simps [of f] Let_def split: if_splits)
qed

lemma pb_decode_varint_type: "pb_decode_varint f = (ret, f') \<Longrightarrow> pf_type f' = pf_type f"
  using varint_loop_type [of f 0 0] by (simp add: pb_decode_varint_def)

lemma unat_set_i32: "unat (val_i32 (set_i32 x v)) = unat x"
proof -
  have "val_i32 (set_i32 x v) = x"
    by (rule bit_word_eqI) (auto simp: val_i32_def set_i32_def bit_ucast_iff bit_or_iff bit_and_iff
        bit_push_bit_iff)
  then show ?thesis by simp
qed

lemma val_i32_data [simp]: "val_i32 (v\<lparr>val_data := d\<rparr>) = val_i32 v"
  by (simp add: val_i32_def)

lemma pb_decode_body_string:
  assumes "pb_decode_body f = (0, f')" and "pf_ok f" and "pf_type f' = PB_WT_STRING"
  shows "length (val_data (pf_val f')) = unat (val_i32 (pf_val f')) \<and>
    (\<exists>pre. pf_ptr f = pre @ val_data (pf_val f') @ pf_ptr f')"
proof -
  have ty: "pf_type f' = pf_type f"
    using assms(1)
    by (cases "pf_type f") (auto simp: pb_decode_body_def pb_decode_fixed32_def pb_get_dword_def
        pb_decode_fixed64_def pb_get_ddword_def pb_decode_string_def Let_def
        split: if_splits prod.splits dest: pb_decode_varint_type)
  obtain r g where g: "pb_decode_varint f = (r, g)" by (cases "pb_decode_varint f")
  have ok: "pf_ok g" using pb_decode_varint_consumed(1) [OF g] assms(2) by (rule consumed_ok)
  obtain n where n: "pf_ptr g = drop n (pf_ptr f)"
    using pb_decode_varint_consumed(1) [OF g] by (auto simp: consumed_def)
  let ?n = "unat (val_i64 (pf_val g))"
  have le: "?n \<le> nat (pf_left g)" and f': "f' = g\<lparr>pf_val := (set_i32 (of_nat ?n) (pf_val g))
      \<lparr>val_data := take ?n (pf_ptr g)\<rparr>, pf_ptr := drop ?n (pf_ptr g), pf_left := pf_left g - int ?n\<rparr>"
    using assms(1,3) ty g ok
    by (auto simp: pb_decode_body_def pb_decode_string_def Let_def pf_ok_def split: if_splits)
  have small: "?n < 2147483648" "?n \<le> length (pf_ptr g)" using le ok by (auto simp: pf_ok_def)
  then have "unat (of_nat ?n :: u32) = ?n" by (simp add: unsigned_ucast_eq take_bit_nat_eq_self)
  then have "length (val_data (pf_val f')) = unat (val_i32 (pf_val f'))"
    using f' small by (simp add: unat_set_i32)
  moreover have "pf_ptr g = val_data (pf_val f') @ pf_ptr f'"
    using f' by simp
  then have "pf_ptr f = take n (pf_ptr f) @ val_data (pf_val f') @ pf_ptr f'"
    by (metis n append_take_drop_id)
  ultimately show ?thesis by blast
qed

lemma vint_length_bound: "unat v < 2 ^ (7 * k) \<Longrightarrow> vint_length_loop v \<le> k"
proof (induction v arbitrary: k rule: vint_length_loop.induct)
  case (1 v)
  show ?case
  proof (cases "v = 0")
    case True
    then show ?thesis by (simp add: vint_length_loop.simps)
  next
    case False
    then obtain j where k: "k = Suc j" using "1.prems" by (cases k) (auto simp: unat_eq_zero)
    have "unat (drop_bit 7 v) < 2 ^ (7 * j)"
      using "1.prems" k by (simp add: unat_drop7 power_add less_mult_imp_div_less)
    then have "vint_length_loop (drop_bit 7 v) \<le> j" using "1.IH" False by blast
    then show ?thesis using False k by (simp add: vint_length_loop.simps [of v])
  qed
qed

lemma pb_eval_vint_length_bounds: "1 \<le> pb_eval_vint_length v \<and> pb_eval_vint_length v \<le> 10"
proof -
  have "unat v < 2 ^ (7 * 10)"
    using unsigned_less [of v] by (rule less_le_trans) simp
  then have "vint_length_loop v \<le> 10" by (rule vint_length_bound)
  then show ?thesis by (auto simp: pb_eval_vint_length_def vint_length_loop.simps [of v])
qed


lemma pb_add_eq:
  "buff_ok b \<Longrightarrow> pb_add b xs = (if bleft b < int (length xs) then (-1, b)
     else (0, b\<lparr>bout := bout b @ xs, bleft := bleft b - int (length xs)\<rparr>))"
  by (auto simp: pb_add_def buff_ok_def)

lemma buff_ok_append:
  "buff_ok b \<Longrightarrow> int (length xs) \<le> bleft b \<Longrightarrow>
     buff_ok (b\<lparr>bout := bout b @ xs, bleft := bleft b - int (length xs)\<rparr>)"
  by (auto simp: buff_ok_def)

lemma buff_ok_left: "buff_ok b \<Longrightarrow> 0 \<le> bleft b \<and> bleft b < 2147483648"
  by (auto simp: buff_ok_def)

lemma pb_add_field_val_full:
  assumes "buff_ok b" and "known_wire wt" and "bleft b < int (length (field_bytes t wt v))"
  shows "fst (pb_add_field_val b t wt v) \<noteq> 0 \<and> buff_ok (snd (pb_add_field_val b t wt v))"
proof -
  let ?t = "vint_buffer (ucast (tag_word wt t))"
  let ?b = "b\<lparr>bout := bout b @ ?t, bleft := bleft b - int (length ?t)\<rparr>"
  show ?thesis
  proof (cases "bleft b < int (length ?t)")
    case True
    then show ?thesis
      using assms by (simp add: pb_add_field_val_def pb_add_tag_def pb_add_vint_def pb_add_eq)
  next
    case False
    then have ok: "buff_ok ?b" and tag: "pb_add_tag b wt t = (0, ?b)"
      using assms by (auto simp: buff_ok_append pb_add_tag_def pb_add_vint_def pb_add_eq)
    show ?thesis
    proof (cases wt)
      case PB_WT_STRING
      let ?n = "vint_buffer (ucast (val_i32 v))"
      show ?thesis
      proof (cases "bleft ?b < int (length ?n)")
        case True
        then show ?thesis
          using ok tag PB_WT_STRING by (simp add: pb_add_field_val_def pb_add_vint_def pb_add_eq)
      next
        case False
        have ok2: "buff_ok (?b\<lparr>bout := bout ?b @ ?n, bleft := bleft ?b - int (length ?n)\<rparr>)"
          using buff_ok_append [OF ok, of ?n] False by simp
        then show ?thesis
          using ok tag PB_WT_STRING False assms(3)
          by (simp add: pb_add_field_val_def pb_add_vint_def pb_add_eq field_bytes_def)
      qed
    qed (use ok tag assms buff_ok_left [OF ok] in \<open>simp_all add: pb_add_field_val_def pb_add_vint_def
        pb_add_dword_pb_add pb_add_ddword_pb_add pb_add_eq field_bytes_def\<close>)
  qed
qed

lemma push3_alias: "push_bit 3 (t + 2 ^ 29 :: u32) = push_bit 3 t"
proof -
  have "(2 :: u32) ^ 29 * 2 ^ 3 = 2 ^ 32" by (simp only: power_add [symmetric]) simp
  also have "\<dots> = 0" using word_exp_length_eq_0 [where 'a = 32] by (simp only: len_num0 len_of_numeral_defs) simp
  finally show ?thesis by (simp only: push_bit_eq_mult distrib_right) simp
qed

section \<open>Properties\<close>

text \<open>(C11) Writing any list of well-formed fields with \<open>pb_add_field_val\<close> into a buffer that has
  room for them succeeds, and iterating over the written bytes with \<open>pb_begin\<close> and \<open>pb_next\<close>,
  whatever follows them in memory, yields the same tags, types and values in the same order and
  then stops with \<open>eom\<close> set.\<close>

theorem pb_message_roundtrip:
  assumes "list_all (\<lambda>(t, wt, v). wf_field t wt v) fs"
    and "length (fields_bytes fs) \<le> sz" and "sz < 2 ^ 31"
  shows "\<exists>b gs. pb_add_all (pb_init_buff sz) fs = (0, b) \<and>
    pb_read_all (pb_start (bout b @ junk) (pb_get_encoded_length b) f) = (gs, True) \<and>
    map field_view gs = map field_view fs"
proof -
  let ?b = "\<lparr>bout = fields_bytes fs, bsize = sz, bleft = int sz - int (length (fields_bytes fs))\<rparr>"
  have add: "pb_add_all (pb_init_buff sz) fs = (0, ?b)"
    using assms by (simp add: pb_add_all_bytes pb_init_buff_def)
  have len: "pb_get_encoded_length ?b = int (length (fields_bytes fs))"
    using assms by (simp add: pb_get_encoded_length_def)
  obtain gs where "pb_read_all (pb_start (fields_bytes fs @ junk) (int (length (fields_bytes fs))) f) = (gs, True)"
      "map field_view gs = map field_view fs"
    using pb_read_all_bytes [OF assms(1), of "pb_start (fields_bytes fs @ junk) (int (length (fields_bytes fs))) f" junk]
      assms by (auto simp: pb_start_def)
  then show ?thesis using add len by auto
qed

lemmas vint_eval = vint_buffer_length pb_eval_vint_length_def vint_length_loop.simps

theorem pb_message_roundtrip_witness:
  "\<exists>b gs. pb_add_all (pb_init_buff 16)
        [(1, PB_WT_STRING, \<lparr>val_i64 = 2, val_data = [0x41, 0x42]\<rparr>),
         (2, PB_WT_VARINT, \<lparr>val_i64 = 300, val_data = []\<rparr>)] = (0, b) \<and>
    pb_read_all (pb_start (bout b @ [7]) (pb_get_encoded_length b)
      \<lparr>pf_tag = 0, pf_eom = False, pf_type = PB_WT_VARINT, pf_val = \<lparr>val_i64 = 0, val_data = []\<rparr>,
       pf_ptr = [], pf_left = 0\<rparr>) = (gs, True) \<and>
    map field_view gs = [(1, PB_WT_STRING, Inr [0x41, 0x42]), (2, PB_WT_VARINT, Inl 300)]"
proof -
  let ?fs = "[(1, PB_WT_STRING, \<lparr>val_i64 = 2, val_data = [0x41, 0x42]\<rparr>),
         (2, PB_WT_VARINT, \<lparr>val_i64 = 300, val_data = []\<rparr>)] :: (u32 \<times> pb_wire_type \<times> pb_val) list"
  have "list_all (\<lambda>(t, wt, v). wf_field t wt v) ?fs"
    by (simp add: wf_field_def val_i32_def)
  moreover have "length (fields_bytes ?fs) \<le> 16"
    by (simp add: fields_bytes_def field_bytes_def vint_eval val_i32_def tag_word_def wire_num_def)
  ultimately show ?thesis
    using pb_message_roundtrip [of ?fs 16 "[7]"] by simp
qed

text \<open>(C15) On any input the reader stays inside the \<open>left\<close> bytes it was given: after
  \<open>pb_decode_tag\<close> the record still describes a suffix of the same buffer, a successful read makes
  progress, and a string it returns has the announced length and lies inside the input.\<close>

theorem pb_decode_tag_safe:
  assumes "pf_ok f" and "pb_decode_tag f = (ret, f')"
  shows "pf_ok f' \<and> consumed f f' \<and>
    (ret = 0 \<longrightarrow> pf_left f' < pf_left f \<and>
      (pf_type f' = PB_WT_STRING \<longrightarrow> length (val_data (pf_val f')) = unat (val_i32 (pf_val f')) \<and>
         (\<exists>pre. pf_ptr f = pre @ val_data (pf_val f') @ pf_ptr f')))"
proof -
  have c: "consumed f f'" using assms(2,1) by (rule pb_decode_tag_consumed)
  have "length (val_data (pf_val f')) = unat (val_i32 (pf_val f')) \<and>
      (\<exists>pre. pf_ptr f = pre @ val_data (pf_val f') @ pf_ptr f')"
    if ret: "ret = 0" and ty: "pf_type f' = PB_WT_STRING"
  proof -
    obtain r g where g: "pb_decode_varint f = (r, g)" by (cases "pb_decode_varint f")
    have cg: "consumed f g" by (rule pb_decode_varint_consumed [OF g])
    define h where "h = g\<lparr>pf_tag := ucast (drop_bit 3 (val_i64 (pf_val g))),
      pf_type := wire_of (unat (val_i32 (pf_val g) AND 7))\<rparr>"
    have h: "consumed f h" "pf_ok h"
      using cg consumed_ok [OF cg assms(1)] by (auto simp: h_def pf_ok_def intro: consumed_cong)
    have "pb_decode_body h = (0, f')"
      using assms(2) g ret by (auto simp: pb_decode_tag_def h_def split: if_splits)
    then have s: "length (val_data (pf_val f')) = unat (val_i32 (pf_val f'))"
      "\<exists>pre. pf_ptr h = pre @ val_data (pf_val f') @ pf_ptr f'"
      using pb_decode_body_string h(2) ty by blast+
    obtain n where "pf_ptr h = drop n (pf_ptr f)" using h(1) by (auto simp: consumed_def)
    then have "pf_ptr f = take n (pf_ptr f) @ pf_ptr h" by simp
    then show ?thesis using s by (metis append.assoc)
  qed
  then show ?thesis
    using c consumed_ok [OF c assms(1)] pb_decode_tag_left assms(2) by blast
qed

theorem pb_decode_tag_safe_witness:
  "\<exists>f f'. pf_ok f \<and> pb_decode_tag f = (0, f') \<and> pf_ok f' \<and> consumed f f' \<and>
     pf_left f' < pf_left f \<and> val_data (pf_val f') = [0x41]"
proof -
  let ?f = "\<lparr>pf_tag = 0, pf_eom = False, pf_type = PB_WT_VARINT,
    pf_val = \<lparr>val_i64 = 0, val_data = []\<rparr>, pf_ptr = [0x0A, 1, 0x41, 9], pf_left = 3\<rparr> :: pb_field"
  let ?g = "?f\<lparr>pf_tag := 1, pf_type := PB_WT_STRING,
    pf_val := \<lparr>val_i64 = 1, val_data = [0x41]\<rparr>, pf_ptr := [9], pf_left := 0\<rparr>"
  have ok: "pf_ok ?f" by (simp add: pf_ok_def)
  have d: "pb_decode_tag ?f = (0, ?g)"
    by (simp add: pb_decode_tag_def pb_decode_varint_def varint_loop.simps pb_get_byte_def
        val_i32_def wire_of_def pb_decode_body_def pb_decode_string_def set_i32_def)
  show ?thesis using pb_decode_tag_safe [OF ok d] ok d by auto
qed

text \<open>\<open>pb_eval_field_length\<close> predicts exactly how many bytes \<open>pb_add_field_val\<close> appends: the
  call succeeds iff that many bytes are left, appends the field's encoding, and in no case writes
  past the end of the buffer.\<close>

theorem pb_eval_field_length_exact:
  assumes "buff_ok b" and "wf_field t wt v" and "unat (val_i32 v) < 2 ^ 30"
  shows "case pb_add_field_val b t wt v of (ret, b') \<Rightarrow>
    buff_ok b' \<and> (ret = 0 \<longleftrightarrow> pb_eval_field_length t wt v \<le> bleft b) \<and>
    (ret = 0 \<longrightarrow> pb_get_encoded_length b' = pb_get_encoded_length b + pb_eval_field_length t wt v \<and>
       bout b' = bout b @ field_bytes t wt v)"
proof -
  have kw: "known_wire wt" using assms(2) by (simp add: wf_field_def)
  have tl: "length (vint_buffer x) \<le> 10" for x
    using pb_eval_vint_length_bounds [of x] by (simp add: vint_buffer_length)
  have "length (field_bytes t wt v) < 2 ^ 31"
    using tl [of "ucast (tag_word wt t)"] tl [of "val_i64 v"] tl [of "ucast (val_i32 v)"] assms(2,3) kw
    by (cases wt) (auto simp: field_bytes_def)
  then have len: "pb_eval_field_length t wt v = int (length (field_bytes t wt v))"
    using assms(2) by (intro field_bytes_length)
  show ?thesis
  proof (cases "int (length (field_bytes t wt v)) \<le> bleft b")
    case True
    then show ?thesis
      using pb_add_field_val_bytes [OF True] assms(1) kw len
      by (auto simp: buff_ok_def pb_get_encoded_length_def)
  next
    case False
    then show ?thesis
      using pb_add_field_val_full [of b wt t v] assms(1) kw len by (auto split: prod.splits)
  qed
qed

theorem pb_eval_field_length_exact_witness:
  "fst (pb_add_field_val (pb_init_buff 8) 3 PB_WT_VARINT \<lparr>val_i64 = 300, val_data = []\<rparr>) = 0 \<and>
   pb_eval_field_length 3 PB_WT_VARINT \<lparr>val_i64 = 300, val_data = []\<rparr> = 3"
proof -
  let ?v = "\<lparr>val_i64 = 300, val_data = []\<rparr> :: pb_val"
  have len: "pb_eval_field_length 3 PB_WT_VARINT ?v = 3"
    by (simp add: pb_eval_field_length_def pb_eval_tag_length_def vint_eval tag_word_def wire_num_def)
  have "buff_ok (pb_init_buff 8)" "wf_field 3 PB_WT_VARINT ?v" "unat (val_i32 ?v) < 2 ^ 30"
    by (simp_all add: buff_ok_def pb_init_buff_def wf_field_def val_i32_def)
  from pb_eval_field_length_exact [OF this] len show ?thesis
    by (auto simp: pb_init_buff_def split: prod.splits)
qed

text \<open>The zig-zag conversions of signed integers are inverse to each other on all 64-bit
  values, the most negative one included.\<close>

theorem pb_zigzag_roundtrip: "pb_uint2int (pb_int2uint s) = s \<and> pb_int2uint (pb_uint2int u) = u"
proof
  show "pb_uint2int (pb_int2uint s) = s"
  proof (rule bit_word_eqI)
    fix n
    assume "n < LENGTH(64)"
    then show "bit (pb_uint2int (pb_int2uint s)) n = bit s n"
      by (cases "n = 63") (auto simp: pb_uint2int_bit pb_int2uint_bit bit_u64_top)
  qed
  show "pb_int2uint (pb_uint2int u) = u"
  proof (rule bit_word_eqI)
    fix n
    assume "n < LENGTH(64)"
    then show "bit (pb_int2uint (pb_uint2int u)) n = bit u n"
      by (cases n) (auto simp: pb_uint2int_bit pb_int2uint_bit bit_u64_top)
  qed
qed

text \<open>The tag is shifted in 32 bits: a field number and the one \<open>2 ^ 29\<close> above it are written
  as the same bytes, so tags of 30 bits and more do not survive a round trip.\<close>

theorem pb_tag_alias: "pb_add_field_val b (t + 2 ^ 29) wt v = pb_add_field_val b t wt v"
proof -
  have "tag_word wt (t + 2 ^ 29) = tag_word wt t"
    unfolding tag_word_def push3_alias ..
  then show ?thesis by (simp add: pb_add_field_val_def pb_add_tag_def)
qed

end
