(* ===== verification/Link_Table.thy ===== *)
theory Link_Table
  imports Prelude
begin

text \<open>
  The block store of \<open>ht/link_table.h\<close> and \<open>ht/link_table.cc\<close>: an array of fixed-size blocks in
  which a datum is a chain of blocks linked by \<open>ddwNext\<close>, a free list threaded through unused
  blocks, a linear search for empty blocks, and a pool of start positions whose chains are freed
  only when their slot of the pool is used again.

  \<open>LinkTableMem\<close> is the memory an initialised table points at: the fields of \<open>LinkTableHead\<close>
  and the blocks behind it. A \<open>LinkTable\<close> object is \<open>None\<close> while its pointers are \<open>NULL\<close>.
  Unsigned 64-bit values are natural numbers, with the bit fields' truncation, the wrap-around
  and the \<open>int\<close> casts written out. The two fixed arrays of the header are functions on indices.
  Error texts and the monitoring counters (\<open>Attr_API\<close>) are not modelled.
\<close>

section \<open>Definitions\<close>

definition MAX_BLOCK_COUNT :: nat where
  "MAX_BLOCK_COUNT = 25 * 1024"

definition LT_MAX_RECYCLE_POOL_SIZE :: nat where
  "LT_MAX_RECYCLE_POOL_SIZE = 256 * 1024 div 8"

definition LT_DEF_RECYCLE_POOL_SIZE :: nat where
  "LT_DEF_RECYCLE_POOL_SIZE = 100"

definition LT_MAX_USRDATA_LEN :: nat where
  "LT_MAX_USRDATA_LEN = 512 * 1024 - 4"

record LtBlock =
  ddwNext :: nat
  ddwLengthInBlock :: nat
  bufData :: "byte list"

record LinkTableMem =
  ddwAllBlockCount :: nat
  ddwFreeBlockCount :: nat
  ddwBlockSize :: nat
  ddwLastEmpty :: nat
  ddwFirstFreePos :: nat
  ddwRecycleIndex :: nat
  dwRecyclePoolSize :: nat
  addwRecyclePool :: "nat \<Rightarrow> nat"
  dwUserDataLen :: nat
  sUserData :: "nat \<Rightarrow> byte"
  lt_blocks :: "LtBlock list"

type_synonym LinkTable = "LinkTableMem option"

text \<open>\<open>sizeof(LinkTableHead)\<close>: six 64-bit words, the pool size (4 bytes and 4 of padding), the
  pool, the reserved area, the user data length and the user data.\<close>

definition sizeof_LinkTableHead :: nat where
  "sizeof_LinkTableHead = 6 * 8 + 8 + 8 * LT_MAX_RECYCLE_POOL_SIZE + 256 * 1024 + 4 + LT_MAX_USRDATA_LEN"

definition EvalBufferSize :: "nat \<Rightarrow> nat \<Rightarrow> nat" where
  "EvalBufferSize uBlockCount uBlockSize = u64n (sizeof_LinkTableHead + uBlockCount * uBlockSize)"

definition EvalBlockCount :: "nat \<Rightarrow> nat \<Rightarrow> nat" where
  "EvalBlockCount uBuffSize uBlockSize = sub64 uBuffSize sizeof_LinkTableHead div uBlockSize"

subsection \<open>Initialisation\<close>

text \<open>\<open>Init\<close> clears the header only: the blocks keep what the buffer holds. The buffer is
  \<open>None\<close> for a \<open>NULL\<close> pointer, else the blocks it is cut into.\<close>

definition lt_Init :: "LinkTable \<Rightarrow> LtBlock list option \<Rightarrow> nat \<Rightarrow> nat \<Rightarrow> nat \<Rightarrow> int \<times> LinkTable" where
  "lt_Init lt pBuffer ddwBufferSize ddwBlockCount blockSize =
     (case pBuffer of
        None \<Rightarrow> (-1, lt)
      | Some bs \<Rightarrow>
          if ddwBufferSize < EvalBufferSize ddwBlockCount blockSize then (-1, lt)
          else (0, Some \<lparr>ddwAllBlockCount = sub64 ddwBlockCount 1,
                         ddwFreeBlockCount = sub64 ddwBlockCount 1,
                         ddwBlockSize = blockSize, ddwLastEmpty = 1, ddwFirstFreePos = 0,
                         ddwRecycleIndex = 0, dwRecyclePoolSize = LT_DEF_RECYCLE_POOL_SIZE,
                         addwRecyclePool = (\<lambda>_. 0), dwUserDataLen = 0, sUserData = (\<lambda>_. 0),
                         lt_blocks = bs\<rparr>))"

text \<open>\<open>InitExisting\<close> attaches to memory that already holds a table.\<close>

definition lt_InitExisting ::
    "LinkTable \<Rightarrow> LinkTableMem option \<Rightarrow> nat \<Rightarrow> nat \<Rightarrow> nat \<Rightarrow> int \<times> LinkTable" where
  "lt_InitExisting lt pBuffer ddwBufferSize ddwBlockCount blockSize =
     (case pBuffer of
        None \<Rightarrow> (-1, lt)
      | Some m \<Rightarrow>
          if ddwBufferSize < EvalBufferSize ddwBlockCount blockSize then (-1, lt)
          else if ddwAllBlockCount m \<noteq> sub64 ddwBlockCount 1 then (-2, Some m)
          else if ddwBlockSize m \<noteq> blockSize then (-3, Some m)
          else (0, Some m))"

subsection \<open>Blocks\<close>

definition LT_ELE_AT :: "LinkTableMem \<Rightarrow> nat \<Rightarrow> LtBlock" where
  "LT_ELE_AT m p = lt_blocks m ! p"

definition lt_store :: "LinkTableMem \<Rightarrow> nat \<Rightarrow> LtBlock \<Rightarrow> LinkTableMem" where
  "lt_store m p b = m\<lparr>lt_blocks := (lt_blocks m)[p := b]\<rparr>"

definition lt_set_next :: "LinkTableMem \<Rightarrow> nat \<Rightarrow> nat \<Rightarrow> LinkTableMem" where
  "lt_set_next m p q = lt_store m p ((LT_ELE_AT m p)\<lparr>ddwNext := u48n q\<rparr>)"

text \<open>The offset of \<open>bufData\<close> in \<open>LtBlock\<close> is 8.\<close>

definition BLOCK_DATA_LEN :: "LinkTableMem \<Rightarrow> nat" where
  "BLOCK_DATA_LEN m = sub64 (ddwBlockSize m) 8"

subsection \<open>Freeing\<close>

text \<open>The body of the loop of \<open>FreeBlock\<close>: clear the block and push it on the free list.\<close>

definition free_one :: "LinkTableMem \<Rightarrow> nat \<Rightarrow> LinkTableMem" where
  "free_one m cur =
     (let m1 = lt_store m cur \<lparr>ddwNext = u48n (ddwFirstFreePos m), ddwLengthInBlock = 0,
                               bufData = replicate (BLOCK_DATA_LEN m) 0\<rparr>
      in m1\<lparr>ddwFirstFreePos := cur, ddwFreeBlockCount := u64n (ddwFreeBlockCount m + 1)\<rparr>)"

text \<open>\<open>n\<close> counts the iterations that \<open>iCount <= MAX_BLOCK_COUNT\<close> still allows.\<close>

fun free_loop :: "LinkTableMem \<Rightarrow> nat \<Rightarrow> nat \<Rightarrow> int \<times> LinkTableMem" where
  "free_loop m 0 nxt = (if nxt \<noteq> 0 then (-4, m) else (0, m))"
| "free_loop m (Suc n) nxt =
     (if nxt = 0 then (0, m)
      else if nxt \<ge> ddwAllBlockCount m then (-3, m)
      else free_loop (free_one m nxt) n (ddwNext (LT_ELE_AT m nxt)))"

definition FreeBlock :: "LinkTableMem \<Rightarrow> nat \<Rightarrow> int \<times> LinkTableMem" where
  "FreeBlock m ddwStartPos =
     (if ddwStartPos = 0 \<or> ddwStartPos \<ge> ddwAllBlockCount m then (-2, m)
      else free_loop m (MAX_BLOCK_COUNT + 1) ddwStartPos)"

text \<open>\<open>RecycleBlock\<close> ignores the result of \<open>FreeBlock\<close>.\<close>

definition RecycleBlock :: "LinkTableMem \<Rightarrow> nat \<Rightarrow> int \<times> LinkTableMem" where
  "RecycleBlock m ddwStartPos =
     (let ddwIdx = (if ddwRecycleIndex m \<ge> dwRecyclePoolSize m then 0 else ddwRecycleIndex m);
          ddwOldPos = addwRecyclePool m ddwIdx;
          m1 = m\<lparr>addwRecyclePool := (addwRecyclePool m)(ddwIdx := ddwStartPos),
                 ddwRecycleIndex := (ddwIdx + 1) mod dwRecyclePoolSize m\<rparr>
      in (0, if ddwOldPos \<noteq> 0 then snd (FreeBlock m1 ddwOldPos) else m1))"

text \<open>The loop of \<open>EmptyRecyclePool\<close>, from index \<open>i\<close> on; \<open>n\<close> iterations are left.\<close>

fun empty_pool_loop :: "LinkTableMem \<Rightarrow> nat \<Rightarrow> nat \<Rightarrow> LinkTableMem" where
  "empty_pool_loop m i 0 = m"
| "empty_pool_loop m i (Suc n) =
     (let p = addwRecyclePool m i;
          m1 = (if p \<noteq> 0 then let m2 = snd (FreeBlock m p)
                             in m2\<lparr>addwRecyclePool := (addwRecyclePool m2)(i := 0)\<rparr>
                else m)
      in empty_pool_loop m1 (Suc i) n)"

definition EmptyRecyclePool :: "LinkTableMem \<Rightarrow> LinkTableMem" where
  "EmptyRecyclePool m = (empty_pool_loop m 0 (nat (s32 (dwRecyclePoolSize m))))\<lparr>ddwRecycleIndex := 0\<rparr>"

subsection \<open>Allocation\<close>

text \<open>The walk along the free list: \<open>n\<close> is \<open>iCount - i\<close>. The result gives the blocks that are
  still missing, the position after the last one taken, and the memory.\<close>

fun free_walk :: "LinkTableMem \<Rightarrow> nat \<Rightarrow> nat \<Rightarrow> nat \<times> nat \<times> LinkTableMem" where
  "free_walk m 0 cur = (0, cur, m)"
| "free_walk m (Suc n) cur =
     (if cur > 0 \<and> cur < ddwAllBlockCount m \<and> ddwLengthInBlock (LT_ELE_AT m cur) = 0
      then free_walk (if n = 0 then lt_set_next m cur 0 else m) n (ddwNext (LT_ELE_AT m cur))
      else (Suc n, cur, m))"

text \<open>The linear search: \<open>j\<close> iterations are left, \<open>n\<close> blocks are still missing.\<close>

fun lt_scan :: "LinkTableMem \<Rightarrow> nat \<Rightarrow> nat \<Rightarrow> nat \<Rightarrow> nat \<Rightarrow> nat \<times> nat \<times> nat \<times> LinkTableMem" where
  "lt_scan m 0 n start cur = (n, start, cur, m)"
| "lt_scan m (Suc j) n start cur =
     (if n = 0 then (n, start, cur, m)
      else let cur' = (if cur + 1 \<ge> ddwAllBlockCount m then 1 else cur + 1)
           in if ddwLengthInBlock (LT_ELE_AT m cur) = 0
              then lt_scan (lt_set_next m cur start) j (n - 1) cur cur'
              else lt_scan m j n start cur')"

definition GetEmptyBlock :: "LinkTableMem \<Rightarrow> int \<Rightarrow> nat \<Rightarrow> int \<times> nat \<times> LinkTableMem" where
  "GetEmptyBlock m iCount outPos =
     (if iCount < 0 \<or> iCount > int MAX_BLOCK_COUNT \<or> iCount > s32 (ddwFreeBlockCount m)
      then (-100, outPos, m)
      else case free_walk m (nat iCount) (ddwFirstFreePos m) of (missing, cur, m1) \<Rightarrow>
        if missing = 0 then (0, ddwFirstFreePos m, m1\<lparr>ddwFirstFreePos := cur\<rparr>)
        else case lt_scan m1 (nat (s32 (ddwAllBlockCount m1))) (nat iCount) 0 (ddwLastEmpty m1) of
          (missing2, start, cur2, m2) \<Rightarrow>
            if missing2 > 0 then (-100, outPos, m2)
            else (0, start, m2\<lparr>ddwLastEmpty := cur2\<rparr>))"

subsection \<open>Reading and writing data\<close>

text \<open>The loop of \<open>GetData\<close>, with the bytes copied so far. A chain that never ends is a call that
  never returns (\<open>None\<close>) when a block holds no data; otherwise the buffer size ends it.\<close>

partial_function (option) get_loop ::
    "LinkTableMem \<Rightarrow> int \<Rightarrow> nat \<Rightarrow> byte list \<Rightarrow> (int \<times> byte list) option" where
  "get_loop m iBufLen nxt acc =
     (if nxt = 0 then Some (0, acc)
      else if nxt \<ge> ddwAllBlockCount m then Some (-21, acc)
      else if int (length acc) + s32 (BLOCK_DATA_LEN m) > iBufLen then Some (-22, acc)
      else let b = LT_ELE_AT m nxt;
               wBlockLen = (if ddwNext b \<noteq> 0 then u16n (BLOCK_DATA_LEN m)
                            else if ddwLengthInBlock b > BLOCK_DATA_LEN m then u16n (BLOCK_DATA_LEN m)
                            else ddwLengthInBlock b)
           in get_loop m iBufLen (ddwNext b) (acc @ take wBlockLen (bufData b)))"

text \<open>The result is the return code and the bytes copied to the caller's buffer, whose number is
  stored in \<open>iOutDataLen\<close> when the code is 0. The test of the buffer size reads the header
  before the header is checked for \<open>NULL\<close>; on an uninitialised table that faults (\<open>None\<close>).\<close>

definition lt_GetData :: "LinkTable \<Rightarrow> nat \<Rightarrow> bool \<Rightarrow> int \<Rightarrow> (int \<times> byte list) option" where
  "lt_GetData lt ddwPos buf_ok iBufLen =
     (if \<not> buf_ok then Some (-1, [])
      else case lt of
        None \<Rightarrow> None
      | Some m \<Rightarrow> if iBufLen < s32 (BLOCK_DATA_LEN m) then Some (-1, [])
                  else get_loop m iBufLen ddwPos [])"

definition lt_block_write :: "LinkTableMem \<Rightarrow> nat \<Rightarrow> byte list \<Rightarrow> LinkTableMem" where
  "lt_block_write m p xs =
     (let b = LT_ELE_AT m p
      in lt_store m p (b\<lparr>bufData := xs @ drop (length xs) (bufData b),
                         ddwLengthInBlock := u16n (length xs)\<rparr>))"

text \<open>The copy loop of \<open>SetData\<close>: \<open>rest\<close> are the bytes not yet copied. The result gives a return
  code, \<open>ddwCurPos\<close>, \<open>ddwNextPos\<close>, the bytes that found no block, and the memory. With a block
  data length of 0 the caller has already divided by 0.\<close>

function set_loop :: "LinkTableMem \<Rightarrow> nat \<Rightarrow> nat \<Rightarrow> byte list \<Rightarrow> int \<times> nat \<times> nat \<times> byte list \<times> LinkTableMem" where
  "set_loop m cur nxt rest =
     (if nxt \<noteq> 0 \<and> rest \<noteq> [] \<and> BLOCK_DATA_LEN m \<noteq> 0
      then if nxt \<ge> ddwAllBlockCount m then (-8, nxt, nxt, rest, m)
           else let n = (if int (length rest) > s32 (BLOCK_DATA_LEN m) then BLOCK_DATA_LEN m
                         else length rest);
                    m1 = lt_block_write m nxt (take n rest)
                in set_loop (m1\<lparr>ddwFreeBlockCount := sub64 (ddwFreeBlockCount m1) 1\<rparr>) nxt
                     (ddwNext (LT_ELE_AT m1 nxt)) (drop n rest)
      else (0, cur, nxt, rest, m))"
  by pat_completeness auto
termination
  by (relation "measure (\<lambda>(m, cur, nxt, rest). length rest)") auto

declare set_loop.simps [simp del]

text \<open>\<open>iCount\<close> of \<open>SetData\<close>, computed in 64 bits and converted to \<open>int\<close>.\<close>

definition lt_block_num :: "LinkTableMem \<Rightarrow> int \<Rightarrow> int" where
  "lt_block_num m iDataLen =
     s32 (sub64 (u64n (nat iDataLen + BLOCK_DATA_LEN m)) 1 div BLOCK_DATA_LEN m)"

text \<open>The result is the return code, the reference argument \<open>ddwPos\<close> and the table. \<open>None\<close> is the
  division by zero for blocks without room for data.\<close>

definition lt_SetData :: "LinkTable \<Rightarrow> nat \<Rightarrow> byte list option \<Rightarrow> int \<Rightarrow> (int \<times> nat \<times> LinkTable) option" where
  "lt_SetData lt ddwPos sDataBuf iDataLen =
     (case sDataBuf of
        None \<Rightarrow> Some (-1, ddwPos, lt)
      | Some buf \<Rightarrow>
        if iDataLen < 0 then Some (-1, ddwPos, lt)
        else case lt of
          None \<Rightarrow> Some (-1, ddwPos, lt)
        | Some m \<Rightarrow>
          if BLOCK_DATA_LEN m = 0 then None
          else if lt_block_num m iDataLen > int MAX_BLOCK_COUNT then Some (-2, ddwPos, lt)
          else case GetEmptyBlock m (lt_block_num m iDataLen) 0 of (ret, start, m1) \<Rightarrow>
            if ret < 0 then Some (if ret = -100 then ret else -7, ddwPos, Some m1)
            else case set_loop m1 0 start (take (nat iDataLen) buf) of (r, cur, nxt, rest, m2) \<Rightarrow>
              if r < 0 then Some (r, ddwPos, Some m2)
              else if rest \<noteq> [] then Some (-9, ddwPos, Some m2)
              else let m3 = lt_set_next (lt_set_next m2 cur 0) 0 nxt
                   in Some (0, start, Some (if ddwPos \<noteq> 0 then snd (RecycleBlock m3 ddwPos) else m3)))"

definition lt_EraseData :: "LinkTable \<Rightarrow> nat \<Rightarrow> int \<times> LinkTable" where
  "lt_EraseData lt ddwPos =
     (case lt of
        None \<Rightarrow> (-1, lt)
      | Some m \<Rightarrow> (case RecycleBlock m ddwPos of (r, m') \<Rightarrow> (r, Some m')))"

subsection \<open>Pool size, header data and usage\<close>

definition SetRecyclePoolSize :: "LinkTable \<Rightarrow> int \<Rightarrow> int \<times> LinkTable" where
  "SetRecyclePoolSize lt sz =
     (if sz < 1 \<or> sz > int LT_MAX_RECYCLE_POOL_SIZE then (-1, lt)
      else case lt of
        None \<Rightarrow> (-2, lt)
      | Some m \<Rightarrow> (0, Some ((EmptyRecyclePool m)\<lparr>dwRecyclePoolSize := nat sz\<rparr>)))"

definition GetHeaderData :: "LinkTable \<Rightarrow> bool \<Rightarrow> int \<Rightarrow> int \<times> byte list" where
  "GetHeaderData lt buf_ok iSize =
     (if iSize \<le> 0 \<or> \<not> buf_ok then (-1, [])
      else case lt of
        None \<Rightarrow> (-2, [])
      | Some m \<Rightarrow> let n = (if iSize > s32 (dwUserDataLen m) then s32 (dwUserDataLen m) else iSize)
                  in (n, map (sUserData m) [0..<nat n]))"

definition SetHeaderData :: "LinkTable \<Rightarrow> byte list option \<Rightarrow> int \<Rightarrow> int \<times> LinkTable" where
  "SetHeaderData lt pData iLen =
     (if iLen < 0 \<or> (iLen \<noteq> 0 \<and> pData = None) then (-1, lt)
      else case lt of
        None \<Rightarrow> (-2, lt)
      | Some m \<Rightarrow>
          let n = (if iLen > int LT_MAX_USRDATA_LEN then int LT_MAX_USRDATA_LEN else iLen);
              d = (case pData of None \<Rightarrow> [] | Some xs \<Rightarrow> xs)
          in (n, Some (m\<lparr>sUserData := (\<lambda>i. if int i < n then d ! i else sUserData m i),
                         dwUserDataLen := nat n\<rparr>)))"

text \<open>\<open>100 - free * 100 / all\<close> in 64 bits, returned as an \<open>int\<close>.\<close>

definition GetUsage :: "LinkTable \<Rightarrow> int" where
  "GetUsage lt =
     (case lt of
        None \<Rightarrow> 0
      | Some m \<Rightarrow> s32 (sub64 100 (u64n (ddwFreeBlockCount m * 100) div ddwAllBlockCount m)))"


section \<open>Well-formed tables and chains\<close>

abbreviation lt_len :: "LinkTableMem \<Rightarrow> nat \<Rightarrow> nat" where
  "lt_len m p \<equiv> ddwLengthInBlock (LT_ELE_AT m p)"

abbreviation lt_next :: "LinkTableMem \<Rightarrow> nat \<Rightarrow> nat" where
  "lt_next m p \<equiv> ddwNext (LT_ELE_AT m p)"

definition lt_used :: "LinkTableMem \<Rightarrow> nat set" where
  "lt_used m = {p \<in> {1..<ddwAllBlockCount m}. lt_len m p \<noteq> 0}"

text \<open>The header and the block array agree, blocks have the configured size, and the free
  counter is the number of all blocks less the used ones.\<close>

definition lt_wf :: "LinkTableMem \<Rightarrow> bool" where
  "lt_wf m \<longleftrightarrow> 2 \<le> ddwAllBlockCount m \<and> ddwAllBlockCount m < 2 ^ 31 \<and>
     length (lt_blocks m) = ddwAllBlockCount m + 1 \<and>
     8 < ddwBlockSize m \<and> ddwBlockSize m < 65536 + 8 \<and>
     (\<forall>b \<in> set (lt_blocks m). length (bufData b) = BLOCK_DATA_LEN m) \<and>
     1 \<le> ddwLastEmpty m \<and> ddwLastEmpty m < ddwAllBlockCount m \<and>
     1 \<le> dwRecyclePoolSize m \<and> dwRecyclePoolSize m \<le> LT_MAX_RECYCLE_POOL_SIZE \<and>
     (\<forall>i \<ge> dwRecyclePoolSize m. addwRecyclePool m i = 0) \<and>
     ddwFreeBlockCount m + card (lt_used m) = ddwAllBlockCount m"

text \<open>\<open>lt_chain P m p xs\<close>: from \<open>p\<close> the links run through the blocks \<open>xs\<close>, all in range and all of
  them satisfying \<open>P\<close>, and end at 0.\<close>

fun lt_chain :: "(nat \<Rightarrow> bool) \<Rightarrow> LinkTableMem \<Rightarrow> nat \<Rightarrow> nat list \<Rightarrow> bool" where
  "lt_chain P m p [] \<longleftrightarrow> p = 0"
| "lt_chain P m p (x # xs) \<longleftrightarrow>
     p = x \<and> 0 < x \<and> x < ddwAllBlockCount m \<and> P (lt_len m x) \<and> lt_chain P m (lt_next m x) xs"

abbreviation lt_uchain :: "LinkTableMem \<Rightarrow> nat \<Rightarrow> nat list \<Rightarrow> bool" where
  "lt_uchain \<equiv> lt_chain (\<lambda>n. n \<noteq> 0)"

abbreviation lt_echain :: "LinkTableMem \<Rightarrow> nat \<Rightarrow> nat list \<Rightarrow> bool" where
  "lt_echain \<equiv> lt_chain (\<lambda>n. n = 0)"

text \<open>The bytes of a chain; every block but the last is full.\<close>

fun lt_chain_data :: "LinkTableMem \<Rightarrow> nat list \<Rightarrow> byte list" where
  "lt_chain_data m [] = []"
| "lt_chain_data m (x # xs) = take (lt_len m x) (bufData (LT_ELE_AT m x)) @ lt_chain_data m xs"

definition lt_full :: "LinkTableMem \<Rightarrow> nat list \<Rightarrow> bool" where
  "lt_full m xs \<longleftrightarrow> (\<forall>x \<in> set (butlast xs). lt_len m x = BLOCK_DATA_LEN m) \<and>
     lt_len m (last xs) \<le> BLOCK_DATA_LEN m"

definition lt_owns :: "LinkTableMem \<Rightarrow> nat \<Rightarrow> nat list \<Rightarrow> bool" where
  "lt_owns m p xs \<longleftrightarrow> xs \<noteq> [] \<and> length xs \<le> MAX_BLOCK_COUNT \<and> lt_uchain m p xs \<and> lt_full m xs"

text \<open>The datum stored at a position.\<close>

definition lt_holds :: "LinkTableMem \<Rightarrow> nat \<Rightarrow> byte list \<Rightarrow> bool" where
  "lt_holds m p d \<longleftrightarrow> (\<exists>xs. lt_owns m p xs \<and> d = lt_chain_data m xs)"

definition lt_pool :: "LinkTableMem \<Rightarrow> nat set" where
  "lt_pool m = {p. p \<noteq> 0 \<and> (\<exists>i. addwRecyclePool m i = p)}"

definition lt_roots_ok :: "LinkTableMem \<Rightarrow> nat set \<Rightarrow> bool" where
  "lt_roots_ok m R \<longleftrightarrow> (\<forall>p \<in> R. \<exists>xs. lt_owns m p xs) \<and>
     (\<forall>p \<in> R. \<forall>q \<in> R. \<forall>xs ys. p \<noteq> q \<longrightarrow> lt_owns m p xs \<longrightarrow> lt_owns m q ys \<longrightarrow> set xs \<inter> set ys = {})"

text \<open>The invariant: \<open>L\<close> are the positions clients hold. Live and recycled chains are disjoint.\<close>

definition lt_inv :: "LinkTableMem \<Rightarrow> nat set \<Rightarrow> bool" where
  "lt_inv m L \<longleftrightarrow> lt_wf m \<and> L \<inter> lt_pool m = {} \<and>
     (\<forall>i j. addwRecyclePool m i = addwRecyclePool m j \<longrightarrow> addwRecyclePool m i \<noteq> 0 \<longrightarrow> i = j) \<and>
     lt_roots_ok m (L \<union> lt_pool m)"

section \<open>Lemmas\<close>

lemma lt_invI:
  assumes "lt_wf m" "L \<inter> lt_pool m = {}" "lt_roots_ok m (L \<union> lt_pool m)"
    "\<And>i j. addwRecyclePool m i = addwRecyclePool m j \<Longrightarrow> addwRecyclePool m i \<noteq> 0 \<Longrightarrow> i = j"
  shows "lt_inv m L"
  using assms unfolding lt_inv_def by blast

lemma lt_store_sel [simp]:
  "ddwAllBlockCount (lt_store m p b) = ddwAllBlockCount m"
  "ddwFreeBlockCount (lt_store m p b) = ddwFreeBlockCount m"
  "ddwBlockSize (lt_store m p b) = ddwBlockSize m"
  "ddwLastEmpty (lt_store m p b) = ddwLastEmpty m"
  "ddwFirstFreePos (lt_store m p b) = ddwFirstFreePos m"
  "ddwRecycleIndex (lt_store m p b) = ddwRecycleIndex m"
  "dwRecyclePoolSize (lt_store m p b) = dwRecyclePoolSize m"
  "addwRecyclePool (lt_store m p b) = addwRecyclePool m"
  "length (lt_blocks (lt_store m p b)) = length (lt_blocks m)"
  by (simp_all add: lt_store_def)

lemma LT_ELE_AT_upd [simp]:
  "LT_ELE_AT (m\<lparr>ddwFreeBlockCount := a\<rparr>) p = LT_ELE_AT m p"
  "LT_ELE_AT (m\<lparr>ddwFirstFreePos := a\<rparr>) p = LT_ELE_AT m p"
  "LT_ELE_AT (m\<lparr>ddwLastEmpty := a\<rparr>) p = LT_ELE_AT m p"
  "LT_ELE_AT (m\<lparr>ddwRecycleIndex := a\<rparr>) p = LT_ELE_AT m p"
  "LT_ELE_AT (m\<lparr>dwRecyclePoolSize := k\<rparr>) p = LT_ELE_AT m p"
  "LT_ELE_AT (m\<lparr>addwRecyclePool := f\<rparr>) p = LT_ELE_AT m p"
  by (simp_all add: LT_ELE_AT_def)

lemma LT_ELE_AT_store:
  "p < length (lt_blocks m) \<Longrightarrow> LT_ELE_AT (lt_store m p b) q = (if q = p then b else LT_ELE_AT m q)"
  by (simp add: LT_ELE_AT_def lt_store_def)

lemma LT_ELE_AT_other [simp]: "q \<noteq> p \<Longrightarrow> LT_ELE_AT (lt_store m p b) q = LT_ELE_AT m q"
  by (simp add: LT_ELE_AT_def lt_store_def)

lemma BLOCK_DATA_LEN_cong:
  "ddwBlockSize m' = ddwBlockSize m \<Longrightarrow> BLOCK_DATA_LEN m' = BLOCK_DATA_LEN m"
  by (simp add: BLOCK_DATA_LEN_def)

lemma wf_BDL:
  assumes "lt_wf m"
  shows "BLOCK_DATA_LEN m = ddwBlockSize m - 8" "0 < BLOCK_DATA_LEN m" "BLOCK_DATA_LEN m < 65536"
  using assms by (auto simp: lt_wf_def BLOCK_DATA_LEN_def)

lemma lt_chain_unique: "lt_chain P m p xs \<Longrightarrow> lt_chain Q m p ys \<Longrightarrow> xs = ys"
proof (induction xs arbitrary: p ys)
  case Nil
  then show ?case by (cases ys) auto
next
  case (Cons x xs)
  then show ?case by (cases ys) auto
qed

lemma lt_chain_range:
  "lt_chain P m p xs \<Longrightarrow> x \<in> set xs \<Longrightarrow> 0 < x \<and> x < ddwAllBlockCount m \<and> P (lt_len m x)"
  by (induction xs arbitrary: p) auto

lemma lt_chain_suffix: "lt_chain P m p (ys @ x # zs) \<Longrightarrow> lt_chain P m x (x # zs)"
  by (induction ys arbitrary: p) auto

lemma lt_chain_distinct: "lt_chain P m p xs \<Longrightarrow> distinct xs"
proof (induction xs arbitrary: p)
  case (Cons x xs)
  have "x \<notin> set xs"
  proof
    assume "x \<in> set xs"
    then obtain ys zs where xs: "xs = ys @ x # zs" by (meson split_list)
    have "lt_chain P m x (x # zs)"
      using Cons.prems lt_chain_suffix [of P m p "x # ys"] by (simp add: xs)
    moreover have "lt_chain P m x (x # xs)" using Cons.prems by auto
    ultimately have "xs = zs" using lt_chain_unique by fastforce
    then show False using xs by simp
  qed
  then show ?case using Cons by auto
qed simp

lemma lt_chain_cong:
  assumes "lt_chain P m p xs" "ddwAllBlockCount m' = ddwAllBlockCount m"
    "\<And>x. x \<in> set xs \<Longrightarrow> LT_ELE_AT m' x = LT_ELE_AT m x"
  shows "lt_chain P m' p xs"
  using assms by (induction xs arbitrary: p) auto

lemma lt_chain_data_cong:
  "(\<And>x. x \<in> set xs \<Longrightarrow> LT_ELE_AT m' x = LT_ELE_AT m x) \<Longrightarrow> lt_chain_data m' xs = lt_chain_data m xs"
  by (induction xs) auto

lemma lt_owns_cong:
  assumes "lt_owns m p xs" "ddwAllBlockCount m' = ddwAllBlockCount m"
    "ddwBlockSize m' = ddwBlockSize m" "\<And>x. x \<in> set xs \<Longrightarrow> LT_ELE_AT m' x = LT_ELE_AT m x"
  shows "lt_owns m' p xs"
proof -
  have *: "lt_len m' x = lt_len m x" if "x \<in> set xs" for x using assms(4) that by simp
  have "lt_full m' xs"
    using assms(1) * BLOCK_DATA_LEN_cong [OF assms(3)]
    by (auto simp: lt_owns_def lt_full_def * in_set_butlastD)
  then show ?thesis
    using assms(1) lt_chain_cong [OF _ assms(2,4)] by (auto simp: lt_owns_def)
qed

lemma lt_owns_unique: "lt_owns m p xs \<Longrightarrow> lt_owns m p ys \<Longrightarrow> xs = ys"
  using lt_chain_unique by (auto simp: lt_owns_def)

lemma lt_owns_used: "lt_owns m p xs \<Longrightarrow> set xs \<subseteq> lt_used m"
  by (force simp: lt_owns_def lt_used_def dest: lt_chain_range)

lemma lt_owns_hd: "lt_owns m p xs \<Longrightarrow> p \<in> set xs \<and> p \<noteq> 0"
  by (cases xs) (auto simp: lt_owns_def)

lemma finite_lt_used [simp]: "finite (lt_used m)"
  by (simp add: lt_used_def)

lemma lt_used_bound: "lt_wf m \<Longrightarrow> card (lt_used m) \<le> ddwAllBlockCount m - 1"
  using card_mono [of "{1..<ddwAllBlockCount m}" "lt_used m"] by (simp add: lt_used_def subset_iff)

subsection \<open>Transfer of the invariant between memories\<close>

lemma lt_holds_cong:
  assumes "lt_holds m p d" "ddwAllBlockCount m' = ddwAllBlockCount m"
    "ddwBlockSize m' = ddwBlockSize m"
    "\<And>xs x. lt_owns m p xs \<Longrightarrow> x \<in> set xs \<Longrightarrow> LT_ELE_AT m' x = LT_ELE_AT m x"
  shows "lt_holds m' p d"
proof -
  obtain xs where xs: "lt_owns m p xs" "d = lt_chain_data m xs" using assms(1) by (auto simp: lt_holds_def)
  have "lt_owns m' p xs" using lt_owns_cong [OF xs(1) assms(2,3)] assms(4) xs(1) by blast
  moreover have "lt_chain_data m' xs = d" using lt_chain_data_cong assms(4) [OF xs(1)] xs(2) by blast
  ultimately show ?thesis by (auto simp: lt_holds_def)
qed

lemma lt_roots_ok_transfer:
  assumes ok: "lt_roots_ok m R" and sub: "R' \<subseteq> R"
    and hdr: "ddwAllBlockCount m' = ddwAllBlockCount m" "ddwBlockSize m' = ddwBlockSize m"
    and same: "\<And>p xs x. p \<in> R' \<Longrightarrow> lt_owns m p xs \<Longrightarrow> x \<in> set xs \<Longrightarrow> LT_ELE_AT m' x = LT_ELE_AT m x"
  shows "lt_roots_ok m' R'"
proof -
  have own: "lt_owns m p xs \<and> lt_owns m' p xs" if "p \<in> R'" "lt_owns m' p xs \<or> lt_owns m p xs" for p xs
  proof -
    obtain ys where ys: "lt_owns m p ys" using ok sub \<open>p \<in> R'\<close> unfolding lt_roots_ok_def by blast
    have "lt_owns m' p ys" using lt_owns_cong [OF ys hdr] same [OF \<open>p \<in> R'\<close> ys] by blast
    then show ?thesis using that(2) ys lt_owns_unique by metis
  qed
  show ?thesis
    unfolding lt_roots_ok_def
  proof (intro conjI ballI allI impI)
    fix p assume "p \<in> R'"
    then show "\<exists>xs. lt_owns m' p xs" using ok sub own by (force simp: lt_roots_ok_def)
  next
    fix p q xs ys
    assume "p \<in> R'" "q \<in> R'" "p \<noteq> q" "lt_owns m' p xs" "lt_owns m' q ys"
    then have "lt_owns m p xs" "lt_owns m q ys" using own by blast+
    then show "set xs \<inter> set ys = {}"
      using ok sub \<open>p \<in> R'\<close> \<open>q \<in> R'\<close> \<open>p \<noteq> q\<close> unfolding lt_roots_ok_def by blast
  qed
qed

lemma lt_pool_cong: "addwRecyclePool m' = addwRecyclePool m \<Longrightarrow> lt_pool m' = lt_pool m"
  by (simp add: lt_pool_def)

lemma lt_inv_transfer:
  assumes inv: "lt_inv m L" and wf: "lt_wf m'"
    and hdr: "ddwAllBlockCount m' = ddwAllBlockCount m" "ddwBlockSize m' = ddwBlockSize m"
      "addwRecyclePool m' = addwRecyclePool m"
    and same: "\<And>p xs x. p \<in> L \<union> lt_pool m \<Longrightarrow> lt_owns m p xs \<Longrightarrow> x \<in> set xs \<Longrightarrow>
                 LT_ELE_AT m' x = LT_ELE_AT m x"
  shows "lt_inv m' L"
proof -
  have "lt_roots_ok m' (L \<union> lt_pool m)"
    by (rule lt_roots_ok_transfer [of m "L \<union> lt_pool m"])
       (use inv hdr same in \<open>auto simp: lt_inv_def\<close>)
  then show ?thesis
    using inv wf hdr(3) lt_pool_cong [OF hdr(3)] by (simp add: lt_inv_def)
qed

subsection \<open>Freeing a chain\<close>

definition lt_free_all :: "LinkTableMem \<Rightarrow> nat list \<Rightarrow> LinkTableMem" where
  "lt_free_all m xs = fold (\<lambda>x m. free_one m x) xs m"

lemma lt_free_all_simps [simp]:
  "lt_free_all m [] = m" "lt_free_all m (x # xs) = lt_free_all (free_one m x) xs"
  by (simp_all add: lt_free_all_def)

lemma free_one_sel [simp]:
  "ddwAllBlockCount (free_one m p) = ddwAllBlockCount m"
  "ddwBlockSize (free_one m p) = ddwBlockSize m"
  "ddwLastEmpty (free_one m p) = ddwLastEmpty m"
  "ddwRecycleIndex (free_one m p) = ddwRecycleIndex m"
  "dwRecyclePoolSize (free_one m p) = dwRecyclePoolSize m"
  "addwRecyclePool (free_one m p) = addwRecyclePool m"
  "length (lt_blocks (free_one m p)) = length (lt_blocks m)"
  by (simp_all add: free_one_def Let_def)

lemma free_one_other [simp]: "q \<noteq> p \<Longrightarrow> LT_ELE_AT (free_one m p) q = LT_ELE_AT m q"
  by (simp add: free_one_def Let_def)

lemma free_all_sel [simp]:
  "ddwAllBlockCount (lt_free_all m xs) = ddwAllBlockCount m"
  "ddwBlockSize (lt_free_all m xs) = ddwBlockSize m"
  "ddwLastEmpty (lt_free_all m xs) = ddwLastEmpty m"
  "ddwRecycleIndex (lt_free_all m xs) = ddwRecycleIndex m"
  "dwRecyclePoolSize (lt_free_all m xs) = dwRecyclePoolSize m"
  "addwRecyclePool (lt_free_all m xs) = addwRecyclePool m"
  by (induction xs arbitrary: m) auto

lemma free_all_other: "q \<notin> set xs \<Longrightarrow> LT_ELE_AT (lt_free_all m xs) q = LT_ELE_AT m q"
  by (induction xs arbitrary: m) auto

lemma free_loop_chain:
  "lt_uchain m p xs \<Longrightarrow> length xs \<le> n \<Longrightarrow> free_loop m n p = (0, lt_free_all m xs)"
proof (induction xs arbitrary: m n p)
  case Nil
  then show ?case by (cases n) auto
next
  case (Cons x xs)
  obtain k where n: "n = Suc k" using Cons.prems by (cases n) auto
  have "x \<notin> set xs" using lt_chain_distinct [OF Cons.prems(1)] by simp
  then have "lt_uchain (free_one m x) (lt_next m x) xs" if "lt_uchain m (lt_next m x) xs"
    by (intro lt_chain_cong [OF that]) (auto intro: free_one_other)
  then show ?case using Cons.IH [of "free_one m x" "lt_next m x" k] Cons.prems n by auto
qed

lemma wf_upd_buf:
  assumes "lt_wf m" "p < length (lt_blocks m)"
  shows "length (bufData (LT_ELE_AT m p)) = BLOCK_DATA_LEN m"
  using assms by (simp add: lt_wf_def LT_ELE_AT_def)

lemma lt_wfD:
  assumes "lt_wf m"
  shows "2 \<le> ddwAllBlockCount m" "ddwAllBlockCount m < 2 ^ 31"
    "length (lt_blocks m) = ddwAllBlockCount m + 1" "8 < ddwBlockSize m" "ddwBlockSize m < 65536 + 8"
    "\<forall>b \<in> set (lt_blocks m). length (bufData b) = BLOCK_DATA_LEN m"
    "1 \<le> ddwLastEmpty m" "ddwLastEmpty m < ddwAllBlockCount m"
    "1 \<le> dwRecyclePoolSize m" "dwRecyclePoolSize m \<le> LT_MAX_RECYCLE_POOL_SIZE"
    "\<forall>i \<ge> dwRecyclePoolSize m. addwRecyclePool m i = 0"
    "ddwFreeBlockCount m + card (lt_used m) = ddwAllBlockCount m"
  using assms unfolding lt_wf_def by blast+

lemma lt_wfI:
  assumes "2 \<le> ddwAllBlockCount m" "ddwAllBlockCount m < 2 ^ 31"
    "length (lt_blocks m) = ddwAllBlockCount m + 1" "8 < ddwBlockSize m" "ddwBlockSize m < 65536 + 8"
    "\<forall>b \<in> set (lt_blocks m). length (bufData b) = BLOCK_DATA_LEN m"
    "1 \<le> ddwLastEmpty m" "ddwLastEmpty m < ddwAllBlockCount m"
    "1 \<le> dwRecyclePoolSize m" "dwRecyclePoolSize m \<le> LT_MAX_RECYCLE_POOL_SIZE"
    "\<forall>i \<ge> dwRecyclePoolSize m. addwRecyclePool m i = 0"
    "ddwFreeBlockCount m + card (lt_used m) = ddwAllBlockCount m"
  shows "lt_wf m"
  using assms unfolding lt_wf_def by blast

text \<open>Replacing one block: the used blocks, and well-formedness once the counter follows.\<close>

lemma lt_used_store:
  assumes "lt_wf m" "0 < p" "p < ddwAllBlockCount m"
  shows "lt_used (lt_store m p b) =
           (if ddwLengthInBlock b = 0 then lt_used m - {p} else insert p (lt_used m))"
  using assms by (auto simp: lt_used_def lt_wf_def LT_ELE_AT_store split: if_splits)

lemma lt_used_cong:
  "ddwAllBlockCount m' = ddwAllBlockCount m \<Longrightarrow> lt_blocks m' = lt_blocks m \<Longrightarrow> lt_used m' = lt_used m"
  by (simp add: lt_used_def LT_ELE_AT_def)

lemma lt_store_blocks_buf:
  assumes "lt_wf m" "length (bufData b) = BLOCK_DATA_LEN m" "c \<in> set (lt_blocks (lt_store m p b))"
  shows "length (bufData c) = BLOCK_DATA_LEN m"
  using assms set_update_subset_insert [of "lt_blocks m" p b] by (auto simp: lt_store_def lt_wf_def)

lemma free_one_wf:
  assumes wf: "lt_wf m" and p: "p \<in> lt_used m"
  shows "lt_wf (free_one m p)" "lt_used (free_one m p) = lt_used m - {p}"
proof -
  define b where "b = \<lparr>ddwNext = u48n (ddwFirstFreePos m), ddwLengthInBlock = 0,
                        bufData = replicate (BLOCK_DATA_LEN m) 0\<rparr>"
  have f: "free_one m p = (lt_store m p b)\<lparr>ddwFirstFreePos := p,
             ddwFreeBlockCount := u64n (ddwFreeBlockCount m + 1)\<rparr>"
    by (simp add: free_one_def b_def)
  have range: "0 < p" "p < ddwAllBlockCount m" using p by (auto simp: lt_used_def)
  have "lt_used (free_one m p) = lt_used (lt_store m p b)"
    by (rule lt_used_cong) (simp_all add: f)
  then show used: "lt_used (free_one m p) = lt_used m - {p}"
    using lt_used_store [OF wf range] by (simp add: b_def)
  have card: "card (lt_used m) = Suc (card (lt_used m - {p}))"
    by (rule card.remove [OF finite_lt_used p])
  have bdl: "BLOCK_DATA_LEN (free_one m p) = BLOCK_DATA_LEN m" by (rule BLOCK_DATA_LEN_cong) simp
  have "\<forall>c \<in> set (lt_blocks (free_one m p)). length (bufData c) = BLOCK_DATA_LEN m"
    using lt_store_blocks_buf [OF wf, of b] by (simp add: f b_def)
  moreover have "ddwFreeBlockCount (free_one m p) + card (lt_used (free_one m p)) = ddwAllBlockCount m"
    unfolding used using lt_wfD(2,12) [OF wf] card by (simp add: f)
  ultimately show "lt_wf (free_one m p)"
    using lt_wfD [OF wf] by (intro lt_wfI) (simp_all only: free_one_sel bdl)
qed

lemma free_all_wf:
  "lt_wf m \<Longrightarrow> distinct xs \<Longrightarrow> set xs \<subseteq> lt_used m \<Longrightarrow>
   lt_wf (lt_free_all m xs) \<and> lt_used (lt_free_all m xs) = lt_used m - set xs"
proof (induction xs arbitrary: m)
  case (Cons x xs)
  then have "lt_wf (free_one m x)" "lt_used (free_one m x) = lt_used m - {x}"
    using free_one_wf by auto
  moreover have "set xs \<subseteq> lt_used m - {x}" using Cons.prems by auto
  ultimately show ?case using Cons.IH [of "free_one m x"] Cons.prems(2) by auto
qed simp

lemma FreeBlock_owned:
  assumes "lt_owns m p xs"
  shows "FreeBlock m p = (0, lt_free_all m xs)"
proof -
  have "p \<in> lt_used m" using assms lt_owns_hd lt_owns_used by blast
  then have "0 < p" "p < ddwAllBlockCount m" by (auto simp: lt_used_def)
  then show ?thesis
    using assms free_loop_chain [of m p xs "MAX_BLOCK_COUNT + 1"]
    by (simp add: FreeBlock_def lt_owns_def)
qed

lemma FreeBlock_sel:
  assumes "lt_owns m p xs"
  shows "ddwAllBlockCount (snd (FreeBlock m p)) = ddwAllBlockCount m"
    "ddwBlockSize (snd (FreeBlock m p)) = ddwBlockSize m"
    "addwRecyclePool (snd (FreeBlock m p)) = addwRecyclePool m"
    "dwRecyclePoolSize (snd (FreeBlock m p)) = dwRecyclePoolSize m"
    "ddwRecycleIndex (snd (FreeBlock m p)) = ddwRecycleIndex m"
  using FreeBlock_owned [OF assms] by simp_all

text \<open>Freeing one root keeps every other root and what it holds.\<close>

lemma FreeBlock_root:
  assumes wf: "lt_wf m" and ok: "lt_roots_ok m R" and p: "p \<in> R"
  defines "m' \<equiv> snd (FreeBlock m p)"
  shows "lt_wf m'" "lt_roots_ok m' (R - {p})"
    "q \<in> R - {p} \<Longrightarrow> lt_holds m q d \<Longrightarrow> lt_holds m' q d"
    "ddwAllBlockCount m' = ddwAllBlockCount m" "ddwBlockSize m' = ddwBlockSize m"
    "addwRecyclePool m' = addwRecyclePool m" "dwRecyclePoolSize m' = dwRecyclePoolSize m"
    "ddwRecycleIndex m' = ddwRecycleIndex m"
proof -
  obtain xs where xs: "lt_owns m p xs" using ok p unfolding lt_roots_ok_def by blast
  have m': "m' = lt_free_all m xs" using FreeBlock_owned [OF xs] by (simp add: m'_def)
  have dist: "distinct xs" using xs lt_chain_distinct by (auto simp: lt_owns_def)
  show "lt_wf m'"
    using free_all_wf [OF wf dist] lt_owns_used [OF xs] m' by simp
  show hdr: "ddwAllBlockCount m' = ddwAllBlockCount m" "ddwBlockSize m' = ddwBlockSize m"
    "addwRecyclePool m' = addwRecyclePool m" "dwRecyclePoolSize m' = dwRecyclePoolSize m"
    "ddwRecycleIndex m' = ddwRecycleIndex m"
    by (simp_all add: m')
  have same: "LT_ELE_AT m' x = LT_ELE_AT m x" if "q \<in> R - {p}" "lt_owns m q ys" "x \<in> set ys" for q ys x
  proof -
    have "set xs \<inter> set ys = {}"
      using ok p that xs unfolding lt_roots_ok_def by blast
    then show ?thesis using that free_all_other m' by auto
  qed
  show "lt_roots_ok m' (R - {p})"
    by (rule lt_roots_ok_transfer [OF ok _ hdr(1,2) same]) auto
  show "q \<in> R - {p} \<Longrightarrow> lt_holds m q d \<Longrightarrow> lt_holds m' q d"
    using lt_holds_cong [OF _ hdr(1,2)] same by blast
qed

text \<open>Changing only the pool and its index changes no block.\<close>

lemma pool_update:
  fixes m :: LinkTableMem and k :: nat
  assumes wf: "lt_wf m" and f: "\<forall>i \<ge> dwRecyclePoolSize m. f i = 0"
  defines "m' \<equiv> m\<lparr>addwRecyclePool := f, ddwRecycleIndex := k\<rparr>"
  shows "lt_wf m'" "lt_owns m' p xs \<longleftrightarrow> lt_owns m p xs" "lt_roots_ok m' R \<longleftrightarrow> lt_roots_ok m R"
    "lt_holds m' p d \<longleftrightarrow> lt_holds m p d"
proof -
  have sel: "ddwAllBlockCount m' = ddwAllBlockCount m" "ddwBlockSize m' = ddwBlockSize m"
    "lt_blocks m' = lt_blocks m" "LT_ELE_AT m' q = LT_ELE_AT m q" for q
    by (simp_all add: m'_def)
  have own: "lt_owns m' p xs \<longleftrightarrow> lt_owns m p xs" for p xs
    using lt_owns_cong [of m p xs m'] lt_owns_cong [of m' p xs m] sel by auto
  have dat: "lt_chain_data m' xs = lt_chain_data m xs" for xs
    by (rule lt_chain_data_cong) (simp add: sel)
  show "lt_owns m' p xs \<longleftrightarrow> lt_owns m p xs" by (rule own)
  show "lt_roots_ok m' R \<longleftrightarrow> lt_roots_ok m R" by (simp add: lt_roots_ok_def own)
  show "lt_holds m' p d \<longleftrightarrow> lt_holds m p d" by (simp add: lt_holds_def own dat)
  have "lt_used m' = lt_used m" by (rule lt_used_cong) (simp_all add: m'_def)
  moreover have "BLOCK_DATA_LEN m' = BLOCK_DATA_LEN m" by (rule BLOCK_DATA_LEN_cong) (simp add: sel)
  ultimately show "lt_wf m'"
    using lt_wfD [OF wf] f by (intro lt_wfI) (simp_all add: m'_def)
qed

lemma lt_roots_ok_owns: "lt_roots_ok m R \<Longrightarrow> p \<in> R \<Longrightarrow> \<exists>xs. lt_owns m p xs"
  by (simp add: lt_roots_ok_def)

lemma lt_roots_ok_pos: "lt_roots_ok m R \<Longrightarrow> p \<in> R \<Longrightarrow> p \<noteq> 0"
  using lt_owns_hd unfolding lt_roots_ok_def by metis

lemma RecycleBlock_root:
  assumes inv: "lt_inv m L" and p: "p \<in> L"
  defines "m' \<equiv> snd (RecycleBlock m p)"
  shows "RecycleBlock m p = (0, m')" "lt_inv m' (L - {p})" "p \<in> lt_pool m'"
    "q \<in> L \<Longrightarrow> lt_holds m q d \<Longrightarrow> lt_holds m' q d"
    "dwRecyclePoolSize m' = dwRecyclePoolSize m"
    "ddwRecycleIndex m' =
       ((if ddwRecycleIndex m \<ge> dwRecyclePoolSize m then 0 else ddwRecycleIndex m) + 1)
         mod dwRecyclePoolSize m"
    "addwRecyclePool m' = (addwRecyclePool m)
       ((if ddwRecycleIndex m \<ge> dwRecyclePoolSize m then 0 else ddwRecycleIndex m) := p)"
    "ddwAllBlockCount m' = ddwAllBlockCount m" "ddwBlockSize m' = ddwBlockSize m"
    "q \<in> lt_pool m \<Longrightarrow> lt_holds m q d \<Longrightarrow>
       q \<noteq> addwRecyclePool m (if ddwRecycleIndex m \<ge> dwRecyclePoolSize m then 0 else ddwRecycleIndex m) \<Longrightarrow>
       lt_holds m' q d"
proof -
  define i where "i = (if ddwRecycleIndex m \<ge> dwRecyclePoolSize m then 0 else ddwRecycleIndex m)"
  define old where "old = addwRecyclePool m i"
  define f where "f = (addwRecyclePool m)(i := p)"
  define m1 where "m1 = m\<lparr>addwRecyclePool := f, ddwRecycleIndex := (i + 1) mod dwRecyclePoolSize m\<rparr>"
  have m'_eq: "m' = (if old \<noteq> 0 then snd (FreeBlock m1 old) else m1)"
    by (simp add: m'_def RecycleBlock_def Let_def m1_def f_def old_def i_def)
  have wf: "lt_wf m" and ok: "lt_roots_ok m (L \<union> lt_pool m)" using inv by (auto simp: lt_inv_def)
  have inj: "\<And>a b. addwRecyclePool m a = addwRecyclePool m b \<Longrightarrow> addwRecyclePool m a \<noteq> 0 \<Longrightarrow> a = b"
    using inv unfolding lt_inv_def by blast
  have i: "i < dwRecyclePoolSize m" using lt_wfD(9) [OF wf] by (auto simp: i_def)
  have p0: "p \<noteq> 0" "p \<notin> lt_pool m"
    using lt_roots_ok_pos [OF ok] p inv unfolding lt_inv_def by auto
  have f0: "\<forall>j \<ge> dwRecyclePoolSize m. f j = 0" using lt_wfD(11) [OF wf] i by (simp add: f_def)
  note upd = pool_update [OF wf f0, where k = "(i + 1) mod dwRecyclePoolSize m", folded m1_def]
  have pool1: "lt_pool m1 = insert p (lt_pool m - {old})"
  proof -
    have 1: "q \<in> lt_pool m1" if "addwRecyclePool m j = q" "q \<noteq> 0" "q \<noteq> old" for q j
      using that by (force simp: lt_pool_def m1_def f_def old_def)
    have 2: "p \<in> lt_pool m1" using p0 by (auto simp: lt_pool_def m1_def f_def)
    show ?thesis
    proof (rule set_eqI, rule iffI)
      fix q assume "q \<in> lt_pool m1"
      then show "q \<in> insert p (lt_pool m - {old})"
        using inj unfolding lt_pool_def m1_def f_def old_def by (auto split: if_splits)
    qed (use 1 2 in \<open>auto simp: lt_pool_def\<close>)
  qed
  have inj1: "a = b" if "f a = f b" "f a \<noteq> 0" for a b
    using that p0 inj [of a b] unfolding f_def lt_pool_def by (auto split: if_splits)
  have ok1: "lt_roots_ok m1 (L \<union> lt_pool m)" using upd(3) ok by simp
  show "RecycleBlock m p = (0, m')" by (simp add: m'_def RecycleBlock_def Let_def)
  have sub: "(L - {p}) \<union> lt_pool m1 \<subseteq> L \<union> lt_pool m - (if old = 0 then {} else {old})"
    using pool1 p inv unfolding lt_inv_def lt_pool_def old_def by auto
  have fin: "lt_wf m' \<and> lt_roots_ok m' (L \<union> lt_pool m - (if old = 0 then {} else {old})) \<and>
      ddwAllBlockCount m' = ddwAllBlockCount m \<and> ddwBlockSize m' = ddwBlockSize m \<and>
      addwRecyclePool m' = f \<and> dwRecyclePoolSize m' = dwRecyclePoolSize m \<and>
      ddwRecycleIndex m' = (i + 1) mod dwRecyclePoolSize m \<and>
      (\<forall>q \<in> L \<union> lt_pool m - {old}. \<forall>d. lt_holds m q d \<longrightarrow> lt_holds m' q d)"
  proof (cases "old = 0")
    case True
    then show ?thesis using upd ok1 by (simp add: m'_eq m1_def)
  next
    case False
    then have "old \<in> lt_pool m" by (auto simp: old_def lt_pool_def)
    then have "old \<in> L \<union> lt_pool m" "old \<notin> L" using inv by (auto simp: lt_inv_def)
    note F = FreeBlock_root [OF upd(1) ok1 this(1)]
    have m': "m' = snd (FreeBlock m1 old)" using False by (simp add: m'_eq)
    have "lt_holds m' q d" if "q \<in> L \<union> lt_pool m - {old}" "lt_holds m q d" for q d
      using F(3) [of q d] upd(4) that unfolding m' by blast
    then show ?thesis using F(1,2,4-8) False unfolding m' m1_def by simp
  qed
  have "lt_roots_ok m' ((L - {p}) \<union> lt_pool m1)"
    by (rule lt_roots_ok_transfer [OF _ sub]) (use fin in auto)
  moreover have pool': "lt_pool m' = lt_pool m1" using fin by (simp add: lt_pool_def m1_def)
  moreover have "(L - {p}) \<inter> lt_pool m' = {}" using pool' pool1 inv by (auto simp: lt_inv_def)
  ultimately show "lt_inv m' (L - {p})" using fin inj1 by (intro lt_invI) simp_all
  show "p \<in> lt_pool m'" using pool' pool1 by blast
  have "q \<noteq> old" if "q \<in> L"
    using that inv lt_roots_ok_pos [OF ok, of q] unfolding lt_inv_def lt_pool_def old_def by blast
  then show "lt_holds m' q d" if "q \<in> L" "lt_holds m q d" using fin that by blast
  show "lt_holds m' q d" if "q \<in> lt_pool m" "lt_holds m q d"
    "q \<noteq> addwRecyclePool m (if ddwRecycleIndex m \<ge> dwRecyclePoolSize m then 0 else ddwRecycleIndex m)"
    using fin that unfolding old_def i_def by blast
  show "dwRecyclePoolSize m' = dwRecyclePoolSize m"
    "ddwAllBlockCount m' = ddwAllBlockCount m" "ddwBlockSize m' = ddwBlockSize m"
    using fin by simp_all
  show "ddwRecycleIndex m' = ((if ddwRecycleIndex m \<ge> dwRecyclePoolSize m then 0 else ddwRecycleIndex m) + 1)
         mod dwRecyclePoolSize m" using fin by (simp add: i_def)
  show "addwRecyclePool m' = (addwRecyclePool m)
       ((if ddwRecycleIndex m \<ge> dwRecyclePoolSize m then 0 else ddwRecycleIndex m) := p)"
    using fin by (simp add: f_def i_def)
qed

subsection \<open>Reading a chain\<close>

declare get_loop.simps [simp del]

lemma lt_full_Cons:
  "lt_full m (x # y # ys) \<longleftrightarrow> lt_len m x = BLOCK_DATA_LEN m \<and> lt_full m (y # ys)"
  by (auto simp: lt_full_def)

lemma lt_chain_next:
  "lt_chain P m p (x # ys) \<Longrightarrow> (lt_next m x = 0) = (ys = [])"
  by (cases ys) auto

lemma get_loop_chain:
  assumes "lt_wf m" "lt_uchain m p xs" "lt_full m xs" "xs \<noteq> []"
    "int (length acc + length xs * BLOCK_DATA_LEN m) \<le> iBufLen"
  shows "get_loop m iBufLen p acc = Some (0, acc @ lt_chain_data m xs)"
  using assms(2-5)
proof (induction xs arbitrary: p acc)
  case (Cons x ys)
  have s: "s32 (BLOCK_DATA_LEN m) = int (BLOCK_DATA_LEN m)"
    and u: "u16n (BLOCK_DATA_LEN m) = BLOCK_DATA_LEN m" using wf_BDL [OF assms(1)] by simp_all
  have buf: "length (bufData (LT_ELE_AT m x)) = BLOCK_DATA_LEN m"
    using Cons.prems(1) lt_wfD(3) [OF assms(1)] by (intro wf_upd_buf [OF assms(1)]) auto
  note prems = Cons.prems(1,4)
  show ?case
  proof (cases ys)
    case Nil
    then have "get_loop m iBufLen 0 a = Some (0, a)" for a by (simp add: get_loop.simps)
    then show ?thesis
      using prems Cons.prems(2) Nil s u
      by (subst get_loop.simps) (simp add: lt_full_def Let_def)
  next
    case (Cons y zs)
    then have len: "lt_len m x = BLOCK_DATA_LEN m" and fl: "lt_full m ys"
      using Cons.prems(2) by (simp_all add: lt_full_Cons)
    have nx: "lt_next m x \<noteq> 0" using lt_chain_next [OF Cons.prems(1)] Cons by simp
    have fits: "int (length acc) + int (BLOCK_DATA_LEN m) \<le> iBufLen"
      using prems(2) mult_nonneg_nonneg [of "int (length ys)" "int (BLOCK_DATA_LEN m)"]
      by (simp add: algebra_simps del: zero_le_mult_iff mult_nonneg_nonneg)
    then have "get_loop m iBufLen p acc = get_loop m iBufLen (lt_next m x) (acc @ bufData (LT_ELE_AT m x))"
      using prems(1) s u nx buf by (subst get_loop.simps) (simp add: Let_def)
    also have "\<dots> = Some (0, acc @ bufData (LT_ELE_AT m x) @ lt_chain_data m ys)"
      using Cons.IH [of "lt_next m x" "acc @ bufData (LT_ELE_AT m x)"] Cons.prems fl Cons buf
      by (simp add: algebra_simps)
    finally show ?thesis using len buf by simp
  qed
qed simp

lemma get_loop_short:
  assumes "lt_wf m" "lt_uchain m p xs" "lt_full m xs"
    "int (length acc + length xs * BLOCK_DATA_LEN m) > iBufLen" "int (length acc) \<le> iBufLen"
  shows "\<exists>out. get_loop m iBufLen p acc = Some (-22, out) \<and> int (length out) \<le> iBufLen"
  using assms(2-5)
proof (induction xs arbitrary: p acc)
  case (Cons x ys)
  have s: "s32 (BLOCK_DATA_LEN m) = int (BLOCK_DATA_LEN m)"
    and u: "u16n (BLOCK_DATA_LEN m) = BLOCK_DATA_LEN m" using wf_BDL [OF assms(1)] by simp_all
  have buf: "length (bufData (LT_ELE_AT m x)) = BLOCK_DATA_LEN m"
    using Cons.prems(1) lt_wfD(3) [OF assms(1)] by (intro wf_upd_buf [OF assms(1)]) auto
  show ?case
  proof (cases "int (length acc) + int (BLOCK_DATA_LEN m) > iBufLen")
    case True
    then show ?thesis using Cons.prems s by (subst get_loop.simps) simp
  next
    case False
    then obtain y zs where ys: "ys = y # zs" using Cons.prems(3) by (cases ys) auto
    have nx: "lt_next m x \<noteq> 0" using lt_chain_next [OF Cons.prems(1)] ys by simp
    have "get_loop m iBufLen p acc = get_loop m iBufLen (lt_next m x) (acc @ bufData (LT_ELE_AT m x))"
      using Cons.prems(1) False s u nx buf by (subst get_loop.simps) (simp add: Let_def)
    then show ?thesis
      using Cons.IH [of "lt_next m x" "acc @ bufData (LT_ELE_AT m x)"] Cons.prems ys buf False
      by (simp add: algebra_simps lt_full_Cons)
  qed
qed simp

subsection \<open>Allocation\<close>

text \<open>Links of empty blocks may change, nothing else of a block does.\<close>

definition lt_relinked :: "LinkTableMem \<Rightarrow> LinkTableMem \<Rightarrow> bool" where
  "lt_relinked m m' \<longleftrightarrow> ddwAllBlockCount m' = ddwAllBlockCount m \<and>
     ddwFreeBlockCount m' = ddwFreeBlockCount m \<and> ddwBlockSize m' = ddwBlockSize m \<and>
     ddwLastEmpty m' = ddwLastEmpty m \<and> ddwFirstFreePos m' = ddwFirstFreePos m \<and>
     ddwRecycleIndex m' = ddwRecycleIndex m \<and>
     dwRecyclePoolSize m' = dwRecyclePoolSize m \<and> addwRecyclePool m' = addwRecyclePool m \<and>
     length (lt_blocks m') = length (lt_blocks m) \<and>
     (\<forall>p < length (lt_blocks m). lt_len m' p = lt_len m p \<and>
        bufData (LT_ELE_AT m' p) = bufData (LT_ELE_AT m p) \<and>
        (lt_len m p \<noteq> 0 \<longrightarrow> LT_ELE_AT m' p = LT_ELE_AT m p))"

lemma lt_relinked_refl [simp]: "lt_relinked m m"
  by (simp add: lt_relinked_def)

lemma lt_relinked_trans: "lt_relinked m m' \<Longrightarrow> lt_relinked m' m'' \<Longrightarrow> lt_relinked m m''"
  by (simp add: lt_relinked_def)

lemma LT_ELE_AT_set_next:
  "p < length (lt_blocks m) \<Longrightarrow>
   LT_ELE_AT (lt_set_next m p q) x = (if x = p then (LT_ELE_AT m p)\<lparr>ddwNext := u48n q\<rparr> else LT_ELE_AT m x)"
  by (simp add: lt_set_next_def LT_ELE_AT_store)

lemma lt_set_next_sel [simp]:
  "ddwAllBlockCount (lt_set_next m p q) = ddwAllBlockCount m"
  "ddwFreeBlockCount (lt_set_next m p q) = ddwFreeBlockCount m"
  "ddwBlockSize (lt_set_next m p q) = ddwBlockSize m"
  "ddwLastEmpty (lt_set_next m p q) = ddwLastEmpty m"
  "ddwFirstFreePos (lt_set_next m p q) = ddwFirstFreePos m"
  "ddwRecycleIndex (lt_set_next m p q) = ddwRecycleIndex m"
  "dwRecyclePoolSize (lt_set_next m p q) = dwRecyclePoolSize m"
  "addwRecyclePool (lt_set_next m p q) = addwRecyclePool m"
  "length (lt_blocks (lt_set_next m p q)) = length (lt_blocks m)"
  by (simp_all add: lt_set_next_def)

lemma lt_relinked_set_next:
  "p < length (lt_blocks m) \<Longrightarrow> lt_len m p = 0 \<Longrightarrow> lt_relinked m (lt_set_next m p q)"
  by (auto simp: lt_relinked_def LT_ELE_AT_set_next)

lemma lt_relinked_used: "lt_wf m \<Longrightarrow> lt_relinked m m' \<Longrightarrow> lt_used m' = lt_used m"
  using lt_wfD(3) by (auto simp: lt_relinked_def lt_used_def)

lemma lt_relinked_wf:
  assumes wf: "lt_wf m" and re: "lt_relinked m m'"
  shows "lt_wf m'"
proof -
  have bdl: "BLOCK_DATA_LEN m' = BLOCK_DATA_LEN m"
    by (rule BLOCK_DATA_LEN_cong) (use re in \<open>simp add: lt_relinked_def\<close>)
  have "\<forall>b \<in> set (lt_blocks m'). length (bufData b) = BLOCK_DATA_LEN m"
    using re lt_wfD(6) [OF wf] nth_mem [of _ "lt_blocks m"]
    by (auto simp: lt_relinked_def in_set_conv_nth LT_ELE_AT_def)
  then show ?thesis
    using lt_wfD [OF wf] bdl lt_relinked_used [OF wf re] re
    by (intro lt_wfI) (simp_all add: lt_relinked_def)
qed

lemma free_walk_relinked:
  "lt_wf m \<Longrightarrow> free_walk m n cur = (k, cur', m') \<Longrightarrow> lt_relinked m m'"
proof (induction m n cur rule: free_walk.induct)
  case (2 m n cur)
  have len: "length (lt_blocks m) = ddwAllBlockCount m + 1" by (rule lt_wfD(3) [OF 2(2)])
  show ?case
  proof (cases "cur > 0 \<and> cur < ddwAllBlockCount m \<and> lt_len m cur = 0")
    case True
    let ?m = "if n = 0 then lt_set_next m cur 0 else m"
    have "lt_relinked m ?m" using True len lt_relinked_set_next by simp
    moreover have "lt_relinked ?m m'"
      by (rule 2(1) [OF True lt_relinked_wf [OF 2(2) calculation]]) (use 2(3) True in simp)
    ultimately show ?thesis using lt_relinked_trans by blast
  qed (use 2 in auto)
qed simp

text \<open>The positions a walk along the free list takes.\<close>

fun free_visit :: "LinkTableMem \<Rightarrow> nat \<Rightarrow> nat \<Rightarrow> nat list" where
  "free_visit m 0 cur = []"
| "free_visit m (Suc n) cur =
     (if cur > 0 \<and> cur < ddwAllBlockCount m \<and> lt_len m cur = 0
      then cur # free_visit m n (lt_next m cur) else [])"

text \<open>A walk that finds all blocks leaves a chain of empty blocks from its start that ends at 0.
  The chain is shorter than asked when the free list runs in a cycle.\<close>

lemma free_walk_chain:
  assumes "lt_wf m" "free_walk m (Suc n) cur = (0, cur', m')"
  shows "\<exists>xs. xs \<noteq> [] \<and> length xs \<le> Suc n \<and> lt_echain m' cur xs \<and> m' = lt_set_next m (last xs) 0 \<and>
    set xs \<subseteq> set (free_visit m (Suc n) cur) \<and> (distinct (free_visit m (Suc n) cur) \<longrightarrow> length xs = Suc n)"
  using assms(2)
proof (induction n arbitrary: cur)
  case 0
  then have c: "cur > 0" "cur < ddwAllBlockCount m" "lt_len m cur = 0" "m' = lt_set_next m cur 0"
    by (auto split: if_splits)
  then show ?case
    using lt_wfD(3) [OF assms(1)] by (intro exI [of _ "[cur]"]) (simp add: LT_ELE_AT_set_next)
next
  case (Suc n)
  then have c: "cur > 0" "cur < ddwAllBlockCount m" "lt_len m cur = 0"
    and w: "free_walk m (Suc n) (lt_next m cur) = (0, cur', m')"
    by (auto split: if_splits)
  have v: "free_visit m (Suc (Suc n)) cur = cur # free_visit m (Suc n) (lt_next m cur)"
    using c by (subst free_visit.simps) (simp del: free_visit.simps)
  obtain xs where xs: "xs \<noteq> []" "length xs \<le> Suc n" "lt_echain m' (lt_next m cur) xs"
    "m' = lt_set_next m (last xs) 0" "set xs \<subseteq> set (free_visit m (Suc n) (lt_next m cur))"
    "distinct (free_visit m (Suc n) (lt_next m cur)) \<longrightarrow> length xs = Suc n"
    using Suc.IH [OF w] by blast
  show ?case
  proof (cases "cur \<in> set xs")
    case True
    then obtain ys zs where sp: "xs = ys @ cur # zs" by (meson split_list)
    have "lt_echain m' cur (cur # zs)" using lt_chain_suffix xs(3) sp by blast
    moreover have "last (cur # zs) = last xs" using sp by simp
    moreover have "\<not> distinct (free_visit m (Suc (Suc n)) cur)" unfolding v using True xs(5) by auto
    ultimately show ?thesis using xs(2,4,5) sp unfolding v by (intro exI [of _ "cur # zs"]) auto
  next
    case False
    have l: "last xs < length (lt_blocks m)"
      using lt_chain_range [OF xs(3), of "last xs"] xs(1,4) lt_wfD(3) [OF assms(1)] by simp
    have "cur \<noteq> last xs" using False xs(1) by (metis last_in_set)
    then have "LT_ELE_AT m' cur = LT_ELE_AT m cur" using xs(4) l by (simp add: LT_ELE_AT_set_next)
    then have "lt_echain m' cur (cur # xs)" using c xs(3,4) by simp
    then show ?thesis using xs unfolding v by (intro exI [of _ "cur # xs"]) auto
  qed
qed

text \<open>The positions the linear search visits, and how it links what it finds.\<close>

definition scan_next :: "LinkTableMem \<Rightarrow> nat \<Rightarrow> nat" where
  "scan_next m cur = (if cur + 1 \<ge> ddwAllBlockCount m then 1 else cur + 1)"

fun scan_list :: "LinkTableMem \<Rightarrow> nat \<Rightarrow> nat \<Rightarrow> nat list" where
  "scan_list m 0 cur = []"
| "scan_list m (Suc j) cur = cur # scan_list m j (scan_next m cur)"

lemma scan_next_range:
  "2 \<le> ddwAllBlockCount m \<Longrightarrow> 1 \<le> scan_next m cur \<and> scan_next m cur < ddwAllBlockCount m"
  by (simp add: scan_next_def)

lemma length_scan_list [simp]: "length (scan_list m j c) = j"
  by (induction j arbitrary: c) simp_all

lemma scan_list_cong: "ddwAllBlockCount m' = ddwAllBlockCount m \<Longrightarrow> scan_list m' j c = scan_list m j c"
  by (induction j arbitrary: c) (simp_all add: scan_next_def)

lemma scan_list_nth:
  assumes "1 \<le> c" "c < ddwAllBlockCount m" "j \<le> ddwAllBlockCount m - 1"
  shows "scan_list m j c =
    map (\<lambda>i. if c + i < ddwAllBlockCount m then c + i else c + i - (ddwAllBlockCount m - 1)) [0..<j]"
  using assms
proof (induction j arbitrary: c)
  case (Suc j)
  have r: "1 \<le> scan_next m c" "scan_next m c < ddwAllBlockCount m"
    using scan_next_range [of m c] Suc.prems by auto
  have "map f [0..<Suc j] = f 0 # map (\<lambda>i. f (Suc i)) [0..<j]" for f :: "nat \<Rightarrow> nat"
    by (simp add: map_upt_Suc del: upt_Suc)
  moreover have "map (\<lambda>i. if scan_next m c + i < ddwAllBlockCount m then scan_next m c + i
        else scan_next m c + i - (ddwAllBlockCount m - 1)) [0..<j] =
      map (\<lambda>i. if c + Suc i < ddwAllBlockCount m then c + Suc i
        else c + Suc i - (ddwAllBlockCount m - 1)) [0..<j]"
    using Suc.prems by (auto simp: scan_next_def)
  ultimately show ?case using Suc.IH [OF r] Suc.prems by (simp del: upt_Suc)
qed simp

lemma scan_list_all:
  assumes "1 \<le> c" "c < ddwAllBlockCount m"
  shows "distinct (scan_list m (ddwAllBlockCount m - 1) c)"
    "set (scan_list m (ddwAllBlockCount m - 1) c) = {1..<ddwAllBlockCount m}"
proof -
  let ?f = "\<lambda>i. if c + i < ddwAllBlockCount m then c + i else c + i - (ddwAllBlockCount m - 1)"
  let ?xs = "scan_list m (ddwAllBlockCount m - 1) c"
  have eq: "?xs = map ?f [0..<ddwAllBlockCount m - 1]" by (rule scan_list_nth) (use assms in auto)
  have inj: "inj_on ?f {0..<ddwAllBlockCount m - 1}"
    using assms by (intro inj_onI) (auto split: if_splits)
  then show d: "distinct ?xs" unfolding eq by (simp add: distinct_map)
  have "set ?xs \<subseteq> {1..<ddwAllBlockCount m}" unfolding eq using assms by auto
  moreover have "card (set ?xs) = card {1..<ddwAllBlockCount m}"
    using distinct_card [OF d] length_scan_list by simp
  ultimately show "set ?xs = {1..<ddwAllBlockCount m}" by (simp add: card_subset_eq)
qed

lemma lt_scan_relinked:
  "lt_wf m \<Longrightarrow> 1 \<le> cur \<Longrightarrow> cur < ddwAllBlockCount m \<Longrightarrow> lt_scan m j n start cur = (k, s, c, m') \<Longrightarrow>
   lt_relinked m m' \<and> 1 \<le> c \<and> c < ddwAllBlockCount m"
proof (induction m j n start cur rule: lt_scan.induct)
  case (2 m j n start cur)
  have len: "length (lt_blocks m) = ddwAllBlockCount m + 1" "2 \<le> ddwAllBlockCount m"
    using lt_wfD(1,3) [OF 2(3)] by auto
  note r = scan_next_range [OF len(2), of cur]
  consider "n = 0" | "n \<noteq> 0" "lt_len m cur = 0" | "n \<noteq> 0" "lt_len m cur \<noteq> 0" by blast
  then show ?case
  proof cases
    case 2
    have re: "lt_relinked m (lt_set_next m cur start)"
      using "2.prems" len 2 by (intro lt_relinked_set_next) auto
    from lt_relinked_wf [OF "2.prems"(1) re]
    have "lt_relinked (lt_set_next m cur start) m' \<and> 1 \<le> c \<and> c < ddwAllBlockCount m"
      using "2.IH"(1) [OF 2(1) refl 2(2)] r "2.prems" 2 by (simp add: scan_next_def)
    then show ?thesis using lt_relinked_trans [OF re] by blast
  next
    case 3
    then show ?thesis
      using "2.IH"(2) [OF 3(1) refl 3(2)] r "2.prems" by (simp add: scan_next_def)
  qed (use 2 in auto)
qed simp

lemma lt_scan_chain:
  assumes "lt_wf m" "lt_echain m start ys" "1 \<le> cur" "cur < ddwAllBlockCount m"
    "distinct (scan_list m j cur)" "set ys \<inter> set (scan_list m j cur) = {}"
    "n \<le> length (filter (\<lambda>p. lt_len m p = 0) (scan_list m j cur))" "j \<le> j'"
  shows "\<exists>s c m' xs. lt_scan m j' n start cur = (0, s, c, m') \<and> lt_echain m' s xs \<and>
           length xs = n + length ys"
  using assms
proof (induction j arbitrary: m n start cur ys j')
  case 0
  then show ?case by (cases j') auto
next
  case (Suc j)
  obtain i where j': "j' = Suc i" "j \<le> i" using Suc.prems(8) by (cases j') auto
  have len: "length (lt_blocks m) = ddwAllBlockCount m + 1" "2 \<le> ddwAllBlockCount m"
    "ddwAllBlockCount m < 2 ^ 31" using lt_wfD(1-3) [OF Suc.prems(1)] by auto
  note r = scan_next_range [OF len(2), of cur]
  consider "n = 0" | "n \<noteq> 0" "lt_len m cur = 0" | "n \<noteq> 0" "lt_len m cur \<noteq> 0" by blast
  then show ?case
  proof cases
    case 1
    then show ?thesis using j' Suc.prems(2) by auto
  next
    case 2
    define m1 where "m1 = lt_set_next m cur start"
    have at: "LT_ELE_AT m1 x = (if x = cur then (LT_ELE_AT m cur)\<lparr>ddwNext := start\<rparr> else LT_ELE_AT m x)" for x
    proof -
      have "start < ddwAllBlockCount m" using Suc.prems(2) len(2) by (cases ys) auto
      then show ?thesis using Suc.prems(4) len by (simp add: m1_def LT_ELE_AT_set_next)
    qed
    have re: "lt_relinked m m1"
      unfolding m1_def using Suc.prems(4) len 2 by (intro lt_relinked_set_next) auto
    have all: "ddwAllBlockCount m1 = ddwAllBlockCount m" by (simp add: m1_def)
    have cur: "cur \<notin> set ys" "cur \<notin> set (scan_list m j (scan_next m cur))" using Suc.prems(5,6) by auto
    have "lt_echain m1 start ys"
      by (rule lt_chain_cong [OF Suc.prems(2) all]) (use cur(1) at in auto)
    then have ch: "lt_echain m1 cur (cur # ys)" using at 2 Suc.prems(3,4) all by simp
    have sl: "scan_list m1 j c = scan_list m j c" for c by (rule scan_list_cong [OF all])
    have sn: "scan_next m1 cur = scan_next m cur" by (simp add: scan_next_def all)
    have fl: "filter (\<lambda>p. lt_len m1 p = 0) (scan_list m j (scan_next m cur)) =
          filter (\<lambda>p. lt_len m p = 0) (scan_list m j (scan_next m cur))"
      using at by (intro filter_cong) auto
    have "\<exists>s c m' xs. lt_scan m1 i (n - 1) cur (scan_next m1 cur) = (0, s, c, m') \<and> lt_echain m' s xs \<and>
           length xs = n - 1 + length (cur # ys)"
    proof (rule Suc.IH [OF lt_relinked_wf [OF Suc.prems(1) re] ch])
      show "n - 1 \<le> length (filter (\<lambda>p. lt_len m1 p = 0) (scan_list m1 j (scan_next m1 cur)))"
        using Suc.prems(7) 2 by (simp add: sl sn fl)
    qed (use r Suc.prems(5,6) cur j' in \<open>auto simp: all sl sn\<close>)
    then show ?thesis using 2 j' by (auto simp: m1_def scan_next_def)
  next
    case 3
    have "\<exists>s c m' xs. lt_scan m i n start (scan_next m cur) = (0, s, c, m') \<and> lt_echain m' s xs \<and>
           length xs = n + length ys"
      by (rule Suc.IH [OF Suc.prems(1,2)]) (use r Suc.prems(5-7) 3 j' in auto)
    then show ?thesis using 3 j' by (simp add: scan_next_def)
  qed
qed


lemma relinked_cursor:
  "lt_wf m \<Longrightarrow> lt_wf (m\<lparr>ddwFirstFreePos := a\<rparr>)"
  "lt_wf m \<Longrightarrow> 1 \<le> a \<Longrightarrow> a < ddwAllBlockCount m \<Longrightarrow> lt_wf (m\<lparr>ddwLastEmpty := a\<rparr>)"
  by (simp_all add: lt_wf_def lt_used_def BLOCK_DATA_LEN_def)

lemma lt_chain_upd [simp]:
  "lt_chain P (m\<lparr>ddwFirstFreePos := a\<rparr>) p xs = lt_chain P m p xs"
  "lt_chain P (m\<lparr>ddwLastEmpty := a\<rparr>) p xs = lt_chain P m p xs"
  by (induction xs arbitrary: p) simp_all

text \<open>What \<open>GetEmptyBlock\<close> keeps: everything a used block holds, the counters and the pool.\<close>

definition lt_kept :: "LinkTableMem \<Rightarrow> LinkTableMem \<Rightarrow> bool" where
  "lt_kept m m' \<longleftrightarrow> ddwAllBlockCount m' = ddwAllBlockCount m \<and> ddwBlockSize m' = ddwBlockSize m \<and>
     addwRecyclePool m' = addwRecyclePool m \<and> dwRecyclePoolSize m' = dwRecyclePoolSize m \<and>
     ddwRecycleIndex m' = ddwRecycleIndex m \<and> (\<forall>p \<in> lt_used m. LT_ELE_AT m' p = LT_ELE_AT m p)"

lemma relinked_kept:
  "lt_wf m \<Longrightarrow> lt_relinked m m' \<Longrightarrow> lt_kept m m'"
  using lt_wfD(3) [of m] by (auto simp: lt_relinked_def lt_kept_def lt_used_def)

lemma lt_kept_upd [simp]:
  "lt_kept m (m'\<lparr>ddwFirstFreePos := a\<rparr>) = lt_kept m m'"
  "lt_kept m (m'\<lparr>ddwLastEmpty := a\<rparr>) = lt_kept m m'"
  by (simp_all add: lt_kept_def)

lemma lt_used_upd [simp]:
  "lt_used (m\<lparr>ddwFirstFreePos := a\<rparr>) = lt_used m"
  "lt_used (m\<lparr>ddwLastEmpty := a\<rparr>) = lt_used m"
  by (simp_all add: lt_used_def)

lemma empty_count:
  assumes "lt_wf m" "1 \<le> c" "c < ddwAllBlockCount m"
  shows "length (filter (\<lambda>p. lt_len m p = 0) (scan_list m (ddwAllBlockCount m - 1) c)) =
         ddwFreeBlockCount m - 1"
proof -
  let ?xs = "scan_list m (ddwAllBlockCount m - 1) c"
  note s = scan_list_all [OF assms(2,3)]
  have "length (filter (\<lambda>p. lt_len m p = 0) ?xs) = card ({1..<ddwAllBlockCount m} - lt_used m)"
    unfolding distinct_card [OF distinct_filter [OF s(1)], symmetric]
    by (rule arg_cong [where f = card]) (auto simp: s(2) lt_used_def simp del: One_nat_def)
  also have "\<dots> = ddwAllBlockCount m - 1 - card (lt_used m)"
    by (subst card_Diff_subset) (auto simp: lt_used_def)
  finally show ?thesis using lt_wfD(12) [OF assms(1)] by simp
qed

text \<open>The search finds the blocks whenever fewer are asked for than the counter says.\<close>

lemma GetEmptyBlock_ok:
  assumes wf: "lt_wf m" and n: "0 < n" "n \<le> MAX_BLOCK_COUNT" "n < ddwFreeBlockCount m"
  shows "\<exists>start m1 xs. GetEmptyBlock m (int n) out = (0, start, m1) \<and> lt_wf m1 \<and> lt_kept m m1 \<and>
     ddwFreeBlockCount m1 = ddwFreeBlockCount m \<and> lt_used m1 = lt_used m \<and>
     lt_echain m1 start xs \<and> xs \<noteq> [] \<and> length xs \<le> n \<and>
     (distinct (free_visit m n (ddwFirstFreePos m)) \<longrightarrow> length xs = n)"
proof -
  obtain k where k: "n = Suc k" using n(1) by (cases n) auto
  have bnd: "ddwFreeBlockCount m < 2147483648" "ddwAllBlockCount m < 2147483648"
    using lt_wfD(2,12) [OF wf] by auto
  then have guard: "\<not> (int n < 0 \<or> int n > int MAX_BLOCK_COUNT \<or> int n > s32 (ddwFreeBlockCount m))"
    using n by simp
  obtain miss cur m1 where fw: "free_walk m n (ddwFirstFreePos m) = (miss, cur, m1)"
    by (metis prod_cases3)
  note re = free_walk_relinked [OF wf fw]
  note wf1 = lt_relinked_wf [OF wf re]
  have hdr: "ddwAllBlockCount m1 = ddwAllBlockCount m" "ddwLastEmpty m1 = ddwLastEmpty m"
    "ddwFreeBlockCount m1 = ddwFreeBlockCount m" using re by (simp_all add: lt_relinked_def)
  show ?thesis
  proof (cases "miss = 0")
    case True
    obtain xs where xs: "xs \<noteq> []" "length xs \<le> n" "lt_echain m1 (ddwFirstFreePos m) xs"
      "distinct (free_visit m n (ddwFirstFreePos m)) \<longrightarrow> length xs = n"
      using free_walk_chain [OF wf, of k "ddwFirstFreePos m" cur m1] fw True k by blast
    have "GetEmptyBlock m (int n) out = (0, ddwFirstFreePos m, m1\<lparr>ddwFirstFreePos := cur\<rparr>)"
      using guard fw True by (simp add: GetEmptyBlock_def)
    then show ?thesis
      using xs relinked_cursor(1) [OF wf1] relinked_kept [OF wf re] hdr lt_relinked_used [OF wf re]
      by (intro exI [of _ "ddwFirstFreePos m"] exI [of _ "m1\<lparr>ddwFirstFreePos := cur\<rparr>"] exI [of _ xs]) simp
  next
    case False
    have le: "1 \<le> ddwLastEmpty m1" "ddwLastEmpty m1 < ddwAllBlockCount m1" using lt_wfD(7,8) [OF wf1] by auto
    note sl = scan_list_all [OF le]
    have "n \<le> length (filter (\<lambda>p. lt_len m1 p = 0) (scan_list m1 (ddwAllBlockCount m1 - 1) (ddwLastEmpty m1)))"
      using empty_count [OF wf1 le] n(3) hdr(3) by linarith
    then obtain s c m2 xs where sc: "lt_scan m1 (ddwAllBlockCount m1) n 0 (ddwLastEmpty m1) = (0, s, c, m2)"
      and xs: "lt_echain m2 s xs" "length xs = n"
      using lt_scan_chain [OF wf1 _ le sl(1), of 0 "[]" n "ddwAllBlockCount m1"] by auto
    have re2: "lt_relinked m1 m2" "1 \<le> c" "c < ddwAllBlockCount m1"
      using lt_scan_relinked [OF wf1 le sc] by auto
    note re' = lt_relinked_trans [OF re re2(1)]
    have "GetEmptyBlock m (int n) out = (0, s, m2\<lparr>ddwLastEmpty := c\<rparr>)"
      using guard fw False sc bnd hdr by (simp add: GetEmptyBlock_def)
    moreover have "lt_wf (m2\<lparr>ddwLastEmpty := c\<rparr>)"
      using relinked_cursor(2) [OF lt_relinked_wf [OF wf1 re2(1)]] re2 by (simp add: lt_relinked_def)
    ultimately show ?thesis
      using xs n(1) relinked_kept [OF wf re'] lt_relinked_used [OF wf re'] re'
      by (intro exI [of _ s] exI [of _ "m2\<lparr>ddwLastEmpty := c\<rparr>"] exI [of _ xs])
         (auto simp: lt_relinked_def)
  qed
qed

subsection \<open>Writing a chain\<close>

definition lt_write1 :: "LinkTableMem \<Rightarrow> nat \<Rightarrow> byte list \<Rightarrow> LinkTableMem" where
  "lt_write1 m x e = (let m1 = lt_block_write m x e in m1\<lparr>ddwFreeBlockCount := sub64 (ddwFreeBlockCount m1) 1\<rparr>)"

fun lt_fill :: "LinkTableMem \<Rightarrow> nat list \<Rightarrow> byte list \<Rightarrow> LinkTableMem" where
  "lt_fill m [] d = m"
| "lt_fill m (x # xs) d = lt_fill (lt_write1 m x (take (BLOCK_DATA_LEN m) d)) xs (drop (BLOCK_DATA_LEN m) d)"

lemma lt_write1_sel [simp]:
  "ddwAllBlockCount (lt_write1 m p e) = ddwAllBlockCount m"
  "ddwBlockSize (lt_write1 m p e) = ddwBlockSize m"
  "ddwLastEmpty (lt_write1 m p e) = ddwLastEmpty m"
  "ddwFirstFreePos (lt_write1 m p e) = ddwFirstFreePos m"
  "ddwRecycleIndex (lt_write1 m p e) = ddwRecycleIndex m"
  "dwRecyclePoolSize (lt_write1 m p e) = dwRecyclePoolSize m"
  "addwRecyclePool (lt_write1 m p e) = addwRecyclePool m"
  "length (lt_blocks (lt_write1 m p e)) = length (lt_blocks m)"
  "BLOCK_DATA_LEN (lt_write1 m p e) = BLOCK_DATA_LEN m"
  by (simp_all add: lt_write1_def lt_block_write_def Let_def BLOCK_DATA_LEN_def)

lemma lt_write1_other [simp]: "q \<noteq> p \<Longrightarrow> LT_ELE_AT (lt_write1 m p e) q = LT_ELE_AT m q"
  by (simp add: lt_write1_def lt_block_write_def Let_def)

lemma lt_write1_at:
  assumes "lt_wf m" "p < ddwAllBlockCount m" "length e \<le> BLOCK_DATA_LEN m"
  shows "LT_ELE_AT (lt_write1 m p e) p = (LT_ELE_AT m p)\<lparr>
     bufData := e @ drop (length e) (bufData (LT_ELE_AT m p)), ddwLengthInBlock := length e\<rparr>"
  using assms lt_wfD(3) [OF assms(1)] wf_BDL(3) [OF assms(1)]
  by (simp add: lt_write1_def lt_block_write_def Let_def LT_ELE_AT_store)

lemma lt_write1_wf:
  assumes wf: "lt_wf m" and p: "0 < p" "p < ddwAllBlockCount m" "lt_len m p = 0"
    and e: "e \<noteq> []" "length e \<le> BLOCK_DATA_LEN m"
  shows "lt_wf (lt_write1 m p e)" "lt_used (lt_write1 m p e) = insert p (lt_used m)"
proof -
  define b where "b = (LT_ELE_AT m p)\<lparr>bufData := e @ drop (length e) (bufData (LT_ELE_AT m p)),
                         ddwLengthInBlock := u16n (length e)\<rparr>"
  have f: "lt_write1 m p e = (lt_store m p b)\<lparr>ddwFreeBlockCount := sub64 (ddwFreeBlockCount m) 1\<rparr>"
    by (simp add: lt_write1_def lt_block_write_def b_def Let_def)
  have "u16n (length e) = length e" using e(2) wf_BDL(3) [OF wf] by simp
  then have "ddwLengthInBlock b \<noteq> 0" using e(1) by (simp add: b_def)
  moreover have "lt_used (lt_write1 m p e) = lt_used (lt_store m p b)"
    by (rule lt_used_cong) (simp_all add: f)
  ultimately show used: "lt_used (lt_write1 m p e) = insert p (lt_used m)"
    using lt_used_store [OF wf p(1,2)] by simp
  have card: "card (insert p (lt_used m)) = Suc (card (lt_used m))"
    using p(3) by (intro card_insert_disjoint) (simp_all add: lt_used_def)
  have "insert p (lt_used m) \<subseteq> {1..<ddwAllBlockCount m}" using p by (auto simp: lt_used_def)
  then have "card (insert p (lt_used m)) \<le> ddwAllBlockCount m - 1"
    using card_mono [of "{1..<ddwAllBlockCount m}"] by fastforce
  then have cnt: "ddwFreeBlockCount (lt_write1 m p e) + card (lt_used (lt_write1 m p e)) = ddwAllBlockCount m"
    unfolding used using lt_wfD(1,2,12) [OF wf] card by (simp add: f)
  have "length (bufData (LT_ELE_AT m p)) = BLOCK_DATA_LEN m"
    by (rule wf_upd_buf [OF wf]) (use p lt_wfD(3) [OF wf] in simp)
  then have "length (bufData b) = BLOCK_DATA_LEN m" using e(2) by (simp add: b_def)
  then have "\<forall>c \<in> set (lt_blocks (lt_write1 m p e)). length (bufData c) = BLOCK_DATA_LEN m"
    using lt_store_blocks_buf [OF wf, of b] by (simp add: f)
  then show "lt_wf (lt_write1 m p e)"
    using lt_wfD [OF wf] cnt by (intro lt_wfI) (simp_all only: lt_write1_sel)
qed

lemma lt_fill_sel [simp]:
  "ddwAllBlockCount (lt_fill m xs d) = ddwAllBlockCount m"
  "ddwBlockSize (lt_fill m xs d) = ddwBlockSize m"
  "ddwRecycleIndex (lt_fill m xs d) = ddwRecycleIndex m"
  "dwRecyclePoolSize (lt_fill m xs d) = dwRecyclePoolSize m"
  "addwRecyclePool (lt_fill m xs d) = addwRecyclePool m"
  "length (lt_blocks (lt_fill m xs d)) = length (lt_blocks m)"
  "BLOCK_DATA_LEN (lt_fill m xs d) = BLOCK_DATA_LEN m"
  by (induction xs arbitrary: m d) auto

lemma lt_fill_other: "q \<notin> set xs \<Longrightarrow> LT_ELE_AT (lt_fill m xs d) q = LT_ELE_AT m q"
  by (induction xs arbitrary: m d) auto

text \<open>\<open>lt_needs m k d\<close>: a chain of \<open>k\<close> blocks is not longer than the datum needs.\<close>

definition lt_needs :: "LinkTableMem \<Rightarrow> nat \<Rightarrow> byte list \<Rightarrow> bool" where
  "lt_needs m k d \<longleftrightarrow> (k \<noteq> 0 \<longrightarrow> (k - 1) * BLOCK_DATA_LEN m < length d)"

lemma lt_needs_step:
  assumes "lt_needs m (Suc k) d"
  shows "d \<noteq> []" "lt_needs m k (drop (BLOCK_DATA_LEN m) d)" "k \<noteq> 0 \<Longrightarrow> BLOCK_DATA_LEN m < length d"
  using assms by (cases k; auto simp: lt_needs_def)+

lemma lt_needs_write1 [simp]: "lt_needs (lt_write1 m p e) k d = lt_needs m k d"
  by (simp add: lt_needs_def)

lemma set_loop_fill:
  "lt_wf m \<Longrightarrow> lt_echain m p xs \<Longrightarrow> lt_needs m (length xs) d \<Longrightarrow>
   set_loop m cur p d = (0, last (cur # xs), 0, drop (length xs * BLOCK_DATA_LEN m) d, lt_fill m xs d)"
proof (induction xs arbitrary: m p d cur)
  case Nil
  then show ?case by (subst set_loop.simps) simp
next
  case (Cons x xs)
  let ?e = "take (BLOCK_DATA_LEN m) d"
  note nd = lt_needs_step [OF Cons.prems(3) [simplified]]
  have bdl: "0 < BLOCK_DATA_LEN m" "BLOCK_DATA_LEN m < 65536" using wf_BDL [OF Cons.prems(1)] by auto
  have x: "p = x" "0 < x" "x < ddwAllBlockCount m" "lt_len m x = 0" "lt_echain m (lt_next m x) xs"
    using Cons.prems(2) by auto
  have e: "?e \<noteq> []" "length ?e \<le> BLOCK_DATA_LEN m" using nd(1) bdl by auto
  note w = lt_write1_wf [OF Cons.prems(1) x(2-4) e]
  have "x \<notin> set xs" using lt_chain_distinct [OF Cons.prems(2)] by simp
  then have ch: "lt_echain (lt_write1 m x ?e) (lt_next m x) xs"
    by (intro lt_chain_cong [OF x(5)]) (auto intro: lt_write1_other)
  have nx: "lt_next (lt_write1 m x ?e) x = lt_next m x"
    by (simp add: lt_write1_at [OF Cons.prems(1) x(3) e(2)])
  have n: "(if int (length d) > s32 (BLOCK_DATA_LEN m) then BLOCK_DATA_LEN m else length d) =
      (if BLOCK_DATA_LEN m < length d then BLOCK_DATA_LEN m else length d)"
    using bdl by simp
  have "set_loop m cur p d =
      set_loop (lt_write1 m x ?e) x (lt_next m x) (drop (BLOCK_DATA_LEN m) d)"
    using x(1-3) nd(1) bdl nx [unfolded lt_write1_def Let_def]
    by (cases "BLOCK_DATA_LEN m < length d"; subst set_loop.simps; simp add: n Let_def lt_write1_def)
  also have "\<dots> = (0, last (x # xs), 0, drop (length xs * BLOCK_DATA_LEN m) (drop (BLOCK_DATA_LEN m) d),
       lt_fill (lt_write1 m x ?e) xs (drop (BLOCK_DATA_LEN m) d))"
    using Cons.IH [OF w(1) ch, of "drop (BLOCK_DATA_LEN m) d" x] nd(2) by simp
  finally show ?case by (simp add: algebra_simps)
qed

text \<open>The filled chain holds the datum, and the table stays well-formed.\<close>

lemma lt_fill_ok:
  "lt_wf m \<Longrightarrow> lt_echain m p xs \<Longrightarrow> lt_needs m (length xs) d \<Longrightarrow>
   lt_wf (lt_fill m xs d) \<and> lt_used (lt_fill m xs d) = lt_used m \<union> set xs \<and>
   lt_uchain (lt_fill m xs d) p xs \<and> (xs \<noteq> [] \<longrightarrow> lt_full (lt_fill m xs d) xs) \<and>
   lt_chain_data (lt_fill m xs d) xs = take (length xs * BLOCK_DATA_LEN m) d"
proof (induction xs arbitrary: m p d)
  case (Cons x xs)
  let ?e = "take (BLOCK_DATA_LEN m) d" and ?d = "drop (BLOCK_DATA_LEN m) d"
  let ?m = "lt_write1 m x ?e"
  note nd = lt_needs_step [OF Cons.prems(3) [simplified]]
  have bdl: "0 < BLOCK_DATA_LEN m" using wf_BDL [OF Cons.prems(1)] by auto
  have x: "p = x" "0 < x" "x < ddwAllBlockCount m" "lt_len m x = 0" "lt_echain m (lt_next m x) xs"
    using Cons.prems(2) by auto
  have e: "?e \<noteq> []" "length ?e \<le> BLOCK_DATA_LEN m" using nd(1) bdl by auto
  note w = lt_write1_wf [OF Cons.prems(1) x(2-4) e]
  have notin: "x \<notin> set xs" using lt_chain_distinct [OF Cons.prems(2)] by simp
  then have ch: "lt_echain ?m (lt_next m x) xs"
    by (intro lt_chain_cong [OF x(5)]) (auto intro: lt_write1_other)
  have IH: "lt_wf (lt_fill ?m xs ?d)" "lt_used (lt_fill ?m xs ?d) = lt_used ?m \<union> set xs"
    "lt_uchain (lt_fill ?m xs ?d) (lt_next m x) xs" "xs \<noteq> [] \<longrightarrow> lt_full (lt_fill ?m xs ?d) xs"
    "lt_chain_data (lt_fill ?m xs ?d) xs = take (length xs * BLOCK_DATA_LEN m) ?d"
    using Cons.IH [OF w(1) ch, of ?d] nd(2) by auto
  have at: "LT_ELE_AT (lt_fill ?m xs ?d) x = (LT_ELE_AT m x)\<lparr>
      bufData := ?e @ drop (length ?e) (bufData (LT_ELE_AT m x)), ddwLengthInBlock := length ?e\<rparr>"
    using lt_fill_other [OF notin] lt_write1_at [OF Cons.prems(1) x(3) e(2)] by simp
  have "lt_full (lt_fill ?m xs ?d) (x # xs)"
  proof (cases xs)
    case Nil
    then show ?thesis using at by (simp add: lt_full_def)
  next
    case (Cons y ys)
    then have "length ?e = BLOCK_DATA_LEN m" using nd(3) by simp
    then have "lt_len (lt_fill ?m xs ?d) x = BLOCK_DATA_LEN m" using at by simp
    moreover have "lt_full (lt_fill ?m xs ?d) xs" using IH(4) Cons by simp
    ultimately show ?thesis unfolding Cons lt_full_Cons by (simp only: lt_fill_sel lt_write1_sel)
  qed
  moreover have "lt_chain_data (lt_fill ?m xs ?d) (x # xs) = take (length (x # xs) * BLOCK_DATA_LEN m) d"
    using at IH(5) by (simp add: take_add min_def)
  moreover have "lt_uchain (lt_fill ?m xs ?d) p (x # xs)"
    using x(1-3) at IH(3) e(1) by simp
  ultimately show ?case using IH(1,2) w(2) by simp
qed simp

subsection \<open>Storing a datum\<close>

lemma lt_set_next_wf:
  assumes wf: "lt_wf m" and p: "p < length (lt_blocks m)"
  shows "lt_wf (lt_set_next m p q)" "lt_used (lt_set_next m p q) = lt_used m"
proof -
  show used: "lt_used (lt_set_next m p q) = lt_used m"
    using p by (auto simp: lt_used_def LT_ELE_AT_set_next split: if_splits)
  have "length (bufData (LT_ELE_AT m p)) = BLOCK_DATA_LEN m" by (rule wf_upd_buf [OF wf p])
  then have "\<forall>c \<in> set (lt_blocks (lt_set_next m p q)). length (bufData c) = BLOCK_DATA_LEN m"
    unfolding lt_set_next_def using lt_store_blocks_buf [OF wf, of "(LT_ELE_AT m p)\<lparr>ddwNext := u48n q\<rparr>"]
    by auto
  moreover have "BLOCK_DATA_LEN (lt_set_next m p q) = BLOCK_DATA_LEN m"
    by (rule BLOCK_DATA_LEN_cong) simp
  ultimately show "lt_wf (lt_set_next m p q)"
    using lt_wfD [OF wf] used by (intro lt_wfI) (simp_all only: lt_set_next_sel)
qed

lemma lt_inv_kept:
  assumes inv: "lt_inv m L" and wf: "lt_wf m'" and k: "lt_kept m m'"
  shows "lt_inv m' L" "lt_holds m q d \<Longrightarrow> lt_holds m' q d"
proof -
  have hdr: "ddwAllBlockCount m' = ddwAllBlockCount m" "ddwBlockSize m' = ddwBlockSize m"
    "addwRecyclePool m' = addwRecyclePool m" using k by (simp_all add: lt_kept_def)
  have same: "LT_ELE_AT m' x = LT_ELE_AT m x" if "lt_owns m p xs" "x \<in> set xs" for p xs x
    using k lt_owns_used [OF that(1)] that(2) by (auto simp: lt_kept_def)
  show "lt_inv m' L" by (rule lt_inv_transfer [OF inv wf hdr same])
  show "lt_holds m q d \<Longrightarrow> lt_holds m' q d" using lt_holds_cong [OF _ hdr(1,2)] same by blast
qed

lemma lt_kept_trans:
  "lt_kept m m' \<Longrightarrow> lt_used m \<subseteq> lt_used m' \<Longrightarrow> lt_kept m' m'' \<Longrightarrow> lt_kept m m''"
  by (auto simp: lt_kept_def)

text \<open>A new root whose chain uses blocks no other root owns.\<close>

lemma lt_inv_insert:
  assumes inv: "lt_inv m L" and own: "lt_owns m p xs"
    and new: "\<And>q ys. q \<in> L \<union> lt_pool m \<Longrightarrow> lt_owns m q ys \<Longrightarrow> set xs \<inter> set ys = {}"
  shows "lt_inv m (insert p L)" "p \<notin> L \<union> lt_pool m"
proof -
  have ok: "lt_roots_ok m (L \<union> lt_pool m)" using inv by (simp add: lt_inv_def)
  show notin: "p \<notin> L \<union> lt_pool m"
    using new [of p xs] own lt_owns_hd [OF own] by auto
  have "lt_roots_ok m (insert p (L \<union> lt_pool m))"
    unfolding lt_roots_ok_def
  proof (intro conjI ballI allI impI)
    fix q assume "q \<in> insert p (L \<union> lt_pool m)"
    then show "\<exists>xs. lt_owns m q xs" using own ok unfolding lt_roots_ok_def by blast
  next
    fix a b as bs
    assume a: "a \<in> insert p (L \<union> lt_pool m)" "b \<in> insert p (L \<union> lt_pool m)" "a \<noteq> b"
      "lt_owns m a as" "lt_owns m b bs"
    consider "a = p" "b \<in> L \<union> lt_pool m" | "b = p" "a \<in> L \<union> lt_pool m"
      | "a \<in> L \<union> lt_pool m" "b \<in> L \<union> lt_pool m" using a(1-3) by blast
    then show "set as \<inter> set bs = {}"
    proof cases
      case 1
      then show ?thesis using new [of b bs] a(4,5) lt_owns_unique [OF own] by blast
    next
      case 2
      then show ?thesis using new [of a as] a(4,5) lt_owns_unique [OF own] by blast
    next
      case 3
      then show ?thesis using ok a(3-5) unfolding lt_roots_ok_def by blast
    qed
  qed
  then show "lt_inv m (insert p L)"
    using inv notin by (auto simp: lt_inv_def)
qed

definition lt_nblocks :: "LinkTableMem \<Rightarrow> byte list \<Rightarrow> nat" where
  "lt_nblocks m d = (length d + BLOCK_DATA_LEN m - 1) div BLOCK_DATA_LEN m"

lemma lt_block_num_eq:
  assumes "lt_wf m" "length d < 2 ^ 31"
  shows "lt_block_num m (int (length d)) = int (lt_nblocks m d)"
proof -
  have b: "0 < BLOCK_DATA_LEN m" "BLOCK_DATA_LEN m < 65536" using wf_BDL [OF assms(1)] by auto
  have "(length d + BLOCK_DATA_LEN m - 1) div BLOCK_DATA_LEN m < 2 ^ 31"
  proof -
    have "(length d + BLOCK_DATA_LEN m - 1) div BLOCK_DATA_LEN m < Suc (length d)"
      using b by (intro less_mult_imp_div_less) (cases "BLOCK_DATA_LEN m"; simp)
    then show ?thesis using assms(2) by linarith
  qed
  then show ?thesis using b assms(2) by (simp add: lt_block_num_def lt_nblocks_def)
qed

lemma lt_nblocks_needs:
  assumes "lt_wf m" "k \<le> lt_nblocks m d"
  shows "lt_needs m k d"
proof (cases k)
  case (Suc j)
  have b: "0 < BLOCK_DATA_LEN m" using wf_BDL [OF assms(1)] by auto
  have "k * BLOCK_DATA_LEN m \<le> length d + BLOCK_DATA_LEN m - 1"
    using assms(2) b by (simp add: lt_nblocks_def less_eq_div_iff_mult_less_eq)
  then show ?thesis using Suc b by (simp add: lt_needs_def)
qed (simp add: lt_needs_def)

lemma lt_nblocks_cover:
  assumes "lt_wf m"
  shows "length d \<le> lt_nblocks m d * BLOCK_DATA_LEN m"
proof -
  have b: "0 < BLOCK_DATA_LEN m" using wf_BDL [OF assms(1)] by auto
  have "length d + BLOCK_DATA_LEN m - 1 < Suc (lt_nblocks m d) * BLOCK_DATA_LEN m"
    unfolding lt_nblocks_def using b by (metis dividend_less_div_times mult.commute mult_Suc)
  then show ?thesis using b by simp
qed

lemma lt_nblocks_pos: "lt_wf m \<Longrightarrow> d \<noteq> [] \<Longrightarrow> 0 < lt_nblocks m d"
  using lt_nblocks_cover [of m d] by (cases "lt_nblocks m d") auto

lemma lt_fill_kept:
  assumes "lt_wf m" "lt_echain m p xs"
  shows "lt_kept m (lt_fill m xs d)"
proof -
  have "q \<notin> set xs" if "q \<in> lt_used m" for q
    using that lt_chain_range [OF assms(2)] by (auto simp: lt_used_def)
  then show ?thesis using lt_fill_other by (simp add: lt_kept_def)
qed

text \<open>Ending the new chain: its last link is 0 already, and block 0 is never part of a chain.\<close>

lemma lt_end_chain:
  assumes wf: "lt_wf m" and own: "lt_owns m p xs"
  defines "m' \<equiv> lt_set_next (lt_set_next m (last xs) 0) 0 0"
  shows "lt_wf m'" "lt_kept m m'" "lt_owns m' p xs" "lt_chain_data m' xs = lt_chain_data m xs"
    "lt_used m' = lt_used m"
proof -
  have lx: "last xs \<in> lt_used m" using lt_owns_used [OF own] own last_in_set [of xs] by (auto simp: lt_owns_def)
  have len: "length (lt_blocks m) = ddwAllBlockCount m + 1" by (rule lt_wfD(3) [OF wf])
  then have l: "last xs < length (lt_blocks m)" using lx by (auto simp: lt_used_def)
  note w1 = lt_set_next_wf [OF wf l, of 0]
  have z: "0 < length (lt_blocks (lt_set_next m (last xs) 0))" by (simp add: len)
  note w2 = lt_set_next_wf [OF w1(1) z, of 0]
  show "lt_wf m'" "lt_used m' = lt_used m" using w2 w1(2) by (simp_all add: m'_def)
  have nx: "lt_next m (last xs) = 0"
  proof -
    have "lt_uchain m p (butlast xs @ last xs # [])" using own by (simp add: lt_owns_def)
    then show ?thesis using lt_chain_suffix by fastforce
  qed
  have at: "LT_ELE_AT m' x = LT_ELE_AT m x" if "x \<noteq> 0" for x
  proof -
    have "LT_ELE_AT m' x = LT_ELE_AT (lt_set_next m (last xs) 0) x"
      using z that by (simp add: m'_def LT_ELE_AT_set_next)
    then show ?thesis using l nx by (simp add: LT_ELE_AT_set_next)
  qed
  have hdr: "ddwAllBlockCount m' = ddwAllBlockCount m" "ddwBlockSize m' = ddwBlockSize m"
    by (simp_all add: m'_def)
  have used0: "x \<in> lt_used m \<Longrightarrow> x \<noteq> 0" for x by (auto simp: lt_used_def)
  show "lt_kept m m'" using at used0 by (simp add: lt_kept_def m'_def)
  have sub: "x \<in> set xs \<Longrightarrow> LT_ELE_AT m' x = LT_ELE_AT m x" for x
    using at used0 lt_owns_used [OF own] by blast
  show "lt_owns m' p xs" by (rule lt_owns_cong [OF own hdr sub])
  show "lt_chain_data m' xs = lt_chain_data m xs" by (rule lt_chain_data_cong [OF sub])
qed

text \<open>The two outcomes of \<open>SetData\<close> when the counter promises enough blocks.\<close>

definition lt_stored :: "LinkTableMem \<Rightarrow> nat set \<Rightarrow> nat \<Rightarrow> byte list \<Rightarrow> nat \<Rightarrow> LinkTableMem \<Rightarrow> bool" where
  "lt_stored m L pos d pos' m' \<longleftrightarrow> ddwBlockSize m' = ddwBlockSize m \<and> pos' \<noteq> 0 \<and> pos' \<notin> L \<union> lt_pool m \<and>
     lt_inv m' (insert pos' (L - {pos})) \<and> lt_holds m' pos' d \<and>
     (\<forall>q e. q \<in> L \<longrightarrow> lt_holds m q e \<longrightarrow> lt_holds m' q e)"

definition lt_unchanged :: "LinkTableMem \<Rightarrow> nat set \<Rightarrow> LinkTableMem \<Rightarrow> bool" where
  "lt_unchanged m L m' \<longleftrightarrow> lt_inv m' L \<and> (\<forall>q e. lt_holds m q e \<longrightarrow> lt_holds m' q e)"

lemma SetData_stored:
  assumes inv: "lt_inv m1 L" and pos: "pos = 0 \<or> pos \<in> L"
    and ch: "lt_echain m1 start xs" "xs \<noteq> []" "length xs \<le> MAX_BLOCK_COUNT"
    and nd: "lt_needs m1 (length xs) d" and cov: "length d \<le> length xs * BLOCK_DATA_LEN m1"
  defines "m3 \<equiv> lt_set_next (lt_set_next (lt_fill m1 xs d) (last xs) 0) 0 0"
  shows "lt_stored m1 L pos d start (if pos \<noteq> 0 then snd (RecycleBlock m3 pos) else m3)"
proof -
  let ?m2 = "lt_fill m1 xs d"
  have wf: "lt_wf m1" using inv by (simp add: lt_inv_def)
  note f = lt_fill_ok [OF wf ch(1) nd]
  have own2: "lt_owns ?m2 start xs" using f ch by (simp add: lt_owns_def)
  have wf2: "lt_wf ?m2" and dat2: "lt_chain_data ?m2 xs = d" using f cov by auto
  note e = lt_end_chain [OF wf2 own2, folded m3_def]
  have k: "lt_kept m1 m3" using lt_kept_trans [OF lt_fill_kept [OF wf ch(1)] _ e(2)] f by blast
  note i3 = lt_inv_kept [OF inv e(1) k]
  have hold3: "lt_holds m3 start d" using e(3,4) dat2 by (auto simp: lt_holds_def)
  have pool: "lt_pool m3 = lt_pool m1" using k by (intro lt_pool_cong) (simp add: lt_kept_def)
  have empty: "x \<notin> lt_used m1" if "x \<in> set xs" for x
    using lt_chain_range [OF ch(1) that] by (simp add: lt_used_def)
  have new: "set xs \<inter> set ys = {}" if q: "q \<in> L \<union> lt_pool m3" "lt_owns m3 q ys" for q ys
  proof -
    obtain zs where zs: "lt_owns m1 q zs"
      using inv q(1) lt_roots_ok_owns unfolding lt_inv_def pool by blast
    have "lt_owns m3 q zs"
      using k lt_owns_used [OF zs] by (intro lt_owns_cong [OF zs]) (auto simp: lt_kept_def)
    then have "ys = zs" using lt_owns_unique q(2) by blast
    then show ?thesis using empty lt_owns_used [OF zs] by blast
  qed
  note ins = lt_inv_insert [OF i3(1) e(3) new]
  have bs: "ddwBlockSize m3 = ddwBlockSize m1" using k by (simp add: lt_kept_def)
  have start: "start \<noteq> 0" using lt_owns_hd [OF e(3)] by simp
  show ?thesis
  proof (cases "pos = 0")
    case True
    have "0 \<notin> L" using inv lt_roots_ok_pos [of m1 "L \<union> lt_pool m1" 0] by (auto simp: lt_inv_def)
    then show ?thesis using True ins hold3 i3(2) start pool bs by (simp add: lt_stored_def)
  next
    case False
    then have pL: "pos \<in> insert start L" using pos by simp
    have ne: "pos \<noteq> start" using ins(2) pos False by auto
    note r = RecycleBlock_root [OF ins(1) pL]
    have "insert start L - {pos} = insert start (L - {pos})" using ne by auto
    then show ?thesis
      using False r(2,4,9) hold3 i3(2) start ins(2) bs unfolding pool by (simp add: lt_stored_def)
  qed
qed

lemma SetData_main:
  assumes inv: "lt_inv m L" and pos: "pos = 0 \<or> pos \<in> L" and d: "d \<noteq> []" "length d < 2 ^ 31"
    and n: "lt_nblocks m d \<le> MAX_BLOCK_COUNT" "lt_nblocks m d < ddwFreeBlockCount m"
  shows "\<exists>ret pos' m'. lt_SetData (Some m) pos (Some d) (int (length d)) = Some (ret, pos', Some m') \<and>
    (ret = 0 \<and> lt_stored m L pos d pos' m' \<or> ret = -9 \<and> pos' = pos \<and> lt_unchanged m L m' \<and>
       \<not> distinct (free_visit m (lt_nblocks m d) (ddwFirstFreePos m)))"
proof -
  have wf: "lt_wf m" using inv by (simp add: lt_inv_def)
  obtain start m1 xs where g: "GetEmptyBlock m (int (lt_nblocks m d)) 0 = (0, start, m1)"
    and m1: "lt_wf m1" "lt_kept m m1" "lt_used m1 = lt_used m"
    and xs: "lt_echain m1 start xs" "xs \<noteq> []" "length xs \<le> lt_nblocks m d"
      "distinct (free_visit m (lt_nblocks m d) (ddwFirstFreePos m)) \<longrightarrow> length xs = lt_nblocks m d"
    using GetEmptyBlock_ok [OF wf lt_nblocks_pos [OF wf d(1)] n, of 0] by blast
  note i1 = lt_inv_kept [OF inv m1(1,2)]
  have bdl: "BLOCK_DATA_LEN m1 = BLOCK_DATA_LEN m"
    by (rule BLOCK_DATA_LEN_cong) (use m1(2) in \<open>simp add: lt_kept_def\<close>)
  have nb: "lt_nblocks m1 d = lt_nblocks m d" by (simp add: lt_nblocks_def bdl)
  have nd: "lt_needs m1 (length xs) d" by (rule lt_nblocks_needs [OF m1(1)]) (simp add: nb xs(3))
  let ?m2 = "lt_fill m1 xs d"
  note sl = set_loop_fill [OF m1(1) xs(1) nd, of 0]
  have bn: "lt_block_num m (int (length d)) = int (lt_nblocks m d)"
    by (rule lt_block_num_eq [OF wf d(2)])
  have b0: "BLOCK_DATA_LEN m \<noteq> 0" using wf_BDL [OF wf] by simp
  show ?thesis
  proof (cases "drop (length xs * BLOCK_DATA_LEN m1) d = []")
    case True
    let ?m3 = "lt_set_next (lt_set_next ?m2 (last xs) 0) 0 0"
    let ?m' = "if pos \<noteq> 0 then snd (RecycleBlock ?m3 pos) else ?m3"
    have "lt_SetData (Some m) pos (Some d) (int (length d)) = Some (0, start, Some ?m')"
      using b0 bn n(1) g sl True xs(2) by (simp add: lt_SetData_def Let_def)
    moreover have "lt_stored m1 L pos d start ?m'"
      by (rule SetData_stored [OF i1(1) pos xs(1,2) _ nd]) (use xs(3) n(1) True in auto)
    then have "lt_stored m L pos d start ?m'"
      using i1(2) lt_pool_cong [of m1 m] m1(2) by (simp add: lt_stored_def lt_kept_def)
    ultimately show ?thesis by blast
  next
    case False
    then have "length xs \<noteq> lt_nblocks m d" using lt_nblocks_cover [OF m1(1), of d] nb by auto
    moreover have "lt_SetData (Some m) pos (Some d) (int (length d)) = Some (-9, pos, Some ?m2)"
      using b0 bn n(1) g sl False by (simp add: lt_SetData_def)
    moreover have "lt_unchanged m L ?m2"
    proof -
      have "lt_wf ?m2" using lt_fill_ok [OF m1(1) xs(1) nd] by blast
      then show ?thesis
        using lt_inv_kept [OF i1(1) _ lt_fill_kept [OF m1(1) xs(1)]] i1(2) by (simp add: lt_unchanged_def)
    qed
    ultimately show ?thesis using xs(4) by blast
  qed
qed

subsection \<open>Emptying the pool\<close>

lemma FreeBlock_pool_slot:
  fixes m :: LinkTableMem and i :: nat
  assumes inv: "lt_inv m L"
  defines "m1 \<equiv> (if addwRecyclePool m i \<noteq> 0 then
      let m2 = snd (FreeBlock m (addwRecyclePool m i)) in m2\<lparr>addwRecyclePool := (addwRecyclePool m2)(i := 0)\<rparr> else m)"
  shows "lt_inv m1 L" "addwRecyclePool m1 = (addwRecyclePool m)(i := 0)"
    "dwRecyclePoolSize m1 = dwRecyclePoolSize m" "q \<in> L \<Longrightarrow> lt_holds m q d \<Longrightarrow> lt_holds m1 q d"
proof -
  let ?p = "addwRecyclePool m i"
  have "lt_inv m1 L \<and> addwRecyclePool m1 = (addwRecyclePool m)(i := 0) \<and>
    dwRecyclePoolSize m1 = dwRecyclePoolSize m \<and> (q \<in> L \<longrightarrow> lt_holds m q d \<longrightarrow> lt_holds m1 q d)"
  proof (cases "?p = 0")
    case True
    then have "(addwRecyclePool m)(i := 0) = addwRecyclePool m" by auto
    then show ?thesis using True inv by (simp add: m1_def)
  next
    case False
    have wf: "lt_wf m" and ok: "lt_roots_ok m (L \<union> lt_pool m)" and dis: "L \<inter> lt_pool m = {}"
      using inv by (simp_all add: lt_inv_def)
    have inj: "a = b" if "addwRecyclePool m a = addwRecyclePool m b" "addwRecyclePool m a \<noteq> 0" for a b
      using inv that unfolding lt_inv_def by blast
    have p: "?p \<in> lt_pool m" using False by (auto simp: lt_pool_def)
    then have pR: "?p \<in> L \<union> lt_pool m" by blast
    let ?m2 = "snd (FreeBlock m ?p)" and ?f = "(addwRecyclePool m)(i := 0)"
    note F = FreeBlock_root [OF wf ok pR]
    have m1: "m1 = ?m2\<lparr>addwRecyclePool := ?f, ddwRecycleIndex := ddwRecycleIndex ?m2\<rparr>"
      using False F(6) by (simp add: m1_def Let_def)
    have f0: "\<forall>j \<ge> dwRecyclePoolSize ?m2. ?f j = 0" using lt_wfD(11) [OF wf] F(7) by simp
    note U = pool_update [OF F(1) f0, of "ddwRecycleIndex ?m2", folded m1]
    have pool1: "lt_pool m1 \<subseteq> lt_pool m - {?p}"
      using inj unfolding m1 lt_pool_def by (auto split: if_splits)
    have "lt_inv m1 L"
    proof (rule lt_invI)
      have "lt_roots_ok m1 (L \<union> lt_pool m - {?p})" using U(3) F(2) by simp
      moreover have "L \<union> lt_pool m1 \<subseteq> L \<union> lt_pool m - {?p}" using pool1 p dis by auto
      ultimately show "lt_roots_ok m1 (L \<union> lt_pool m1)" using lt_roots_ok_transfer by blast
      show "a = b" if "addwRecyclePool m1 a = addwRecyclePool m1 b" "addwRecyclePool m1 a \<noteq> 0" for a b
        using that inj [of a b] unfolding m1 by (auto split: if_splits)
    qed (use U(1) pool1 dis in auto)
    moreover have "lt_holds m1 q d" if "q \<in> L" "lt_holds m q d"
      using F(3) [of q d] U(4) that p dis by blast
    ultimately show ?thesis using F(7) by (simp add: m1)
  qed
  then show "lt_inv m1 L" "addwRecyclePool m1 = (addwRecyclePool m)(i := 0)"
    "dwRecyclePoolSize m1 = dwRecyclePoolSize m" "q \<in> L \<Longrightarrow> lt_holds m q d \<Longrightarrow> lt_holds m1 q d" by auto
qed

lemma empty_pool_loop_ok:
  "lt_inv m L \<Longrightarrow>
   lt_inv (empty_pool_loop m i n) L \<and> dwRecyclePoolSize (empty_pool_loop m i n) = dwRecyclePoolSize m \<and>
   (\<forall>j. addwRecyclePool (empty_pool_loop m i n) j = (if i \<le> j \<and> j < i + n then 0 else addwRecyclePool m j)) \<and>
   (\<forall>q d. q \<in> L \<longrightarrow> lt_holds m q d \<longrightarrow> lt_holds (empty_pool_loop m i n) q d)"
proof (induction n arbitrary: m i)
  case (Suc n)
  define m1 where "m1 = (if addwRecyclePool m i \<noteq> 0 then
      let m2 = snd (FreeBlock m (addwRecyclePool m i)) in m2\<lparr>addwRecyclePool := (addwRecyclePool m2)(i := 0)\<rparr> else m)"
  note S = FreeBlock_pool_slot [OF Suc.prems, where i = i, folded m1_def]
  have "empty_pool_loop m i (Suc n) = empty_pool_loop m1 (Suc i) n" by (simp add: m1_def Let_def)
  then show ?case using Suc.IH [OF S(1), of "Suc i"] S(2-4) by auto
qed simp

lemma EmptyRecyclePool_ok:
  assumes inv: "lt_inv m L"
  shows "lt_inv (EmptyRecyclePool m) L" "addwRecyclePool (EmptyRecyclePool m) = (\<lambda>_. 0)"
    "q \<in> L \<Longrightarrow> lt_holds m q d \<Longrightarrow> lt_holds (EmptyRecyclePool m) q d"
proof -
  have wf: "lt_wf m" using inv by (simp add: lt_inv_def)
  have n: "nat (s32 (dwRecyclePoolSize m)) = dwRecyclePoolSize m"
    using lt_wfD(10) [OF wf] by (simp add: LT_MAX_RECYCLE_POOL_SIZE_def)
  let ?m = "empty_pool_loop m 0 (dwRecyclePoolSize m)"
  have E: "EmptyRecyclePool m = ?m\<lparr>ddwRecycleIndex := 0\<rparr>" by (simp add: EmptyRecyclePool_def n)
  note L = empty_pool_loop_ok [OF inv, of 0 "dwRecyclePoolSize m"]
  have z: "addwRecyclePool ?m = (\<lambda>_. 0)"
  proof (rule ext)
    fix j
    have "addwRecyclePool ?m j = (if 0 \<le> j \<and> j < 0 + dwRecyclePoolSize m then 0 else addwRecyclePool m j)"
      using L by blast
    then show "addwRecyclePool ?m j = 0" using lt_wfD(11) [OF wf] by (simp add: not_less)
  qed
  have wf': "lt_wf ?m" using L by (simp add: lt_inv_def)
  have eq: "EmptyRecyclePool m = ?m\<lparr>addwRecyclePool := (\<lambda>_. 0), ddwRecycleIndex := 0\<rparr>" using E z by simp
  note U = pool_update [OF wf', of "\<lambda>_. 0" 0, folded eq]
  show p0: "addwRecyclePool (EmptyRecyclePool m) = (\<lambda>_. 0)" using eq by simp
  show "q \<in> L \<Longrightarrow> lt_holds m q d \<Longrightarrow> lt_holds (EmptyRecyclePool m) q d" using L U(4) by simp
  have pool: "lt_pool (EmptyRecyclePool m) = {}" "lt_pool ?m = {}" using p0 z by (auto simp: lt_pool_def)
  have "lt_roots_ok ?m (L \<union> lt_pool ?m)" using L unfolding lt_inv_def by blast
  then have "lt_roots_ok (EmptyRecyclePool m) (L \<union> lt_pool (EmptyRecyclePool m))"
    using U(3) pool by simp
  then show "lt_inv (EmptyRecyclePool m) L"
    by (intro lt_invI) (use U(1) pool p0 in auto)
qed

section \<open>The contract of a block store\<close>

text \<open>What a user of the table relies on: \<open>inv m L\<close> says that \<open>L\<close> are the positions handed out,
  \<open>fits m d\<close> that there is room for \<open>d\<close>, and \<open>room m d n\<close> that a buffer of \<open>n\<close> bytes can receive \<open>d\<close>.\<close>

locale block_store =
  fixes inv :: "'m \<Rightarrow> nat set \<Rightarrow> bool"
    and holds :: "'m \<Rightarrow> nat \<Rightarrow> byte list \<Rightarrow> bool"
    and fits :: "'m \<Rightarrow> byte list \<Rightarrow> bool"
    and room :: "'m \<Rightarrow> byte list \<Rightarrow> int \<Rightarrow> bool"
    and get :: "'m \<Rightarrow> nat \<Rightarrow> int \<Rightarrow> (int \<times> byte list) option"
    and put :: "'m \<Rightarrow> nat \<Rightarrow> byte list \<Rightarrow> (int \<times> nat \<times> 'm) option"
    and del :: "'m \<Rightarrow> nat \<Rightarrow> int \<times> 'm"
  assumes live_holds: "inv m L \<Longrightarrow> p \<in> L \<Longrightarrow> p \<noteq> 0 \<and> (\<exists>d. holds m p d)"
    and holds_unique: "holds m p d \<Longrightarrow> holds m p e \<Longrightarrow> d = e"
    and get_holds: "inv m L \<Longrightarrow> holds m p d \<Longrightarrow> room m d n \<Longrightarrow> get m p n = Some (0, d)"
    and put_cases: "inv m L \<Longrightarrow> pos = 0 \<or> pos \<in> L \<Longrightarrow> fits m d \<Longrightarrow>
      \<exists>r pos' m'. put m pos d = Some (r, pos', m') \<and>
        (\<forall>q e. q \<in> L \<longrightarrow> holds m q e \<longrightarrow> holds m' q e) \<and>
        (r = 0 \<and> pos' \<noteq> 0 \<and> pos' \<notin> L \<and> inv m' (insert pos' (L - {pos})) \<and> holds m' pos' d \<or>
         r < 0 \<and> pos' = pos \<and> inv m' L)"
    and del_ok: "inv m L \<Longrightarrow> p \<in> L \<Longrightarrow> \<exists>m'. del m p = (0, m') \<and> inv m' (L - {p}) \<and>
        (\<forall>q e. q \<in> L \<longrightarrow> holds m q e \<longrightarrow> holds m' q e)"
begin

text \<open>The store as a finite map from positions to data.\<close>

definition rep :: "'m \<Rightarrow> (nat \<Rightarrow> byte list option) \<Rightarrow> bool" where
  "rep m M \<longleftrightarrow> inv m (dom M) \<and> (\<forall>p d. M p = Some d \<longrightarrow> holds m p d)"

lemma rep_exists: "inv m L \<Longrightarrow> \<exists>M. rep m M \<and> dom M = L"
proof -
  assume inv: "inv m L"
  define M where "M = (\<lambda>p. if p \<in> L then Some (SOME d. holds m p d) else None)"
  have dom: "dom M = L" by (auto simp: M_def dom_def)
  moreover have "holds m p (SOME d. holds m p d)" if "p \<in> L" for p
    using live_holds [OF inv that] by (auto intro: someI)
  ultimately have "rep m M" using inv by (auto simp: rep_def M_def split: if_splits)
  then show ?thesis using dom by blast
qed

lemma rep_functional: "rep m M \<Longrightarrow> rep m M' \<Longrightarrow> dom M = dom M' \<Longrightarrow> M = M'"
proof (rule ext)
  fix p
  assume a: "rep m M" "rep m M'" "dom M = dom M'"
  show "M p = M' p"
  proof (cases "M p")
    case None
    then show ?thesis using a(3) by (metis domIff)
  next
    case (Some d)
    then obtain e where "M' p = Some e" using a(3) by (metis domD domI)
    then show ?thesis using Some a(1,2) holds_unique unfolding rep_def by metis
  qed
qed

lemma put_rep:
  assumes rep: "rep m M" and pos: "pos = 0 \<or> pos \<in> dom M" and fits: "fits m d"
  shows "\<exists>r pos' m'. put m pos d = Some (r, pos', m') \<and>
     (r = 0 \<and> pos' \<noteq> 0 \<and> M pos' = None \<and> rep m' ((M(pos := None))(pos' \<mapsto> d)) \<or>
      r < 0 \<and> pos' = pos \<and> rep m' M)"
proof -
  have inv: "inv m (dom M)" and hold: "\<And>p e. M p = Some e \<Longrightarrow> holds m p e" using rep by (auto simp: rep_def)
  obtain r pos' m' where p: "put m pos d = Some (r, pos', m')"
    and frame: "\<And>q e. q \<in> dom M \<Longrightarrow> holds m q e \<Longrightarrow> holds m' q e"
    and cs: "r = 0 \<and> pos' \<noteq> 0 \<and> pos' \<notin> dom M \<and> inv m' (insert pos' (dom M - {pos})) \<and> holds m' pos' d \<or>
         r < 0 \<and> pos' = pos \<and> inv m' (dom M)"
    using put_cases [OF inv pos fits] by blast
  have keep: "M q = Some e \<Longrightarrow> holds m' q e" for q e using frame hold by (auto simp: dom_def)
  from cs show ?thesis
  proof
    assume c: "r = 0 \<and> pos' \<noteq> 0 \<and> pos' \<notin> dom M \<and> inv m' (insert pos' (dom M - {pos})) \<and> holds m' pos' d"
    then have "rep m' ((M(pos := None))(pos' \<mapsto> d))" using keep by (auto simp: rep_def)
    moreover have "M pos' = None" using c by (simp add: domIff)
    ultimately show ?thesis using p c by blast
  next
    assume c: "r < 0 \<and> pos' = pos \<and> inv m' (dom M)"
    then have "rep m' M" using keep by (simp add: rep_def)
    then show ?thesis using p c by blast
  qed
qed

lemma del_rep:
  assumes rep: "rep m M" and p: "p \<in> dom M"
  shows "\<exists>m'. del m p = (0, m') \<and> rep m' (M(p := None)) \<and> (\<forall>d. M p = Some d \<longrightarrow> holds m' p d)"
proof -
  have inv: "inv m (dom M)" and hold: "\<And>p e. M p = Some e \<Longrightarrow> holds m p e" using rep by (auto simp: rep_def)
  obtain m' where m': "del m p = (0, m')" "inv m' (dom M - {p})"
    "\<And>q e. q \<in> dom M \<Longrightarrow> holds m q e \<Longrightarrow> holds m' q e" using del_ok [OF inv p] by blast
  have "rep m' (M(p := None))" using m'(2,3) hold by (auto simp: rep_def split: if_splits)
  then show ?thesis using m' hold by (auto simp: dom_def)
qed

lemma get_rep: "rep m M \<Longrightarrow> M p = Some d \<Longrightarrow> room m d n \<Longrightarrow> get m p n = Some (0, d)"
  by (auto simp: rep_def intro: get_holds)

end

definition lt_fits :: "LinkTableMem \<Rightarrow> byte list \<Rightarrow> bool" where
  "lt_fits m d \<longleftrightarrow> d \<noteq> [] \<and> length d < 2 ^ 31 \<and> lt_nblocks m d \<le> MAX_BLOCK_COUNT \<and>
     lt_nblocks m d < ddwFreeBlockCount m"

definition lt_room :: "LinkTableMem \<Rightarrow> byte list \<Rightarrow> int \<Rightarrow> bool" where
  "lt_room m d n \<longleftrightarrow> int (lt_nblocks m d * BLOCK_DATA_LEN m) \<le> n"

definition lt_put :: "LinkTableMem \<Rightarrow> nat \<Rightarrow> byte list \<Rightarrow> (int \<times> nat \<times> LinkTableMem) option" where
  "lt_put m pos d = (case lt_SetData (Some m) pos (Some d) (int (length d)) of
     Some (r, p, Some m') \<Rightarrow> Some (r, p, m') | _ \<Rightarrow> None)"

definition lt_del :: "LinkTableMem \<Rightarrow> nat \<Rightarrow> int \<times> LinkTableMem" where
  "lt_del m p = (case lt_EraseData (Some m) p of (r, Some m') \<Rightarrow> (r, m') | (r, None) \<Rightarrow> (r, m))"

lemma lt_chain_data_length:
  assumes "lt_wf m" "lt_uchain m p xs" "lt_full m xs" "xs \<noteq> []"
  shows "(length xs - 1) * BLOCK_DATA_LEN m < length (lt_chain_data m xs) \<and>
         length (lt_chain_data m xs) \<le> length xs * BLOCK_DATA_LEN m"
  using assms(2-4)
proof (induction xs arbitrary: p)
  case (Cons x ys)
  have buf: "length (bufData (LT_ELE_AT m x)) = BLOCK_DATA_LEN m"
    using Cons.prems(1) lt_wfD(3) [OF assms(1)] by (intro wf_upd_buf [OF assms(1)]) auto
  show ?case
  proof (cases ys)
    case Nil
    then show ?thesis using Cons.prems(1,2) buf wf_BDL(2) [OF assms(1)] by (simp add: lt_full_def)
  next
    case (Cons y zs)
    then show ?thesis using Cons.IH [of "lt_next m x"] Cons.prems buf by (simp add: lt_full_Cons)
  qed
qed simp

lemma lt_owns_nblocks:
  assumes "lt_wf m" "lt_owns m p xs"
  shows "lt_nblocks m (lt_chain_data m xs) = length xs"
proof -
  let ?n = "length (lt_chain_data m xs)" and ?b = "BLOCK_DATA_LEN m"
  have b: "0 < ?b" using wf_BDL [OF assms(1)] by auto
  have c: "(length xs - 1) * ?b < ?n" "?n \<le> length xs * ?b" "xs \<noteq> []"
    using lt_chain_data_length assms by (auto simp: lt_owns_def)
  show ?thesis
    unfolding lt_nblocks_def
  proof (rule div_nat_eqI)
    show "?b * length xs \<le> ?n + ?b - 1" using c b by (cases xs) (auto simp: algebra_simps)
    show "?n + ?b - 1 < ?b * Suc (length xs)" using c b by (simp add: algebra_simps)
  qed
qed

lemma lt_GetData_holds:
  assumes wf: "lt_wf m" and h: "lt_holds m p d"
  shows "lt_room m d n \<Longrightarrow> lt_GetData (Some m) p True n = Some (0, d)"
    and "\<not> lt_room m d n \<Longrightarrow> n \<ge> int (BLOCK_DATA_LEN m) \<Longrightarrow>
         \<exists>out. lt_GetData (Some m) p True n = Some (-22, out) \<and> int (length out) \<le> n"
proof -
  obtain xs where xs: "lt_owns m p xs" "d = lt_chain_data m xs" using h by (auto simp: lt_holds_def)
  have nb: "lt_nblocks m d = length xs" using lt_owns_nblocks [OF wf xs(1)] xs(2) by simp
  have s: "s32 (BLOCK_DATA_LEN m) = int (BLOCK_DATA_LEN m)" using wf_BDL [OF wf] by simp
  have own: "xs \<noteq> []" "lt_uchain m p xs" "lt_full m xs" using xs(1) by (auto simp: lt_owns_def)
  show "lt_GetData (Some m) p True n = Some (0, d)" if "lt_room m d n"
  proof -
    have r: "int (length xs * BLOCK_DATA_LEN m) \<le> n" using that nb by (simp add: lt_room_def)
    have "BLOCK_DATA_LEN m \<le> length xs * BLOCK_DATA_LEN m" using own(1) by (cases xs) auto
    then have "int (BLOCK_DATA_LEN m) \<le> n" using r by linarith
    then show ?thesis
      using get_loop_chain [OF wf own(2,3,1), of "[]" n] r s xs(2) by (simp add: lt_GetData_def)
  qed
  show "\<exists>out. lt_GetData (Some m) p True n = Some (-22, out) \<and> int (length out) \<le> n"
    if "\<not> lt_room m d n" "n \<ge> int (BLOCK_DATA_LEN m)"
    using get_loop_short [OF wf own(2,3), of n "[]"] that nb s by (simp add: lt_GetData_def lt_room_def)
qed

lemma lt_put_cases:
  assumes inv: "lt_inv m L" and pos: "pos = 0 \<or> pos \<in> L" and f: "lt_fits m d"
  shows "\<exists>r pos' m'. lt_put m pos d = Some (r, pos', m') \<and>
        (\<forall>q e. q \<in> L \<longrightarrow> lt_holds m q e \<longrightarrow> lt_holds m' q e) \<and>
        (r = 0 \<and> pos' \<noteq> 0 \<and> pos' \<notin> L \<and> lt_inv m' (insert pos' (L - {pos})) \<and> lt_holds m' pos' d \<or>
         r < 0 \<and> pos' = pos \<and> lt_inv m' L)"
proof -
  obtain r pos' m' where s: "lt_SetData (Some m) pos (Some d) (int (length d)) = Some (r, pos', Some m')"
    and c: "r = 0 \<and> lt_stored m L pos d pos' m' \<or> r = -9 \<and> pos' = pos \<and> lt_unchanged m L m'"
    using SetData_main [OF inv pos] f unfolding lt_fits_def by blast
  have "lt_put m pos d = Some (r, pos', m')" using s by (simp add: lt_put_def)
  then show ?thesis using c by (auto simp: lt_stored_def lt_unchanged_def)
qed

lemma lt_del_ok:
  assumes "lt_inv m L" "p \<in> L"
  shows "\<exists>m'. lt_del m p = (0, m') \<and> lt_inv m' (L - {p}) \<and>
     (\<forall>q e. q \<in> L \<longrightarrow> lt_holds m q e \<longrightarrow> lt_holds m' q e)"
proof -
  note r = RecycleBlock_root [OF assms]
  have "lt_del m p = (0, snd (RecycleBlock m p))"
    using r(1) by (cases "RecycleBlock m p") (simp add: lt_del_def lt_EraseData_def)
  then show ?thesis using r(2,4) by blast
qed

interpretation lt: block_store lt_inv lt_holds lt_fits lt_room "\<lambda>m p. lt_GetData (Some m) p True" lt_put lt_del
proof
  show "p \<noteq> 0 \<and> (\<exists>d. lt_holds m p d)" if "lt_inv m L" "p \<in> L" for m L p
    using that lt_roots_ok_owns lt_roots_ok_pos unfolding lt_inv_def lt_holds_def by blast
  show "d = e" if "lt_holds m p d" "lt_holds m p e" for m p d e
    using that lt_owns_unique unfolding lt_holds_def by blast
  show "lt_GetData (Some m) p True n = Some (0, d)" if "lt_inv m L" "lt_holds m p d" "lt_room m d n"
    for m L p d n using that lt_GetData_holds(1) unfolding lt_inv_def by blast
qed (fact lt_put_cases lt_del_ok)+

subsection \<open>Termination and bounds of reading\<close>

lemma get_loop_total:
  assumes wf: "lt_wf m" and "int (length acc) \<le> n"
  shows "\<exists>r out. get_loop m n p acc = Some (r, out) \<and> r \<in> {0, -21, -22} \<and> int (length out) \<le> n"
  using assms(2)
proof (induction "nat (n - int (length acc))" arbitrary: acc p rule: less_induct)
  case less
  have s: "s32 (BLOCK_DATA_LEN m) = int (BLOCK_DATA_LEN m)" "u16n (BLOCK_DATA_LEN m) = BLOCK_DATA_LEN m"
    "0 < BLOCK_DATA_LEN m" using wf_BDL [OF wf] by simp_all
  consider "p = 0" | "p \<noteq> 0" "p \<ge> ddwAllBlockCount m"
    | "p \<noteq> 0" "p < ddwAllBlockCount m" "int (length acc) + int (BLOCK_DATA_LEN m) > n"
    | "p \<noteq> 0" "p < ddwAllBlockCount m" "int (length acc) + int (BLOCK_DATA_LEN m) \<le> n" by linarith
  then show ?case
  proof cases
    case 4
    have buf: "length (bufData (LT_ELE_AT m p)) = BLOCK_DATA_LEN m"
      by (rule wf_upd_buf [OF wf]) (use 4(2) lt_wfD(3) [OF wf] in simp)
    show ?thesis
    proof (cases "lt_next m p = 0")
      case True
      then show ?thesis
        using 4 s buf by (subst get_loop.simps) (auto simp: Let_def get_loop.simps [of m n 0])
    next
      case False
      let ?acc = "acc @ bufData (LT_ELE_AT m p)"
      have "get_loop m n p acc = get_loop m n (lt_next m p) ?acc"
        using 4 s buf False by (subst get_loop.simps) (simp add: Let_def)
      moreover have "\<exists>r out. get_loop m n (lt_next m p) ?acc = Some (r, out) \<and> r \<in> {0, -21, -22} \<and> int (length out) \<le> n"
        by (rule less.hyps) (use 4(3) s(3) buf in auto)
      ultimately show ?thesis by simp
    qed
  qed (use less.prems s in \<open>subst get_loop.simps; simp\<close>)+
qed

subsection \<open>Delayed deletion\<close>

fun lt_erase_all :: "LinkTableMem \<Rightarrow> nat list \<Rightarrow> LinkTableMem" where
  "lt_erase_all m [] = m"
| "lt_erase_all m (p # ps) = lt_erase_all (snd (RecycleBlock m p)) ps"

lemma erase_all_keeps:
  assumes "lt_inv m L" "set ps \<subseteq> L" "distinct ps" "addwRecyclePool m i = p" "p \<noteq> 0"
    "ddwRecycleIndex m < dwRecyclePoolSize m" "lt_holds m p d"
    "\<And>k. k < length ps \<Longrightarrow> (ddwRecycleIndex m + k) mod dwRecyclePoolSize m \<noteq> i"
  shows "lt_inv (lt_erase_all m ps) (L - set ps) \<and> lt_holds (lt_erase_all m ps) p d"
  using assms
proof (induction ps arbitrary: m L)
  case (Cons q qs)
  let ?m = "snd (RecycleBlock m q)" and ?s = "dwRecyclePoolSize m" and ?x = "ddwRecycleIndex m"
  have q: "q \<in> L" using Cons.prems(2) by simp
  note r = RecycleBlock_root [OF Cons.prems(1) q]
  have idx: "ddwRecycleIndex ?m = (?x + 1) mod ?s" "addwRecyclePool ?m = (addwRecyclePool m)(?x := q)"
    using r(6,7) Cons.prems(6) by (simp_all add: not_le)
  have ne: "?x \<noteq> i" using Cons.prems(8) [of 0] Cons.prems(6) by simp
  have inj: "a = b" if "addwRecyclePool m a = addwRecyclePool m b" "addwRecyclePool m a \<noteq> 0" for a b
    using Cons.prems(1) that unfolding lt_inv_def by blast
  have "lt_holds ?m p d"
    by (rule r(10)) (use Cons.prems(4-7) ne inj [of i ?x] in \<open>auto simp: lt_pool_def not_le\<close>)
  moreover have "(ddwRecycleIndex ?m + k) mod dwRecyclePoolSize ?m \<noteq> i" if "k < length qs" for k
    using Cons.prems(8) [of "Suc k"] that mod_add_left_eq [of "?x + 1" ?s k] by (simp add: idx(1) r(5))
  moreover have "ddwRecycleIndex ?m < dwRecyclePoolSize ?m" using Cons.prems(6) by (simp add: idx(1) r(5))
  moreover have "addwRecyclePool ?m i = p" using idx(2) ne Cons.prems(4) by simp
  moreover have "set qs \<subseteq> L - {q}" using Cons.prems(2,3) by auto
  ultimately have "lt_inv (lt_erase_all ?m qs) (L - {q} - set qs) \<and> lt_holds (lt_erase_all ?m qs) p d"
    using Cons.prems(3,5) by (intro Cons.IH [OF r(2)]) auto
  moreover have "L - {q} - set qs = L - set (q # qs)" by auto
  ultimately show ?case by simp
qed simp

lemma erase_first_then_all:
  assumes inv: "lt_inv m L" and ps: "set (p # ps) \<subseteq> L" "distinct (p # ps)" "length ps < dwRecyclePoolSize m"
    and h: "lt_holds m p d"
  shows "lt_inv (lt_erase_all m (p # ps)) (L - set (p # ps)) \<and> lt_holds (lt_erase_all m (p # ps)) p d"
proof -
  let ?m = "snd (RecycleBlock m p)" and ?s = "dwRecyclePoolSize m"
  define i where "i = (if ddwRecycleIndex m \<ge> ?s then 0 else ddwRecycleIndex m)"
  have p: "p \<in> L" using ps(1) by simp
  note r = RecycleBlock_root [OF inv p, folded i_def]
  have wf: "lt_wf m" using inv by (simp add: lt_inv_def)
  have i: "i < ?s" using lt_wfD(9) [OF wf] by (simp add: i_def)
  have p0: "p \<noteq> 0" using lt.live_holds [OF inv p] by simp
  have "lt_inv (lt_erase_all ?m ps) (L - {p} - set ps) \<and> lt_holds (lt_erase_all ?m ps) p d"
  proof (rule erase_all_keeps [where i = i])
    fix k assume k: "k < length ps"
    have eq: "(Suc i mod ?s + k) mod ?s = (i + Suc k) mod ?s" by (simp add: mod_add_left_eq)
    have "(i + Suc k) mod ?s \<noteq> i"
    proof
      assume "(i + Suc k) mod ?s = i"
      then show False using k ps(3) i by (cases "i + Suc k < ?s") (auto simp: mod_if split: if_splits)
    qed
    then show "(ddwRecycleIndex ?m + k) mod dwRecyclePoolSize ?m \<noteq> i" by (simp add: r(5,6) eq)
  qed (use r(2,5,6,7) r(4) [OF p h] ps p0 i in auto)
  moreover have "L - {p} - set ps = L - set (p # ps)" by auto
  ultimately show ?thesis by simp
qed

section \<open>Properties\<close>

text \<open>The table as a map from the positions clients hold to the data stored there.\<close>

definition lt_rep :: "LinkTableMem \<Rightarrow> (nat \<Rightarrow> byte list option) \<Rightarrow> bool" where
  "lt_rep m M \<longleftrightarrow> lt_inv m (dom M) \<and> (\<forall>p d. M p = Some d \<longrightarrow> lt_holds m p d)"

lemma lt_rep_eq: "lt.rep = lt_rep"
  by (intro ext) (simp add: lt_rep_def lt.rep_def)

lemma lt_put_SetData:
  "lt_put m pos d = Some (r, p, m') \<Longrightarrow>
   lt_SetData (Some m) pos (Some d) (int (length d)) = Some (r, p, Some m')"
  by (auto simp: lt_put_def split: option.splits prod.splits)

lemma lt_Init_ok:
  assumes "length bs = n" "3 \<le> n" "n \<le> 2 ^ 31" "8 < sz" "sz < 65544" "EvalBufferSize n sz \<le> bufsz"
    "\<forall>b \<in> set bs. ddwLengthInBlock b = 0 \<and> length (bufData b) = sz - 8"
  shows "\<exists>m. lt_Init lt (Some bs) bufsz n sz = (0, Some m) \<and> lt_inv m {} \<and> ddwFirstFreePos m = 0 \<and>
     ddwAllBlockCount m = n - 1 \<and> ddwFreeBlockCount m = n - 1 \<and> ddwBlockSize m = sz"
proof -
  obtain m where m: "lt_Init lt (Some bs) bufsz n sz = (0, Some m)"
    and f: "ddwAllBlockCount m = n - 1" "ddwFreeBlockCount m = n - 1" "ddwBlockSize m = sz"
      "ddwLastEmpty m = 1" "dwRecyclePoolSize m = LT_DEF_RECYCLE_POOL_SIZE" "ddwFirstFreePos m = 0"
      "addwRecyclePool m = (\<lambda>_. 0)" "lt_blocks m = bs"
    using assms(2,3,6) by (simp add: lt_Init_def)
  have bdl: "BLOCK_DATA_LEN m = sz - 8" using assms(4,5) f(3) by (simp add: BLOCK_DATA_LEN_def)
  have "lt_len m p = 0" if "p < n" for p
    using assms(1,7) that f(8) by (simp add: LT_ELE_AT_def)
  then have used: "lt_used m = {}" using f(1) by (auto simp: lt_used_def)
  have "lt_wf m"
    using assms used bdl f
    by (intro lt_wfI) (simp_all add: LT_DEF_RECYCLE_POOL_SIZE_def LT_MAX_RECYCLE_POOL_SIZE_def)
  moreover have "lt_pool m = {}" using f(7) by (auto simp: lt_pool_def)
  ultimately have "lt_inv m {}" using f(7) by (simp add: lt_inv_def lt_roots_ok_def)
  then show ?thesis using m f by blast
qed

text \<open>A small table for the witnesses: five usable blocks of two data bytes.\<close>

definition lt_demo :: LinkTableMem where
  "lt_demo = the (snd (lt_Init None
     (Some (replicate 7 \<lparr>ddwNext = 0, ddwLengthInBlock = 0, bufData = [0, 0]\<rparr>)) (2 ^ 30) 7 10))"

lemma lt_demo_inv: "lt_inv lt_demo {}" "ddwFirstFreePos lt_demo = 0" "ddwFreeBlockCount lt_demo = 6"
    "ddwAllBlockCount lt_demo = 6" "ddwBlockSize lt_demo = 10" "BLOCK_DATA_LEN lt_demo = 2"
proof -
  have e: "EvalBufferSize 7 10 \<le> 2 ^ 30"
    by (simp add: EvalBufferSize_def sizeof_LinkTableHead_def LT_MAX_RECYCLE_POOL_SIZE_def LT_MAX_USRDATA_LEN_def)
  obtain m where m: "lt_Init None (Some (replicate 7 \<lparr>ddwNext = 0, ddwLengthInBlock = 0, bufData = [0, 0]\<rparr>))
      (2 ^ 30) 7 10 = (0, Some m)" "lt_inv m {}" "ddwFirstFreePos m = 0" "ddwAllBlockCount m = 6"
      "ddwFreeBlockCount m = 6" "ddwBlockSize m = 10"
    using lt_Init_ok [of "replicate 7 \<lparr>ddwNext = 0, ddwLengthInBlock = 0, bufData = [0, 0]\<rparr>" 7 10 "2 ^ 30" None] e
    by auto
  then show "lt_inv lt_demo {}" "ddwFirstFreePos lt_demo = 0" "ddwFreeBlockCount lt_demo = 6"
    "ddwAllBlockCount lt_demo = 6" "ddwBlockSize lt_demo = 10" "BLOCK_DATA_LEN lt_demo = 2"
    by (simp_all add: lt_demo_def BLOCK_DATA_LEN_def)
qed

lemma lt_demo_rep: "lt_rep lt_demo Map.empty"
  using lt_demo_inv(1) by (simp add: lt_rep_def)

lemma lt_demo_fits: "lt_fits lt_demo [a, b, c]"
  by (simp add: lt_fits_def lt_nblocks_def lt_demo_inv MAX_BLOCK_COUNT_def)

lemma free_visit_0 [simp]: "free_visit m n 0 = []"
  by (cases n) simp_all

lemma lt_demo_stored:
  "\<exists>pos' m'. lt_SetData (Some lt_demo) 0 (Some [a, b, c]) (int (length [a::byte, b, c])) = Some (0, pos', Some m') \<and>
     lt_stored lt_demo {} 0 [a, b, c] pos' m'"
  using SetData_main [OF lt_demo_inv(1), of 0 "[a, b, c]"] lt_demo_fits lt_demo_inv(2)
  unfolding lt_fits_def by auto

lemma lt_demo_room:
  assumes "lt_stored lt_demo {} 0 [a, b, c] pos' m'"
  shows "lt_room m' [a, b, c] 4" "lt_rep m' [pos' \<mapsto> [a, b, c]]"
proof -
  have "BLOCK_DATA_LEN m' = 2"
    using assms BLOCK_DATA_LEN_cong [of m' lt_demo] lt_demo_inv(6) by (simp add: lt_stored_def)
  then show "lt_room m' [a, b, c] 4" by (simp add: lt_room_def lt_nblocks_def)
  show "lt_rep m' [pos' \<mapsto> [a, b, c]]" using assms by (simp add: lt_rep_def lt_stored_def)
qed

text \<open>(C9) Storing refines a map update. When the table represents the map \<open>M\<close>, the old position is
  0 or one the caller holds, and the free counter exceeds the number of blocks the datum needs,
  then \<open>SetData\<close> returns; on success the position it reports was not in use, and the table
  represents \<open>M\<close> without the old position and with the datum at the new one; on failure the
  position is unchanged and the table still represents \<open>M\<close>.\<close>

theorem lt_SetData_refines:
  assumes "lt_rep m M" and "pos = 0 \<or> pos \<in> dom M" and "lt_fits m d"
  shows "\<exists>r pos' m'. lt_SetData (Some m) pos (Some d) (int (length d)) = Some (r, pos', Some m') \<and>
     (r = 0 \<and> pos' \<noteq> 0 \<and> M pos' = None \<and> lt_rep m' ((M(pos := None))(pos' \<mapsto> d)) \<or>
      r < 0 \<and> pos' = pos \<and> lt_rep m' M)"
  using lt.put_rep [unfolded lt_rep_eq, OF assms] lt_put_SetData by blast

theorem lt_SetData_refines_witness:
  "\<exists>r pos' m'. lt_SetData (Some lt_demo) 0 (Some [1, 2, 3]) 3 = Some (r, pos', Some m') \<and>
     (r = 0 \<and> pos' \<noteq> 0 \<and> lt_rep m' [pos' \<mapsto> [1, 2, 3]] \<or> r < 0 \<and> pos' = 0 \<and> lt_rep m' Map.empty)"
  using lt_SetData_refines [OF lt_demo_rep _ lt_demo_fits, of 0] by simp

text \<open>(C10) Storing and then reading gives the bytes back, provided the datum is one the table has room for (\<open>lt_fits\<close>: not empty,
  shorter than 2 GB, of at most \<open>MAX_BLOCK_COUNT\<close> blocks and of fewer than the free counter says). After a successful \<open>SetData\<close> of
  such a datum, \<open>GetData\<close> returns it at the position reported, and at every other position the caller holds what it returned before,
  into every buffer with room for the blocks. The condition is needed: on a table that is fuller a success can lose a part of the
  datum, see \<open>lt_full_table_corrupts\<close>.\<close>

theorem lt_SetData_GetData:
  assumes "lt_rep m M" and "pos = 0 \<or> pos \<in> dom M" and "lt_fits m d"
    and "lt_SetData (Some m) pos (Some d) (int (length d)) = Some (0, pos', Some m')"
    and "((M(pos := None))(pos' \<mapsto> d)) q = Some e" and "lt_room m' e n"
  shows "lt_GetData (Some m') q True n = Some (0, e)"
proof -
  have "lt_rep m' ((M(pos := None))(pos' \<mapsto> d))"
    using lt.put_rep [unfolded lt_rep_eq, OF assms(1-3)] assms(4) lt_put_SetData by fastforce
  then show ?thesis using lt.get_rep [unfolded lt_rep_eq] assms(5,6) by blast
qed

theorem lt_SetData_GetData_witness:
  "\<exists>pos' m'. lt_SetData (Some lt_demo) 0 (Some [1, 2, 3]) 3 = Some (0, pos', Some m') \<and>
     lt_GetData (Some m') pos' True 4 = Some (0, [1, 2, 3])"
proof -
  obtain pos' m' where s: "lt_SetData (Some lt_demo) 0 (Some [1, 2, 3]) (int (length [1::byte, 2, 3])) = Some (0, pos', Some m')"
    and st: "lt_stored lt_demo {} 0 [1, 2, 3] pos' m'" using lt_demo_stored [of 1 2 3] by blast
  then show ?thesis
    using lt_SetData_GetData [OF lt_demo_rep _ lt_demo_fits s, of pos' "[1, 2, 3]" 4] s lt_demo_room [OF st] by auto
qed

text \<open>(C14) When the counter exceeds the blocks needed and the walk along the free list does not
  come back to a block, \<open>SetData\<close> succeeds.\<close>

theorem lt_SetData_succeeds:
  assumes "lt_inv m L" and "pos = 0 \<or> pos \<in> L" and "lt_fits m d"
    and "distinct (free_visit m (lt_nblocks m d) (ddwFirstFreePos m))"
  shows "\<exists>pos' m'. lt_SetData (Some m) pos (Some d) (int (length d)) = Some (0, pos', Some m') \<and>
     lt_inv m' (insert pos' (L - {pos}))"
  using SetData_main [OF assms(1,2)] assms(3,4) unfolding lt_fits_def lt_stored_def by blast

theorem lt_SetData_succeeds_witness:
  "\<exists>pos' m'. lt_SetData (Some lt_demo) 0 (Some [1, 2, 3]) 3 = Some (0, pos', Some m') \<and> lt_inv m' {pos'}"
  using lt_SetData_succeeds [OF lt_demo_inv(1) _ lt_demo_fits, of 0] lt_demo_inv(2) by simp

text \<open>Too little space: when the datum needs more blocks than the free counter says, \<open>SetData\<close>
  returns -100, and -2 when it needs more than \<open>MAX_BLOCK_COUNT\<close>; position and table are unchanged.\<close>

theorem lt_SetData_nospace:
  assumes "lt_wf m" and "length d < 2 ^ 31"
    and "lt_nblocks m d > ddwFreeBlockCount m \<or> lt_nblocks m d > MAX_BLOCK_COUNT"
  shows "lt_SetData (Some m) pos (Some d) (int (length d)) =
     Some (if lt_nblocks m d > MAX_BLOCK_COUNT then -2 else -100, pos, Some m)"
proof -
  have "ddwFreeBlockCount m < 2147483648" using lt_wfD(2,12) [OF assms(1)] by simp
  then have s: "s32 (ddwFreeBlockCount m) = int (ddwFreeBlockCount m)" by simp
  have b: "BLOCK_DATA_LEN m \<noteq> 0" using wf_BDL [OF assms(1)] by simp
  show ?thesis
    using assms(3) s b lt_block_num_eq [OF assms(1,2)]
    by (auto simp: lt_SetData_def GetEmptyBlock_def)
qed

theorem lt_SetData_nospace_witness:
  "lt_SetData (Some lt_demo) 0 (Some (replicate 13 7)) 13 = Some (-100, 0, Some lt_demo)"
proof -
  have wf: "lt_wf lt_demo" using lt_demo_inv(1) by (simp add: lt_inv_def)
  have n: "lt_nblocks lt_demo (replicate 13 7) = 7" by (simp add: lt_nblocks_def lt_demo_inv)
  show ?thesis
    using lt_SetData_nospace [OF wf, of "replicate 13 7" 0] n lt_demo_inv(3) by (simp add: MAX_BLOCK_COUNT_def)
qed

text \<open>(C12) Erasing removes the position from the map and keeps all other data; the erased chain is
  only put into the recycle pool, so a reader that still has the position reads the old data.\<close>

theorem lt_EraseData_refines:
  assumes "lt_rep m M" and "M p = Some d"
  shows "\<exists>m'. lt_EraseData (Some m) p = (0, Some m') \<and> lt_rep m' (M(p := None)) \<and>
     (\<forall>n. lt_room m' d n \<longrightarrow> lt_GetData (Some m') p True n = Some (0, d))"
proof -
  have p: "p \<in> dom M" using assms(2) by (simp add: domI)
  obtain m' where m': "lt_del m p = (0, m')" "lt_rep m' (M(p := None))" "lt_holds m' p d"
    using lt.del_rep [unfolded lt_rep_eq, OF assms(1) p] assms(2) by blast
  have "lt_EraseData (Some m) p = (0, Some m')"
    using m'(1) by (cases "RecycleBlock m p") (simp add: lt_del_def lt_EraseData_def)
  moreover have "lt_wf m'" using m'(2) by (simp add: lt_rep_def lt_inv_def)
  ultimately show ?thesis using m' lt_GetData_holds(1) by blast
qed

theorem lt_EraseData_refines_witness:
  "\<exists>pos' m1 m2. lt_SetData (Some lt_demo) 0 (Some [1, 2, 3]) 3 = Some (0, pos', Some m1) \<and>
     lt_EraseData (Some m1) pos' = (0, Some m2) \<and> lt_rep m2 Map.empty"
proof -
  obtain p m1 where s: "lt_SetData (Some lt_demo) 0 (Some [1, 2, 3]) 3 = Some (0, p, Some m1)"
    and st: "lt_stored lt_demo {} 0 [1, 2, 3] p m1" using lt_demo_stored [of 1 2 3] by auto
  obtain m2 where "lt_EraseData (Some m1) p = (0, Some m2)" "lt_rep m2 ([p \<mapsto> [1, 2, 3]](p := None))"
    using lt_EraseData_refines [OF lt_demo_room(2) [OF st], of p "[1, 2, 3]"] by auto
  then show ?thesis using s by auto
qed

text \<open>Initialising a cleared buffer gives an empty table that satisfies the invariant, with
  usage 0.\<close>

theorem lt_Init_inv:
  assumes "length bs = n" and "3 \<le> n" and "n \<le> 2 ^ 31" and "8 < sz" and "sz < 65544"
    and "EvalBufferSize n sz \<le> bufsz"
    and "\<forall>b \<in> set bs. ddwLengthInBlock b = 0 \<and> length (bufData b) = sz - 8"
  shows "\<exists>m. lt_Init lt (Some bs) bufsz n sz = (0, Some m) \<and> lt_rep m Map.empty \<and> GetUsage (Some m) = 0"
proof -
  obtain m where m: "lt_Init lt (Some bs) bufsz n sz = (0, Some m)" "lt_inv m {}"
    "ddwAllBlockCount m = n - 1" "ddwFreeBlockCount m = n - 1" using lt_Init_ok [OF assms] by blast
  have "GetUsage (Some m) = 0" using m(3,4) assms(2,3) by (simp add: GetUsage_def)
  then show ?thesis using m by (auto simp: lt_rep_def)
qed

theorem lt_Init_inv_witness:
  "\<exists>m. lt_Init None (Some (replicate 7 \<lparr>ddwNext = 0, ddwLengthInBlock = 0, bufData = [0, 0]\<rparr>)) (2 ^ 30) 7 10 =
     (0, Some m) \<and> lt_rep m Map.empty"
proof -
  have "EvalBufferSize 7 10 \<le> 2 ^ 30"
    by (simp add: EvalBufferSize_def sizeof_LinkTableHead_def LT_MAX_RECYCLE_POOL_SIZE_def LT_MAX_USRDATA_LEN_def)
  then show ?thesis
    using lt_Init_inv [of "replicate 7 \<lparr>ddwNext = 0, ddwLengthInBlock = 0, bufData = [0, 0]\<rparr>" 7 10 "2 ^ 30" None]
    by auto
qed


text \<open>(C13) Delayed deletion: an erased datum stays readable at its old position while fewer further
  positions are erased than the recycle pool has slots.\<close>

theorem lt_erase_delayed:
  assumes "lt_rep m M" and "M p = Some d" and "set ps \<subseteq> dom M" and "distinct (p # ps)"
    and "length ps < dwRecyclePoolSize m"
  defines "m' \<equiv> lt_erase_all m (p # ps)"
  shows "lt_inv m' (dom M - set (p # ps)) \<and> (\<forall>n. lt_room m' d n \<longrightarrow> lt_GetData (Some m') p True n = Some (0, d))"
proof -
  have "lt_inv m (dom M)" "lt_holds m p d" using assms(1,2) by (auto simp: lt_rep_def)
  then have e: "lt_inv m' (dom M - set (p # ps)) \<and> lt_holds m' p d"
    unfolding m'_def using assms(2-5) by (intro erase_first_then_all) auto
  then have "lt_wf m'" by (simp add: lt_inv_def)
  then show ?thesis using e lt_GetData_holds(1) by blast
qed

theorem lt_erase_delayed_witness:
  "\<exists>p m1. lt_SetData (Some lt_demo) 0 (Some [1, 2, 3]) 3 = Some (0, p, Some m1) \<and>
     lt_inv (lt_erase_all m1 [p]) {}"
proof -
  obtain p m1 where s: "lt_SetData (Some lt_demo) 0 (Some [1, 2, 3]) 3 = Some (0, p, Some m1)"
    and st: "lt_stored lt_demo {} 0 [1, 2, 3] p m1" using lt_demo_stored [of 1 2 3] by auto
  have "lt_wf m1" using st by (auto simp: lt_stored_def lt_inv_def)
  then have "length [] < dwRecyclePoolSize m1" using lt_wfD(9) by fastforce
  then show ?thesis
    using lt_erase_delayed [OF lt_demo_room(2) [OF st], of p "[1, 2, 3]" "[]"] s by auto
qed

text \<open>Changing the size of the recycle pool frees all recycled chains and keeps the data; sizes
  outside 1 to \<open>LT_MAX_RECYCLE_POOL_SIZE\<close> are refused.\<close>

theorem lt_SetRecyclePoolSize_keeps:
  assumes "lt_rep m M"
  shows "\<exists>m'. SetRecyclePoolSize (Some m) sz =
     (if 1 \<le> sz \<and> sz \<le> int LT_MAX_RECYCLE_POOL_SIZE then 0 else -1, Some m') \<and> lt_rep m' M \<and>
     (1 \<le> sz \<and> sz \<le> int LT_MAX_RECYCLE_POOL_SIZE \<longrightarrow> lt_pool m' = {} \<and> dwRecyclePoolSize m' = nat sz)"
proof (cases "1 \<le> sz \<and> sz \<le> int LT_MAX_RECYCLE_POOL_SIZE")
  case True
  let ?e = "EmptyRecyclePool m" and ?m = "(EmptyRecyclePool m)\<lparr>dwRecyclePoolSize := nat sz\<rparr>"
  have inv: "lt_inv m (dom M)" using assms by (simp add: lt_rep_def)
  note E = EmptyRecyclePool_ok [OF inv]
  have wfe: "lt_wf ?e" using E(1) by (simp add: lt_inv_def)
  have "1 \<le> nat sz" "nat sz \<le> LT_MAX_RECYCLE_POOL_SIZE" using True by auto
  then have wf: "lt_wf ?m"
    using lt_wfD [OF wfe] E(2)
    by (intro lt_wfI) (simp_all add: BLOCK_DATA_LEN_def lt_used_def)
  have hold: "lt_holds m p d \<Longrightarrow> p \<in> dom M \<Longrightarrow> lt_holds ?m p d" for p d
    using lt_holds_cong [of ?e p d ?m] E(3) by simp
  have "lt_inv ?m (dom M)" by (rule lt_inv_transfer [OF E(1) wf]) simp_all
  then have "lt_rep ?m M" using hold assms by (auto simp: lt_rep_def)
  moreover have "lt_pool ?m = {}" using E(2) by (auto simp: lt_pool_def)
  ultimately show ?thesis using True by (auto simp: SetRecyclePoolSize_def)
next
  case False
  then show ?thesis using assms by (auto simp: SetRecyclePoolSize_def)
qed

theorem lt_SetRecyclePoolSize_keeps_witness:
  "\<exists>m'. SetRecyclePoolSize (Some lt_demo) 5 = (0, Some m') \<and> lt_rep m' Map.empty"
  using lt_SetRecyclePoolSize_keeps [OF lt_demo_rep, of 5] by (auto simp: LT_MAX_RECYCLE_POOL_SIZE_def)

text \<open>Reading always returns, whatever the links of the blocks say, and never writes more bytes
  than the caller's buffer has; the codes are 0, -1, -21 and -22.\<close>

theorem lt_GetData_total:
  assumes "lt_wf m" and "0 \<le> n"
  shows "\<exists>r out. lt_GetData (Some m) p buf_ok n = Some (r, out) \<and> r \<in> {0, -1, -21, -22} \<and>
     int (length out) \<le> n"
  using get_loop_total [OF assms(1), of "[]" n p] assms(2) by (auto simp: lt_GetData_def)

theorem lt_GetData_total_witness:
  "\<exists>r out. lt_GetData (Some lt_demo) 3 True 100 = Some (r, out) \<and> length out \<le> 100"
proof -
  have "lt_wf lt_demo" using lt_demo_inv(1) by (simp add: lt_inv_def)
  then show ?thesis using lt_GetData_total [of lt_demo 100 3 True] by auto
qed

text \<open>The usage a well-formed table reports is a percentage.\<close>

theorem lt_GetUsage_bounds:
  assumes "lt_wf m"
  shows "0 \<le> GetUsage (Some m) \<and> GetUsage (Some m) \<le> 100"
proof -
  have f: "ddwFreeBlockCount m \<le> ddwAllBlockCount m" "ddwAllBlockCount m < 2147483648"
    "0 < ddwAllBlockCount m" using lt_wfD(1,2,12) [OF assms] by auto
  have "ddwFreeBlockCount m * 100 div ddwAllBlockCount m \<le> 100"
    using f by (metis div_le_mono mult.commute mult_le_mono2 nonzero_mult_div_cancel_left less_not_refl2)
  then show ?thesis using f by (simp add: GetUsage_def)
qed

theorem lt_GetUsage_bounds_witness:
  "0 \<le> GetUsage (Some lt_demo) \<and> GetUsage (Some lt_demo) \<le> 100"
proof -
  have "lt_wf lt_demo" using lt_demo_inv(1) by (simp add: lt_inv_def)
  then show ?thesis by (rule lt_GetUsage_bounds)
qed

text \<open>The user area of the header: what was stored is read back, cut to the size of the area
  and to the buffer of the reader.\<close>

theorem lt_HeaderData_roundtrip:
  assumes "length d < 2 ^ 31" and "0 < n"
  shows "\<exists>m'. SetHeaderData (Some m) (Some d) (int (length d)) =
        (int (min (length d) LT_MAX_USRDATA_LEN), Some m') \<and>
      GetHeaderData (Some m') True n =
        (min n (int (min (length d) LT_MAX_USRDATA_LEN)), take (nat n) (take LT_MAX_USRDATA_LEN d))"
proof -
  let ?k = "min (length d) LT_MAX_USRDATA_LEN"
  let ?m = "m\<lparr>sUserData := (\<lambda>i. if int i < int ?k then d ! i else sUserData m i), dwUserDataLen := ?k\<rparr>"
  have "SetHeaderData (Some m) (Some d) (int (length d)) = (int ?k, Some ?m)"
    by (auto simp: SetHeaderData_def Let_def min_def)
  moreover have "s32 ?k = int ?k" using assms(1) by (intro s32_id) simp
  then have "GetHeaderData (Some ?m) True n = (min n (int ?k), map (sUserData ?m) [0..<nat (min n (int ?k))])"
    using assms(2) by (simp add: GetHeaderData_def Let_def min_def)
  moreover have "map (sUserData ?m) [0..<nat (min n (int ?k))] = take (nat n) (take LT_MAX_USRDATA_LEN d)"
    by (rule nth_equalityI) auto
  ultimately show ?thesis by auto
qed

theorem lt_HeaderData_roundtrip_witness:
  "\<exists>m'. SetHeaderData (Some lt_demo) (Some [1, 2, 3]) 3 = (3, Some m') \<and>
     GetHeaderData (Some m') True 2 = (2, [1, 2])"
  using lt_HeaderData_roundtrip [of "[1, 2, 3]" 2 lt_demo] by (auto simp: LT_MAX_USRDATA_LEN_def)

text \<open>A table of two usable blocks with one data byte each, whose counter says three.\<close>

definition lt_tiny :: LinkTableMem where
  "lt_tiny = \<lparr>ddwAllBlockCount = 3, ddwFreeBlockCount = 3, ddwBlockSize = 9, ddwLastEmpty = 1,
     ddwFirstFreePos = 0, ddwRecycleIndex = 0, dwRecyclePoolSize = LT_DEF_RECYCLE_POOL_SIZE,
     addwRecyclePool = (\<lambda>_. 0), dwUserDataLen = 0, sUserData = (\<lambda>_. 0),
     lt_blocks = replicate 4 \<lparr>ddwNext = 0, ddwLengthInBlock = 0, bufData = [0]\<rparr>\<rparr>"

lemma lt_tiny_Init:
  "lt_Init None (Some (replicate 4 \<lparr>ddwNext = 0, ddwLengthInBlock = 0, bufData = [0]\<rparr>)) (2 ^ 30) 4 9 = (0, Some lt_tiny)"
  by (simp add: lt_Init_def lt_tiny_def EvalBufferSize_def sizeof_LinkTableHead_def
      LT_MAX_RECYCLE_POOL_SIZE_def LT_MAX_USRDATA_LEN_def)

lemma replicate_4: "replicate 4 x = [x, x, x, x]"
  by (simp add: numeral_eq_Suc)

lemmas lt_eval = replicate_4 lt_tiny_def lt_SetData_def lt_block_num_def BLOCK_DATA_LEN_def GetEmptyBlock_def
  MAX_BLOCK_COUNT_def lt_set_next_def lt_store_def LT_ELE_AT_def lt_block_write_def Let_def
  numeral_3_eq_3 numeral_2_eq_2

text \<open>A datum that needs as many blocks as the free counter says, on a freshly initialised
  table: position 0 is never used, so one block fewer is available than counted; the search then
  takes its first block twice, \<open>SetData\<close> reports success, and reading returns only the last byte.\<close>

theorem lt_full_table_corrupts:
  "\<exists>m'. lt_Init None (Some (replicate 4 \<lparr>ddwNext = 0, ddwLengthInBlock = 0, bufData = [0]\<rparr>)) (2 ^ 30) 4 9 =
       (0, Some lt_tiny) \<and>
     lt_SetData (Some lt_tiny) 0 (Some [1, 2, 3]) 3 = Some (0, 1, Some m') \<and>
     lt_GetData (Some m') 1 True 100 = Some (0, [3])"
proof -
  let ?m = "lt_tiny\<lparr>ddwFreeBlockCount := 0, ddwLastEmpty := 2,
     lt_blocks := [\<lparr>ddwNext = 2, ddwLengthInBlock = 0, bufData = [0]\<rparr>,
                   \<lparr>ddwNext = 0, ddwLengthInBlock = 1, bufData = [3]\<rparr>,
                   \<lparr>ddwNext = 1, ddwLengthInBlock = 1, bufData = [2]\<rparr>,
                   \<lparr>ddwNext = 0, ddwLengthInBlock = 0, bufData = [0]\<rparr>]\<rparr>"
  have "lt_SetData (Some lt_tiny) 0 (Some [1, 2, 3]) 3 = Some (0, 1, Some ?m)"
    by (simp add: lt_eval set_loop.simps)
  moreover have "lt_GetData (Some ?m) 1 True 100 = Some (0, [3])"
    by (simp add: lt_GetData_def get_loop.simps lt_eval)
  ultimately show ?thesis using lt_tiny_Init by blast
qed

text \<open>Storing an empty datum reserves no block: on a table whose free list is not empty it
  reports the head of that list, and the next datum is given the same position.\<close>

theorem lt_empty_datum_aliases:
  assumes "lt_wf m"
  shows "\<exists>m'. lt_SetData (Some m) 0 (Some []) 0 = Some (0, ddwFirstFreePos m, Some m') \<and>
     ddwFirstFreePos m' = ddwFirstFreePos m \<and> ddwFreeBlockCount m' = ddwFreeBlockCount m \<and>
     lt_used m' = lt_used m"
proof -
  have b: "BLOCK_DATA_LEN m \<noteq> 0" using wf_BDL [OF assms] by simp
  have n: "lt_block_num m 0 = 0"
    using lt_block_num_eq [OF assms, of "[]"] wf_BDL(2) [OF assms] by (simp add: lt_nblocks_def)
  have f: "ddwFreeBlockCount m < 2147483648" using lt_wfD(2,12) [OF assms] by simp
  have z: "0 < length (lt_blocks m)" using lt_wfD(3) [OF assms] by simp
  let ?m = "lt_set_next (lt_set_next m 0 0) 0 (ddwFirstFreePos m)"
  have "lt_SetData (Some m) 0 (Some []) 0 = Some (0, ddwFirstFreePos m, Some ?m)"
    using b n f by (simp add: lt_SetData_def GetEmptyBlock_def set_loop.simps Let_def)
  moreover have "lt_used ?m = lt_used m"
    using lt_set_next_wf [OF assms z, of 0] lt_set_next_wf [of "lt_set_next m 0 0" 0] z by simp
  ultimately show ?thesis by simp
qed

theorem lt_empty_datum_aliases_witness:
  "\<exists>m'. lt_SetData (Some lt_demo) 0 (Some []) 0 = Some (0, 0, Some m') \<and> ddwFreeBlockCount m' = 6"
proof -
  have "lt_wf lt_demo" using lt_demo_inv(1) by (simp add: lt_inv_def)
  then show ?thesis using lt_empty_datum_aliases [of lt_demo] lt_demo_inv(2,3) by auto
qed

end
