(* ===== verification/Multi_Hash_Table.thy ===== *)
theory Multi_Hash_Table
  imports Link_Table
begin

text \<open>
  The multi-level hash table of \<open>ht/multi_hash_table.h\<close> and \<open>ht/multi_hash_table.cc\<close>: rows of index
  nodes, one candidate node per row for a hash value, and the data of every key in the block store
  of \<open>Link_Table\<close>.

  \<open>MhtMem\<close> holds what an initialised object points at (the fields of \<open>MhtHeader\<close>, the node array and
  the block store) and its hash function; \<open>None\<close> is an object that was not initialised. Node
  pointers are indices into the node array. The clock (\<open>time\<close>) is an argument. A result of \<open>None\<close>
  stands for a run that does not return a value: a division by zero, an access outside the node
  array or a block store call with no result. The mutex calls never fail with a negative code and
  have no effect on a single thread; they are not modelled.
\<close>

section \<open>Definitions\<close>

definition HASH_MAX_ROW :: nat where
  "HASH_MAX_ROW = 100"

definition HASH_MAX_KEY_LENGTH :: nat where
  "HASH_MAX_KEY_LENGTH = 10240"

definition HASH_MAX_DATA_LENGTH :: nat where
  "HASH_MAX_DATA_LENGTH = 100 * 1024 * 1024"

text \<open>\<open>acKey\<close> starts right behind the 56 bits of the two bit fields, at offset 15 of the 16 bytes of
  \<open>sizeof(MhtNode)\<close>, and extends to the end of the node.\<close>

record MhtNode =
  dwHashKey :: nat
  dwAccessTime :: nat
  ddwLtPos :: nat
  cKeyLen :: nat
  acKey :: "byte list"

definition sizeof_MhtNode :: nat where
  "sizeof_MhtNode = 16"

record MhtMem =
  ddwTotalShmSize :: nat
  ddwHashNodeNum :: nat
  ddwHashNodeSize :: nat
  ddwDataBlockSize :: nat
  ddwDataBlockNum :: nat
  ddwRowNum :: nat
  auRowsNodeNum :: "nat \<Rightarrow> nat"
  auRowsStartNode :: "nat \<Rightarrow> nat"
  ddwMaxUsedRow :: nat
  ddwEraseIterator :: nat
  cUseAccessSeq :: bool
  mht_nodes :: "MhtNode list"
  mht_lt :: LinkTable
  mht_hash :: "byte list \<Rightarrow> nat"

type_synonym MultiHashTable = "MhtMem option"

definition sizeof_MhtHeader :: nat where
  "sizeof_MhtHeader = 6 * 8 + 2 * 8 * HASH_MAX_ROW + 2 * 8 + 1024 * 1024"

subsection \<open>Hash function and row sizes\<close>

text \<open>\<open>h * 131 + *p\<close> on 32-bit integers, over the first \<open>len\<close> bytes of the key.\<close>

definition DefaultHashFunc :: "byte list \<Rightarrow> nat" where
  "DefaultHashFunc key = unat (fold (\<lambda>p h. h * 131 + ucast p) key (0::u32))"

text \<open>\<open>ceil(sqrt(n))\<close>, from a candidate on. The argument stays below \<open>2 ^ 52\<close>, where the
  computation with \<open>double\<close> is exact.\<close>

function ceil_sqrt_from :: "nat \<Rightarrow> nat \<Rightarrow> nat" where
  "ceil_sqrt_from n k = (if n \<le> k * k then k else ceil_sqrt_from n (k + 1))"
  by pat_completeness auto
termination
proof (relation "measure (\<lambda>(n, k). n - k)")
  fix n k :: nat
  assume "\<not> n \<le> k * k"
  then have "k < n" using le_square [of k] by linarith
  then show "((n, k + 1), (n, k)) \<in> measure (\<lambda>(n, k). n - k)" by simp
qed simp

declare ceil_sqrt_from.simps [simp del]

text \<open>The inner loop: it runs to the end when no \<open>k\<close> from 2 to \<open>sqr\<close> divides \<open>n\<close>, and then
  \<open>k == sqr + 1\<close>; for \<open>sqr = 0\<close> it ends with \<open>k = 2\<close>, which is not \<open>sqr + 1\<close>.\<close>

definition no_divisor :: "nat \<Rightarrow> bool" where
  "no_divisor n = (let sqr = ceil_sqrt_from n 0
                   in sqr \<noteq> 0 \<and> (\<forall>k \<in> set [2..<sqr + 1]. n mod k \<noteq> 0))"

fun MaxPrime :: "nat \<Rightarrow> nat" where
  "MaxPrime 0 = 0"
| "MaxPrime (Suc n) = (if no_divisor n then n else MaxPrime n)"

text \<open>The rows from the fourth on: \<open>n\<close> rows are left, the next is row \<open>i\<close>. The result is the node
  number of each row, the first node of each row and the total.\<close>

fun calc_rows :: "nat \<Rightarrow> nat \<Rightarrow> nat \<Rightarrow> nat \<Rightarrow> (nat \<Rightarrow> nat) \<Rightarrow> (nat \<Rightarrow> nat) \<Rightarrow> (nat \<Rightarrow> nat) \<times> (nat \<Rightarrow> nat) \<times> nat" where
  "calc_rows 0 i j uNodeNum num start = (num, start, uNodeNum)"
| "calc_rows (Suc n) i j uNodeNum num start =
     (let j' = MaxPrime j
      in calc_rows n (Suc i) j' (uNodeNum + j') (num(i := j')) (start(i := uNodeNum)))"

text \<open>One of the first three rows: its share of the nodes that are left, or all of them when it is
  the last row.\<close>

definition calc_row :: "bool \<Rightarrow> nat \<Rightarrow> nat \<Rightarrow> nat" where
  "calc_row is_last uLeftNum pct = MaxPrime (if is_last then uLeftNum else u64n (uLeftNum * pct) div 100)"

definition CalcNodeNumForEachRow ::
    "nat \<Rightarrow> nat \<Rightarrow> (nat \<Rightarrow> nat) \<Rightarrow> (nat \<Rightarrow> nat) \<Rightarrow> (nat \<Rightarrow> nat) \<times> (nat \<Rightarrow> nat) \<times> nat" where
  "CalcNodeNumForEachRow rowNum ddwMaxNodeNum num start =
     (let r0 = calc_row (rowNum = 1) ddwMaxNodeNum 70;
          left0 = ddwMaxNodeNum - r0;
          num0 = num(0 := r0); start0 = start(0 := 0)
      in if rowNum = 1 then (num0, start0, r0)
         else let r1 = calc_row (rowNum = 2) left0 10;
                  left1 = left0 - r1;
                  num1 = num0(1 := r1); start1 = start0(1 := r0)
              in if rowNum = 2 then (num1, start1, r0 + r1)
                 else let r2 = calc_row (rowNum = 3) left1 5;
                          left2 = left1 - r2;
                          num2 = num1(2 := r2); start2 = start1(2 := r0 + r1)
                      in if rowNum = 3 then (num2, start2, r0 + r1 + r2)
                         else calc_rows (rowNum - 3) 3 (left2 div (rowNum - 3)) (r0 + r1 + r2) num2 start2)"

definition EvaluateHashNodeSize :: "nat \<Rightarrow> nat" where
  "EvaluateHashNodeSize ddwMaxKeyLen = ddwMaxKeyLen + sizeof_MhtNode"

definition EvaluateHashNodeNum :: "nat \<Rightarrow> nat \<Rightarrow> nat \<Rightarrow> nat" where
  "EvaluateHashNodeNum ddwMemsize nodeSize ddwHashMemRatio =
     (let ddwDataMemSize = u64n (ddwMemsize * 100) div (100 + ddwHashMemRatio);
          hashsz = sub64 ddwMemsize ddwDataMemSize
      in hashsz div nodeSize)"

definition NodeNumRatio2MemSizeRatio :: "nat \<Rightarrow> nat \<Rightarrow> nat \<Rightarrow> nat" where
  "NodeNumRatio2MemSizeRatio ddwNodeSize blockSize ddwIndexRatio =
     u64n (ddwIndexRatio * ddwNodeSize) div blockSize"

subsection \<open>Initialisation\<close>

text \<open>A buffer is given by what its bytes read as when they are cut into nodes and into blocks of a
  given number and size.\<close>

record MhtBuffer =
  buf_nodes :: "nat \<Rightarrow> nat \<Rightarrow> MhtNode list"
  buf_blocks :: "nat \<Rightarrow> nat \<Rightarrow> LtBlock list"

definition InitFromBuffer ::
    "MultiHashTable \<Rightarrow> MhtBuffer option \<Rightarrow> nat \<Rightarrow> nat \<Rightarrow> nat \<Rightarrow> nat \<Rightarrow> nat \<Rightarrow> (byte list \<Rightarrow> nat) option \<Rightarrow> bool
       \<Rightarrow> int \<times> MultiHashTable" where
  "InitFromBuffer t pBuffer ddwBufferSize wMaxKeyLen wRowNum dwIndexRatio blockSize HashFunc bUseAccessSeq =
     (case pBuffer of
        None \<Rightarrow> (-1, t)
      | Some buf \<Rightarrow>
        if ddwBufferSize < 1024 * 1024 * 2 \<or> wMaxKeyLen < 1 \<or> wMaxKeyLen > HASH_MAX_KEY_LENGTH \<or>
           wRowNum < 1 \<or> wRowNum > HASH_MAX_ROW \<or> dwIndexRatio < 1 \<or> dwIndexRatio > 1000 \<or>
           blockSize < 32 \<or> blockSize > 8192
        then (-1, t)
        else
          let ddwNodeSize = EvaluateHashNodeSize wMaxKeyLen;
              ddwMemRatio = NodeNumRatio2MemSizeRatio ddwNodeSize blockSize dwIndexRatio;
              nodeNum = EvaluateHashNodeNum ddwBufferSize ddwNodeSize ddwMemRatio;
              (num, start, totalNum) = CalcNodeNumForEachRow wRowNum nodeNum (\<lambda>_. 0) (\<lambda>_. 0);
              ddwDataSize = sub64 (sub64 ddwBufferSize sizeof_MhtHeader) (u64n (totalNum * ddwNodeSize));
              ddwBlockCount = EvalBlockCount ddwDataSize blockSize;
              (ret, lt) = lt_Init (case t of None \<Rightarrow> None | Some m \<Rightarrow> mht_lt m)
                            (Some (buf_blocks buf ddwBlockCount blockSize)) ddwDataSize ddwBlockCount blockSize;
              old_hash = (case t of None \<Rightarrow> DefaultHashFunc | Some m \<Rightarrow> mht_hash m);
              m = \<lparr>ddwTotalShmSize = ddwBufferSize, ddwHashNodeNum = totalNum, ddwHashNodeSize = ddwNodeSize,
                   ddwDataBlockSize = blockSize, ddwDataBlockNum = ddwBlockCount, ddwRowNum = wRowNum,
                   auRowsNodeNum = num, auRowsStartNode = start, ddwMaxUsedRow = 0, ddwEraseIterator = 0,
                   cUseAccessSeq = bUseAccessSeq, mht_nodes = buf_nodes buf totalNum ddwNodeSize,
                   mht_lt = lt, mht_hash = old_hash\<rparr>
          in if ret \<noteq> 0 then (-2, Some m)
             else (0, Some (m\<lparr>mht_hash := (case HashFunc of None \<Rightarrow> DefaultHashFunc | Some f \<Rightarrow> f)\<rparr>)))"

subsection \<open>Searching\<close>

definition is_hnode_empty :: "MhtNode \<Rightarrow> bool" where
  "is_hnode_empty n \<longleftrightarrow> ddwLtPos n = 0"

text \<open>The key length arrives as \<open>uint8_t\<close>.\<close>

definition hnode_cmp :: "byte list \<Rightarrow> int \<Rightarrow> MhtNode \<Rightarrow> int" where
  "hnode_cmp key iKeyLen n =
     (let kl = u8n (usz iKeyLen); k = int kl - int (cKeyLen n)
      in if k \<noteq> 0 then k else memcmp (take kl key) (take kl (acKey n)))"

record MhtSearch =
  sr_found :: "nat option"
  sr_empty :: "nat option"
  sr_oldest :: "nat option"
  sr_row :: nat

text \<open>The loop over the rows: \<open>n\<close> iterations are left, row \<open>i\<close> starts at node \<open>row\<close>.\<close>

fun search_loop ::
    "MhtMem \<Rightarrow> byte list \<Rightarrow> int \<Rightarrow> nat \<Rightarrow> nat \<Rightarrow> nat \<Rightarrow> nat \<Rightarrow> MhtSearch \<Rightarrow> (nat \<times> nat \<times> MhtSearch) option" where
  "search_loop t key iKeyLen hk 0 i row s = Some (i, row, s)"
| "search_loop t key iKeyLen hk (Suc n) i row s =
     (if auRowsNodeNum t i = 0 then None
      else let p = row + hk mod auRowsNodeNum t i
           in if p \<ge> length (mht_nodes t) then None
              else let nd = mht_nodes t ! p;
                       row' = row + auRowsNodeNum t i
                   in if is_hnode_empty nd
                      then search_loop t key iKeyLen hk n (Suc i) row'
                             (if sr_empty s = None then s\<lparr>sr_empty := Some p, sr_row := i\<rparr> else s)
                      else if hk = dwHashKey nd \<and> hnode_cmp key iKeyLen nd = 0
                      then Some (i, row, s\<lparr>sr_found := Some p\<rparr>)
                      else search_loop t key iKeyLen hk n (Suc i) row'
                             (case sr_oldest s of
                                None \<Rightarrow> s\<lparr>sr_oldest := Some p\<rparr>
                              | Some q \<Rightarrow> if dwAccessTime (mht_nodes t ! q) > dwAccessTime nd
                                          then s\<lparr>sr_oldest := Some p\<rparr> else s))"

text \<open>\<open>want_empty\<close> says that the caller passed a pointer for the empty node.\<close>

definition Search :: "MhtMem \<Rightarrow> byte list \<Rightarrow> int \<Rightarrow> nat \<Rightarrow> bool \<Rightarrow> (MhtSearch \<times> MhtMem) option" where
  "Search t key iKeyLen hk want_empty =
     (let t1 = (if ddwMaxUsedRow t \<ge> ddwRowNum t then t\<lparr>ddwMaxUsedRow := sub64 (ddwRowNum t) 1\<rparr> else t)
      in case search_loop t1 key iKeyLen hk (ddwMaxUsedRow t1 + 1) 0 0
                \<lparr>sr_found = None, sr_empty = None, sr_oldest = None, sr_row = 0\<rparr> of
           None \<Rightarrow> None
         | Some (i, row, s) \<Rightarrow>
             if sr_found s = None \<and> want_empty \<and> sr_empty s = None \<and> i < ddwRowNum t1
             then if auRowsNodeNum t1 i = 0 then None
                  else Some (s\<lparr>sr_empty := Some (row + hk mod auRowsNodeNum t1 i), sr_row := i\<rparr>, t1)
             else Some (s, t1))"

definition mht_store :: "MhtMem \<Rightarrow> nat \<Rightarrow> MhtNode \<Rightarrow> MhtMem" where
  "mht_store t p n = t\<lparr>mht_nodes := (mht_nodes t)[p := n]\<rparr>"

text \<open>\<open>memset(pNode, 0, sizeof( *pNode))\<close> clears the 16 bytes of the node header, whose last byte is
  the first byte of the key.\<close>

definition clear_node :: "MhtNode \<Rightarrow> MhtNode" where
  "clear_node n = \<lparr>dwHashKey = 0, dwAccessTime = 0, ddwLtPos = 0, cKeyLen = 0,
                   acKey = (case acKey n of [] \<Rightarrow> [] | _ # ks \<Rightarrow> 0 # ks)\<rparr>"

definition mht_clear :: "MhtMem \<Rightarrow> nat \<Rightarrow> MhtMem" where
  "mht_clear t p = mht_store t p (clear_node (mht_nodes t ! p))"

subsection \<open>Reading\<close>

text \<open>The result gives the code, the bytes copied, \<open>iDataLen\<close> after the call, and the previous access
  time when a node was found.\<close>

record MhtRead =
  rd_ret :: int
  rd_data :: "byte list"
  rd_len :: int
  rd_time :: "nat option"

definition mht_GetData ::
    "MultiHashTable \<Rightarrow> byte list option \<Rightarrow> int \<Rightarrow> bool \<Rightarrow> int \<Rightarrow> bool \<Rightarrow> nat \<Rightarrow> (MhtRead \<times> MultiHashTable) option" where
  "mht_GetData tab pKey iKeyLen buf_ok iDataLen bUpdateAccessTime now =
     (case pKey of
        None \<Rightarrow> Some (\<lparr>rd_ret = -1, rd_data = [], rd_len = iDataLen, rd_time = None\<rparr>, tab)
      | Some key \<Rightarrow>
        if iKeyLen \<le> 0 \<or> \<not> buf_ok \<or> iDataLen < 1
        then Some (\<lparr>rd_ret = -1, rd_data = [], rd_len = iDataLen, rd_time = None\<rparr>, tab)
        else case tab of
          None \<Rightarrow> Some (\<lparr>rd_ret = -2, rd_data = [], rd_len = iDataLen, rd_time = None\<rparr>, tab)
        | Some t \<Rightarrow>
          (case Search t key iKeyLen (mht_hash t (take (nat iKeyLen) key)) False of
             None \<Rightarrow> None
           | Some (s, t1) \<Rightarrow>
             (case sr_found s of
                None \<Rightarrow> Some (\<lparr>rd_ret = 0, rd_data = [], rd_len = 0, rd_time = None\<rparr>, Some t1)
              | Some p \<Rightarrow>
                let nd = mht_nodes t1 ! p;
                    nd1 = (if \<not> bUpdateAccessTime then nd
                           else if \<not> cUseAccessSeq t1 then nd\<lparr>dwAccessTime := u32n now\<rparr>
                           else nd\<lparr>dwAccessTime := u32n (dwAccessTime nd + 1)\<rparr>);
                    t2 = mht_store t1 p nd1
                in if hnode_cmp key iKeyLen nd1 \<noteq> 0
                   then Some (\<lparr>rd_ret = -3, rd_data = [], rd_len = iDataLen, rd_time = Some (dwAccessTime nd)\<rparr>, Some t2)
                   else case lt_GetData (mht_lt t2) (ddwLtPos nd1) True iDataLen of
                     None \<Rightarrow> None
                   | Some (ret, out) \<Rightarrow>
                       Some (\<lparr>rd_ret = (if ret < 0 then ret else 0), rd_data = out,
                              rd_len = (if ret < 0 then iDataLen else int (length out)),
                              rd_time = Some (dwAccessTime nd)\<rparr>, Some t2))))"

definition PeekData :: "MultiHashTable \<Rightarrow> byte list option \<Rightarrow> int \<Rightarrow> bool \<Rightarrow> int \<Rightarrow> nat \<Rightarrow> (MhtRead \<times> MultiHashTable) option" where
  "PeekData tab pKey iKeyLen buf_ok iDataLen now = mht_GetData tab pKey iKeyLen buf_ok iDataLen False now"

definition EraseBadNode :: "MultiHashTable \<Rightarrow> byte list option \<Rightarrow> int \<Rightarrow> (int \<times> MultiHashTable) option" where
  "EraseBadNode tab pKey iKeyLen =
     (case pKey of
        None \<Rightarrow> Some (-1, tab)
      | Some key \<Rightarrow>
        if iKeyLen \<le> 0 then Some (-1, tab)
        else case tab of
          None \<Rightarrow> Some (-2, tab)
        | Some t \<Rightarrow>
          (case Search t key iKeyLen (mht_hash t (take (nat iKeyLen) key)) False of
             None \<Rightarrow> None
           | Some (s, t1) \<Rightarrow>
             (case sr_found s of
                None \<Rightarrow> Some (0, Some t1)
              | Some p \<Rightarrow> Some (1, Some (mht_clear t1 p)))))"

subsection \<open>Replacing old nodes\<close>

text \<open>\<open>lt.EraseData(n->ddwLtPos)\<close> followed by clearing the node.\<close>

definition erase_node :: "MhtMem \<Rightarrow> nat \<Rightarrow> int \<times> MhtMem" where
  "erase_node t p =
     (case lt_EraseData (mht_lt t) (ddwLtPos (mht_nodes t ! p)) of
        (r, lt') \<Rightarrow> if r < 0 then (r, t\<lparr>mht_lt := lt'\<rparr>) else (r, mht_clear (t\<lparr>mht_lt := lt'\<rparr>) p))"

text \<open>The loop of \<open>SearchAndEraseOldestOne\<close>; it ends after 100 used nodes or at the node where it began.\<close>

partial_function (option) erase_scan ::
    "MhtMem \<Rightarrow> nat \<Rightarrow> nat \<Rightarrow> nat \<Rightarrow> nat \<Rightarrow> nat option \<Rightarrow> (nat \<times> nat option) option" where
  "erase_scan t pData cnt it oldesttime oldest =
     (if cnt \<ge> 100 then Some (it, oldest)
      else if it \<ge> length (mht_nodes t) then None
      else let n = mht_nodes t ! it;
               used = (it \<noteq> pData \<and> \<not> is_hnode_empty n);
               older = (used \<and> dwAccessTime n < oldesttime);
               it' = (if it + 1 \<ge> ddwHashNodeNum t then 0 else it + 1);
               cnt' = (if used then cnt + 1 else cnt);
               time' = (if older then dwAccessTime n else oldesttime);
               oldest' = (if older then Some it else oldest)
           in if it' = ddwEraseIterator t then Some (it', oldest')
              else erase_scan t pData cnt' it' time' oldest')"

declare erase_scan.simps [code]

definition SearchAndEraseOldestOne :: "MhtMem \<Rightarrow> nat \<Rightarrow> (int \<times> MhtMem) option" where
  "SearchAndEraseOldestOne t pData =
     (case erase_scan t pData 0 (if ddwEraseIterator t \<ge> ddwHashNodeNum t then 0 else ddwEraseIterator t)
             (2 ^ 32 - 1) None of
        None \<Rightarrow> None
      | Some (it, oldest) \<Rightarrow>
          let t1 = t\<lparr>ddwEraseIterator := it\<rparr>
          in case oldest of
               None \<Rightarrow> Some (-7, t1)
             | Some q \<Rightarrow> (case erase_node t1 q of (r, t2) \<Rightarrow> Some (if r < 0 then -6 else 0, t2)))"

definition mht_used_num :: "MhtMem \<Rightarrow> nat" where
  "mht_used_num t = length (filter (\<lambda>n. \<not> is_hnode_empty n) (mht_nodes t))"

definition scan_pick_ok :: "MhtMem \<Rightarrow> nat \<Rightarrow> nat option \<Rightarrow> bool" where
  "scan_pick_ok t d old \<longleftrightarrow>
     (\<forall>p. old = Some p \<longrightarrow> p < length (mht_nodes t) \<and> p \<noteq> d \<and> \<not> is_hnode_empty (mht_nodes t ! p))"

lemma erase_scan_pick:
  assumes "erase_scan t d cnt it ot old = Some r"
  shows "scan_pick_ok t d old \<longrightarrow> scan_pick_ok t d (snd r)"
proof (rule erase_scan.raw_induct [where
      P = "\<lambda>t d cnt it ot old r. scan_pick_ok t d old \<longrightarrow> scan_pick_ok t d (snd r)", OF _ assms], goal_cases)
  case (1 es t d cnt it ot old r)
  define n where "n = mht_nodes t ! it"
  define used where "used = (it \<noteq> d \<and> \<not> is_hnode_empty n)"
  define old' where "old' = (if used \<and> dwAccessTime n < ot then Some it else old)"
  define it' where "it' = (if it + 1 \<ge> ddwHashNodeNum t then 0 else it + 1)"
  show ?case
  proof (cases "cnt \<ge> 100 \<or> it \<ge> length (mht_nodes t)")
    case True
    then show ?thesis using 1(2) by (auto split: if_splits)
  next
    case False
    then have old': "scan_pick_ok t d old \<Longrightarrow> scan_pick_ok t d old'"
      by (auto simp: old'_def used_def n_def scan_pick_ok_def)
    have "(if it' = ddwEraseIterator t then Some (it', old')
        else es t d (if used then cnt + 1 else cnt) it' (if used \<and> dwAccessTime n < ot then dwAccessTime n else ot) old')
        = Some r"
      using 1(2) False unfolding Let_def n_def [symmetric] used_def [symmetric] it'_def [symmetric] old'_def [symmetric]
      by simp
    then consider "r = (it', old')" | c x where "es t d c it' x old' = Some r"
      by (auto split: if_splits)
    then show ?thesis using old' 1(1) by cases auto
  qed
qed

lemma erase_scan_found:
  assumes "erase_scan t d cnt it ot None = Some (it', Some q)"
  shows "q < length (mht_nodes t)" "q \<noteq> d" "\<not> is_hnode_empty (mht_nodes t ! q)"
  using erase_scan_pick [OF assms] by (simp_all add: scan_pick_ok_def)

lemma used_num_clear:
  assumes "p < length (mht_nodes t)" "\<not> is_hnode_empty (mht_nodes t ! p)"
  shows "mht_used_num (mht_clear t p) < mht_used_num t"
proof -
  let ?xs = "mht_nodes t" and ?P = "\<lambda>n. \<not> is_hnode_empty n"
  have e: "\<not> ?P (clear_node n)" for n by (simp add: clear_node_def is_hnode_empty_def)
  have "filter ?P (?xs[p := clear_node (?xs ! p)]) = filter ?P (take p ?xs) @ filter ?P (drop (Suc p) ?xs)"
    using assms(1) e by (simp add: upd_conv_take_nth_drop)
  moreover have "filter ?P ?xs = filter ?P (take p ?xs) @ ?xs ! p # filter ?P (drop (Suc p) ?xs)"
    using assms by (subst id_take_nth_drop [OF assms(1)]) simp
  ultimately show ?thesis by (simp add: mht_used_num_def mht_clear_def mht_store_def)
qed

text \<open>A successful replacement leaves one used node fewer.\<close>

lemma SearchAndEraseOldestOne_less:
  assumes "SearchAndEraseOldestOne t d = Some (0, t')"
  shows "mht_used_num t' < mht_used_num t"
proof -
  obtain it old where s: "erase_scan t d 0 (if ddwEraseIterator t \<ge> ddwHashNodeNum t then 0 else ddwEraseIterator t)
      (2 ^ 32 - 1) None = Some (it, old)"
    using assms by (auto simp: SearchAndEraseOldestOne_def split: option.splits)
  then obtain q where old: "old = Some q"
    using assms by (cases old) (simp_all add: SearchAndEraseOldestOne_def)
  note f = erase_scan_found [OF s [unfolded old]]
  let ?t = "t\<lparr>ddwEraseIterator := it\<rparr>"
  obtain r lt' where e: "lt_EraseData (mht_lt ?t) (ddwLtPos (mht_nodes ?t ! q)) = (r, lt')" by fastforce
  then have "\<not> r < 0 \<and> t' = mht_clear (?t\<lparr>mht_lt := lt'\<rparr>) q"
    using assms s old by (auto simp: SearchAndEraseOldestOne_def erase_node_def Let_def split: if_splits)
  then show ?thesis
    using used_num_clear [of q "?t\<lparr>mht_lt := lt'\<rparr>"] f by (simp add: mht_used_num_def)
qed

subsection \<open>Writing\<close>

text \<open>The \<open>do\<close>-\<open>while\<close> loop of \<open>SetData\<close>. After an oldest node of the search path was erased, the
  \<open>continue\<close> tests the code that \<open>EraseData\<close> returned, so the loop ends there. The result is the code,
  \<open>ddwLtPos\<close> and the memory.\<close>

function mht_set_loop ::
    "MhtMem \<Rightarrow> nat option \<Rightarrow> nat \<Rightarrow> byte list option \<Rightarrow> int \<Rightarrow> bool \<Rightarrow> (int \<times> nat \<times> MhtMem) option" where
  "mht_set_loop t oldest p buf iDataLen remove =
     (case lt_SetData (mht_lt t) (ddwLtPos (mht_nodes t ! p)) buf iDataLen of
        None \<Rightarrow> None
      | Some (ret, pos, lt') \<Rightarrow>
        let t1 = t\<lparr>mht_lt := lt'\<rparr>
        in if ret \<ge> 0 then Some (ret, pos, t1)
           else if ret \<noteq> -100 then Some (-8, pos, t1)
           else if \<not> remove then Some (-9, pos, t1)
           else case oldest of
             Some q \<Rightarrow> (case erase_node t1 q of (r, t2) \<Rightarrow> Some (if r < 0 then -10 else r, pos, t2))
           | None \<Rightarrow>
             (case SearchAndEraseOldestOne t1 p of
                None \<Rightarrow> None
              | Some (r, t2) \<Rightarrow>
                  if r \<noteq> 0 then Some (-11, pos, t2) else mht_set_loop t2 None p buf iDataLen remove))"
  by pat_completeness auto
termination
proof (relation "measure (\<lambda>(t, oldest, p, buf, n, remove). mht_used_num t)", goal_cases)
  case (2 t oldest p buf iDataLen remove a ret b pos lt' t1 c r t2)
  then have "SearchAndEraseOldestOne (t\<lparr>mht_lt := lt'\<rparr>) p = Some (0, t2)" by auto
  then show ?case using SearchAndEraseOldestOne_less by (fastforce simp: mht_used_num_def)
qed simp

declare mht_set_loop.simps [simp del]

text \<open>From the chosen node on: store the data, set the position, and fill in a node that was empty.\<close>

definition mht_finish ::
    "MhtMem \<Rightarrow> nat option \<Rightarrow> nat \<Rightarrow> bool \<Rightarrow> nat \<Rightarrow> byte list \<Rightarrow> int \<Rightarrow> nat \<Rightarrow> byte list option \<Rightarrow> int \<Rightarrow> bool \<Rightarrow> nat
       \<Rightarrow> (int \<times> MultiHashTable) option" where
  "mht_finish t oldest p is_new row key iKeyLen hk sDataBuf iDataLen remove now =
     (case mht_set_loop t oldest p sDataBuf iDataLen remove of
        None \<Rightarrow> None
      | Some (ret, pos, t3) \<Rightarrow>
        if ret < 0 then Some (ret, Some t3)
        else let nd = (mht_nodes t3 ! p)\<lparr>ddwLtPos := u48n pos\<rparr>
             in if \<not> is_new then Some (0, Some (mht_store t3 p nd))
                else if nat iKeyLen > length (acKey nd) then None
                else let nd' = nd\<lparr>dwHashKey := hk,
                                 dwAccessTime := (if cUseAccessSeq t3 then 0 else u32n now),
                                 cKeyLen := u8n (nat iKeyLen),
                                 acKey := take (nat iKeyLen) key @ drop (nat iKeyLen) (acKey nd)\<rparr>;
                         t4 = mht_store t3 p nd'
                     in Some (0, Some (if row > ddwMaxUsedRow t4 then t4\<lparr>ddwMaxUsedRow := row\<rparr> else t4)))"

text \<open>After the first erase condition: use the node that was found, else the empty one, else replace
  the oldest node of the search path.\<close>

definition mht_choose ::
    "MhtMem \<Rightarrow> nat option \<Rightarrow> nat option \<Rightarrow> nat \<Rightarrow> nat option \<Rightarrow> byte list \<Rightarrow> int \<Rightarrow> nat \<Rightarrow> byte list option \<Rightarrow> int \<Rightarrow> bool \<Rightarrow> nat
       \<Rightarrow> (int \<times> MultiHashTable) option" where
  "mht_choose t found emptyNode row oldest key iKeyLen hk sDataBuf iDataLen remove now =
     (case found of
        Some p \<Rightarrow> mht_finish t oldest p False row key iKeyLen hk sDataBuf iDataLen remove now
      | None \<Rightarrow>
        (case emptyNode of
           Some p \<Rightarrow>
             if p \<ge> length (mht_nodes t) then None
             else mht_finish t oldest p True row key iKeyLen hk sDataBuf iDataLen remove now
         | None \<Rightarrow>
             if \<not> remove then Some (-5, Some t)
             else case oldest of
               None \<Rightarrow> Some (-6, Some t)
             | Some q \<Rightarrow>
               (case erase_node t q of (r, t2) \<Rightarrow>
                  if r < 0 then Some (-7, Some t2)
                  else mht_finish t2 None q True 0 key iKeyLen hk sDataBuf iDataLen remove now)))"

definition mht_SetData ::
    "MultiHashTable \<Rightarrow> byte list option \<Rightarrow> int \<Rightarrow> byte list option \<Rightarrow> int \<Rightarrow> bool \<Rightarrow> nat \<Rightarrow> (int \<times> MultiHashTable) option" where
  "mht_SetData tab pKey iKeyLen sDataBuf iDataLen remove now =
     (case pKey of
        None \<Rightarrow> Some (-1, tab)
      | Some key \<Rightarrow>
        if iKeyLen \<le> 0 \<or> sDataBuf = None \<or> iDataLen < 0 then Some (-1, tab)
        else case tab of
          None \<Rightarrow> Some (-2, tab)
        | Some t0 \<Rightarrow>
          if ddwRowNum t0 = 0 then None
          else let hk = mht_hash t0 (take (nat iKeyLen) key)
          in case Search t0 key iKeyLen hk True of
            None \<Rightarrow> None
          | Some (s, t) \<Rightarrow>
            if remove \<and> sr_oldest s \<noteq> None \<and> GetUsage (mht_lt t) > 95
            then (case erase_node t (the (sr_oldest s)) of (r, t1) \<Rightarrow>
                    if r < 0 then Some (-4, Some t1)
                    else mht_choose t1 (sr_found s) (if sr_empty s = None then sr_oldest s else sr_empty s)
                           (if sr_empty s = None then 0 else sr_row s) None
                           key iKeyLen hk sDataBuf iDataLen remove now)
            else mht_choose t (sr_found s) (sr_empty s) (sr_row s) (sr_oldest s)
                   key iKeyLen hk sDataBuf iDataLen remove now)"

definition ForceSetData ::
    "MultiHashTable \<Rightarrow> byte list option \<Rightarrow> int \<Rightarrow> byte list option \<Rightarrow> int \<Rightarrow> nat \<Rightarrow> (int \<times> MultiHashTable) option" where
  "ForceSetData tab pKey iKeyLen sDataBuf iDataLen now = mht_SetData tab pKey iKeyLen sDataBuf iDataLen True now"

definition mht_EraseData :: "MultiHashTable \<Rightarrow> byte list option \<Rightarrow> int \<Rightarrow> (int \<times> MultiHashTable) option" where
  "mht_EraseData tab pKey iKeyLen =
     (case pKey of
        None \<Rightarrow> Some (-1, tab)
      | Some key \<Rightarrow>
        if iKeyLen \<le> 0 then Some (-1, tab)
        else case tab of
          None \<Rightarrow> Some (-2, tab)
        | Some t \<Rightarrow>
          (case Search t key iKeyLen (mht_hash t (take (nat iKeyLen) key)) False of
             None \<Rightarrow> None
           | Some (s, t1) \<Rightarrow>
             (case sr_found s of
                None \<Rightarrow> Some (0, Some t1)
              | Some p \<Rightarrow>
                (case lt_EraseData (mht_lt t1) (ddwLtPos (mht_nodes t1 ! p)) of
                   (ret, lt') \<Rightarrow>
                     if ret \<noteq> 0 then Some (-4, Some (t1\<lparr>mht_lt := lt'\<rparr>))
                     else Some (1, Some (mht_clear (t1\<lparr>mht_lt := lt'\<rparr>) p))))))"

subsection \<open>Iteration\<close>

definition mht_End :: nat where
  "mht_End = 2 ^ 64 - 1"

function next_loop :: "MhtMem \<Rightarrow> nat \<Rightarrow> nat \<Rightarrow> nat option" where
  "next_loop t mx it =
     (if it < mx
      then if it \<ge> length (mht_nodes t) then None
           else if \<not> is_hnode_empty (mht_nodes t ! it) then Some it
           else next_loop t mx (it + 1)
      else Some mht_End)"
  by pat_completeness auto
termination
  by (relation "measure (\<lambda>(t, mx, it). mx - it)") auto

declare next_loop.simps [simp del]

definition max_used_node :: "MhtMem \<Rightarrow> nat" where
  "max_used_node t =
     (let m = (if ddwMaxUsedRow t < ddwRowNum t
               then u64n (auRowsStartNode t (ddwMaxUsedRow t) + auRowsNodeNum t (ddwMaxUsedRow t))
               else ddwHashNodeNum t)
      in if m > ddwHashNodeNum t then ddwHashNodeNum t else m)"

definition mht_Next :: "MultiHashTable \<Rightarrow> nat \<Rightarrow> nat option" where
  "mht_Next tab it =
     (case tab of
        None \<Rightarrow> Some mht_End
      | Some t \<Rightarrow> next_loop t (max_used_node t) (u64n (it + 1)))"

definition mht_Begin :: "MultiHashTable \<Rightarrow> nat option" where
  "mht_Begin tab = mht_Next tab mht_End"

record MhtData =
  access_time :: nat
  klen :: nat
  md_key :: "byte list"
  dlen :: nat
  md_data :: "byte list"

text \<open>\<open>Get\<close> also removes a node whose data cannot be read. The \<open>None\<close> data is an untouched argument.\<close>

definition mht_Get :: "MultiHashTable \<Rightarrow> nat \<Rightarrow> (int \<times> MhtData option \<times> MultiHashTable) option" where
  "mht_Get tab it =
     (case tab of
        None \<Rightarrow> Some (-1, None, tab)
      | Some t \<Rightarrow>
        if it \<ge> length (mht_nodes t) then None
        else let n = mht_nodes t ! it;
                 kl = (if cKeyLen n > HASH_MAX_KEY_LENGTH then HASH_MAX_KEY_LENGTH else cKeyLen n)
        in case lt_GetData (mht_lt t) (ddwLtPos n) True (int HASH_MAX_DATA_LENGTH) of
          None \<Rightarrow> None
        | Some (ret, out) \<Rightarrow>
          let d = \<lparr>access_time = dwAccessTime n, klen = kl, md_key = take kl (acKey n),
                   dlen = (if ret < 0 then HASH_MAX_DATA_LENGTH else length out), md_data = out\<rparr>
          in if ret < 0
             then if ret = -21 \<or> ret = -22 then Some (-21, Some d, Some (mht_clear t it))
                  else Some (-2, Some d, tab)
             else Some (0, Some d, tab))"

subsection \<open>Parameters and shared memory\<close>

definition GetMaxKeyLen :: "MultiHashTable \<Rightarrow> int" where
  "GetMaxKeyLen tab = (case tab of None \<Rightarrow> -1 | Some t \<Rightarrow> s32 (sub64 (ddwHashNodeSize t) sizeof_MhtNode))"

definition GetDataBlockSize :: "MultiHashTable \<Rightarrow> int" where
  "GetDataBlockSize tab = (case tab of None \<Rightarrow> -1 | Some t \<Rightarrow> s32 (ddwDataBlockSize t))"

definition GetHashRowNum :: "MultiHashTable \<Rightarrow> int" where
  "GetHashRowNum tab = (case tab of None \<Rightarrow> -1 | Some t \<Rightarrow> s32 (ddwRowNum t))"

text \<open>Attaching to shared memory. \<open>shm_open\<close> stands for \<open>shm_adapter::open\<close>: \<open>None\<close> when it fails, else
  the size of the segment and what is found in it (\<open>None\<close> for a \<open>NULL\<close> address). When the call fails
  after that, the object keeps a header in memory that is detached again; it cannot be used any more
  and is \<open>None\<close> here.\<close>

definition InitFromShm ::
    "(nat \<Rightarrow> (nat \<times> MhtMem option) option) \<Rightarrow> MultiHashTable \<Rightarrow> nat \<Rightarrow> (byte list \<Rightarrow> nat) option \<Rightarrow> int \<times> MultiHashTable" where
  "InitFromShm shm_open tab ddwShmKey HashFunc =
     (case shm_open ddwShmKey of
        None \<Rightarrow> (-100, tab)
      | Some (_, None) \<Rightarrow> (-3, None)
      | Some (sz, Some img) \<Rightarrow>
          if ddwTotalShmSize img \<noteq> sz then (-4, None)
          else let ddwDataSize = EvalBufferSize (ddwDataBlockNum img) (ddwDataBlockSize img);
                   (ret, lt) = lt_InitExisting (case tab of None \<Rightarrow> None | Some m \<Rightarrow> mht_lt m)
                                 (mht_lt img) ddwDataSize (ddwDataBlockNum img) (ddwDataBlockSize img)
               in if ret \<noteq> 0 then (-5, None)
                  else (0, Some (img\<lparr>mht_lt := lt,
                          mht_hash := (case HashFunc of None \<Rightarrow> DefaultHashFunc | Some f \<Rightarrow> f)\<rparr>)))"

record MhtInitParam =
  ddwShmKey :: nat
  par_BufferSize :: nat
  par_wMaxKeyLen :: nat
  par_wRowNum :: nat
  par_dwIndexRatio :: nat
  par_ddwBlockSize :: nat
  par_bUseHugePage :: bool
  par_bUseAccessSeq :: bool
  par_HashFunc :: "(byte list \<Rightarrow> nat) option"

text \<open>\<open>shm_create\<close> stands for \<open>shm_adapter::create\<close>, as \<open>shm_open\<close> does for \<open>open\<close>.\<close>

definition CreateFromShm ::
    "(nat \<Rightarrow> (nat \<times> MhtMem option) option) \<Rightarrow> (nat \<Rightarrow> nat \<Rightarrow> bool \<Rightarrow> MhtBuffer option option) \<Rightarrow>
     MultiHashTable \<Rightarrow> MhtInitParam \<Rightarrow> int \<times> MultiHashTable" where
  "CreateFromShm shm_open shm_create tab user_param =
     (if ddwShmKey user_param = 0 \<or>
         par_BufferSize user_param < sizeof_MhtHeader + sizeof_LinkTableHead + 1024 then (-1, tab)
      else
        let maxKeyLen = (if par_wMaxKeyLen user_param = 0 then 8 else par_wMaxKeyLen user_param);
            rowNum = (if par_wRowNum user_param = 0 then 20 else par_wRowNum user_param);
            indexRatio = (if par_dwIndexRatio user_param = 0 then 50 else par_dwIndexRatio user_param);
            blockSize = (if par_ddwBlockSize user_param = 0 then 128 else par_ddwBlockSize user_param);
            (iret, tab1) = InitFromShm shm_open tab (ddwShmKey user_param) (par_HashFunc user_param)
        in if iret = 0
           then (case tab1 of
                   None \<Rightarrow> (iret, tab1)
                 | Some t \<Rightarrow>
                     if par_BufferSize user_param \<noteq> ddwTotalShmSize t then (-2, tab1)
                     else if int maxKeyLen \<noteq> GetMaxKeyLen tab1 then (-3, tab1)
                     else if rowNum \<noteq> ddwRowNum t then (-4, tab1)
                     else if blockSize \<noteq> ddwDataBlockSize t then (-5, tab1)
                     else (0, tab1))
           else if iret \<noteq> -100 then (-6, tab1)
           else case shm_create (ddwShmKey user_param) (par_BufferSize user_param) (par_bUseHugePage user_param) of
             None \<Rightarrow> (-2, tab1)
           | Some None \<Rightarrow> (-3, tab1)
           | Some (Some buf) \<Rightarrow>
               InitFromBuffer tab1 (Some buf) (par_BufferSize user_param) maxKeyLen rowNum indexRatio blockSize
                 (par_HashFunc user_param) (par_bUseAccessSeq user_param))"

section \<open>Row layout\<close>

lemma MaxPrime_less: "MaxPrime n < n \<or> MaxPrime n = 0"
proof (induction n)
  case (Suc n)
  then show ?case by auto
qed simp

lemma MaxPrime_le [simp]: "MaxPrime n \<le> n"
  using MaxPrime_less [of n] by auto

lemma ceil_sqrt_from_ge: "n \<le> ceil_sqrt_from n k * ceil_sqrt_from n k"
  by (induction n k rule: ceil_sqrt_from.induct) (subst ceil_sqrt_from.simps, subst (2) ceil_sqrt_from.simps, simp)

lemma ceil_sqrt_from_le: "k \<le> m \<Longrightarrow> n \<le> m * m \<Longrightarrow> ceil_sqrt_from n k \<le> m"
proof (induction n k rule: ceil_sqrt_from.induct)
  case (1 n k)
  show ?case
  proof (cases "n \<le> k * k")
    case True
    then show ?thesis using 1(2) by (subst ceil_sqrt_from.simps) simp
  next
    case False
    then have "k \<noteq> m" using 1(3) by auto
    then show ?thesis using 1 False by (subst ceil_sqrt_from.simps) simp
  qed
qed

definition is_prime :: "nat \<Rightarrow> bool" where
  "is_prime p \<longleftrightarrow> 1 < p \<and> (\<forall>d. d dvd p \<longrightarrow> d = 1 \<or> d = p)"

text \<open>From 3 on the test of the inner loop is primality.\<close>

lemma no_divisor_prime:
  assumes "3 \<le> n"
  shows "no_divisor n \<longleftrightarrow> is_prime n"
proof -
  define c where "c = ceil_sqrt_from n 0"
  have sq: "n \<le> c * c" unfolding c_def by (rule ceil_sqrt_from_ge)
  have c0: "c \<noteq> 0" using sq assms by (cases c) auto
  have "n \<le> (n - 1) * (n - 1)"
  proof -
    have "2 * (n - 1) \<le> (n - 1) * (n - 1)" using assms by (intro mult_right_mono) auto
    then show ?thesis using assms by linarith
  qed
  then have cn: "c < n" unfolding c_def using ceil_sqrt_from_le [of 0 "n - 1" n] assms by linarith
  have *: "no_divisor n \<longleftrightarrow> (\<forall>k. 2 \<le> k \<and> k \<le> c \<longrightarrow> \<not> k dvd n)"
    using c0 by (auto simp: no_divisor_def Let_def c_def [symmetric] dvd_eq_mod_eq_0 less_Suc_eq_le)
  show ?thesis
  proof
    assume a: "no_divisor n"
    have "d = 1 \<or> d = n" if d: "d dvd n" for d
    proof (rule ccontr)
      assume ne: "\<not> (d = 1 \<or> d = n)"
      obtain e where e: "n = d * e" using d by (auto elim: dvdE)
      have "d \<noteq> 0" "e \<noteq> 0" "e \<noteq> 1" using e assms ne by (auto intro: gr0I)
      then have de: "2 \<le> d" "2 \<le> e" using ne by auto
      have "\<not> d \<le> c" "\<not> e \<le> c" using a * d e de by auto
      then have "Suc c * Suc c \<le> d * e" by (intro mult_mono) auto
      then show False using sq e by simp
    qed
    then show "is_prime n" using assms by (simp add: is_prime_def)
  next
    assume "is_prime n"
    then show "no_divisor n" unfolding * is_prime_def using cn by (metis One_nat_def Suc_1 not_less_eq_eq order_refl linorder_not_less)
  qed
qed

definition row_start :: "MhtMem \<Rightarrow> nat \<Rightarrow> nat" where
  "row_start t i = (\<Sum>k<i. auRowsNodeNum t k)"

lemma calc_rows_layout:
  "calc_rows n i j u num start = (num', start', totalNum) \<Longrightarrow> u = (\<Sum>k<i. num k) \<Longrightarrow>
   (\<forall>k<i. start k = (\<Sum>l<k. num l)) \<Longrightarrow>
   totalNum = (\<Sum>k<i + n. num' k) \<and> (\<forall>k<i + n. start' k = (\<Sum>l<k. num' l)) \<and>
   (\<forall>k<i. num' k = num k) \<and> totalNum \<le> u + n * j"
proof (induction n arbitrary: i j u num start)
  case 0
  then show ?case by auto
next
  case (Suc n)
  let ?j = "MaxPrime j" and ?num = "num(i := MaxPrime j)" and ?start = "start(i := u)"
  have c: "calc_rows n (Suc i) ?j (u + ?j) ?num ?start = (num', start', totalNum)"
    using Suc.prems(1) by (simp add: Let_def)
  have u: "u + ?j = (\<Sum>k<Suc i. ?num k)" using Suc.prems(2) by simp
  have eq: "(\<Sum>l<k. ?num l) = (\<Sum>l<k. num l)" if "k \<le> i" for k using that by (intro sum.cong) auto
  have s: "\<forall>k<Suc i. ?start k = (\<Sum>l<k. ?num l)"
    using Suc.prems(2,3) eq by (auto simp: less_Suc_eq)
  have IH: "totalNum = (\<Sum>k<Suc i + n. num' k)" "\<forall>k<Suc i + n. start' k = (\<Sum>l<k. num' l)"
     "\<forall>k<Suc i. num' k = ?num k" "totalNum \<le> u + ?j + n * ?j"
    using Suc.IH [OF c u s] by auto
  have "n * ?j \<le> n * j" by (rule mult_le_mono2 [OF MaxPrime_le])
  then have "totalNum \<le> u + Suc n * j" unfolding mult_Suc using IH(4) MaxPrime_le [of j] by linarith
  then show ?case using IH by auto
qed

lemma calc_row_le: "calc_row b n pct \<le> n" if "pct \<le> 100"
proof -
  have "u64n (n * pct) div 100 \<le> n"
  proof -
    have "u64n (n * pct) \<le> n * 100"
      unfolding u64n_def
      by (rule order_trans [OF mod_less_eq_dividend mult_le_mono2 [OF that]])
    then show ?thesis using div_le_mono [of "u64n (n * pct)" "n * 100" 100] by simp
  qed
  then show ?thesis
    unfolding calc_row_def by (auto intro: order_trans [OF MaxPrime_le])
qed

lemma CalcNodeNum_layout:
  assumes "1 \<le> rowNum" "CalcNodeNumForEachRow rowNum mx num start = (num', start', totalNum)"
  shows "totalNum = (\<Sum>k<rowNum. num' k)" "\<forall>k<rowNum. start' k = (\<Sum>l<k. num' l)" "totalNum \<le> mx"
proof -
  define r0 where "r0 = calc_row (rowNum = 1) mx 70"
  define r1 where "r1 = calc_row (rowNum = 2) (mx - r0) 10"
  define r2 where "r2 = calc_row (rowNum = 3) (mx - r0 - r1) 5"
  have le: "r0 \<le> mx" "r1 \<le> mx - r0" "r2 \<le> mx - r0 - r1"
    unfolding r0_def r1_def r2_def by (rule calc_row_le; simp)+
  have C: "CalcNodeNumForEachRow rowNum mx num start =
     (if rowNum = 1 then (num(0 := r0), start(0 := 0), r0)
      else if rowNum = 2 then (num(0 := r0, 1 := r1), start(0 := 0, 1 := r0), r0 + r1)
      else if rowNum = 3 then (num(0 := r0, 1 := r1, 2 := r2), start(0 := 0, 1 := r0, 2 := r0 + r1), r0 + r1 + r2)
      else calc_rows (rowNum - 3) 3 ((mx - r0 - r1 - r2) div (rowNum - 3)) (r0 + r1 + r2)
             (num(0 := r0, 1 := r1, 2 := r2)) (start(0 := 0, 1 := r0, 2 := r0 + r1)))"
    by (simp add: CalcNodeNumForEachRow_def Let_def r0_def r1_def r2_def)
  have less: "k < (2::nat) \<longleftrightarrow> k = 0 \<or> k = 1" "k < (3::nat) \<longleftrightarrow> k = 0 \<or> k = 1 \<or> k = 2" for k by auto
  have sum: "(\<Sum>k<2. f k) = f 0 + f 1" "(\<Sum>k<3. f k) = f 0 + f 1 + f 2" for f :: "nat \<Rightarrow> nat"
    by (simp_all add: numeral_3_eq_3 numeral_2_eq_2)
  have "totalNum = (\<Sum>k<rowNum. num' k) \<and> (\<forall>k<rowNum. start' k = (\<Sum>l<k. num' l)) \<and> totalNum \<le> mx"
  proof (cases "rowNum \<le> 3")
    case True
    then consider "rowNum = 1" | "rowNum = 2" | "rowNum = 3" using assms(1) by linarith
    then show ?thesis
      using assms(2) le unfolding C by cases (auto simp: less sum)
  next
    case False
    let ?j = "(mx - r0 - r1 - r2) div (rowNum - 3)"
    have "totalNum = (\<Sum>k<3 + (rowNum - 3). num' k) \<and> (\<forall>k<3 + (rowNum - 3). start' k = (\<Sum>l<k. num' l)) \<and>
        (\<forall>k<3. num' k = (num(0 := r0, 1 := r1, 2 := r2)) k) \<and> totalNum \<le> r0 + r1 + r2 + (rowNum - 3) * ?j"
      by (rule calc_rows_layout [where num = "num(0 := r0, 1 := r1, 2 := r2)" and
            start = "start(0 := 0, 1 := r0, 2 := r0 + r1)"])
         (use assms(2) False C in \<open>auto simp: less sum\<close>)
    moreover have "(rowNum - 3) * ?j \<le> mx - r0 - r1 - r2" by (simp add: mult.commute)
    moreover from calculation have "totalNum \<le> mx" using le by linarith
    moreover have "3 + (rowNum - 3) = rowNum" using False by simp
    ultimately show ?thesis by metis
  qed
  then show "totalNum = (\<Sum>k<rowNum. num' k)" "\<forall>k<rowNum. start' k = (\<Sum>l<k. num' l)" "totalNum \<le> mx" by auto
qed

section \<open>The table as a map from key digests to data\<close>

text \<open>What a node stores of its key: the hash value, the length modulo 256 and that many bytes.\<close>

type_synonym digest = "nat \<times> nat \<times> byte list"

definition node_digest :: "MhtNode \<Rightarrow> digest" where
  "node_digest n = (dwHashKey n, cKeyLen n, take (cKeyLen n) (acKey n))"

definition key_digest :: "MhtMem \<Rightarrow> byte list \<Rightarrow> digest" where
  "key_digest t key = (mht_hash t key, u8n (length key), take (u8n (length key)) key)"

definition used_at :: "MhtMem \<Rightarrow> nat \<Rightarrow> bool" where
  "used_at t p \<longleftrightarrow> p < length (mht_nodes t) \<and> \<not> is_hnode_empty (mht_nodes t ! p)"

definition in_path :: "MhtMem \<Rightarrow> nat \<Rightarrow> nat \<Rightarrow> nat \<Rightarrow> bool" where
  "in_path t hk i p \<longleftrightarrow> i < ddwRowNum t \<and> p = row_start t i + hk mod auRowsNodeNum t i"

text \<open>Rows are non-empty and cover the node array, each used node sits at its place in a used row,
  and no two used nodes have the same digest.\<close>

definition mht_wf :: "MhtMem \<Rightarrow> bool" where
  "mht_wf t \<longleftrightarrow> ddwMaxUsedRow t < ddwRowNum t \<and> (\<forall>i<ddwRowNum t. 0 < auRowsNodeNum t i) \<and>
     length (mht_nodes t) = row_start t (ddwRowNum t) \<and> ddwHashNodeNum t = length (mht_nodes t) \<and>
     (\<forall>i<ddwRowNum t. auRowsStartNode t i = row_start t i) \<and> length (mht_nodes t) < 2 ^ 64 - 1 \<and>
     ddwEraseIterator t < ddwHashNodeNum t \<and>
     (\<forall>p. used_at t p \<longrightarrow> cKeyLen (mht_nodes t ! p) \<le> length (acKey (mht_nodes t ! p)) \<and>
        (\<exists>i \<le> ddwMaxUsedRow t. in_path t (dwHashKey (mht_nodes t ! p)) i p)) \<and>
     (\<forall>p q. used_at t p \<longrightarrow> used_at t q \<longrightarrow> node_digest (mht_nodes t ! p) = node_digest (mht_nodes t ! q) \<longrightarrow> p = q)"

lemma mht_wfD:
  assumes "mht_wf t"
  shows "ddwMaxUsedRow t < ddwRowNum t" "\<And>i. i < ddwRowNum t \<Longrightarrow> 0 < auRowsNodeNum t i"
    "length (mht_nodes t) = row_start t (ddwRowNum t)" "ddwHashNodeNum t = length (mht_nodes t)"
    "\<And>i. i < ddwRowNum t \<Longrightarrow> auRowsStartNode t i = row_start t i" "length (mht_nodes t) < 2 ^ 64 - 1"
    "ddwEraseIterator t < ddwHashNodeNum t"
    "\<And>p. used_at t p \<Longrightarrow> cKeyLen (mht_nodes t ! p) \<le> length (acKey (mht_nodes t ! p))"
    "\<And>p. used_at t p \<Longrightarrow> \<exists>i \<le> ddwMaxUsedRow t. in_path t (dwHashKey (mht_nodes t ! p)) i p"
    "\<And>p q. used_at t p \<Longrightarrow> used_at t q \<Longrightarrow> node_digest (mht_nodes t ! p) = node_digest (mht_nodes t ! q) \<Longrightarrow> p = q"
  using assms unfolding mht_wf_def by blast+

lemma row_start_Suc: "row_start t (Suc i) = row_start t i + auRowsNodeNum t i"
  by (simp add: row_start_def)

lemma row_start_mono: "i \<le> j \<Longrightarrow> row_start t i \<le> row_start t j"
  unfolding row_start_def by (rule sum_mono2) auto

lemma in_path_bound:
  assumes "mht_wf t" "in_path t hk i p"
  shows "row_start t i \<le> p" "p < row_start t (Suc i)" "p < length (mht_nodes t)"
proof -
  have i: "i < ddwRowNum t" "0 < auRowsNodeNum t i"
    using assms mht_wfD(2) [OF assms(1)] by (auto simp: in_path_def)
  show "row_start t i \<le> p" using assms(2) by (simp add: in_path_def)
  show b: "p < row_start t (Suc i)" using assms(2) i by (simp add: in_path_def row_start_Suc)
  show "p < length (mht_nodes t)"
    using b row_start_mono [of "Suc i" "ddwRowNum t" t] i mht_wfD(3) [OF assms(1)] by simp
qed

subsection \<open>Searching\<close>

lemma node_cmp_digest:
  assumes "0 < iKeyLen" "iKeyLen = int (length key)" "length key < 2 ^ 63" "cKeyLen n \<le> length (acKey n)"
  shows "dwHashKey n = mht_hash t key \<and> hnode_cmp key iKeyLen n = 0 \<longleftrightarrow> node_digest n = key_digest t key"
proof -
  have kl: "u8n (usz iKeyLen) = u8n (length key)" using assms(1-3) by simp
  have le: "u8n (length key) \<le> length key" by (simp add: u8n_def)
  have "hnode_cmp key iKeyLen n = 0 \<longleftrightarrow>
      cKeyLen n = u8n (length key) \<and> take (u8n (length key)) key = take (u8n (length key)) (acKey n)"
    using memcmp_eq_0 [of "take (u8n (length key)) key" "take (u8n (length key)) (acKey n)"] le assms(4)
    by (auto simp: hnode_cmp_def Let_def kl)
  then show ?thesis by (auto simp: node_digest_def key_digest_def)
qed

text \<open>What the loop has established after the rows below \<open>i\<close>.\<close>

definition search_inv :: "MhtMem \<Rightarrow> digest \<Rightarrow> nat \<Rightarrow> nat \<Rightarrow> MhtSearch \<Rightarrow> bool" where
  "search_inv t dg hk i s \<longleftrightarrow>
     (\<forall>p. sr_empty s = Some p \<longrightarrow> sr_row s < i \<and> in_path t hk (sr_row s) p \<and> \<not> used_at t p) \<and>
     (\<forall>q. sr_oldest s = Some q \<longrightarrow> used_at t q \<and> node_digest (mht_nodes t ! q) \<noteq> dg \<and> (\<exists>j<i. in_path t hk j q)) \<and>
     (0 < i \<longrightarrow> sr_empty s = None \<longrightarrow> sr_oldest s \<noteq> None)"

lemma search_inv_empty:
  assumes "search_inv t dg hk i s" "in_path t hk i p" "\<not> used_at t p"
  shows "search_inv t dg hk (Suc i) (if sr_empty s = None then s\<lparr>sr_empty := Some p, sr_row := i\<rparr> else s)"
  using assms unfolding search_inv_def by (auto simp: less_Suc_eq)

lemma search_inv_oldest:
  assumes "search_inv t dg hk i s" "in_path t hk i p" "used_at t p" "node_digest (mht_nodes t ! p) \<noteq> dg"
  shows "search_inv t dg hk (Suc i)
     (case sr_oldest s of
        None \<Rightarrow> s\<lparr>sr_oldest := Some p\<rparr>
      | Some q \<Rightarrow> if dwAccessTime (mht_nodes t ! q) > dwAccessTime (mht_nodes t ! p)
                  then s\<lparr>sr_oldest := Some p\<rparr> else s)"
  using assms unfolding search_inv_def by (auto split: option.splits simp: less_Suc_eq)

lemma search_loop_le:
  "search_loop t key iKeyLen hk n i row s = Some (i', row', s') \<Longrightarrow> i' \<le> i + n"
proof (induction n arbitrary: i row s)
  case (Suc n)
  from Suc.prems show ?case
    by (auto simp: Let_def split: if_splits dest!: Suc.IH)
qed simp

lemma search_loop_spec:
  assumes wf: "mht_wf t" and k: "0 < length key" "length key < 2 ^ 63"
  defines "dg \<equiv> key_digest t key" and "hk \<equiv> mht_hash t key"
  shows "i + n \<le> ddwRowNum t \<Longrightarrow> row = row_start t i \<Longrightarrow> search_inv t dg hk i s \<Longrightarrow> sr_found s = None \<Longrightarrow>
    \<exists>i' s'. search_loop t key (int (length key)) hk n i row s = Some (i', row_start t i', s') \<and>
      search_inv t dg hk i' s' \<and>
      (case sr_found s' of
         Some p \<Rightarrow> used_at t p \<and> node_digest (mht_nodes t ! p) = dg
       | None \<Rightarrow> i' = i + n \<and> (\<forall>j p. i \<le> j \<longrightarrow> j < i + n \<longrightarrow> in_path t hk j p \<longrightarrow> used_at t p \<longrightarrow>
           node_digest (mht_nodes t ! p) \<noteq> dg))"
proof (induction n arbitrary: i row s)
  case 0
  then show ?case by auto
next
  case (Suc n)
  define p where "p = row_start t i + hk mod auRowsNodeNum t i"
  define nd where "nd = mht_nodes t ! p"
  have i: "i < ddwRowNum t" using Suc.prems(1) by simp
  then have num: "auRowsNodeNum t i \<noteq> 0" using mht_wfD(2) [OF wf] by auto
  have path: "in_path t hk i p" using i by (simp add: in_path_def p_def)
  have p_eq: "row_start t i + hk mod auRowsNodeNum t i = p" by (simp add: p_def)
  note pb = in_path_bound(3) [OF wf path]
  have row': "row + auRowsNodeNum t i = row_start t (Suc i)" using Suc.prems(2) by (simp add: row_start_Suc)
  have only: "in_path t hk i q \<Longrightarrow> q = p" for q by (simp add: in_path_def p_def)
  have ext: "(case sr_found s' of
         Some p \<Rightarrow> used_at t p \<and> node_digest (mht_nodes t ! p) = dg
       | None \<Rightarrow> i' = i + Suc n \<and> (\<forall>j p. i \<le> j \<longrightarrow> j < i + Suc n \<longrightarrow> in_path t hk j p \<longrightarrow> used_at t p \<longrightarrow>
           node_digest (mht_nodes t ! p) \<noteq> dg))"
    if a: "(case sr_found s' of
         Some p \<Rightarrow> used_at t p \<and> node_digest (mht_nodes t ! p) = dg
       | None \<Rightarrow> i' = Suc i + n \<and> (\<forall>j p. Suc i \<le> j \<longrightarrow> j < Suc i + n \<longrightarrow> in_path t hk j p \<longrightarrow> used_at t p \<longrightarrow>
           node_digest (mht_nodes t ! p) \<noteq> dg))"
      and b: "used_at t p \<Longrightarrow> node_digest (mht_nodes t ! p) \<noteq> dg" for s' i'
  proof (cases "sr_found s'")
    case None
    have "node_digest (mht_nodes t ! q) \<noteq> dg" if "i \<le> j" "j < i + Suc n" "in_path t hk j q" "used_at t q" for j q
    proof (cases "j = i")
      case True
      then show ?thesis using b only that by blast
    next
      case False
      then have "Suc i \<le> j" "j < Suc i + n" using that(1,2) by auto
      then show ?thesis using a that(3,4) None by simp
    qed
    then show ?thesis using a None by simp
  qed (use a in simp)
  show ?case
  proof (cases "is_hnode_empty nd")
    case True
    let ?s = "if sr_empty s = None then s\<lparr>sr_empty := Some p, sr_row := i\<rparr> else s"
    have nu: "\<not> used_at t p" using True by (simp add: used_at_def nd_def)
    have e: "search_loop t key (int (length key)) hk (Suc n) i row s =
        search_loop t key (int (length key)) hk n (Suc i) (row_start t (Suc i)) ?s"
      using num pb True Suc.prems(2) row' by (simp add: Let_def p_def nd_def)
    show ?thesis
      unfolding e using Suc.IH [of "Suc i" "row_start t (Suc i)" ?s] Suc.prems(1,4)
        search_inv_empty [OF Suc.prems(3) path nu] ext nu by (auto split: if_splits)
  next
    case False
    have u: "used_at t p" using False pb by (simp add: used_at_def nd_def)
    have dgst: "hk = dwHashKey nd \<and> hnode_cmp key (int (length key)) nd = 0 \<longleftrightarrow> node_digest nd = dg"
      using node_cmp_digest [of "int (length key)" key nd t] k mht_wfD(8) [OF wf u]
      by (auto simp: dg_def hk_def nd_def)
    show ?thesis
    proof (cases "node_digest nd = dg")
      case True
      then have "search_loop t key (int (length key)) hk (Suc n) i row s = Some (i, row_start t i, s\<lparr>sr_found := Some p\<rparr>)"
        using num pb False dgst Suc.prems(2) by (simp add: Let_def p_def nd_def)
      moreover have "search_inv t dg hk i (s\<lparr>sr_found := Some p\<rparr>)"
        using Suc.prems(3) by (simp add: search_inv_def)
      ultimately show ?thesis using u True by (auto simp: nd_def)
    next
      case ne: False
      let ?s = "case sr_oldest s of
        None \<Rightarrow> s\<lparr>sr_oldest := Some p\<rparr>
      | Some q \<Rightarrow> if dwAccessTime (mht_nodes t ! q) > dwAccessTime (mht_nodes t ! p)
                  then s\<lparr>sr_oldest := Some p\<rparr> else s"
      have e: "search_loop t key (int (length key)) hk (Suc n) i row s =
          search_loop t key (int (length key)) hk n (Suc i) (row_start t (Suc i)) ?s"
        using num pb False ne dgst Suc.prems(2) row' by (auto simp: Let_def p_eq nd_def)
      have f: "sr_found ?s = None" using Suc.prems(4) by (auto split: option.splits)
      have ndg: "node_digest (mht_nodes t ! p) \<noteq> dg" using ne by (simp add: nd_def)
      show ?thesis
        unfolding e using Suc.IH [of "Suc i" "row_start t (Suc i)" ?s] Suc.prems(1) f
          search_inv_oldest [OF Suc.prems(3) path u ndg] ext ndg by auto
    qed
  qed
qed

declare search_loop.simps(2) [simp del]

lemma Search_spec:
  assumes wf: "mht_wf t" and k: "0 < length key" "length key < 2 ^ 63"
  shows "\<exists>s. Search t key (int (length key)) (mht_hash t key) want = Some (s, t) \<and>
     (\<forall>p. sr_found s = Some p \<longrightarrow> used_at t p \<and> node_digest (mht_nodes t ! p) = key_digest t key) \<and>
     (sr_found s = None \<longrightarrow> (\<forall>p. used_at t p \<longrightarrow> node_digest (mht_nodes t ! p) \<noteq> key_digest t key)) \<and>
     (\<forall>p. sr_empty s = Some p \<longrightarrow> in_path t (mht_hash t key) (sr_row s) p \<and> \<not> used_at t p) \<and>
     (\<forall>q. sr_oldest s = Some q \<longrightarrow> used_at t q \<and> node_digest (mht_nodes t ! q) \<noteq> key_digest t key \<and>
        (\<exists>j \<le> ddwMaxUsedRow t. in_path t (mht_hash t key) j q)) \<and>
     (want \<longrightarrow> sr_found s = None \<longrightarrow> sr_empty s = None \<longrightarrow> sr_oldest s \<noteq> None)"
proof -
  let ?dg = "key_digest t key" and ?hk = "mht_hash t key"
  let ?s0 = "\<lparr>sr_found = None, sr_empty = None, sr_oldest = None, sr_row = 0\<rparr>"
  let ?n = "ddwMaxUsedRow t + 1"
  have mx: "ddwMaxUsedRow t < ddwRowNum t" by (rule mht_wfD(1) [OF wf])
  have inv0: "search_inv t ?dg ?hk 0 ?s0" by (simp add: search_inv_def)
  obtain i s where l: "search_loop t key (int (length key)) ?hk ?n 0 0 ?s0 = Some (i, row_start t i, s)"
    and inv: "search_inv t ?dg ?hk i s"
    and c: "case sr_found s of Some p \<Rightarrow> used_at t p \<and> node_digest (mht_nodes t ! p) = ?dg
       | None \<Rightarrow> i = ?n \<and> (\<forall>j p. 0 \<le> j \<longrightarrow> j < ?n \<longrightarrow> in_path t ?hk j p \<longrightarrow> used_at t p \<longrightarrow>
           node_digest (mht_nodes t ! p) \<noteq> ?dg)"
  proof -
    have "0 + ?n \<le> ddwRowNum t" "0 = row_start t 0" "sr_found ?s0 = None" using mx by (simp_all add: row_start_def)
    from search_loop_spec [OF wf k this(1,2) inv0 this(3)] show thesis using that unfolding add_0 by blast
  qed
  have le: "i \<le> ?n" using search_loop_le [OF l] by simp
  have none: "node_digest (mht_nodes t ! p) \<noteq> ?dg" if u: "sr_found s = None" "used_at t p" for p
  proof
    assume d: "node_digest (mht_nodes t ! p) = ?dg"
    then have h: "dwHashKey (mht_nodes t ! p) = ?hk" by (simp add: node_digest_def key_digest_def)
    obtain j where "j \<le> ddwMaxUsedRow t" "in_path t ?hk j p" using mht_wfD(9) [OF wf u(2)] h by auto
    then show False using c u d by (auto simp: less_Suc_eq_le)
  qed
  have old: "used_at t q \<and> node_digest (mht_nodes t ! q) \<noteq> ?dg \<and> (\<exists>j \<le> ddwMaxUsedRow t. in_path t ?hk j q)"
    if q: "sr_oldest s = Some q" for q
  proof -
    obtain j where j: "used_at t q" "node_digest (mht_nodes t ! q) \<noteq> ?dg" "j < i" "in_path t ?hk j q"
      using inv q unfolding search_inv_def by blast
    then have "j \<le> ddwMaxUsedRow t" using le by linarith
    then show ?thesis using j by blast
  qed
  have emp: "in_path t ?hk (sr_row s) p \<and> \<not> used_at t p" if "sr_empty s = Some p" for p
    using inv that unfolding search_inv_def by blast
  show ?thesis
  proof (cases "sr_found s = None \<and> want \<and> sr_empty s = None \<and> i < ddwRowNum t")
    case True
    let ?p = "row_start t i + ?hk mod auRowsNodeNum t i"
    have i: "i = ?n" using c True by simp
    have path: "in_path t ?hk i ?p" using True by (simp add: in_path_def)
    have nu: "\<not> used_at t ?p"
    proof
      assume "used_at t ?p"
      then obtain j where j: "j \<le> ddwMaxUsedRow t" "in_path t (dwHashKey (mht_nodes t ! ?p)) j ?p"
        using mht_wfD(9) [OF wf] by blast
      then have "?p < row_start t (Suc j)" using in_path_bound(2) [OF wf] by blast
      also have "\<dots> \<le> row_start t i" using j(1) i by (intro row_start_mono) simp
      finally show False by simp
    qed
    have "Search t key (int (length key)) ?hk want = Some (s\<lparr>sr_empty := Some ?p, sr_row := i\<rparr>, t)"
      using l True mx mht_wfD(2) [OF wf, of i] by (simp add: Search_def Let_def)
    then show ?thesis using True none old path nu by auto
  next
    case False
    have "Search t key (int (length key)) ?hk want = Some (s, t)"
      using l False mx by (auto simp: Search_def Let_def)
    moreover have "sr_oldest s \<noteq> None" if "want" "sr_found s = None" "sr_empty s = None"
      using inv that c unfolding search_inv_def by auto
    moreover have "used_at t p \<and> node_digest (mht_nodes t ! p) = ?dg" if "sr_found s = Some p" for p
      using c that by simp
    ultimately show ?thesis using none old emp by (intro exI [of _ s] conjI allI impI; blast)
  qed
qed

lemma Search_found:
  assumes wf: "mht_wf t" and k: "0 < length key" "length key < 2 ^ 63"
  obtains s where "Search t key (int (length key)) (mht_hash t key) want = Some (s, t)"
    "\<And>p. sr_found s = Some p \<Longrightarrow> used_at t p \<and> node_digest (mht_nodes t ! p) = key_digest t key"
    "\<And>p. sr_found s = None \<Longrightarrow> used_at t p \<Longrightarrow> node_digest (mht_nodes t ! p) \<noteq> key_digest t key"
    "\<And>p. sr_empty s = Some p \<Longrightarrow> in_path t (mht_hash t key) (sr_row s) p \<and> \<not> used_at t p"
    "\<And>q. sr_oldest s = Some q \<Longrightarrow> used_at t q \<and> node_digest (mht_nodes t ! q) \<noteq> key_digest t key \<and>
        (\<exists>j \<le> ddwMaxUsedRow t. in_path t (mht_hash t key) j q)"
    "want \<Longrightarrow> sr_found s = None \<Longrightarrow> sr_empty s = None \<Longrightarrow> sr_oldest s \<noteq> None"
  using Search_spec [OF wf k, of want]
proof (elim exE conjE)
  fix s
  assume a: "Search t key (int (length key)) (mht_hash t key) want = Some (s, t)"
    "\<forall>p. sr_found s = Some p \<longrightarrow> used_at t p \<and> node_digest (mht_nodes t ! p) = key_digest t key"
    "sr_found s = None \<longrightarrow> (\<forall>p. used_at t p \<longrightarrow> node_digest (mht_nodes t ! p) \<noteq> key_digest t key)"
    "\<forall>p. sr_empty s = Some p \<longrightarrow> in_path t (mht_hash t key) (sr_row s) p \<and> \<not> used_at t p"
    "\<forall>q. sr_oldest s = Some q \<longrightarrow> used_at t q \<and> node_digest (mht_nodes t ! q) \<noteq> key_digest t key \<and>
        (\<exists>j \<le> ddwMaxUsedRow t. in_path t (mht_hash t key) j q)"
    "want \<longrightarrow> sr_found s = None \<longrightarrow> sr_empty s = None \<longrightarrow> sr_oldest s \<noteq> None"
  show thesis by (rule that [OF a(1)]) (use a(2-6) in simp_all)
qed

subsection \<open>Simulation with the block store\<close>

definition lt_pos :: "MhtMem \<Rightarrow> nat \<Rightarrow> nat" where
  "lt_pos t p = ddwLtPos (mht_nodes t ! p)"

text \<open>\<open>mht_sim t m M D\<close>: the block store is \<open>m\<close> and represents \<open>M\<close>, its positions are those of the used
  nodes, one for each, and \<open>D\<close> maps the digests of the used nodes to their data.\<close>

definition mht_sim :: "MhtMem \<Rightarrow> LinkTableMem \<Rightarrow> (nat \<Rightarrow> byte list option) \<Rightarrow> (digest \<Rightarrow> byte list option) \<Rightarrow> bool" where
  "mht_sim t m M D \<longleftrightarrow> mht_wf t \<and> mht_lt t = Some m \<and> lt_rep m M \<and>
     dom M = {lt_pos t p |p. used_at t p} \<and>
     (\<forall>p q. used_at t p \<longrightarrow> used_at t q \<longrightarrow> lt_pos t p = lt_pos t q \<longrightarrow> p = q) \<and>
     (\<forall>dg d. D dg = Some d \<longleftrightarrow> (\<exists>p. used_at t p \<and> node_digest (mht_nodes t ! p) = dg \<and> M (lt_pos t p) = Some d))"

lemma used_at_store [simp]:
  "used_at (mht_store t p n) q \<longleftrightarrow> (if q = p then p < length (mht_nodes t) \<and> \<not> is_hnode_empty n else used_at t q)"
  by (auto simp: used_at_def mht_store_def)

lemma mht_store_sel [simp]:
  "ddwMaxUsedRow (mht_store t p n) = ddwMaxUsedRow t" "ddwRowNum (mht_store t p n) = ddwRowNum t"
  "auRowsNodeNum (mht_store t p n) = auRowsNodeNum t" "auRowsStartNode (mht_store t p n) = auRowsStartNode t"
  "ddwHashNodeNum (mht_store t p n) = ddwHashNodeNum t" "ddwEraseIterator (mht_store t p n) = ddwEraseIterator t"
  "length (mht_nodes (mht_store t p n)) = length (mht_nodes t)" "mht_lt (mht_store t p n) = mht_lt t"
  "mht_hash (mht_store t p n) = mht_hash t" "row_start (mht_store t p n) i = row_start t i"
  "in_path (mht_store t p n) hk i q = in_path t hk i q" "cUseAccessSeq (mht_store t p n) = cUseAccessSeq t"
  by (simp_all add: mht_store_def row_start_def in_path_def)

lemma mht_lt_upd [simp]:
  "used_at (t\<lparr>mht_lt := l\<rparr>) p = used_at t p" "row_start (t\<lparr>mht_lt := l\<rparr>) i = row_start t i"
  "in_path (t\<lparr>mht_lt := l\<rparr>) hk i p = in_path t hk i p" "lt_pos (t\<lparr>mht_lt := l\<rparr>) p = lt_pos t p"
  "mht_wf (t\<lparr>mht_lt := l\<rparr>) = mht_wf t" "key_digest (t\<lparr>mht_lt := l\<rparr>) key = key_digest t key"
  by (simp_all add: used_at_def row_start_def in_path_def lt_pos_def mht_wf_def key_digest_def)

lemma mht_simD:
  assumes "mht_sim t m M D"
  shows "mht_wf t" "mht_lt t = Some m" "lt_rep m M" "dom M = {lt_pos t p |p. used_at t p}"
    "\<And>p q. used_at t p \<Longrightarrow> used_at t q \<Longrightarrow> lt_pos t p = lt_pos t q \<Longrightarrow> p = q"
    "\<And>dg d. D dg = Some d \<longleftrightarrow> (\<exists>p. used_at t p \<and> node_digest (mht_nodes t ! p) = dg \<and> M (lt_pos t p) = Some d)"
  using assms unfolding mht_sim_def by blast+

lemma mht_simI:
  assumes "mht_wf t" "mht_lt t = Some m" "lt_rep m M" "dom M = {lt_pos t p |p. used_at t p}"
    "\<And>p q. used_at t p \<Longrightarrow> used_at t q \<Longrightarrow> lt_pos t p = lt_pos t q \<Longrightarrow> p = q"
    "\<And>dg d. D dg = Some d \<longleftrightarrow> (\<exists>p. used_at t p \<and> node_digest (mht_nodes t ! p) = dg \<and> M (lt_pos t p) = Some d)"
  shows "mht_sim t m M D"
  using assms unfolding mht_sim_def by blast

lemma mht_sim_used:
  assumes "mht_sim t m M D" "used_at t p"
  shows "lt_pos t p \<noteq> 0" "lt_pos t p \<in> dom M" "D (node_digest (mht_nodes t ! p)) = M (lt_pos t p)"
proof -
  show "lt_pos t p \<noteq> 0" using assms(2) by (simp add: used_at_def is_hnode_empty_def lt_pos_def)
  show d: "lt_pos t p \<in> dom M" using assms mht_simD(4) by blast
  then obtain x where x: "M (lt_pos t p) = Some x" by auto
  then show "D (node_digest (mht_nodes t ! p)) = M (lt_pos t p)"
    using mht_simD(6) [OF assms(1)] assms(2) by metis
qed

lemma mht_sim_unused:
  assumes "mht_sim t m M D" "\<And>p. used_at t p \<Longrightarrow> node_digest (mht_nodes t ! p) \<noteq> dg"
  shows "D dg = None"
  using mht_simD(6) [OF assms(1), of dg] assms(2) by (cases "D dg") auto

lemma lt_pos_store [simp]:
  "p < length (mht_nodes t) \<Longrightarrow> lt_pos (mht_store t p n) q = (if q = p then ddwLtPos n else lt_pos t q)"
  by (simp add: lt_pos_def mht_store_def)

lemma node_store [simp]:
  "p < length (mht_nodes t) \<Longrightarrow> mht_nodes (mht_store t p n) ! q = (if q = p then n else mht_nodes t ! q)"
  by (simp add: mht_store_def)

text \<open>A changed block store that represents the same map.\<close>

lemma mht_sim_lt: "mht_sim t m M D \<Longrightarrow> lt_rep m' M \<Longrightarrow> mht_sim (t\<lparr>mht_lt := Some m'\<rparr>) m' M D"
  by (simp add: mht_sim_def)

text \<open>Storing a node with the same digest at the same place.\<close>

lemma mht_wf_store_same:
  assumes wf: "mht_wf t" and p: "used_at t p" and n: "\<not> is_hnode_empty n"
    "node_digest n = node_digest (mht_nodes t ! p)" "acKey n = acKey (mht_nodes t ! p)"
  shows "mht_wf (mht_store t p n)"
proof -
  have pl: "p < length (mht_nodes t)" using p by (simp add: used_at_def)
  have eq: "dwHashKey n = dwHashKey (mht_nodes t ! p)" "cKeyLen n = cKeyLen (mht_nodes t ! p)"
    using n(2) by (auto simp: node_digest_def)
  have u: "used_at (mht_store t p n) q = used_at t q" for q using p n(1) pl by simp
  have d: "node_digest (mht_nodes (mht_store t p n) ! q) = node_digest (mht_nodes t ! q)" for q
    using n(2) pl by simp
  have "cKeyLen (mht_nodes (mht_store t p n) ! q) \<le> length (acKey (mht_nodes (mht_store t p n) ! q)) \<and>
      (\<exists>i \<le> ddwMaxUsedRow t. in_path t (dwHashKey (mht_nodes (mht_store t p n) ! q)) i q)"
    if "used_at t q" for q
    using mht_wfD(8,9) [OF wf that] n(3) eq pl by auto
  then show ?thesis
    using mht_wfD(1-7,10) [OF wf] unfolding mht_wf_def u d by simp
qed

lemma mht_sim_touch:
  assumes sim: "mht_sim t m M D" and p: "used_at t p"
    and n: "node_digest n = node_digest (mht_nodes t ! p)" "acKey n = acKey (mht_nodes t ! p)"
      "ddwLtPos n = lt_pos t p"
  shows "mht_sim (mht_store t p n) m M D"
proof -
  have pl: "p < length (mht_nodes t)" using p by (simp add: used_at_def)
  have ne: "\<not> is_hnode_empty n" using mht_sim_used(1) [OF sim p] n(3) by (simp add: is_hnode_empty_def)
  have u: "used_at (mht_store t p n) q = used_at t q" for q using p ne pl by simp
  have d: "node_digest (mht_nodes (mht_store t p n) ! q) = node_digest (mht_nodes t ! q)" for q
    using n(1) pl by simp
  have l: "lt_pos (mht_store t p n) q = lt_pos t q" for q using n(3) pl by simp
  have "mht_wf (mht_store t p n)" by (rule mht_wf_store_same [OF mht_simD(1) [OF sim] p ne n(1,2)])
  then show ?thesis
    using mht_simD(2-6) [OF sim] unfolding mht_sim_def u d l by simp
qed

lemma collect_diff:
  assumes "\<And>q. P q \<Longrightarrow> f q = f p \<Longrightarrow> q = p"
  shows "{f q |q. P q \<and> q \<noteq> p} = {f q |q. P q} - {f p}" (is "?A = ?B")
proof (intro set_eqI iffI)
  fix x assume "x \<in> ?A"
  then obtain q where q: "x = f q" "P q" "q \<noteq> p" by blast
  then have "f q \<noteq> f p" using assms by metis
  then show "x \<in> ?B" using q by auto
next
  fix x assume "x \<in> ?B"
  then obtain q where q: "x = f q" "P q" "f q \<noteq> f p" by blast
  then have "q \<noteq> p" by auto
  then show "x \<in> ?A" using q by auto
qed

lemma collect_upd:
  assumes "P p"
  shows "{(if q = p then a else f q) |q. P q} = insert a {f q |q. P q \<and> q \<noteq> p}" (is "?A = ?B")
proof (intro set_eqI iffI)
  fix x assume "x \<in> ?A"
  then obtain q where q: "x = (if q = p then a else f q)" "P q" by blast
  then show "x \<in> ?B" by (cases "q = p") auto
next
  fix x assume "x \<in> ?B"
  then consider "x = a" | q where "x = f q" "P q" "q \<noteq> p" by blast
  then show "x \<in> ?A"
  proof cases
    case 1
    then show ?thesis using assms by (intro CollectI exI [of _ p]) simp
  next
    case 2
    then show ?thesis by (intro CollectI exI [of _ q]) simp
  qed
qed

text \<open>Replacing the datum of a used node.\<close>

lemma mht_sim_update:
  assumes sim: "mht_sim t m M D" and p: "used_at t p"
    and rep: "lt_rep m' ((M(lt_pos t p := None))(pos' \<mapsto> d))" and pos': "pos' \<noteq> 0" "M pos' = None"
  defines "n \<equiv> (mht_nodes t ! p)\<lparr>ddwLtPos := pos'\<rparr>"
  shows "mht_sim (mht_store (t\<lparr>mht_lt := Some m'\<rparr>) p n) m' ((M(lt_pos t p := None))(pos' \<mapsto> d))
           (D(node_digest (mht_nodes t ! p) \<mapsto> d))"
proof -
  let ?t = "mht_store (t\<lparr>mht_lt := Some m'\<rparr>) p n" and ?M = "(M(lt_pos t p := None))(pos' \<mapsto> d)"
  have pl: "p < length (mht_nodes t)" using p by (simp add: used_at_def)
  have wf: "mht_wf t" by (rule mht_simD(1) [OF sim])
  have ne: "\<not> is_hnode_empty n" using pos'(1) by (simp add: n_def is_hnode_empty_def)
  have dg: "node_digest n = node_digest (mht_nodes t ! p)" by (simp add: n_def node_digest_def)
  have u: "used_at ?t q = used_at t q" for q using p ne pl by simp
  have d: "node_digest (mht_nodes ?t ! q) = node_digest (mht_nodes t ! q)" for q using dg pl by simp
  have l: "lt_pos ?t q = (if q = p then pos' else lt_pos t q)" for q using pl by (simp add: n_def)
  have inj: "used_at t q \<Longrightarrow> q \<noteq> p \<Longrightarrow> lt_pos t q \<noteq> lt_pos t p \<and> lt_pos t q \<noteq> pos'" for q
    using mht_simD(5) [OF sim _ p] mht_sim_used(2) [OF sim, of q] pos'(2) by (auto simp: domIff)
  have 1: "mht_wf ?t"
    by (rule mht_wf_store_same) (use wf p ne dg in \<open>auto simp: n_def\<close>)
  have 2: "dom ?M = {lt_pos ?t q |q. used_at ?t q}"
  proof -
    have "{lt_pos ?t q |q. used_at ?t q} = insert pos' {lt_pos t q |q. used_at t q \<and> q \<noteq> p}"
      unfolding u l using p by (rule collect_upd)
    also have "{lt_pos t q |q. used_at t q \<and> q \<noteq> p} = dom M - {lt_pos t p}"
      unfolding mht_simD(4) [OF sim] by (rule collect_diff) (use inj in metis)
    also have "insert pos' (dom M - {lt_pos t p}) = dom ?M" by simp
    finally show ?thesis ..
  qed
  have 3: "x = q" if "used_at ?t x" "used_at ?t q" "lt_pos ?t x = lt_pos ?t q" for x q
    using that inj [of x] inj [of q] mht_simD(5) [OF sim, of x q] unfolding u l by (auto split: if_splits)
  have 4: "(D(node_digest (mht_nodes t ! p) \<mapsto> d)) dg = Some e \<longleftrightarrow>
      (\<exists>q. used_at ?t q \<and> node_digest (mht_nodes ?t ! q) = dg \<and> ?M (lt_pos ?t q) = Some e)" for dg e
  proof (cases "dg = node_digest (mht_nodes t ! p)")
    case True
    have "q = p" if "used_at t q" "node_digest (mht_nodes t ! q) = dg" for q
      using mht_wfD(10) [OF wf that(1) p] that True by simp
    then show ?thesis unfolding u d l using p True by auto
  next
    case False
    have "used_at ?t q \<and> node_digest (mht_nodes ?t ! q) = dg \<and> ?M (lt_pos ?t q) = Some e \<longleftrightarrow>
        used_at t q \<and> node_digest (mht_nodes t ! q) = dg \<and> M (lt_pos t q) = Some e" for q
      using False inj [of q] unfolding u d l by (cases "q = p") auto
    then show ?thesis using False mht_simD(6) [OF sim, of dg e] by simp
  qed
  have 5: "mht_lt ?t = Some m'" by simp
  show ?thesis by (rule mht_simI [OF 1 5 rep 2 3 4])
qed

text \<open>Clearing a used node.\<close>

lemma mht_sim_clear:
  assumes sim: "mht_sim t m M D" and p: "used_at t p" and rep: "lt_rep m' (M(lt_pos t p := None))"
  shows "mht_sim (mht_clear (t\<lparr>mht_lt := Some m'\<rparr>) p) m' (M(lt_pos t p := None))
           (D(node_digest (mht_nodes t ! p) := None))"
proof -
  let ?t = "mht_clear (t\<lparr>mht_lt := Some m'\<rparr>) p" and ?M = "M(lt_pos t p := None)"
  have pl: "p < length (mht_nodes t)" using p by (simp add: used_at_def)
  have wf: "mht_wf t" by (rule mht_simD(1) [OF sim])
  have u: "used_at ?t q \<longleftrightarrow> q \<noteq> p \<and> used_at t q" for q
    by (auto simp: mht_clear_def clear_node_def is_hnode_empty_def)
  have nd: "q \<noteq> p \<Longrightarrow> mht_nodes ?t ! q = mht_nodes t ! q" for q using pl by (simp add: mht_clear_def)
  have l: "q \<noteq> p \<Longrightarrow> lt_pos ?t q = lt_pos t q" for q using pl by (simp add: mht_clear_def)
  have inj: "used_at t q \<Longrightarrow> q \<noteq> p \<Longrightarrow> lt_pos t q \<noteq> lt_pos t p" for q
    using mht_simD(5) [OF sim _ p] by auto
  have 1: "mht_wf ?t"
  proof -
    have 1: "cKeyLen (mht_nodes ?t ! q) \<le> length (acKey (mht_nodes ?t ! q)) \<and>
      (\<exists>i \<le> ddwMaxUsedRow t. in_path t (dwHashKey (mht_nodes ?t ! q)) i q)" if "used_at ?t q" for q
      using mht_wfD(8,9) [OF wf] that nd [of q] unfolding u by auto
    have 2: "x = q" if "used_at ?t x" "used_at ?t q"
      "node_digest (mht_nodes ?t ! x) = node_digest (mht_nodes ?t ! q)" for x q
      using mht_wfD(10) [OF wf, of x q] that nd unfolding u by auto
    have sel: "ddwMaxUsedRow ?t = ddwMaxUsedRow t" "ddwRowNum ?t = ddwRowNum t" "auRowsNodeNum ?t = auRowsNodeNum t"
      "auRowsStartNode ?t = auRowsStartNode t" "ddwHashNodeNum ?t = ddwHashNodeNum t"
      "ddwEraseIterator ?t = ddwEraseIterator t" "length (mht_nodes ?t) = length (mht_nodes t)"
      "row_start ?t i = row_start t i" "in_path ?t hk i q = in_path t hk i q" for i hk q
      by (simp_all add: mht_clear_def)
    show ?thesis using mht_wfD(1-7) [OF wf] 1 2 unfolding mht_wf_def sel by blast
  qed
  have 2: "dom ?M = {lt_pos ?t q |q. used_at ?t q}"
  proof -
    have "dom ?M = dom M - {lt_pos t p}" by auto
    also have "\<dots> = {lt_pos t q |q. q \<noteq> p \<and> used_at t q}"
      unfolding mht_simD(4) [OF sim] using inj by auto
    also have "\<dots> = {lt_pos ?t q |q. used_at ?t q}" unfolding u using l by metis
    finally show ?thesis .
  qed
  have 3: "x = q" if "used_at ?t x" "used_at ?t q" "lt_pos ?t x = lt_pos ?t q" for x q
    using that l mht_simD(5) [OF sim, of x q] unfolding u by auto
  have 4: "(D(node_digest (mht_nodes t ! p) := None)) dg = Some e \<longleftrightarrow>
      (\<exists>q. used_at ?t q \<and> node_digest (mht_nodes ?t ! q) = dg \<and> ?M (lt_pos ?t q) = Some e)" for dg e
  proof (cases "dg = node_digest (mht_nodes t ! p)")
    case True
    have "node_digest (mht_nodes ?t ! q) \<noteq> dg" if "used_at ?t q" for q
      using mht_wfD(10) [OF wf _ p, of q] that True nd [of q] unfolding u by auto
    then show ?thesis using True by auto
  next
    case False
    have "?M (lt_pos ?t q) = M (lt_pos t q) \<and> mht_nodes ?t ! q = mht_nodes t ! q" if "used_at ?t q" for q
      using that inj [of q] l [of q] nd [of q] unfolding u by auto
    then have "used_at ?t q \<and> node_digest (mht_nodes ?t ! q) = dg \<and> ?M (lt_pos ?t q) = Some e \<longleftrightarrow>
        used_at t q \<and> node_digest (mht_nodes t ! q) = dg \<and> M (lt_pos t q) = Some e" for q
      using u [of q] False by (cases "used_at ?t q") auto
    then show ?thesis using False mht_simD(6) [OF sim, of dg e] by simp
  qed
  have 5: "mht_lt ?t = Some m'" by (simp add: mht_clear_def)
  show ?thesis by (rule mht_simI [OF 1 5 rep 2 3 4])
qed

text \<open>Filling an unused node of the search path of a new key.\<close>

lemma mht_sim_insert:
  assumes sim: "mht_sim t m M D" and p: "\<not> used_at t p" "in_path t (dwHashKey n) j p"
    and row: "j \<le> max row (ddwMaxUsedRow t)" "row < ddwRowNum t"
    and n: "ddwLtPos n = pos'" "cKeyLen n \<le> length (acKey n)"
    and new: "\<And>q. used_at t q \<Longrightarrow> node_digest (mht_nodes t ! q) \<noteq> node_digest n"
    and rep: "lt_rep m' (M(pos' \<mapsto> d))" and pos': "pos' \<noteq> 0" "M pos' = None"
    and t': "t' = mht_store (t\<lparr>mht_lt := Some m'\<rparr>) p n"
  shows "mht_sim (if row > ddwMaxUsedRow t' then t'\<lparr>ddwMaxUsedRow := row\<rparr> else t') m' (M(pos' \<mapsto> d))
           (D(node_digest n \<mapsto> d))"
proof -
  let ?t = "if row > ddwMaxUsedRow t' then t'\<lparr>ddwMaxUsedRow := row\<rparr> else t'"
  have wf: "mht_wf t" by (rule mht_simD(1) [OF sim])
  have pl: "p < length (mht_nodes t)" by (rule in_path_bound(3) [OF wf p(2)])
  have ne: "\<not> is_hnode_empty n" using pos'(1) n(1) by (simp add: is_hnode_empty_def)
  have sel: "ddwRowNum ?t = ddwRowNum t" "auRowsNodeNum ?t = auRowsNodeNum t"
      "auRowsStartNode ?t = auRowsStartNode t" "ddwHashNodeNum ?t = ddwHashNodeNum t"
      "ddwEraseIterator ?t = ddwEraseIterator t" "length (mht_nodes ?t) = length (mht_nodes t)"
      "row_start ?t i = row_start t i" "in_path ?t hk i q = in_path t hk i q"
      "mht_nodes ?t = (mht_nodes t)[p := n]" "mht_lt ?t = Some m'"
      "ddwMaxUsedRow ?t = max row (ddwMaxUsedRow t)" for i hk q
    by (auto simp: t' mht_store_def row_start_def in_path_def)
  have u: "used_at ?t q \<longleftrightarrow> q = p \<or> used_at t q" for q
    using ne pl p(1) unfolding used_at_def sel by (cases "q = p") auto
  have nd: "mht_nodes ?t ! q = (if q = p then n else mht_nodes t ! q)" for q unfolding sel using pl by simp
  have l: "lt_pos ?t q = (if q = p then pos' else lt_pos t q)" for q unfolding lt_pos_def nd by (simp add: n(1))
  have up: "used_at t q \<Longrightarrow> q \<noteq> p" for q using p(1) by auto
  have fresh: "used_at t q \<Longrightarrow> lt_pos t q \<noteq> pos'" for q
    using mht_sim_used(2) [OF sim, of q] pos'(2) by (auto simp: domIff)
  have "mht_wf ?t"
  proof -
    have 1: "cKeyLen (mht_nodes ?t ! q) \<le> length (acKey (mht_nodes ?t ! q)) \<and>
      (\<exists>i \<le> max row (ddwMaxUsedRow t). in_path t (dwHashKey (mht_nodes ?t ! q)) i q)" if "used_at ?t q" for q
    proof (cases "q = p")
      case True
      then show ?thesis using n(2) p(2) row(1) unfolding nd by (auto intro!: exI [of _ j])
    next
      case False
      then have "used_at t q" using that u by simp
      then show ?thesis using mht_wfD(8,9) [OF wf, of q] False unfolding nd by (auto intro: max.coboundedI2)
    qed
    have 2: "x = q" if "used_at ?t x" "used_at ?t q"
      "node_digest (mht_nodes ?t ! x) = node_digest (mht_nodes ?t ! q)" for x q
      using mht_wfD(10) [OF wf, of x q] that new unfolding u nd by (auto split: if_splits)
    have mx: "max row (ddwMaxUsedRow t) < ddwRowNum t" using row(2) mht_wfD(1) [OF wf] by simp
    show ?thesis using mht_wfD(2-7) [OF wf] 1 2 mx unfolding mht_wf_def sel(1-8,11) by blast
  qed
  moreover have "dom (M(pos' \<mapsto> d)) = {lt_pos ?t q |q. used_at ?t q}"
  proof -
    have "{lt_pos ?t q |q. used_at ?t q} = insert pos' {lt_pos t q |q. (q = p \<or> used_at t q) \<and> q \<noteq> p}"
      unfolding u l by (rule collect_upd) simp
    also have "{lt_pos t q |q. (q = p \<or> used_at t q) \<and> q \<noteq> p} = dom M"
      unfolding mht_simD(4) [OF sim] using up by blast
    finally show ?thesis by simp
  qed
  moreover have "x = q" if "used_at ?t x" "used_at ?t q" "lt_pos ?t x = lt_pos ?t q" for x q
    using that fresh [of x] fresh [of q] mht_simD(5) [OF sim, of x q] unfolding u l by (auto split: if_splits)
  moreover have "(D(node_digest n \<mapsto> d)) dg = Some e \<longleftrightarrow>
      (\<exists>q. used_at ?t q \<and> node_digest (mht_nodes ?t ! q) = dg \<and> (M(pos' \<mapsto> d)) (lt_pos ?t q) = Some e)" for dg e
  proof (cases "dg = node_digest n")
    case True
    then show ?thesis using new unfolding u nd l by auto
  next
    case False
    have "used_at ?t q \<and> node_digest (mht_nodes ?t ! q) = dg \<and> (M(pos' \<mapsto> d)) (lt_pos ?t q) = Some e \<longleftrightarrow>
        used_at t q \<and> node_digest (mht_nodes t ! q) = dg \<and> M (lt_pos t q) = Some e" for q
      using False fresh [of q] up [of q] unfolding u nd l by auto
    then show ?thesis using False mht_simD(6) [OF sim, of dg e] by simp
  qed
  ultimately show ?thesis using rep sel(10) unfolding mht_sim_def by blast
qed

subsection \<open>Facts of the block store\<close>

lemma lt_rep_pos_bound: "lt_rep m M \<Longrightarrow> p \<in> dom M \<Longrightarrow> p < 2 ^ 31"
proof -
  assume a: "lt_rep m M" "p \<in> dom M"
  then have inv: "lt_inv m (dom M)" by (simp add: lt_rep_def)
  then obtain xs where xs: "lt_owns m p xs" using a(2) lt_roots_ok_owns unfolding lt_inv_def by blast
  have "p \<in> lt_used m" using lt_owns_used [OF xs] lt_owns_hd [OF xs] by blast
  then have "p < ddwAllBlockCount m" by (simp add: lt_used_def)
  then show ?thesis using inv lt_wfD(2) by (fastforce simp: lt_inv_def)
qed

lemma RecycleBlock_free:
  assumes inv: "lt_inv m L" and p: "p \<in> L"
  shows "ddwFreeBlockCount m \<le> ddwFreeBlockCount (snd (RecycleBlock m p))"
proof -
  define i where "i = (if ddwRecycleIndex m \<ge> dwRecyclePoolSize m then 0 else ddwRecycleIndex m)"
  define m1 where "m1 = m\<lparr>addwRecyclePool := (addwRecyclePool m)(i := p), ddwRecycleIndex := (i + 1) mod dwRecyclePoolSize m\<rparr>"
  let ?m' = "snd (RecycleBlock m p)"
  have wf: "lt_wf m" using inv by (simp add: lt_inv_def)
  note r = RecycleBlock_root [OF inv p]
  have wf': "lt_wf ?m'" using r(2) by (simp add: lt_inv_def)
  have m': "?m' = (if addwRecyclePool m i \<noteq> 0 then snd (FreeBlock m1 (addwRecyclePool m i)) else m1)"
    by (simp add: RecycleBlock_def Let_def m1_def i_def)
  have i: "i < dwRecyclePoolSize m" using lt_wfD(9) [OF wf] by (simp add: i_def)
  have "\<forall>j \<ge> dwRecyclePoolSize m. ((addwRecyclePool m)(i := p)) j = 0" using lt_wfD(11) [OF wf] i by simp
  note U = pool_update [OF wf this, of "(i + 1) mod dwRecyclePoolSize m", folded m1_def]
  have u1: "lt_used m1 = lt_used m" by (rule lt_used_cong) (simp_all add: m1_def)
  have "lt_used ?m' \<subseteq> lt_used m"
  proof (cases "addwRecyclePool m i = 0")
    case True
    then show ?thesis using m' u1 by simp
  next
    case False
    then have "addwRecyclePool m i \<in> L \<union> lt_pool m" by (auto simp: lt_pool_def)
    then obtain xs where xs: "lt_owns m (addwRecyclePool m i) xs"
      using inv lt_roots_ok_owns unfolding lt_inv_def by blast
    then have own: "lt_owns m1 (addwRecyclePool m i) xs" using U(2) by simp
    have "distinct xs" using own lt_chain_distinct by (auto simp: lt_owns_def)
    then have "lt_used (lt_free_all m1 xs) = lt_used m1 - set xs"
      using free_all_wf [OF U(1)] lt_owns_used [OF own] by simp
    then show ?thesis using False FreeBlock_owned [OF own] m' u1 by auto
  qed
  then have "card (lt_used ?m') \<le> card (lt_used m)" by (intro card_mono) auto
  then show ?thesis using lt_wfD(12) [OF wf] lt_wfD(12) [OF wf'] r(8) by linarith
qed

lemma lt_EraseData_rep:
  assumes "lt_rep m M" "p \<in> dom M"
  shows "\<exists>m'. lt_EraseData (Some m) p = (0, Some m') \<and> lt_rep m' (M(p := None)) \<and>
     ddwFreeBlockCount m \<le> ddwFreeBlockCount m' \<and> ddwBlockSize m' = ddwBlockSize m"
proof -
  have inv: "lt_inv m (dom M)" using assms(1) by (simp add: lt_rep_def)
  obtain m' where m': "lt_del m p = (0, m')" "lt_rep m' (M(p := None))"
    using lt.del_rep [unfolded lt_rep_eq, OF assms] by blast
  have "snd (RecycleBlock m p) = m' \<and> lt_EraseData (Some m) p = (0, Some m')"
    using m'(1) by (cases "RecycleBlock m p") (simp add: lt_del_def lt_EraseData_def)
  then show ?thesis
    using m'(2) RecycleBlock_free [OF inv assms(2)] RecycleBlock_root(9) [OF inv assms(2)] by auto
qed

lemma lt_SetData_rep:
  assumes "lt_rep m M" "pos = 0 \<or> pos \<in> dom M" "lt_fits m d"
  shows "\<exists>r pos' m'. lt_SetData (Some m) pos (Some d) (int (length d)) = Some (r, pos', Some m') \<and>
     (r = 0 \<and> pos' \<noteq> 0 \<and> M pos' = None \<and> lt_rep m' ((M(pos := None))(pos' \<mapsto> d)) \<or>
      r = -9 \<and> pos' = pos \<and> lt_rep m' M)"
proof -
  have inv: "lt_inv m (dom M)" using assms(1) by (simp add: lt_rep_def)
  obtain r pos' m' where s: "lt_SetData (Some m) pos (Some d) (int (length d)) = Some (r, pos', Some m')"
    and c: "r = 0 \<and> pos' \<noteq> 0 \<and> M pos' = None \<and> lt_rep m' ((M(pos := None))(pos' \<mapsto> d)) \<or>
      r < 0 \<and> pos' = pos \<and> lt_rep m' M"
    using lt.put_rep [unfolded lt_rep_eq, OF assms] lt_put_SetData by blast
  have "r = 0 \<or> r = -9" using SetData_main [OF inv assms(2), of d] assms(3) s unfolding lt_fits_def by auto
  then show ?thesis using s c by auto
qed

subsection \<open>Operations\<close>

lemma mht_GetData_sim:
  assumes sim: "mht_sim t m M D" and k: "0 < length key" "length key < 2 ^ 63" and n: "1 \<le> n"
  shows "\<exists>rd t'. mht_GetData (Some t) (Some key) (int (length key)) True n upd now = Some (rd, Some t') \<and>
     mht_sim t' m M D \<and> mht_hash t' = mht_hash t \<and>
     (case D (key_digest t key) of
        None \<Rightarrow> rd_ret rd = 0 \<and> rd_data rd = [] \<and> rd_len rd = 0 \<and> t' = t
      | Some d \<Rightarrow> (lt_room m d n \<longrightarrow> rd_ret rd = 0 \<and> rd_data rd = d \<and> rd_len rd = int (length d)) \<and>
          (\<not> lt_room m d n \<longrightarrow> int (BLOCK_DATA_LEN m) \<le> n \<longrightarrow> rd_ret rd = -22))"
proof -
  have wf: "mht_wf t" and lt: "mht_lt t = Some m" by (rule mht_simD(1,2) [OF sim])+
  obtain s where s: "Search t key (int (length key)) (mht_hash t key) False = Some (s, t)"
    and f: "\<And>p. sr_found s = Some p \<Longrightarrow> used_at t p \<and> node_digest (mht_nodes t ! p) = key_digest t key"
    and nf: "\<And>p. sr_found s = None \<Longrightarrow> used_at t p \<Longrightarrow> node_digest (mht_nodes t ! p) \<noteq> key_digest t key"
    by (rule Search_found [OF wf k, of False]) metis
  show ?thesis
  proof (cases "sr_found s")
    case None
    then have "D (key_digest t key) = None" using nf mht_sim_unused [OF sim] by blast
    then show ?thesis using s None k n sim by (simp add: mht_GetData_def)
  next
    case (Some p)
    note u = f [OF Some]
    let ?nd = "mht_nodes t ! p"
    define nd1 where "nd1 = (if \<not> upd then ?nd
                           else if \<not> cUseAccessSeq t then ?nd\<lparr>dwAccessTime := u32n now\<rparr>
                           else ?nd\<lparr>dwAccessTime := u32n (dwAccessTime ?nd + 1)\<rparr>)"
    have eq: "node_digest nd1 = node_digest ?nd" "acKey nd1 = acKey ?nd" "ddwLtPos nd1 = lt_pos t p"
      "cKeyLen nd1 = cKeyLen ?nd"
      by (simp_all add: nd1_def node_digest_def lt_pos_def)
    have sim': "mht_sim (mht_store t p nd1) m M D" using mht_sim_touch [OF sim _ eq(1-3)] u by simp
    have cmp: "hnode_cmp key (int (length key)) nd1 = 0"
      using node_cmp_digest [of "int (length key)" key nd1 t] k mht_wfD(8) [OF wf] u eq by simp
    have D: "D (key_digest t key) = M (lt_pos t p)" using mht_sim_used(3) [OF sim, of p] u by simp
    obtain d where d: "M (lt_pos t p) = Some d" using mht_sim_used(2) [OF sim, of p] u by auto
    have hold: "lt_wf m" "lt_holds m (lt_pos t p) d"
      using mht_simD(3) [OF sim] d by (auto simp: lt_rep_def lt_inv_def)
    have "\<exists>r out. lt_GetData (Some m) (lt_pos t p) True n = Some (r, out)"
      using get_loop_total [OF hold(1), of "[]" n "lt_pos t p"] n
      by (cases "n < s32 (BLOCK_DATA_LEN m)") (auto simp: lt_GetData_def)
    then obtain r out where g: "lt_GetData (Some m) (lt_pos t p) True n = Some (r, out)" by blast
    have room: "lt_room m d n \<Longrightarrow> r = 0 \<and> out = d" using lt_GetData_holds(1) [OF hold] g by auto
    have short: "\<not> lt_room m d n \<Longrightarrow> int (BLOCK_DATA_LEN m) \<le> n \<Longrightarrow> r = -22" using lt_GetData_holds(2) [OF hold, of n] g by auto
    have "mht_GetData (Some t) (Some key) (int (length key)) True n upd now =
        Some (\<lparr>rd_ret = (if r < 0 then r else 0), rd_data = out,
               rd_len = (if r < 0 then n else int (length out)), rd_time = Some (dwAccessTime ?nd)\<rparr>,
              Some (mht_store t p nd1))"
      using s Some k n cmp g lt eq(3) by (simp add: mht_GetData_def Let_def nd1_def [symmetric])
    then show ?thesis using sim' room short D d by auto
  qed
qed

lemma erase_node_sim:
  assumes sim: "mht_sim t m M D" and p: "used_at t p"
  shows "\<exists>t' m'. erase_node t p = (0, t') \<and> t' = mht_clear (t\<lparr>mht_lt := Some m'\<rparr>) p \<and>
     mht_sim t' m' (M(lt_pos t p := None)) (D(node_digest (mht_nodes t ! p) := None)) \<and>
     ddwFreeBlockCount m \<le> ddwFreeBlockCount m' \<and> ddwBlockSize m' = ddwBlockSize m"
proof -
  obtain m' where m': "lt_EraseData (Some m) (lt_pos t p) = (0, Some m')" "lt_rep m' (M(lt_pos t p := None))"
     "ddwFreeBlockCount m \<le> ddwFreeBlockCount m'" "ddwBlockSize m' = ddwBlockSize m"
    using lt_EraseData_rep [OF mht_simD(3) [OF sim] mht_sim_used(2) [OF sim p]] by blast
  have "erase_node t p = (0, mht_clear (t\<lparr>mht_lt := Some m'\<rparr>) p)"
    using m'(1) mht_simD(2) [OF sim] by (simp add: erase_node_def lt_pos_def)
  then show ?thesis using mht_sim_clear [OF sim p m'(2)] m'(3,4) by blast
qed

lemma mht_EraseData_sim:
  assumes sim: "mht_sim t m M D" and k: "0 < length key" "length key < 2 ^ 63"
  shows "\<exists>t' m' M'. mht_EraseData (Some t) (Some key) (int (length key)) =
      Some (if D (key_digest t key) = None then 0 else 1, Some t') \<and>
     mht_sim t' m' M' (D(key_digest t key := None)) \<and> mht_hash t' = mht_hash t"
proof -
  have wf: "mht_wf t" and lt: "mht_lt t = Some m" by (rule mht_simD(1,2) [OF sim])+
  obtain s where s: "Search t key (int (length key)) (mht_hash t key) False = Some (s, t)"
    and f: "\<And>p. sr_found s = Some p \<Longrightarrow> used_at t p \<and> node_digest (mht_nodes t ! p) = key_digest t key"
    and nf: "\<And>p. sr_found s = None \<Longrightarrow> used_at t p \<Longrightarrow> node_digest (mht_nodes t ! p) \<noteq> key_digest t key"
    by (rule Search_found [OF wf k, of False]) metis
  show ?thesis
  proof (cases "sr_found s")
    case None
    then have D: "D (key_digest t key) = None" using nf mht_sim_unused [OF sim] by blast
    then have "D(key_digest t key := None) = D" by auto
    then show ?thesis using s None k sim D by (auto simp: mht_EraseData_def)
  next
    case (Some p)
    note u = f [OF Some]
    obtain m' where m': "lt_EraseData (Some m) (lt_pos t p) = (0, Some m')" "lt_rep m' (M(lt_pos t p := None))"
      using lt_EraseData_rep [OF mht_simD(3) [OF sim] mht_sim_used(2) [OF sim]] u by blast
    have "D (key_digest t key) \<noteq> None" using mht_sim_used(2,3) [OF sim, of p] u by auto
    then have "mht_EraseData (Some t) (Some key) (int (length key)) =
        Some (if D (key_digest t key) = None then 0 else 1, Some (mht_clear (t\<lparr>mht_lt := Some m'\<rparr>) p))"
      using s Some k m'(1) lt by (simp add: mht_EraseData_def lt_pos_def)
    moreover have "mht_hash (mht_clear (t\<lparr>mht_lt := Some m'\<rparr>) p) = mht_hash t" by (simp add: mht_clear_def)
    ultimately show ?thesis using mht_sim_clear [OF sim _ m'(2)] u by auto
  qed
qed

text \<open>The bytes a node has room for.\<close>

definition mht_cap :: "MhtMem \<Rightarrow> nat \<Rightarrow> bool" where
  "mht_cap t n \<longleftrightarrow> (\<forall>nd \<in> set (mht_nodes t). n \<le> length (acKey nd))"

lemma mht_cap_at: "mht_cap t n \<Longrightarrow> p < length (mht_nodes t) \<Longrightarrow> n \<le> length (acKey (mht_nodes t ! p))"
  by (simp add: mht_cap_def)

lemma mht_cap_lt [simp]: "mht_cap (t\<lparr>mht_lt := l\<rparr>) n = mht_cap t n"
  by (simp add: mht_cap_def)

lemma mht_cap_clear:
  assumes "mht_cap t n" "p < length (mht_nodes t)"
  shows "mht_cap (mht_clear t p) n"
proof -
  have "length (acKey (clear_node x)) = length (acKey x)" for x
    by (simp add: clear_node_def split: list.splits)
  then show ?thesis
    using assms mht_cap_at [OF assms] set_update_subset_insert [of "mht_nodes t" p "clear_node (mht_nodes t ! p)"]
    by (auto simp: mht_cap_def mht_clear_def mht_store_def)
qed

text \<open>The end of \<open>SetData\<close> when there is room in the block store: from a used node with the key's
  digest, and from an unused node on the key's search path.\<close>

lemma mht_set_loop_fits:
  assumes sim: "mht_sim t m M D" and pos: "lt_pos t p = 0 \<or> lt_pos t p \<in> dom M" and f: "lt_fits m d"
  shows "\<exists>r pos' m'. mht_set_loop t oldest p (Some d) (int (length d)) remove = Some (r, pos', t\<lparr>mht_lt := Some m'\<rparr>) \<and>
     (r = 0 \<and> pos' \<noteq> 0 \<and> pos' < 2 ^ 31 \<and> M pos' = None \<and> lt_rep m' ((M(lt_pos t p := None))(pos' \<mapsto> d)) \<or>
      r = -8 \<and> lt_rep m' M)"
proof -
  obtain r pos' m' where s: "lt_SetData (Some m) (lt_pos t p) (Some d) (int (length d)) = Some (r, pos', Some m')"
    and c: "r = 0 \<and> pos' \<noteq> 0 \<and> M pos' = None \<and> lt_rep m' ((M(lt_pos t p := None))(pos' \<mapsto> d)) \<or>
      r = -9 \<and> pos' = lt_pos t p \<and> lt_rep m' M"
    using lt_SetData_rep [OF mht_simD(3) [OF sim] pos f] by blast
  have lt: "mht_lt t = Some m" by (rule mht_simD(2) [OF sim])
  from c show ?thesis
  proof
    assume a: "r = 0 \<and> pos' \<noteq> 0 \<and> M pos' = None \<and> lt_rep m' ((M(lt_pos t p := None))(pos' \<mapsto> d))"
    then have "pos' < 2 ^ 31" using lt_rep_pos_bound by fastforce
    moreover have "mht_set_loop t oldest p (Some d) (int (length d)) remove = Some (0, pos', t\<lparr>mht_lt := Some m'\<rparr>)"
      using s a lt by (subst mht_set_loop.simps) (simp add: lt_pos_def)
    ultimately show ?thesis using a by blast
  next
    assume a: "r = -9 \<and> pos' = lt_pos t p \<and> lt_rep m' M"
    then have "mht_set_loop t oldest p (Some d) (int (length d)) remove = Some (-8, pos', t\<lparr>mht_lt := Some m'\<rparr>)"
      using s lt by (subst mht_set_loop.simps) (simp add: lt_pos_def)
    then show ?thesis using a by blast
  qed
qed

text \<open>What a successful or failed write means for the maps.\<close>

definition set_outcome :: "MhtMem \<Rightarrow> (digest \<Rightarrow> byte list option) \<Rightarrow> digest \<Rightarrow> byte list \<Rightarrow> int \<times> MultiHashTable \<Rightarrow> bool" where
  "set_outcome t D dg d r \<longleftrightarrow> (\<exists>t' m' M'. snd r = Some t' \<and> mht_hash t' = mht_hash t \<and>
     (fst r = 0 \<and> mht_sim t' m' M' (D(dg \<mapsto> d)) \<or> fst r = -8 \<and> mht_sim t' m' M' D))"

lemma mht_finish_update:
  assumes sim: "mht_sim t m M D" and f: "lt_fits m d" and p: "used_at t p"
  shows "\<exists>r. mht_finish t oldest p False row key (int (length key)) hk (Some d) (int (length d)) remove now = Some r \<and>
     set_outcome t D (node_digest (mht_nodes t ! p)) d r"
proof -
  obtain r pos' m' where s: "mht_set_loop t oldest p (Some d) (int (length d)) remove = Some (r, pos', t\<lparr>mht_lt := Some m'\<rparr>)"
    and c: "r = 0 \<and> pos' \<noteq> 0 \<and> pos' < 2 ^ 31 \<and> M pos' = None \<and> lt_rep m' ((M(lt_pos t p := None))(pos' \<mapsto> d)) \<or>
      r = -8 \<and> lt_rep m' M"
    using mht_set_loop_fits [OF sim _ f] mht_sim_used(2) [OF sim p] by blast
  from c show ?thesis
  proof
    assume a: "r = 0 \<and> pos' \<noteq> 0 \<and> pos' < 2 ^ 31 \<and> M pos' = None \<and> lt_rep m' ((M(lt_pos t p := None))(pos' \<mapsto> d))"
    let ?t = "mht_store (t\<lparr>mht_lt := Some m'\<rparr>) p ((mht_nodes t ! p)\<lparr>ddwLtPos := pos'\<rparr>)"
    have u: "u48n pos' = pos'" using a by simp
    have "mht_finish t oldest p False row key (int (length key)) hk (Some d) (int (length d)) remove now = Some (0, Some ?t)"
      using s a u by (simp add: mht_finish_def)
    moreover have "set_outcome t D (node_digest (mht_nodes t ! p)) d (0, Some ?t)"
      unfolding set_outcome_def using mht_sim_update [OF sim p, of m' pos' d] a by auto
    ultimately show ?thesis by blast
  next
    assume a: "r = -8 \<and> lt_rep m' M"
    then have "mht_finish t oldest p False row key (int (length key)) hk (Some d) (int (length d)) remove now = Some (-8, Some (t\<lparr>mht_lt := Some m'\<rparr>))"
      using s by (simp add: mht_finish_def)
    moreover have "set_outcome t D (node_digest (mht_nodes t ! p)) d (-8, Some (t\<lparr>mht_lt := Some m'\<rparr>))"
      unfolding set_outcome_def using mht_sim_lt [OF sim] a by auto
    ultimately show ?thesis by blast
  qed
qed

lemma mht_finish_insert:
  assumes sim: "mht_sim t m M D" and f: "lt_fits m d" and cap: "mht_cap t (length key)"
    and p: "\<not> used_at t p" "in_path t (mht_hash t key) j p"
    and row: "j \<le> max row (ddwMaxUsedRow t)" "row < ddwRowNum t"
    and new: "\<And>q. used_at t q \<Longrightarrow> node_digest (mht_nodes t ! q) \<noteq> key_digest t key"
  shows "\<exists>r. mht_finish t oldest p True row key (int (length key)) (mht_hash t key) (Some d) (int (length d)) remove now = Some r \<and>
     set_outcome t D (key_digest t key) d r"
proof -
  have pl: "p < length (mht_nodes t)" by (rule in_path_bound(3) [OF mht_simD(1) [OF sim] p(2)])
  have pos0: "lt_pos t p = 0" using p(1) pl by (simp add: used_at_def is_hnode_empty_def lt_pos_def)
  have len: "length key \<le> length (acKey (mht_nodes t ! p))" by (rule mht_cap_at [OF cap pl])
  have M0: "M(0 := None) = M"
  proof -
    have "0 \<notin> dom M"
      unfolding mht_simD(4) [OF sim] using mht_sim_used(1) [OF sim] by fastforce
    then show ?thesis by (auto simp: domIff)
  qed
  obtain r pos' m' where s: "mht_set_loop t oldest p (Some d) (int (length d)) remove = Some (r, pos', t\<lparr>mht_lt := Some m'\<rparr>)"
    and c: "r = 0 \<and> pos' \<noteq> 0 \<and> pos' < 2 ^ 31 \<and> M pos' = None \<and> lt_rep m' (M(pos' \<mapsto> d)) \<or>
      r = -8 \<and> lt_rep m' M"
    using mht_set_loop_fits [OF sim _ f, of p oldest remove] pos0 M0 by auto
  from c show ?thesis
  proof
    assume a: "r = 0 \<and> pos' \<noteq> 0 \<and> pos' < 2 ^ 31 \<and> M pos' = None \<and> lt_rep m' (M(pos' \<mapsto> d))"
    define n where "n = (mht_nodes t ! p)\<lparr>ddwLtPos := pos', dwHashKey := mht_hash t key,
        dwAccessTime := (if cUseAccessSeq t then 0 else u32n now), cKeyLen := u8n (length key),
        acKey := key @ drop (length key) (acKey (mht_nodes t ! p))\<rparr>"
    define t' where "t' = mht_store (t\<lparr>mht_lt := Some m'\<rparr>) p n"
    let ?t = "if row > ddwMaxUsedRow t' then t'\<lparr>ddwMaxUsedRow := row\<rparr> else t'"
    have u: "u48n pos' = pos'" using a by simp
    have fin: "mht_finish t oldest p True row key (int (length key)) (mht_hash t key) (Some d) (int (length d)) remove now = Some (0, Some ?t)"
      using s a u len by (simp add: mht_finish_def Let_def t'_def n_def not_less)
    have k8: "u8n (length key) \<le> length key" by (simp add: u8n_def)
    have dg: "node_digest n = key_digest t key" using k8 by (simp add: n_def node_digest_def key_digest_def)
    have "mht_sim ?t m' (M(pos' \<mapsto> d)) (D(node_digest n \<mapsto> d))"
    proof (rule mht_sim_insert [OF sim p(1) _ row])
      show "in_path t (dwHashKey n) j p" using p(2) by (simp add: n_def)
      show "cKeyLen n \<le> length (acKey n)" using k8 len by (simp add: n_def)
      show "node_digest (mht_nodes t ! q) \<noteq> node_digest n" if "used_at t q" for q using new [OF that] dg by simp
    qed (use a in \<open>simp_all add: n_def t'_def\<close>)
    moreover have "mht_hash ?t = mht_hash t" by (simp add: t'_def)
    ultimately have "set_outcome t D (key_digest t key) d (0, Some ?t)"
      unfolding set_outcome_def dg by (intro exI [of _ ?t] exI [of _ m'] exI [of _ "M(pos' \<mapsto> d)"]) simp
    then show ?thesis using fin by blast
  next
    assume a: "r = -8 \<and> lt_rep m' M"
    then have "mht_finish t oldest p True row key (int (length key)) (mht_hash t key) (Some d) (int (length d)) remove now = Some (-8, Some (t\<lparr>mht_lt := Some m'\<rparr>))"
      using s by (simp add: mht_finish_def)
    moreover have "set_outcome t D (key_digest t key) d (-8, Some (t\<lparr>mht_lt := Some m'\<rparr>))"
      unfolding set_outcome_def using mht_sim_lt [OF sim] a by auto
    ultimately show ?thesis by blast
  qed
qed

lemma lt_fits_more:
  assumes "lt_fits m d" "ddwFreeBlockCount m \<le> ddwFreeBlockCount m'" "ddwBlockSize m' = ddwBlockSize m"
  shows "lt_fits m' d"
  using assms BLOCK_DATA_LEN_cong [OF assms(3)] by (auto simp: lt_fits_def lt_nblocks_def)

text \<open>The state after at most one node of the search path was erased.\<close>

definition evicted :: "bool \<Rightarrow> digest \<Rightarrow> (digest \<Rightarrow> byte list option) \<Rightarrow> (digest \<Rightarrow> byte list option) \<Rightarrow> bool" where
  "evicted remove dg D D0 \<longleftrightarrow> D0 = D \<or> remove \<and> (\<exists>old. old \<noteq> dg \<and> D0 = D(old := None))"

definition set_result :: "MhtMem \<Rightarrow> (digest \<Rightarrow> byte list option) \<Rightarrow> digest \<Rightarrow> byte list \<Rightarrow> bool \<Rightarrow> (int \<times> MultiHashTable) option \<Rightarrow> bool" where
  "set_result t D dg d remove r \<longleftrightarrow> (\<exists>ret t' m' M' D0. r = Some (ret, Some t') \<and> mht_hash t' = mht_hash t \<and>
     evicted remove dg D D0 \<and>
     (ret = 0 \<and> mht_sim t' m' M' (D0(dg \<mapsto> d)) \<or> ret \<in> {-5, -8} \<and> mht_sim t' m' M' D0))"

lemma evictedI: "old \<noteq> dg \<Longrightarrow> remove \<Longrightarrow> evicted remove dg D (D(old := None))"
  unfolding evicted_def by blast

lemma set_result_outcome:
  assumes "\<exists>r. x = Some r \<and> set_outcome t1 D0 dg d r" "evicted remove dg D D0" "mht_hash t1 = mht_hash t"
  shows "set_result t D dg d remove x"
  using assms unfolding set_result_def set_outcome_def by (auto; metis)

lemma set_result_mono:
  assumes "set_result t D dg d b x" "b \<Longrightarrow> b'"
  shows "set_result t D dg d b' x"
proof -
  have "evicted b' dg D D0" if "evicted b dg D D0" for D0 using assms(2) that unfolding evicted_def by blast
  then show ?thesis using assms(1) unfolding set_result_def by blast
qed

lemma set_result_trans:
  assumes "set_result t1 D1 dg d False x" "evicted remove dg D D1" "mht_hash t1 = mht_hash t"
  shows "set_result t D dg d remove x"
proof -
  have "evicted remove dg D D0" if "evicted False dg D1 D0" for D0
    using assms(2) that unfolding evicted_def by simp
  then show ?thesis using assms(1,3) unfolding set_result_def by metis
qed

lemma mht_choose_sim:
  assumes sim: "mht_sim t m M D" and cap: "mht_cap t (length key)" and f: "lt_fits m d"
    and fnd: "\<And>p. found = Some p \<Longrightarrow> used_at t p \<and> node_digest (mht_nodes t ! p) = key_digest t key"
    and nf: "\<And>p. found = None \<Longrightarrow> used_at t p \<Longrightarrow> node_digest (mht_nodes t ! p) \<noteq> key_digest t key"
    and emp: "\<And>p. emptyNode = Some p \<Longrightarrow> \<not> used_at t p \<and> row < ddwRowNum t \<and>
        (\<exists>j \<le> max row (ddwMaxUsedRow t). in_path t (mht_hash t key) j p)"
    and old: "\<And>q. oldest = Some q \<Longrightarrow> used_at t q \<and> node_digest (mht_nodes t ! q) \<noteq> key_digest t key \<and>
        (\<exists>j \<le> ddwMaxUsedRow t. in_path t (mht_hash t key) j q)"
    and last: "found = None \<Longrightarrow> emptyNode = None \<Longrightarrow> oldest \<noteq> None"
  shows "set_result t D (key_digest t key) d (remove \<and> oldest \<noteq> None)
    (mht_choose t found emptyNode row oldest key (int (length key)) (mht_hash t key) (Some d) (int (length d)) remove now)"
proof -
  let ?dg = "key_digest t key"
  have wf: "mht_wf t" by (rule mht_simD(1) [OF sim])
  have ev0: "evicted b ?dg D D" for b by (simp add: evicted_def)
  show ?thesis
  proof (cases found)
    case (Some p)
    have "\<exists>r. mht_finish t oldest p False row key (int (length key)) (mht_hash t key) (Some d) (int (length d)) remove now =
        Some r \<and> set_outcome t D ?dg d r"
      using mht_finish_update [OF sim f, of p oldest row key "mht_hash t key" remove now] fnd [OF Some] by simp
    from set_result_outcome [OF this ev0 refl] show ?thesis using Some by (simp add: mht_choose_def)
  next
    case None
    note fnone = this
    show ?thesis
    proof (cases emptyNode)
      case (Some p)
      then obtain j where j: "\<not> used_at t p" "in_path t (mht_hash t key) j p" "j \<le> max row (ddwMaxUsedRow t)"
        "row < ddwRowNum t" using emp by blast
      have "p < length (mht_nodes t)" by (rule in_path_bound(3) [OF wf j(2)])
      then show ?thesis
        using set_result_outcome [OF mht_finish_insert [OF sim f cap j nf [OF fnone]] ev0 refl] fnone Some
        by (simp add: mht_choose_def)
    next
      case None
      then obtain q where q: "oldest = Some q" using last fnone by auto
      obtain j where j: "used_at t q" "node_digest (mht_nodes t ! q) \<noteq> ?dg" "j \<le> ddwMaxUsedRow t"
        "in_path t (mht_hash t key) j q" using old [OF q] by blast
      obtain t2 m2 where e: "erase_node t q = (0, t2)" "t2 = mht_clear (t\<lparr>mht_lt := Some m2\<rparr>) q"
        and sim2: "mht_sim t2 m2 (M(lt_pos t q := None)) (D(node_digest (mht_nodes t ! q) := None))"
        and m2: "ddwFreeBlockCount m \<le> ddwFreeBlockCount m2" "ddwBlockSize m2 = ddwBlockSize m"
        using erase_node_sim [OF sim j(1)] by blast
      have ql: "q < length (mht_nodes t)" using j(1) by (simp add: used_at_def)
      have h2: "mht_hash t2 = mht_hash t" "key_digest t2 key = ?dg" by (simp_all add: e(2) mht_clear_def key_digest_def)
      have cap2: "mht_cap t2 (length key)" using mht_cap_clear [of "t\<lparr>mht_lt := Some m2\<rparr>"] cap ql e(2) by simp
      have u2: "used_at t2 p \<longleftrightarrow> p \<noteq> q \<and> used_at t p" for p
        by (auto simp: e(2) mht_clear_def clear_node_def is_hnode_empty_def)
      have n2: "p \<noteq> q \<Longrightarrow> mht_nodes t2 ! p = mht_nodes t ! p" for p using ql by (simp add: e(2) mht_clear_def)
      have path2: "in_path t2 (mht_hash t2 key) j q" "j \<le> max 0 (ddwMaxUsedRow t2)" "0 < ddwRowNum t2"
        using j(3,4) h2(1) mht_wfD(1) [OF wf] by (simp_all add: e(2) mht_clear_def)
      have new2: "node_digest (mht_nodes t2 ! p) \<noteq> key_digest t2 key" if "used_at t2 p" for p
        using that nf [OF fnone] n2 [of p] h2(2) unfolding u2 by simp
      have nu2: "\<not> used_at t2 q" by (simp add: u2)
      show ?thesis
      proof (cases remove)
        case False
        then show ?thesis using fnone None sim ev0 unfolding set_result_def mht_choose_def by fastforce
      next
        case True
        have ev: "evicted True ?dg D (D(node_digest (mht_nodes t ! q) := None))"
          using j(2) by (rule evictedI) simp
        have fin: "\<exists>r. mht_finish t2 None q True 0 key (int (length key)) (mht_hash t key) (Some d) (int (length d)) remove now =
            Some r \<and> set_outcome t2 (D(node_digest (mht_nodes t ! q) := None)) ?dg d r"
          using mht_finish_insert [OF sim2 lt_fits_more [OF f m2] cap2 nu2 path2 new2, of None remove now] h2 by simp
        show ?thesis
          using set_result_outcome [OF fin ev h2(1)] fnone None q e(1) True by (simp add: mht_choose_def)
      qed
    qed
  qed
qed

lemma mht_SetData_sim:
  assumes sim: "mht_sim t m M D" and k: "0 < length key" "length key < 2 ^ 63"
    and cap: "mht_cap t (length key)" and f: "lt_fits m d"
  shows "set_result t D (key_digest t key) d remove
    (mht_SetData (Some t) (Some key) (int (length key)) (Some d) (int (length d)) remove now)"
proof -
  let ?dg = "key_digest t key" and ?hk = "mht_hash t key"
  let ?ch = "\<lambda>t found emptyNode row oldest.
     mht_choose t found emptyNode row oldest key (int (length key)) ?hk (Some d) (int (length d)) remove now"
  have wf: "mht_wf t" by (rule mht_simD(1) [OF sim])
  obtain s where s: "Search t key (int (length key)) ?hk True = Some (s, t)"
    and fnd: "\<And>p. sr_found s = Some p \<Longrightarrow> used_at t p \<and> node_digest (mht_nodes t ! p) = ?dg"
    and nf: "\<And>p. sr_found s = None \<Longrightarrow> used_at t p \<Longrightarrow> node_digest (mht_nodes t ! p) \<noteq> ?dg"
    and emp: "\<And>p. sr_empty s = Some p \<Longrightarrow> in_path t ?hk (sr_row s) p \<and> \<not> used_at t p"
    and old: "\<And>q. sr_oldest s = Some q \<Longrightarrow> used_at t q \<and> node_digest (mht_nodes t ! q) \<noteq> ?dg \<and>
        (\<exists>j \<le> ddwMaxUsedRow t. in_path t ?hk j q)"
    and last: "True \<Longrightarrow> sr_found s = None \<Longrightarrow> sr_empty s = None \<Longrightarrow> sr_oldest s \<noteq> None"
    by (rule Search_found [OF wf k, of True]) (rule that; assumption)
  have rn: "ddwRowNum t \<noteq> 0" using mht_wfD(1) [OF wf] by simp
  have S: "mht_SetData (Some t) (Some key) (int (length key)) (Some d) (int (length d)) remove now =
      (if remove \<and> sr_oldest s \<noteq> None \<and> GetUsage (mht_lt t) > 95
       then (case erase_node t (the (sr_oldest s)) of (r, t1) \<Rightarrow>
               if r < 0 then Some (-4, Some t1)
               else ?ch t1 (sr_found s) (if sr_empty s = None then sr_oldest s else sr_empty s)
                      (if sr_empty s = None then 0 else sr_row s) None)
       else ?ch t (sr_found s) (sr_empty s) (sr_row s) (sr_oldest s))"
    using s k rn by (simp add: mht_SetData_def Let_def)
  show ?thesis
  proof (cases "remove \<and> sr_oldest s \<noteq> None \<and> GetUsage (mht_lt t) > 95")
    case False
    have "set_result t D ?dg d (remove \<and> sr_oldest s \<noteq> None) (?ch t (sr_found s) (sr_empty s) (sr_row s) (sr_oldest s))"
    proof (rule mht_choose_sim [OF sim cap f fnd nf _ old])
      show "\<not> used_at t p \<and> sr_row s < ddwRowNum t \<and> (\<exists>j \<le> max (sr_row s) (ddwMaxUsedRow t). in_path t ?hk j p)"
        if "sr_empty s = Some p" for p
        using emp [OF that] by (auto simp: in_path_def intro!: exI [of _ "sr_row s"])
    qed (use last in auto)
    then have "set_result t D ?dg d remove (?ch t (sr_found s) (sr_empty s) (sr_row s) (sr_oldest s))"
      by (rule set_result_mono) simp
    then show ?thesis unfolding S using False by auto
  next
    case True
    then obtain q where q: "sr_oldest s = Some q" by auto
    then have uq: "used_at t q" "node_digest (mht_nodes t ! q) \<noteq> ?dg"
      "\<exists>j \<le> ddwMaxUsedRow t. in_path t ?hk j q" using old by blast+
    obtain t1 m1 where e: "erase_node t q = (0, t1)" "t1 = mht_clear (t\<lparr>mht_lt := Some m1\<rparr>) q"
      and sim1: "mht_sim t1 m1 (M(lt_pos t q := None)) (D(node_digest (mht_nodes t ! q) := None))"
      and m1: "ddwFreeBlockCount m \<le> ddwFreeBlockCount m1" "ddwBlockSize m1 = ddwBlockSize m"
      using erase_node_sim [OF sim uq(1)] by blast
    have ql: "q < length (mht_nodes t)" using uq(1) by (simp add: used_at_def)
    have h1: "mht_hash t1 = mht_hash t" "key_digest t1 key = ?dg" by (simp_all add: e(2) mht_clear_def key_digest_def)
    have cap1: "mht_cap t1 (length key)" using mht_cap_clear [of "t\<lparr>mht_lt := Some m1\<rparr>"] cap ql e(2) by simp
    have u1: "used_at t1 p \<longleftrightarrow> p \<noteq> q \<and> used_at t p" for p
      by (auto simp: e(2) mht_clear_def clear_node_def is_hnode_empty_def)
    have n1: "p \<noteq> q \<Longrightarrow> mht_nodes t1 ! p = mht_nodes t ! p" for p using ql by (simp add: e(2) mht_clear_def)
    have sel: "ddwRowNum t1 = ddwRowNum t" "ddwMaxUsedRow t1 = ddwMaxUsedRow t" "in_path t1 hk j p = in_path t hk j p" for hk j p
      by (simp_all add: e(2) mht_clear_def)
    have "set_result t1 (D(node_digest (mht_nodes t ! q) := None)) (key_digest t1 key) d (remove \<and> None \<noteq> (None :: nat option))
       (mht_choose t1 (sr_found s) (if sr_empty s = None then Some q else sr_empty s)
          (if sr_empty s = None then 0 else sr_row s) None key (int (length key)) (mht_hash t1 key) (Some d) (int (length d)) remove now)"
    proof (rule mht_choose_sim [OF sim1 cap1 lt_fits_more [OF f m1]])
      show "used_at t1 p \<and> node_digest (mht_nodes t1 ! p) = key_digest t1 key" if "sr_found s = Some p" for p
      proof -
        have "p \<noteq> q" using fnd [OF that] uq(2) by auto
        then show ?thesis using fnd [OF that] n1 [of p] h1(2) by (simp add: u1)
      qed
      show "node_digest (mht_nodes t1 ! p) \<noteq> key_digest t1 key" if "sr_found s = None" "used_at t1 p" for p
        using nf [OF that(1)] that(2) n1 [of p] h1(2) by (simp add: u1)
      show "\<not> used_at t1 p \<and> (if sr_empty s = None then 0 else sr_row s) < ddwRowNum t1 \<and>
          (\<exists>j \<le> max (if sr_empty s = None then 0 else sr_row s) (ddwMaxUsedRow t1). in_path t1 (mht_hash t1 key) j p)"
        if p: "(if sr_empty s = None then Some q else sr_empty s) = Some p" for p
      proof (cases "sr_empty s")
        case None
        then show ?thesis using p uq(3) rn unfolding sel h1 by (simp add: u1)
      next
        case (Some e)
        then have "in_path t ?hk (sr_row s) p \<and> \<not> used_at t p" using emp p by simp
        then show ?thesis using Some unfolding sel h1 u1 by (auto simp: in_path_def intro!: exI [of _ "sr_row s"])
      qed
    qed (auto split: if_splits)
    then have r: "set_result t1 (D(node_digest (mht_nodes t ! q) := None)) ?dg d False
       (?ch t1 (sr_found s) (if sr_empty s = None then Some q else sr_empty s) (if sr_empty s = None then 0 else sr_row s) None)"
      using h1 by simp
    have "evicted remove ?dg D (D(node_digest (mht_nodes t ! q) := None))"
      using uq(2) by (rule evictedI) (use True in simp)
    from set_result_trans [OF r this h1(1)] show ?thesis unfolding S using True q e(1) by (cases "sr_empty s") simp_all
  qed
qed

section \<open>Properties\<close>

subsection \<open>Helper lemmas\<close>

lemma lt_nospace:
  assumes "lt_wf m" "length d < 2 ^ 31" "lt_nblocks m d > ddwFreeBlockCount m" "lt_nblocks m d \<le> MAX_BLOCK_COUNT"
  shows "lt_SetData (Some m) pos (Some d) (int (length d)) = Some (-100, pos, Some m)"
proof -
  have "ddwFreeBlockCount m < 2147483648" using lt_wfD(2,12) [OF assms(1)] by simp
  then have s: "s32 (ddwFreeBlockCount m) = int (ddwFreeBlockCount m)" by simp
  have b: "BLOCK_DATA_LEN m \<noteq> 0" using wf_BDL [OF assms(1)] by simp
  show ?thesis
    using assms(3,4) s b lt_block_num_eq [OF assms(1,2)]
    by (auto simp: lt_SetData_def GetEmptyBlock_def)
qed

text \<open>What an empty node holds besides its position does not matter, nor does a larger last row.\<close>

lemma mht_sim_store_unused:
  assumes sim: "mht_sim t m M D" and p: "\<not> used_at t p" and n: "is_hnode_empty n"
  shows "mht_sim (mht_store t p n) m M D"
proof -
  have u: "used_at (mht_store t p n) q \<longleftrightarrow> used_at t q" for q using p n by auto
  have e: "mht_nodes (mht_store t p n) ! q = mht_nodes t ! q" if "used_at t q" for q
    using that p by (cases "q = p") (simp_all add: mht_store_def)
  then have l: "lt_pos (mht_store t p n) q = lt_pos t q" if "used_at t q" for q
    using that by (simp add: lt_pos_def)
  have wf: "mht_wf (mht_store t p n)"
    using mht_simD(1) [OF sim] e unfolding mht_wf_def u by (simp del: node_store)
  show ?thesis
  proof (rule mht_simI [OF wf])
    show "dom M = {lt_pos (mht_store t p n) q |q. used_at (mht_store t p n) q}"
      using mht_simD(4) [OF sim] l unfolding u by force
    show "D dg = Some d \<longleftrightarrow> (\<exists>q. used_at (mht_store t p n) q \<and> node_digest (mht_nodes (mht_store t p n) ! q) = dg \<and>
        M (lt_pos (mht_store t p n) q) = Some d)" for dg d
      using mht_simD(6) [OF sim, of dg d] e l unfolding u by metis
  qed (use mht_simD(2,3,5) [OF sim] l u in auto)
qed

lemma mht_sim_maxrow:
  assumes sim: "mht_sim t m M D" and "ddwMaxUsedRow t \<le> row" "row < ddwRowNum t"
  shows "mht_sim (t\<lparr>ddwMaxUsedRow := row\<rparr>) m M D"
proof -
  let ?t = "t\<lparr>ddwMaxUsedRow := row\<rparr>"
  have s: "used_at ?t q = used_at t q" "lt_pos ?t q = lt_pos t q" "in_path ?t hk i q = in_path t hk i q"
      "row_start ?t i = row_start t i" for q hk i
    by (simp_all add: used_at_def lt_pos_def in_path_def row_start_def)
  have "\<exists>i \<le> row. in_path t (dwHashKey (mht_nodes t ! p)) i p" if "used_at t p" for p
    using mht_wfD(9) [OF mht_simD(1) [OF sim] that] assms(2) le_trans by blast
  then have "mht_wf ?t"
    using mht_wfD(2-8,10) [OF mht_simD(1) [OF sim]] assms(3) unfolding mht_wf_def s by simp
  then show ?thesis using mht_simD(2-6) [OF sim] unfolding mht_sim_def s by simp
qed

lemma mht_sim_iterator:
  assumes sim: "mht_sim t m M D" and "i < ddwHashNodeNum t"
  shows "mht_sim (t\<lparr>ddwEraseIterator := i\<rparr>) m M D"
proof -
  let ?t = "t\<lparr>ddwEraseIterator := i\<rparr>"
  have s: "used_at ?t q = used_at t q" "lt_pos ?t q = lt_pos t q" "in_path ?t hk j q = in_path t hk j q"
      "row_start ?t j = row_start t j" for q hk j
    by (simp_all add: used_at_def lt_pos_def in_path_def row_start_def)
  have "mht_wf ?t"
    using mht_simD(1) [OF sim] assms(2) unfolding mht_wf_def s by simp
  then show ?thesis using mht_simD(2-6) [OF sim] unfolding mht_sim_def s by simp
qed

subsection \<open>The scan for the oldest node\<close>

definition scan_dist :: "MhtMem \<Rightarrow> nat \<Rightarrow> nat" where
  "scan_dist t it = (if it < ddwEraseIterator t then ddwEraseIterator t - it
                     else ddwHashNodeNum t - it + ddwEraseIterator t)"

text \<open>The nodes in the order of the scan: from the iterator to the end and then from the beginning. Candidates are the first
  100 of them that are used and not the node to keep.\<close>

definition scan_from :: "MhtMem \<Rightarrow> nat \<Rightarrow> nat list" where
  "scan_from t it = (if it < ddwEraseIterator t then [it..<ddwEraseIterator t] else [it..<ddwHashNodeNum t] @ [0..<ddwEraseIterator t])"

definition erase_candidates :: "MhtMem \<Rightarrow> nat \<Rightarrow> nat list" where
  "erase_candidates t d = take 100 (filter (\<lambda>p. p \<noteq> d \<and> used_at t p) (scan_from t (ddwEraseIterator t)))"

fun pick_older :: "MhtMem \<Rightarrow> nat \<times> nat option \<Rightarrow> nat \<Rightarrow> nat \<times> nat option" where
  "pick_older t (ot, old) p = (if dwAccessTime (mht_nodes t ! p) < ot then (dwAccessTime (mht_nodes t ! p), Some p) else (ot, old))"

lemma scan_from_step:
  assumes "mht_wf t" "it < ddwHashNodeNum t" "it1 = (if it + 1 \<ge> ddwHashNodeNum t then 0 else it + 1)"
  shows "scan_from t it = it # (if it1 = ddwEraseIterator t then [] else scan_from t it1)"
  using assms(2,3) mht_wfD(7) [OF assms(1)] by (auto simp: scan_from_def upt_conv_Cons)

lemma erase_scan_fold:
  assumes "mht_wf t" "it < ddwHashNodeNum t"
  shows "\<exists>it'. it' < ddwHashNodeNum t \<and> erase_scan t d cnt it ot old =
    Some (it', snd (foldl (pick_older t) (ot, old) (take (100 - cnt) (filter (\<lambda>p. p \<noteq> d \<and> used_at t p) (scan_from t it)))))"
  using assms
proof (induction "scan_dist t it" arbitrary: it cnt ot old rule: less_induct)
  case less
  note wf = mht_wfD [OF less.prems(1)]
  let ?P = "\<lambda>p. p \<noteq> d \<and> used_at t p"
  define it1 where "it1 = (if it + 1 \<ge> ddwHashNodeNum t then 0 else it + 1)"
  have b: "it1 < ddwHashNodeNum t" "it < length (mht_nodes t)" using less.prems(2) wf(4) by (auto simp: it1_def)
  have m: "it1 \<noteq> ddwEraseIterator t \<Longrightarrow> scan_dist t it1 < scan_dist t it"
    using less.prems(2) wf(7) by (auto simp: it1_def scan_dist_def)
  note sf = scan_from_step [OF less.prems it1_def]
  show ?case
  proof (cases "cnt \<ge> 100")
    case True
    then show ?thesis using less.prems(2) by (simp add: erase_scan.simps)
  next
    case False
    have u: "?P it \<longleftrightarrow> it \<noteq> d \<and> \<not> is_hnode_empty (mht_nodes t ! it)" using b(2) by (simp add: used_at_def)
    define cnt1 where "cnt1 = (if ?P it then cnt + 1 else cnt)"
    define s1 where "s1 = (if ?P it then pick_older t (ot, old) it else (ot, old))"
    have run: "erase_scan t d cnt it ot old = (if it1 = ddwEraseIterator t then Some (it1, snd s1) else erase_scan t d cnt1 it1 (fst s1) (snd s1))"
      using False b(2) by (subst erase_scan.simps, simp only: Let_def it1_def [symmetric]) (auto simp: cnt1_def s1_def u)
    have fold: "foldl (pick_older t) (ot, old) (take (100 - cnt) (filter ?P (it # ps))) = foldl (pick_older t) s1 (take (100 - cnt1) (filter ?P ps))" for ps
    proof (cases "?P it")
      case True
      then have "100 - cnt = Suc (100 - cnt1)" using False by (simp add: cnt1_def)
      then show ?thesis using True by (simp add: s1_def del: pick_older.simps)
    next
      case no: False
      then have "filter ?P (it # ps) = filter ?P ps" "s1 = (ot, old)" "cnt1 = cnt" by (auto simp: s1_def cnt1_def)
      then show ?thesis by simp
    qed
    show ?thesis
    proof (cases "it1 = ddwEraseIterator t")
      case True
      then show ?thesis using run fold [of "[]"] b(1) unfolding sf by (auto simp del: pick_older.simps)
    next
      case False
      obtain it' where "it' < ddwHashNodeNum t" "erase_scan t d cnt1 it1 (fst s1) (snd s1) =
          Some (it', snd (foldl (pick_older t) (fst s1, snd s1) (take (100 - cnt1) (filter ?P (scan_from t it1)))))"
        using less.hyps [OF m [OF False] less.prems(1) b(1)] by blast
      then show ?thesis using run fold [of "scan_from t it1"] False unfolding sf by (simp del: pick_older.simps)
    qed
  qed
qed

lemma pick_older_fold:
  "case foldl (pick_older t) (ot, None) ps of (ot', old') \<Rightarrow>
     (case old' of None \<Rightarrow> ot' = ot \<and> (\<forall>p \<in> set ps. \<not> dwAccessTime (mht_nodes t ! p) < ot)
      | Some q \<Rightarrow> q \<in> set ps \<and> ot' = dwAccessTime (mht_nodes t ! q) \<and> ot' < ot \<and> (\<forall>p \<in> set ps. ot' \<le> dwAccessTime (mht_nodes t ! p)))"
proof (induction ps rule: rev_induct)
  case (snoc p ps)
  obtain ot' old' where f: "foldl (pick_older t) (ot, None) ps = (ot', old')" by fastforce
  then show ?case using snoc by (cases old') auto
qed simp

subsection \<open>Walking over the nodes\<close>

lemma next_loop_spec:
  assumes "mx \<le> length (mht_nodes t)" "it \<le> mx"
  shows "next_loop t mx it = Some (case filter (used_at t) [it..<mx] of [] \<Rightarrow> mht_End | p # _ \<Rightarrow> p)"
  using assms
proof (induction t mx it rule: next_loop.induct)
  case (1 t mx it)
  show ?case
  proof (cases "it < mx")
    case True
    then have "[it..<mx] = it # [Suc it..<mx]" by (simp add: upt_conv_Cons)
    moreover have "used_at t it \<longleftrightarrow> \<not> is_hnode_empty (mht_nodes t ! it)" using 1(2) True by (simp add: used_at_def)
    ultimately show ?thesis using 1 True by (subst next_loop.simps) simp
  next
    case False
    then show ?thesis by (subst next_loop.simps) simp
  qed
qed

lemma max_used_node_eq:
  assumes "mht_wf t"
  shows "max_used_node t = row_start t (Suc (ddwMaxUsedRow t))"
    "row_start t (Suc (ddwMaxUsedRow t)) \<le> length (mht_nodes t)"
proof -
  note wf = mht_wfD [OF assms]
  show le: "row_start t (Suc (ddwMaxUsedRow t)) \<le> length (mht_nodes t)"
    using row_start_mono [of "Suc (ddwMaxUsedRow t)" "ddwRowNum t" t] wf(1,3) by simp
  have "row_start t (ddwMaxUsedRow t) + auRowsNodeNum t (ddwMaxUsedRow t) < 2 ^ 64"
    using le wf(6) by (simp add: row_start_Suc)
  then show "max_used_node t = row_start t (Suc (ddwMaxUsedRow t))"
    using wf(1,4) le wf(5) [OF wf(1)] by (simp add: max_used_node_def Let_def row_start_Suc u64n_def)
qed

lemma used_below_max:
  assumes "mht_wf t" "used_at t p"
  shows "p < max_used_node t"
proof -
  obtain i where i: "i \<le> ddwMaxUsedRow t" "in_path t (dwHashKey (mht_nodes t ! p)) i p"
    using mht_wfD(9) [OF assms] by blast
  have "p < row_start t (Suc i)" by (rule in_path_bound(2) [OF assms(1) i(2)])
  also have "\<dots> \<le> row_start t (Suc (ddwMaxUsedRow t))" using i(1) by (intro row_start_mono) simp
  finally show ?thesis using max_used_node_eq(1) [OF assms(1)] by simp
qed

text \<open>\<open>for (it = Begin(); it != End(); it = Next(it))\<close>, for at most \<open>n\<close> rounds.\<close>

fun mht_walk :: "nat \<Rightarrow> MultiHashTable \<Rightarrow> nat option \<Rightarrow> nat list option" where
  "mht_walk 0 t it = (if it = Some mht_End then Some [] else None)"
| "mht_walk (Suc n) t it =
     (case it of
        None \<Rightarrow> None
      | Some p \<Rightarrow> if p = mht_End then Some [] else map_option (Cons p) (mht_walk n t (mht_Next t p)))"

lemma filter_upt_next:
  assumes "filter P [a..<n] = p # ps"
  shows "ps = filter P [Suc p..<n]" "a \<le> p" "p < n" "P p"
proof -
  have "filter P [a..<n] = p # ps \<Longrightarrow> ps = filter P [Suc p..<n] \<and> a \<le> p \<and> p < n \<and> P p"
  proof (induction "n - a" arbitrary: a)
    case (Suc k)
    then have "a < n" by simp
    then have u: "[a..<n] = a # [Suc a..<n]" by (rule upt_conv_Cons)
    have "k = n - Suc a" using Suc.hyps(2) by simp
    from Suc.hyps(1) [OF this] show ?case using Suc.prems u \<open>a < n\<close> by (cases "P a") auto
  qed simp
  then show "ps = filter P [Suc p..<n]" "a \<le> p" "p < n" "P p" using assms by blast+
qed

lemma mht_walk_from:
  assumes wf: "mht_wf t" and a: "a \<le> max_used_node t"
    and n: "length (filter (used_at t) [a..<max_used_node t]) \<le> n"
  shows "mht_walk n (Some t) (next_loop t (max_used_node t) a) = Some (filter (used_at t) [a..<max_used_node t])"
  using a n
proof (induction n arbitrary: a)
  case 0
  then show ?case using max_used_node_eq [OF wf] by (simp add: next_loop_spec)
next
  case (Suc n)
  let ?mx = "max_used_node t"
  have mx: "?mx \<le> length (mht_nodes t)" using max_used_node_eq [OF wf] by simp
  show ?case
  proof (cases "filter (used_at t) [a..<?mx]")
    case Nil
    then show ?thesis using Suc mx by (simp add: next_loop_spec)
  next
    case (Cons p ps)
    note p = filter_upt_next [OF Cons]
    have b: "p < 2 ^ 64 - 1" using p(3) mx mht_wfD(6) [OF wf] by simp
    have "mht_Next (Some t) p = next_loop t ?mx (Suc p)"
      using b by (simp add: mht_Next_def u64n_def)
    then show ?thesis
      using Suc.IH [of "Suc p"] Suc.prems Cons p mx b by (simp add: next_loop_spec mht_End_def)
  qed
qed

subsection \<open>A small table for the witnesses\<close>

text \<open>Two rows of three and two nodes over the block store \<open>lt_demo\<close>; keys have up to nine bytes.\<close>

definition mht_demo :: MhtMem where
  "mht_demo = \<lparr>ddwTotalShmSize = 0, ddwHashNodeNum = 5, ddwHashNodeSize = 24, ddwDataBlockSize = 10, ddwDataBlockNum = 6,
     ddwRowNum = 2, auRowsNodeNum = (\<lambda>_. 0)(0 := 3, 1 := 2), auRowsStartNode = (\<lambda>_. 0)(1 := 3),
     ddwMaxUsedRow = 0, ddwEraseIterator = 0, cUseAccessSeq = False,
     mht_nodes = replicate 5 \<lparr>dwHashKey = 0, dwAccessTime = 0, ddwLtPos = 0, cKeyLen = 0, acKey = replicate 9 0\<rparr>,
     mht_lt = Some lt_demo, mht_hash = DefaultHashFunc\<rparr>"

lemma all_less_2: "(\<forall>i<2. P i) \<longleftrightarrow> P 0 \<and> P (1::nat)"
  by (auto simp: less_2_cases_iff)

lemma mht_demo_sel [simp]:
  "ddwHashNodeNum mht_demo = 5" "ddwRowNum mht_demo = 2" "auRowsNodeNum mht_demo = (\<lambda>_. 0)(0 := 3, 1 := 2)"
  "auRowsStartNode mht_demo = (\<lambda>_. 0)(1 := 3)" "ddwMaxUsedRow mht_demo = 0" "ddwEraseIterator mht_demo = 0"
  "length (mht_nodes mht_demo) = 5" "mht_lt mht_demo = Some lt_demo" "mht_hash mht_demo = DefaultHashFunc"
  by (simp_all add: mht_demo_def)

lemma mht_demo_unused [simp]: "\<not> used_at mht_demo p"
  by (simp add: used_at_def mht_demo_def is_hnode_empty_def)

lemma mht_demo_rows [simp]: "row_start mht_demo 0 = 0" "row_start mht_demo (Suc 0) = 3" "row_start mht_demo 2 = 5"
  by (simp_all add: row_start_def eval_nat_numeral)

lemma mht_demo_sim: "mht_sim mht_demo lt_demo Map.empty Map.empty"
proof (rule mht_simI)
  show "mht_wf mht_demo" unfolding mht_wf_def by (simp add: all_less_2)
qed (simp_all add: lt_demo_rep)

lemma mht_demo_cap: "n \<le> 9 \<Longrightarrow> mht_cap mht_demo n"
  by (simp add: mht_cap_def mht_demo_def)

subsection \<open>The key-value interface\<close>

text \<open>What a client of the table relies on: reading returns what the represented map holds for the
  digest of the key, storing updates the map at that digest and may drop one other entry, and erasing
  removes the entry.\<close>

locale kv_store =
  fixes rep :: "'s \<Rightarrow> ('d \<Rightarrow> 'v option) \<Rightarrow> bool"
    and digest :: "'s \<Rightarrow> 'k \<Rightarrow> 'd"
    and key_ok :: "'k \<Rightarrow> bool"
    and fits :: "'s \<Rightarrow> 'k \<Rightarrow> 'v \<Rightarrow> bool"
    and room :: "'s \<Rightarrow> 'v \<Rightarrow> bool"
    and get :: "'s \<Rightarrow> 'k \<Rightarrow> ('v option \<times> 's) option"
    and put :: "'s \<Rightarrow> 'k \<Rightarrow> 'v \<Rightarrow> (int \<times> 's) option"
    and del :: "'s \<Rightarrow> 'k \<Rightarrow> (int \<times> 's) option"
  assumes get_rep: "\<lbrakk>rep s D; key_ok k; \<And>v. D (digest s k) = Some v \<Longrightarrow> room s v\<rbrakk> \<Longrightarrow>
      \<exists>s'. get s k = Some (D (digest s k), s') \<and> rep s' D \<and> digest s' = digest s"
    and put_rep: "\<lbrakk>rep s D; key_ok k; fits s k v\<rbrakk> \<Longrightarrow>
      \<exists>r s' D0. put s k v = Some (r, s') \<and> digest s' = digest s \<and>
        (D0 = D \<or> (\<exists>d. d \<noteq> digest s k \<and> D0 = D(d := None))) \<and>
        (r = 0 \<and> rep s' (D0(digest s k \<mapsto> v)) \<or> r < 0 \<and> rep s' D0)"
    and del_rep: "\<lbrakk>rep s D; key_ok k\<rbrakk> \<Longrightarrow>
      \<exists>s'. del s k = Some (if D (digest s k) = None then 0 else 1, s') \<and> rep s' (D(digest s k := None)) \<and>
        digest s' = digest s"
begin

lemma put_get:
  assumes "rep s D" "key_ok k" "fits s k v" "put s k v = Some (0, s')" "room s' v"
  shows "\<exists>s''. get s' k = Some (Some v, s'')"
proof -
  obtain D0 where d: "digest s' = digest s" "rep s' (D0(digest s k \<mapsto> v))"
    using put_rep [OF assms(1-3)] assms(4) by auto
  from get_rep [OF d(2) assms(2)] show ?thesis using d(1) assms(5) by auto
qed

lemma put_others:
  assumes "rep s D" "key_ok k" "fits s k v" "put s k v = Some (r, s')" "key_ok k'" "digest s k' \<noteq> digest s k"
    and "\<And>w. D (digest s k') = Some w \<Longrightarrow> room s' w"
  shows "\<exists>w s''. get s' k' = Some (w, s'') \<and> (w = D (digest s k') \<or> w = None)"
proof -
  obtain D0 where d: "digest s' = digest s" "D0 = D \<or> (\<exists>d. D0 = D(d := None))"
      "rep s' (D0(digest s k \<mapsto> v)) \<or> rep s' D0"
    using put_rep [OF assms(1-3)] assms(4) by auto
  then obtain D' where D': "rep s' D'" "D' (digest s k') = D0 (digest s k')" using assms(6) by fastforce
  have D0: "D0 (digest s k') = D (digest s k') \<or> D0 (digest s k') = None" using d(2) by (auto split: if_splits)
  have "room s' w" if "D' (digest s' k') = Some w" for w using that D' D0 d(1) assms(7) by auto
  from get_rep [OF D'(1) assms(5) this] show ?thesis using d(1) D'(2) D0 by auto
qed

lemma del_get:
  assumes "rep s D" "key_ok k"
  shows "\<exists>r s' s''. del s k = Some (r, s') \<and> get s' k = Some (None, s'')"
proof -
  obtain s' where s': "del s k = Some (if D (digest s k) = None then 0 else 1, s')"
      "rep s' (D(digest s k := None))" "digest s' = digest s"
    using del_rep [OF assms] by blast
  from get_rep [OF s'(2) assms(2)] s' show ?thesis by auto
qed

end

text \<open>The table provides it, with a buffer of \<open>HASH_MAX_DATA_LENGTH\<close> bytes for reading and with
  \<open>ForceSetData\<close> for storing.\<close>

definition kv_rep :: "MhtMem \<Rightarrow> (digest \<Rightarrow> byte list option) \<Rightarrow> bool" where
  "kv_rep t D \<longleftrightarrow> (\<exists>m M. mht_sim t m M D \<and> (\<forall>dg d. D dg = Some d \<longrightarrow> d \<noteq> []))"

definition kv_key_ok :: "byte list \<Rightarrow> bool" where
  "kv_key_ok k \<longleftrightarrow> 0 < length k \<and> length k < 2 ^ 63"

definition kv_fits :: "MhtMem \<Rightarrow> byte list \<Rightarrow> byte list \<Rightarrow> bool" where
  "kv_fits t k d \<longleftrightarrow> mht_cap t (length k) \<and> (\<exists>m. mht_lt t = Some m \<and> lt_fits m d)"

definition kv_room :: "MhtMem \<Rightarrow> byte list \<Rightarrow> bool" where
  "kv_room t d \<longleftrightarrow> (\<exists>m. mht_lt t = Some m \<and> lt_room m d (int HASH_MAX_DATA_LENGTH))"

definition kv_get :: "bool \<Rightarrow> nat \<Rightarrow> MhtMem \<Rightarrow> byte list \<Rightarrow> (byte list option \<times> MhtMem) option" where
  "kv_get upd now t k =
     (case mht_GetData (Some t) (Some k) (int (length k)) True (int HASH_MAX_DATA_LENGTH) upd now of
        Some (rd, Some t') \<Rightarrow> if rd_ret rd < 0 then None
                              else Some (if rd_len rd = 0 then None else Some (rd_data rd), t')
      | _ \<Rightarrow> None)"

definition kv_put :: "nat \<Rightarrow> MhtMem \<Rightarrow> byte list \<Rightarrow> byte list \<Rightarrow> (int \<times> MhtMem) option" where
  "kv_put now t k d =
     (case ForceSetData (Some t) (Some k) (int (length k)) (Some d) (int (length d)) now of
        Some (r, Some t') \<Rightarrow> Some (r, t') | _ \<Rightarrow> None)"

definition kv_del :: "MhtMem \<Rightarrow> byte list \<Rightarrow> (int \<times> MhtMem) option" where
  "kv_del t k = (case mht_EraseData (Some t) (Some k) (int (length k)) of
                   Some (r, Some t') \<Rightarrow> Some (r, t') | _ \<Rightarrow> None)"

lemma key_digest_hash: "mht_hash t' = mht_hash t \<Longrightarrow> key_digest t' = key_digest t"
  by (intro ext) (simp add: key_digest_def)

lemma kv_get_rep:
  assumes "kv_rep t D" "kv_key_ok k" "\<And>d. D (key_digest t k) = Some d \<Longrightarrow> kv_room t d"
  shows "\<exists>t'. kv_get upd now t k = Some (D (key_digest t k), t') \<and> kv_rep t' D \<and> key_digest t' = key_digest t"
proof -
  obtain m M where sim: "mht_sim t m M D" and ne: "\<And>dg d. D dg = Some d \<Longrightarrow> d \<noteq> []"
    using assms(1) by (auto simp: kv_rep_def)
  have k: "0 < length k" "length k < 2 ^ 63" using assms(2) by (auto simp: kv_key_ok_def)
  have lt: "mht_lt t = Some m" by (rule mht_simD(2) [OF sim])
  have h: "1 \<le> int HASH_MAX_DATA_LENGTH" by (simp add: HASH_MAX_DATA_LENGTH_def)
  obtain rd t' where g: "mht_GetData (Some t) (Some k) (int (length k)) True (int HASH_MAX_DATA_LENGTH) upd now = Some (rd, Some t')"
    and t': "mht_sim t' m M D" "mht_hash t' = mht_hash t"
    and c: "case D (key_digest t k) of
        None \<Rightarrow> rd_ret rd = 0 \<and> rd_data rd = [] \<and> rd_len rd = 0 \<and> t' = t
      | Some d \<Rightarrow> lt_room m d (int HASH_MAX_DATA_LENGTH) \<longrightarrow> rd_ret rd = 0 \<and> rd_data rd = d \<and> rd_len rd = int (length d)"
    using mht_GetData_sim [OF sim k h, of upd now] by (cases "D (key_digest t k)") auto
  have "kv_get upd now t k = Some (D (key_digest t k), t')"
    using g c assms(3) lt ne by (cases "D (key_digest t k)") (auto simp: kv_get_def kv_room_def)
  then show ?thesis using t' ne key_digest_hash [OF t'(2)] by (auto simp: kv_rep_def)
qed

lemma kv_put_rep:
  assumes "kv_rep t D" "kv_key_ok k" "kv_fits t k d"
  shows "\<exists>r t' D0. kv_put now t k d = Some (r, t') \<and> key_digest t' = key_digest t \<and>
     (D0 = D \<or> (\<exists>old. old \<noteq> key_digest t k \<and> D0 = D(old := None))) \<and>
     (r = 0 \<and> kv_rep t' (D0(key_digest t k \<mapsto> d)) \<or> r < 0 \<and> kv_rep t' D0)"
proof -
  obtain m M where sim: "mht_sim t m M D" and ne: "\<And>dg d. D dg = Some d \<Longrightarrow> d \<noteq> []"
    using assms(1) by (auto simp: kv_rep_def)
  have k: "0 < length k" "length k < 2 ^ 63" using assms(2) by (auto simp: kv_key_ok_def)
  have f: "mht_cap t (length k)" "lt_fits m d" using assms(3) mht_simD(2) [OF sim] by (auto simp: kv_fits_def)
  obtain r t' m' M' D0 where s: "mht_SetData (Some t) (Some k) (int (length k)) (Some d) (int (length d)) True now = Some (r, Some t')"
    and h: "mht_hash t' = mht_hash t" and e: "evicted True (key_digest t k) D D0"
    and c: "r = 0 \<and> mht_sim t' m' M' (D0(key_digest t k \<mapsto> d)) \<or> r \<in> {-5, -8} \<and> mht_sim t' m' M' D0"
    using mht_SetData_sim [OF sim k f, of True now] unfolding set_result_def by blast
  have "d \<noteq> []" using f(2) by (simp add: lt_fits_def)
  moreover have "D0 dg = Some x \<Longrightarrow> x \<noteq> []" for dg x
    using e ne unfolding evicted_def by (metis fun_upd_other fun_upd_same option.distinct(1))
  ultimately have "r = 0 \<and> kv_rep t' (D0(key_digest t k \<mapsto> d)) \<or> r < 0 \<and> kv_rep t' D0"
    using c by (auto simp: kv_rep_def)
  moreover have "kv_put now t k d = Some (r, t')" using s by (simp add: kv_put_def ForceSetData_def)
  ultimately show ?thesis using e key_digest_hash [OF h] by (auto simp: evicted_def)
qed

lemma kv_del_rep:
  assumes "kv_rep t D" "kv_key_ok k"
  shows "\<exists>t'. kv_del t k = Some (if D (key_digest t k) = None then 0 else 1, t') \<and>
     kv_rep t' (D(key_digest t k := None)) \<and> key_digest t' = key_digest t"
proof -
  obtain m M where sim: "mht_sim t m M D" and ne: "\<And>dg d. D dg = Some d \<Longrightarrow> d \<noteq> []"
    using assms(1) by (auto simp: kv_rep_def)
  have k: "0 < length k" "length k < 2 ^ 63" using assms(2) by (auto simp: kv_key_ok_def)
  obtain t' m' M' where e: "mht_EraseData (Some t) (Some k) (int (length k)) = Some (if D (key_digest t k) = None then 0 else 1, Some t')"
      and s: "mht_sim t' m' M' (D(key_digest t k := None))" and h: "mht_hash t' = mht_hash t"
    using mht_EraseData_sim [OF sim k] by blast
  have "(D(key_digest t k := None)) dg = Some x \<Longrightarrow> x \<noteq> []" for dg x
    using ne by (metis fun_upd_other fun_upd_same option.distinct(1))
  then have "kv_rep t' (D(key_digest t k := None))" using s unfolding kv_rep_def by blast
  then show ?thesis using key_digest_hash [OF h] e by (simp add: kv_del_def)
qed

interpretation kv: kv_store kv_rep key_digest kv_key_ok kv_fits kv_room "kv_get upd now'" "kv_put now" kv_del
  for upd now' now
proof unfold_locales
  fix t D k
  assume "kv_rep t D" "kv_key_ok k" "\<And>v. D (key_digest t k) = Some v \<Longrightarrow> kv_room t v"
  then show "\<exists>t'. kv_get upd now' t k = Some (D (key_digest t k), t') \<and> kv_rep t' D \<and> key_digest t' = key_digest t"
    by (rule kv_get_rep)
next
  fix t D k v
  assume "kv_rep t D" "kv_key_ok k" "kv_fits t k v"
  then show "\<exists>r t' D0. kv_put now t k v = Some (r, t') \<and> key_digest t' = key_digest t \<and>
     (D0 = D \<or> (\<exists>old. old \<noteq> key_digest t k \<and> D0 = D(old := None))) \<and>
     (r = 0 \<and> kv_rep t' (D0(key_digest t k \<mapsto> v)) \<or> r < 0 \<and> kv_rep t' D0)"
    by (rule kv_put_rep)
next
  fix t D k
  assume "kv_rep t D" "kv_key_ok k"
  then show "\<exists>t'. kv_del t k = Some (if D (key_digest t k) = None then 0 else 1, t') \<and>
     kv_rep t' (D(key_digest t k := None)) \<and> key_digest t' = key_digest t"
    by (rule kv_del_rep)
qed

text \<open>A buffer of zero bytes.\<close>

definition zero_buffer :: MhtBuffer where
  "zero_buffer = \<lparr>buf_nodes = (\<lambda>n sz. replicate n \<lparr>dwHashKey = 0, dwAccessTime = 0, ddwLtPos = 0, cKeyLen = 0,
                                                acKey = replicate (sz - 15) 0\<rparr>),
                  buf_blocks = (\<lambda>n sz. replicate n \<lparr>ddwNext = 0, ddwLengthInBlock = 0, bufData = replicate (sz - 8) 0\<rparr>)\<rparr>"

lemma lt_Init_zero:
  assumes "sizeof_LinkTableHead + 3 * sz \<le> dsz" "dsz \<le> 2 ^ 36" "32 \<le> sz" "sz \<le> 8192" and n: "n = EvalBlockCount dsz sz"
  shows "\<exists>m. lt_Init lt (Some (replicate n \<lparr>ddwNext = 0, ddwLengthInBlock = 0, bufData = replicate (sz - 8) 0\<rparr>)) dsz n sz = (0, Some m) \<and>
    lt_rep m Map.empty"
proof -
  have n': "n = (dsz - sizeof_LinkTableHead) div sz" using assms(1,2) by (simp add: n EvalBlockCount_def)
  then have le: "n * sz + sizeof_LinkTableHead \<le> dsz" using assms(1) by (metis add.commute add_leE div_times_less_eq_dividend le_diff_conv2)
  have n3: "3 \<le> n" unfolding n' using assms(1,3) by (intro div_le_mono [of "3 * sz" _ sz, simplified, THEN order_trans [rotated]]) (auto simp: less_eq_div_iff_mult_less_eq)
  have "n * 32 \<le> n * sz" using assms(3) by (rule mult_le_mono2)
  then have "n * 32 \<le> 2 ^ 36" using le assms(2) by linarith
  then have nb: "n \<le> 2 ^ 31" by simp
  have "EvalBufferSize n sz \<le> dsz" using le assms(2) by (simp add: EvalBufferSize_def add.commute mult.commute)
  from lt_Init_ok [of "replicate n \<lparr>ddwNext = 0, ddwLengthInBlock = 0, bufData = replicate (sz - 8) 0\<rparr>" n sz dsz lt] this n3 nb assms(3,4)
  obtain m where "lt_Init lt (Some (replicate n \<lparr>ddwNext = 0, ddwLengthInBlock = 0, bufData = replicate (sz - 8) 0\<rparr>)) dsz n sz = (0, Some m)"
    "lt_inv m {}" by auto
  then show ?thesis by (auto simp: lt_rep_def)
qed

lemma unused_sim:
  assumes "mht_wf t" "mht_lt t = Some m" "lt_rep m Map.empty" "\<And>p. \<not> used_at t p"
  shows "mht_sim t m Map.empty Map.empty"
  by (rule mht_simI) (use assms in auto)

subsection \<open>Statements\<close>

text \<open>(C16) \<open>SetData\<close> refines a map update. On a table that represents \<open>D\<close>, for a key that the nodes
  have room for and data that the block store has room for, the call returns. With code 0 the table
  represents \<open>D\<close> with the data at the digest of the key; with -5 (no node) or -8 (block store failure)
  nothing was stored. In each case at most one other entry was dropped, and only if the caller allowed it.\<close>

theorem mht_SetData_refines:
  assumes "mht_sim t m M D" and "0 < length key" and "length key < 2 ^ 63"
    and "mht_cap t (length key)" and "lt_fits m d"
  shows "\<exists>ret t' m' M' D0.
     mht_SetData (Some t) (Some key) (int (length key)) (Some d) (int (length d)) remove now = Some (ret, Some t') \<and>
     (D0 = D \<or> remove \<and> (\<exists>old. old \<noteq> key_digest t key \<and> D0 = D(old := None))) \<and>
     (ret = 0 \<and> mht_sim t' m' M' (D0(key_digest t key \<mapsto> d)) \<or> ret \<in> {-5, -8} \<and> mht_sim t' m' M' D0)"
  using mht_SetData_sim [OF assms, of remove now] unfolding set_result_def evicted_def by blast

theorem mht_SetData_refines_witness:
  "\<exists>ret t' m' M'. mht_SetData (Some mht_demo) (Some [3]) 1 (Some [1, 2, 3]) 3 False 7 = Some (ret, Some t') \<and>
     (ret = 0 \<and> mht_sim t' m' M' [key_digest mht_demo [3] \<mapsto> [1, 2, 3]] \<or> ret < 0 \<and> mht_sim t' m' M' Map.empty)"
  using mht_SetData_refines [OF mht_demo_sim, of "[3]" "[1, 2, 3]" False 7] mht_demo_cap [of 1] lt_demo_fits
  by (auto; blast)

text \<open>(C17) What \<open>ForceSetData\<close> stored is what \<open>GetData\<close> or \<open>PeekData\<close> then reads, provided the nodes have room for the key and the block
  store has more free blocks than the data needs (\<open>kv_fits\<close>): after a call with code 0, reading the key into a buffer of
  \<open>HASH_MAX_DATA_LENGTH\<close> bytes, when the blocks of the data fit it (\<open>kv_room\<close>), gives the data. The condition is needed: when the free
  blocks do not suffice the code can be 0 and the key absent, see \<open>mht_SetData_silent_loss\<close>.\<close>

theorem mht_SetData_GetData:
  assumes "kv_rep t D" and "kv_key_ok key" and "kv_fits t key d"
    and "ForceSetData (Some t) (Some key) (int (length key)) (Some d) (int (length d)) now = Some (0, Some t')"
    and "kv_room t' d"
  shows "\<exists>rd t''. mht_GetData (Some t') (Some key) (int (length key)) True (int HASH_MAX_DATA_LENGTH) upd now' =
     Some (rd, Some t'') \<and> rd_ret rd \<ge> 0 \<and> rd_data rd = d \<and> rd_len rd \<noteq> 0"
proof -
  have "kv_put now t key d = Some (0, t')" using assms(4) by (simp add: kv_put_def)
  from kv.put_get [OF assms(1-3) this assms(5), where upd = upd and now' = now'] show ?thesis
    by (auto simp: kv_get_def split: option.splits if_splits)
qed

text \<open>(C18) Erasing: the call returns 1 when the key was present and 0 otherwise, the table then
  represents the map without the key, and a read reports it as absent (code 0, length 0).\<close>

theorem mht_EraseData_refines:
  assumes "kv_rep t D" and "kv_key_ok key"
  shows "\<exists>t'. mht_EraseData (Some t) (Some key) (int (length key)) =
       Some (if D (key_digest t key) = None then 0 else 1, Some t') \<and> kv_rep t' (D(key_digest t key := None)) \<and>
     (\<exists>rd t''. mht_GetData (Some t') (Some key) (int (length key)) True (int HASH_MAX_DATA_LENGTH) upd now =
       Some (rd, Some t'') \<and> rd_ret rd \<ge> 0 \<and> rd_len rd = 0)"
proof -
  obtain t' where t': "kv_del t key = Some (if D (key_digest t key) = None then 0 else 1, t')"
     "kv_rep t' (D(key_digest t key := None))"
    using kv.del_rep [OF assms] by blast
  moreover obtain t'' where "kv_get upd now t' key = Some (None, t'')"
    using kv.del_get [OF assms, where upd = upd and now' = now] t'(1) by auto
  ultimately show ?thesis
    by (auto simp: kv_get_def kv_del_def split: option.splits if_splits)
qed

text \<open>(C19) An absent key is reported with code 0 and length 0 and leaves the table as it is; a present
  one is read in full when the buffer has room for its blocks. A read never changes the map, whether
  or not it updates the access time.\<close>

theorem mht_GetData_refines:
  assumes "mht_sim t m M D" and "0 < length key" and "length key < 2 ^ 63" and "1 \<le> n"
  shows "\<exists>rd t'. mht_GetData (Some t) (Some key) (int (length key)) True n upd now = Some (rd, Some t') \<and>
     mht_sim t' m M D \<and>
     (case D (key_digest t key) of
        None \<Rightarrow> rd_ret rd = 0 \<and> rd_len rd = 0 \<and> t' = t
      | Some d \<Rightarrow> lt_room m d n \<longrightarrow> rd_ret rd = 0 \<and> rd_data rd = d \<and> rd_len rd = int (length d))"
  using mht_GetData_sim [OF assms, of upd now] by (auto split: option.splits)

theorem mht_GetData_refines_witness:
  "\<exists>rd t'. mht_GetData (Some mht_demo) (Some [3]) 1 True 100 True 7 = Some (rd, Some t') \<and>
     rd_ret rd = 0 \<and> rd_len rd = 0 \<and> t' = mht_demo"
  using mht_GetData_refines [OF mht_demo_sim, of "[3]" 100 True 7] by auto

text \<open>(C20) The scan for a node to replace ends on every table, whatever node the caller wants to keep. Its candidates are the first 100
  used nodes other than that one, from the erase iterator on and around the table. The scan erases the candidate with the smallest access
  time and returns 0; it returns -7, with the map as it is, exactly when no candidate has an access time below 4294967295.\<close>

theorem SearchAndEraseOldestOne_evicts:
  assumes "mht_sim t m M D"
  shows "\<exists>t' m' M'.
     if \<forall>p \<in> set (erase_candidates t d). dwAccessTime (mht_nodes t ! p) \<ge> 2 ^ 32 - 1
     then SearchAndEraseOldestOne t d = Some (-7, t') \<and> mht_sim t' m' M' D
     else SearchAndEraseOldestOne t d = Some (0, t') \<and>
       (\<exists>q \<in> set (erase_candidates t d). (\<forall>p \<in> set (erase_candidates t d). dwAccessTime (mht_nodes t ! q) \<le> dwAccessTime (mht_nodes t ! p)) \<and>
          mht_sim t' m' M' (D(node_digest (mht_nodes t ! q) := None)))"
proof -
  note wf = mht_wfD [OF mht_simD(1) [OF assms]]
  have ne: "\<not> ddwEraseIterator t \<ge> ddwHashNodeNum t" using wf(7) by simp
  let ?f = "foldl (pick_older t) (2 ^ 32 - 1, None) (erase_candidates t d)"
  obtain it where it: "it < ddwHashNodeNum t" "erase_scan t d 0 (ddwEraseIterator t) (2 ^ 32 - 1) None = Some (it, snd ?f)"
    using erase_scan_fold [OF mht_simD(1) [OF assms] wf(7), of d 0 "2 ^ 32 - 1" None] by (auto simp: erase_candidates_def)
  have sim: "mht_sim (t\<lparr>ddwEraseIterator := it\<rparr>) m M D" by (rule mht_sim_iterator [OF assms it(1)])
  note P = pick_older_fold [where t = t and ot = "2 ^ 32 - 1" and ps = "erase_candidates t d"]
  show ?thesis
  proof (cases "snd ?f")
    case None
    then have "\<forall>p \<in> set (erase_candidates t d). \<not> dwAccessTime (mht_nodes t ! p) < 2 ^ 32 - 1" using P by (auto split: prod.splits)
    then have all: "\<forall>p \<in> set (erase_candidates t d). dwAccessTime (mht_nodes t ! p) \<ge> 2 ^ 32 - 1" by (simp add: not_less)
    have "SearchAndEraseOldestOne t d = Some (-7, t\<lparr>ddwEraseIterator := it\<rparr>)" using it(2) ne None by (simp add: SearchAndEraseOldestOne_def)
    then show ?thesis unfolding if_P [OF all] using sim by blast
  next
    case (Some q)
    then have q: "q \<in> set (erase_candidates t d)" "dwAccessTime (mht_nodes t ! q) < 2 ^ 32 - 1"
      "\<forall>p \<in> set (erase_candidates t d). dwAccessTime (mht_nodes t ! q) \<le> dwAccessTime (mht_nodes t ! p)"
      using P by (auto split: prod.splits)
    then have some: "\<not> (\<forall>p \<in> set (erase_candidates t d). dwAccessTime (mht_nodes t ! p) \<ge> 2 ^ 32 - 1)" by (meson not_le)
    have "q \<in> set (filter (\<lambda>p. p \<noteq> d \<and> used_at t p) (scan_from t (ddwEraseIterator t)))"
      using q(1) in_set_takeD unfolding erase_candidates_def by fast
    then have "used_at (t\<lparr>ddwEraseIterator := it\<rparr>) q" by (simp add: used_at_def)
    from erase_node_sim [OF sim this] obtain t' m' where
        e: "erase_node (t\<lparr>ddwEraseIterator := it\<rparr>) q = (0, t')"
        "mht_sim t' m' (M(lt_pos (t\<lparr>ddwEraseIterator := it\<rparr>) q := None)) (D(node_digest (mht_nodes t ! q) := None))"
      by auto
    have "SearchAndEraseOldestOne t d = Some (0, t')" using it(2) ne Some e(1) by (simp add: SearchAndEraseOldestOne_def)
    then show ?thesis unfolding if_not_P [OF some] using q(1,3) e(2) by blast
  qed
qed

text \<open>(C21) Iterating from \<open>Begin\<close> with \<open>Next\<close> to \<open>End\<close> visits the used nodes, each once and in the order
  of the node array, in as many rounds as there are used nodes.\<close>

theorem mht_iteration:
  assumes "mht_wf t"
  shows "mht_walk (length (mht_nodes t)) (Some t) (mht_Begin (Some t)) = Some (filter (used_at t) [0..<length (mht_nodes t)])"
proof -
  let ?mx = "max_used_node t" and ?n = "length (mht_nodes t)"
  have le: "?mx \<le> ?n" using max_used_node_eq [OF assms] by simp
  then have "[0..<?n] = [0..<?mx] @ [?mx..<?n]" by (metis le0 upt_add_eq_append le_iff_add add_0)
  moreover have "filter (used_at t) [?mx..<?n] = []"
    using used_below_max [OF assms] by (fastforce simp: filter_empty_conv)
  ultimately have e: "filter (used_at t) [0..<?n] = filter (used_at t) [0..<?mx]" by simp
  have "length (filter (used_at t) [0..<?mx]) \<le> ?n" using length_filter_le [of "used_at t" "[0..<?mx]"] le by simp
  then show ?thesis
    using mht_walk_from [OF assms, of 0 ?n] unfolding e by (simp add: mht_Begin_def mht_Next_def mht_End_def u64n_def)
qed

theorem mht_iteration_witness:
  "mht_walk 5 (Some mht_demo) (mht_Begin (Some mht_demo)) = Some []"
  using mht_iteration [OF mht_simD(1) [OF mht_demo_sim]] by simp

text \<open>From 4 on, \<open>MaxPrime\<close> returns the largest prime below its argument; below that it returns 1
  (for 2 and 3) or 0, which are not prime.\<close>

theorem MaxPrime_largest:
  "if 3 < n then is_prime (MaxPrime n) \<and> MaxPrime n < n \<and> \<not> (\<exists>p. is_prime p \<and> MaxPrime n < p \<and> p < n)
   else MaxPrime n = (if n < 2 then 0 else 1)"
proof (cases "3 < n")
  case True
  have nd: "no_divisor k \<longleftrightarrow> is_prime k" if "3 \<le> k" for k using that by (rule no_divisor_prime)
  have p3: "is_prime 3"
    unfolding is_prime_def
  proof (intro conjI allI impI)
    fix d :: nat
    assume d: "d dvd 3"
    then have "d \<le> 3" by (rule dvd_imp_le) simp
    then have "d \<in> {0, 1, 2, 3}" by auto
    then show "d = 1 \<or> d = 3" using d by auto
  qed simp
  have "4 \<le> n \<Longrightarrow> is_prime (MaxPrime n) \<and> MaxPrime n < n \<and> \<not> (\<exists>p. is_prime p \<and> MaxPrime n < p \<and> p < n)"
  proof (induction rule: nat_induct_at_least)
    case base
    have "MaxPrime 4 = 3" using nd [of 3] p3 by (simp add: eval_nat_numeral)
    then show ?case using p3 by simp
  next
    case (Suc n)
    show ?case
    proof (cases "no_divisor n")
      case True
      then show ?thesis using nd [of n] Suc.hyps by simp
    next
      case False
      then have "\<not> is_prime n" using nd [of n] Suc.hyps by simp
      then show ?thesis using Suc.IH False by (auto simp: less_Suc_eq)
    qed
  qed
  then show ?thesis using True by simp
next
  case False
  have nd: "\<not> no_divisor 0" "no_divisor (Suc 0)" "\<not> no_divisor (Suc (Suc 0))"
    by (simp_all add: no_divisor_def ceil_sqrt_from.simps)
  have "n \<in> {0, 1, 2, 3}" using False by auto
  then show ?thesis using nd by (auto simp: eval_nat_numeral)
qed

text \<open>The rows never overlap and never exceed the nodes that were paid for: each row starts where
  the one before it ends, the total is the sum of the rows, and it is at most the number of nodes asked for.\<close>

theorem row_layout:
  assumes "1 \<le> rowNum" and "CalcNodeNumForEachRow rowNum mx num start = (num', start', totalNum)"
  shows "(\<forall>k. k + 1 < rowNum \<longrightarrow> start' (k + 1) = start' k + num' k) \<and> start' 0 = 0 \<and>
     totalNum = start' (rowNum - 1) + num' (rowNum - 1) \<and> totalNum \<le> mx"
proof -
  note l = CalcNodeNum_layout [OF assms]
  have "totalNum = start' (rowNum - 1) + num' (rowNum - 1)"
    using l(1,2) assms(1) by (cases rowNum) auto
  then show ?thesis using l(2,3) assms(1) by auto
qed

text \<open>Data lost without an error. When the search path has an empty node and a used one, the block
  store is at most 95 percent full but too full for the data, and replacing is allowed, then \<open>SetData\<close>
  erases the oldest node of the path, does not try again, and returns 0: the next read finds nothing.\<close>

theorem mht_SetData_silent_loss:
  assumes "mht_sim t m M D" and "0 < length key" and "length key < 2 ^ 63" and "mht_cap t (length key)"
    and "Search t key (int (length key)) (mht_hash t key) True = Some (s, t)"
    and "sr_found s = None" and "sr_empty s = Some p" and "sr_oldest s = Some q" and "GetUsage (Some m) \<le> 95"
    and "lt_nblocks m d > ddwFreeBlockCount m" and "lt_nblocks m d \<le> MAX_BLOCK_COUNT" and "length d < 2 ^ 31"
    and "1 \<le> n"
  shows "\<exists>t'. mht_SetData (Some t) (Some key) (int (length key)) (Some d) (int (length d)) True now = Some (0, Some t') \<and>
     (\<exists>rd. mht_GetData (Some t') (Some key) (int (length key)) True n upd now' = Some (rd, Some t') \<and>
        rd_ret rd = 0 \<and> rd_len rd = 0)"
proof -
  note sim = assms(1) and wf = mht_simD(1) [OF assms(1)] and lt = mht_simD(2) [OF assms(1)]
  from Search_found [OF wf assms(2,3), of True] assms(5-8)
  have p: "in_path t (mht_hash t key) (sr_row s) p" "\<not> used_at t p"
    and q: "used_at t q" "node_digest (mht_nodes t ! q) \<noteq> key_digest t key"
    and nf: "\<And>p. used_at t p \<Longrightarrow> node_digest (mht_nodes t ! p) \<noteq> key_digest t key"
    by (metis option.inject prod.inject)+
  have pl: "p < length (mht_nodes t)" by (rule in_path_bound(3) [OF wf p(1)])
  have z: "ddwLtPos (mht_nodes t ! p) = 0" using p(2) pl by (simp add: used_at_def is_hnode_empty_def)
  obtain t2 m2 where e: "erase_node t q = (0, t2)" "t2 = mht_clear (t\<lparr>mht_lt := Some m2\<rparr>) q"
    and sim2: "mht_sim t2 m2 (M(lt_pos t q := None)) (D(node_digest (mht_nodes t ! q) := None))"
    using erase_node_sim [OF sim q(1)] by blast
  have lw: "lt_wf m" using mht_simD(3) [OF sim] by (simp add: lt_rep_def lt_inv_def)
  have t1: "t\<lparr>mht_lt := Some m\<rparr> = t" using lt by (cases t) simp
  have loop: "mht_set_loop t (Some q) p (Some d) (int (length d)) True = Some (0, 0, t2)"
    using lt_nospace [OF lw assms(12,10,11), of 0] lt z e(1)
    by (subst mht_set_loop.simps) (simp add: t1)
  have pq: "p \<noteq> q" using p(2) q(1) by auto
  have n2: "mht_nodes t2 ! p = mht_nodes t ! p" using pq by (simp add: e(2) mht_clear_def mht_store_def)
  have cap: "length key \<le> length (acKey (mht_nodes t ! p))" by (rule mht_cap_at [OF assms(4) pl])
  let ?nd = "\<lambda>nd. nd\<lparr>ddwLtPos := 0, dwHashKey := mht_hash t key, dwAccessTime := (if cUseAccessSeq t2 then 0 else u32n now),
      cKeyLen := u8n (length key), acKey := key @ drop (length key) (acKey nd)\<rparr>"
  let ?t4 = "mht_store t2 p (?nd (mht_nodes t2 ! p))"
  let ?t5 = "if sr_row s > ddwMaxUsedRow ?t4 then ?t4\<lparr>ddwMaxUsedRow := sr_row s\<rparr> else ?t4"
  have "mht_finish t (Some q) p True (sr_row s) key (int (length key)) (mht_hash t key) (Some d) (int (length d)) True now =
      Some (0, Some ?t5)"
    using cap n2 by (simp add: mht_finish_def loop Let_def)
  then have set: "mht_SetData (Some t) (Some key) (int (length key)) (Some d) (int (length d)) True now = Some (0, Some ?t5)"
    using assms(2,5-9) mht_wfD(1) [OF wf] lt pl by (simp add: mht_SetData_def mht_choose_def Let_def)
  have u2: "used_at t2 x \<longleftrightarrow> x \<noteq> q \<and> used_at t x" for x
    by (auto simp: e(2) mht_clear_def clear_node_def is_hnode_empty_def)
  have sim4: "mht_sim ?t4 m2 (M(lt_pos t q := None)) (D(node_digest (mht_nodes t ! q) := None))"
    by (rule mht_sim_store_unused [OF sim2]) (use p(2) in \<open>simp_all add: u2 is_hnode_empty_def\<close>)
  have row: "sr_row s < ddwRowNum ?t4" using p(1) by (simp add: in_path_def e(2) mht_clear_def)
  have sim5: "mht_sim ?t5 m2 (M(lt_pos t q := None)) (D(node_digest (mht_nodes t ! q) := None))"
    using mht_sim_maxrow [OF sim4 _ row] sim4 by simp
  have h: "key_digest ?t5 key = key_digest t key" by (simp add: key_digest_def e(2) mht_clear_def)
  have "D (key_digest t key) = None" using nf mht_sim_unused [OF sim] by blast
  then have "(D(node_digest (mht_nodes t ! q) := None)) (key_digest ?t5 key) = None" unfolding h using q(2) by simp
  then show ?thesis using set mht_GetData_sim [OF sim5 assms(2,3,13), of upd now'] by fastforce
qed

text \<open>Initialising a zeroed buffer. With parameters in the accepted ranges, a buffer of at most 64 GB
  that holds both headers, the nodes and three blocks, and a layout in which every row got a node,
  \<open>InitFromBuffer\<close> returns 0 and the table satisfies the invariant, represents the empty map and has
  room for keys of the configured length.\<close>

theorem InitFromBuffer_empty:
  assumes "2 ^ 21 \<le> sz" and "sz \<le> 2 ^ 36" and "1 \<le> keyLen" and "keyLen \<le> HASH_MAX_KEY_LENGTH"
    and "1 \<le> rowNum" and "rowNum \<le> HASH_MAX_ROW" and "1 \<le> ratio" and "ratio \<le> 1000" and "32 \<le> bs" and "bs \<le> 8192"
    and calc: "CalcNodeNumForEachRow rowNum (EvaluateHashNodeNum sz (EvaluateHashNodeSize keyLen)
           (NodeNumRatio2MemSizeRatio (EvaluateHashNodeSize keyLen) bs ratio)) (\<lambda>_. 0) (\<lambda>_. 0) = (num, start, N)"
    and rows: "\<forall>i<rowNum. 0 < num i"
    and fit: "sizeof_MhtHeader + N * EvaluateHashNodeSize keyLen + sizeof_LinkTableHead + 3 * bs \<le> sz"
  shows "\<exists>t. InitFromBuffer tab (Some zero_buffer) sz keyLen rowNum ratio bs hf acc = (0, Some t) \<and>
     kv_rep t Map.empty \<and> mht_cap t keyLen"
proof -
  define ns where "ns = EvaluateHashNodeSize keyLen"
  define dsz where "dsz = sz - sizeof_MhtHeader - N * ns"
  note fit = fit [folded ns_def]
  have d: "sub64 (sub64 sz sizeof_MhtHeader) (u64n (N * ns)) = dsz"
    using fit assms(2) by (simp add: dsz_def u64n_def)
  have "\<exists>m. lt_Init (case tab of None \<Rightarrow> None | Some m \<Rightarrow> mht_lt m)
      (Some (replicate (EvalBlockCount dsz bs) \<lparr>ddwNext = 0, ddwLengthInBlock = 0, bufData = replicate (bs - 8) 0\<rparr>)) dsz (EvalBlockCount dsz bs) bs = (0, Some m) \<and>
    lt_rep m Map.empty"
    by (rule lt_Init_zero) (use fit assms(2,9,10) in \<open>simp_all add: dsz_def\<close>)
  then obtain m where m: "lt_Init (case tab of None \<Rightarrow> None | Some m \<Rightarrow> mht_lt m)
      (Some (replicate (EvalBlockCount dsz bs) \<lparr>ddwNext = 0, ddwLengthInBlock = 0, bufData = replicate (bs - 8) 0\<rparr>)) dsz (EvalBlockCount dsz bs) bs = (0, Some m)"
    "lt_rep m Map.empty" by blast
  define t where "t = \<lparr>ddwTotalShmSize = sz, ddwHashNodeNum = N, ddwHashNodeSize = ns,
                   ddwDataBlockSize = bs, ddwDataBlockNum = EvalBlockCount dsz bs, ddwRowNum = rowNum,
                   auRowsNodeNum = num, auRowsStartNode = start, ddwMaxUsedRow = 0, ddwEraseIterator = 0,
                   cUseAccessSeq = acc, mht_nodes = buf_nodes zero_buffer N ns,
                   mht_lt = Some m, mht_hash = (case hf of None \<Rightarrow> DefaultHashFunc | Some f \<Rightarrow> f)\<rparr>"
  have g: "\<not> (sz < 1024 * 1024 * 2 \<or> keyLen < 1 \<or> keyLen > HASH_MAX_KEY_LENGTH \<or>
           rowNum < 1 \<or> rowNum > HASH_MAX_ROW \<or> ratio < 1 \<or> ratio > 1000 \<or> bs < 32 \<or> bs > 8192)"
    using assms by simp
  have i: "InitFromBuffer tab (Some zero_buffer) sz keyLen rowNum ratio bs hf acc = (0, Some t)"
    using m(1) unfolding InitFromBuffer_def t_def
    by (simp only: option.case g if_False Let_def calc ns_def [symmetric] case_prod_conv d)
       (simp add: calc [folded ns_def] d zero_buffer_def)
  note l = CalcNodeNum_layout [OF assms(5) calc]
  have nd: "mht_nodes t = replicate N \<lparr>dwHashKey = 0, dwAccessTime = 0, ddwLtPos = 0, cKeyLen = 0, acKey = replicate (ns - 15) 0\<rparr>"
    by (simp add: t_def zero_buffer_def)
  have u: "\<not> used_at t p" for p by (simp add: used_at_def nd is_hnode_empty_def)
  have N: "0 < N"
  proof -
    have "num 0 \<le> (\<Sum>k<rowNum. num k)" using assms(5) by (intro member_le_sum) auto
    then show ?thesis using rows assms(5) l(1) by force
  qed
  have "N * 1 \<le> N * ns" by (rule mult_le_mono2) (simp add: ns_def EvaluateHashNodeSize_def sizeof_MhtNode_def)
  then have "N \<le> 2 ^ 36" using fit assms(2) by linarith
  then have Nb: "N < 2 ^ 64 - 1" by simp
  have sel: "ddwMaxUsedRow t = 0" "ddwRowNum t = rowNum" "auRowsNodeNum t = num" "auRowsStartNode t = start"
     "ddwHashNodeNum t = N" "ddwEraseIterator t = 0" "length (mht_nodes t) = N" "mht_lt t = Some m"
    "row_start t i = (\<Sum>k<i. num k)" for i
    unfolding row_start_def nd by (simp_all add: t_def)
  have "mht_wf t" unfolding mht_wf_def sel using u l N Nb rows assms(5) by simp
  then have "mht_sim t m Map.empty Map.empty" by (rule unused_sim) (use sel m(2) u in auto)
  moreover have "mht_cap t keyLen" by (simp add: mht_cap_def nd ns_def EvaluateHashNodeSize_def sizeof_MhtNode_def)
  ultimately show ?thesis using i by (auto simp: kv_rep_def)
qed

subsection \<open>Witnesses over a stored entry\<close>

definition mht_demo1 :: "nat \<Rightarrow> LinkTableMem \<Rightarrow> MhtMem" where
  "mht_demo1 pos m = mht_demo\<lparr>mht_lt := Some m,
     mht_nodes := (mht_nodes mht_demo)[0 := \<lparr>dwHashKey = 3, dwAccessTime = 7, ddwLtPos = pos, cKeyLen = 1,
                                             acKey = [3, 0, 0, 0, 0, 0, 0, 0, 0]\<rparr>]\<rparr>"

lemma mht_demo_nodes: "mht_nodes mht_demo =
    replicate 5 \<lparr>dwHashKey = 0, dwAccessTime = 0, ddwLtPos = 0, cKeyLen = 0, acKey = replicate 9 0\<rparr>"
  by (simp add: mht_demo_def)

lemma hash_3 [simp]: "DefaultHashFunc [3] = 3" and hash_6 [simp]: "DefaultHashFunc [6] = 6"
  by (simp_all add: DefaultHashFunc_def)

lemma lt_demo_eq: "lt_demo = \<lparr>ddwAllBlockCount = 6, ddwFreeBlockCount = 6,
                         ddwBlockSize = 10, ddwLastEmpty = 1, ddwFirstFreePos = 0,
                         ddwRecycleIndex = 0, dwRecyclePoolSize = LT_DEF_RECYCLE_POOL_SIZE,
                         addwRecyclePool = (\<lambda>_. 0), dwUserDataLen = 0, sUserData = (\<lambda>_. 0),
                         lt_blocks = replicate 7 \<lparr>ddwNext = 0, ddwLengthInBlock = 0, bufData = [0, 0]\<rparr>\<rparr>"
proof -
  have e: "EvalBufferSize 7 10 \<le> 2 ^ 30"
    by (simp add: EvalBufferSize_def sizeof_LinkTableHead_def LT_MAX_RECYCLE_POOL_SIZE_def LT_MAX_USRDATA_LEN_def)
  show ?thesis using e by (simp add: lt_demo_def lt_Init_def)
qed
lemma lt_demo_SetData:
  "\<exists>m. lt_SetData (Some lt_demo) 0 (Some [a, b, c]) 3 = Some (0, 2, Some m) \<and> ddwFreeBlockCount m = 4 \<and> ddwAllBlockCount m = 6"
proof -
  let ?z = "\<lparr>ddwNext = 0, ddwLengthInBlock = 0, bufData = [0, 0]\<rparr> :: LtBlock"
  let ?m1 = "lt_demo\<lparr>lt_blocks := [?z, ?z, \<lparr>ddwNext = 1, ddwLengthInBlock = 0, bufData = [0, 0]\<rparr>, ?z, ?z, ?z, ?z]\<rparr>"
  have bn: "lt_block_num lt_demo 3 = 2" "BLOCK_DATA_LEN lt_demo = 2"
    by (simp_all add: lt_demo_eq lt_block_num_def BLOCK_DATA_LEN_def)
  have w: "free_walk lt_demo 2 0 = (2, 0, lt_demo)" by (simp add: numeral_2_eq_2)
  have bl: "lt_blocks lt_demo = [?z, ?z, ?z, ?z, ?z, ?z, ?z]" by (simp add: lt_demo_eq numeral_eq_Suc)
  have z: "lt_scan m j 0 start cur = (0, start, cur, m)" for m j start cur by (cases j) simp_all
  have s: "lt_scan lt_demo (Suc (Suc j)) 2 0 1 = (0, 2, 3, ?m1)" for j
    using lt_demo_inv(4) by (simp add: LT_ELE_AT_def lt_set_next_def lt_store_def bl z)
  have six: "Suc (Suc 4) = 6" by simp
  have g: "GetEmptyBlock lt_demo 2 0 = (0, 2, ?m1\<lparr>ddwLastEmpty := 3\<rparr>)"
    using w s [of 4, unfolded six] by (simp add: GetEmptyBlock_def MAX_BLOCK_COUNT_def lt_demo_inv) (simp add: lt_demo_eq)
  have d: "BLOCK_DATA_LEN (m\<lparr>lt_blocks := x\<rparr>) = BLOCK_DATA_LEN m" "BLOCK_DATA_LEN (m\<lparr>ddwLastEmpty := y\<rparr>) = BLOCK_DATA_LEN m"
    "BLOCK_DATA_LEN (m\<lparr>ddwFreeBlockCount := y\<rparr>) = BLOCK_DATA_LEN m" for m x y
    by (simp_all add: BLOCK_DATA_LEN_def)
  show ?thesis
    using bn g lt_demo_inv(3,4)
    by (simp add: lt_SetData_def MAX_BLOCK_COUNT_def set_loop.simps d lt_block_write_def LT_ELE_AT_def lt_store_def
        lt_set_next_def Let_def)
qed
lemma mht_demo_set:
  "\<exists>m. ForceSetData (Some mht_demo) (Some [3]) (int (length [3::byte])) (Some [a, b, c]) (int (length [a::byte, b, c])) 7 =
       Some (0, Some (mht_demo1 2 m)) \<and> lt_stored lt_demo {} 0 [a, b, c] 2 m \<and>
       ddwFreeBlockCount m = 4 \<and> ddwAllBlockCount m = 6"
proof -
  obtain m where s: "lt_SetData (Some lt_demo) 0 (Some [a, b, c]) 3 = Some (0, 2, Some m)"
    and cnt: "ddwFreeBlockCount m = 4" "ddwAllBlockCount m = 6" using lt_demo_SetData [of a b c] by blast
  have st: "lt_stored lt_demo {} 0 [a, b, c] 2 m" using lt_demo_stored [of a b c] s by auto
  have se: "Search mht_demo [3] 1 3 True = Some (\<lparr>sr_found = None, sr_empty = Some 0, sr_oldest = None, sr_row = 0\<rparr>, mht_demo)"
    by (simp add: Search_def is_hnode_empty_def mht_demo_nodes search_loop.simps)
  have n0: "mht_nodes mht_demo ! 0 = \<lparr>dwHashKey = 0, dwAccessTime = 0, ddwLtPos = 0, cKeyLen = 0, acKey = replicate 9 0\<rparr>"
    by (simp add: mht_demo_nodes)
  have loop: "mht_set_loop mht_demo None 0 (Some [a, b, c]) 3 True = Some (0, 2, mht_demo\<lparr>mht_lt := Some m\<rparr>)"
    using s by (subst mht_set_loop.simps) (simp add: n0)
  have seq: "\<not> cUseAccessSeq mht_demo" by (simp add: mht_demo_def)
  have nine: "replicate 9 (0::byte) = [0, 0, 0, 0, 0, 0, 0, 0, 0]" by (simp add: eval_nat_numeral)
  have fin: "mht_finish mht_demo None 0 True 0 [3] 1 3 (Some [a, b, c]) 3 True 7 = Some (0, Some (mht_demo1 2 m))"
    using seq by (simp add: mht_finish_def loop mht_demo1_def mht_store_def Let_def n0 nine u48n_def u8n_def u32n_def)
  have "ForceSetData (Some mht_demo) (Some [3]) 1 (Some [a, b, c]) 3 7 = Some (0, Some (mht_demo1 2 m))"
    by (simp add: ForceSetData_def mht_SetData_def se mht_choose_def fin mht_demo_nodes)
  then show ?thesis using st cnt by auto
qed

lemma mht_demo_kv: "kv_rep mht_demo Map.empty" "kv_key_ok [3]" "kv_key_ok [6]" "kv_fits mht_demo [3] [a, b, c]"
  using mht_demo_sim mht_demo_cap [of 1] lt_demo_fits by (auto simp: kv_rep_def kv_key_ok_def kv_fits_def)

lemma mht_demo1_room:
  assumes "lt_stored lt_demo {} 0 [a, b, c] pos m"
  shows "kv_room (mht_demo1 pos m) [a, b, c]"
  using lt_demo_room(1) [OF assms]
  by (simp add: kv_room_def mht_demo1_def HASH_MAX_DATA_LENGTH_def lt_room_def)

lemma mht_demo1_digest [simp]: "key_digest (mht_demo1 pos m) k = key_digest mht_demo k"
  by (simp add: key_digest_def mht_demo1_def)

theorem mht_SetData_GetData_witness:
  "\<exists>t' rd t''. ForceSetData (Some mht_demo) (Some [3]) 1 (Some [1, 2, 3]) 3 7 = Some (0, Some t') \<and>
     mht_GetData (Some t') (Some [3]) 1 True (int HASH_MAX_DATA_LENGTH) True 8 = Some (rd, Some t'') \<and>
     rd_data rd = [1, 2, 3]"
proof -
  obtain m where s: "ForceSetData (Some mht_demo) (Some [3]) (int (length [3::byte])) (Some [1, 2, 3])
       (int (length [1::byte, 2, 3])) 7 = Some (0, Some (mht_demo1 2 m))"
    and st: "lt_stored lt_demo {} 0 [1, 2, 3] 2 m" using mht_demo_set [of 1 2 3] by blast
  from mht_SetData_GetData [OF mht_demo_kv(1,2,4) s mht_demo1_room [OF st], of True 8] s
  show ?thesis by auto
qed

lemma mht_demo1_rep:
  assumes "ForceSetData (Some mht_demo) (Some [3]) (int (length [3::byte])) (Some [1, 2, 3])
       (int (length [1::byte, 2, 3])) 7 = Some (0, Some (mht_demo1 pos m))"
  shows "kv_rep (mht_demo1 pos m) [key_digest mht_demo [3] \<mapsto> [1, 2, 3]]"
proof -
  have "kv_put 7 mht_demo [3] [1, 2, 3] = Some (0, mht_demo1 pos m)" using assms by (simp add: kv_put_def)
  moreover obtain r t' D0 where "kv_put 7 mht_demo [3] [1, 2, 3] = Some (r, t')"
      "D0 = Map.empty \<or> (\<exists>old. D0 = Map.empty(old := None))"
      "r = 0 \<and> kv_rep t' (D0(key_digest mht_demo [3] \<mapsto> [1, 2, 3])) \<or> r < 0 \<and> kv_rep t' D0"
    using kv_put_rep [OF mht_demo_kv(1,2,4), of 7] by blast
  ultimately show ?thesis by auto
qed

theorem SearchAndEraseOldestOne_evicts_witness:
  "\<exists>t t' m' M'. erase_candidates t 3 = [0] \<and> dwAccessTime (mht_nodes t ! 0) = 7 \<and> SearchAndEraseOldestOne t 3 = Some (0, t') \<and>
     mht_sim t' m' M' Map.empty"
proof -
  obtain m where s: "ForceSetData (Some mht_demo) (Some [3]) (int (length [3::byte])) (Some [1, 2, 3])
       (int (length [1::byte, 2, 3])) 7 = Some (0, Some (mht_demo1 2 m))" using mht_demo_set [of 1 2 3] by blast
  let ?t = "mht_demo1 2 m"
  obtain m' M where sim: "mht_sim ?t m' M [key_digest mht_demo [3] \<mapsto> [1, 2, 3]]" using mht_demo1_rep [OF s] by (auto simp: kv_rep_def)
  have n: "mht_nodes ?t ! 0 = \<lparr>dwHashKey = 3, dwAccessTime = 7, ddwLtPos = 2, cKeyLen = 1, acKey = [3, 0, 0, 0, 0, 0, 0, 0, 0]\<rparr>"
    by (simp add: mht_demo1_def)
  have "used_at ?t p \<longleftrightarrow> p = 0" if "p < 5" for p
    using that n by (cases "p = 0") (simp_all add: used_at_def is_hnode_empty_def mht_demo1_def mht_demo_nodes)
  then have "filter (\<lambda>p. p \<noteq> 3 \<and> used_at ?t p) [0..<5] = [0]" by (simp add: upt_rec [of _ 5])
  then have c: "erase_candidates ?t 3 = [0]" by (simp add: erase_candidates_def scan_from_def mht_demo1_def)
  have d: "node_digest (mht_nodes ?t ! 0) = key_digest mht_demo [3]"
    by (simp add: n node_digest_def key_digest_def)
  have "dwAccessTime (mht_nodes ?t ! 0) = 7" by (simp add: n)
  then obtain t' m2 M2 where "SearchAndEraseOldestOne ?t 3 = Some (0, t')" "mht_sim t' m2 M2 Map.empty"
    using SearchAndEraseOldestOne_evicts [OF sim, of 3] by (auto simp: c d)
  then show ?thesis using c n by (intro exI [of _ ?t] exI [of _ t'] exI [of _ m2] exI [of _ M2]) simp
qed

theorem mht_EraseData_refines_witness:
  "\<exists>t t'. mht_EraseData (Some t) (Some [3]) 1 = Some (1, Some t') \<and> kv_rep t' Map.empty"
proof -
  obtain m where s: "ForceSetData (Some mht_demo) (Some [3]) (int (length [3::byte])) (Some [1, 2, 3])
       (int (length [1::byte, 2, 3])) 7 = Some (0, Some (mht_demo1 2 m))" using mht_demo_set [of 1 2 3] by blast
  show ?thesis using mht_EraseData_refines [OF mht_demo1_rep [OF s] mht_demo_kv(2), of True 8] by auto
qed

theorem row_layout_witness:
  "\<exists>num' start' totalNum. CalcNodeNumForEachRow 4 1000 (\<lambda>_. 0) (\<lambda>_. 0) = (num', start', totalNum) \<and>
     start' 3 = start' 2 + num' 2 \<and> totalNum \<le> 1000"
proof -
  obtain num' start' n where c: "CalcNodeNumForEachRow 4 1000 (\<lambda>_. 0) (\<lambda>_. 0) = (num', start', n)"
    by (cases "CalcNodeNumForEachRow 4 1000 (\<lambda>_. 0) (\<lambda>_. 0)") auto
  from row_layout [OF _ c] have k: "\<forall>k. k + 1 < 4 \<longrightarrow> start' (k + 1) = start' k + num' k" "n \<le> 1000" by simp_all
  from k(1) [rule_format, of 2] have "start' 3 = start' 2 + num' 2" by simp
  then show ?thesis using c k(2) by auto
qed

theorem mht_SetData_silent_loss_witness:
  "\<exists>t t' rd. mht_SetData (Some t) (Some [6]) 1 (Some (replicate 11 9)) 11 True 8 = Some (0, Some t') \<and>
     mht_GetData (Some t') (Some [6]) 1 True 100 False 9 = Some (rd, Some t') \<and> rd_ret rd = 0 \<and> rd_len rd = 0"
proof -
  obtain m where s: "ForceSetData (Some mht_demo) (Some [3]) (int (length [3::byte])) (Some [1, 2, 3])
       (int (length [1::byte, 2, 3])) 7 = Some (0, Some (mht_demo1 2 m))"
    and st: "lt_stored lt_demo {} 0 [1, 2, 3] 2 m" and c: "ddwFreeBlockCount m = 4" "ddwAllBlockCount m = 6" using mht_demo_set [of 1 2 3] by blast
  let ?t = "mht_demo1 2 m"
  obtain M where sim: "mht_sim ?t m M [key_digest mht_demo [3] \<mapsto> [1, 2, 3]]"
    using mht_demo1_rep [OF s] mht_simD(2) by (fastforce simp: kv_rep_def mht_demo1_def)
  have n0: "mht_nodes ?t ! 0 = \<lparr>dwHashKey = 3, dwAccessTime = 7, ddwLtPos = 2, cKeyLen = 1, acKey = [3, 0, 0, 0, 0, 0, 0, 0, 0]\<rparr>"
    by (simp add: mht_demo1_def)
  have sel: "ddwMaxUsedRow ?t = 0" "ddwRowNum ?t = 2" "auRowsNodeNum ?t = (\<lambda>_. 0)(0 := 3, 1 := 2)" "length (mht_nodes ?t) = 5"
      "mht_hash ?t = DefaultHashFunc"
    by (simp_all add: mht_demo1_def)
  have se: "Search ?t [6] (int (length [6::byte])) (mht_hash ?t [6]) True =
      Some (\<lparr>sr_found = None, sr_empty = Some 3, sr_oldest = Some 0, sr_row = 1\<rparr>, ?t)"
    by (simp add: Search_def search_loop.simps is_hnode_empty_def n0 sel)
  have cap: "mht_cap ?t (length [6::byte])"
    using set_update_subset_insert [of "mht_nodes mht_demo"] by (fastforce simp: mht_cap_def mht_demo1_def mht_demo_nodes)
  have b: "BLOCK_DATA_LEN m = 2"
    using st lt_demo_inv BLOCK_DATA_LEN_cong [of m lt_demo] by (auto simp: lt_stored_def)
  have pre: "GetUsage (Some m) \<le> 95" "lt_nblocks m (replicate 11 9) > ddwFreeBlockCount m"
      "lt_nblocks m (replicate 11 9) \<le> MAX_BLOCK_COUNT"
    using c b by (simp_all add: GetUsage_def lt_nblocks_def MAX_BLOCK_COUNT_def u64n_def)
  show ?thesis
    using mht_SetData_silent_loss [OF sim _ _ cap se, of 3 0 "replicate 11 9" 100 8 False 9] pre by simp blast
qed

theorem InitFromBuffer_empty_witness:
  "\<exists>t. InitFromBuffer None (Some zero_buffer) 4194304 10240 1 1 8192 None False = (0, Some t) \<and> kv_rep t Map.empty"
proof -
  have u: "[2..<3] = [2]" by (simp add: upt_rec)
  have "no_divisor 3" by (simp add: no_divisor_def ceil_sqrt_from.simps u) (simp add: numeral_2_eq_2 [symmetric])
  then have p: "MaxPrime 4 = 3" by (simp add: eval_nat_numeral)
  have e: "EvaluateHashNodeSize 10240 = 10256" "NodeNumRatio2MemSizeRatio 10256 8192 1 = 1"
      "EvaluateHashNodeNum 4194304 10256 1 = 4"
    by (simp_all add: EvaluateHashNodeSize_def sizeof_MhtNode_def NodeNumRatio2MemSizeRatio_def EvaluateHashNodeNum_def u64n_def)
  have c: "CalcNodeNumForEachRow 1 4 (\<lambda>_. 0) (\<lambda>_. 0) = ((\<lambda>_. 0)(0 := 3), (\<lambda>_. 0)(0 := 0), 3)"
    by (simp add: CalcNodeNumForEachRow_def calc_row_def p)
  have "\<exists>t. InitFromBuffer None (Some zero_buffer) 4194304 10240 1 1 8192 None False = (0, Some t) \<and>
     kv_rep t Map.empty \<and> mht_cap t 10240"
  proof (rule InitFromBuffer_empty)
    show "CalcNodeNumForEachRow 1 (EvaluateHashNodeNum 4194304 (EvaluateHashNodeSize 10240)
       (NodeNumRatio2MemSizeRatio (EvaluateHashNodeSize 10240) 8192 1)) (\<lambda>_. 0) (\<lambda>_. 0) =
       ((\<lambda>_. 0)(0 := 3), (\<lambda>_. 0)(0 := 0), 3)"
      unfolding e by (rule c)
    show "sizeof_MhtHeader + 3 * EvaluateHashNodeSize 10240 + sizeof_LinkTableHead + 3 * 8192 \<le> 4194304"
      unfolding e by (simp add: sizeof_MhtHeader_def HASH_MAX_ROW_def sizeof_LinkTableHead_def
          LT_MAX_RECYCLE_POOL_SIZE_def LT_MAX_USRDATA_LEN_def)
  qed (simp_all add: HASH_MAX_KEY_LENGTH_def HASH_MAX_ROW_def)
  then show ?thesis by blast
qed
end
