(* ===== verification/Obj_Pool.thy ===== *)
theory Obj_Pool
  imports Prelude
begin

text \<open>
  The object pool of \<open>knv/obj_pool.h\<close> over the links of \<open>knv/obj_base.h\<close>: a free list of released
  objects and linked lists whose \<open>prev\<close> links lead back from the first object to the last.

  Addresses are natural numbers and 0 is \<open>NULL\<close>. \<open>ObjHeap\<close> holds the links of every object, the free
  list of the pool and the address the next \<open>new\<close> returns. \<open>ReleaseObject\<close> does not touch the links and
  is not part of this theory. The first part runs the operations without interference, where each
  compare-and-swap succeeds; the second part gives the steps of two threads one by one.
\<close>

section \<open>Definitions\<close>

record ObjHeap =
  o_next :: "nat \<Rightarrow> nat"
  o_prev :: "nat \<Rightarrow> nat"
  obj_freelist :: nat
  o_fresh :: nat

definition set_next :: "nat \<Rightarrow> nat \<Rightarrow> ObjHeap \<Rightarrow> ObjHeap" where
  "set_next o' n h = h\<lparr>o_next := (o_next h)(o' := n)\<rparr>"

definition set_prev :: "nat \<Rightarrow> nat \<Rightarrow> ObjHeap \<Rightarrow> ObjHeap" where
  "set_prev o' p h = h\<lparr>o_prev := (o_prev h)(o' := p)\<rparr>"

text \<open>The start of the three \<open>New\<close> functions: the head of the free list, else a new object with both
  links \<open>NULL\<close>, else \<open>NULL\<close> when \<open>new\<close> fails (\<open>mem\<close> is false).\<close>

definition pool_take :: "bool \<Rightarrow> ObjHeap \<Rightarrow> nat \<times> ObjHeap" where
  "pool_take mem h =
     (if obj_freelist h \<noteq> 0 then (obj_freelist h, h\<lparr>obj_freelist := o_next h (obj_freelist h)\<rparr>)
      else if mem then (o_fresh h, set_next (o_fresh h) 0 (set_prev (o_fresh h) 0 (h\<lparr>o_fresh := o_fresh h + 1\<rparr>)))
      else (0, h))"

definition pool_New :: "bool \<Rightarrow> ObjHeap \<Rightarrow> nat \<times> ObjHeap" where
  "pool_New mem h =
     (case pool_take mem h of (ob, h1) \<Rightarrow>
        if ob = 0 then (0, h1) else (ob, set_prev ob ob (set_next ob 0 h1)))"

text \<open>Into a list: the result is the object, the new first object and the heap.\<close>

definition pool_New_list :: "bool \<Rightarrow> ObjHeap \<Rightarrow> nat \<Rightarrow> nat \<times> nat \<times> ObjHeap" where
  "pool_New_list mem h first =
     (case pool_take mem h of (ob, h1) \<Rightarrow>
        if ob = 0 then (0, first, h1)
        else let h2 = set_next ob 0 h1
             in if first \<noteq> 0
                then let lst = o_prev h2 first
                     in (ob, first, set_prev first ob (set_prev ob lst (set_next lst ob h2)))
                else (ob, ob, set_prev ob ob h2))"

definition pool_NewFront :: "bool \<Rightarrow> ObjHeap \<Rightarrow> nat \<Rightarrow> nat \<times> nat \<times> ObjHeap" where
  "pool_NewFront mem h first =
     (case pool_take mem h of (ob, h1) \<Rightarrow>
        if ob = 0 then (0, first, h1)
        else let h2 = set_next ob first h1
             in if first \<noteq> 0 then (ob, ob, set_prev first ob (set_prev ob (o_prev h2 first) h2))
                else (ob, ob, set_prev ob ob h2))"

definition pool_Delete :: "ObjHeap \<Rightarrow> nat \<Rightarrow> ObjHeap" where
  "pool_Delete h ob = (set_next ob (obj_freelist h) h)\<lparr>obj_freelist := ob\<rparr>"

text \<open>The unlinking that \<open>Delete(first, obj)\<close> and \<open>Detach\<close> share.\<close>

definition pool_unlink :: "ObjHeap \<Rightarrow> nat \<Rightarrow> nat \<Rightarrow> nat \<times> ObjHeap" where
  "pool_unlink h first ob =
     (if ob = first
      then (o_next h ob, if o_next h ob \<noteq> 0 then set_prev (o_next h ob) (o_prev h first) h else h)
      else let p = o_prev h ob; n = o_next h ob; h1 = set_next p n h
           in (first, if n \<noteq> 0 then set_prev n p h1 else set_prev first p h1))"

definition pool_Delete_list :: "ObjHeap \<Rightarrow> nat \<Rightarrow> nat \<Rightarrow> nat \<times> ObjHeap" where
  "pool_Delete_list h first ob = (case pool_unlink h first ob of (first', h1) \<Rightarrow> (first', pool_Delete h1 ob))"

definition pool_Detach :: "ObjHeap \<Rightarrow> nat \<Rightarrow> nat \<Rightarrow> nat \<times> ObjHeap" where
  "pool_Detach h first ob =
     (case pool_unlink h first ob of (first', h1) \<Rightarrow> (first', set_next ob 0 (set_prev ob 0 h1)))"

definition AddToFreeList :: "ObjHeap \<Rightarrow> nat \<Rightarrow> ObjHeap" where
  "AddToFreeList h ob = (set_next (o_prev h ob) (obj_freelist h) h)\<lparr>obj_freelist := ob\<rparr>"

text \<open>\<open>DeleteAll\<close> on \<open>NULL\<close> would write through \<open>NULL\<close>; the callers test the list first.\<close>

definition DeleteAll :: "ObjHeap \<Rightarrow> nat \<Rightarrow> (nat \<times> ObjHeap) option" where
  "DeleteAll h first = (if first = 0 then None else Some (0, AddToFreeList h first))"

subsection \<open>Steps of two threads\<close>

text \<open>Where a thread is in \<open>New()\<close> or \<open>Delete(obj)\<close>: after loading \<open>o\<close>, after loading \<open>n\<close>, before and
  after writing \<open>obj->next\<close>.\<close>

datatype pool_pc = Idle | New_none | New_o nat | New_n nat nat | Del_o nat nat | Del_w nat nat

record pool_state =
  ps_heap :: ObjHeap
  ps_pc :: "bool \<Rightarrow> pool_pc"
  ps_owned :: "bool \<Rightarrow> nat set"

text \<open>\<open>pool_acquire s i ob h\<close>: thread \<open>i\<close> returns from \<open>New\<close> with \<open>ob\<close>.\<close>

definition pool_acquire :: "pool_state \<Rightarrow> bool \<Rightarrow> nat \<Rightarrow> ObjHeap \<Rightarrow> pool_state" where
  "pool_acquire s i ob h = s\<lparr>ps_heap := set_prev ob ob (set_next ob 0 h), ps_pc := (ps_pc s)(i := Idle),
      ps_owned := (ps_owned s)(i := insert ob (ps_owned s i))\<rparr>"

text \<open>The \<open>while\<close> loop of \<open>New\<close> tests the value just loaded from the free list.\<close>

definition pool_load :: "pool_state \<Rightarrow> pool_pc" where
  "pool_load s = (if obj_freelist (ps_heap s) = 0 then New_none else New_o (obj_freelist (ps_heap s)))"

inductive pool_step :: "pool_state \<Rightarrow> pool_state \<Rightarrow> bool" where
  new_load: "ps_pc s i = Idle \<Longrightarrow> pool_step s (s\<lparr>ps_pc := (ps_pc s)(i := pool_load s)\<rparr>)"
| new_alloc: "ps_pc s i = New_none \<Longrightarrow>
     pool_step s (pool_acquire s i (o_fresh (ps_heap s)) ((ps_heap s)\<lparr>o_fresh := o_fresh (ps_heap s) + 1\<rparr>))"
| new_next: "ps_pc s i = New_o ob \<Longrightarrow>
     pool_step s (s\<lparr>ps_pc := (ps_pc s)(i := New_n ob (o_next (ps_heap s) ob))\<rparr>)"
| new_cas: "ps_pc s i = New_n ob n \<Longrightarrow> obj_freelist (ps_heap s) = ob \<Longrightarrow>
     pool_step s (pool_acquire s i ob ((ps_heap s)\<lparr>obj_freelist := n\<rparr>))"
| new_retry: "ps_pc s i = New_n ob n \<Longrightarrow> obj_freelist (ps_heap s) \<noteq> ob \<Longrightarrow>
     pool_step s (s\<lparr>ps_pc := (ps_pc s)(i := pool_load s)\<rparr>)"
| del_load: "ps_pc s i = Idle \<Longrightarrow> ob \<in> ps_owned s i \<Longrightarrow>
     pool_step s (s\<lparr>ps_pc := (ps_pc s)(i := Del_o ob (obj_freelist (ps_heap s))),
                    ps_owned := (ps_owned s)(i := ps_owned s i - {ob})\<rparr>)"
| del_write: "ps_pc s i = Del_o ob f \<Longrightarrow>
     pool_step s (s\<lparr>ps_heap := set_next ob f (ps_heap s), ps_pc := (ps_pc s)(i := Del_w ob f)\<rparr>)"
| del_cas: "ps_pc s i = Del_w ob f \<Longrightarrow> obj_freelist (ps_heap s) = f \<Longrightarrow>
     pool_step s (s\<lparr>ps_heap := (ps_heap s)\<lparr>obj_freelist := ob\<rparr>, ps_pc := (ps_pc s)(i := Idle)\<rparr>)"
| del_retry: "ps_pc s i = Del_w ob f \<Longrightarrow> obj_freelist (ps_heap s) \<noteq> f \<Longrightarrow>
     pool_step s (s\<lparr>ps_pc := (ps_pc s)(i := Del_o ob (obj_freelist (ps_heap s)))\<rparr>)"

section \<open>Lists in the heap\<close>

fun lseg :: "(nat \<Rightarrow> nat) \<Rightarrow> nat \<Rightarrow> nat list \<Rightarrow> nat \<Rightarrow> bool" where
  "lseg nx a [] b \<longleftrightarrow> a = b"
| "lseg nx a (x # xs) b \<longleftrightarrow> a = x \<and> x \<noteq> 0 \<and> lseg nx (nx x) xs b"

text \<open>\<open>prev\<close> links: each object to its predecessor, the first one to \<open>p\<close>.\<close>

fun back_links :: "(nat \<Rightarrow> nat) \<Rightarrow> nat \<Rightarrow> nat list \<Rightarrow> bool" where
  "back_links pv p [] \<longleftrightarrow> True"
| "back_links pv p (x # xs) \<longleftrightarrow> pv x = p \<and> back_links pv x xs"

definition obj_list :: "ObjHeap \<Rightarrow> nat \<Rightarrow> nat list \<Rightarrow> bool" where
  "obj_list h first xs \<longleftrightarrow> lseg (o_next h) first xs 0 \<and> (xs \<noteq> [] \<longrightarrow> back_links (o_prev h) (last xs) xs)"

text \<open>The pool: free list \<open>ys\<close>, a list \<open>xs\<close> in use that starts at \<open>first\<close>, and other objects \<open>U\<close> in use.\<close>

definition pool_inv :: "ObjHeap \<Rightarrow> nat list \<Rightarrow> nat \<Rightarrow> nat list \<Rightarrow> nat set \<Rightarrow> bool" where
  "pool_inv h ys first xs U \<longleftrightarrow> obj_list h first xs \<and> lseg (o_next h) (obj_freelist h) ys 0 \<and>
     distinct (xs @ ys) \<and> U \<inter> set (xs @ ys) = {} \<and> 0 \<notin> U \<and> 0 < o_fresh h \<and>
     (\<forall>a \<in> set (xs @ ys) \<union> U. a < o_fresh h)"

section \<open>Lemmas\<close>

lemma set_next_sel [simp]:
  "o_next (set_next a n h) = (o_next h)(a := n)" "o_prev (set_next a n h) = o_prev h"
  "obj_freelist (set_next a n h) = obj_freelist h" "o_fresh (set_next a n h) = o_fresh h"
  by (simp_all add: set_next_def)

lemma set_prev_sel [simp]:
  "o_prev (set_prev a n h) = (o_prev h)(a := n)" "o_next (set_prev a n h) = o_next h"
  "obj_freelist (set_prev a n h) = obj_freelist h" "o_fresh (set_prev a n h) = o_fresh h"
  by (simp_all add: set_prev_def)

lemma lseg_cong: "lseg nx a xs b \<Longrightarrow> (\<And>x. x \<in> set xs \<Longrightarrow> nx' x = nx x) \<Longrightarrow> lseg nx' a xs b"
  by (induction xs arbitrary: a) auto

lemma lseg_upd [simp]: "x \<notin> set xs \<Longrightarrow> lseg (nx(x := n)) a xs b = lseg nx a xs b"
  by (induction xs arbitrary: a) auto

lemma lseg_append: "lseg nx a (xs @ ys) b \<longleftrightarrow> (\<exists>c. lseg nx a xs c \<and> lseg nx c ys b)"
  by (induction xs arbitrary: a) auto

lemma lseg_nonzero: "lseg nx a xs b \<Longrightarrow> 0 \<notin> set xs"
  by (induction xs arbitrary: a) auto

lemma lseg_first: "lseg nx a xs 0 \<Longrightarrow> a \<noteq> 0 \<longleftrightarrow> xs \<noteq> []"
  by (cases xs) auto

lemma lseg_snoc:
  assumes "lseg nx a xs b" "b \<noteq> 0" "distinct xs" "b \<notin> set xs"
  shows "lseg (nx(b := c)) a (xs @ [b]) c"
  using assms by (auto simp: lseg_append)

lemma back_links_upd [simp]: "x \<notin> set xs \<Longrightarrow> back_links (pv(x := n)) p xs = back_links pv p xs"
  by (induction xs arbitrary: p) auto

lemma back_links_append:
  "back_links pv p (xs @ ys) \<longleftrightarrow> back_links pv p xs \<and> back_links pv (if xs = [] then p else last xs) ys"
  by (induction xs arbitrary: p) auto

lemma pool_invD:
  assumes "pool_inv h ys first xs U"
  shows "lseg (o_next h) first xs 0" "xs \<noteq> [] \<Longrightarrow> back_links (o_prev h) (last xs) xs"
    "lseg (o_next h) (obj_freelist h) ys 0" "distinct xs" "distinct ys" "set xs \<inter> set ys = {}"
    "U \<inter> set xs = {}" "U \<inter> set ys = {}" "0 \<notin> U" "0 < o_fresh h"
    "\<And>a. a \<in> set xs \<Longrightarrow> a < o_fresh h" "\<And>a. a \<in> set ys \<Longrightarrow> a < o_fresh h" "\<And>a. a \<in> U \<Longrightarrow> a < o_fresh h"
  using assms unfolding pool_inv_def obj_list_def by auto

lemma pool_invI:
  assumes "lseg (o_next h) first xs 0" "xs \<noteq> [] \<Longrightarrow> back_links (o_prev h) (last xs) xs"
    "lseg (o_next h) (obj_freelist h) ys 0" "distinct xs" "distinct ys" "set xs \<inter> set ys = {}"
    "U \<inter> set xs = {}" "U \<inter> set ys = {}" "0 \<notin> U" "0 < o_fresh h"
    "\<And>a. a \<in> set xs \<Longrightarrow> a < o_fresh h" "\<And>a. a \<in> set ys \<Longrightarrow> a < o_fresh h" "\<And>a. a \<in> U \<Longrightarrow> a < o_fresh h"
  shows "pool_inv h ys first xs U"
  using assms unfolding pool_inv_def obj_list_def by auto

text \<open>Taking an object: it was free or is new.\<close>

lemma pool_take_inv:
  assumes inv: "pool_inv h ys first xs U"
  obtains ob h' where "pool_take True h = (ob, h')" "ob \<noteq> 0" "ob \<notin> set xs" "ob \<notin> U"
    "pool_inv h' (tl ys) first xs (insert ob U)" "\<And>a. a \<noteq> ob \<Longrightarrow> o_next h' a = o_next h a \<and> o_prev h' a = o_prev h a"
proof (cases ys)
  case Nil
  note D = pool_invD [OF inv]
  let ?h = "set_next (o_fresh h) 0 (set_prev (o_fresh h) 0 (h\<lparr>o_fresh := o_fresh h + 1\<rparr>))"
  have f: "o_fresh h \<notin> set xs" "o_fresh h \<notin> U" "o_fresh h \<noteq> 0" using D(10,11,13) by auto
  have "pool_inv ?h (tl ys) first xs (insert (o_fresh h) U)"
    by (rule pool_invI) (use D f Nil in \<open>auto simp: less_SucI\<close>)
  moreover have "pool_take True h = (o_fresh h, ?h)" using D(3) Nil by (simp add: pool_take_def)
  ultimately show ?thesis using that [of "o_fresh h" ?h] f by simp
next
  case (Cons y ys')
  note D = pool_invD [OF inv]
  let ?h = "h\<lparr>obj_freelist := o_next h y\<rparr>"
  have y: "obj_freelist h = y" "y \<noteq> 0" "y \<notin> set xs" "y \<notin> U" "lseg (o_next h) (o_next h y) ys' 0" "y < o_fresh h"
    using D(3,6,8,12) Cons by auto
  have "pool_inv ?h (tl ys) first xs (insert y U)"
    by (rule pool_invI) (use D y Cons in \<open>auto intro: D(10)\<close>)
  moreover have "pool_take True h = (y, ?h)" using y by (simp add: pool_take_def)
  ultimately show ?thesis using that [of y ?h] y by simp
qed

lemma link_tail:
  assumes inv: "pool_inv h ys first xs (insert ob U)" and ob: "ob \<notin> U"
    and h': "h' = (if first \<noteq> 0 then set_prev first ob (set_prev ob (o_prev h first) (set_next (o_prev h first) ob (set_next ob 0 h)))
                   else set_prev ob ob (set_next ob 0 h))"
  shows "pool_inv h' ys (if first \<noteq> 0 then first else ob) (xs @ [ob]) U"
proof (cases "xs = []")
  case True
  note D = pool_invD [OF inv]
  have f: "first = 0" using D(1) True by simp
  show ?thesis unfolding h' by (rule pool_invI) (use D f True ob in auto)
next
  case False
  note D = pool_invD [OF inv]
  obtain x zs where xs: "xs = x # zs" using False by (cases xs) auto
  then have f: "first = x" "x \<noteq> 0" using D(1) by auto
  have l: "o_prev h first = last xs" using D(2) [OF False] xs f by simp
  obtain as where as: "xs = as @ [last xs]" using False by (metis append_butlast_last_id)
  have "distinct (as @ [last xs])" using D(4) as by metis
  then have lx: "last xs \<in> set xs" "last xs \<notin> set as" using False by auto
  have nob: "ob \<notin> set xs" "ob \<notin> set ys" "ob \<noteq> 0" "ob < o_fresh h" using D(7,8,9,13) by auto
  have "lseg (o_next h) first as (last xs) \<and> last xs \<noteq> 0" using D(1) as by (metis lseg.simps(2) lseg_append)
  moreover have "ob \<notin> set as" using nob(1) as by (metis Un_iff set_append)
  ultimately have n: "lseg ((o_next h)(ob := 0, last xs := ob)) first (xs @ [ob]) 0"
    using lx nob by (subst (2) as) (auto simp: lseg_append)
  have "back_links (o_prev h) x zs" using D(2) [OF False] xs by simp
  moreover have "x \<notin> set zs" "ob \<noteq> x" "ob \<notin> set zs" using D(4) nob xs by auto
  ultimately have b: "back_links ((o_prev h)(ob := last xs, x := ob)) ob (xs @ [ob])"
    using xs by (auto simp: back_links_append)
  have ly: "last xs \<notin> set ys" using lx(1) D(6) by blast
  have b': "back_links (o_prev h') (last (xs @ [ob])) (xs @ [ob])" using b l f by (simp add: h')
  have n': "o_next h' = (o_next h)(ob := 0, last xs := ob)" using l f by (simp add: h')
  have s': "obj_freelist h' = obj_freelist h" "o_fresh h' = o_fresh h" by (simp_all add: h')
  have y': "lseg (o_next h') (obj_freelist h) ys 0" unfolding n' using D(3) ly nob by simp
  show ?thesis
    by (rule pool_invI) (use D(4-13) n n' b' y' s' f nob ob in \<open>auto intro: D(10)\<close>)
qed

lemma link_front:
  assumes inv: "pool_inv h ys first xs (insert ob U)" and ob: "ob \<notin> U"
    and h': "h' = (if first \<noteq> 0 then set_prev first ob (set_prev ob (o_prev h first) (set_next ob first h))
                   else set_prev ob ob (set_next ob first h))"
  shows "pool_inv h' ys ob (ob # xs) U"
proof (cases xs)
  case Nil
  note D = pool_invD [OF inv]
  show ?thesis unfolding h' by (rule pool_invI) (use D Nil ob in auto)
next
  case (Cons x zs)
  note D = pool_invD [OF inv]
  have f: "first = x" "x \<noteq> 0" using D(1) Cons by auto
  have l: "o_prev h first = last xs" "back_links (o_prev h) x zs" using D(2) Cons f by auto
  have nob: "ob \<notin> set xs" "ob \<notin> set ys" "ob \<noteq> 0" "ob < o_fresh h" using D(7,8,9,13) by auto
  have xz: "x \<notin> set zs" using D(4) Cons by simp
  have b: "back_links ((o_prev h)(ob := last xs, x := ob)) (last (ob # xs)) (ob # xs)"
    using l(2) nob xz Cons by auto
  show ?thesis unfolding h'
    by (rule pool_invI) (use D b l f nob ob Cons in \<open>auto intro: D(10)\<close>)
qed

lemma unlink_inv:
  assumes inv: "pool_inv h ys first xs U" and ob: "ob \<in> set xs" and u: "pool_unlink h first ob = (first', h')"
  shows "pool_inv h' ys first' (remove1 ob xs) (insert ob U)"
    "\<And>a. a \<notin> set xs \<Longrightarrow> o_next h' a = o_next h a \<and> o_prev h' a = o_prev h a"
proof -
  note D = pool_invD [OF inv]
  have nob: "ob \<noteq> 0" "ob < o_fresh h" "ob \<notin> set ys" using ob D(6,11) lseg_nonzero [OF D(1)] by auto
  have fx: "first \<in> set xs" "first \<noteq> 0" using D(1) ob by (cases xs; auto)+
  have fr: "obj_freelist h' = obj_freelist h" "o_fresh h' = o_fresh h"
    using u by (auto simp: pool_unlink_def Let_def split: if_splits)
  obtain as bs where s: "xs = as @ ob # bs" using ob by (meson split_list)
  have ds: "ob \<notin> set as" "ob \<notin> set bs" "distinct as" "distinct bs" "set as \<inter> set bs = {}" using D(4) s by auto
  have rm: "remove1 ob xs = as @ bs" using s ds by (simp add: remove1_append)
  have seg: "lseg (o_next h) first as ob" "lseg (o_next h) (o_next h ob) bs 0"
    using D(1) s by (auto simp: lseg_append)
  have bl: "back_links (o_prev h) (last xs) as" "o_prev h ob = (if as = [] then last xs else last as)" "back_links (o_prev h) ob bs"
    using D(2) s ob by (auto simp: back_links_append)
  have nb: "o_next h ob \<noteq> 0 \<longleftrightarrow> bs \<noteq> []" using lseg_first [OF seg(2)] .
  have bs_hd: "o_next h ob = hd bs" "back_links (o_prev h) (hd bs) (tl bs)" "hd bs \<in> set bs" "hd bs \<notin> set (tl bs)" if "bs \<noteq> []"
    using that seg(2) bl(3) ds(4) by (cases bs; auto)+
  have key: "lseg (o_next h') first' (as @ bs) 0 \<and> (as @ bs \<noteq> [] \<longrightarrow> back_links (o_prev h') (last (as @ bs)) (as @ bs)) \<and>
      (\<forall>a. a \<notin> set xs \<longrightarrow> o_next h' a = o_next h a \<and> o_prev h' a = o_prev h a)"
  proof (cases "as = []")
    case True
    then have of: "ob = first" using seg(1) by simp
    have f': "first' = o_next h ob" and h': "h' = (if o_next h ob \<noteq> 0 then set_prev (o_next h ob) (o_prev h ob) h else h)"
      using u of by (auto simp: pool_unlink_def)
    show ?thesis
    proof (cases "bs = []")
      case True
      then show ?thesis using \<open>as = []\<close> f' h' nb seg by simp
    next
      case False
      have "back_links ((o_prev h)(hd bs := last xs)) (last xs) bs"
        using bs_hd [OF False] False by (cases bs) auto
      moreover have "last xs = last bs" using s False by simp
      moreover have "hd bs \<in> set xs" using bs_hd(3) [OF False] s by simp
      ultimately show ?thesis
        using True f' h' seg(2) nb False bs_hd(1) bl(2) by auto
    qed
  next
    case False
    obtain cs p where as: "as = cs @ [p]" using False by (cases as rule: rev_cases) auto
    have fa: "first \<in> set as" using seg(1) False by (cases as) auto
    then have nf: "ob \<noteq> first" using ds(1) by auto
    have p: "o_prev h ob = p" using bl(2) as by simp
    have pn: "p \<notin> set bs" "p \<notin> set cs" "p \<in> set xs" "lseg (o_next h) first cs p" "p \<noteq> 0"
      using ds as seg(1) s by (auto simp: lseg_append)
    have f': "first' = first" and h': "h' = (if o_next h ob \<noteq> 0 then set_prev (o_next h ob) p (set_next p (o_next h ob) h)
         else set_prev first p (set_next p (o_next h ob) h))"
      using u nf p by (auto simp: pool_unlink_def Let_def)
    have nx: "o_next h' = (o_next h)(p := o_next h ob)" using h' by simp
    have seg': "lseg (o_next h') first (as @ bs) 0" unfolding nx using pn seg(2) as by (auto simp: lseg_append)
    show ?thesis
    proof (cases "bs = []")
      case True
      obtain x as' where as': "as = x # as'" "x = first" using fa seg(1) False by (cases as) auto
      have "back_links ((o_prev h)(first := p)) p as" using bl(1) as' ds(3) by auto
      moreover have "o_next h ob = 0" using nb True by simp
      ultimately show ?thesis using seg' f' h' True as fx(1) pn(3) by auto
    next
      case nb': False
      have "back_links ((o_prev h)(hd bs := p)) p bs" using bs_hd [OF nb'] nb' by (cases bs) auto
      moreover have "hd bs \<notin> set as" "hd bs \<in> set xs" using bs_hd(3) [OF nb'] ds(5) s by auto
      moreover have "last (as @ bs) = last xs" using s nb' by simp
      ultimately show ?thesis
        using seg' f' h' nb nb' bs_hd(1) bl(1) as pn(3) by (auto simp: back_links_append)
    qed
  qed
  then show "\<And>a. a \<notin> set xs \<Longrightarrow> o_next h' a = o_next h a \<and> o_prev h' a = o_prev h a" by blast
  have "lseg (o_next h') (obj_freelist h) ys 0"
    using lseg_cong [OF D(3)] key D(6) by (metis disjoint_iff)
  then show "pool_inv h' ys first' (remove1 ob xs) (insert ob U)"
    unfolding rm by (intro pool_invI) (use key D nob ds s fr in \<open>auto intro: D(10)\<close>)
qed

lemma Delete_inv:
  assumes inv: "pool_inv h ys first xs (insert ob U)" and ob: "ob \<notin> U"
  shows "pool_inv (pool_Delete h ob) (ob # ys) first xs U"
proof -
  note D = pool_invD [OF inv]
  show ?thesis
    by (rule pool_invI) (use D ob in \<open>auto simp: pool_Delete_def intro: D(10)\<close>)
qed

lemma AddToFreeList_inv:
  assumes inv: "pool_inv h ys first xs U" and ne: "xs \<noteq> []"
  shows "pool_inv (AddToFreeList h first) (xs @ ys) 0 [] U"
proof -
  note D = pool_invD [OF inv]
  have l: "o_prev h first = last xs" using D(1) D(2) [OF ne] ne by (cases xs) auto
  obtain as where as: "xs = as @ [last xs]" using ne by (metis append_butlast_last_id)
  have "distinct (as @ [last xs])" using D(4) as by metis
  then have lx: "last xs \<notin> set as" "last xs \<notin> set ys" "last xs \<noteq> 0"
    using D(6) lseg_nonzero [OF D(1)] last_in_set [OF ne] by (auto simp: disjoint_iff intro!: gr0I)
  have "lseg (o_next h) first as (last xs)" using D(1) as by (metis lseg.simps(2) lseg_append)
  then have "lseg ((o_next h)(last xs := obj_freelist h)) first (as @ last xs # ys) 0"
    using D(3) lx by (auto simp: lseg_append)
  then have "lseg ((o_next h)(last xs := obj_freelist h)) first (xs @ ys) 0" by (subst as) simp
  then show ?thesis
    by (intro pool_invI) (use D l in \<open>auto simp: AddToFreeList_def\<close>)
qed

section \<open>The list interface\<close>

text \<open>What the pool offers to a client that keeps its objects in lists: appending, inserting in front,
  removing one and removing all of them work on the sequence of objects, the object handed out is not in
  use, and the links of all other objects stay as they are.\<close>

locale obj_pool =
  fixes rep :: "'h \<Rightarrow> 'f \<Rightarrow> 'a list \<Rightarrow> 'a set \<Rightarrow> bool"
    and new :: "'h \<Rightarrow> 'f \<Rightarrow> 'a \<times> 'f \<times> 'h"
    and new_front :: "'h \<Rightarrow> 'f \<Rightarrow> 'a \<times> 'f \<times> 'h"
    and del :: "'h \<Rightarrow> 'f \<Rightarrow> 'a \<Rightarrow> 'f \<times> 'h"
  assumes new_rep: "rep h l xs U \<Longrightarrow> \<exists>ob l' h'. new h l = (ob, l', h') \<and> ob \<notin> set xs \<union> U \<and> rep h' l' (xs @ [ob]) U"
    and front_rep: "rep h l xs U \<Longrightarrow> \<exists>ob l' h'. new_front h l = (ob, l', h') \<and> ob \<notin> set xs \<union> U \<and> rep h' l' (ob # xs) U"
    and del_rep: "rep h l xs U \<Longrightarrow> ob \<in> set xs \<Longrightarrow> \<exists>l' h'. del h l ob = (l', h') \<and> rep h' l' (remove1 ob xs) U"
begin

lemma new_del:
  assumes "rep h l xs U" "new h l = (ob, l', h')"
  shows "\<exists>l'' h''. del h' l' ob = (l'', h'') \<and> rep h'' l'' xs U"
proof -
  have ob: "ob \<notin> set xs" and r: "rep h' l' (xs @ [ob]) U" using new_rep [OF assms(1)] assms(2) by auto
  have "remove1 ob (xs @ [ob]) = xs" using ob by (simp add: remove1_append)
  then show ?thesis using del_rep [OF r, of ob] by auto
qed

lemma front_del:
  assumes "rep h l xs U" "new_front h l = (ob, l', h')"
  shows "\<exists>l'' h''. del h' l' ob = (l'', h'') \<and> rep h'' l'' xs U"
proof -
  have r: "rep h' l' (ob # xs) U" using front_rep [OF assms(1)] assms(2) by auto
  then show ?thesis using del_rep [OF r, of ob] by auto
qed

end

definition pool_rep :: "ObjHeap \<Rightarrow> nat \<Rightarrow> nat list \<Rightarrow> nat set \<Rightarrow> bool" where
  "pool_rep h first xs U \<longleftrightarrow> (\<exists>ys. pool_inv h ys first xs U)"

lemma New_list_inv:
  assumes "pool_inv h ys first xs U"
  shows "\<exists>ob first' h'. pool_New_list True h first = (ob, first', h') \<and> ob \<noteq> 0 \<and> ob \<notin> set xs \<union> U \<and>
     pool_inv h' (tl ys) first' (xs @ [ob]) U"
proof -
  obtain ob h1 where t: "pool_take True h = (ob, h1)" "ob \<noteq> 0" "ob \<notin> set xs" "ob \<notin> U"
    "pool_inv h1 (tl ys) first xs (insert ob U)" by (rule pool_take_inv [OF assms])
  have "ob \<noteq> first" using pool_invD(1) [OF assms] t(2,3) by (cases xs) auto
  then have "pool_New_list True h first = (ob, if first \<noteq> 0 then first else ob,
      if first \<noteq> 0 then set_prev first ob (set_prev ob (o_prev h1 first) (set_next (o_prev h1 first) ob (set_next ob 0 h1)))
      else set_prev ob ob (set_next ob 0 h1))"
    using t(1,2) by (simp add: pool_New_list_def Let_def)
  then show ?thesis using link_tail [OF t(5,4) refl] t(2-4) by blast
qed

lemma NewFront_inv:
  assumes "pool_inv h ys first xs U"
  shows "\<exists>ob first' h'. pool_NewFront True h first = (ob, first', h') \<and> ob \<noteq> 0 \<and> ob \<notin> set xs \<union> U \<and>
     pool_inv h' (tl ys) first' (ob # xs) U"
proof -
  obtain ob h1 where t: "pool_take True h = (ob, h1)" "ob \<noteq> 0" "ob \<notin> set xs" "ob \<notin> U"
    "pool_inv h1 (tl ys) first xs (insert ob U)" by (rule pool_take_inv [OF assms])
  have "pool_NewFront True h first = (ob, ob,
      if first \<noteq> 0 then set_prev first ob (set_prev ob (o_prev h1 first) (set_next ob first h1))
      else set_prev ob ob (set_next ob first h1))"
    using t(1,2) by (simp add: pool_NewFront_def Let_def)
  then show ?thesis using link_front [OF t(5,4) refl] t(2-4) by blast
qed

lemma Delete_list_inv:
  assumes "pool_inv h ys first xs U" "ob \<in> set xs"
  shows "\<exists>first' h'. pool_Delete_list h first ob = (first', h') \<and> pool_inv h' (ob # ys) first' (remove1 ob xs) U"
proof -
  obtain first' h1 where u: "pool_unlink h first ob = (first', h1)" by fastforce
  have "ob \<notin> U" using pool_invD(7) [OF assms(1)] assms(2) by blast
  then show ?thesis
    using Delete_inv [OF unlink_inv(1) [OF assms u]] u by (simp add: pool_Delete_list_def)
qed

interpretation opool: obj_pool pool_rep "pool_New_list True" "pool_NewFront True" pool_Delete_list
proof unfold_locales
  fix h l xs U
  assume "pool_rep h l xs U"
  then show "\<exists>ob l' h'. pool_New_list True h l = (ob, l', h') \<and> ob \<notin> set xs \<union> U \<and> pool_rep h' l' (xs @ [ob]) U"
    using New_list_inv unfolding pool_rep_def by blast
next
  fix h l xs U
  assume "pool_rep h l xs U"
  then show "\<exists>ob l' h'. pool_NewFront True h l = (ob, l', h') \<and> ob \<notin> set xs \<union> U \<and> pool_rep h' l' (ob # xs) U"
    using NewFront_inv unfolding pool_rep_def by blast
next
  fix h l xs U ob
  assume "pool_rep h l xs U" "ob \<in> set xs"
  then show "\<exists>l' h'. pool_Delete_list h l ob = (l', h') \<and> pool_rep h' l' (remove1 ob xs) U"
    using Delete_list_inv unfolding pool_rep_def by blast
qed

section \<open>Properties\<close>

definition pool_empty :: ObjHeap where
  "pool_empty = \<lparr>o_next = (\<lambda>_. 0), o_prev = (\<lambda>_. 0), obj_freelist = 0, o_fresh = 1\<rparr>"

lemma pool_empty_inv: "pool_inv pool_empty [] 0 [] {}"
  by (rule pool_invI) (simp_all add: pool_empty_def)

text \<open>(C22) The pointer operations of the pool implement operations on sequences. With free list \<open>ys\<close>,
  a list \<open>xs\<close> from \<open>first\<close> and other objects \<open>U\<close> in use, \<open>New(first)\<close> appends and \<open>NewFront(first)\<close>
  prepends an object that is not in use, taken from the head of the free list if there is one;
  \<open>Delete(first, obj)\<close> removes the object and pushes it on the free list; \<open>DeleteAll\<close> moves the whole list there.\<close>

theorem pool_refines_lists:
  assumes "pool_inv h ys first xs U"
  shows "(\<exists>ob first' h'. pool_New_list True h first = (ob, first', h') \<and> ob \<noteq> 0 \<and> ob \<notin> set xs \<union> U \<and>
            pool_inv h' (tl ys) first' (xs @ [ob]) U) \<and>
    (\<exists>ob first' h'. pool_NewFront True h first = (ob, first', h') \<and> ob \<noteq> 0 \<and> ob \<notin> set xs \<union> U \<and>
            pool_inv h' (tl ys) first' (ob # xs) U) \<and>
    (\<forall>ob \<in> set xs. \<exists>first' h'. pool_Delete_list h first ob = (first', h') \<and>
            pool_inv h' (ob # ys) first' (remove1 ob xs) U) \<and>
    (xs \<noteq> [] \<longrightarrow> (\<exists>h'. DeleteAll h first = Some (0, h') \<and> pool_inv h' (xs @ ys) 0 [] U))"
proof (intro conjI ballI impI)
  fix ob assume "ob \<in> set xs"
  then show "\<exists>first' h'. pool_Delete_list h first ob = (first', h') \<and> pool_inv h' (ob # ys) first' (remove1 ob xs) U"
    by (rule Delete_list_inv [OF assms])
next
  assume ne: "xs \<noteq> []"
  then have "first \<noteq> 0" using lseg_first [OF pool_invD(1) [OF assms]] by simp
  then show "\<exists>h'. DeleteAll h first = Some (0, h') \<and> pool_inv h' (xs @ ys) 0 [] U"
    using AddToFreeList_inv [OF assms ne] by (simp add: DeleteAll_def)
qed (use New_list_inv [OF assms] NewFront_inv [OF assms] in blast)+

theorem pool_refines_lists_witness:
  "\<exists>ob first' h'. pool_New_list True pool_empty 0 = (ob, first', h') \<and> pool_inv h' [] first' [ob] {}"
  using pool_refines_lists [OF pool_empty_inv] by auto

definition pool_two :: pool_state where
  "pool_two = \<lparr>ps_heap = \<lparr>o_next = (\<lambda>_. 0)(1 := 2), o_prev = (\<lambda>_. 0), obj_freelist = 1, o_fresh = 3\<rparr>,
     ps_pc = (\<lambda>_. Idle), ps_owned = (\<lambda>_. {})\<rparr>"

lemma pool_step_to: "pool_step s t \<Longrightarrow> t = u \<Longrightarrow> pool_step s u"
  by simp

text \<open>(C23) The free list is not safe for several threads. Starting with two released objects, one thread
  loads the head and its successor in \<open>New()\<close>; before its compare-and-swap the other thread takes both
  objects and releases the first again. The compare-and-swap then succeeds and makes an object the head
  of the free list that the other thread still owns.\<close>

theorem pool_aba:
  "\<exists>s. pool_step\<^sup>*\<^sup>* pool_two s \<and> obj_freelist (ps_heap s) \<in> ps_owned s False \<and> obj_freelist (ps_heap s) \<noteq> 0"
proof -
  let ?z = "\<lambda>_ :: nat. 0 :: nat"
  let ?st = "\<lambda>nx pv f pc0 pc1 o0 o1. \<lparr>ps_heap = \<lparr>o_next = nx, o_prev = pv, obj_freelist = f, o_fresh = 3\<rparr>,
     ps_pc = (\<lambda>i. if i then pc1 else pc0), ps_owned = (\<lambda>i. if i then o1 else o0)\<rparr>"
  note step = pool_two_def pool_acquire_def pool_load_def set_next_def set_prev_def fun_eq_iff
  have 1: "pool_step pool_two (?st (?z(1 := 2)) ?z 1 Idle (New_o 1) {} {})"
    by (rule pool_step_to [OF new_load [where i = True]]) (auto simp: step)
  have 2: "pool_step (?st (?z(1 := 2)) ?z 1 Idle (New_o 1) {} {}) (?st (?z(1 := 2)) ?z 1 Idle (New_n 1 2) {} {})"
    by (rule pool_step_to [OF new_next [where i = True]]) (auto simp: step)
  have 3: "pool_step (?st (?z(1 := 2)) ?z 1 Idle (New_n 1 2) {} {}) (?st (?z(1 := 2)) ?z 1 (New_o 1) (New_n 1 2) {} {})"
    by (rule pool_step_to [OF new_load [where i = False]]) (auto simp: step)
  have 4: "pool_step (?st (?z(1 := 2)) ?z 1 (New_o 1) (New_n 1 2) {} {}) (?st (?z(1 := 2)) ?z 1 (New_n 1 2) (New_n 1 2) {} {})"
    by (rule pool_step_to [OF new_next [where i = False]]) (auto simp: step)
  have 5: "pool_step (?st (?z(1 := 2)) ?z 1 (New_n 1 2) (New_n 1 2) {} {}) (?st ?z (?z(1 := 1)) 2 Idle (New_n 1 2) {1} {})"
    by (rule pool_step_to [OF new_cas [where i = False]]) (auto simp: step)
  have 6: "pool_step (?st ?z (?z(1 := 1)) 2 Idle (New_n 1 2) {1} {}) (?st ?z (?z(1 := 1)) 2 (New_o 2) (New_n 1 2) {1} {})"
    by (rule pool_step_to [OF new_load [where i = False]]) (auto simp: step)
  have 7: "pool_step (?st ?z (?z(1 := 1)) 2 (New_o 2) (New_n 1 2) {1} {}) (?st ?z (?z(1 := 1)) 2 (New_n 2 0) (New_n 1 2) {1} {})"
    by (rule pool_step_to [OF new_next [where i = False]]) (auto simp: step)
  have 8: "pool_step (?st ?z (?z(1 := 1)) 2 (New_n 2 0) (New_n 1 2) {1} {}) (?st ?z (?z(1 := 1, 2 := 2)) 0 Idle (New_n 1 2) {1, 2} {})"
    by (rule pool_step_to [OF new_cas [where i = False]]) (auto simp: step)
  have 9: "pool_step (?st ?z (?z(1 := 1, 2 := 2)) 0 Idle (New_n 1 2) {1, 2} {}) (?st ?z (?z(1 := 1, 2 := 2)) 0 (Del_o 1 0) (New_n 1 2) {2} {})"
    by (rule pool_step_to [OF del_load [where i = False and ob = 1]]) (auto simp: step)
  have 10: "pool_step (?st ?z (?z(1 := 1, 2 := 2)) 0 (Del_o 1 0) (New_n 1 2) {2} {}) (?st ?z (?z(1 := 1, 2 := 2)) 0 (Del_w 1 0) (New_n 1 2) {2} {})"
    by (rule pool_step_to [OF del_write [where i = False]]) (auto simp: step)
  have 11: "pool_step (?st ?z (?z(1 := 1, 2 := 2)) 0 (Del_w 1 0) (New_n 1 2) {2} {}) (?st ?z (?z(1 := 1, 2 := 2)) 1 Idle (New_n 1 2) {2} {})"
    by (rule pool_step_to [OF del_cas [where i = False]]) (auto simp: step)
  have 12: "pool_step (?st ?z (?z(1 := 1, 2 := 2)) 1 Idle (New_n 1 2) {2} {}) (?st ?z (?z(1 := 1, 2 := 2)) 2 Idle Idle {2} {1})"
    by (rule pool_step_to [OF new_cas [where i = True]]) (auto simp: step)
  have "pool_step\<^sup>*\<^sup>* pool_two (?st ?z (?z(1 := 1, 2 := 2)) 2 Idle Idle {2} {1})"
    using 1 2 3 4 5 6 7 8 9 10 11 12 by (meson converse_rtranclp_into_rtranclp rtranclp.rtrancl_refl)
  moreover have "obj_freelist (ps_heap (?st ?z (?z(1 := 1, 2 := 2)) 2 Idle Idle {2} {1})) = 2"
    "ps_owned (?st ?z (?z(1 := 1, 2 := 2)) 2 Idle Idle {2} {1}) False = {2}" by simp_all
  ultimately show ?thesis by (metis insertI1 zero_neq_numeral)
qed

end
