(* ===== verification/Mem_Pool.thy ===== *)
theory Mem_Pool
  imports Obj_Pool
begin

text \<open>
  The memory manager of \<open>knv/mem_pool.h\<close> and \<open>knv/mem_pool.cc\<close>: nine pools of equally sized buffers and
  direct allocation above the largest size.

  An \<open>UcMem\<close> object in a pool is its address and whether it holds memory (\<open>mem\<close> is not \<open>NULL\<close>). The object
  pool inside \<open>UcMemPool\<close> appears as its free list, a stack by the results of \<open>Obj_Pool\<close>, and the next fresh
  address. Each \<open>new\<close> and \<open>malloc\<close> has its outcome as an argument. The counters are unsigned 64-bit numbers
  that the code also reads as signed ones; the atomic updates run without interference here.
\<close>

section \<open>Definitions\<close>

record UcMemPool =
  sz_each :: nat
  sz_total :: nat
  sz_free :: nat
  sz_max :: nat
  mp_free :: "(nat \<times> bool) list"
  mp_fresh :: nat

text \<open>\<open>__sync_sub_and_fetch\<close> on a counter, undone when the result is negative as a \<open>long\<close>.\<close>

definition counter_sub :: "nat \<Rightarrow> nat \<Rightarrow> nat" where
  "counter_sub c n = (if sub64 c n \<ge> 2 ^ 63 then u64n (sub64 c n + n) else sub64 c n)"

definition mp_take :: "UcMemPool \<Rightarrow> (nat \<times> bool) \<times> UcMemPool" where
  "mp_take p = (case mp_free p of
       [] \<Rightarrow> ((mp_fresh p, False), p\<lparr>mp_fresh := mp_fresh p + 1\<rparr>)
     | m # fs \<Rightarrow> (m, p\<lparr>mp_free := fs\<rparr>))"

definition mp_release :: "nat \<times> bool \<Rightarrow> UcMemPool \<Rightarrow> UcMemPool" where
  "mp_release m p = p\<lparr>mp_free := m # mp_free p\<rparr>"

text \<open>The result is the object and \<open>exceed_limit\<close>. A failing \<open>new\<close> matters only when the free list is empty.\<close>

definition UcMemPool_Alloc :: "bool \<Rightarrow> bool \<Rightarrow> UcMemPool \<Rightarrow> nat option \<times> bool \<times> UcMemPool" where
  "UcMemPool_Alloc new_ok malloc_ok p =
     (if mp_free p = [] \<and> \<not> new_ok then (None, False, p)
      else case mp_take p of ((i, has_mem), p1) \<Rightarrow>
        if \<not> has_mem
        then if u64n (sz_total p1 + sz_each p1) > sz_max p1 then (None, True, mp_release (i, False) p1)
             else if \<not> malloc_ok then (None, False, mp_release (i, False) p1)
             else (Some i, False, p1\<lparr>sz_total := u64n (sz_total p1 + sz_each p1)\<rparr>)
        else (Some i, False, p1\<lparr>sz_free := counter_sub (sz_free p1) (sz_each p1),
                                sz_total := u64n (sz_total p1 + sz_each p1)\<rparr>))"

definition UcMemPool_Free :: "nat \<Rightarrow> UcMemPool \<Rightarrow> UcMemPool" where
  "UcMemPool_Free i p =
     (mp_release (i, True) p)\<lparr>sz_free := u64n (sz_free p + sz_each p),
                              sz_total := counter_sub (sz_total p) (sz_each p)\<rparr>"

text \<open>The second loop of \<open>Shrink\<close>, with the bytes freed so far. An object whose memory was freed goes back on
  top of the free list.\<close>

function shrink_loop :: "UcMemPool \<Rightarrow> nat \<Rightarrow> nat \<times> UcMemPool" where
  "shrink_loop p shk =
     (if sz_free p > min (sz_max p div 4) (sz_total p)
      then case mp_take p of ((i, has_mem), p1) \<Rightarrow>
        if \<not> has_mem then (shk, mp_release (i, False) p1)
        else shrink_loop ((mp_release (i, False) p1)\<lparr>sz_free := counter_sub (sz_free p) (sz_each p)\<rparr>)
               (u64n (shk + sz_each p))
      else (shk, p))"
  by pat_completeness auto
termination
proof (relation "measure (\<lambda>(p, shk). length (filter snd (mp_free p)))", simp_all, goal_cases)
  case 1
  then show ?case
    by (auto simp: mp_take_def mp_release_def split: list.splits)
qed

declare shrink_loop.simps [simp del]

definition UcMemPool_Shrink :: "UcMemPool \<Rightarrow> nat \<times> UcMemPool" where
  "UcMemPool_Shrink p =
     (let sz_allocated = u64n (sz_total p + sz_free p);
          half = unat ((of_nat (sub64 (sz_max p) sz_allocated div 2) :: u64) AND NOT (of_nat (sz_each p) - 1))
      in if sz_max p > u64n (sz_allocated * 2) \<and> half > sz_each p
         then (half, p\<lparr>sz_max := sub64 (sz_max p) half\<rparr>)
         else case shrink_loop p 0 of (shk, p1) \<Rightarrow> (shk, p1\<lparr>sz_max := counter_sub (sz_max p1) shk\<rparr>))"

subsection \<open>Size classes\<close>

definition magics :: "nat list" where
  "magics = [64, 256, 1024, 4096, 16384, 65536, 262144, 1048576, 4194304]"

definition biggest_magic :: nat where
  "biggest_magic = 4194304"

definition nr_magics :: nat where
  "nr_magics = length magics"

function magic_search :: "nat \<Rightarrow> nat \<Rightarrow> nat \<Rightarrow> nat" where
  "magic_search i low high =
     (if low < high
      then let mid = (low + high) div 2
           in if i = magics ! mid then mid
              else if i > magics ! mid then magic_search i (if low < mid then mid else low + 1) high
              else magic_search i low (if high > mid then mid else high - 1)
      else low)"
  by pat_completeness auto
termination
  by (relation "measure (\<lambda>(i, low, high). high - low)") auto

declare magic_search.simps [simp del]

definition get_magic :: "nat \<Rightarrow> int" where
  "get_magic i = (if i \<le> biggest_magic then int (magic_search i 0 (nr_magics - 1)) else -1)"

subsection \<open>The manager\<close>

text \<open>\<open>um_pool\<close> is the size class of the pool an object belongs to; \<open>um_mem\<close> says that it has memory.\<close>

record UcMem =
  alloc_sz :: nat
  um_id :: nat
  um_mem :: bool
  um_pool :: "nat option"

record UcMemManager =
  mng_max :: nat
  mng_pools :: "nat \<Rightarrow> UcMemPool option"

definition GetAllocSize :: "UcMem \<Rightarrow> nat" where
  "GetAllocSize m = (case um_pool m of None \<Rightarrow> alloc_sz m | Some k \<Rightarrow> magics ! k)"

definition new_pool :: "UcMemManager \<Rightarrow> nat \<Rightarrow> UcMemPool" where
  "new_pool g magic = \<lparr>sz_each = magics ! magic, sz_total = 0, sz_free = 0, sz_max = mng_max g div nr_magics,
                       mp_free = [], mp_fresh = 1\<rparr>"

definition GetPool :: "UcMemManager \<Rightarrow> nat \<Rightarrow> UcMemPool \<times> UcMemManager" where
  "GetPool g magic =
     (case mng_pools g magic of
        Some p \<Rightarrow> (p, g)
      | None \<Rightarrow> (new_pool g magic, g\<lparr>mng_pools := (mng_pools g)(magic \<mapsto> new_pool g magic)\<rparr>))"

definition shrink_at :: "UcMemManager \<Rightarrow> nat \<Rightarrow> nat \<times> UcMemManager" where
  "shrink_at g i =
     (case GetPool g i of (p, g1) \<Rightarrow>
        case UcMemPool_Shrink p of (k, p1) \<Rightarrow> (k, g1\<lparr>mng_pools := (mng_pools g1)(i \<mapsto> p1)\<rparr>))"

text \<open>The pools above \<open>magic\<close> from the largest down, until enough is found; then those below it.\<close>

fun shrink_larger :: "UcMemManager \<Rightarrow> nat \<Rightarrow> nat \<Rightarrow> nat list \<Rightarrow> bool \<times> nat \<times> UcMemManager" where
  "shrink_larger g needed shk [] = (False, shk, g)"
| "shrink_larger g needed shk (i # is) =
     (case shrink_at g i of (k, g1) \<Rightarrow>
        if u64n (shk + k) \<ge> needed then (True, u64n (shk + k), g1)
        else shrink_larger g1 needed (u64n (shk + k)) is)"

fun shrink_smaller :: "UcMemManager \<Rightarrow> nat \<Rightarrow> nat list \<Rightarrow> nat \<times> UcMemManager" where
  "shrink_smaller g shk [] = (shk, g)"
| "shrink_smaller g shk (i # is) =
     (case shrink_at g i of (k, g1) \<Rightarrow> shrink_smaller g1 (u64n (shk + k)) is)"

definition UcMemManager_Shrink :: "UcMemManager \<Rightarrow> nat \<Rightarrow> nat \<times> UcMemManager" where
  "UcMemManager_Shrink g magic =
     (case shrink_larger g (magics ! magic) 0 (rev [magic + 1..<nr_magics]) of
        (enough, shk, g1) \<Rightarrow> if enough then (shk, g1) else shrink_smaller g1 shk (rev [0..<magic]))"

text \<open>\<open>new_ok\<close> and \<open>malloc_ok\<close> are the outcomes for the first attempt, \<open>new_ok'\<close> and \<open>malloc_ok'\<close> for the attempt
  after shrinking.\<close>

definition pool_object :: "nat \<Rightarrow> nat \<Rightarrow> UcMem" where
  "pool_object magic i = \<lparr>alloc_sz = 0, um_id = i, um_mem = True, um_pool = Some magic\<rparr>"

definition UcMemManager_Alloc ::
    "bool \<Rightarrow> bool \<Rightarrow> bool \<Rightarrow> bool \<Rightarrow> nat \<Rightarrow> UcMemManager \<Rightarrow> UcMem option \<times> UcMemManager" where
  "UcMemManager_Alloc new_ok malloc_ok new_ok' malloc_ok' sz g =
     (if sz > biggest_magic
      then (if new_ok then Some \<lparr>alloc_sz = (if malloc_ok then sz else 0), um_id = 0, um_mem = malloc_ok, um_pool = None\<rparr>
            else None, g)
      else let magic = nat (get_magic sz)
           in case GetPool g magic of (p, g1) \<Rightarrow>
                case UcMemPool_Alloc new_ok malloc_ok p of (m, exceed, p1) \<Rightarrow>
                  let g2 = g1\<lparr>mng_pools := (mng_pools g1)(magic \<mapsto> p1)\<rparr>
                  in case m of
                       Some i \<Rightarrow> (Some (pool_object magic i), g2)
                     | None \<Rightarrow>
                         if \<not> exceed then (None, g2)
                         else case UcMemManager_Shrink g2 magic of (shk, g3) \<Rightarrow>
                           if shk = 0 then (None, g3)
                           else case GetPool g3 magic of (p3, g4) \<Rightarrow>
                             case UcMemPool_Alloc new_ok' malloc_ok' (p3\<lparr>sz_max := u64n (sz_max p3 + shk)\<rparr>) of (m', _, p4) \<Rightarrow>
                               (map_option (pool_object magic) m', g4\<lparr>mng_pools := (mng_pools g4)(magic \<mapsto> p4)\<rparr>))"

definition UcMemManager_Free :: "UcMem \<Rightarrow> UcMemManager \<Rightarrow> UcMemManager" where
  "UcMemManager_Free m g =
     (case um_pool m of
        None \<Rightarrow> g
      | Some k \<Rightarrow> (case GetPool g k of (p, g1) \<Rightarrow>
                    g1\<lparr>mng_pools := (mng_pools g1)(k \<mapsto> UcMemPool_Free (um_id m) p)\<rparr>))"

section \<open>Lemmas\<close>

lemma magics_mono: "j < 9 \<Longrightarrow> k \<le> j \<Longrightarrow> magics ! k \<le> magics ! j"
proof -
  have "sorted magics" by (simp add: magics_def)
  moreover have "length magics = 9" by (simp add: magics_def)
  ultimately show "j < 9 \<Longrightarrow> k \<le> j \<Longrightarrow> magics ! k \<le> magics ! j" by (simp add: sorted_nth_mono)
qed

lemma magics_strict: "j < 9 \<Longrightarrow> k < j \<Longrightarrow> magics ! k < magics ! j"
proof -
  have "sorted_wrt (<) magics" by (simp add: magics_def)
  moreover have "length magics = 9" by (simp add: magics_def)
  ultimately show "j < 9 \<Longrightarrow> k < j \<Longrightarrow> magics ! k < magics ! j" by (simp add: sorted_wrt_nth_less)
qed

text \<open>The interval of the search keeps the wanted class: the upper end is large enough, and what lies below
  the lower end is too small.\<close>

lemma magic_search_least:
  assumes "low \<le> high" "high < 9" "i \<le> magics ! high" "low = 0 \<or> magics ! (low - 1) < i"
  shows "magic_search i low high < 9 \<and> i \<le> magics ! magic_search i low high \<and>
     (\<forall>k < magic_search i low high. magics ! k < i)"
  using assms
proof (induction i low high rule: magic_search.induct)
  case (1 i low high)
  let ?mid = "(low + high) div 2"
  show ?case
  proof (cases "low < high")
    case False
    have "magics ! k < i" if "k < low" for k
    proof -
      have "magics ! k \<le> magics ! (low - 1)" using that 1(3,4) False by (intro magics_mono) auto
      moreover have "magics ! (low - 1) < i" using 1(6) that by auto
      ultimately show ?thesis by simp
    qed
    then show ?thesis using False 1(3-5) by (subst (1 2 3) magic_search.simps) simp
  next
    case True
    then have mid: "low \<le> ?mid" "?mid < high" by auto
    consider (eq) "i = magics ! ?mid" | (gt) "i > magics ! ?mid" | (lt) "i < magics ! ?mid" by linarith
    then show ?thesis
    proof cases
      case eq
      then have "magic_search i low high = ?mid" using True by (subst magic_search.simps) (simp add: Let_def)
      then show ?thesis using eq mid 1(4) magics_strict [of ?mid] by simp
    next
      case gt
      let ?low = "if low < ?mid then ?mid else low + 1"
      have e: "magic_search i low high = magic_search i ?low high"
        using True gt by (subst magic_search.simps) (simp add: Let_def)
      have "magics ! (?low - 1) < i"
      proof (cases "low < ?mid")
        case True
        then have "magics ! (?mid - 1) \<le> magics ! ?mid" using mid 1(4) by (intro magics_mono) auto
        then show ?thesis using True gt by simp
      next
        case False
        then have "low = ?mid" using mid by simp
        then show ?thesis using gt by simp
      qed
      then show ?thesis unfolding e using 1(1) [OF True refl _ gt] gt mid 1(4,5) by simp
    next
      case lt
      have e: "magic_search i low high = magic_search i low ?mid"
        using True lt mid by (subst magic_search.simps) (simp add: Let_def)
      show ?thesis unfolding e using 1(2) [OF True refl] lt mid 1(4,6) by simp
    qed
  qed
qed

text \<open>The accounting of a pool: \<open>used\<close> are the objects handed out. Counters stay far from the sign bit.\<close>

definition mp_ok :: "UcMemPool \<Rightarrow> nat set \<Rightarrow> bool" where
  "mp_ok p used \<longleftrightarrow> finite used \<and> 0 < sz_each p \<and> sz_total p = sz_each p * card used \<and>
     sz_free p = sz_each p * length (filter snd (mp_free p)) \<and> distinct (map fst (mp_free p)) \<and>
     used \<inter> fst ` set (mp_free p) = {} \<and> (\<forall>i \<in> used \<union> fst ` set (mp_free p). i < mp_fresh p) \<and>
     sz_each p * (mp_fresh p + 1) < 2 ^ 62"

lemma mp_okD:
  assumes "mp_ok p used"
  shows "finite used" "0 < sz_each p" "sz_total p = sz_each p * card used"
    "sz_free p = sz_each p * length (filter snd (mp_free p))" "distinct (map fst (mp_free p))"
    "used \<inter> fst ` set (mp_free p) = {}" "\<And>i. i \<in> used \<Longrightarrow> i < mp_fresh p"
    "\<And>i b. (i, b) \<in> set (mp_free p) \<Longrightarrow> i < mp_fresh p" "sz_each p * (mp_fresh p + 1) < 2 ^ 62"
  using assms unfolding mp_ok_def by force+

lemma mp_ok_bound:
  assumes "mp_ok p used"
  shows "sz_total p + sz_free p + sz_each p < 2 ^ 62"
proof -
  note D = mp_okD [OF assms]
  have "card (fst ` set (mp_free p)) = length (mp_free p)"
    using D(5) by (metis distinct_card length_map list.set_map)
  moreover have "used \<union> fst ` set (mp_free p) \<subseteq> {..<mp_fresh p}" using D(7,8) by auto
  then have "card (used \<union> fst ` set (mp_free p)) \<le> mp_fresh p" by (metis card_lessThan card_mono finite_lessThan)
  ultimately have "card used + length (mp_free p) \<le> mp_fresh p" using D(1,6) by (simp add: card_Un_disjoint)
  then have "card used + length (filter snd (mp_free p)) + 1 \<le> mp_fresh p + 1"
    using length_filter_le [of snd "mp_free p"] by linarith
  then have "sz_each p * (card used + length (filter snd (mp_free p)) + 1) \<le> sz_each p * (mp_fresh p + 1)"
    by (rule mult_le_mono2)
  then show ?thesis using D(3,4,9) by (simp add: algebra_simps)
qed

lemma counter_sub_le: "n \<le> c \<Longrightarrow> c < 2 ^ 62 \<Longrightarrow> counter_sub c n = c - n"
proof -
  assume a: "n \<le> c" "c < 2 ^ 62"
  then have "c - n < 2 ^ 63" by simp
  then show ?thesis using a by (simp add: counter_sub_def)
qed

lemma mp_okI:
  assumes "finite used" "0 < sz_each p" "sz_total p = sz_each p * card used"
    "sz_free p = sz_each p * length (filter snd (mp_free p))" "distinct (map fst (mp_free p))"
    "used \<inter> fst ` set (mp_free p) = {}" "\<And>i. i \<in> used \<Longrightarrow> i < mp_fresh p"
    "\<And>i b. (i, b) \<in> set (mp_free p) \<Longrightarrow> i < mp_fresh p" "sz_each p * (mp_fresh p + 1) < 2 ^ 62"
  shows "mp_ok p used"
  using assms unfolding mp_ok_def by force

lemma UcMemPool_Free_ok:
  assumes ok: "mp_ok p used" and i: "i \<in> used"
  shows "mp_ok (UcMemPool_Free i p) (used - {i})"
proof -
  note D = mp_okD [OF ok]
  have c: "0 < card used" using D(1) i card_gt_0_iff by blast
  then have le: "sz_each p \<le> sz_total p" using D(3) by simp
  have t: "counter_sub (sz_total p) (sz_each p) = sz_each p * card (used - {i})"
    using counter_sub_le [OF le] mp_ok_bound [OF ok] D(1,3) i by (simp add: algebra_simps)
  have f: "u64n (sz_free p + sz_each p) = sz_each p * (length (filter snd (mp_free p)) + 1)"
    using mp_ok_bound [OF ok] D(4) by (simp add: u64n_def)
  have ni: "i \<notin> fst ` set (mp_free p)" using D(6) i by blast
  show ?thesis
    by (rule mp_okI) (use D t f ni i in \<open>auto simp: UcMemPool_Free_def mp_release_def\<close>)
qed

lemma mp_take_cases:
  assumes ok: "mp_ok p used" and t: "mp_take p = ((i, b), p1)"
  shows "\<exists>n fs. p1 = p\<lparr>mp_free := fs, mp_fresh := n\<rparr> \<and> n \<le> mp_fresh p + 1 \<and> mp_fresh p \<le> n \<and> i < n \<and> i \<notin> used \<and>
     distinct (i # map fst fs) \<and> used \<inter> fst ` set fs = {} \<and> (\<forall>(j, c) \<in> set fs. j < n) \<and>
     length (filter snd (mp_free p)) = length (filter snd fs) + (if b then 1 else 0)"
proof (cases "mp_free p")
  case Nil
  then have "i = mp_fresh p" "\<not> b" "p1 = p\<lparr>mp_free := [], mp_fresh := mp_fresh p + 1\<rparr>" using t by (auto simp: mp_take_def)
  moreover have "mp_fresh p \<notin> used" using mp_okD(7) [OF ok] by blast
  ultimately show ?thesis using Nil by (intro exI [of _ "mp_fresh p + 1"] exI [of _ "[]"]) simp
next
  case (Cons m fs)
  then have e: "m = (i, b)" "p1 = p\<lparr>mp_free := fs, mp_fresh := mp_fresh p\<rparr>" using t by (auto simp: mp_take_def)
  have "i \<in> fst ` set (mp_free p)" using Cons e by simp
  then have "i \<notin> used" "i < mp_fresh p" using mp_okD(6,8) [OF ok] by auto
  moreover have "\<forall>(j, c) \<in> set fs. j < mp_fresh p" using mp_okD(8) [OF ok] Cons by auto
  moreover have "distinct (i # map fst fs)" "used \<inter> fst ` set fs = {}" using mp_okD(5,6) [OF ok] Cons e by auto
  ultimately show ?thesis using e Cons by (intro exI [of _ "mp_fresh p"] exI [of _ fs]) simp
qed

lemma mp_take_ok:
  assumes ok: "mp_ok p used" and t: "mp_take p = ((i, b), p1)" and fr: "sz_each p * (mp_fresh p + 2) < 2 ^ 62"
  shows "i \<notin> used" "sz_each p1 = sz_each p" "sz_total p1 = sz_total p" "sz_max p1 = sz_max p" "sz_free p1 = sz_free p"
    "mp_ok (mp_release (i, b) p1) used"
    "b \<Longrightarrow> sz_each p \<le> sz_free p" "distinct (map fst (mp_free p1))" "i \<notin> fst ` set (mp_free p1)"
    "sz_free p = sz_each p * (length (filter snd (mp_free p1)) + (if b then 1 else 0))"
    "used \<inter> fst ` set (mp_free p1) = {}" "i < mp_fresh p1" "\<And>j. j \<in> used \<Longrightarrow> j < mp_fresh p1"
    "\<And>j c. (j, c) \<in> set (mp_free p1) \<Longrightarrow> j < mp_fresh p1" "sz_each p * (mp_fresh p1 + 1) < 2 ^ 62"
proof -
  note D = mp_okD [OF ok]
  obtain n fs where p1: "p1 = p\<lparr>mp_free := fs, mp_fresh := n\<rparr>" and n: "n \<le> mp_fresh p + 1" "mp_fresh p \<le> n" "i < n"
    and iu: "i \<notin> used" and ds: "distinct (i # map fst fs)" and dj: "used \<inter> fst ` set fs = {}"
    and fl: "\<forall>(j, c) \<in> set fs. j < n"
    and len: "length (filter snd (mp_free p)) = length (filter snd fs) + (if b then 1 else 0)"
    using mp_take_cases [OF ok t] by blast
  have nb: "sz_each p * (n + 1) < 2 ^ 62"
  proof -
    have "sz_each p * (n + 1) \<le> sz_each p * (mp_fresh p + 2)" using n(1) by (intro mult_le_mono2) simp
    then show ?thesis using fr by simp
  qed
  have un: "j < n" if "j \<in> used" for j using D(7) [OF that] n(2) by simp
  have fr: "sz_free p = sz_each p * (length (filter snd fs) + (if b then 1 else 0))" using D(4) len by simp
  show "i \<notin> used" "sz_each p1 = sz_each p" "sz_total p1 = sz_total p" "sz_max p1 = sz_max p" "sz_free p1 = sz_free p"
    "b \<Longrightarrow> sz_each p \<le> sz_free p" "distinct (map fst (mp_free p1))" "i \<notin> fst ` set (mp_free p1)"
    "sz_free p = sz_each p * (length (filter snd (mp_free p1)) + (if b then 1 else 0))"
    "used \<inter> fst ` set (mp_free p1) = {}" "i < mp_fresh p1" "\<And>j. j \<in> used \<Longrightarrow> j < mp_fresh p1"
    "\<And>j c. (j, c) \<in> set (mp_free p1) \<Longrightarrow> j < mp_fresh p1" "sz_each p * (mp_fresh p1 + 1) < 2 ^ 62"
    unfolding p1 using iu ds dj fl fr n(3) un nb by auto
  show "mp_ok (mp_release (i, b) p1) used"
    by (rule mp_okI) (use D(1-3) p1 iu ds dj fl fr n(3) un nb in \<open>auto simp: mp_release_def\<close>)
qed

lemma UcMemPool_Alloc_ok:
  assumes ok: "mp_ok p used" and fr: "sz_each p * (mp_fresh p + 2) < 2 ^ 62"
    and a: "UcMemPool_Alloc new_ok malloc_ok p = (r, exceed, p')"
  shows "case r of None \<Rightarrow> mp_ok p' used | Some i \<Rightarrow> i \<notin> used \<and> mp_ok p' (insert i used)"
proof (cases "mp_free p = [] \<and> \<not> new_ok")
  case True
  then show ?thesis using a ok by (auto simp: UcMemPool_Alloc_def)
next
  case False
  note D = mp_okD [OF ok]
  obtain i b p1 where t: "mp_take p = ((i, b), p1)" by (metis prod.collapse)
  note T = mp_take_ok [OF ok t fr]
  have tot: "u64n (sz_total p + sz_each p) = sz_each p * card (insert i used)"
    using mp_ok_bound [OF ok] D(1,3) T(1) by (simp add: u64n_def)
  show ?thesis
  proof (cases b)
    case True
    let ?p = "p1\<lparr>sz_free := counter_sub (sz_free p1) (sz_each p1), sz_total := u64n (sz_total p1 + sz_each p1)\<rparr>"
    have f: "counter_sub (sz_free p) (sz_each p) = sz_each p * length (filter snd (mp_free p1))"
      using counter_sub_le [OF T(7)] mp_ok_bound [OF ok] T(10) True by simp
    have "mp_ok ?p (insert i used)"
      by (rule mp_okI) (use D(1,2) T tot f in auto)
    then show ?thesis using a False t True T(1) by (auto simp: UcMemPool_Alloc_def)
  next
    case nb: False
    let ?p = "p1\<lparr>sz_total := u64n (sz_total p1 + sz_each p1)\<rparr>"
    have "mp_ok ?p (insert i used)"
      by (rule mp_okI) (use D(1,2) T tot nb in auto)
    then show ?thesis using a False t nb T(1,6) by (auto simp: UcMemPool_Alloc_def split: if_splits)
  qed
qed

lemma shrink_loop_once: "fst (shrink_loop p 0) = 0 \<or> fst (shrink_loop p 0) = u64n (sz_each p)"
proof (cases "sz_free p > min (sz_max p div 4) (sz_total p)")
  case True
  obtain i b p1 where t: "mp_take p = ((i, b), p1)" by (metis prod.collapse)
  let ?p = "(mp_release (i, False) p1)\<lparr>sz_free := counter_sub (sz_free p) (sz_each p)\<rparr>"
  have "fst (shrink_loop ?p k) = k" for k
    by (subst shrink_loop.simps) (simp add: mp_take_def mp_release_def)
  then show ?thesis using True t by (subst (1 2) shrink_loop.simps) simp
next
  case False
  then show ?thesis by (subst shrink_loop.simps) simp
qed

section \<open>Properties\<close>

text \<open>(C24) The binary search over the size classes finds the smallest class that holds the request, for
  every request up to the largest class; a buffer from the manager is never smaller than what was asked for.\<close>

theorem get_magic_least:
  assumes "i \<le> biggest_magic"
  shows "0 \<le> get_magic i \<and> nat (get_magic i) < nr_magics \<and> i \<le> magics ! nat (get_magic i) \<and>
     (\<forall>k < nat (get_magic i). magics ! k < i)"
proof -
  have e: "nr_magics - 1 = 8" "nr_magics = 9" "magics ! 8 = biggest_magic"
    by (simp_all add: nr_magics_def magics_def biggest_magic_def)
  have "get_magic i = int (magic_search i 0 8)" using assms e(1) by (simp only: get_magic_def if_True)
  then show ?thesis using magic_search_least [of 0 8 i] assms e(2,3) by simp
qed

theorem get_magic_least_witness: "nat (get_magic 100) < nr_magics \<and> 100 \<le> magics ! nat (get_magic 100)"
  using get_magic_least [of 100] by (simp add: biggest_magic_def)

text \<open>The accounting of a pool is exact: \<open>sz_total\<close> is the size of the buffers handed out and \<open>sz_free\<close> the
  size of the released ones that still have memory. \<open>Alloc\<close> hands out an object that is not in use or reports
  a failure, \<open>Free\<close> takes it back, and neither breaks the accounting.\<close>

theorem UcMemPool_accounting:
  assumes "mp_ok p used" and "sz_each p * (mp_fresh p + 2) < 2 ^ 62"
  shows "(case UcMemPool_Alloc new_ok malloc_ok p of (r, exceed, p') \<Rightarrow>
       case r of None \<Rightarrow> mp_ok p' used | Some i \<Rightarrow> i \<notin> used \<and> mp_ok p' (insert i used)) \<and>
     (\<forall>i \<in> used. mp_ok (UcMemPool_Free i p) (used - {i}))"
proof
  show "case UcMemPool_Alloc new_ok malloc_ok p of (r, exceed, p') \<Rightarrow>
      case r of None \<Rightarrow> mp_ok p' used | Some i \<Rightarrow> i \<notin> used \<and> mp_ok p' (insert i used)"
    using UcMemPool_Alloc_ok [OF assms] by (cases "UcMemPool_Alloc new_ok malloc_ok p") simp
qed (use UcMemPool_Free_ok [OF assms(1)] in blast)

theorem UcMemPool_accounting_witness:
  "\<exists>p'. UcMemPool_Alloc True True \<lparr>sz_each = 64, sz_total = 0, sz_free = 0, sz_max = 1024, mp_free = [], mp_fresh = 1\<rparr> =
     (Some 1, False, p') \<and> mp_ok p' {1}"
proof -
  let ?p = "\<lparr>sz_each = 64, sz_total = 0, sz_free = 0, sz_max = 1024, mp_free = [], mp_fresh = 1\<rparr>"
  have "mp_ok ?p {}" by (simp add: mp_ok_def)
  from UcMemPool_accounting [OF this, of True True] show ?thesis
    by (simp add: UcMemPool_Alloc_def mp_take_def u64n_def)
qed

text \<open>Once the reserve of a pool cannot be cut, \<open>Shrink\<close> gives back at most one buffer, however many are
  free: the object whose memory was freed is put on top of the free list, and the next round takes it, finds
  no memory in it and stops.\<close>

theorem UcMemPool_Shrink_one:
  "fst (UcMemPool_Shrink p) \<in> {0, u64n (sz_each p)} \<or>
   (\<exists>shk. UcMemPool_Shrink p = (shk, p\<lparr>sz_max := sub64 (sz_max p) shk\<rparr>))"
  using shrink_loop_once [of p] by (auto simp: UcMemPool_Shrink_def Let_def split: prod.splits)

end
