(* ===== verification/Knv_Ht.thy ===== *)
theory Knv_Ht
  imports Pb Mem_Pool "HOL-Library.Monad_Syntax"
begin

text \<open>
  The data of \<open>knv/knv_node.h\<close> and the hash table \<open>KnvHt\<close> of \<open>knv/knv_node.cc\<close>, which finds the children
  of a node by tag and key.

  A node is an address, 0 is \<open>NULL\<close>, and \<open>knv_heap\<close> gives the members of every node and the node pool. The
  chains of a table run through the member \<open>ht_next\<close> of the nodes, as in the code, so a node that is put into
  a table twice makes a chain circular; a walk that would not end has the value \<open>None\<close>. The doubly linked
  lists of children and metas are sequences of addresses and the free list of the node pool is a stack, which
  is what the operations of the object pool implement (\<open>Obj_Pool\<close>). A buffer is the bytes in it: the pointers
  of the code are only read through, so a node that shares the buffer of its parent has a copy of its part here.
  Every allocation succeeds.
\<close>

section \<open>Definitions\<close>

subsection \<open>Keys\<close>

text \<open>A key is its type and its bytes; \<open>len\<close> has 16 bits, so a longer string is cut to its length modulo
  \<open>2 ^ 16\<close>. A key without a value has no bytes.\<close>

record knv_key =
  k_type :: pb_wire_type
  k_val :: "byte list"

definition str_bytes :: "pb_val \<Rightarrow> byte list" where
  "str_bytes v = take (unat (val_i32 v)) (val_data v)"

definition str_val :: "byte list \<Rightarrow> pb_val" where
  "str_val bs = \<lparr>val_i64 = of_nat (length bs), val_data = bs\<rparr>"

definition key_init :: "pb_wire_type \<Rightarrow> pb_val option \<Rightarrow> knv_key" where
  "key_init ktype kval =
     (case kval of
        None \<Rightarrow> \<lparr>k_type = ktype, k_val = []\<rparr>
      | Some v \<Rightarrow>
          (case ktype of
             PB_WT_STRING \<Rightarrow> \<lparr>k_type = PB_WT_STRING, k_val = take (u16n (unat (val_i32 v))) (val_data v)\<rparr>
           | PB_WT_FIXED32 \<Rightarrow> \<lparr>k_type = PB_WT_FIXED32, k_val = le_bytes 4 (val_i32 v)\<rparr>
           | PB_WT_VARINT \<Rightarrow> \<lparr>k_type = PB_WT_VARINT, k_val = le_bytes 8 (val_i64 v)\<rparr>
           | PB_WT_FIXED64 \<Rightarrow> \<lparr>k_type = PB_WT_FIXED64, k_val = le_bytes 8 (val_i64 v)\<rparr>
           | PB_WT_RAW _ \<Rightarrow> \<lparr>k_type = ktype, k_val = []\<rparr>))"

definition key_GetValue :: "knv_key \<Rightarrow> pb_val" where
  "key_GetValue k =
     (if k_type k = PB_WT_STRING then str_val (k_val k)
      else \<lparr>val_i64 = le_word (take 8 (k_val k)), val_data = []\<rparr>)"

definition key_GetIntVal :: "knv_key \<Rightarrow> u64" where
  "key_GetIntVal k = le_word (take 8 (k_val k))"

definition key_eq :: "knv_key \<Rightarrow> knv_key \<Rightarrow> bool" where
  "key_eq k k' \<longleftrightarrow> k_type k = k_type k' \<and> length (k_val k) = length (k_val k') \<and>
     (k_val k = [] \<or> memcmp (k_val k) (k_val k') = 0)"

text \<open>\<open>operator<\<close> reads \<open>len\<close> bytes of both keys. It is called with keys of the same length only when the
  first two disjuncts are false, and the second key may then be shorter: the bytes behind it are not part of
  the key, which the model shows as the end of the comparison.\<close>

definition key_less :: "knv_key \<Rightarrow> knv_key \<Rightarrow> bool" where
  "key_less k k' \<longleftrightarrow> wire_num (k_type k) < wire_num (k_type k') \<or> length (k_val k) < length (k_val k') \<or>
     (k_val k \<noteq> [] \<and> memcmp (k_val k) (k_val k') < 0)"

subsection \<open>Nodes and tables\<close>

record KnvHt =
  ht_nr :: int
  ht_sz :: nat
  ht_bm :: "nat \<Rightarrow> bool"
  ht_slot :: "nat \<Rightarrow> nat"

text \<open>\<open>metas\<close> holds one node for each of the tags 1 to 10, or 0.\<close>

record KnvNode =
  nd_tag :: u32
  nd_type :: pb_wire_type
  nd_val :: pb_val
  nd_key :: knv_key
  ht_next :: nat
  child_num :: int
  nd_ht :: KnvHt
  childlist :: "nat list"
  metalist :: "nat list"
  metas :: "nat \<Rightarrow> nat"
  subnode_dirty :: bool
  child_has_key :: bool
  no_key :: bool
  nd_parent :: nat
  eval_sz :: int
  eval_val_sz :: int

record knv_heap =
  nd :: "nat \<Rightarrow> KnvNode"
  np_free :: "nat list"
  np_fresh :: nat

definition upd :: "nat \<Rightarrow> (KnvNode \<Rightarrow> KnvNode) \<Rightarrow> knv_heap \<Rightarrow> knv_heap" where
  "upd n f h = h\<lparr>nd := (nd h)(n := f (nd h n))\<rparr>"

abbreviation upd_ht :: "nat \<Rightarrow> (KnvHt \<Rightarrow> KnvHt) \<Rightarrow> knv_heap \<Rightarrow> knv_heap" where
  "upd_ht n f h \<equiv> upd n (\<lambda>x. x\<lparr>nd_ht := f (nd_ht x)\<rparr>) h"

definition IsMatch :: "knv_heap \<Rightarrow> nat \<Rightarrow> u32 \<Rightarrow> byte list \<Rightarrow> bool" where
  "IsMatch h n t k \<longleftrightarrow> t = nd_tag (nd h n) \<and> length (k_val (nd_key (nd h n))) = length k \<and>
     (k = [] \<or> memcmp (k_val (nd_key (nd h n))) k = 0)"

subsection \<open>The hash function\<close>

fun hash_tail :: "u32 \<Rightarrow> byte list \<Rightarrow> u32" where
  "hash_tail t [] = t"
| "hash_tail t (b # k) = hash_tail (t + push_bit (8 * length k) (ucast b)) k"

fun hash_words :: "u32 \<Rightarrow> byte list \<Rightarrow> u32" where
  "hash_words t (a # b # c # d # k) = hash_words (t + le_word [a, b, c, d]) k"
| "hash_words t k = hash_tail t k"

definition get_keyhash :: "u32 \<Rightarrow> byte list \<Rightarrow> nat \<Rightarrow> nat" where
  "get_keyhash t k sz = unat (hash_words t k AND (of_nat sz - 1))"

abbreviation node_hash :: "knv_heap \<Rightarrow> nat \<Rightarrow> nat \<Rightarrow> nat" where
  "node_hash h n sz \<equiv> get_keyhash (nd_tag (nd h n)) (k_val (nd_key (nd h n))) sz"

subsection \<open>Table operations\<close>

definition KNV_DEFAULT_HT_SIZE :: nat where
  "KNV_DEFAULT_HT_SIZE = 32"

definition KnvHt_clear :: KnvHt where
  "KnvHt_clear = \<lparr>ht_nr = 0, ht_sz = KNV_DEFAULT_HT_SIZE, ht_bm = \<lambda>_. False, ht_slot = \<lambda>_. 0\<rparr>"

partial_function (option) ht_find :: "knv_heap \<Rightarrow> u32 \<Rightarrow> byte list \<Rightarrow> nat \<Rightarrow> nat option" where
  "ht_find h t k c =
     (if c = 0 then Some 0 else if IsMatch h c t k then Some c else ht_find h t k (ht_next (nd h c)))"

definition KnvHt_get :: "knv_heap \<Rightarrow> nat \<Rightarrow> u32 \<Rightarrow> byte list \<Rightarrow> nat option" where
  "KnvHt_get h p t k =
     (let hi = get_keyhash t k (ht_sz (nd_ht (nd h p)))
      in if ht_bm (nd_ht (nd h p)) hi then ht_find h t k (ht_slot (nd_ht (nd h p)) hi) else Some 0)"

text \<open>\<open>HtPos\<close> is the place of the pointer to the node found: a slot of the table or the \<open>ht_next\<close> of a node.\<close>

datatype HtPos = HtSlot nat | HtNext nat

partial_function (option) ht_find_pos :: "knv_heap \<Rightarrow> u32 \<Rightarrow> byte list \<Rightarrow> HtPos \<Rightarrow> nat \<Rightarrow> (nat \<times> HtPos) option" where
  "ht_find_pos h t k pos c =
     (if c = 0 then Some (0, pos) else if IsMatch h c t k then Some (c, pos)
      else ht_find_pos h t k (HtNext c) (ht_next (nd h c)))"

definition KnvHt_get_pos :: "knv_heap \<Rightarrow> nat \<Rightarrow> u32 \<Rightarrow> byte list \<Rightarrow> (nat \<times> HtPos) option" where
  "KnvHt_get_pos h p t k =
     (let hi = get_keyhash t k (ht_sz (nd_ht (nd h p)))
      in if ht_bm (nd_ht (nd h p)) hi then ht_find_pos h t k (HtSlot hi) (ht_slot (nd_ht (nd h p)) hi)
         else Some (0, HtSlot hi))"

text \<open>Adding a node at the head of its chain, in the new table of \<open>increase\<close> and in \<open>put\<close>.\<close>

definition ht_push :: "nat \<Rightarrow> nat \<Rightarrow> knv_heap \<times> KnvHt \<Rightarrow> knv_heap \<times> KnvHt" where
  "ht_push n hi s =
     (case s of (h, T) \<Rightarrow>
        (upd n (\<lambda>x. x\<lparr>ht_next := if ht_bm T hi then ht_slot T hi else 0\<rparr>) h,
         T\<lparr>ht_bm := (ht_bm T)(hi := True), ht_slot := (ht_slot T)(hi := n), ht_nr := ht_nr T + 1\<rparr>))"

partial_function (option) ht_move :: "nat \<Rightarrow> knv_heap \<times> KnvHt \<Rightarrow> (knv_heap \<times> KnvHt) option" where
  "ht_move c s =
     (if c = 0 then Some s
      else ht_move (ht_next (nd (fst s) c)) (ht_push c (node_hash (fst s) c (ht_sz (snd s))) s))"

definition ht_levels :: "nat list" where
  "ht_levels = [256, 8192]"

definition biggest_level :: nat where
  "biggest_level = 8192"

definition next_level :: "nat \<Rightarrow> nat" where
  "next_level sz = (case filter (\<lambda>l. l > sz) ht_levels of [] \<Rightarrow> biggest_level | l # _ \<Rightarrow> l)"

definition KnvHt_increase :: "knv_heap \<Rightarrow> nat \<Rightarrow> knv_heap option" where
  "KnvHt_increase h p =
     (let T = nd_ht (nd h p)
      in if ht_sz T \<ge> biggest_level then Some h
         else Option.bind
                (mfold (\<lambda>i s. if ht_bm T i then ht_move (ht_slot T i) s else Some s) [0..<ht_sz T]
                   (h, KnvHt_clear\<lparr>ht_sz := next_level (ht_sz T)\<rparr>))
                (\<lambda>(h', T'). Some (upd_ht p (\<lambda>_. T') h')))"

definition KnvHt_put :: "knv_heap \<Rightarrow> nat \<Rightarrow> nat \<Rightarrow> knv_heap option" where
  "KnvHt_put h p n =
     Option.bind (if ht_nr (nd_ht (nd h p)) + 1 > int (ht_sz (nd_ht (nd h p))) then KnvHt_increase h p else Some h)
       (\<lambda>h1. case ht_push n (node_hash h1 n (ht_sz (nd_ht (nd h1 p)))) (h1, nd_ht (nd h1 p)) of
               (h2, T) \<Rightarrow> Some (upd_ht p (\<lambda>_. T) h2))"

definition KnvHt_remove_pos :: "knv_heap \<Rightarrow> nat \<Rightarrow> nat \<Rightarrow> HtPos \<Rightarrow> knv_heap" where
  "KnvHt_remove_pos h p n pos =
     upd_ht p (\<lambda>T. T\<lparr>ht_nr := ht_nr T - 1\<rparr>)
       (case pos of
          HtSlot i \<Rightarrow> upd_ht p (\<lambda>T. T\<lparr>ht_slot := (ht_slot T)(i := ht_next (nd h n))\<rparr>) h
        | HtNext c \<Rightarrow> upd c (\<lambda>x. x\<lparr>ht_next := ht_next (nd h n)\<rparr>) h)"

text \<open>The walk of \<open>remove(node)\<close>: the place of the pointer to the node, \<open>None\<close> in the pair when the chain ends.\<close>

partial_function (option) ht_locate :: "knv_heap \<Rightarrow> nat \<Rightarrow> HtPos \<Rightarrow> nat \<Rightarrow> HtPos option option" where
  "ht_locate h n pos c =
     (if c = 0 then Some None else if c = n then Some (Some pos) else ht_locate h n (HtNext c) (ht_next (nd h c)))"

definition KnvHt_remove :: "knv_heap \<Rightarrow> nat \<Rightarrow> nat \<Rightarrow> (int \<times> knv_heap) option" where
  "KnvHt_remove h p n =
     (let T = nd_ht (nd h p); hi = node_hash h n (ht_sz T)
      in if ht_bm T hi
         then Option.bind (ht_locate h n (HtSlot hi) (ht_slot T hi))
                (\<lambda>r. Some (case r of None \<Rightarrow> (-1, h) | Some pos \<Rightarrow> (0, KnvHt_remove_pos h p n pos)))
         else Some (-1, h))"

declare ht_find.simps [code] ht_find_pos.simps [code] ht_move.simps [code] ht_locate.simps [code]

section \<open>Specification vocabulary\<close>

text \<open>\<open>ht_rep h T ch\<close>: the chain of slot \<open>hi\<close> is the sequence \<open>ch hi\<close>, and every node is in the slot of its hash.
  \<open>ht_ok h p S\<close>: the table of \<open>p\<close> holds the nodes \<open>S\<close>. \<open>ht_same p A h h'\<close>: the heaps differ only in the table of
  \<open>p\<close> and in the chain links of the nodes \<open>A\<close>.\<close>

abbreviation hnext :: "knv_heap \<Rightarrow> nat \<Rightarrow> nat" where
  "hnext h c \<equiv> ht_next (nd h c)"

definition ht_nodes :: "(nat \<Rightarrow> nat list) \<Rightarrow> nat set" where
  "ht_nodes ch = (\<Union>hi. set (ch hi))"

definition ht_rep :: "knv_heap \<Rightarrow> KnvHt \<Rightarrow> (nat \<Rightarrow> nat list) \<Rightarrow> bool" where
  "ht_rep h T ch \<longleftrightarrow> ht_sz T \<in> {32, 256, 8192} \<and>
     (\<forall>hi. if ht_bm T hi \<and> hi < ht_sz T then lseg (hnext h) (ht_slot T hi) (ch hi) 0 else ch hi = []) \<and>
     (\<forall>hi. distinct (ch hi)) \<and> (\<forall>hi. \<forall>c \<in> set (ch hi). node_hash h c (ht_sz T) = hi) \<and>
     ht_nr T = int (card (ht_nodes ch))"

definition ht_ok :: "knv_heap \<Rightarrow> nat \<Rightarrow> nat set \<Rightarrow> bool" where
  "ht_ok h p S \<longleftrightarrow> (\<exists>ch. ht_rep h (nd_ht (nd h p)) ch \<and> ht_nodes ch = S)"

definition node_same :: "KnvNode \<Rightarrow> KnvNode \<Rightarrow> bool" where
  "node_same x y \<longleftrightarrow> y = x\<lparr>ht_next := ht_next y, nd_ht := nd_ht y\<rparr>"

definition ht_same :: "nat set \<Rightarrow> nat set \<Rightarrow> knv_heap \<Rightarrow> knv_heap \<Rightarrow> bool" where
  "ht_same P A h h' \<longleftrightarrow> np_free h' = np_free h \<and> np_fresh h' = np_fresh h \<and>
     (\<forall>m. node_same (nd h m) (nd h' m)) \<and>
     (\<forall>m. m \<notin> P \<longrightarrow> nd_ht (nd h' m) = nd_ht (nd h m)) \<and> (\<forall>m. m \<notin> A \<longrightarrow> hnext h' m = hnext h m)"

section \<open>Lemmas\<close>

lemma upd_sel [simp]:
  "nd (upd n f h) m = (if m = n then f (nd h n) else nd h m)"
  "np_free (upd n f h) = np_free h" "np_fresh (upd n f h) = np_fresh h"
  by (simp_all add: upd_def)

lemma upd_upd: "upd n f (upd n g h) = upd n (\<lambda>x. f (g x)) h"
  by (simp add: upd_def)

lemma node_same_sel:
  assumes "node_same x y"
  shows "nd_tag y = nd_tag x" "nd_type y = nd_type x" "nd_val y = nd_val x" "nd_key y = nd_key x"
    "child_num y = child_num x" "childlist y = childlist x" "metalist y = metalist x" "metas y = metas x"
    "subnode_dirty y = subnode_dirty x" "child_has_key y = child_has_key x" "no_key y = no_key x"
    "nd_parent y = nd_parent x" "eval_sz y = eval_sz x" "eval_val_sz y = eval_val_sz x"
  by (subst assms [unfolded node_same_def], simp)+

lemma node_same_refl [simp, intro]: "node_same x x"
  by (simp add: node_same_def)

lemma node_same_trans: "node_same x y \<Longrightarrow> node_same y z \<Longrightarrow> node_same x z"
  using node_same_sel [of x y] node_same_sel [of y z] by (simp add: node_same_def)

lemma ht_same_refl [simp]: "ht_same P A h h"
  by (simp add: ht_same_def)

lemma ht_same_trans: "ht_same P A h h1 \<Longrightarrow> ht_same P A h1 h2 \<Longrightarrow> ht_same P A h h2"
  by (auto simp: ht_same_def intro: node_same_trans)

lemma ht_same_mono: "ht_same P A h h' \<Longrightarrow> A \<subseteq> B \<Longrightarrow> P \<subseteq> Q \<Longrightarrow> ht_same Q B h h'"
  by (auto simp: ht_same_def)

lemma ht_same_join:
  "ht_same P A h h1 \<Longrightarrow> ht_same Q B h1 h2 \<Longrightarrow> P \<union> Q \<subseteq> R \<Longrightarrow> A \<union> B \<subseteq> C \<Longrightarrow> ht_same R C h h2"
  by (rule ht_same_trans; erule ht_same_mono; blast)

lemma ht_same_node: "ht_same P A h h' \<Longrightarrow> node_same (nd h m) (nd h' m)"
  by (simp add: ht_same_def)

lemma ht_same_next: "ht_same P A h h' \<Longrightarrow> m \<notin> A \<Longrightarrow> hnext h' m = hnext h m"
  by (simp add: ht_same_def)

lemmas ht_same_sel = node_same_sel [OF ht_same_node]

lemma ht_same_upd:
  shows "n \<in> A \<Longrightarrow> ht_same P A h (upd n (\<lambda>x. x\<lparr>ht_next := c\<rparr>) h)"
    and "p \<in> P \<Longrightarrow> ht_same P A h (upd_ht p f h)"
  by (auto simp: ht_same_def node_same_def)

lemma hash_less: "sz \<in> {32, 256, 8192} \<Longrightarrow> get_keyhash t k sz < sz"
proof -
  have "unat (x AND y) \<le> unat y" for x y :: u32
    by (metis word_and_le1 word_le_nat_alt)
  from this [of "hash_words t k" "of_nat sz - 1"] show "sz \<in> {32, 256, 8192} \<Longrightarrow> get_keyhash t k sz < sz"
    by (auto simp: get_keyhash_def)
qed

lemma IsMatch_iff: "IsMatch h n t k \<longleftrightarrow> nd_tag (nd h n) = t \<and> k_val (nd_key (nd h n)) = k"
  by (auto simp: IsMatch_def memcmp_eq_0)

lemma ht_find_lseg:
  assumes "lseg (hnext h) c xs 0"
  shows "ht_find h t k c = Some (case List.find (\<lambda>c. IsMatch h c t k) xs of None \<Rightarrow> 0 | Some x \<Rightarrow> x)"
  using assms by (induction xs arbitrary: c) (subst ht_find.simps, auto)+

lemma ht_repD:
  assumes "ht_rep h T ch"
  shows "ht_sz T \<in> {32, 256, 8192}"
    and "hi < ht_sz T \<Longrightarrow> ht_bm T hi \<Longrightarrow> lseg (hnext h) (ht_slot T hi) (ch hi) 0"
    and "\<not> (ht_bm T hi \<and> hi < ht_sz T) \<Longrightarrow> ch hi = []"
    and "distinct (ch hi)"
    and "c \<in> set (ch hi) \<Longrightarrow> node_hash h c (ht_sz T) = hi"
    and "ht_nr T = int (card (ht_nodes ch))"
  using assms unfolding ht_rep_def by (simp | meson)+

lemma ht_nodes_iff:
  assumes "ht_rep h T ch"
  shows "c \<in> ht_nodes ch \<longleftrightarrow> c \<in> set (ch (node_hash h c (ht_sz T)))"
  using ht_repD(5) [OF assms] by (auto simp: ht_nodes_def)

lemma ht_nodes_fin: assumes "ht_rep h T ch" shows "finite (ht_nodes ch)" "0 \<notin> ht_nodes ch"
proof -
  have "ht_nodes ch = (\<Union>hi < ht_sz T. set (ch hi))"
    using ht_repD(3) [OF assms] by (force simp: ht_nodes_def)
  then show "finite (ht_nodes ch)" by simp
  have "c \<noteq> 0" if "c \<in> set (ch hi)" for c hi
    using lseg_nonzero [OF ht_repD(2) [OF assms, of hi]] ht_repD(3) [OF assms, of hi] that by fastforce
  then show "0 \<notin> ht_nodes ch" by (auto simp: ht_nodes_def)
qed

lemma KnvHt_get_ok:
  assumes "ht_ok h p S"
  shows "\<exists>c. KnvHt_get h p t k = Some c \<and> (c = 0 \<and> (\<forall>x \<in> S. \<not> IsMatch h x t k) \<or> c \<in> S \<and> c \<noteq> 0 \<and> IsMatch h c t k)"
proof -
  from assms obtain ch where r: "ht_rep h (nd_ht (nd h p)) ch" and S: "ht_nodes ch = S"
    by (auto simp: ht_ok_def)
  let ?T = "nd_ht (nd h p)"
  let ?hi = "get_keyhash t k (ht_sz ?T)"
  have hi: "?hi < ht_sz ?T" by (rule hash_less [OF ht_repD(1) [OF r]])
  have m: "x \<in> set (ch ?hi)" if "x \<in> S" "IsMatch h x t k" for x
    using that S ht_nodes_iff [OF r, of x] by (simp add: IsMatch_iff)
  show ?thesis
  proof (cases "ht_bm ?T ?hi")
    case False
    then have "ch ?hi = []" using ht_repD(3) [OF r, of ?hi] by simp
    then show ?thesis using m False by (auto simp: KnvHt_get_def)
  next
    case True
    have g: "KnvHt_get h p t k = Some (case List.find (\<lambda>c. IsMatch h c t k) (ch ?hi) of None \<Rightarrow> 0 | Some x \<Rightarrow> x)"
      using True ht_find_lseg [OF ht_repD(2) [OF r hi True]] by (simp add: KnvHt_get_def)
    show ?thesis
    proof (cases "List.find (\<lambda>c. IsMatch h c t k) (ch ?hi)")
      case None
      then have "\<forall>x \<in> S. \<not> IsMatch h x t k" using m by (auto simp: find_None_iff)
      then show ?thesis using g None by simp
    next
      case (Some x)
      then have "x \<in> set (ch ?hi)" "IsMatch h x t k" by (auto simp: find_Some_iff)
      moreover from this have "x \<in> S" using S by (auto simp: ht_nodes_def)
      moreover from this have "x \<noteq> 0" using ht_nodes_fin(2) [OF r] S by metis
      ultimately show ?thesis using g Some by simp
    qed
  qed
qed

lemma node_hash_same: "node_same (nd h n) (nd h' n) \<Longrightarrow> node_hash h' n sz = node_hash h n sz"
  by (simp add: node_same_sel)

lemma IsMatch_same: "node_same (nd h n) (nd h' n) \<Longrightarrow> IsMatch h' n t k = IsMatch h n t k"
  by (simp add: IsMatch_iff node_same_sel)

lemma ht_rep_frame:
  assumes "ht_rep h T ch"
    and "\<And>c. c \<in> ht_nodes ch \<Longrightarrow> hnext h' c = hnext h c \<and> node_hash h' c (ht_sz T) = node_hash h c (ht_sz T)"
  shows "ht_rep h' T ch"
proof -
  have "lseg (hnext h') (ht_slot T hi) (ch hi) 0" if "lseg (hnext h) (ht_slot T hi) (ch hi) 0" for hi
    by (rule lseg_cong [OF that]) (use assms(2) in \<open>auto simp: ht_nodes_def\<close>)
  moreover have "node_hash h' c (ht_sz T) = hi" if "c \<in> set (ch hi)" for c hi
  proof -
    have "c \<in> ht_nodes ch" using that by (auto simp: ht_nodes_def)
    then show ?thesis using assms(2) [of c] ht_repD(5) [OF assms(1) that] by simp
  qed
  ultimately show ?thesis
    unfolding ht_rep_def using ht_repD [OF assms(1)] by simp
qed

lemma ht_push_rep:
  assumes r: "ht_rep h T ch" and n: "n \<notin> ht_nodes ch" "n \<noteq> 0" and hi: "hi = node_hash h n (ht_sz T)"
    and eq: "ht_push n hi (h, T) = (h', T')"
  obtains ch' where "ht_rep h' T' ch'" "ht_nodes ch' = insert n (ht_nodes ch)" "ht_same {} {n} h h'" "ht_sz T' = ht_sz T"
proof -
  have h': "h' = upd n (\<lambda>x. x\<lparr>ht_next := if ht_bm T hi then ht_slot T hi else 0\<rparr>) h"
    and T': "T' = T\<lparr>ht_bm := (ht_bm T)(hi := True), ht_slot := (ht_slot T)(hi := n), ht_nr := ht_nr T + 1\<rparr>"
    using eq by (simp_all add: ht_push_def)
  have same: "ht_same {} {n} h h'" unfolding h' by (rule ht_same_upd) simp
  have lt: "hi < ht_sz T" using hash_less [OF ht_repD(1) [OF r]] hi by simp
  have nodes: "ht_nodes (ch(hi := n # ch hi)) = insert n (ht_nodes ch)"
    by (auto simp: ht_nodes_def split: if_splits)
  have hash: "node_hash h' c sz = node_hash h c sz" for c sz
    using ht_same_node [OF same] by (rule node_hash_same)
  have nx: "hnext h' c = hnext h c" if "c \<noteq> n" for c using that by (simp add: h')
  have seg: "lseg (hnext h') a (ch i) 0 = lseg (hnext h) a (ch i) 0" for a i
  proof -
    have "hnext h' c = hnext h c" if "c \<in> set (ch i)" for c
      using that n(1) nx [of c] by (auto simp: ht_nodes_def)
    then show ?thesis
      using lseg_cong [of "hnext h" a "ch i" 0 "hnext h'"] lseg_cong [of "hnext h'" a "ch i" 0 "hnext h"] by auto
  qed
  have "ht_rep h' T' (ch(hi := n # ch hi))"
    unfolding ht_rep_def
  proof (intro conjI allI ballI)
    fix i
    show "if ht_bm T' i \<and> i < ht_sz T' then lseg (hnext h') (ht_slot T' i) ((ch(hi := n # ch hi)) i) 0
          else (ch(hi := n # ch hi)) i = []"
    proof (cases "i = hi")
      case True
      have "lseg (hnext h) (if ht_bm T hi then ht_slot T hi else 0) (ch hi) 0"
        using ht_repD(2,3) [OF r, of hi] lt by simp
      moreover have "hnext h' n = (if ht_bm T hi then ht_slot T hi else 0)" by (simp add: h')
      ultimately show ?thesis using True lt n(2) seg by (simp add: T')
    next
      case False
      then show ?thesis using ht_repD(2,3) [OF r, of i] seg by (simp add: T')
    qed
    show "distinct ((ch(hi := n # ch hi)) i)"
      using ht_repD(4) [OF r, of i] n by (auto simp: ht_nodes_def)
    fix c assume "c \<in> set ((ch(hi := n # ch hi)) i)"
    then show "node_hash h' c (ht_sz T') = i"
      using ht_repD(5) [OF r] hi hash by (auto simp: T' split: if_splits)
  qed (use ht_repD(1,6) [OF r] ht_nodes_fin [OF r] n in \<open>auto simp: nodes T'\<close>)
  then show ?thesis using nodes same by (rule that) (simp add: T')
qed
lemma ht_move_rep:
  assumes "lseg (hnext h) c xs 0" "distinct xs" "ht_rep h T ch" "set xs \<inter> ht_nodes ch = {}"
  shows "\<exists>h' T' ch'. ht_move c (h, T) = Some (h', T') \<and> ht_rep h' T' ch' \<and>
    ht_nodes ch' = set xs \<union> ht_nodes ch \<and> ht_same {} (set xs) h h' \<and> ht_sz T' = ht_sz T"
  using assms
proof (induction xs arbitrary: c h T ch)
  case Nil
  then show ?case by (subst ht_move.simps) auto
next
  case (Cons x xs)
  let ?hi = "node_hash h x (ht_sz T)"
  obtain h1 T1 where p: "ht_push x ?hi (h, T) = (h1, T1)" by (cases "ht_push x ?hi (h, T)")
  have c: "c = x" "x \<noteq> 0" "lseg (hnext h) (hnext h x) xs 0" using Cons.prems(1) by auto
  have x: "x \<notin> ht_nodes ch" "x \<notin> set xs" using Cons.prems(2,4) by auto
  obtain ch1 where r: "ht_rep h1 T1 ch1" "ht_nodes ch1 = insert x (ht_nodes ch)" "ht_same {} {x} h h1" "ht_sz T1 = ht_sz T"
    by (rule ht_push_rep [OF Cons.prems(3) x(1) c(2) refl p])
  have seg: "lseg (hnext h1) (hnext h x) xs 0"
    by (rule lseg_cong [OF c(3)]) (rule ht_same_next [OF r(3)], use x(2) in blast)
  have "distinct xs" "set xs \<inter> ht_nodes ch1 = {}" using Cons.prems(2,4) x(2) r(2) by auto
  from Cons.IH [OF seg this(1) r(1) this(2)] obtain h' T' ch' where
    m: "ht_move (hnext h x) (h1, T1) = Some (h', T')" "ht_rep h' T' ch'" "ht_nodes ch' = set xs \<union> ht_nodes ch1"
      "ht_same {} (set xs) h1 h'" "ht_sz T' = ht_sz T1"
    by (elim exE conjE)
  have "ht_move c (h, T) = Some (h', T')" using c(1,2) m(1) p by (subst ht_move.simps) simp
  moreover have "ht_same {} (set (x # xs)) h h'"
    by (rule ht_same_join [OF r(3) m(4)]) auto
  ultimately show ?case using m(2,3,5) r(2,4) by auto
qed

lemma ht_rep_upd_ht: "ht_rep (upd_ht p f h) T ch = ht_rep h T ch"
proof -
  have "hnext (upd_ht p f h) = hnext h" "node_hash (upd_ht p f h) c sz = node_hash h c sz" for c sz by auto
  then show ?thesis by (simp only: ht_rep_def)
qed

lemmas ht_rep_upd_const [simp] = ht_rep_upd_ht [of p "\<lambda>_. T'" for p T']

lemma ht_clear_rep: "sz \<in> {32, 256, 8192} \<Longrightarrow> ht_rep h (KnvHt_clear\<lparr>ht_sz := sz\<rparr>) (\<lambda>_. [])"
  by (simp add: ht_rep_def ht_nodes_def KnvHt_clear_def)

lemma ht_clear_ok: "nd_ht (nd h p) = KnvHt_clear \<Longrightarrow> ht_ok h p {}"
  using ht_clear_rep [of 32 h] by (auto simp: ht_ok_def ht_nodes_def KnvHt_clear_def KNV_DEFAULT_HT_SIZE_def)

lemma increase_fold:
  assumes r: "ht_rep h T ch" and "sz \<in> {32, 256, 8192}" "k \<le> ht_sz T"
  shows "\<exists>h' T' ch'. mfold (\<lambda>i s. if ht_bm T i then ht_move (ht_slot T i) s else Some s) [0..<k]
      (h, KnvHt_clear\<lparr>ht_sz := sz\<rparr>) = Some (h', T') \<and> ht_rep h' T' ch' \<and>
    ht_nodes ch' = (\<Union>i < k. set (ch i)) \<and> ht_same {} (\<Union>i < k. set (ch i)) h h' \<and> ht_sz T' = sz"
  using assms(3)
proof (induction k)
  case 0
  have "ht_rep h (KnvHt_clear\<lparr>ht_sz := sz\<rparr>) (\<lambda>_. [])" by (rule ht_clear_rep [OF assms(2)])
  then show ?case
    by (intro exI [of _ h] exI [of _ "KnvHt_clear\<lparr>ht_sz := sz\<rparr>"] exI [of _ "\<lambda>_. []"]) (simp add: ht_nodes_def)
next
  case (Suc k)
  let ?f = "\<lambda>i s. if ht_bm T i then ht_move (ht_slot T i) s else Some s"
  have "k \<le> ht_sz T" using Suc.prems by simp
  from Suc.IH [OF this] obtain h1 T1 ch1 where IH: "mfold ?f [0..<k] (h, KnvHt_clear\<lparr>ht_sz := sz\<rparr>) = Some (h1, T1)"
    "ht_rep h1 T1 ch1" "ht_nodes ch1 = (\<Union>i < k. set (ch i))" "ht_same {} (\<Union>i < k. set (ch i)) h h1" "ht_sz T1 = sz"
    by (elim exE conjE)
  have "i = k" if "c \<in> set (ch k)" "c \<in> set (ch i)" for c i
    using ht_repD(5) [OF r that(1)] ht_repD(5) [OF r that(2)] by simp
  then have disj: "set (ch k) \<inter> ht_nodes ch1 = {}" unfolding IH(3) by blast
  show ?case
  proof (cases "ht_bm T k")
    case False
    then have "ch k = []" using ht_repD(3) [OF r, of k] by simp
    then have "(\<Union>i < Suc k. set (ch i)) = (\<Union>i < k. set (ch i))" by (auto simp: less_Suc_eq)
    moreover have "mfold ?f [0..<Suc k] (h, KnvHt_clear\<lparr>ht_sz := sz\<rparr>) = Some (h1, T1)"
      using IH(1) False by (simp add: mfold_append)
    ultimately show ?thesis
      using IH(2-5) by (intro exI [of _ h1] exI [of _ T1] exI [of _ ch1]) simp
  next
    case True
    have "lseg (hnext h) (ht_slot T k) (ch k) 0" using ht_repD(2) [OF r, of k] True Suc.prems by simp
    then have "lseg (hnext h1) (ht_slot T k) (ch k) 0"
      by (rule lseg_cong) (rule ht_same_next [OF IH(4)], use disj IH(3) in blast)
    from ht_move_rep [OF this ht_repD(4) [OF r] IH(2) disj] obtain h' T' ch' where
      m: "ht_move (ht_slot T k) (h1, T1) = Some (h', T')" "ht_rep h' T' ch'" "ht_nodes ch' = set (ch k) \<union> ht_nodes ch1"
        "ht_same {} (set (ch k)) h1 h'" "ht_sz T' = ht_sz T1"
      by (elim exE conjE)
    have u: "(\<Union>i < Suc k. set (ch i)) = set (ch k) \<union> (\<Union>i < k. set (ch i))" by (auto simp: less_Suc_eq)
    have "ht_same {} (\<Union>i < Suc k. set (ch i)) h h'"
      unfolding u by (rule ht_same_join [OF IH(4) m(4)]) auto
    moreover have "mfold ?f [0..<Suc k] (h, KnvHt_clear\<lparr>ht_sz := sz\<rparr>) = Some (h', T')"
      using IH(1) m(1) True by (simp add: mfold_append)
    ultimately show ?thesis
      using m(2,3,5) IH(3,5) unfolding u by (intro exI [of _ h'] exI [of _ T'] exI [of _ ch']) simp
  qed
qed

lemma next_level_ok: "sz \<in> {32, 256, 8192} \<Longrightarrow> next_level sz \<in> {32, 256, 8192}"
  by (auto simp: next_level_def ht_levels_def biggest_level_def)

lemma KnvHt_increase_ok:
  assumes "ht_ok h p S"
  shows "\<exists>h'. KnvHt_increase h p = Some h' \<and> ht_ok h' p S \<and> ht_same {p} S h h'"
proof -
  from assms obtain ch where r: "ht_rep h (nd_ht (nd h p)) ch" and S: "ht_nodes ch = S"
    by (auto simp: ht_ok_def)
  let ?T = "nd_ht (nd h p)"
  have S': "(\<Union>i < ht_sz ?T. set (ch i)) = S"
    using S ht_repD(3) [OF r] by (force simp: ht_nodes_def)
  show ?thesis
  proof (cases "ht_sz ?T \<ge> biggest_level")
    case True
    then show ?thesis using assms by (simp add: KnvHt_increase_def)
  next
    case False
    obtain h' T' ch' where m: "mfold (\<lambda>i s. if ht_bm ?T i then ht_move (ht_slot ?T i) s else Some s) [0..<ht_sz ?T]
        (h, KnvHt_clear\<lparr>ht_sz := next_level (ht_sz ?T)\<rparr>) = Some (h', T')" "ht_rep h' T' ch'"
      "ht_nodes ch' = S" "ht_same {} S h h'"
      using increase_fold [OF r next_level_ok [OF ht_repD(1) [OF r]] order_refl] unfolding S' by (elim exE conjE)
    have "KnvHt_increase h p = Some (upd_ht p (\<lambda>_. T') h')" using m(1) False by (simp add: KnvHt_increase_def)
    moreover have "ht_ok (upd_ht p (\<lambda>_. T') h') p S" using m(2,3) by (auto simp: ht_ok_def ht_rep_upd_ht)
    moreover have "ht_same {p} S h (upd_ht p (\<lambda>_. T') h')"
      by (rule ht_same_join [OF m(4) ht_same_upd(2) [where P = "{p}" and A = S]]) auto
    ultimately show ?thesis by blast
  qed
qed

lemma ht_push_ok:
  assumes "ht_ok h p S" "n \<notin> S" "n \<noteq> 0"
    "ht_push n (node_hash h n (ht_sz (nd_ht (nd h p)))) (h, nd_ht (nd h p)) = (h', T')"
  shows "ht_ok (upd_ht p (\<lambda>_. T') h') p (insert n S) \<and> ht_same {p} (insert n S) h (upd_ht p (\<lambda>_. T') h')"
proof -
  from assms obtain ch where r: "ht_rep h (nd_ht (nd h p)) ch" and S: "ht_nodes ch = S"
    by (auto simp: ht_ok_def)
  have "n \<notin> ht_nodes ch" using assms(2) S by simp
  then obtain ch' where m: "ht_rep h' T' ch'" "ht_nodes ch' = insert n S" "ht_same {} {n} h h'"
    unfolding S [symmetric] by (rule ht_push_rep [OF r _ assms(3) refl assms(4)])
  have "ht_ok (upd_ht p (\<lambda>_. T') h') p (insert n S)"
    using m by (auto simp: ht_ok_def)
  moreover have "ht_same {p} (insert n S) h (upd_ht p (\<lambda>_. T') h')"
    by (rule ht_same_join [OF m(3) ht_same_upd(2) [where P = "{p}" and A = "{}"]]) auto
  ultimately show ?thesis by blast
qed

lemma KnvHt_put_ok:
  assumes "ht_ok h p S" "n \<notin> S" "n \<noteq> 0"
  shows "\<exists>h'. KnvHt_put h p n = Some h' \<and> ht_ok h' p (insert n S) \<and> ht_same {p} (insert n S) h h'"
proof -
  obtain h1 where h1: "(if ht_nr (nd_ht (nd h p)) + 1 > int (ht_sz (nd_ht (nd h p))) then KnvHt_increase h p else Some h) = Some h1"
    "ht_ok h1 p S" "ht_same {p} S h h1"
    using KnvHt_increase_ok [OF assms(1)] assms(1) by (cases "ht_nr (nd_ht (nd h p)) + 1 > int (ht_sz (nd_ht (nd h p)))") auto
  obtain h2 T where p: "ht_push n (node_hash h1 n (ht_sz (nd_ht (nd h1 p)))) (h1, nd_ht (nd h1 p)) = (h2, T)"
    by (cases "ht_push n (node_hash h1 n (ht_sz (nd_ht (nd h1 p)))) (h1, nd_ht (nd h1 p))")
  note q = ht_push_ok [OF h1(2) assms(2,3) p]
  have "ht_same {p} (insert n S) h (upd_ht p (\<lambda>_. T) h2)"
    by (rule ht_same_join [OF h1(3) conjunct2 [OF q]]) auto
  then show ?thesis using q h1(1) p by (simp add: KnvHt_put_def)
qed
lemma ht_locate_lseg:
  assumes "lseg (hnext h) c xs 0" "distinct xs"
  shows "n \<notin> set xs \<Longrightarrow> ht_locate h n pos c = Some None"
    and "xs = ys @ n # zs \<Longrightarrow> ht_locate h n pos c = Some (Some (if ys = [] then pos else HtNext (last ys)))"
proof -
  show "n \<notin> set xs \<Longrightarrow> ht_locate h n pos c = Some None"
    using assms(1) by (induction xs arbitrary: c pos) (subst ht_locate.simps, auto)+
  show "ht_locate h n pos c = Some (Some (if ys = [] then pos else HtNext (last ys)))" if "xs = ys @ n # zs"
    using assms that
  proof (induction ys arbitrary: c pos xs)
    case Nil
    then show ?case by (subst ht_locate.simps) auto
  next
    case (Cons y ys)
    have "ht_locate h n (HtNext y) (hnext h y) = Some (Some (if ys = [] then HtNext y else HtNext (last ys)))"
      using Cons.prems by (intro Cons.IH [of _ "ys @ n # zs"]) auto
    moreover have "c = y" "y \<noteq> 0" "y \<noteq> n" using Cons.prems by auto
    ultimately show ?case by (subst ht_locate.simps) simp
  qed
qed

lemma lseg_last: "lseg nx a (ys @ [b]) c \<Longrightarrow> nx b = c"
  by (induction ys arbitrary: a) auto

text \<open>Taking a node out of its chain through the place of the pointer to it.\<close>

lemma KnvHt_unlink_ok:
  assumes r: "ht_rep h (nd_ht (nd h p)) ch" and c: "ch hi = ys @ n # zs"
    and pos: "pos = (if ys = [] then HtSlot hi else HtNext (last ys))"
  shows "ht_ok (KnvHt_remove_pos h p n pos) p (ht_nodes ch - {n}) \<and>
    ht_same {p} (ht_nodes ch - {n}) h (KnvHt_remove_pos h p n pos)"
proof -
  let ?T = "nd_ht (nd h p)" and ?ch = "ch(hi := ys @ zs)"
  let ?h = "KnvHt_remove_pos h p n pos"
  have d: "distinct (ys @ n # zs)" using ht_repD(4) [OF r, of hi] c by simp
  have hi: "hi < ht_sz ?T" "ht_bm ?T hi" using ht_repD(3) [OF r, of hi] c by auto
  have seg: "lseg (hnext h) (ht_slot ?T hi) (ys @ n # zs) 0" using ht_repD(2) [OF r hi] c by simp
  then obtain a where a: "lseg (hnext h) (ht_slot ?T hi) ys a" "a = n" "lseg (hnext h) (hnext h n) zs 0"
    by (auto simp: lseg_append)
  have n: "n \<notin> set (ch i)" if "i \<noteq> hi" for i
    using ht_repD(5) [OF r, of n i] ht_repD(5) [OF r, of n hi] c that by auto
  have nodes: "ht_nodes ?ch = ht_nodes ch - {n}"
  proof -
    have "set (?ch i) = set (ch i) - {n}" for i using c d n by auto
    then show ?thesis by (auto simp: ht_nodes_def)
  qed
  have same: "ht_same {p} (ht_nodes ch - {n}) h ?h"
  proof (cases "ys = []")
    case True
    then show ?thesis by (auto simp: KnvHt_remove_pos_def pos ht_same_def node_same_def)
  next
    case False
    then have "last ys \<in> set ys" by simp
    moreover have "set (ch hi) \<subseteq> ht_nodes ch" by (auto simp: ht_nodes_def)
    ultimately have "last ys \<in> ht_nodes ch - {n}" using c d by auto
    then show ?thesis using False by (auto simp: KnvHt_remove_pos_def pos ht_same_def node_same_def)
  qed
  have hash: "node_hash ?h x sz = node_hash h x sz" for x sz
    using ht_same_node [OF same] by (rule node_hash_same)
  have T: "nd_ht (nd ?h p) = ?T\<lparr>ht_nr := ht_nr ?T - 1,
      ht_slot := if ys = [] then (ht_slot ?T)(hi := hnext h n) else ht_slot ?T\<rparr>"
    by (simp add: KnvHt_remove_pos_def pos)
  have nx: "hnext ?h x = (if ys \<noteq> [] \<and> x = last ys then hnext h n else hnext h x)" for x
    by (simp add: KnvHt_remove_pos_def pos)
  have segs: "lseg (hnext ?h) (ht_slot ?T i) (ch i) 0" if "i \<noteq> hi" "lseg (hnext h) (ht_slot ?T i) (ch i) 0" for i
  proof (rule lseg_cong [OF that(2)])
    fix x assume x: "x \<in> set (ch i)"
    have "x \<noteq> last ys" if "ys \<noteq> []"
      using ht_repD(5) [OF r x] ht_repD(5) [OF r, of "last ys" hi] c that \<open>i \<noteq> hi\<close> by auto
    then show "hnext ?h x = hnext h x" unfolding nx by auto
  qed
  have seghi: "lseg (hnext ?h) (ht_slot (nd_ht (nd ?h p)) hi) (ys @ zs) 0"
  proof (cases ys rule: rev_cases)
    case Nil
    then show ?thesis using a(3) lseg_cong [OF a(3), of "hnext ?h"] by (simp add: T nx)
  next
    case (snoc us u)
    have z: "lseg (hnext ?h) (hnext h n) zs 0"
      by (rule lseg_cong [OF a(3)]) (use d snoc in \<open>auto simp: nx\<close>)
    have "lseg (hnext h) (ht_slot ?T hi) us u" "u \<noteq> 0" using a(1) snoc by (auto simp: lseg_append)
    moreover from this(1) have "lseg (hnext ?h) (ht_slot ?T hi) us u"
      by (rule lseg_cong) (use d snoc in \<open>auto simp: nx\<close>)
    ultimately show ?thesis using z snoc by (simp add: T nx lseg_append)
  qed
  have "ht_rep ?h (nd_ht (nd ?h p)) ?ch"
    unfolding ht_rep_def
  proof (intro conjI allI ballI)
    fix i
    show "if ht_bm (nd_ht (nd ?h p)) i \<and> i < ht_sz (nd_ht (nd ?h p))
        then lseg (hnext ?h) (ht_slot (nd_ht (nd ?h p)) i) (?ch i) 0 else ?ch i = []"
    proof (cases "i = hi")
      case True
      then show ?thesis using seghi hi by (simp add: T)
    next
      case False
      then show ?thesis using segs [OF False] ht_repD(2,3) [OF r, of i] by (simp add: T)
    qed
    show "distinct (?ch i)" using d ht_repD(4) [OF r, of i] by auto
    fix x assume "x \<in> set (?ch i)"
    then have "x \<in> set (ch i)" using c by (auto split: if_splits)
    then show "node_hash ?h x (ht_sz (nd_ht (nd ?h p))) = i"
      using ht_repD(5) [OF r] by (simp add: hash T)
  next
    have "n \<in> set (ch hi)" using c by simp
    then have "n \<in> ht_nodes ch" unfolding ht_nodes_def by blast
    then have "card (ht_nodes ch) = Suc (card (ht_nodes ch - {n}))"
      using ht_nodes_fin(1) [OF r] by (metis card_Suc_Diff1)
    then show "ht_nr (nd_ht (nd ?h p)) = int (card (ht_nodes ?ch))"
      using ht_repD(6) [OF r] by (simp add: T nodes)
  qed (use ht_repD(1) [OF r] in \<open>simp add: T\<close>)
  then show ?thesis using same nodes by (auto simp: ht_ok_def)
qed

lemma KnvHt_remove_ok:
  assumes "ht_ok h p S" "n \<in> S"
  shows "\<exists>h'. KnvHt_remove h p n = Some (0, h') \<and> ht_ok h' p (S - {n}) \<and> ht_same {p} (S - {n}) h h'"
proof -
  from assms obtain ch where r: "ht_rep h (nd_ht (nd h p)) ch" and S: "ht_nodes ch = S"
    by (auto simp: ht_ok_def)
  let ?T = "nd_ht (nd h p)" and ?hi = "node_hash h n (ht_sz (nd_ht (nd h p)))"
  have "n \<in> set (ch ?hi)" using assms(2) S ht_nodes_iff [OF r, of n] by simp
  then obtain ys zs where c: "ch ?hi = ys @ n # zs" by (auto simp: in_set_conv_decomp)
  have hi: "?hi < ht_sz ?T" "ht_bm ?T ?hi" using ht_repD(3) [OF r, of ?hi] c by auto
  have "ht_locate h n (HtSlot ?hi) (ht_slot ?T ?hi) = Some (Some (if ys = [] then HtSlot ?hi else HtNext (last ys)))"
    by (rule ht_locate_lseg(2) [OF ht_repD(2) [OF r hi] ht_repD(4) [OF r] c])
  then show ?thesis
    using KnvHt_unlink_ok [OF r c refl] hi(2) S by (simp add: KnvHt_remove_def Let_def)
qed

lemma KnvHt_remove_absent:
  assumes "ht_ok h p S" "n \<notin> S"
  shows "KnvHt_remove h p n = Some (-1, h)"
proof -
  from assms obtain ch where r: "ht_rep h (nd_ht (nd h p)) ch" and S: "ht_nodes ch = S"
    by (auto simp: ht_ok_def)
  let ?T = "nd_ht (nd h p)" and ?hi = "node_hash h n (ht_sz (nd_ht (nd h p)))"
  have hi: "?hi < ht_sz ?T" by (rule hash_less [OF ht_repD(1) [OF r]])
  have "n \<notin> set (ch ?hi)" using assms(2) S by (auto simp: ht_nodes_def)
  then have "ht_bm ?T ?hi \<Longrightarrow> ht_locate h n (HtSlot ?hi) (ht_slot ?T ?hi) = Some None"
    using ht_locate_lseg(1) [OF ht_repD(2) [OF r hi] ht_repD(4) [OF r]] by blast
  then show ?thesis by (simp add: KnvHt_remove_def Let_def)
qed

lemma ht_ok_frame:
  assumes "ht_ok h q S" "nd_ht (nd h' q) = nd_ht (nd h q)"
    and "\<And>c. c \<in> S \<Longrightarrow> hnext h' c = hnext h c \<and> nd_tag (nd h' c) = nd_tag (nd h c) \<and> nd_key (nd h' c) = nd_key (nd h c)"
  shows "ht_ok h' q S"
proof -
  from assms(1) obtain ch where r: "ht_rep h (nd_ht (nd h q)) ch" and S: "ht_nodes ch = S"
    by (auto simp: ht_ok_def)
  have "ht_rep h' (nd_ht (nd h q)) ch" by (rule ht_rep_frame [OF r]) (use assms(3) S in simp)
  then show ?thesis using assms(2) S by (auto simp: ht_ok_def)
qed
text \<open>A chain that leads back to its first node is walked for ever by a lookup that matches none of its nodes.\<close>

lemma ht_find_circular:
  assumes "n \<in> C" "0 \<notin> C" and C: "\<And>c. c \<in> C \<Longrightarrow> hnext h c \<in> C \<and> \<not> IsMatch h c t k"
  shows "ht_find h t k n = None"
proof -
  have "h' = h \<longrightarrow> t' = t \<longrightarrow> k' = k \<longrightarrow> c \<notin> C" if "ht_find h' t' k' c = Some r" for h' t' k' c r
  proof (rule ht_find.raw_induct [OF _ that])
    fix f h' t' k' c r
    assume IH: "\<And>h' t' k' c r. f h' t' k' c = Some r \<Longrightarrow> h' = h \<longrightarrow> t' = t \<longrightarrow> k' = k \<longrightarrow> c \<notin> C"
      and r: "(if c = 0 then Some 0 else if IsMatch h' c t' k' then Some c else f h' t' k' (hnext h' c)) = Some r"
    show "h' = h \<longrightarrow> t' = t \<longrightarrow> k' = k \<longrightarrow> c \<notin> C"
      using C [of c] assms(2) IH r by (auto split: if_splits)
  qed
  then show ?thesis using assms(1) by (metis not_Some_eq)
qed

section \<open>The index interface\<close>

text \<open>What a node relies on when it looks up its children: \<open>sel\<close> gives the tag and key of a node, \<open>rep h p S\<close> says
  that the index of \<open>p\<close> holds the nodes \<open>S\<close>.\<close>

locale child_index =
  fixes rep :: "'h \<Rightarrow> 'p \<Rightarrow> 'n set \<Rightarrow> bool"
    and sel :: "'h \<Rightarrow> 'n \<Rightarrow> 'q"
    and ok :: "'n \<Rightarrow> bool"
    and get :: "'h \<Rightarrow> 'p \<Rightarrow> 'q \<Rightarrow> 'n option option"
    and put :: "'h \<Rightarrow> 'p \<Rightarrow> 'n \<Rightarrow> 'h option"
    and del :: "'h \<Rightarrow> 'p \<Rightarrow> 'n \<Rightarrow> 'h option"
  assumes get_rep: "rep h p S \<Longrightarrow> \<exists>r. get h p q = Some r \<and>
      (case r of None \<Rightarrow> \<forall>x \<in> S. sel h x \<noteq> q | Some c \<Rightarrow> c \<in> S \<and> sel h c = q)"
    and put_rep: "rep h p S \<Longrightarrow> n \<notin> S \<Longrightarrow> ok n \<Longrightarrow>
      \<exists>h'. put h p n = Some h' \<and> rep h' p (insert n S) \<and> sel h' = sel h"
    and del_rep: "rep h p S \<Longrightarrow> n \<in> S \<Longrightarrow> \<exists>h'. del h p n = Some h' \<and> rep h' p (S - {n}) \<and> sel h' = sel h"
begin

lemma get_unique:
  assumes "rep h p S" "c \<in> S" "sel h c = q" "\<And>x. x \<in> S \<Longrightarrow> sel h x = q \<Longrightarrow> x = c"
  shows "get h p q = Some (Some c)"
proof -
  from get_rep [OF assms(1), of q] obtain r where r: "get h p q = Some r"
    "case r of None \<Rightarrow> \<forall>x \<in> S. sel h x \<noteq> q | Some c \<Rightarrow> c \<in> S \<and> sel h c = q" by (elim exE conjE)
  show ?thesis
  proof (cases r)
    case None
    then have "\<forall>x \<in> S. sel h x \<noteq> q" using r(2) by simp
    then show ?thesis using assms(2,3) by blast
  next
    case (Some d)
    then have "d \<in> S" "sel h d = q" using r(2) by simp_all
    then have "d = c" by (rule assms(4))
    then show ?thesis using r(1) Some by simp
  qed
qed

lemma get_absent:
  assumes "rep h p S" "\<And>x. x \<in> S \<Longrightarrow> sel h x \<noteq> q"
  shows "get h p q = Some None"
proof -
  from get_rep [OF assms(1), of q] obtain r where r: "get h p q = Some r"
    "case r of None \<Rightarrow> \<forall>x \<in> S. sel h x \<noteq> q | Some c \<Rightarrow> c \<in> S \<and> sel h c = q" by (elim exE conjE)
  have "r = None"
  proof (rule ccontr)
    assume "r \<noteq> None"
    then obtain d where "r = Some d" by blast
    then have "d \<in> S" "sel h d = q" using r(2) by simp_all
    then show False using assms(2) by blast
  qed
  then show ?thesis using r(1) by simp
qed

lemma put_get_del:
  assumes "rep h p S" "n \<notin> S" "ok n" "\<And>x. x \<in> S \<Longrightarrow> sel h x \<noteq> sel h n"
  obtains h1 h2 where "put h p n = Some h1" "get h1 p (sel h n) = Some (Some n)"
    "del h1 p n = Some h2" "get h2 p (sel h n) = Some None" "rep h1 p (insert n S)" "rep h2 p S"
    "sel h1 = sel h" "sel h2 = sel h"
proof -
  from put_rep [OF assms(1-3)] obtain h1 where
    h1: "put h p n = Some h1" "rep h1 p (insert n S)" "sel h1 = sel h" by (elim exE conjE)
  have "insert n S - {n} = S" using assms(2) by simp
  then obtain h2 where h2: "del h1 p n = Some h2" "rep h2 p S" "sel h2 = sel h"
    using del_rep [OF h1(2), of n] h1(3) by fastforce
  have "get h1 p (sel h n) = Some (Some n)"
    by (rule get_unique [OF h1(2)]) (use assms(4) h1(3) in auto)
  moreover have "get h2 p (sel h n) = Some None"
    by (rule get_absent [OF h2(2)]) (use assms(4) h2(3) in auto)
  ultimately show ?thesis using h1 h2 by (intro that)
qed

end

definition ht_sel :: "knv_heap \<Rightarrow> nat \<Rightarrow> u32 \<times> byte list" where
  "ht_sel h n = (nd_tag (nd h n), k_val (nd_key (nd h n)))"

definition ht_lookup :: "knv_heap \<Rightarrow> nat \<Rightarrow> u32 \<times> byte list \<Rightarrow> nat option option" where
  "ht_lookup h p q = map_option (\<lambda>c. if c = 0 then None else Some c) (KnvHt_get h p (fst q) (snd q))"

lemma ht_lookup_iff:
  "ht_lookup h p (t, k) = Some (Some c) \<Longrightarrow> KnvHt_get h p t k = Some c"
  "ht_lookup h p (t, k) = Some None \<Longrightarrow> KnvHt_get h p t k = Some 0"
  by (auto simp: ht_lookup_def split: if_splits)

lemma ht_same_selI: "ht_same P A h h' \<Longrightarrow> ht_sel h' = ht_sel h"
  by (auto simp: ht_sel_def ht_same_sel fun_eq_iff)

interpretation kht: child_index ht_ok ht_sel "\<lambda>n. n \<noteq> 0" ht_lookup KnvHt_put
  "\<lambda>h p n. map_option snd (KnvHt_remove h p n)"
proof
  fix h p S n and q :: "u32 \<times> byte list"
  assume ok: "ht_ok h p S"
  obtain t k where q: "q = (t, k)" by (cases q)
  from KnvHt_get_ok [OF ok, of t k] obtain c where c: "KnvHt_get h p t k = Some c"
    "c = 0 \<and> (\<forall>x \<in> S. \<not> IsMatch h x t k) \<or> c \<in> S \<and> c \<noteq> 0 \<and> IsMatch h c t k" by blast
  show "\<exists>r. ht_lookup h p q = Some r \<and>
      (case r of None \<Rightarrow> \<forall>x \<in> S. ht_sel h x \<noteq> q | Some c \<Rightarrow> c \<in> S \<and> ht_sel h c = q)"
    using c q by (auto simp: ht_lookup_def ht_sel_def IsMatch_iff split: if_splits option.splits)
  show "\<exists>h'. KnvHt_put h p n = Some h' \<and> ht_ok h' p (insert n S) \<and> ht_sel h' = ht_sel h" if "n \<notin> S" "n \<noteq> 0"
    using KnvHt_put_ok [OF ok that] ht_same_selI by blast
  show "\<exists>h'. map_option snd (KnvHt_remove h p n) = Some h' \<and> ht_ok h' p (S - {n}) \<and> ht_sel h' = ht_sel h" if "n \<in> S"
    using KnvHt_remove_ok [OF ok that] ht_same_selI by fastforce
qed

section \<open>Properties\<close>

text \<open>The table of \<open>p\<close> answers every search with a node of \<open>S\<close> that has the tag and the key, and with the null pointer when
  there is none.\<close>

definition ht_finds :: "knv_heap \<Rightarrow> nat \<Rightarrow> nat set \<Rightarrow> bool" where
  "ht_finds h p S \<longleftrightarrow> (\<forall>t k. \<exists>c. KnvHt_get h p t k = Some c \<and>
     (if \<exists>x \<in> S. ht_sel h x = (t, k) then c \<in> S \<and> c \<noteq> 0 \<and> ht_sel h c = (t, k) else c = 0))"

lemma ht_ok_finds: "ht_ok h p S \<Longrightarrow> ht_finds h p S"
proof -
  assume ok: "ht_ok h p S"
  have "\<exists>c. KnvHt_get h p t k = Some c \<and>
     (if \<exists>x \<in> S. ht_sel h x = (t, k) then c \<in> S \<and> c \<noteq> 0 \<and> ht_sel h c = (t, k) else c = 0)" for t k
    using KnvHt_get_ok [OF ok, of t k] by (auto simp: ht_sel_def IsMatch_iff)
  then show ?thesis by (simp add: ht_finds_def)
qed

text \<open>(C25) The hash table of a node is an index of a set of children by tag and key: a search answers with a child that has the tag
  and the key, and with the null pointer exactly when no child has them. This holds again, for the larger set, after \<open>put\<close> of any new
  node, through every growth of the table from 32 to 256 and 8192 slots, and, for the smaller set, after \<open>remove\<close> of any child, wherever
  it stands in its chain. Neither changes tag or key of a node.\<close>

theorem KnvHt_index:
  assumes "ht_ok h p S"
  shows "ht_finds h p S \<and>
    (n \<notin> S \<and> n \<noteq> 0 \<longrightarrow> (\<exists>h'. KnvHt_put h p n = Some h' \<and> ht_ok h' p (insert n S) \<and> ht_sel h' = ht_sel h \<and> ht_finds h' p (insert n S))) \<and>
    (c \<in> S \<longrightarrow> (\<exists>h'. KnvHt_remove h p c = Some (0, h') \<and> ht_ok h' p (S - {c}) \<and> ht_sel h' = ht_sel h \<and> ht_finds h' p (S - {c})))"
proof (intro conjI impI)
  show "ht_finds h p S" by (rule ht_ok_finds [OF assms])
  show "\<exists>h'. KnvHt_put h p n = Some h' \<and> ht_ok h' p (insert n S) \<and> ht_sel h' = ht_sel h \<and> ht_finds h' p (insert n S)" if "n \<notin> S \<and> n \<noteq> 0"
    using kht.put_rep [OF assms, of n] that ht_ok_finds by blast
  show "\<exists>h'. KnvHt_remove h p c = Some (0, h') \<and> ht_ok h' p (S - {c}) \<and> ht_sel h' = ht_sel h \<and> ht_finds h' p (S - {c})" if "c \<in> S"
    using KnvHt_remove_ok [OF assms that] ht_same_selI ht_ok_finds by blast
qed

definition ht_example :: knv_heap where
  "ht_example = \<lparr>nd = (\<lambda>n. \<lparr>nd_tag = of_nat n, nd_type = PB_WT_STRING, nd_val = \<lparr>val_i64 = 0, val_data = []\<rparr>,
     nd_key = \<lparr>k_type = PB_WT_STRING, k_val = []\<rparr>, ht_next = 0, child_num = 0, nd_ht = KnvHt_clear, childlist = [],
     metalist = [], metas = \<lambda>_. 0, subnode_dirty = False, child_has_key = False, no_key = False, nd_parent = 0,
     eval_sz = 0, eval_val_sz = 0\<rparr>), np_free = [], np_fresh = 3\<rparr>"

theorem KnvHt_index_witness:
  "\<exists>h1 h2 h3. KnvHt_put ht_example 1 2 = Some h1 \<and> KnvHt_put h1 1 34 = Some h2 \<and> KnvHt_remove h2 1 2 = Some (0, h3) \<and>
     KnvHt_get h2 1 2 [] = Some 2 \<and> KnvHt_get h3 1 2 [] = Some 0 \<and> KnvHt_get h3 1 34 [] = Some 34"
proof -
  have "ht_ok ht_example 1 {}" by (rule ht_clear_ok) (simp add: ht_example_def)
  from KnvHt_index [OF this, of 2] obtain h1 where h1: "KnvHt_put ht_example 1 2 = Some h1" "ht_ok h1 1 {2}" "ht_sel h1 = ht_sel ht_example" by auto
  from KnvHt_index [OF h1(2), of 34] obtain h2 where h2: "KnvHt_put h1 1 34 = Some h2" "ht_ok h2 1 {34, 2}" "ht_sel h2 = ht_sel ht_example"
    "ht_finds h2 1 {34, 2}" using h1(3) by auto
  have d: "{34, 2} - {2} = {34 :: nat}" by auto
  from KnvHt_index [OF h2(2), of 0 2] obtain h3 where h3: "KnvHt_remove h2 1 2 = Some (0, h3)" "ht_sel h3 = ht_sel ht_example" "ht_finds h3 1 {34}"
    unfolding d using h2(3) by auto
  have s: "ht_sel ht_example c = (of_nat c, [])" for c by (simp add: ht_sel_def ht_example_def)
  have "KnvHt_get h2 1 2 [] = Some 2"
    using h2(4) [unfolded ht_finds_def, rule_format, of 2 "[]"] h2(3) s [of 2] s [of 34] by auto
  moreover have "KnvHt_get h3 1 2 [] = Some 0"
    using h3(3) [unfolded ht_finds_def, rule_format, of 2 "[]"] h3(2) s [of 34] by auto
  moreover have "KnvHt_get h3 1 34 [] = Some 34"
    using h3(3) [unfolded ht_finds_def, rule_format, of 34 "[]"] h3(2) s [of 34] by auto
  ultimately show ?thesis using h1(1) h2(1) h3(1) by blast
qed
end
