(* ===== verification/Knv_Node.thy ===== *)
theory Knv_Node
  imports Knv_Ht
begin

text \<open>
  The operations of \<open>KnvNode\<close> (\<open>knv/knv_node.h\<close>, \<open>knv/knv_node.cc\<close>): construction, expansion of a message into
  child nodes, size evaluation, serialisation, folding, and the changes of values, tags, keys, metas and children.

  Every operation is a function on \<open>knv_heap\<close> that returns the C++ result and the new heap; \<open>None\<close> stands for a
  call that does not return. An operation that updates its ancestors walks the parent pointers, as in the code.
  Buffers are values (see \<open>Knv_Ht\<close>), so \<open>own_buf\<close>, which only decides who owns a buffer, is no argument; one
  call is left out of the model, \<open>SetMeta\<close> over an existing string meta with \<open>own_buf\<close> set, because it writes
  into a buffer of another node: its value is \<open>None\<close> too. Sizes are C \<open>int\<close>s; they are integers here, converted where the
  code converts.
\<close>

section \<open>Definitions\<close>

definition UC_MAX_META_NUM :: nat where
  "UC_MAX_META_NUM = 10"

text \<open>The uninitialised local field of the callers of \<open>knv_begin\<close>.\<close>

definition field0 :: pb_field where
  "field0 = \<lparr>pf_tag = 0, pf_eom = False, pf_type = PB_WT_VARINT, pf_val = \<lparr>val_i64 = 0, val_data = []\<rparr>,
             pf_ptr = [], pf_left = 0\<rparr>"

definition str_len :: "pb_val \<Rightarrow> int" where
  "str_len v = s32 (unat (val_i32 v))"

text \<open>A value of which only \<open>str.len\<close> is set.\<close>

definition len_val :: "int \<Rightarrow> pb_val" where
  "len_val s = \<lparr>val_i64 = ucast (word_of_int s :: u32), val_data = []\<rparr>"

subsection \<open>The node pool\<close>

definition KnvNode_construct :: KnvNode where
  "KnvNode_construct = \<lparr>nd_tag = 0, nd_type = PB_WT_STRING, nd_val = \<lparr>val_i64 = 0, val_data = []\<rparr>,
     nd_key = \<lparr>k_type = PB_WT_STRING, k_val = []\<rparr>, ht_next = 0, child_num = -1, nd_ht = KnvHt_clear,
     childlist = [], metalist = [], metas = \<lambda>_. 0, subnode_dirty = False, child_has_key = False, no_key = False,
     nd_parent = 0, eval_sz = -1, eval_val_sz = 0\<rparr>"

definition np_New :: "knv_heap \<Rightarrow> nat \<times> knv_heap" where
  "np_New h =
     (case np_free h of
        [] \<Rightarrow> (np_fresh h, h\<lparr>nd := (nd h)(np_fresh h := KnvNode_construct), np_fresh := np_fresh h + 1\<rparr>)
      | i # fs \<Rightarrow> (i, h\<lparr>np_free := fs\<rparr>))"

definition ReleaseNode :: "nat \<Rightarrow> knv_heap \<Rightarrow> knv_heap" where
  "ReleaseNode n h =
     upd n (\<lambda>x. x\<lparr>subnode_dirty := False, child_num := -1, nd_key := (nd_key x)\<lparr>k_val := []\<rparr>,
                  nd_ht := KnvHt_clear, nd_tag := 0, nd_val := \<lparr>val_i64 = 0, val_data = []\<rparr>\<rparr>) h"

text \<open>One round of \<open>ReleaseKnvNodeList\<close>: release the nodes of a list and collect their metas and children.\<close>

fun release_level :: "nat list \<Rightarrow> nat list \<times> knv_heap \<Rightarrow> nat list \<times> knv_heap" where
  "release_level [] s = s"
| "release_level (c # cs) (cclist, h) =
     (let x = nd h c; cc = if child_num x \<ge> 0 then childlist x @ metalist x @ cclist else cclist
      in release_level cs (cc, ReleaseNode c h))"

partial_function (option) release_loop :: "nat list \<Rightarrow> nat list \<Rightarrow> knv_heap \<Rightarrow> (nat list \<times> knv_heap) option" where
  "release_loop clist fclist h =
     (if clist = [] then Some (fclist, h)
      else case release_level clist ([], h) of (cc, h') \<Rightarrow> release_loop cc (clist @ fclist) h')"

definition ReleaseKnvNodeList :: "nat list \<Rightarrow> knv_heap \<Rightarrow> knv_heap option" where
  "ReleaseKnvNodeList xs h =
     Option.bind (release_loop xs [] h) (\<lambda>(fclist, h'). Some (h'\<lparr>np_free := fclist @ np_free h'\<rparr>))"

definition ReleaseObject :: "nat \<Rightarrow> knv_heap \<Rightarrow> knv_heap option" where
  "ReleaseObject n h =
     (if child_num (nd h n) < 0 then Some (ReleaseNode n h)
      else do {
        h1 \<leftarrow> ReleaseKnvNodeList (metalist (nd h n)) h;
        let h2 = upd n (\<lambda>x. x\<lparr>metalist := []\<rparr>) h1;
        h3 \<leftarrow> ReleaseKnvNodeList (childlist (nd h2 n)) h2;
        Some (ReleaseNode n (upd n (\<lambda>x. x\<lparr>childlist := []\<rparr>) h3)) })"

definition np_Delete :: "nat \<Rightarrow> knv_heap \<Rightarrow> knv_heap option" where
  "np_Delete n h = Option.bind (ReleaseObject n h) (\<lambda>h'. Some (h'\<lparr>np_free := n # np_free h'\<rparr>))"

definition np_DeleteAll :: "nat list \<Rightarrow> knv_heap \<Rightarrow> knv_heap option" where
  "np_DeleteAll xs h = Option.bind (mfold ReleaseObject xs h) (\<lambda>h'. Some (h'\<lparr>np_free := xs @ np_free h'\<rparr>))"

text \<open>Dropping the expanded data of a node, as \<open>Fold\<close>, \<open>SetValue\<close> and a failed expansion do.
  The table of the node is not cleared.\<close>

definition drop_children :: "nat \<Rightarrow> knv_heap \<Rightarrow> knv_heap option" where
  "drop_children n h =
     Option.bind (np_DeleteAll (childlist (nd h n)) h) (\<lambda>h1. Some (upd n (\<lambda>x. x\<lparr>childlist := []\<rparr>) h1))"

definition drop_metas :: "nat \<Rightarrow> knv_heap \<Rightarrow> knv_heap option" where
  "drop_metas n h =
     Option.bind (np_DeleteAll (metalist (nd h n)) h) (\<lambda>h1. Some (upd n (\<lambda>x. x\<lparr>metalist := []\<rparr>) h1))"

definition KnvNode_Delete :: "nat \<Rightarrow> knv_heap \<Rightarrow> knv_heap option" where
  "KnvNode_Delete n h = (if n \<noteq> 0 then np_Delete n h else Some h)"

subsection \<open>Initialisation and expansion\<close>

definition IsBufferValid :: "KnvNode \<Rightarrow> bool" where
  "IsBufferValid x \<longleftrightarrow> val_i32 (nd_val x) \<noteq> 0"

definition InitChildList :: "int \<Rightarrow> KnvNode \<Rightarrow> KnvNode" where
  "InitChildList childnum x = x\<lparr>child_num := childnum, childlist := [], metalist := []\<rparr>"

text \<open>The key and the child count that \<open>InitNode\<close> finds in the value of a message.\<close>

definition init_key :: "pb_val \<Rightarrow> bool \<Rightarrow> knv_key \<times> int" where
  "init_key v force_no_key =
     (if force_no_key then (key_init PB_WT_STRING None, -1)
      else case knv_begin field0 (str_bytes v) (str_len v) of (ok, f2) \<Rightarrow>
        if ok \<and> pf_tag f2 = 1 then (key_init (pf_type f2) (Some (pf_val f2)), -1)
        else (key_init PB_WT_STRING None, if ok then -1 else 0))"

definition InitNode ::
    "nat \<Rightarrow> u32 \<Rightarrow> pb_wire_type \<Rightarrow> pb_val option \<Rightarrow> bool \<Rightarrow> int \<Rightarrow> bool \<Rightarrow> knv_heap \<Rightarrow> knv_heap" where
  "InitNode n t ty value update_eval field_sz force_no_key h =
     upd n (\<lambda>x.
       let v = (case value of
                  None \<Rightarrow> \<lparr>val_i64 = 0, val_data = []\<rparr>
                | Some w \<Rightarrow> if ty = PB_WT_STRING then (set_i32 (val_i32 w) (nd_val x))\<lparr>val_data := val_data w\<rparr>
                            else (nd_val x)\<lparr>val_i64 := val_i64 w\<rparr>);
           slen = (if value \<noteq> None \<and> ty = PB_WT_STRING then str_len v else 0);
           (k, ch_nr) = (if update_eval
                         then if slen \<noteq> 0 then init_key v force_no_key else (key_init PB_WT_STRING None, 0)
                         else (nd_key x, 0))
       in InitChildList ch_nr
            (x\<lparr>nd_tag := t, nd_type := ty, nd_parent := 0, nd_val := v, nd_key := k,
               eval_val_sz := if update_eval then slen else 0,
               eval_sz := if update_eval then if field_sz > 0 then field_sz else knv_eval_field_length t ty v else 0,
               no_key := (force_no_key \<or> ty \<noteq> PB_WT_STRING)\<rparr>)) h"

text \<open>The two branches of the loop of \<open>InnerExpand\<close>, for a field of \<open>sz\<close> bytes.\<close>

definition expand_meta :: "nat \<Rightarrow> pb_field \<Rightarrow> int \<Rightarrow> knv_heap \<Rightarrow> knv_heap" where
  "expand_meta n f sz h =
     (let h0 = (if metalist (nd h n) = [] then upd n (\<lambda>x. x\<lparr>metas := \<lambda>_. 0\<rparr>) h else h)
      in case np_New h0 of (m, h1) \<Rightarrow>
        let h2 = upd n (\<lambda>x. x\<lparr>metalist := metalist x @ [m]\<rparr>) h1;
            h3 = InitNode m (pf_tag f) (pf_type f) (Some (pf_val f)) True sz True h2;
            h4 = upd m (\<lambda>x. x\<lparr>nd_parent := n\<rparr>) h3
        in upd n (\<lambda>x. x\<lparr>metas := (metas x)(unat (pf_tag f) := m)\<rparr>) h4)"

definition expand_child :: "nat \<Rightarrow> pb_field \<Rightarrow> int \<Rightarrow> bool \<Rightarrow> knv_heap \<Rightarrow> knv_heap option" where
  "expand_child n f sz force_no_key h =
     (case np_New h of (c, h1) \<Rightarrow>
        let h2 = upd n (\<lambda>x. x\<lparr>childlist := childlist x @ [c]\<rparr>) h1;
            h3 = InitNode c (pf_tag f) (pf_type f) (Some (pf_val f)) True sz force_no_key h2;
            h4 = upd n (\<lambda>x. x\<lparr>child_has_key := child_has_key x \<or> k_val (nd_key (nd h3 c)) \<noteq> []\<rparr>) h3;
            h5 = upd c (\<lambda>x. x\<lparr>nd_parent := n\<rparr>) h4
        in Option.bind (KnvHt_put h5 n c) (\<lambda>h6. Some (upd n (\<lambda>x. x\<lparr>child_num := child_num x + 1\<rparr>) h6)))"

definition expand_end :: "nat \<Rightarrow> bool \<Rightarrow> knv_heap \<Rightarrow> knv_heap option" where
  "expand_end n eom h =
     (let h1 = upd n (\<lambda>x. x\<lparr>subnode_dirty := False\<rparr>) h
      in if eom then Some h1
         else Option.bind (drop_children n (upd n (\<lambda>x. x\<lparr>child_num := 0\<rparr>) h1)) (drop_metas n))"

partial_function (option) expand_loop :: "nat \<Rightarrow> bool \<Rightarrow> int \<Rightarrow> pb_field \<Rightarrow> knv_heap \<Rightarrow> knv_heap option" where
  "expand_loop n force_no_key prev_left f h = do {
     h1 \<leftarrow> (if unat (pf_tag f) \<le> UC_MAX_META_NUM then Some (expand_meta n f (prev_left - pf_left f) h)
            else expand_child n f (prev_left - pf_left f) force_no_key h);
     (case knv_next f of (ok, f') \<Rightarrow>
        if ok then expand_loop n force_no_key (pf_left f) f' h1 else expand_end n (pf_eom f') h1) }"

definition InnerExpand :: "nat \<Rightarrow> bool \<Rightarrow> knv_heap \<Rightarrow> knv_heap option" where
  "InnerExpand n force_no_key h =
     (if child_num (nd h n) \<ge> 0 then Some h
      else let h1 = upd n (\<lambda>x. (InitChildList 0 x)\<lparr>child_has_key := False\<rparr>) h; x = nd h n
           in if nd_type x \<noteq> PB_WT_STRING then Some h1
              else if nd_tag x = 1 \<and> nd_parent x \<noteq> 0 \<and> k_val (nd_key (nd h (nd_parent x))) \<noteq> [] then Some h1
              else case knv_begin field0 (str_bytes (nd_val x)) (str_len (nd_val x)) of (ok, f) \<Rightarrow>
                if \<not> ok then Some h1 else expand_loop n force_no_key (str_len (nd_val x)) f h1)"

definition Expand :: "nat \<Rightarrow> knv_heap \<Rightarrow> (int \<times> knv_heap) option" where
  "Expand n h = (if nd_tag (nd h n) = 0 then Some (-1, h) else map_option (Pair 0) (InnerExpand n False h))"

definition GetChildNum :: "nat \<Rightarrow> knv_heap \<Rightarrow> (int \<times> knv_heap) option" where
  "GetChildNum n h = Option.bind (Expand n h) (\<lambda>(_, h1). Some (max 0 (child_num (nd h1 n)), h1))"

subsection \<open>Size, serialisation and folding\<close>

definition is_leaf :: "KnvNode \<Rightarrow> bool" where
  "is_leaf x \<longleftrightarrow> nd_type x \<noteq> PB_WT_STRING \<or> child_num x < 0 \<or> child_num x = 0 \<and> metalist x = []"

definition is_folded :: "KnvNode \<Rightarrow> bool" where
  "is_folded x \<longleftrightarrow> is_leaf x \<or> IsBufferValid x \<and> \<not> subnode_dirty x"

definition has_key :: "KnvNode \<Rightarrow> bool" where
  "has_key x \<longleftrightarrow> \<not> no_key x \<and> k_val (nd_key x) \<noteq> []"

text \<open>The metas that are written after the key.\<close>

definition rest_metas :: "knv_heap \<Rightarrow> nat \<Rightarrow> nat list" where
  "rest_metas h n =
     (case metalist (nd h n) of
        [] \<Rightarrow> []
      | m # ms \<Rightarrow> if has_key (nd h n) \<and> nd_tag (nd h m) = 1 then ms else m # ms)"

partial_function (option) EvaluateSize :: "nat \<Rightarrow> knv_heap \<Rightarrow> (int \<times> knv_heap) option" where
  "EvaluateSize n h =
     (let x = nd h n
      in if eval_sz x \<ge> 0 then Some (eval_sz x, h)
         else if is_folded x
         then let s = knv_eval_field_length (nd_tag x) (nd_type x) (nd_val x)
              in Some (s, upd n (\<lambda>x. x\<lparr>eval_val_sz := if nd_type x \<noteq> PB_WT_STRING then 0 else str_len (nd_val x),
                                       eval_sz := s\<rparr>) h)
         else do {
           (total, h1) \<leftarrow> mfold (\<lambda>c (a, g). Option.bind (EvaluateSize c g) (\<lambda>(s, g'). Some (a + s, g')))
             (rest_metas h n @ childlist x)
             (if has_key x then knv_eval_field_length 1 (k_type (nd_key x)) (key_GetValue (nd_key x)) else 0, h);
           let s = knv_eval_field_length (nd_tag x) (nd_type x) (len_val total);
           Some (s, upd n (\<lambda>x. x\<lparr>eval_val_sz := total, eval_sz := s\<rparr>) h1) })"

partial_function (option) Serialize :: "nat \<Rightarrow> int \<Rightarrow> bool \<Rightarrow> knv_heap \<Rightarrow> (int \<times> byte list \<times> knv_heap) option" where
  "Serialize n sz with_header h =
     (let x = nd h n; b = knv_init_buff (nat sz)
      in if nd_tag x = 0 then Some (-1, [], h)
         else if is_folded x
         then if with_header
              then case knv_add_field_val b (nd_tag x) (nd_type x) (nd_val x) of
                     (ret, b1) \<Rightarrow> Some (if ret \<noteq> 0 then (-3, [], h) else (0, bout b1, h))
              else if nd_type x \<noteq> PB_WT_STRING then Some (-5, [], h)
              else if sz > str_len (nd_val x) then Some (0, str_bytes (nd_val x), h)
              else Some (-4, [], h)
         else do {
           (evalsize, h1) \<leftarrow> EvaluateSize n h;
           let val_sz = eval_val_sz (nd h1 n);
           (case (if with_header then knv_add_string_head b (nd_tag x) (usz val_sz) else (0, b)) of (r1, b1) \<Rightarrow>
              if r1 \<noteq> 0 then Some (-6, [], h1)
              else case (if has_key x then knv_add_field_val b1 1 (k_type (nd_key x)) (key_GetValue (nd_key x)) else (0, b1)) of
                (r2, b2) \<Rightarrow>
                  if r2 \<noteq> 0 then Some (-7, [], h1)
                  else do {
                    (r, out, h2) \<leftarrow> mfold (\<lambda>(err, c) (r, out, g).
                        if r \<noteq> 0 then Some (r, out, g)
                        else Option.bind (Serialize c (sz - int (length out)) True g)
                               (\<lambda>(r', bs, g'). Some (if r' \<noteq> 0 then (err, out, g') else (0, out @ bs, g'))))
                      (map (Pair (-8)) (rest_metas h1 n) @ map (Pair (-9)) (childlist x)) (0, bout b2, h1);
                    Some (if r \<noteq> 0 then (r, [], h2)
                          else if int (length out) \<noteq> (if with_header then evalsize else eval_val_sz (nd h2 n)) then (-10, [], h2)
                          else (0, out, h2)) }) })"

definition Serialize_string :: "nat \<Rightarrow> knv_heap \<Rightarrow> (int \<times> byte list \<times> knv_heap) option" where
  "Serialize_string n h = do {
     (eval_len, h1) \<leftarrow> EvaluateSize n h;
     (ret, out, h2) \<leftarrow> Serialize n eval_len True h1;
     Some (if ret \<noteq> 0 then (-2, [], h2) else if eval_len \<noteq> int (length out) then (-3, out, h2) else (0, out, h2)) }"

text \<open>\<open>GetAllocSize\<close> of the buffer that \<open>UcMemManager::Alloc(sz)\<close> returns.\<close>

definition buffer_size :: "int \<Rightarrow> int" where
  "buffer_size sz =
     (if usz sz > biggest_magic then sz else int (GetAllocSize (pool_object (nat (get_magic (usz sz))) 0)))"

definition Fold :: "nat \<Rightarrow> knv_heap \<Rightarrow> (int \<times> knv_heap) option" where
  "Fold n h =
     (if nd_tag (nd h n) = 0 then Some (-1, h)
      else if is_folded (nd h n) then Some (0, h)
      else do {
        (sz, h1) \<leftarrow> EvaluateSize n h;
        (ret, out, h2) \<leftarrow> Serialize n (buffer_size sz) False h1;
        if ret \<noteq> 0 then Some (- ret - 100, h2)
        else if eval_val_sz (nd h2 n) \<noteq> int (length out) then Some (-4, h2)
        else do {
          let h3 = upd n (\<lambda>x. x\<lparr>nd_val := (set_i32 (of_nat (length out)) (nd_val x))\<lparr>val_data := out\<rparr>,
                                subnode_dirty := False, child_num := -1\<rparr>) h2;
          h4 \<leftarrow> drop_metas n h3;
          h5 \<leftarrow> drop_children n h4;
          Some (0, h5) } })"

definition KnvNode_GetValue :: "nat \<Rightarrow> knv_heap \<Rightarrow> (pb_val option \<times> knv_heap) option" where
  "KnvNode_GetValue n h =
     Option.bind (Fold n h) (\<lambda>(ret, h1). Some (if ret \<noteq> 0 then None else Some (nd_val (nd h1 n)), h1))"
subsection \<open>Keeping the ancestors up to date\<close>

text \<open>\<open>UPDATE_EVAL_SZ\<close> returns the new offset, for the next ancestor.\<close>

definition UPDATE_EVAL_SZ :: "nat \<Rightarrow> int \<Rightarrow> knv_heap \<Rightarrow> int \<times> knv_heap" where
  "UPDATE_EVAL_SZ n offset h =
     (if offset = 0 then (0, h)
      else let x = nd h n; vs = eval_val_sz x + offset;
               s = knv_eval_field_length (nd_tag x) (nd_type x) (len_val vs)
           in (s - eval_sz x, upd n (\<lambda>x. x\<lparr>eval_val_sz := vs, eval_sz := s\<rparr>) h))"

definition SET_VALUE_DIRTY :: "nat \<Rightarrow> knv_heap \<Rightarrow> knv_heap" where
  "SET_VALUE_DIRTY n h = upd n (\<lambda>x. x\<lparr>nd_val := set_i32 0 (nd_val x), subnode_dirty := True\<rparr>) h"

partial_function (option) update_loop :: "nat \<Rightarrow> bool \<Rightarrow> bool \<Rightarrow> int \<Rightarrow> knv_heap \<Rightarrow> knv_heap option" where
  "update_loop p updatedirty updateeval offset h =
     (if p \<noteq> 0 \<and> (updatedirty \<or> updateeval)
      then let stop = (eval_sz (nd h p) < 0 \<or> offset = 0);
               (offset1, h1) = (if updateeval \<and> \<not> stop then UPDATE_EVAL_SZ p offset h else (offset, h));
               dirty = subnode_dirty (nd h1 p);
               h2 = (if updatedirty \<and> \<not> dirty then SET_VALUE_DIRTY p h1 else h1)
           in update_loop (nd_parent (nd h2 p)) (updatedirty \<and> \<not> dirty) (updateeval \<and> \<not> stop) offset1 h2
      else Some h)"

definition UpdateParentEvalueAndSetDirty :: "nat \<Rightarrow> int \<Rightarrow> knv_heap \<Rightarrow> knv_heap option" where
  "UpdateParentEvalueAndSetDirty n offset h = update_loop (nd_parent (nd h n)) True (offset \<noteq> 0) offset h"

text \<open>The end of the operations on a node: adjust its size by \<open>offset\<close>, mark it, and go on with its ancestors.\<close>

definition adjust_eval :: "nat \<Rightarrow> int \<Rightarrow> knv_heap \<Rightarrow> int \<times> knv_heap" where
  "adjust_eval n offset h = (if eval_sz (nd h n) \<ge> 0 then UPDATE_EVAL_SZ n offset h else (0, h))"

definition finish_change :: "nat \<Rightarrow> int \<Rightarrow> knv_heap \<Rightarrow> knv_heap option" where
  "finish_change n offset h =
     (case adjust_eval n offset h of (offset', h1) \<Rightarrow>
        UpdateParentEvalueAndSetDirty n offset' (SET_VALUE_DIRTY n h1))"

text \<open>The table of the parent around a change of tag or key.\<close>

definition parent_remove :: "nat \<Rightarrow> knv_heap \<Rightarrow> knv_heap option" where
  "parent_remove n h =
     (if nd_parent (nd h n) \<noteq> 0 then map_option snd (KnvHt_remove h (nd_parent (nd h n)) n) else Some h)"

definition parent_put :: "nat \<Rightarrow> knv_heap \<Rightarrow> knv_heap option" where
  "parent_put n h = (if nd_parent (nd h n) \<noteq> 0 then KnvHt_put h (nd_parent (nd h n)) n else Some h)"

subsection \<open>Values and tags\<close>

text \<open>The test that the key is kept. It reads the new value into \<open>key\<close> itself and compares the fresh local \<open>k\<close>,
  whose length is 0, so it never refuses.\<close>

definition SetValue_check :: "nat \<Rightarrow> byte list \<Rightarrow> knv_heap \<Rightarrow> bool \<times> knv_heap" where
  "SetValue_check n bs h =
     (let x = nd h n
      in if (child_num x > 0 \<or> child_num x = 0 \<and> metalist x = []) \<and> has_key x
         then case knv_begin field0 bs (int (length bs)) of (ok, f) \<Rightarrow>
           let key' = (if ok \<and> pf_tag f \<noteq> 1 then key_init (pf_type f) (Some (pf_val f)) else key_init PB_WT_STRING None);
               k = \<lparr>k_type = PB_WT_STRING, k_val = []\<rparr>
           in (k_val k \<noteq> [] \<and> \<not> key_eq k key', upd n (\<lambda>x. x\<lparr>nd_key := key'\<rparr>) h)
         else (False, h))"

definition SetValue_str :: "nat \<Rightarrow> byte list \<Rightarrow> knv_heap \<Rightarrow> (int \<times> knv_heap) option" where
  "SetValue_str n bs h =
     (if nd_tag (nd h n) = 0 then Some (-1, h)
      else if nd_type (nd h n) \<noteq> PB_WT_STRING then Some (-2, h)
      else case SetValue_check n bs h of (bad, h1) \<Rightarrow>
        if bad then Some (-3, h1)
        else do {
          let h2 = upd n (\<lambda>x. x\<lparr>nd_val := (set_i32 (of_nat (length bs)) (nd_val x))\<lparr>val_data := bs\<rparr>\<rparr>) h1;
          h3 \<leftarrow> (if has_key (nd h2 n)
                 then do {
                   g \<leftarrow> parent_remove n h2;
                   (case knv_begin field0 bs (int (length bs)) of (ok, f) \<Rightarrow>
                      parent_put n (upd n (\<lambda>x. x\<lparr>nd_key := if ok \<and> pf_tag f = 1 then key_init (pf_type f) (Some (pf_val f))
                                                           else key_init PB_WT_STRING None\<rparr>) g)) }
                 else Some h2);
          h4 \<leftarrow> (if child_num (nd h3 n) \<ge> 0
                 then do {
                   g1 \<leftarrow> drop_children n h3;
                   g2 \<leftarrow> drop_metas n g1;
                   Some (upd n (\<lambda>x. x\<lparr>child_num := -1\<rparr>) g2) }
                 else Some h3);
          let h5 = upd n (\<lambda>x. x\<lparr>subnode_dirty := True\<rparr>) h4;
          (case adjust_eval n (int (length bs) - eval_val_sz (nd h5 n)) h5 of (offset, h6) \<Rightarrow>
             map_option (Pair 0) (UpdateParentEvalueAndSetDirty n offset h6)) })"

definition SetValue_int :: "nat \<Rightarrow> u64 \<Rightarrow> knv_heap \<Rightarrow> (int \<times> knv_heap) option" where
  "SetValue_int n i h =
     (let x = nd h n
      in if nd_tag x = 0 then Some (-1, h)
         else if nd_type x \<notin> {PB_WT_VARINT, PB_WT_FIXED64, PB_WT_FIXED32} then Some (-2, h)
         else let v = (nd_val x)\<lparr>val_i64 := i\<rparr>; s = knv_eval_field_length (nd_tag x) (nd_type x) v
              in map_option (Pair 0)
                   (UpdateParentEvalueAndSetDirty n (s - eval_sz x)
                      (upd n (\<lambda>x. x\<lparr>nd_val := v, eval_sz := s, eval_val_sz := 0, subnode_dirty := True\<rparr>) h)))"

definition SetValue :: "nat \<Rightarrow> pb_wire_type \<Rightarrow> pb_val \<Rightarrow> knv_heap \<Rightarrow> (int \<times> knv_heap) option" where
  "SetValue n ty v h = (if ty = PB_WT_STRING then SetValue_str n (str_bytes v) h else SetValue_int n (val_i64 v) h)"

definition SetTag :: "nat \<Rightarrow> u32 \<Rightarrow> knv_heap \<Rightarrow> (int \<times> knv_heap) option" where
  "SetTag n t h =
     (if t = 0 then Some (-1, h)
      else if nd_tag (nd h n) = 0 then Some (-2, h)
      else do {
        h1 \<leftarrow> parent_remove n h;
        h2 \<leftarrow> parent_put n (upd n (\<lambda>x. x\<lparr>nd_tag := t\<rparr>) h1);
        let x = nd h2 n;
        let s = (if eval_sz x \<ge> 0
                 then knv_eval_field_length t (nd_type x) (if nd_type x = PB_WT_STRING then len_val (eval_val_sz x) else nd_val x)
                 else eval_sz x);
        map_option (Pair 0) (UpdateParentEvalueAndSetDirty n (s - eval_sz x)
          (upd n (\<lambda>x. x\<lparr>eval_sz := s, subnode_dirty := True\<rparr>) h2)) })"

subsection \<open>Finding children and metas\<close>

text \<open>A result of 0 is \<open>NULL\<close>.\<close>

definition FindChild :: "nat \<Rightarrow> u32 \<Rightarrow> byte list \<Rightarrow> knv_heap \<Rightarrow> (nat \<times> knv_heap) option" where
  "FindChild n t k h =
     (if nd_tag (nd h n) = 0 then Some (0, h)
      else do {
        (_, h1) \<leftarrow> Expand n h;
        (if child_num (nd h1 n) \<le> 0 then Some (0, h1) else map_option (\<lambda>c. (c, h1)) (KnvHt_get h1 n t k)) })"

definition FindChild_pos :: "nat \<Rightarrow> u32 \<Rightarrow> byte list \<Rightarrow> knv_heap \<Rightarrow> (nat \<times> HtPos \<times> knv_heap) option" where
  "FindChild_pos n t k h =
     (if nd_tag (nd h n) = 0 then Some (0, HtSlot 0, h)
      else do {
        (_, h1) \<leftarrow> Expand n h;
        (if child_num (nd h1 n) \<le> 0 then Some (0, HtSlot 0, h1)
         else map_option (\<lambda>(c, pos). (c, pos, h1)) (KnvHt_get_pos h1 n t k)) })"

definition FindChildByTag :: "nat \<Rightarrow> u32 \<Rightarrow> knv_heap \<Rightarrow> (nat \<times> knv_heap) option" where
  "FindChildByTag n t h =
     (if nd_tag (nd h n) = 0 then Some (0, h)
      else do {
        (num, h1) \<leftarrow> GetChildNum n h;
        (if num \<le> 0 then Some (0, h1)
         else if child_has_key (nd h1 n)
         then Some (case List.find (\<lambda>c. nd_tag (nd h1 c) = t) (childlist (nd h1 n)) of None \<Rightarrow> 0 | Some c \<Rightarrow> c, h1)
         else map_option (\<lambda>c. (c, h1)) (KnvHt_get h1 n t [])) })"

definition GetMeta :: "nat \<Rightarrow> u32 \<Rightarrow> knv_heap \<Rightarrow> (nat \<times> knv_heap) option" where
  "GetMeta n t h =
     (if nd_tag (nd h n) = 0 \<or> unat t > UC_MAX_META_NUM then Some (0, h)
      else do {
        (_, h1) \<leftarrow> (if child_num (nd h n) < 0 then Expand n h else Some (0, h));
        Some (if metalist (nd h1 n) = [] then 0 else metas (nd h1 n) (unat t), h1) })"

definition GetFirstChild :: "nat \<Rightarrow> knv_heap \<Rightarrow> (nat \<times> knv_heap) option" where
  "GetFirstChild n h = do {
     (ret, h1) \<leftarrow> Expand n h;
     Some (if ret \<noteq> 0 \<or> child_num (nd h1 n) \<le> 0 \<or> childlist (nd h1 n) = [] then 0 else hd (childlist (nd h1 n)), h1) }"

definition GetLastChild :: "nat \<Rightarrow> knv_heap \<Rightarrow> (nat \<times> knv_heap) option" where
  "GetLastChild n h = do {
     (ret, h1) \<leftarrow> Expand n h;
     Some (if ret \<noteq> 0 \<or> childlist (nd h1 n) = [] then 0 else last (childlist (nd h1 n)), h1) }"

definition GetFirstMeta :: "nat \<Rightarrow> knv_heap \<Rightarrow> (nat \<times> knv_heap) option" where
  "GetFirstMeta n h = do {
     (ret, h1) \<leftarrow> Expand n h;
     Some (if ret \<noteq> 0 \<or> child_num (nd h1 n) < 0 \<or> metalist (nd h1 n) = [] then 0 else hd (metalist (nd h1 n)), h1) }"

definition KnvNode_GetIntVal :: "knv_heap \<Rightarrow> nat \<Rightarrow> u64" where
  "KnvNode_GetIntVal h n =
     (let x = nd h n
      in if nd_type x = PB_WT_VARINT \<or> nd_type x = PB_WT_FIXED64 then val_i64 (nd_val x)
         else if nd_type x = PB_WT_FIXED32 then ucast (val_i32 (nd_val x)) else 0)"

definition KnvNode_GetStrVal :: "nat \<Rightarrow> knv_heap \<Rightarrow> (byte list \<times> knv_heap) option" where
  "KnvNode_GetStrVal n h = do {
     (l, h1) \<leftarrow> KnvNode_GetValue n h;
     Some (case l of Some v \<Rightarrow> if nd_type (nd h1 n) = PB_WT_STRING then str_bytes v else [] | None \<Rightarrow> [], h1) }"
subsection \<open>Metas\<close>

text \<open>\<open>nodepool->Delete\<close> of a node in a list of \<open>n\<close>.\<close>

definition delete_meta :: "nat \<Rightarrow> nat \<Rightarrow> knv_heap \<Rightarrow> knv_heap option" where
  "delete_meta n m h = np_Delete m (upd n (\<lambda>x. x\<lparr>metalist := remove1 m (metalist x)\<rparr>) h)"

definition delete_child :: "nat \<Rightarrow> nat \<Rightarrow> knv_heap \<Rightarrow> knv_heap option" where
  "delete_child n c h = np_Delete c (upd n (\<lambda>x. x\<lparr>childlist := remove1 c (childlist x)\<rparr>) h)"

text \<open>\<open>SetMeta\<close> for a tag that has no meta yet, and for one that has.\<close>

definition new_meta :: "nat \<Rightarrow> u32 \<Rightarrow> pb_wire_type \<Rightarrow> pb_val option \<Rightarrow> knv_heap \<Rightarrow> nat \<times> knv_heap" where
  "new_meta n t ty data h =
     (let h0 = (if metalist (nd h n) = [] then upd n (\<lambda>x. x\<lparr>metas := \<lambda>_. 0\<rparr>) h else h)
      in case np_New h0 of (m, h1) \<Rightarrow>
        let h2 = upd n (\<lambda>x. x\<lparr>metalist := if t = 1 then m # metalist x else metalist x @ [m]\<rparr>) h1;
            h3 = InitNode m t ty data True 0 True h2;
            h4 = upd m (\<lambda>x. x\<lparr>nd_parent := n\<rparr>) h3
        in (m, upd n (\<lambda>x. x\<lparr>metas := (metas x)(unat t := m)\<rparr>) h4))"

definition overwrite_meta ::
    "nat \<Rightarrow> nat \<Rightarrow> u32 \<Rightarrow> pb_wire_type \<Rightarrow> pb_val option \<Rightarrow> bool \<Rightarrow> knv_heap \<Rightarrow> knv_heap option" where
  "overwrite_meta n m t ty data own_buf h =
     (if data \<noteq> None \<and> ty = PB_WT_STRING \<and> own_buf then None
      else do {
        let h1 = upd m (\<lambda>x. x\<lparr>nd_type := ty,
                   nd_val := case data of None \<Rightarrow> \<lparr>val_i64 = 0, val_data = []\<rparr> | Some v \<Rightarrow> v\<rparr>) h;
        (if child_num (nd h1 m) \<ge> 0
         then do {
           h2 \<leftarrow> drop_children m h1;
           h3 \<leftarrow> drop_metas m h2;
           Some (upd m (\<lambda>x. x\<lparr>child_num := if \<not> no_key (nd h3 n) \<and> t = 1 then 0 else -1\<rparr>) h3) }
         else Some h1) })"

definition SetMeta ::
    "nat \<Rightarrow> u32 \<Rightarrow> pb_wire_type \<Rightarrow> pb_val option \<Rightarrow> bool \<Rightarrow> bool \<Rightarrow> knv_heap \<Rightarrow> (int \<times> knv_heap) option" where
  "SetMeta n t ty data own_buf update_parent h =
     (if nd_tag (nd h n) = 0 then Some (-1, h)
      else if nd_type (nd h n) \<noteq> PB_WT_STRING then Some (-2, h)
      else if unat t > UC_MAX_META_NUM then Some (-3, h)
      else do {
        (m, h1) \<leftarrow> GetMeta n t h;
        (old_sz, h2) \<leftarrow> (if m \<noteq> 0 then EvaluateSize m h1 else Some (0, h1));
        (m', h3) \<leftarrow> (if m = 0 then Some (new_meta n t ty data h2)
                     else map_option (Pair m) (overwrite_meta n m t ty data own_buf h2));
        let s = knv_eval_field_length t ty (nd_val (nd h3 m'));
        let h4 = upd m' (\<lambda>x. x\<lparr>eval_val_sz := if ty = PB_WT_STRING then str_len (nd_val x) else 0, eval_sz := s\<rparr>) h3;
        (if \<not> update_parent then Some (0, upd n (\<lambda>x. x\<lparr>eval_val_sz := eval_val_sz x + (s - old_sz)\<rparr>) h4)
         else map_option (Pair 0) (finish_change n (s - old_sz) h4)) })"

definition InnerRemoveMeta :: "nat \<Rightarrow> u32 \<Rightarrow> knv_heap \<Rightarrow> (int \<times> knv_heap) option" where
  "InnerRemoveMeta n t h =
     (if nd_tag (nd h n) = 0 then Some (-1, h)
      else if unat t > UC_MAX_META_NUM then Some (-2, h)
      else do {
        (m, h1) \<leftarrow> GetMeta n t h;
        (if m = 0 then Some (0, h1)
         else do {
           (s, h2) \<leftarrow> (if eval_sz (nd h1 n) \<ge> 0 then EvaluateSize m h1 else Some (0, h1));
           h3 \<leftarrow> delete_meta n m h2;
           let h4 = upd n (\<lambda>x. x\<lparr>metas := (metas x)(unat t := 0)\<rparr>) h3;
           map_option (Pair 0) (finish_change n (- s) h4) }) })"

definition SetKey :: "nat \<Rightarrow> pb_wire_type \<Rightarrow> pb_val option \<Rightarrow> knv_heap \<Rightarrow> (int \<times> knv_heap) option" where
  "SetKey n keytype key h = do {
     h1 \<leftarrow> parent_remove n h;
     let h2 = upd n (\<lambda>x. x\<lparr>nd_key := key_init keytype key\<rparr>) h1;
     let k = nd_key (nd h2 n);
     (r, h3) \<leftarrow> (if k_val k \<noteq> [] then SetMeta n 1 keytype (Some (key_GetValue k)) False True h2 else InnerRemoveMeta n 1 h2);
     let ret = (if r < 0 then if k_val k \<noteq> [] then -2 else -3 else 0);
     h4 \<leftarrow> parent_put n (if ret = 0 then upd n (\<lambda>x. x\<lparr>no_key := False\<rparr>) h3 else h3);
     Some (ret, h4) }"

definition SetMeta_public :: "nat \<Rightarrow> u32 \<Rightarrow> pb_wire_type \<Rightarrow> pb_val option \<Rightarrow> knv_heap \<Rightarrow> (int \<times> knv_heap) option" where
  "SetMeta_public n t ty data h =
     (if \<not> no_key (nd h n) \<and> t = 1 then SetKey n ty data h else SetMeta n t ty data True True h)"

definition RemoveMeta :: "nat \<Rightarrow> u32 \<Rightarrow> knv_heap \<Rightarrow> (int \<times> knv_heap) option" where
  "RemoveMeta n t h = (if t = 1 then SetKey n (k_type (nd_key (nd h n))) None h else InnerRemoveMeta n t h)"

definition AddMeta :: "nat \<Rightarrow> u32 \<Rightarrow> pb_wire_type \<Rightarrow> pb_val option \<Rightarrow> knv_heap \<Rightarrow> (int \<times> knv_heap) option" where
  "AddMeta n t ty data h = do {
     (m0, h0) \<leftarrow> GetMeta n t h;
     (if m0 = 0 then SetMeta_public n t ty data h0
      else case np_New h0 of (m, h1) \<Rightarrow>
        let h2 = upd n (\<lambda>x. x\<lparr>metalist := metalist x @ [m]\<rparr>) h1;
            h3 = InitNode m t ty data True 0 True h2;
            h4 = upd m (\<lambda>x. x\<lparr>nd_parent := n\<rparr>) h3
        in map_option (Pair 0) (finish_change n (knv_eval_field_length t ty (nd_val (nd h4 m))) h4)) }"

text \<open>The typed accessors of metas. \<open>int_val\<close> is a value whose member \<open>i64\<close> has been set.\<close>

definition GetMetaInt :: "nat \<Rightarrow> u32 \<Rightarrow> knv_heap \<Rightarrow> (u64 \<times> knv_heap) option" where
  "GetMetaInt n t h = do {
     (l, h1) \<leftarrow> GetMeta n t h;
     Some (if l \<noteq> 0 then KnvNode_GetIntVal h1 l else 0, h1) }"

definition GetMetaStr :: "nat \<Rightarrow> u32 \<Rightarrow> knv_heap \<Rightarrow> (byte list \<times> knv_heap) option" where
  "GetMetaStr n t h = do {
     (l, h1) \<leftarrow> GetMeta n t h;
     (if l \<noteq> 0 then KnvNode_GetStrVal l h1 else Some ([], h1)) }"

abbreviation int_val :: "u64 \<Rightarrow> pb_val" where
  "int_val i \<equiv> \<lparr>val_i64 = i, val_data = []\<rparr>"

definition SetMetaInt :: "nat \<Rightarrow> u32 \<Rightarrow> u64 \<Rightarrow> knv_heap \<Rightarrow> (int \<times> knv_heap) option" where
  "SetMetaInt n t i h = SetMeta_public n t PB_WT_VARINT (Some (int_val i)) h"

definition SetMetaStr :: "nat \<Rightarrow> u32 \<Rightarrow> byte list \<Rightarrow> knv_heap \<Rightarrow> (int \<times> knv_heap) option" where
  "SetMetaStr n t bs h = SetMeta_public n t PB_WT_STRING (Some (str_val bs)) h"

definition AddMetaInt :: "nat \<Rightarrow> u32 \<Rightarrow> u64 \<Rightarrow> knv_heap \<Rightarrow> (int \<times> knv_heap) option" where
  "AddMetaInt n t i h = AddMeta n t PB_WT_VARINT (Some (int_val i)) h"

definition AddMetaStr :: "nat \<Rightarrow> u32 \<Rightarrow> byte list \<Rightarrow> knv_heap \<Rightarrow> (int \<times> knv_heap) option" where
  "AddMetaStr n t bs h = AddMeta n t PB_WT_STRING (Some (str_val bs)) h"

text \<open>The loop of \<open>RemoveMetaByTag\<close>; the state is \<open>offset\<close> and the heap.\<close>

definition remove_meta_step :: "nat \<Rightarrow> u32 \<Rightarrow> nat \<Rightarrow> int \<times> knv_heap \<Rightarrow> (int \<times> knv_heap) option" where
  "remove_meta_step n t m s =
     (case s of (offset, h) \<Rightarrow>
        if nd_tag (nd h m) \<noteq> t then Some (offset, h)
        else do {
          (sz, h1) \<leftarrow> (if eval_sz (nd h n) \<ge> 0 then EvaluateSize m h else Some (0, h));
          h2 \<leftarrow> delete_meta n m h1;
          Some (offset - sz, h2) })"

definition RemoveMetaByTag :: "nat \<Rightarrow> u32 \<Rightarrow> knv_heap \<Rightarrow> (int \<times> knv_heap) option" where
  "RemoveMetaByTag n t h =
     (if nd_tag (nd h n) = 0 then Some (-1, h)
      else if unat t > UC_MAX_META_NUM then Some (-2, h)
      else do {
        (m, h1) \<leftarrow> GetMeta n t h;
        (if m = 0 then Some (0, h1)
         else do {
           (r, h2) \<leftarrow> (if \<not> no_key (nd h1 n) \<and> t = 1 then SetKey n (k_type (nd_key (nd h1 n))) None h1 else Some (0, h1));
           (if r < 0 then Some (r, h2)
            else do {
              (offset, h3) \<leftarrow> mfold (remove_meta_step n t) (metalist (nd h2 n)) (0, h2);
              let h4 = upd n (\<lambda>x. x\<lparr>metas := (metas x)(unat t := 0)\<rparr>) h3;
              map_option (Pair 0) (finish_change n offset h4) }) }) })"

subsection \<open>Construction\<close>

definition KnvNode_New_data :: "byte list \<Rightarrow> knv_heap \<Rightarrow> nat \<times> knv_heap" where
  "KnvNode_New_data data h =
     (case knv_begin field0 data (int (length data)) of (ok, f) \<Rightarrow>
        if \<not> ok then (0, h)
        else case np_New h of (n, h1) \<Rightarrow>
          (n, InitNode n (pf_tag f) (pf_type f) (Some (pf_val f)) True (int (length data) - pf_left f) False h1))"

definition KnvNode_New ::
    "u32 \<Rightarrow> pb_wire_type \<Rightarrow> pb_wire_type \<Rightarrow> pb_val option \<Rightarrow> pb_val option \<Rightarrow> knv_heap \<Rightarrow> (nat \<times> knv_heap) option" where
  "KnvNode_New t ty keytype key val h =
     (if t = 0 then Some (0, h)
      else case np_New h of (n, h1) \<Rightarrow>
        let h2 = InitNode n t ty val True 0 False h1
        in if key = None then Some (n, h2)
           else let h3 = upd n (\<lambda>x. x\<lparr>nd_key := key_init keytype key\<rparr>) h2; k = nd_key (nd h3 n)
                in if k_val k = [] then Some (n, h3)
                   else do {
                     (r, h4) \<leftarrow> SetMeta n 1 keytype (Some (key_GetValue k)) False True h3;
                     (if r < 0 then map_option (Pair 0) (np_Delete n h4) else Some (n, h4)) })"

definition NewTree :: "u32 \<Rightarrow> knv_key option \<Rightarrow> knv_heap \<Rightarrow> (nat \<times> knv_heap) option" where
  "NewTree t key h =
     KnvNode_New t PB_WT_STRING (case key of Some k \<Rightarrow> k_type k | None \<Rightarrow> PB_WT_STRING) (map_option key_GetValue key) None h"

definition NewFromMessage :: "byte list \<Rightarrow> u32 \<Rightarrow> knv_heap \<Rightarrow> (nat \<times> knv_heap) option" where
  "NewFromMessage msg t h = KnvNode_New t PB_WT_STRING PB_WT_STRING None (Some (str_val msg)) h"

definition InnerDuplicate :: "nat \<Rightarrow> bool \<Rightarrow> knv_heap \<Rightarrow> (nat \<times> knv_heap) option" where
  "InnerDuplicate n force_no_key h = do {
     let x = nd h n;
     (v, h1) \<leftarrow>
       (if nd_type x = PB_WT_STRING \<and> val_i32 (nd_val x) = 0 \<and> child_num x \<ge> 0
        then do {
          (sz, g1) \<leftarrow> EvaluateSize n h;
          (ret, out, g2) \<leftarrow> Serialize n (buffer_size sz) False g1;
          Some (if ret \<noteq> 0 \<or> eval_val_sz (nd g2 n) \<noteq> int (length out) then None else Some (str_val out), g2) }
        else Some (Some (nd_val x), h));
     (case v of
        None \<Rightarrow> Some (0, h1)
      | Some w \<Rightarrow> (case np_New h1 of (m, h2) \<Rightarrow>
          Some (m, InitNode m (nd_tag x) (nd_type x) (Some w) True (eval_sz (nd h2 n)) force_no_key h2))) }"

definition Duplicate :: "nat \<Rightarrow> knv_heap \<Rightarrow> (nat \<times> knv_heap) option" where
  "Duplicate n h = (if nd_tag (nd h n) = 0 then Some (0, h) else InnerDuplicate n False h)"

definition DupEmptyNode :: "nat \<Rightarrow> knv_heap \<Rightarrow> nat \<times> knv_heap" where
  "DupEmptyNode n h =
     (case np_New h of (m, h1) \<Rightarrow>
        let x = nd h n; k = nd_key x;
            h2 = InitNode m (nd_tag x) (nd_type x) None False 0 False h1
        in (m, upd m (\<lambda>y. y\<lparr>nd_key := k, eval_val_sz := if k_val k \<noteq> [] then knv_eval_field_length 1 (k_type k) (key_GetValue k)
                                                          else eval_val_sz y\<rparr>) h2))"

subsection \<open>Children\<close>

definition INSERT_CHILD :: "nat \<Rightarrow> nat \<Rightarrow> bool \<Rightarrow> knv_heap \<Rightarrow> knv_heap option" where
  "INSERT_CHILD p c at_tail h =
     Option.bind (KnvHt_put (upd p (\<lambda>x. x\<lparr>childlist := if at_tail then childlist x @ [c] else c # childlist x\<rparr>) h) p c)
       (\<lambda>h1. Some (upd p (\<lambda>x. x\<lparr>child_has_key := child_has_key x \<or> k_val (nd_key (nd h1 c)) \<noteq> [],
                               child_num := child_num x + 1\<rparr>) h1))"

definition InnerInsertChild :: "nat \<Rightarrow> nat \<Rightarrow> bool \<Rightarrow> bool \<Rightarrow> bool \<Rightarrow> knv_heap \<Rightarrow> (int \<times> knv_heap) option" where
  "InnerInsertChild n child take_ownership update_parent at_tail h = do {
     (c, h1) \<leftarrow> (if take_ownership then Some (child, h) else InnerDuplicate child (\<not> update_parent) h);
     (if c = 0 then Some (-1, h1)
      else do {
        h2 \<leftarrow> INSERT_CHILD n c at_tail (upd c (\<lambda>x. x\<lparr>nd_parent := n\<rparr>) h1);
        (if \<not> update_parent
         then do {
           (s, h3) \<leftarrow> EvaluateSize c h2;
           Some (0, upd n (\<lambda>x. x\<lparr>eval_val_sz := eval_val_sz x + s\<rparr>) h3) }
         else do {
           (s, h3) \<leftarrow> (if eval_sz (nd h2 n) \<ge> 0 then EvaluateSize c h2 else Some (0, h2));
           map_option (Pair 0) (finish_change n s h3) }) }) }"

definition InsertChild :: "nat \<Rightarrow> nat \<Rightarrow> bool \<Rightarrow> bool \<Rightarrow> knv_heap \<Rightarrow> (int \<times> knv_heap) option" where
  "InsertChild n child take_ownership at_tail h =
     (if nd_tag (nd h n) = 0 then Some (-2, h)
      else if nd_type (nd h n) \<noteq> PB_WT_STRING then Some (-3, h)
      else do {
        (_, h1) \<leftarrow> (if child_num (nd h n) < 0 then Expand n h else Some (0, h));
        (if child \<noteq> 0 then InnerInsertChild n child take_ownership True at_tail h1 else Some (-5, h1)) })"

text \<open>\<open>InsertChild(tag, type, key, data)\<close> and its special cases: the new child, or 0.\<close>

definition InsertChild_new ::
    "nat \<Rightarrow> u32 \<Rightarrow> pb_wire_type \<Rightarrow> knv_key option \<Rightarrow> pb_val option \<Rightarrow> knv_heap \<Rightarrow> (nat \<times> knv_heap) option" where
  "InsertChild_new n t ty key data h = do {
     (c, h1) \<leftarrow> KnvNode_New t ty (case key of Some k \<Rightarrow> k_type k | None \<Rightarrow> PB_WT_STRING) (map_option key_GetValue key) data h;
     (if c = 0 then Some (0, h1)
      else do {
        (r, h2) \<leftarrow> InsertChild n c True True h1;
        (if r \<noteq> 0 then map_option (Pair 0) (KnvNode_Delete c h2) else Some (c, h2)) }) }"

definition InsertSubNode :: "nat \<Rightarrow> u32 \<Rightarrow> knv_key option \<Rightarrow> knv_heap \<Rightarrow> (nat \<times> knv_heap) option" where
  "InsertSubNode n t key h = InsertChild_new n t PB_WT_STRING key None h"

definition InsertIntLeaf :: "nat \<Rightarrow> u32 \<Rightarrow> u64 \<Rightarrow> knv_heap \<Rightarrow> (nat \<times> knv_heap) option" where
  "InsertIntLeaf n t i h = InsertChild_new n t PB_WT_VARINT None (Some \<lparr>val_i64 = i, val_data = []\<rparr>) h"

definition InsertStrLeaf :: "nat \<Rightarrow> u32 \<Rightarrow> byte list \<Rightarrow> knv_heap \<Rightarrow> (nat \<times> knv_heap) option" where
  "InsertStrLeaf n t bs h = InsertChild_new n t PB_WT_STRING None (Some (str_val bs)) h"

definition DetachChild :: "nat \<Rightarrow> nat \<Rightarrow> knv_heap \<Rightarrow> (bool \<times> knv_heap) option" where
  "DetachChild n c h =
     (if c = 0 then Some (False, h)
      else do {
        (s, h1) \<leftarrow> (if eval_sz (nd h n) \<ge> 0 then EvaluateSize c h else Some (0, h));
        (_, h2) \<leftarrow> KnvHt_remove h1 n c;
        let h3 = upd n (\<lambda>x. x\<lparr>childlist := remove1 c (childlist x), child_num := child_num x - 1\<rparr>) h2;
        map_option (Pair True) (finish_change n (- s) h3) })"

definition RemoveChildByPos :: "nat \<Rightarrow> nat \<Rightarrow> HtPos option \<Rightarrow> knv_heap \<Rightarrow> (bool \<times> knv_heap) option" where
  "RemoveChildByPos n c pos h =
     (if c = 0 then Some (False, h)
      else do {
        (s, h1) \<leftarrow> (if eval_sz (nd h n) \<ge> 0 then EvaluateSize c h else Some (0, h));
        h2 \<leftarrow> (case pos of None \<Rightarrow> map_option snd (KnvHt_remove h1 n c) | Some q \<Rightarrow> Some (KnvHt_remove_pos h1 n c q));
        h3 \<leftarrow> delete_child n c h2;
        let h4 = upd n (\<lambda>x. x\<lparr>child_num := child_num x - 1\<rparr>) h3;
        map_option (Pair True) (finish_change n (- s) h4) })"

definition RemoveChild :: "nat \<Rightarrow> u32 \<Rightarrow> byte list \<Rightarrow> knv_heap \<Rightarrow> (bool \<times> knv_heap) option" where
  "RemoveChild n t k h = do {
     (c, pos, h1) \<leftarrow> FindChild_pos n t k h;
     (if c = 0 then Some (False, h1) else RemoveChildByPos n c (Some pos) h1) }"

text \<open>The loop of \<open>RemoveChildrenByTag\<close>; the state is \<open>match_nr\<close>, \<open>offset\<close> and the heap.\<close>

definition remove_child_step :: "nat \<Rightarrow> u32 \<Rightarrow> nat \<Rightarrow> int \<times> int \<times> knv_heap \<Rightarrow> (int \<times> int \<times> knv_heap) option" where
  "remove_child_step n t c s =
     (case s of (nr, offset, h) \<Rightarrow>
        if nd_tag (nd h c) \<noteq> t then Some (nr, offset, h)
        else do {
          (sz, h1) \<leftarrow> (if eval_sz (nd h n) \<ge> 0 then EvaluateSize c h else Some (0, h));
          (_, h2) \<leftarrow> KnvHt_remove h1 n c;
          h3 \<leftarrow> delete_child n c h2;
          Some (nr + 1, offset - sz, upd n (\<lambda>x. x\<lparr>child_num := child_num x - 1\<rparr>) h3) })"

definition RemoveChildrenByTag :: "nat \<Rightarrow> u32 \<Rightarrow> knv_heap \<Rightarrow> (int \<times> knv_heap) option" where
  "RemoveChildrenByTag n t h =
     (if nd_tag (nd h n) = 0 then Some (-1, h)
      else do {
        (num, h1) \<leftarrow> GetChildNum n h;
        (if num \<le> 0 then Some (0, h1)
         else do {
           (nr, offset, h2) \<leftarrow> mfold (remove_child_step n t) (childlist (nd h1 n)) (0, 0, h1);
           (if nr = 0 then Some (0, h2) else map_option (Pair nr) (finish_change n offset h2)) }) })"

text \<open>\<open>Remove\<close> and \<open>Detach\<close> of a node itself.\<close>

definition KnvNode_Remove :: "nat \<Rightarrow> knv_heap \<Rightarrow> (int \<times> knv_heap) option" where
  "KnvNode_Remove n h =
     (if nd_parent (nd h n) = 0 then map_option (Pair 0) (KnvNode_Delete n h)
      else map_option (\<lambda>(ok, h1). (if ok then 0 else -1, h1)) (RemoveChildByPos (nd_parent (nd h n)) n None h))"

definition KnvNode_Detach :: "nat \<Rightarrow> knv_heap \<Rightarrow> (int \<times> knv_heap) option" where
  "KnvNode_Detach n h =
     (if nd_parent (nd h n) = 0 then Some (0, h)
      else map_option (\<lambda>(ok, h1). (if ok then 0 else -1, h1)) (DetachChild (nd_parent (nd h n)) n h))"

text \<open>\<open>SetChild\<close> replaces the value of the first child with the tag or adds one.\<close>

definition SetChild :: "nat \<Rightarrow> u32 \<Rightarrow> pb_wire_type \<Rightarrow> pb_val \<Rightarrow> knv_heap \<Rightarrow> (int \<times> knv_heap) option" where
  "SetChild n t ty data h = do {
     (c, h1) \<leftarrow> FindChildByTag n t h;
     (if c \<noteq> 0
      then if (ty = PB_WT_STRING) \<noteq> (nd_type (nd h1 c) = PB_WT_STRING) then Some (-2, h1)
           else do {
             (r, h2) \<leftarrow> SetValue c ty data h1;
             Some (if r \<noteq> 0 then -1 else 0, h2) }
      else do {
        (c', h2) \<leftarrow> InsertChild_new n t ty None (Some data) h1;
        Some (if c' \<noteq> 0 then 0 else -3, h2) }) }"

definition GetChildInt :: "nat \<Rightarrow> u32 \<Rightarrow> knv_heap \<Rightarrow> (u64 \<times> knv_heap) option" where
  "GetChildInt n t h = do {
     (c, h1) \<leftarrow> FindChildByTag n t h;
     Some (if c \<noteq> 0 then KnvNode_GetIntVal h1 c else 0, h1) }"

definition GetChildStr :: "nat \<Rightarrow> u32 \<Rightarrow> knv_heap \<Rightarrow> (byte list \<times> knv_heap) option" where
  "GetChildStr n t h = do {
     (c, h1) \<leftarrow> FindChildByTag n t h;
     (if c \<noteq> 0 then KnvNode_GetStrVal c h1 else Some ([], h1)) }"

definition AddChild :: "nat \<Rightarrow> u32 \<Rightarrow> pb_wire_type \<Rightarrow> pb_val option \<Rightarrow> knv_heap \<Rightarrow> (int \<times> knv_heap) option" where
  "AddChild n t ty data h = do {
     (c, h1) \<leftarrow> InsertChild_new n t ty None data h;
     Some (if c \<noteq> 0 then 0 else -1, h1) }"

definition AddChildInt :: "nat \<Rightarrow> u32 \<Rightarrow> u64 \<Rightarrow> knv_heap \<Rightarrow> (int \<times> knv_heap) option" where
  "AddChildInt n t i h = do {
     (c, h1) \<leftarrow> InsertIntLeaf n t i h;
     Some (if c \<noteq> 0 then 0 else -1, h1) }"

definition AddChildStr :: "nat \<Rightarrow> u32 \<Rightarrow> byte list \<Rightarrow> knv_heap \<Rightarrow> (int \<times> knv_heap) option" where
  "AddChildStr n t bs h = do {
     (c, h1) \<leftarrow> InsertStrLeaf n t bs h;
     Some (if c \<noteq> 0 then 0 else -1, h1) }"

definition SetChildInt :: "nat \<Rightarrow> u32 \<Rightarrow> u64 \<Rightarrow> knv_heap \<Rightarrow> (int \<times> knv_heap) option" where
  "SetChildInt n t i h = SetChild n t PB_WT_VARINT (int_val i) h"

definition SetChildStr :: "nat \<Rightarrow> u32 \<Rightarrow> byte list \<Rightarrow> knv_heap \<Rightarrow> (int \<times> knv_heap) option" where
  "SetChildStr n t bs h = SetChild n t PB_WT_STRING (str_val bs) h"

subsection \<open>Fields\<close>

text \<open>Access by tag, to a meta up to tag 10 and to a child above. A float or double is its bit pattern, which is all
  the code looks at.\<close>

abbreviation is_meta_tag :: "u32 \<Rightarrow> bool" where
  "is_meta_tag t \<equiv> unat t \<le> UC_MAX_META_NUM"

definition GetField :: "nat \<Rightarrow> u32 \<Rightarrow> knv_heap \<Rightarrow> (nat \<times> knv_heap) option" where
  "GetField n t h = (if is_meta_tag t then GetMeta n t h else FindChildByTag n t h)"

definition GetFieldInt :: "nat \<Rightarrow> u32 \<Rightarrow> knv_heap \<Rightarrow> (u64 \<times> knv_heap) option" where
  "GetFieldInt n t h = (if is_meta_tag t then GetMetaInt n t h else GetChildInt n t h)"

definition GetFieldSInt :: "nat \<Rightarrow> u32 \<Rightarrow> knv_heap \<Rightarrow> (u64 \<times> knv_heap) option" where
  "GetFieldSInt n t h = map_option (\<lambda>(i, h1). (pb_uint2int i, h1)) (GetFieldInt n t h)"

definition GetFieldFloat :: "nat \<Rightarrow> u32 \<Rightarrow> knv_heap \<Rightarrow> (u32 \<times> knv_heap) option" where
  "GetFieldFloat n t h = map_option (\<lambda>(i, h1). (ucast i, h1)) (GetFieldInt n t h)"

definition GetFieldDouble :: "nat \<Rightarrow> u32 \<Rightarrow> knv_heap \<Rightarrow> (u64 \<times> knv_heap) option" where
  "GetFieldDouble n t h = GetFieldInt n t h"

definition GetFieldStr :: "nat \<Rightarrow> u32 \<Rightarrow> knv_heap \<Rightarrow> (byte list \<times> knv_heap) option" where
  "GetFieldStr n t h = (if is_meta_tag t then GetMetaStr n t h else GetChildStr n t h)"

definition SetFieldInt :: "nat \<Rightarrow> u32 \<Rightarrow> u64 \<Rightarrow> knv_heap \<Rightarrow> (int \<times> knv_heap) option" where
  "SetFieldInt n t i h = (if is_meta_tag t then SetMetaInt n t i h else SetChildInt n t i h)"

definition SetFieldSInt :: "nat \<Rightarrow> u32 \<Rightarrow> u64 \<Rightarrow> knv_heap \<Rightarrow> (int \<times> knv_heap) option" where
  "SetFieldSInt n t i h = SetFieldInt n t (pb_int2uint i) h"

definition SetFieldStr :: "nat \<Rightarrow> u32 \<Rightarrow> byte list \<Rightarrow> knv_heap \<Rightarrow> (int \<times> knv_heap) option" where
  "SetFieldStr n t bs h = (if is_meta_tag t then SetMetaStr n t bs h else SetChildStr n t bs h)"

definition SetFieldDouble :: "nat \<Rightarrow> u32 \<Rightarrow> u64 \<Rightarrow> knv_heap \<Rightarrow> (int \<times> knv_heap) option" where
  "SetFieldDouble n t i h =
     (if is_meta_tag t then SetMeta_public n t PB_WT_FIXED64 (Some (int_val i)) h else SetChild n t PB_WT_FIXED64 (int_val i) h)"

definition AddFieldInt :: "nat \<Rightarrow> u32 \<Rightarrow> u64 \<Rightarrow> knv_heap \<Rightarrow> (int \<times> knv_heap) option" where
  "AddFieldInt n t i h = (if is_meta_tag t then AddMetaInt n t i h else AddChildInt n t i h)"

definition AddFieldSInt :: "nat \<Rightarrow> u32 \<Rightarrow> u64 \<Rightarrow> knv_heap \<Rightarrow> (int \<times> knv_heap) option" where
  "AddFieldSInt n t i h = AddFieldInt n t (pb_int2uint i) h"

definition AddFieldStr :: "nat \<Rightarrow> u32 \<Rightarrow> byte list \<Rightarrow> knv_heap \<Rightarrow> (int \<times> knv_heap) option" where
  "AddFieldStr n t bs h = (if is_meta_tag t then AddMetaStr n t bs h else AddChildStr n t bs h)"

text \<open>The conversion of an unsigned integer to a binary floating-point number with \<open>p\<close> significant bits, rounded to the nearest,
  ties to even; a carry out of the significand increments the exponent field.\<close>

fun bit_length :: "nat \<Rightarrow> nat" where
  "bit_length n = (if n = 0 then 0 else Suc (bit_length (n div 2)))"

declare bit_length.simps [simp del]

definition fp_of_nat :: "nat \<Rightarrow> nat \<Rightarrow> nat \<Rightarrow> nat" where
  "fp_of_nat p bias n =
     (if n = 0 then 0
      else let e = bit_length n - 1; s = e - (p - 1); q = n div 2 ^ s; r = n mod 2 ^ s;
               m = (if 2 * r > 2 ^ s \<or> 2 * r = 2 ^ s \<and> odd q then q + 1 else q) * 2 ^ (p - 1 - e)
           in (e + bias) * 2 ^ (p - 1) + (m - 2 ^ (p - 1)))"

text \<open>The four functions that write only a part of a local value; \<open>v0\<close> is what the variable holds before. A \<open>float\<close> or \<open>double\<close>
  argument is its bit pattern. \<open>AddFieldFloat\<close> and \<open>AddFieldDouble\<close> are declared with an integer argument.\<close>

definition SetFieldFloat :: "nat \<Rightarrow> u32 \<Rightarrow> u32 \<Rightarrow> pb_val \<Rightarrow> knv_heap \<Rightarrow> (int \<times> knv_heap) option" where
  "SetFieldFloat n t f v0 h =
     (if is_meta_tag t then SetMeta_public n t PB_WT_FIXED32 (Some (set_i32 f v0)) h else SetChild n t PB_WT_FIXED32 (set_i32 f v0) h)"

definition AddFieldFloat :: "nat \<Rightarrow> u32 \<Rightarrow> u64 \<Rightarrow> pb_val \<Rightarrow> knv_heap \<Rightarrow> (int \<times> knv_heap) option" where
  "AddFieldFloat n t i v0 h =
     (let v = set_i32 (of_nat (fp_of_nat 24 127 (unat i))) v0
      in if is_meta_tag t then AddMeta n t PB_WT_FIXED32 (Some v) h else AddChild n t PB_WT_FIXED32 (Some v) h)"

definition AddFieldDouble :: "nat \<Rightarrow> u32 \<Rightarrow> u64 \<Rightarrow> pb_val \<Rightarrow> knv_heap \<Rightarrow> (int \<times> knv_heap) option" where
  "AddFieldDouble n t i v0 h =
     (let v = v0\<lparr>val_i64 := of_nat (fp_of_nat 53 1023 (unat i))\<rparr>
      in if is_meta_tag t then AddMeta n t PB_WT_FIXED64 (Some v) h else AddChild n t PB_WT_FIXED64 (Some v) h)"

definition RemoveField :: "nat \<Rightarrow> u32 \<Rightarrow> knv_heap \<Rightarrow> (int \<times> knv_heap) option" where
  "RemoveField n t h = (if is_meta_tag t then RemoveMetaByTag n t h else RemoveChildrenByTag n t h)"

text \<open>\<open>GetFirstField(tag)\<close> and \<open>GetNextField(cur, tag)\<close>, in the list of metas or children.\<close>

definition first_with :: "knv_heap \<Rightarrow> u32 \<Rightarrow> nat list \<Rightarrow> nat" where
  "first_with h t xs = (case dropWhile (\<lambda>c. nd_tag (nd h c) \<noteq> t) xs of [] \<Rightarrow> 0 | c # _ \<Rightarrow> c)"

definition siblings_after :: "knv_heap \<Rightarrow> nat \<Rightarrow> nat list" where
  "siblings_after h c =
     (let p = nd h (nd_parent (nd h c)); xs = (if c \<in> set (metalist p) then metalist p else childlist p)
      in tl (dropWhile (\<lambda>d. d \<noteq> c) xs))"

definition GetSibling :: "nat \<Rightarrow> knv_heap \<Rightarrow> nat" where
  "GetSibling c h = (if nd_parent (nd h c) = 0 then 0 else case siblings_after h c of [] \<Rightarrow> 0 | d # _ \<Rightarrow> d)"

text \<open>\<open>prev\<close> of the first node of a list leads to the last one.\<close>

definition GetPrevSibling :: "nat \<Rightarrow> knv_heap \<Rightarrow> nat" where
  "GetPrevSibling c h =
     (let p = nd h (nd_parent (nd h c)); xs = (if c \<in> set (metalist p) then metalist p else childlist p)
      in if nd_parent (nd h c) = 0 \<or> c \<notin> set xs then 0
         else case rev (takeWhile (\<lambda>d. d \<noteq> c) xs) of [] \<Rightarrow> last xs | d # _ \<Rightarrow> d)"

definition GetFirstField :: "nat \<Rightarrow> u32 \<Rightarrow> knv_heap \<Rightarrow> (nat \<times> knv_heap) option" where
  "GetFirstField n t h =
     (if t \<noteq> 0
      then do {
        (c, h1) \<leftarrow> (if unat t \<le> UC_MAX_META_NUM then GetFirstMeta n h else GetFirstChild n h);
        Some (if c = 0 then 0 else first_with h1 t (c # siblings_after h1 c), h1) }
      else do {
        (m, h1) \<leftarrow> GetFirstMeta n h;
        (if m \<noteq> 0 then Some (m, h1) else GetFirstChild n h1) })"

definition GetNextField :: "nat \<Rightarrow> nat \<Rightarrow> u32 \<Rightarrow> knv_heap \<Rightarrow> (nat \<times> knv_heap) option" where
  "GetNextField n cur t h =
     (if cur = 0 then Some (0, h)
      else if t \<noteq> 0 then Some (first_with h t (siblings_after h cur), h)
      else case siblings_after h cur of
          c # _ \<Rightarrow> Some (c, h)
        | [] \<Rightarrow> if metalist (nd h n) \<noteq> [] \<and> last (metalist (nd h n)) = cur then GetFirstChild n h else Some (0, h))"

text \<open>The loops over all fields with a tag. \<open>visit\<close> is the body: it may append to the result and change the heap.\<close>

partial_function (option) fields_loop ::
    "nat \<Rightarrow> u32 \<Rightarrow> (nat \<Rightarrow> knv_heap \<Rightarrow> ('a list \<times> knv_heap) option) \<Rightarrow> nat \<Rightarrow> 'a list \<Rightarrow> knv_heap \<Rightarrow> ('a list \<times> knv_heap) option" where
  "fields_loop n t visit f acc h =
     (if f = 0 then Some (acc, h)
      else do {
        (vs, h1) \<leftarrow> visit f h;
        (f', h2) \<leftarrow> GetNextField n f t h1;
        fields_loop n t visit f' (acc @ vs) h2 })"

definition all_fields ::
    "nat \<Rightarrow> u32 \<Rightarrow> (nat \<Rightarrow> knv_heap \<Rightarrow> ('a list \<times> knv_heap) option) \<Rightarrow> knv_heap \<Rightarrow> (int \<times> 'a list \<times> knv_heap) option" where
  "all_fields n t visit h = do {
     (f, h1) \<leftarrow> GetFirstField n t h;
     (vs, h2) \<leftarrow> fields_loop n t visit f [] h1;
     Some (int (length vs), vs, h2) }"

definition GetFieldsInt :: "nat \<Rightarrow> u32 \<Rightarrow> knv_heap \<Rightarrow> (int \<times> u64 list \<times> knv_heap) option" where
  "GetFieldsInt n t h =
     all_fields n t (\<lambda>f h. Some (if nd_type (nd h f) \<noteq> PB_WT_STRING then [val_i64 (nd_val (nd h f))] else [], h)) h"

definition GetFieldsSInt :: "nat \<Rightarrow> u32 \<Rightarrow> knv_heap \<Rightarrow> (int \<times> u64 list \<times> knv_heap) option" where
  "GetFieldsSInt n t h =
     all_fields n t (\<lambda>f h. Some (if nd_type (nd h f) = PB_WT_VARINT then [pb_uint2int (val_i64 (nd_val (nd h f)))] else [], h)) h"

definition GetFieldsFloat :: "nat \<Rightarrow> u32 \<Rightarrow> knv_heap \<Rightarrow> (int \<times> u32 list \<times> knv_heap) option" where
  "GetFieldsFloat n t h =
     all_fields n t (\<lambda>f h. Some (if nd_type (nd h f) = PB_WT_FIXED32 then [val_i32 (nd_val (nd h f))] else [], h)) h"

definition GetFieldsDouble :: "nat \<Rightarrow> u32 \<Rightarrow> knv_heap \<Rightarrow> (int \<times> u64 list \<times> knv_heap) option" where
  "GetFieldsDouble n t h =
     all_fields n t (\<lambda>f h. Some (if nd_type (nd h f) = PB_WT_FIXED64 then [val_i64 (nd_val (nd h f))] else [], h)) h"

definition GetFieldsStr :: "nat \<Rightarrow> u32 \<Rightarrow> knv_heap \<Rightarrow> (int \<times> byte list list \<times> knv_heap) option" where
  "GetFieldsStr n t h =
     all_fields n t (\<lambda>f h. if nd_type (nd h f) = PB_WT_STRING then map_option (\<lambda>(s, h1). ([s], h1)) (KnvNode_GetStrVal f h) else Some ([], h)) h"

definition GetFields :: "nat \<Rightarrow> u32 \<Rightarrow> knv_heap \<Rightarrow> (int \<times> nat list \<times> knv_heap) option" where
  "GetFields n t h = all_fields n t (\<lambda>f h. Some ([f], h)) h"

declare release_loop.simps [code] expand_loop.simps [code] EvaluateSize.simps [code] Serialize.simps [code]
  update_loop.simps [code] fields_loop.simps [code]
end
