(* ===== verification/Knv_Tree.thy ===== *)
theory Knv_Tree
  imports Knv_Node
begin

text \<open>
  Trees of \<open>KnvNode\<close>s: what bytes a node stands for, the invariant that its cached sizes and flags agree with its
  children, and the results that serialisation writes exactly those bytes and that the operations keep the
  invariant.

  \<open>knv_enc h n bs\<close> is the reference encoding: a leaf is one field with its value, any other node is a message
  field with the encodings of its metas and children. It does not look at the caches \<open>eval_sz\<close>, \<open>eval_val_sz\<close>,
  the folded buffer or the dirty flags.
\<close>

section \<open>Specification vocabulary\<close>

abbreviation kids :: "KnvNode \<Rightarrow> nat list" where
  "kids x \<equiv> metalist x @ childlist x"

text \<open>The tag and the length of a message field.\<close>

definition head_bytes :: "u32 \<Rightarrow> nat \<Rightarrow> byte list" where
  "head_bytes t k = vint_buffer (ucast (tag_word PB_WT_STRING t)) @ vint_buffer (of_nat k)"

inductive knv_enc :: "knv_heap \<Rightarrow> nat \<Rightarrow> byte list \<Rightarrow> bool" for h where
  enc_leaf: "is_leaf (nd h n) \<Longrightarrow> bs = field_bytes (nd_tag (nd h n)) (nd_type (nd h n)) (nd_val (nd h n)) \<Longrightarrow> knv_enc h n bs"
| enc_node: "\<not> is_leaf (nd h n) \<Longrightarrow> list_all2 (knv_enc h) (kids (nd h n)) bss \<Longrightarrow>
    bs = head_bytes (nd_tag (nd h n)) (length (concat bss)) @ concat bss \<Longrightarrow> knv_enc h n bs"

inductive_cases knv_encE: "knv_enc h n bs"

text \<open>The shape of one node: a known field, the child count is right, only a message has children.\<close>

definition shape_ok :: "KnvNode \<Rightarrow> bool" where
  "shape_ok x \<longleftrightarrow> nd_tag x \<noteq> 0 \<and> nd_tag x < 2 ^ 29 \<and> known_wire (nd_type x) \<and>
     (nd_type x = PB_WT_STRING \<longrightarrow> length (val_data (nd_val x)) = unat (val_i32 (nd_val x)) \<or> \<not> is_folded x) \<and>
     (if nd_type x = PB_WT_STRING \<and> 0 \<le> child_num x then child_num x = int (length (childlist x)) else kids x = [])"

text \<open>The cached sizes of one node, given the cached sizes of its children.\<close>

definition size_ok :: "knv_heap \<Rightarrow> nat \<Rightarrow> bool" where
  "size_ok h n \<longleftrightarrow> (let x = nd h n in
     eval_sz x = knv_eval_field_length (nd_tag x) (nd_type x)
                   (if nd_type x = PB_WT_STRING then len_val (eval_val_sz x) else nd_val x) \<and>
     (nd_type x = PB_WT_STRING \<longrightarrow>
        (if is_leaf x then eval_val_sz x = str_len (nd_val x)
         else eval_val_sz x = sum_list (map (\<lambda>c. eval_sz (nd h c)) (kids x)))))"

text \<open>The first meta of a node with a key is the key.\<close>

definition key_ok :: "knv_heap \<Rightarrow> nat \<Rightarrow> bool" where
  "key_ok h n \<longleftrightarrow> (has_key (nd h n) \<and> \<not> is_leaf (nd h n) \<longrightarrow>
     (\<exists>m ms. metalist (nd h n) = m # ms \<and> nd_tag (nd h m) = 1 \<and> is_leaf (nd h m) \<and> nd_type (nd h m) = k_type (nd_key (nd h n)) \<and>
        field_bytes 1 (k_type (nd_key (nd h n))) (nd_val (nd h m)) =
        field_bytes 1 (k_type (nd_key (nd h n))) (key_GetValue (nd_key (nd h n)))))"

text \<open>A node whose buffer counts as folded holds the encodings of its children; a dirty node has a dirty parent.\<close>

definition clean_ok :: "knv_heap \<Rightarrow> nat \<Rightarrow> bool" where
  "clean_ok h n \<longleftrightarrow> (\<not> is_leaf (nd h n) \<and> \<not> subnode_dirty (nd h n) \<longrightarrow> IsBufferValid (nd h n) \<and>
     (\<exists>bss. list_all2 (knv_enc h) (kids (nd h n)) bss \<and> str_bytes (nd_val (nd h n)) = concat bss))"

definition dirty_ok :: "knv_heap \<Rightarrow> nat \<Rightarrow> bool" where
  "dirty_ok h n \<longleftrightarrow> (nd_parent (nd h n) \<noteq> 0 \<and> subnode_dirty (nd h n) \<longrightarrow> subnode_dirty (nd h (nd_parent (nd h n))))"

text \<open>The links: \<open>L\<close> are the nodes in use. Roots have no parent, every other node is in a list of its parent.\<close>

definition link_ok :: "knv_heap \<Rightarrow> nat set \<Rightarrow> nat \<Rightarrow> bool" where
  "link_ok h L n \<longleftrightarrow> set (kids (nd h n)) \<subseteq> L \<and> distinct (kids (nd h n)) \<and>
     (\<forall>c \<in> set (kids (nd h n)). nd_parent (nd h c) = n) \<and>
     (nd_parent (nd h n) \<noteq> 0 \<longrightarrow> nd_parent (nd h n) \<in> L \<and> n \<in> set (kids (nd h (nd_parent (nd h n)))))"

definition edges :: "knv_heap \<Rightarrow> nat set \<Rightarrow> (nat \<times> nat) set" where
  "edges h L = {(n, c). n \<in> L \<and> c \<in> set (kids (nd h n))}"

definition index_ok :: "knv_heap \<Rightarrow> nat \<Rightarrow> bool" where
  "index_ok h n \<longleftrightarrow> ht_ok h n (set (childlist (nd h n)))"

definition pool_ok :: "knv_heap \<Rightarrow> nat set \<Rightarrow> bool" where
  "pool_ok h L \<longleftrightarrow> finite L \<and> 0 \<notin> L \<and> 0 \<notin> set (np_free h) \<and> distinct (np_free h) \<and> set (np_free h) \<inter> L = {} \<and>
     0 < np_fresh h \<and> (\<forall>n \<in> set (np_free h) \<union> L. n < np_fresh h) \<and>
     (\<forall>n \<in> set (np_free h). nd_ht (nd h n) = KnvHt_clear \<and> \<not> subnode_dirty (nd h n))"

definition knv_inv :: "knv_heap \<Rightarrow> nat set \<Rightarrow> bool" where
  "knv_inv h L \<longleftrightarrow> pool_ok h L \<and> acyclic (edges h L) \<and>
     (\<forall>n \<in> L. shape_ok (nd h n) \<and> size_ok h n \<and> key_ok h n \<and> clean_ok h n \<and> dirty_ok h n \<and> link_ok h L n \<and> index_ok h n)"

text \<open>Every size has been evaluated, without overflow.\<close>

definition evaluated :: "knv_heap \<Rightarrow> nat set \<Rightarrow> bool" where
  "evaluated h L \<longleftrightarrow> (\<forall>n \<in> L. 0 \<le> eval_sz (nd h n))"

section \<open>Encodings\<close>

lemma knv_inv_at:
  assumes "knv_inv h L" "n \<in> L"
  shows "shape_ok (nd h n)" "size_ok h n" "key_ok h n" "clean_ok h n" "dirty_ok h n" "link_ok h L n" "index_ok h n"
  using assms by (simp_all add: knv_inv_def)

lemma kids_in: "knv_inv h L \<Longrightarrow> n \<in> L \<Longrightarrow> c \<in> set (kids (nd h n)) \<Longrightarrow> c \<in> L"
  using knv_inv_at(6) by (fastforce simp: link_ok_def)

lemma knv_enc_unique: "knv_enc h n bs \<Longrightarrow> knv_enc h n bs' \<Longrightarrow> bs = bs'"
proof (induction arbitrary: bs' rule: knv_enc.induct)
  case (enc_leaf n bs)
  then show ?case by (auto elim: knv_encE)
next
  case (enc_node n bss bs)
  from enc_node.prems enc_node.hyps(1) obtain bss' where
    b: "list_all2 (knv_enc h) (kids (nd h n)) bss'" "bs' = head_bytes (nd_tag (nd h n)) (length (concat bss')) @ concat bss'"
    by (auto elim: knv_encE)
  have "bss = bss'"
  proof (rule nth_equalityI)
    show "length bss = length bss'" using list_all2_lengthD [OF enc_node.IH] list_all2_lengthD [OF b(1)] by simp
    fix i assume i: "i < length bss"
    then have "i < length (kids (nd h n))" using list_all2_lengthD [OF enc_node.IH] by simp
    then show "bss ! i = bss' ! i"
      using list_all2_nthD [OF enc_node.IH] list_all2_nthD [OF b(1)] by blast
  qed
  then show ?case using enc_node.hyps b(2) by simp
qed

lemma list_all2_enc_unique: "list_all2 (knv_enc h) xs bss \<Longrightarrow> list_all2 (knv_enc h) xs bss' \<Longrightarrow> bss = bss'"
proof (induction xs arbitrary: bss bss')
  case (Cons x xs)
  then show ?case by (metis knv_enc_unique list_all2_Cons1)
qed simp

lemma knv_enc_exists:
  assumes inv: "knv_inv h L" and "n \<in> L"
  shows "\<exists>bs. knv_enc h n bs"
proof -
  have "edges h L \<subseteq> L \<times> L" using kids_in [OF inv] by (auto simp: edges_def)
  moreover have "finite L" using inv by (simp add: knv_inv_def pool_ok_def)
  ultimately have "finite (edges h L)" by (meson finite_SigmaI finite_subset)
  then have wf: "wf ((edges h L)\<inverse>)"
    using inv by (intro finite_acyclic_wf_converse) (auto simp: knv_inv_def)
  show ?thesis
    using assms(2)
  proof (induction n rule: wf_induct_rule [OF wf])
    case (1 n)
    show ?case
    proof (cases "is_leaf (nd h n)")
      case True
      then show ?thesis by (blast intro: enc_leaf)
    next
      case False
      have "\<exists>bs. knv_enc h c bs" if "c \<in> set (kids (nd h n))" for c
        using 1 that kids_in [OF inv \<open>n \<in> L\<close> that] by (auto simp: edges_def)
      then have "list_all2 (knv_enc h) (kids (nd h n)) (map (\<lambda>c. SOME bs. knv_enc h c bs) (kids (nd h n)))"
        unfolding list_all2_map2 list_all2_same by (blast intro: someI_ex)
      then show ?thesis using enc_node [OF False] by blast
    qed
  qed
qed
section \<open>Sizes\<close>

lemma val_i32_len_val [simp]: "val_i32 (len_val s) = word_of_int s"
  by (simp add: len_val_def val_i32_def)

lemma val_i32_str_val:
  assumes "length bs < 2 ^ 32"
  shows "val_i32 (str_val bs) = of_nat (length bs)" "unat (of_nat (length bs) :: u32) = length bs"
    "(ucast (of_nat (length bs) :: u32) :: u64) = of_nat (length bs)"
proof -
  show u: "unat (of_nat (length bs) :: u32) = length bs" using assms by (simp add: unat_of_nat)
  show "(ucast (of_nat (length bs) :: u32) :: u64) = of_nat (length bs)"
    by (rule word_unat_eq_iff [THEN iffD2]) (use assms u in \<open>simp add: unat_of_nat\<close>)
  show "val_i32 (str_val bs) = of_nat (length bs)"
    using assms by (simp add: str_val_def val_i32_def unsigned_of_nat take_bit_nat_eq_self)
qed

lemma val_data_str_val [simp]: "val_data (str_val bs) = bs"
  by (simp add: str_val_def)

lemma word_of_str_len: "(word_of_int (str_len v) :: u32) = val_i32 v"
proof -
  have "(word_of_int (s32 (unat w)) :: u32) = w" for w :: u32
  proof -
    have "(word_of_int (2 ^ 32) :: u32) = 0" by simp
    moreover have "unat w mod 2 ^ 32 = unat w" by simp
    ultimately show ?thesis by (simp add: s32_def word_of_nat_unat_id)
  qed
  then show ?thesis by (simp add: str_len_def)
qed

lemma flen_i32:
  "val_i32 v = val_i32 w \<Longrightarrow> knv_eval_field_length t PB_WT_STRING v = knv_eval_field_length t PB_WT_STRING w"
  by (simp add: knv_eval_field_length_def pb_eval_field_length_def)

lemma flen_str_len: "knv_eval_field_length t PB_WT_STRING (len_val (str_len v)) = knv_eval_field_length t PB_WT_STRING v"
  by (rule flen_i32) (simp add: word_of_str_len)

lemma flen_len_val:
  "length bs < 2 ^ 32 \<Longrightarrow>
   knv_eval_field_length t PB_WT_STRING (len_val (int (length bs))) = knv_eval_field_length t PB_WT_STRING (str_val bs)"
  by (rule flen_i32) (simp add: val_i32_str_val)

lemma field_bytes_str:
  assumes "length bs < 2 ^ 32"
  shows "field_bytes t PB_WT_STRING (str_val bs) = head_bytes t (length bs) @ bs"
  using val_i32_str_val [OF assms] by (simp add: field_bytes_def head_bytes_def)

lemma wf_str_val: "t \<noteq> 0 \<Longrightarrow> t < 2 ^ 29 \<Longrightarrow> length bs < 2 ^ 32 \<Longrightarrow> wf_field t PB_WT_STRING (str_val bs)"
  by (simp add: wf_field_def val_i32_str_val(1) val_i32_str_val(2) [simplified])

lemma flen_field_bytes:
  "wf_field t wt v \<Longrightarrow> length (field_bytes t wt v) < 2 ^ 31 \<Longrightarrow> knv_eval_field_length t wt v = int (length (field_bytes t wt v))"
  unfolding knv_eval_field_length_def by (rule field_bytes_length)
lemma head_length: "length (head_bytes t k) \<le> 20"
  using pb_eval_vint_length_bounds [of "ucast (tag_word PB_WT_STRING t)"] pb_eval_vint_length_bounds [of "of_nat k"]
  by (simp add: head_bytes_def vint_buffer_length)

lemma flen_head:
  assumes "t \<noteq> 0" "t < 2 ^ 29" "length (head_bytes t (length bs) @ bs) < 2 ^ 31"
  shows "knv_eval_field_length t PB_WT_STRING (len_val (int (length bs))) = int (length (head_bytes t (length bs) @ bs))"
proof -
  have l: "length bs < 2 ^ 32" using assms(3) by simp
  show ?thesis
    unfolding flen_len_val [OF l] field_bytes_str [OF l, symmetric]
    by (rule flen_field_bytes [OF wf_str_val]) (use assms l field_bytes_str [OF l, of t] in simp_all)
qed

lemma list_all2_enc_sizes:
  assumes "list_all2 (\<lambda>c bs. length bs < 2 ^ 31 \<longrightarrow> eval_sz (nd h c) = int (length bs)) cs bss" "length (concat bss) < 2 ^ 31"
  shows "sum_list (map (\<lambda>c. eval_sz (nd h c)) cs) = int (length (concat bss))"
  using assms by (induction cs bss rule: list_all2_induct) auto

lemma shape_leaf_wf:
  assumes "shape_ok x" "is_leaf x"
  shows "wf_field (nd_tag x) (nd_type x) (nd_val x)"
  using assms by (auto simp: shape_ok_def wf_field_def is_folded_def)

lemma leaf_size:
  assumes "shape_ok (nd h n)" "size_ok h n" "is_leaf (nd h n)"
    "bs = field_bytes (nd_tag (nd h n)) (nd_type (nd h n)) (nd_val (nd h n))" "length bs < 2 ^ 31"
  shows "eval_sz (nd h n) = int (length bs)"
proof -
  have "eval_sz (nd h n) = knv_eval_field_length (nd_tag (nd h n)) (nd_type (nd h n)) (nd_val (nd h n))"
    using assms(2,3) by (auto simp: size_ok_def Let_def flen_str_len)
  then show ?thesis using flen_field_bytes [OF shape_leaf_wf [OF assms(1,3)]] assms(4,5) by simp
qed

lemma node_shape:
  assumes "shape_ok x" "\<not> is_leaf x"
  shows "nd_type x = PB_WT_STRING" "nd_tag x \<noteq> 0" "nd_tag x < 2 ^ 29" "0 \<le> child_num x"
  using assms by (auto simp: shape_ok_def is_leaf_def)

lemma enc_size:
  assumes inv: "knv_inv h L" and "knv_enc h n bs" "n \<in> L" "length bs < 2 ^ 31"
  shows "eval_sz (nd h n) = int (length bs)"
  using assms(2-4)
proof (induction rule: knv_enc.induct)
  case (enc_leaf n bs)
  then show ?case using leaf_size knv_inv_at(1,2) [OF inv] by blast
next
  case (enc_node n bss bs)
  note at = knv_inv_at [OF inv \<open>n \<in> L\<close>]
  have len: "length (concat bss) < 2 ^ 31" using enc_node.hyps enc_node.prems(2) by simp
  have "list_all2 (\<lambda>c bs. length bs < 2 ^ 31 \<longrightarrow> eval_sz (nd h c) = int (length bs)) (kids (nd h n)) bss"
    by (rule list.rel_mono_strong [OF enc_node.IH]) (use kids_in [OF inv \<open>n \<in> L\<close>] in blast)
  then have "sum_list (map (\<lambda>c. eval_sz (nd h c)) (kids (nd h n))) = int (length (concat bss))"
    using len by (rule list_all2_enc_sizes)
  then have "eval_sz (nd h n) = knv_eval_field_length (nd_tag (nd h n)) PB_WT_STRING (len_val (int (length (concat bss))))"
    using at(2) enc_node.hyps(1) node_shape(1) [OF at(1) enc_node.hyps(1)] by (simp add: size_ok_def Let_def)
  then show ?case
    using flen_head [OF node_shape(2,3) [OF at(1) enc_node.hyps(1)], of "concat bss"] enc_node by simp
qed

lemma enc_val_size:
  assumes inv: "knv_inv h L" and "n \<in> L" "\<not> is_leaf (nd h n)" "list_all2 (knv_enc h) (kids (nd h n)) bss"
    "length (concat bss) < 2 ^ 31"
  shows "eval_val_sz (nd h n) = int (length (concat bss))"
proof -
  have "list_all2 (\<lambda>c bs. length bs < 2 ^ 31 \<longrightarrow> eval_sz (nd h c) = int (length bs)) (kids (nd h n)) bss"
    by (rule list.rel_mono_strong [OF assms(4)]) (use enc_size [OF inv] kids_in [OF inv \<open>n \<in> L\<close>] in blast)
  then have "sum_list (map (\<lambda>c. eval_sz (nd h c)) (kids (nd h n))) = int (length (concat bss))"
    using assms(5) by (rule list_all2_enc_sizes)
  then show ?thesis
    using knv_inv_at(1,2) [OF inv assms(2)] assms(3) node_shape(1) by (auto simp: size_ok_def Let_def)
qed
section \<open>Serialisation\<close>

lemma EvaluateSize_cached: "0 \<le> eval_sz (nd h n) \<Longrightarrow> EvaluateSize n h = Some (eval_sz (nd h n), h)"
  by (subst EvaluateSize.simps) (simp add: Let_def)

abbreviation ser_step ::
    "int \<Rightarrow> int \<times> nat \<Rightarrow> int \<times> byte list \<times> knv_heap \<Rightarrow> (int \<times> byte list \<times> knv_heap) option" where
  "ser_step sz \<equiv> (\<lambda>(err, c) (r, out, g).
      if r \<noteq> 0 then Some (r, out, g)
      else Option.bind (Serialize c (sz - int (length out)) True g)
             (\<lambda>(r', bs, g'). Some (if r' \<noteq> 0 then (err, out, g') else (0, out @ bs, g'))))"

lemma ser_fold:
  assumes "list_all2 (\<lambda>c bs. \<forall>s. int (length bs) \<le> s \<longrightarrow> s < 2 ^ 31 \<longrightarrow> Serialize c s True h = Some (0, bs, h)) (map snd ps) bss"
    "int (length (out @ concat bss)) \<le> sz" "sz < 2 ^ 31"
  shows "mfold (ser_step sz) ps (0, out, h) = Some (0, out @ concat bss, h)"
  using assms
proof (induction ps arbitrary: bss out)
  case Nil
  then show ?case by simp
next
  case (Cons p ps)
  obtain err c where p: "p = (err, c)" by (cases p)
  from Cons.prems(1) p obtain b bs where b: "bss = b # bs"
    "\<forall>s. int (length b) \<le> s \<longrightarrow> s < 2 ^ 31 \<longrightarrow> Serialize c s True h = Some (0, b, h)"
    "list_all2 (\<lambda>c bs. \<forall>s. int (length bs) \<le> s \<longrightarrow> s < 2 ^ 31 \<longrightarrow> Serialize c s True h = Some (0, bs, h)) (map snd ps) bs"
    by (auto simp: list_all2_Cons1)
  have "Serialize c (sz - int (length out)) True h = Some (0, b, h)"
    using b(2) Cons.prems(2,3) b(1) by simp
  then show ?case using Cons.IH [OF b(3), of "out @ b"] Cons.prems(2,3) b(1) p by simp
qed

lemma knv_init_buff_simps [simp]:
  assumes "0 \<le> sz" "sz < 2 ^ 31"
  shows "bout (knv_init_buff (nat sz)) = []" "bleft (knv_init_buff (nat sz)) = sz"
  using assms by (simp_all add: knv_init_buff_def pb_init_buff_def)

lemma add_head:
  assumes "int (length (head_bytes t k)) \<le> bleft b" "bleft b < 2 ^ 31"
  shows "knv_add_string_head b t k = (0, b\<lparr>bout := bout b @ head_bytes t k, bleft := bleft b - int (length (head_bytes t k))\<rparr>)"
  using assms by (simp add: knv_add_string_head_def pb_add_string_head_def pb_add_tag_def pb_add_vint_def
      head_bytes_def pb_add_fits algebra_simps)

text \<open>A node that has to be written through its children.\<close>

lemma Serialize_node:
  assumes inv: "knv_inv h L" and n: "n \<in> L" and nf: "\<not> is_folded (nd h n)"
    and e: "list_all2 (knv_enc h) (kids (nd h n)) bss"
    and kid: "list_all2 (\<lambda>c bs. \<forall>s. int (length bs) \<le> s \<longrightarrow> s < 2 ^ 31 \<longrightarrow> Serialize c s True h = Some (0, bs, h))
        (kids (nd h n)) bss"
    and len: "length (head_bytes (nd_tag (nd h n)) (length (concat bss)) @ concat bss) < 2 ^ 31" "sz < 2 ^ 31"
    and out: "out = (if wh then head_bytes (nd_tag (nd h n)) (length (concat bss)) else []) @ concat bss" "int (length out) \<le> sz"
  shows "Serialize n sz wh h = Some (0, out, h)"
proof -
  let ?x = "nd h n" and ?H = "head_bytes (nd_tag (nd h n)) (length (concat bss))"
  note at = knv_inv_at [OF inv n]
  have nl: "\<not> is_leaf ?x" using nf by (simp add: is_folded_def)
  note sh = node_shape [OF at(1) nl]
  have lc: "length (concat bss) < 2 ^ 31" using len by simp
  have vs: "eval_val_sz ?x = int (length (concat bss))" by (rule enc_val_size [OF inv n nl e lc])
  have es: "eval_sz ?x = int (length (?H @ concat bss))"
    by (rule enc_size [OF inv _ n len(1)]) (rule enc_node [OF nl e refl])
  then have ev: "EvaluateSize n h = Some (int (length (?H @ concat bss)), h)" by (simp add: EvaluateSize_cached)
  have sz0: "0 \<le> sz" using out by linarith
  let ?b = "knv_init_buff (nat sz)" and ?h = "if wh then ?H else []"
  let ?b1 = "?b\<lparr>bout := ?h, bleft := sz - int (length ?h)\<rparr>"
  have b: "bout ?b = []" "bleft ?b = sz" using sz0 len(2) by simp_all
  have us: "usz (eval_val_sz ?x) = length (concat bss)" using vs lc by simp
  have hl: "int (length ?h) \<le> sz" using out by simp
  have head: "(if wh then knv_add_string_head ?b (nd_tag ?x) (usz (eval_val_sz ?x)) else (0, ?b)) = (0, ?b1)"
  proof (cases wh)
    case True
    then have "knv_add_string_head ?b (nd_tag ?x) (length (concat bss)) = (0, ?b1)"
      using add_head [of "nd_tag ?x" "length (concat bss)" ?b] b hl len(2) by simp
    then show ?thesis using True us by simp
  next
    case False
    then show ?thesis using b by simp
  qed
  obtain kb rest b2 where key: "(if has_key ?x then knv_add_field_val ?b1 1 (k_type (nd_key ?x)) (key_GetValue (nd_key ?x))
      else (0, ?b1)) = (0, b2)" and b2: "bout b2 = ?h @ kb"
    and kr: "concat bss = kb @ concat rest" "list_all2 (\<lambda>c bs. \<forall>s. int (length bs) \<le> s \<longrightarrow> s < 2 ^ 31 \<longrightarrow>
        Serialize c s True h = Some (0, bs, h)) (rest_metas h n @ childlist ?x) rest"
  proof (cases "has_key ?x")
    case False
    then have "rest_metas h n = metalist ?x" by (simp add: rest_metas_def split: list.split)
    then show ?thesis using that [of ?b1 "[]" bss] False kid b by simp
  next
    case True
    with at(3) nl obtain m ms where m: "metalist ?x = m # ms" "nd_tag (nd h m) = 1" "is_leaf (nd h m)"
      "nd_type (nd h m) = k_type (nd_key ?x)"
      "field_bytes 1 (k_type (nd_key ?x)) (nd_val (nd h m)) = field_bytes 1 (k_type (nd_key ?x)) (key_GetValue (nd_key ?x))"
      by (auto simp: key_ok_def)
    from e m(1) obtain b0 bs0 where b0: "bss = b0 # bs0" "knv_enc h m b0" by (auto simp: list_all2_Cons1)
    have "m \<in> L" using kids_in [OF inv n, of m] m(1) by simp
    then have kw: "known_wire (k_type (nd_key ?x))" using knv_inv_at(1) [OF inv, of m] m(4) by (simp add: shape_ok_def)
    have b0e: "b0 = field_bytes 1 (k_type (nd_key ?x)) (key_GetValue (nd_key ?x))"
      using knv_enc_unique [OF b0(2) enc_leaf [OF m(3) refl]] m(2,4,5) by simp
    have "knv_add_field_val ?b1 1 (k_type (nd_key ?x)) (key_GetValue (nd_key ?x)) =
        (0, ?b1\<lparr>bout := ?h @ b0, bleft := bleft ?b1 - int (length b0)\<rparr>)"
      unfolding knv_add_field_val_def b0e
      by (subst pb_add_field_val_bytes) (use kw b0e b0(1) out len(2) in auto)
    moreover have "rest_metas h n = ms" using m True by (simp add: rest_metas_def)
    ultimately show ?thesis using that [of _ b0 bs0] True kid m(1) b0(1) by simp
  qed
  have mf: "mfold (ser_step sz) (map (Pair (-8)) (rest_metas h n) @ map (Pair (-9)) (childlist ?x)) (0, ?h @ kb, h) =
      Some (0, (?h @ kb) @ concat rest, h)"
    by (rule ser_fold) (use kr out len(2) in \<open>simp_all add: comp_def\<close>)
  have fin: "int (length out) = (if wh then int (length (?H @ concat bss)) else eval_val_sz ?x)" using out(1) vs by simp
  have o: "(?h @ kb) @ concat rest = out" using out(1) kr(1) by simp
  show ?thesis
    by (subst Serialize.simps)
       (simp only: Let_def sh(2) nf ev head key b2 mf o fin [symmetric] if_False if_True not_True_eq_False not_False_eq_True
          Option.bind.bind_lunit prod.case pb_buff.simps simp_thms)
qed
lemma Serialize_folded:
  assumes "is_folded (nd h n)" "nd_tag (nd h n) \<noteq> 0" "known_wire (nd_type (nd h n))"
    and "bs = field_bytes (nd_tag (nd h n)) (nd_type (nd h n)) (nd_val (nd h n))" "int (length bs) \<le> sz" "sz < 2 ^ 31"
  shows "Serialize n sz True h = Some (0, bs, h)"
proof -
  have "bout (knv_init_buff (nat sz)) = []" "bleft (knv_init_buff (nat sz)) = sz" using assms(5,6) by simp_all
  moreover from this have "knv_add_field_val (knv_init_buff (nat sz)) (nd_tag (nd h n)) (nd_type (nd h n)) (nd_val (nd h n)) =
      (0, (knv_init_buff (nat sz))\<lparr>bout := bs, bleft := sz - int (length bs)\<rparr>)"
    unfolding knv_add_field_val_def using assms(3-6) by (subst pb_add_field_val_bytes) auto
  ultimately show ?thesis using assms(1,2) by (subst Serialize.simps) (simp add: Let_def)
qed

lemma folded_bytes:
  assumes "shape_ok (nd h n)" "\<not> is_leaf (nd h n)" "is_folded (nd h n)" "clean_ok h n"
    "list_all2 (knv_enc h) (kids (nd h n)) bss"
  shows "field_bytes (nd_tag (nd h n)) PB_WT_STRING (nd_val (nd h n)) = head_bytes (nd_tag (nd h n)) (length (concat bss)) @ concat bss"
proof -
  have c: "str_bytes (nd_val (nd h n)) = concat bss"
    using assms list_all2_enc_unique [of h _ bss] by (auto simp: clean_ok_def is_folded_def)
  have "length (val_data (nd_val (nd h n))) = unat (val_i32 (nd_val (nd h n)))"
    using assms(1,3) node_shape(1) [OF assms(1,2)] by (auto simp: shape_ok_def)
  then have "length (concat bss) = unat (val_i32 (nd_val (nd h n)))" using c by (simp add: str_bytes_def)
  moreover have "(of_nat (unat w) :: u64) = ucast w" for w :: u32
    by (rule word_unat_eq_iff [THEN iffD2]) (use unat_u32_less [of w] in \<open>simp add: unat_of_nat\<close>)
  ultimately show ?thesis using c by (simp add: field_bytes_def head_bytes_def str_bytes_def)
qed

lemma Serialize_enc:
  assumes inv: "knv_inv h L" and "knv_enc h n bs" "n \<in> L" "length bs < 2 ^ 31"
    and "int (length bs) \<le> sz" "sz < 2 ^ 31"
  shows "Serialize n sz True h = Some (0, bs, h)"
  using assms(2-)
proof (induction arbitrary: sz rule: knv_enc.induct)
  case (enc_leaf n bs)
  then show ?case
    using knv_inv_at(1) [OF inv \<open>n \<in> L\<close>] by (intro Serialize_folded) (auto simp: shape_ok_def is_folded_def)
next
  case (enc_node n bss bs)
  note at = knv_inv_at [OF inv \<open>n \<in> L\<close>]
  have e: "list_all2 (knv_enc h) (kids (nd h n)) bss" by (rule list.rel_mono_strong [OF enc_node.IH]) blast
  show ?case
  proof (cases "is_folded (nd h n)")
    case True
    show ?thesis
    proof (rule Serialize_folded [OF True _ _ _ enc_node.prems(3,4)])
      show "bs = field_bytes (nd_tag (nd h n)) (nd_type (nd h n)) (nd_val (nd h n))"
        using folded_bytes [OF at(1) enc_node.hyps(1) True at(4) e] enc_node.hyps node_shape(1) [OF at(1) enc_node.hyps(1)] by simp
    qed (use at(1) in \<open>auto simp: shape_ok_def\<close>)
  next
    case False
    have "list_all2 (\<lambda>c bs. \<forall>s. int (length bs) \<le> s \<longrightarrow> s < 2 ^ 31 \<longrightarrow> Serialize c s True h = Some (0, bs, h)) (kids (nd h n)) bss"
      by (rule list.rel_mono_strong [OF enc_node.IH]) (use kids_in [OF inv \<open>n \<in> L\<close>] in auto)
    then show ?thesis
      using enc_node by (intro Serialize_node [OF inv \<open>n \<in> L\<close> False e]) auto
  qed
qed

lemma Serialize_string_enc:
  assumes "knv_inv h L" "n \<in> L" "knv_enc h n bs" "length bs < 2 ^ 31"
  shows "Serialize_string n h = Some (0, bs, h)"
proof -
  have "EvaluateSize n h = Some (int (length bs), h)"
    using EvaluateSize_cached [of h n] enc_size [OF assms(1,3,2,4)] by simp
  moreover have "Serialize n (int (length bs)) True h = Some (0, bs, h)"
    by (rule Serialize_enc [OF assms(1,3,2,4)]) (use assms(4) in simp_all)
  ultimately show ?thesis by (simp add: Serialize_string_def)
qed
section \<open>Updating the ancestors\<close>

text \<open>\<open>size_off h n off\<close>: the cached size of the value of \<open>n\<close> is short of its children by \<open>off\<close>.\<close>

definition size_off :: "knv_heap \<Rightarrow> nat \<Rightarrow> int \<Rightarrow> bool" where
  "size_off h n off \<longleftrightarrow> (let x = nd h n in
     eval_sz x = knv_eval_field_length (nd_tag x) (nd_type x)
                   (if nd_type x = PB_WT_STRING then len_val (eval_val_sz x) else nd_val x) \<and>
     (nd_type x = PB_WT_STRING \<longrightarrow>
        (if is_leaf x then eval_val_sz x + off = str_len (nd_val x)
         else eval_val_sz x + off = sum_list (map (\<lambda>c. eval_sz (nd h c)) (kids x)))))"

lemma size_ok_off: "size_ok h n \<longleftrightarrow> size_off h n 0"
  by (simp add: size_ok_def size_off_def)

definition size_same :: "KnvNode \<Rightarrow> KnvNode \<Rightarrow> bool" where
  "size_same x y \<longleftrightarrow> y = x\<lparr>nd_val := (nd_val x)\<lparr>val_i64 := val_i64 (nd_val y)\<rparr>, subnode_dirty := subnode_dirty y,
     eval_sz := eval_sz y, eval_val_sz := eval_val_sz y\<rparr>"

lemma size_same_sel:
  assumes "size_same x y"
  shows "nd_tag y = nd_tag x" "nd_type y = nd_type x" "nd_key y = nd_key x" "ht_next y = ht_next x"
    "child_num y = child_num x" "nd_ht y = nd_ht x" "childlist y = childlist x" "metalist y = metalist x"
    "metas y = metas x" "child_has_key y = child_has_key x" "no_key y = no_key x" "nd_parent y = nd_parent x"
    "val_data (nd_val y) = val_data (nd_val x)"
  by (subst assms [unfolded size_same_def], simp)+

lemma size_same_refl [simp]: "size_same x x"
  by (simp add: size_same_def)

lemma size_same_trans: "size_same x y \<Longrightarrow> size_same y z \<Longrightarrow> size_same x z"
  unfolding size_same_def [of x z]
  by (rule KnvNode.equality) (simp_all add: size_same_sel pb_val.equality)

text \<open>What the walk changes: sizes, and the flag and the length of the value of nodes that are no leaves.\<close>

definition anc_frame :: "nat set \<Rightarrow> knv_heap \<Rightarrow> knv_heap \<Rightarrow> bool" where
  "anc_frame L h h' \<longleftrightarrow> np_free h' = np_free h \<and> np_fresh h' = np_fresh h \<and>
     (\<forall>m. size_same (nd h m) (nd h' m) \<and> (nd h' m = nd h m \<or> m \<in> L \<and> \<not> is_leaf (nd h m)) \<and>
        (subnode_dirty (nd h m) \<longrightarrow> subnode_dirty (nd h' m)) \<and>
        (nd_val (nd h' m) = nd_val (nd h m) \<or> subnode_dirty (nd h' m)))"

lemma is_leaf_same: "size_same x y \<Longrightarrow> is_leaf y = is_leaf x"
  by (simp add: is_leaf_def size_same_sel)

lemma anc_frame_refl [simp]: "anc_frame L h h"
  by (simp add: anc_frame_def)

lemma anc_frame_node:
  assumes "anc_frame L h h'"
  shows "size_same (nd h m) (nd h' m)" "nd h' m = nd h m \<or> m \<in> L \<and> \<not> is_leaf (nd h m)"
    "subnode_dirty (nd h m) \<Longrightarrow> subnode_dirty (nd h' m)"
    "nd_val (nd h' m) = nd_val (nd h m) \<or> subnode_dirty (nd h' m)"
  using assms by (simp_all add: anc_frame_def)

lemma anc_frame_pool: "anc_frame L h h' \<Longrightarrow> np_free h' = np_free h \<and> np_fresh h' = np_fresh h"
  by (simp add: anc_frame_def)

lemma anc_frame_trans:
  assumes "anc_frame L h h1" "anc_frame L h1 h2"
  shows "anc_frame L h h2"
  unfolding anc_frame_def
proof (intro conjI allI)
  fix m
  note a = anc_frame_node [OF assms(1), of m] and b = anc_frame_node [OF assms(2), of m]
  show "size_same (nd h m) (nd h2 m)" by (rule size_same_trans [OF a(1) b(1)])
  show "nd h2 m = nd h m \<or> m \<in> L \<and> \<not> is_leaf (nd h m)" using a(2) b(2) is_leaf_same [OF a(1)] by metis
  show "subnode_dirty (nd h m) \<longrightarrow> subnode_dirty (nd h2 m)" using a(3) b(3) by blast
  show "nd_val (nd h2 m) = nd_val (nd h m) \<or> subnode_dirty (nd h2 m)" using a(4) b(3,4) by metis
qed (use anc_frame_pool [OF assms(1)] anc_frame_pool [OF assms(2)] in simp_all)

text \<open>One turn of the loop, at the ancestor \<open>p\<close>.\<close>

definition loop_state :: "knv_heap \<Rightarrow> nat set \<Rightarrow> nat \<Rightarrow> bool \<Rightarrow> bool \<Rightarrow> int \<Rightarrow> bool" where
  "loop_state h L p ud ue off \<longleftrightarrow> (\<forall>q \<in> L. link_ok h L q \<and> shape_ok (nd h q) \<and> size_off h q (if q = p \<and> ue then off else 0) \<and>
     (ud \<longrightarrow> nd_parent (nd h q) \<noteq> p \<longrightarrow> dirty_ok h q) \<and> (\<not> ud \<longrightarrow> dirty_ok h q)) \<and>
     (p \<noteq> 0 \<longrightarrow> p \<in> L \<and> \<not> is_leaf (nd h p))"

lemma shape_not_leaf: "shape_ok x \<Longrightarrow> kids x \<noteq> [] \<Longrightarrow> \<not> is_leaf x"
  by (auto simp: shape_ok_def is_leaf_def split: if_splits)

lemma parent_not_leaf:
  assumes "link_ok h L n" "\<And>q. q \<in> L \<Longrightarrow> shape_ok (nd h q)" "nd_parent (nd h n) \<noteq> 0"
  shows "nd_parent (nd h n) \<in> L \<and> \<not> is_leaf (nd h (nd_parent (nd h n)))"
proof -
  have p: "nd_parent (nd h n) \<in> L" "n \<in> set (kids (nd h (nd_parent (nd h n))))" using assms(1,3) by (auto simp: link_ok_def)
  then have "kids (nd h (nd_parent (nd h n))) \<noteq> []" by auto
  then show ?thesis using shape_not_leaf assms(2) p(1) by blast
qed
lemma sum_list_upd:
  assumes "distinct cs" "c \<in> set cs"
  shows "sum_list (map (f(c := v)) cs) = sum_list (map f cs) - f c + (v :: int)"
  using assms
proof (induction cs)
  case (Cons a cs)
  show ?case
  proof (cases "a = c")
    case True
    then have e: "map (f(c := v)) cs = map f cs" using Cons.prems by (intro map_fun_upd) simp
    show ?thesis unfolding list.map sum_list.Cons e using True by simp
  next
    case False
    then show ?thesis using Cons by simp
  qed
qed simp

lemma sum_kids:
  assumes "link_ok h L q" "link_ok h L n" "q \<noteq> 0" "\<And>m. m \<noteq> n \<Longrightarrow> eval_sz (nd h1 m) = eval_sz (nd h m)"
  shows "sum_list (map (\<lambda>c. eval_sz (nd h1 c)) (kids (nd h q))) =
    sum_list (map (\<lambda>c. eval_sz (nd h c)) (kids (nd h q))) + (if q = nd_parent (nd h n) then eval_sz (nd h1 n) - eval_sz (nd h n) else 0)"
proof -
  have f: "(\<lambda>c. eval_sz (nd h1 c)) = (\<lambda>c. eval_sz (nd h c))(n := eval_sz (nd h1 n))" using assms(4) by auto
  show ?thesis
  proof (cases "q = nd_parent (nd h n)")
    case True
    then have "n \<in> set (kids (nd h q))" using assms(2,3) by (auto simp: link_ok_def)
    moreover have "distinct (kids (nd h q))" using assms(1) by (simp add: link_ok_def)
    ultimately show ?thesis unfolding f using True by (subst sum_list_upd) simp_all
  next
    case False
    then have "n \<notin> set (kids (nd h q))" using assms(1) by (auto simp: link_ok_def)
    then show ?thesis unfolding f using False by (subst map_fun_upd) simp_all
  qed
qed

lemma set_i32_data [simp]: "val_data (set_i32 w v) = val_data v"
  by (simp add: set_i32_def)

lemma loop_step:
  assumes st: "loop_state h L p ud ue off" and p: "p \<noteq> 0" "nd_parent (nd h p) \<noteq> p" and L: "0 \<notin> L"
    and h': "h' = upd p (\<lambda>_. y) h" and y: "size_same (nd h p) y" "subnode_dirty y \<longleftrightarrow> subnode_dirty (nd h p) \<or> ud"
      "nd_val y = nd_val (nd h p) \<or> subnode_dirty y"
    and sz: "eval_sz y = knv_eval_field_length (nd_tag y) PB_WT_STRING (len_val (eval_val_sz y))"
      "eval_val_sz y = eval_val_sz (nd h p) + (if ue then off else 0)"
    and off': "off' = eval_sz y - eval_sz (nd h p)" and ue': "\<not> ue' \<Longrightarrow> off' = 0"
  shows "loop_state h' L (nd_parent (nd h p)) (ud \<and> \<not> subnode_dirty (nd h p)) ue' off' \<and> anc_frame L h h'"
proof -
  let ?pp = "nd_parent (nd h p)" and ?ud = "ud \<and> \<not> subnode_dirty (nd h p)"
  have pL: "p \<in> L" "\<not> is_leaf (nd h p)" using st p(1) by (auto simp: loop_state_def)
  have at: "link_ok h L q" "shape_ok (nd h q)" "size_off h q (if q = p \<and> ue then off else 0)"
    "ud \<Longrightarrow> nd_parent (nd h q) \<noteq> p \<Longrightarrow> dirty_ok h q" "\<not> ud \<Longrightarrow> dirty_ok h q" if "q \<in> L" for q
    using st that by (auto simp: loop_state_def)
  have str: "nd_type (nd h p) = PB_WT_STRING" by (rule node_shape(1) [OF at(2) [OF pL(1)] pL(2)])
  have same: "size_same (nd h m) (nd h' m)" for m using y(1) by (simp add: h')
  note sel = size_same_sel [OF same] is_leaf_same [OF same]
  have kid: "c \<in> set (kids (nd h q)) \<Longrightarrow> nd_parent (nd h c) = q" if "q \<in> L" for q c
    using at(1) [OF that] by (auto simp: link_ok_def)
  have frame: "anc_frame L h h'"
    using y pL by (auto simp: anc_frame_def h')
  have "link_ok h' L q \<and> shape_ok (nd h' q) \<and> size_off h' q (if q = ?pp \<and> ue' then off' else 0) \<and>
      (?ud \<longrightarrow> nd_parent (nd h' q) \<noteq> ?pp \<longrightarrow> dirty_ok h' q) \<and> (\<not> ?ud \<longrightarrow> dirty_ok h' q)" if q: "q \<in> L" for q
  proof (intro conjI impI)
    show "link_ok h' L q" using at(1) [OF q] by (simp add: link_ok_def sel)
    have "is_folded (nd h' q) \<longrightarrow> nd_val (nd h' q) = nd_val (nd h q) \<and> is_folded (nd h q)"
    proof (cases "q = p")
      case True
      have "is_folded y \<Longrightarrow> \<not> subnode_dirty y" using pL(2) is_leaf_same [OF y(1)] by (simp add: is_folded_def)
      then show ?thesis using True y(2,3) is_leaf_same [OF y(1)] by (auto simp: h' is_folded_def IsBufferValid_def)
    qed (simp add: h')
    then show "shape_ok (nd h' q)" using at(2) [OF q] unfolding shape_ok_def sel by metis
    have "q \<noteq> 0" using q L by metis
    then have sums: "sum_list (map (\<lambda>c. eval_sz (nd h' c)) (kids (nd h q))) =
        sum_list (map (\<lambda>c. eval_sz (nd h c)) (kids (nd h q))) + (if q = ?pp then off' else 0)"
      using sum_kids [OF at(1) [OF q] at(1) [OF pL(1)], of h'] off' by (simp add: h')
    show "size_off h' q (if q = ?pp \<and> ue' then off' else 0)"
    proof (cases "q = p")
      case True
      have "eval_val_sz (nd h p) + (if ue then off else 0) = sum_list (map (\<lambda>c. eval_sz (nd h c)) (kids (nd h p)))"
        using at(3) [OF pL(1)] pL(2) str by (auto simp: size_off_def Let_def)
      moreover have "nd h' p = y" by (simp add: h')
      ultimately show ?thesis
        using True sums sz p(2) pL(2) str sel(2,7,8,14) [of p] by (simp add: size_off_def Let_def)
    next
      case False
      have "nd h' q = nd h q" using False by (simp add: h')
      moreover have "q = ?pp \<Longrightarrow> \<not> is_leaf (nd h q)"
        using parent_not_leaf [OF at(1) [OF pL(1)] at(2)] q L by metis
      moreover have "size_off h q 0" using at(3) [OF q] False by simp
      ultimately show ?thesis
        using sums ue' by (cases "q = ?pp"; cases ue') (auto simp: size_off_def Let_def split: if_splits)
    qed
    have dy: "subnode_dirty (nd h' q) \<Longrightarrow> q \<noteq> p \<Longrightarrow> subnode_dirty (nd h q)" by (simp add: h')
    have mono: "subnode_dirty (nd h m) \<Longrightarrow> subnode_dirty (nd h' m)" for m using y(2) by (auto simp: h')
    show "dirty_ok h' q" if ud: "?ud" "nd_parent (nd h' q) \<noteq> ?pp"
    proof (cases "nd_parent (nd h q) = p")
      case True
      have "nd_parent (nd h' q) = p" "subnode_dirty (nd h' p)" using True ud y(2) sel(12) [of q] by (simp_all add: h')
      then show ?thesis by (simp add: dirty_ok_def)
    next
      case False
      then have "dirty_ok h q" using at(4) [OF q] ud(1) by blast
      moreover have "q \<noteq> p" using ud(2) by (auto simp: sel)
      ultimately show ?thesis using dy mono by (auto simp: dirty_ok_def sel)
    qed
    show "dirty_ok h' q" if ud: "\<not> ?ud"
    proof (cases "nd_parent (nd h q) = p \<and> ud")
      case True
      have "nd_parent (nd h' q) = p" "subnode_dirty (nd h' p)" using True y(2) sel(12) [of q] by (simp_all add: h')
      then show ?thesis by (simp add: dirty_ok_def)
    next
      case False
      then have "dirty_ok h q" using at(4,5) [OF q] by blast
      moreover have "subnode_dirty (nd h' q) \<Longrightarrow> subnode_dirty (nd h q)"
        using ud y(2) by (cases "q = p") (auto simp: h')
      ultimately show ?thesis using mono by (auto simp: dirty_ok_def sel)
    qed
  qed
  moreover have "?pp \<noteq> 0 \<longrightarrow> ?pp \<in> L \<and> \<not> is_leaf (nd h' ?pp)"
    using parent_not_leaf [OF at(1) [OF pL(1)]] at(2) by (simp add: sel)
  ultimately show ?thesis using frame by (simp add: loop_state_def)
qed
abbreviation par :: "knv_heap \<Rightarrow> nat \<Rightarrow> nat" where
  "par h q \<equiv> nd_parent (nd h q)"

lemma update_loop_ok:
  assumes "lseg (par h) p ps 0" "distinct ps" "\<And>q. q \<in> set ps \<Longrightarrow> 0 \<le> eval_sz (nd h q)" "0 \<notin> L" "loop_state h L p ud ue off"
  shows "\<exists>h'. update_loop p ud ue off h = Some h' \<and> anc_frame L h h' \<and> (\<forall>q \<in> L. size_ok h' q \<and> dirty_ok h' q)"
  using assms
proof (induction ps arbitrary: h p ud ue off)
  case Nil
  then have "update_loop p ud ue off h = Some h" by (subst update_loop.simps) simp
  moreover have "size_ok h q \<and> dirty_ok h q" if q: "q \<in> L" for q
  proof -
    have p0: "p = 0" using Nil.prems(1) by simp
    have q0: "q \<noteq> 0" using Nil.prems(4) q by metis
    have "size_off h q (if q = p \<and> ue then off else 0)" and d: "ud \<longrightarrow> par h q \<noteq> p \<longrightarrow> dirty_ok h q" "\<not> ud \<longrightarrow> dirty_ok h q"
      using Nil.prems(5) q by (auto simp: loop_state_def)
    then have "size_ok h q" using p0 q0 by (simp add: size_ok_off)
    moreover have "dirty_ok h q" using d unfolding p0 dirty_ok_def by blast
    ultimately show ?thesis by blast
  qed
  ultimately show ?case by simp
next
  case (Cons q0 ps)
  have p: "p \<noteq> 0" "q0 = p" "lseg (par h) (par h p) ps 0" "p \<notin> set ps" "0 \<le> eval_sz (nd h p)"
    using Cons.prems(1-3) by auto
  have pp: "par h p \<noteq> p" using p(1,3,4) by (cases ps) auto
  show ?case
  proof (cases "ud \<or> ue")
    case False
    then have "update_loop p ud ue off h = Some h" by (subst update_loop.simps) simp
    moreover have "size_ok h q \<and> dirty_ok h q" if "q \<in> L" for q
      using Cons.prems(5) False that by (auto simp: loop_state_def size_ok_off)
    ultimately show ?thesis by simp
  next
    case True
    let ?go = "ue \<and> off \<noteq> 0" and ?set = "ud \<and> \<not> subnode_dirty (nd h p)"
    let ?u = "if ?go then UPDATE_EVAL_SZ p off h else (off, h)"
    let ?h1 = "snd ?u" and ?off1 = "if ?go then fst ?u else 0"
    let ?h2 = "if ?set then SET_VALUE_DIRTY p ?h1 else ?h1"
    have stop: "(eval_sz (nd h p) < 0 \<or> off = 0) = (off = 0)" using p(5) by simp
    have d1: "subnode_dirty (nd ?h1 p) = subnode_dirty (nd h p)" by (simp add: UPDATE_EVAL_SZ_def Let_def)
    have par2: "par ?h2 p = par h p" by (simp add: UPDATE_EVAL_SZ_def SET_VALUE_DIRTY_def Let_def)
    have un: "update_loop p ud ue off h = update_loop (par h p) ?set ?go (fst ?u) ?h2"
    proof (cases ?u)
      case (Pair o1 g1)
      have g: "g1 = ?h1" "o1 = fst ?u" unfolding Pair by simp_all
      have d: "subnode_dirty (nd g1 p) = subnode_dirty (nd h p)" using d1 unfolding g(1) [symmetric] .
      have "update_loop p ud ue off h = update_loop (par (if ?set then SET_VALUE_DIRTY p g1 else g1) p) ?set ?go o1
          (if ?set then SET_VALUE_DIRTY p g1 else g1)"
        by (subst update_loop.simps) (simp only: Let_def stop Pair prod.case d p(1) True simp_thms if_True)
      then show ?thesis using par2 unfolding g by simp
    qed
    have y: "?h2 = upd p (\<lambda>_. nd ?h2 p) h"
      by (auto simp: UPDATE_EVAL_SZ_def SET_VALUE_DIRTY_def Let_def upd_def)
    have sm: "size_same (nd h p) (nd ?h2 p)"
      by (auto simp: size_same_def UPDATE_EVAL_SZ_def SET_VALUE_DIRTY_def Let_def set_i32_def)
    have str: "nd_type (nd h p) = PB_WT_STRING" "size_off h p (if ue then off else 0)" "\<not> is_leaf (nd h p)"
      using Cons.prems(5) p(1) node_shape(1) by (auto simp: loop_state_def)
    have e0: "eval_sz (nd h p) = knv_eval_field_length (nd_tag (nd h p)) PB_WT_STRING (len_val (eval_val_sz (nd h p)))"
      using str(1,2) by (simp add: size_off_def Let_def)
    have "loop_state ?h2 L (par h p) ?set ?go ?off1 \<and> anc_frame L h ?h2"
    proof (rule loop_step [OF Cons.prems(5) p(1) pp Cons.prems(4) y sm])
      show "subnode_dirty (nd ?h2 p) \<longleftrightarrow> subnode_dirty (nd h p) \<or> ud"
        using d1 by (auto simp: SET_VALUE_DIRTY_def)
      show "nd_val (nd ?h2 p) = nd_val (nd h p) \<or> subnode_dirty (nd ?h2 p)"
        by (auto simp: UPDATE_EVAL_SZ_def SET_VALUE_DIRTY_def Let_def)
      show "eval_sz (nd ?h2 p) = knv_eval_field_length (nd_tag (nd ?h2 p)) PB_WT_STRING (len_val (eval_val_sz (nd ?h2 p)))"
        using e0 str(1) by (auto simp: UPDATE_EVAL_SZ_def SET_VALUE_DIRTY_def Let_def)
      show "eval_val_sz (nd ?h2 p) = eval_val_sz (nd h p) + (if ue then off else 0)"
        by (auto simp: UPDATE_EVAL_SZ_def SET_VALUE_DIRTY_def Let_def)
      show "?off1 = eval_sz (nd ?h2 p) - eval_sz (nd h p)"
        by (auto simp: UPDATE_EVAL_SZ_def SET_VALUE_DIRTY_def Let_def)
    qed simp
    then have st: "loop_state ?h2 L (par h p) ?set ?go (fst ?u)" and fr: "anc_frame L h ?h2"
      by (auto simp: loop_state_def)
    have "nd ?h2 q = nd h q" if "q \<in> set ps" for q
      using that p(4) by (subst y) auto
    then have "lseg (par ?h2) (par h p) ps 0" "\<And>q. q \<in> set ps \<Longrightarrow> 0 \<le> eval_sz (nd ?h2 q)"
      using lseg_cong [OF p(3), of "par ?h2"] Cons.prems(3) by auto
    from Cons.IH [OF this(1) _ this(2) Cons.prems(4) st] Cons.prems(2) show ?thesis
      unfolding un using anc_frame_trans [OF fr] by auto
  qed
qed
lemma finite_edges:
  assumes "finite L" "\<And>q. q \<in> L \<Longrightarrow> link_ok h L q"
  shows "finite (edges h L)"
proof (rule finite_subset)
  show "edges h L \<subseteq> L \<times> L" using assms(2) by (fastforce simp: edges_def link_ok_def)
qed (use assms(1) in simp)

text \<open>The path from a node to its root.\<close>

lemma path_up:
  assumes "finite L" and link: "\<And>q. q \<in> L \<Longrightarrow> link_ok h L q" and ac: "acyclic (edges h L)" and "n \<in> L" "0 \<notin> L"
  shows "\<exists>ps. lseg (par h) n ps 0 \<and> distinct ps \<and> set ps \<subseteq> {q \<in> L. (q, n) \<in> (edges h L)\<^sup>*}"
proof -
  have wf: "wf (edges h L)" by (rule finite_acyclic_wf [OF finite_edges [OF assms(1) link] ac])
  show ?thesis
    using assms(4)
  proof (induction n rule: wf_induct_rule [OF wf])
    case (1 n)
    have n0: "n \<noteq> 0" using 1(2) assms(5) by metis
    show ?case
    proof (cases "par h n = 0")
      case True
      then show ?thesis using n0 1 by (intro exI [of _ "[n]"]) auto
    next
      case False
      then have e: "(par h n, n) \<in> edges h L" "par h n \<in> L"
        using link [OF \<open>n \<in> L\<close>] by (auto simp: link_ok_def edges_def)
      from 1 e obtain ps where ps: "lseg (par h) (par h n) ps 0" "distinct ps"
        "set ps \<subseteq> {q \<in> L. (q, par h n) \<in> (edges h L)\<^sup>*}" by blast
      have "n \<notin> set ps"
      proof
        assume "n \<in> set ps"
        then have "(n, n) \<in> (edges h L)\<^sup>+" using ps(3) e(1) by (auto intro: rtrancl_into_trancl1)
        then show False using ac by (simp add: acyclic_def)
      qed
      moreover have "set (n # ps) \<subseteq> {q \<in> L. (q, n) \<in> (edges h L)\<^sup>*}"
        using ps(3) e(1) 1 by (auto intro: rtrancl_into_rtrancl)
      ultimately show ?thesis using ps n0 by (intro exI [of _ "n # ps"]) auto
    qed
  qed
qed

definition enc_same :: "KnvNode \<Rightarrow> KnvNode \<Rightarrow> bool" where
  "enc_same x y \<longleftrightarrow> nd_tag y = nd_tag x \<and> nd_type y = nd_type x \<and> nd_val y = nd_val x \<and> child_num y = child_num x \<and>
     metalist y = metalist x \<and> childlist y = childlist x"

lemma enc_same_leaf: "enc_same x y \<Longrightarrow> is_leaf y = is_leaf x"
  by (simp add: enc_same_def is_leaf_def)

text \<open>Nodes that are not dirty afterwards keep their encodings.\<close>

lemma enc_transfer:
  assumes inv: "knv_inv h L" and "knv_enc h n bs" "n \<in> L" "\<not> subnode_dirty (nd h' n)"
    and D: "\<And>q. q \<in> L \<Longrightarrow> dirty_ok h' q" and P: "\<And>q. q \<in> L \<Longrightarrow> \<not> subnode_dirty (nd h' q) \<Longrightarrow> enc_same (nd h q) (nd h' q)"
    and Q: "\<And>q c. q \<in> L \<Longrightarrow> \<not> subnode_dirty (nd h' q) \<Longrightarrow> c \<in> set (kids (nd h q)) \<Longrightarrow> par h' c = q" and "0 \<notin> L"
  shows "knv_enc h' n bs"
  using assms(2-4)
proof (induction rule: knv_enc.induct)
  case (enc_leaf n bs)
  have s: "enc_same (nd h n) (nd h' n)" by (rule P [OF enc_leaf.prems])
  have "is_leaf (nd h' n)" using enc_leaf.hyps(1) enc_same_leaf [OF s] by simp
  then show ?case using s enc_leaf.hyps(2) by (intro knv_enc.enc_leaf) (simp_all add: enc_same_def)
next
  case (enc_node n bss bs)
  note s = P [OF enc_node.prems]
  have "list_all2 (knv_enc h') (kids (nd h n)) bss"
  proof (rule list.rel_mono_strong [OF enc_node.IH])
    fix c b assume c: "c \<in> set (kids (nd h n))" and IH: "knv_enc h c b \<and> (c \<in> L \<longrightarrow> \<not> subnode_dirty (nd h' c) \<longrightarrow> knv_enc h' c b)"
    have "c \<in> L" using kids_in [OF inv enc_node.prems(1) c] .
    moreover have "\<not> subnode_dirty (nd h' c)"
    proof
      assume "subnode_dirty (nd h' c)"
      moreover have "n \<noteq> 0" using enc_node.prems(1) assms(8) by metis
      ultimately show False
        using D [OF \<open>c \<in> L\<close>] Q [OF enc_node.prems c] enc_node.prems(2) by (simp add: dirty_ok_def)
    qed
    ultimately show "knv_enc h' c b" using IH by blast
  qed
  then show ?case
    using enc_node.hyps s enc_same_leaf [OF s] by (intro knv_enc.enc_node) (simp_all add: enc_same_def)
qed

lemma anc_frame_enc:
  assumes "anc_frame L h h'"
  shows "knv_enc h' n bs = knv_enc h n bs"
proof -
  note sm = anc_frame_node(1) [OF assms]
  have leaf: "is_leaf (nd h n) \<Longrightarrow> nd h' n = nd h n" for n using anc_frame_node(2) [OF assms, of n] by blast
  have 1: "knv_enc h n bs \<Longrightarrow> knv_enc h' n bs" for n bs
  proof (induction rule: knv_enc.induct)
    case (enc_leaf n bs)
    then show ?case using leaf by (intro knv_enc.enc_leaf) auto
  next
    case (enc_node n bss bs)
    have "list_all2 (knv_enc h') (kids (nd h' n)) bss"
      unfolding size_same_sel [OF sm] by (rule list.rel_mono_strong [OF enc_node.IH]) blast
    then show ?case using enc_node.hyps is_leaf_same [OF sm] by (intro knv_enc.enc_node) (auto simp: size_same_sel [OF sm])
  qed
  have 2: "knv_enc h' n bs \<Longrightarrow> knv_enc h n bs" for n bs
  proof (induction rule: knv_enc.induct)
    case (enc_leaf n bs)
    then have "is_leaf (nd h n)" using is_leaf_same [OF sm] by blast
    then show ?case using leaf enc_leaf by (intro knv_enc.enc_leaf) auto
  next
    case (enc_node n bss bs)
    have "list_all2 (knv_enc h) (kids (nd h n)) bss"
      unfolding size_same_sel(7,8) [OF sm, symmetric] by (rule list.rel_mono_strong [OF enc_node.IH]) blast
    then show ?case using enc_node.hyps is_leaf_same [OF sm] by (intro knv_enc.enc_node) (auto simp: size_same_sel [OF sm])
  qed
  show ?thesis using 1 2 by blast
qed
lemma anc_frame_keeps:
  assumes fr: "anc_frame L h h'"
  shows "shape_ok (nd h q) \<Longrightarrow> shape_ok (nd h' q)" and "key_ok h q \<Longrightarrow> key_ok h' q" and "link_ok h L q \<Longrightarrow> link_ok h' L q"
    and "index_ok h q \<Longrightarrow> index_ok h' q" and "pool_ok h L \<Longrightarrow> pool_ok h' L" and "edges h' L = edges h L"
proof -
  note sm = anc_frame_node(1) [OF fr]
  note sel = size_same_sel [OF sm] and leaf = is_leaf_same [OF sm]
  have keep: "is_leaf (nd h m) \<Longrightarrow> nd h' m = nd h m" for m using anc_frame_node(2) [OF fr, of m] by blast
  have "is_folded (nd h' q) \<Longrightarrow> nd_val (nd h' q) = nd_val (nd h q) \<and> is_folded (nd h q)"
    using anc_frame_node(2-4) [OF fr, of q] leaf [of q] by (auto simp: is_folded_def IsBufferValid_def)
  then show "shape_ok (nd h q) \<Longrightarrow> shape_ok (nd h' q)" unfolding shape_ok_def sel by metis
  show "key_ok h q \<Longrightarrow> key_ok h' q"
    using keep leaf by (fastforce simp: key_ok_def has_key_def sel)
  show "link_ok h L q \<Longrightarrow> link_ok h' L q" by (simp add: link_ok_def sel)
  show "index_ok h q \<Longrightarrow> index_ok h' q"
    unfolding index_ok_def sel by (rule ht_ok_frame) (simp_all add: sel)
  have "nd h' m = nd h m" if "m \<in> set (np_free h)" "pool_ok h L" for m
    using that anc_frame_node(2) [OF fr, of m] by (auto simp: pool_ok_def)
  then show "pool_ok h L \<Longrightarrow> pool_ok h' L" using anc_frame_pool [OF fr] by (auto simp: pool_ok_def)
  show "edges h' L = edges h L" by (simp add: edges_def sel)
qed

lemma ancestors_inv:
  assumes inv: "knv_inv h L" and pool: "pool_ok h1 L1" and ac: "acyclic (edges h1 L1)" and sub: "L \<subseteq> L1" and n: "n \<in> L1"
    and loc: "\<And>q. q \<in> L1 \<Longrightarrow> shape_ok (nd h1 q) \<and> key_ok h1 q \<and> link_ok h1 L1 q \<and> index_ok h1 q"
    and sz: "\<And>q. q \<in> L1 \<Longrightarrow> size_off h1 q (if q = par h1 n then off else 0)"
    and dt: "\<And>q. q \<in> L1 \<Longrightarrow> par h1 q \<noteq> par h1 n \<Longrightarrow> dirty_ok h1 q"
    and ev: "\<And>q. q \<in> L1 \<Longrightarrow> q \<noteq> n \<Longrightarrow> 0 \<le> eval_sz (nd h1 q)"
    and cl: "\<And>q. q \<in> L1 \<Longrightarrow> \<not> subnode_dirty (nd h1 q) \<Longrightarrow>
      q \<in> L \<and> enc_same (nd h q) (nd h1 q) \<and> \<not> subnode_dirty (nd h q) \<or> q \<notin> L \<and> is_leaf (nd h1 q)"
  shows "\<exists>h'. UpdateParentEvalueAndSetDirty n off h1 = Some h' \<and> knv_inv h' L1 \<and> anc_frame L1 h1 h'"
proof -
  have fin: "finite L1" "0 \<notin> L1" using pool by (auto simp: pool_ok_def)
  have link: "\<And>q. q \<in> L1 \<Longrightarrow> link_ok h1 L1 q" and shape: "\<And>q. q \<in> L1 \<Longrightarrow> shape_ok (nd h1 q)" using loc by blast+
  obtain ps where ps: "lseg (par h1) n ps 0" "distinct ps" "set ps \<subseteq> {q \<in> L1. (q, n) \<in> (edges h1 L1)\<^sup>*}"
    using path_up [OF fin(1) link ac n fin(2)] by blast
  have n0: "n \<noteq> 0" using n fin(2) by metis
  then obtain ps' where ps': "ps = n # ps'" using ps(1) by (cases ps) auto
  have up: "lseg (par h1) (par h1 n) ps' 0" "distinct ps'" using ps(1,2) ps' by auto
  have ge: "0 \<le> eval_sz (nd h1 q)" if "q \<in> set ps'" for q
    using ev [of q] that ps(2,3) ps' by auto
  have "size_off h1 q (if q = par h1 n \<and> off \<noteq> 0 then off else 0)" if "q \<in> L1" for q
    using sz [OF that] by (cases "q = par h1 n"; cases "off = 0") simp_all
  then have st: "loop_state h1 L1 (par h1 n) True (off \<noteq> 0) off"
    unfolding loop_state_def using link shape dt parent_not_leaf [OF link [OF n] shape] by blast
  obtain h' where h': "update_loop (par h1 n) True (off \<noteq> 0) off h1 = Some h'" "anc_frame L1 h1 h'"
    "\<And>q. q \<in> L1 \<Longrightarrow> size_ok h' q" "\<And>q. q \<in> L1 \<Longrightarrow> dirty_ok h' q"
    using update_loop_ok [OF up ge fin(2) st] by blast
  note keep = anc_frame_keeps [OF h'(2)] and fr = anc_frame_node [OF h'(2)]
  note sel = size_same_sel [OF fr(1)] and leaf = is_leaf_same [OF fr(1)]
  have P: "q \<in> L \<and> enc_same (nd h q) (nd h' q) \<and> \<not> subnode_dirty (nd h q) \<or> q \<notin> L \<and> is_leaf (nd h' q)"
    if q: "q \<in> L1" "\<not> subnode_dirty (nd h' q)" for q
    using cl [OF q(1)] fr(3,4) [of q] q(2) leaf [of q] sel [of q] by (auto simp: enc_same_def)
  have "clean_ok h' q" if q: "q \<in> L1" for q
    unfolding clean_ok_def
  proof (intro impI)
    assume c: "\<not> is_leaf (nd h' q) \<and> \<not> subnode_dirty (nd h' q)"
    with P [OF q] have qL: "q \<in> L" and s: "enc_same (nd h q) (nd h' q)" "\<not> subnode_dirty (nd h q)" by blast+
    have "\<not> is_leaf (nd h q)" using c enc_same_leaf [OF s(1)] by simp
    with knv_inv_at(4) [OF inv qL] s(2) obtain bss where b: "IsBufferValid (nd h q)"
      "list_all2 (knv_enc h) (kids (nd h q)) bss" "str_bytes (nd_val (nd h q)) = concat bss" by (auto simp: clean_ok_def)
    have "list_all2 (knv_enc h') (kids (nd h q)) bss"
    proof (rule list.rel_mono_strong [OF b(2)])
      fix c' b' assume c': "c' \<in> set (kids (nd h q))" "knv_enc h c' b'"
      have Q: "par h' x = y" if "y \<in> L" "\<not> subnode_dirty (nd h' y)" "x \<in> set (kids (nd h y))" for x y
      proof -
        have "y \<in> L1" using sub that(1) by blast
        then have "enc_same (nd h y) (nd h' y)" using P [of y] that by blast
        then have "x \<in> set (kids (nd h1 y))" using that(3) sel [of y] by (simp add: enc_same_def)
        then show ?thesis using link [OF \<open>y \<in> L1\<close>] sel [of x] by (auto simp: link_ok_def)
      qed
      have cL: "c' \<in> L" using kids_in [OF inv qL c'(1)] .
      have "par h' c' = q" using Q [OF qL _ c'(1)] c by blast
      moreover have "q \<noteq> 0" using q fin(2) by metis
      ultimately have cd: "\<not> subnode_dirty (nd h' c')"
        using h'(4) [of c'] cL sub c by (auto simp: dirty_ok_def)
      have D: "dirty_ok h' x" if "x \<in> L" for x using h'(4) that sub by blast
      have E: "enc_same (nd h x) (nd h' x)" if "x \<in> L" "\<not> subnode_dirty (nd h' x)" for x
        using P [of x] that sub by blast
      have "0 \<notin> L" using fin(2) sub by blast
      then show "knv_enc h' c' b'" using D E Q by (intro enc_transfer [OF inv c'(2) cL cd])
    qed
    moreover have "kids (nd h' q) = kids (nd h q)" "nd_val (nd h' q) = nd_val (nd h q)" using s(1) by (simp_all add: enc_same_def)
    ultimately show "IsBufferValid (nd h' q) \<and> (\<exists>bss. list_all2 (knv_enc h') (kids (nd h' q)) bss \<and> str_bytes (nd_val (nd h' q)) = concat bss)"
      using b by (auto simp: IsBufferValid_def)
  qed
  then have "knv_inv h' L1"
    unfolding knv_inv_def using h'(3,4) keep(5) [OF pool] keep(6) ac keep(1-4) loc by simp
  then show ?thesis using h'(1,2) by (simp add: UpdateParentEvalueAndSetDirty_def)
qed
section \<open>The operations keep the invariant\<close>

lemma no_self_parent:
  assumes "acyclic (edges h L)" "link_ok h L n" "par h n \<noteq> 0"
  shows "par h n \<noteq> n"
proof
  assume "par h n = n"
  then have "(n, n) \<in> edges h L" using assms(2,3) by (auto simp: link_ok_def edges_def)
  then show False using assms(1) by (auto simp: acyclic_def)
qed

text \<open>A node that may be changed by itself: a root or a child, not a meta.\<close>

definition not_meta :: "knv_heap \<Rightarrow> nat \<Rightarrow> bool" where
  "not_meta h n \<longleftrightarrow> (par h n \<noteq> 0 \<longrightarrow> n \<notin> set (metalist (nd h (par h n))))"

lemma key_meta_differs:
  assumes "knv_inv h L" "q \<in> L" "metalist (nd h q) = m # ms" "not_meta h n"
  shows "m \<noteq> n"
proof
  assume "m = n"
  then have "par h n = q" using knv_inv_at(6) [OF assms(1,2)] assms(3) by (simp add: link_ok_def)
  moreover have "q \<noteq> 0" using assms(1,2) by (auto simp: knv_inv_def pool_ok_def)
  ultimately show False using assms(3,4) \<open>m = n\<close> by (simp add: not_meta_def)
qed

lemma size_off_keep:
  assumes "size_ok h q" "nd_tag (nd h1 q) = nd_tag (nd h q)" "nd_type (nd h1 q) = nd_type (nd h q)" "is_leaf (nd h1 q) = is_leaf (nd h q)"
    "nd_val (nd h1 q) = nd_val (nd h q)" "eval_sz (nd h1 q) = eval_sz (nd h q)" "eval_val_sz (nd h1 q) = eval_val_sz (nd h q)"
    "is_leaf (nd h q) \<Longrightarrow> off = 0"
    "sum_list (map (\<lambda>c. eval_sz (nd h1 c)) (kids (nd h1 q))) = sum_list (map (\<lambda>c. eval_sz (nd h c)) (kids (nd h q))) + off"
  shows "size_off h1 q off"
  using assms by (auto simp: size_ok_def size_off_def Let_def split: if_splits)

lemma leaf_update_inv:
  assumes inv: "knv_inv h L" and ev: "evaluated h L" and n: "n \<in> L" and nm: "not_meta h n"
    and leafn: "is_leaf (nd h n)" and leafy: "is_leaf y"
    and keep: "nd_tag y = nd_tag (nd h n)" "nd_type y = nd_type (nd h n)" "nd_key y = nd_key (nd h n)" "metalist y = metalist (nd h n)"
      "childlist y = childlist (nd h n)" "no_key y = no_key (nd h n)" "nd_parent y = par h n" "ht_next y = hnext h n" "nd_ht y = nd_ht (nd h n)"
    and new: "shape_ok y" "subnode_dirty y"
    and sz: "eval_sz y = knv_eval_field_length (nd_tag y) (nd_type y) (if nd_type y = PB_WT_STRING then len_val (eval_val_sz y) else nd_val y)"
      "nd_type y = PB_WT_STRING \<Longrightarrow> eval_val_sz y = str_len (nd_val y)"
  shows "\<exists>h'. UpdateParentEvalueAndSetDirty n (eval_sz y - eval_sz (nd h n)) (upd n (\<lambda>_. y) h) = Some h' \<and> knv_inv h' L \<and> nd h' n = y"
proof -
  define h1 where "h1 = upd n (\<lambda>_. y) h"
  let ?off = "eval_sz y - eval_sz (nd h n)"
  note at = knv_inv_at [OF inv]
  have fin: "finite L" "0 \<notin> L" and ac: "acyclic (edges h L)" using inv by (auto simp: knv_inv_def pool_ok_def)
  have y: "nd h1 n = y" by (simp add: h1_def)
  have other: "m \<noteq> n \<Longrightarrow> nd h1 m = nd h m" for m by (simp add: h1_def)
  have sel: "nd_tag (nd h1 m) = nd_tag (nd h m)" "nd_type (nd h1 m) = nd_type (nd h m)" "nd_key (nd h1 m) = nd_key (nd h m)"
    "metalist (nd h1 m) = metalist (nd h m)" "childlist (nd h1 m) = childlist (nd h m)"
    "no_key (nd h1 m) = no_key (nd h m)" "par h1 m = par h m" "hnext h1 m = hnext h m" "nd_ht (nd h1 m) = nd_ht (nd h m)"
    "is_leaf (nd h1 m) = is_leaf (nd h m)" for m
    using keep leafn leafy y other [of m] by (cases "m = n"; simp)+
  have "\<exists>h'. UpdateParentEvalueAndSetDirty n ?off h1 = Some h' \<and> knv_inv h' L \<and> anc_frame L h1 h'"
  proof (rule ancestors_inv [OF inv _ _ subset_refl n])
    show "pool_ok h1 L" using inv n by (auto simp: knv_inv_def pool_ok_def h1_def)
    show "acyclic (edges h1 L)" using ac by (simp add: edges_def sel)
  next
    fix q assume q: "q \<in> L"
    have "shape_ok (nd h1 q)" using at(1) [OF q] other [of q] y new(1) by (cases "q = n") auto
    moreover have "key_ok h1 q"
      using at(3) [OF q] key_meta_differs [OF inv q _ nm] other
      by (fastforce simp: key_ok_def has_key_def sel)
    moreover have "link_ok h1 L q" using at(6) [OF q] by (simp add: link_ok_def sel)
    moreover have "index_ok h1 q"
      using at(7) [OF q] unfolding index_ok_def sel(5) by (rule ht_ok_frame) (simp_all add: sel)
    ultimately show "shape_ok (nd h1 q) \<and> key_ok h1 q \<and> link_ok h1 L q \<and> index_ok h1 q" by blast
    show "size_off h1 q (if q = par h1 n then ?off else 0)"
    proof (cases "q = n")
      case True
      have "par h n \<noteq> n" using no_self_parent [OF ac at(6) [OF n]] n fin(2) by metis
      then show ?thesis using True sz leafy y keep(7) by (simp add: size_off_def Let_def)
    next
      case False
      have q0: "q \<noteq> 0" using q fin(2) by metis
      have "sum_list (map (\<lambda>c. eval_sz (nd h1 c)) (kids (nd h q))) = sum_list (map (\<lambda>c. eval_sz (nd h c)) (kids (nd h q))) +
          (if q = par h1 n then ?off else 0)"
        using sum_kids [OF at(6) [OF q] at(6) [OF n] q0, of h1] other y keep(7) by simp
      moreover have "is_leaf (nd h q) \<Longrightarrow> q \<noteq> par h1 n"
        using parent_not_leaf [OF at(6) [OF n] at(1)] q0 by (auto simp: sel(7))
      ultimately show ?thesis by (intro size_off_keep [OF at(2) [OF q]]) (simp_all add: other [OF False])
    qed
    show "0 \<le> eval_sz (nd h1 q)" if "q \<noteq> n" using ev q other [OF that] by (simp add: evaluated_def)
    show "dirty_ok h1 q" if "par h1 q \<noteq> par h1 n"
      using at(5) [OF q] that other [of q] other [of "par h1 q"] new(2) y sel(7) [of q] by (cases "q = n"; cases "par h q = n") (auto simp: dirty_ok_def)
    show "q \<in> L \<and> enc_same (nd h q) (nd h1 q) \<and> \<not> subnode_dirty (nd h q) \<or> q \<notin> L \<and> is_leaf (nd h1 q)"
      if "\<not> subnode_dirty (nd h1 q)"
      using that q new(2) y other [of q] by (cases "q = n") (auto simp: enc_same_def)
  qed
  then obtain h' where h': "UpdateParentEvalueAndSetDirty n ?off h1 = Some h'" "knv_inv h' L" "anc_frame L h1 h'" by blast
  have "nd h' n = nd h1 n" using anc_frame_node(2) [OF h'(3), of n] leafy y by metis
  then show ?thesis using h' y by (auto simp: h1_def)
qed

lemma SetValue_int_inv:
  assumes inv: "knv_inv h L" and ev: "evaluated h L" and n: "n \<in> L" and ty: "nd_type (nd h n) \<noteq> PB_WT_STRING" and nm: "not_meta h n"
  shows "\<exists>h'. SetValue_int n i h = Some (0, h') \<and> knv_inv h' L \<and> kids (nd h' n) = [] \<and> nd_tag (nd h' n) = nd_tag (nd h n) \<and>
    nd_type (nd h' n) = nd_type (nd h n) \<and> val_i64 (nd_val (nd h' n)) = i"
proof -
  let ?x = "nd h n" and ?v = "(nd_val (nd h n))\<lparr>val_i64 := i\<rparr>"
  define y where "y = ?x\<lparr>nd_val := ?v, eval_sz := knv_eval_field_length (nd_tag ?x) (nd_type ?x) ?v, eval_val_sz := 0, subnode_dirty := True\<rparr>"
  have sh: "shape_ok ?x" by (rule knv_inv_at(1) [OF inv n])
  have "\<exists>h'. UpdateParentEvalueAndSetDirty n (eval_sz y - eval_sz ?x) (upd n (\<lambda>_. y) h) = Some h' \<and> knv_inv h' L \<and> nd h' n = y"
    by (rule leaf_update_inv [OF inv ev n nm]) (use ty sh in \<open>simp_all add: y_def is_leaf_def shape_ok_def\<close>)
  then obtain h' where h': "UpdateParentEvalueAndSetDirty n (eval_sz y - eval_sz ?x) (upd n (\<lambda>_. y) h) = Some h'" "knv_inv h' L" "nd h' n = y"
    by blast
  have u: "upd n (\<lambda>x. x\<lparr>nd_val := ?v, eval_sz := knv_eval_field_length (nd_tag ?x) (nd_type ?x) ?v, eval_val_sz := 0, subnode_dirty := True\<rparr>) h =
      upd n (\<lambda>_. y) h" by (simp add: upd_def y_def)
  have "nd_type ?x \<in> {PB_WT_VARINT, PB_WT_FIXED64, PB_WT_FIXED32}" "nd_tag ?x \<noteq> 0" "kids ?x = []"
    using sh ty by (cases "nd_type ?x"; auto simp: shape_ok_def)+
  then show ?thesis using h' unfolding SetValue_int_def Let_def u by (simp add: y_def)
qed

lemma val_i32_set_i32 [simp]: "val_i32 (set_i32 w v) = w"
  by (simp add: word_unat_eq_iff unat_set_i32)

lemma str_set_i32:
  assumes "length bs < 2 ^ 31"
  shows "unat (val_i32 ((set_i32 (of_nat (length bs)) v)\<lparr>val_data := bs\<rparr>)) = length bs"
    "str_len ((set_i32 (of_nat (length bs)) v)\<lparr>val_data := bs\<rparr>) = int (length bs)"
    "str_bytes ((set_i32 (of_nat (length bs)) v)\<lparr>val_data := bs\<rparr>) = bs"
  using assms by (simp_all add: str_len_def str_bytes_def unat_of_nat take_bit_eq_mod s32_def)

lemma SetValue_str_inv:
  assumes inv: "knv_inv h L" and ev: "evaluated h L" and n: "n \<in> L" and ty: "nd_type (nd h n) = PB_WT_STRING" and nm: "not_meta h n"
    and leaf: "is_leaf (nd h n)" and nk: "\<not> has_key (nd h n)" and len: "length bs < 2 ^ 31"
  shows "\<exists>h'. SetValue_str n bs h = Some (0, h') \<and> knv_inv h' L \<and> kids (nd h' n) = [] \<and> nd_tag (nd h' n) = nd_tag (nd h n) \<and>
    nd_type (nd h' n) = nd_type (nd h n) \<and> str_bytes (nd_val (nd h' n)) = bs"
proof -
  let ?x = "nd h n" and ?v = "(set_i32 (of_nat (length bs)) (nd_val (nd h n)))\<lparr>val_data := bs\<rparr>"
  let ?l = "int (length bs)"
  have sh: "shape_ok ?x" and si: "size_ok h n" using knv_inv_at [OF inv n] by blast+
  have kids: "childlist ?x = []" "metalist ?x = []" using sh leaf ty by (auto simp: shape_ok_def is_leaf_def split: if_splits)
  have ge: "0 \<le> eval_sz ?x" using ev n by (simp add: evaluated_def)
  define x1 where "x1 = (if 0 \<le> child_num ?x then ?x\<lparr>nd_val := ?v, childlist := [], metalist := [], child_num := -1, subnode_dirty := True\<rparr>
    else ?x\<lparr>nd_val := ?v, subnode_dirty := True\<rparr>)"
  define y where "y = x1\<lparr>eval_val_sz := ?l, eval_sz := knv_eval_field_length (nd_tag ?x) PB_WT_STRING (len_val ?l)\<rparr>"
  have shy: "shape_ok y" using sh ty kids str_set_i32(1) [OF len] by (simp add: y_def x1_def shape_ok_def)
  have "\<exists>h'. UpdateParentEvalueAndSetDirty n (eval_sz y - eval_sz ?x) (upd n (\<lambda>_. y) h) = Some h' \<and> knv_inv h' L \<and> nd h' n = y"
    by (rule leaf_update_inv [OF inv ev n nm leaf]) (use ty shy kids str_set_i32(2) [OF len] in \<open>simp_all add: y_def x1_def is_leaf_def\<close>)
  then obtain h' where h': "UpdateParentEvalueAndSetDirty n (eval_sz y - eval_sz ?x) (upd n (\<lambda>_. y) h) = Some h'" "knv_inv h' L" "nd h' n = y"
    by blast
  have old: "eval_val_sz ?x = ?l \<Longrightarrow> eval_sz ?x = eval_sz y" using si ty by (simp add: size_ok_def Let_def y_def)
  have adj: "adjust_eval n (?l - eval_val_sz ?x) (upd n (\<lambda>_. x1) h) = (eval_sz y - eval_sz ?x, upd n (\<lambda>_. y) h)"
  proof (cases "eval_val_sz ?x = ?l")
    case True
    then have "x1 = y" using old by (simp add: y_def x1_def)
    then show ?thesis using True old by (simp add: adjust_eval_def UPDATE_EVAL_SZ_def)
  next
    case False
    then show ?thesis using ge ty by (simp add: adjust_eval_def UPDATE_EVAL_SZ_def Let_def upd_upd y_def) (simp add: x1_def)
  qed
  have ne: "nd_tag ?x \<noteq> 0" using sh by (simp add: shape_ok_def)
  have chk: "SetValue_check n bs h = (False, h)" using nk by (simp add: SetValue_check_def)
  have hk: "\<not> has_key (?x\<lparr>nd_val := v\<rparr>)" for v using nk by (simp add: has_key_def)
  have del: "np_DeleteAll [] g = Some g" for g by (simp add: np_DeleteAll_def)
  have "(case adjust_eval n (?l - eval_val_sz ?x) (upd n (\<lambda>_. x1) h) of (offset, h6) \<Rightarrow>
             map_option (Pair 0) (UpdateParentEvalueAndSetDirty n offset h6)) = SetValue_str n bs h"
    using ty ne by (simp add: SetValue_str_def chk Let_def hk drop_children_def drop_metas_def del kids upd_upd) (simp add: upd_def x1_def kids)
  then have "SetValue_str n bs h = Some (0, h')" using adj h'(1) by simp
  then show ?thesis using h'(2,3) kids str_set_i32(3) [OF len] by (simp add: y_def x1_def)
qed

text \<open>A node that takes children: one with metas or children already, or an empty message without a key.\<close>

definition insertable :: "KnvNode \<Rightarrow> bool" where
  "insertable x \<longleftrightarrow> nd_type x = PB_WT_STRING \<and> 0 \<le> child_num x \<and> (is_leaf x \<longrightarrow> val_i32 (nd_val x) = 0 \<and> \<not> has_key x)"

text \<open>The heap when a child has been inserted and its parent adjusted, before the walk over the ancestors.\<close>

definition inserted :: "nat \<Rightarrow> nat \<Rightarrow> nat list \<Rightarrow> knv_heap \<Rightarrow> knv_heap \<Rightarrow> bool" where
  "inserted n c cl h g \<longleftrightarrow> np_free g = np_free h \<and> np_fresh g = np_fresh h \<and>
     (\<forall>m. nd_tag (nd g m) = nd_tag (nd h m) \<and> nd_type (nd g m) = nd_type (nd h m) \<and> nd_key (nd g m) = nd_key (nd h m) \<and>
        no_key (nd g m) = no_key (nd h m) \<and> metalist (nd g m) = metalist (nd h m) \<and> metas (nd g m) = metas (nd h m) \<and>
        child_has_key (nd g m) = (child_has_key (nd h m) \<or> m = n \<and> k_val (nd_key (nd h c)) \<noteq> []) \<and>
        par g m = (if m = c then n else par h m) \<and> childlist (nd g m) = (if m = n then cl else childlist (nd h m)) \<and>
        child_num (nd g m) = (if m = n then child_num (nd h n) + 1 else child_num (nd h m)) \<and>
        (m \<noteq> n \<longrightarrow> nd_val (nd g m) = nd_val (nd h m) \<and> subnode_dirty (nd g m) = subnode_dirty (nd h m) \<and>
           eval_sz (nd g m) = eval_sz (nd h m) \<and> eval_val_sz (nd g m) = eval_val_sz (nd h m) \<and> nd_ht (nd g m) = nd_ht (nd h m)) \<and>
        (m \<notin> insert c (set (childlist (nd h n))) \<longrightarrow> hnext g m = hnext h m)) \<and>
     subnode_dirty (nd g n) \<and> val_i32 (nd_val (nd g n)) = 0 \<and> eval_val_sz (nd g n) = eval_val_sz (nd h n) + eval_sz (nd h c) \<and>
     eval_sz (nd g n) = knv_eval_field_length (nd_tag (nd h n)) PB_WT_STRING (len_val (eval_val_sz (nd g n))) \<and>
     ht_ok g n (insert c (set (childlist (nd h n))))"

lemma insertedD:
  assumes "inserted n c cl h g"
  shows "nd_tag (nd g m) = nd_tag (nd h m)" "nd_type (nd g m) = nd_type (nd h m)" "nd_key (nd g m) = nd_key (nd h m)"
    "no_key (nd g m) = no_key (nd h m)" "metalist (nd g m) = metalist (nd h m)" "par g m = (if m = c then n else par h m)"
    "childlist (nd g m) = (if m = n then cl else childlist (nd h m))"
    "child_num (nd g m) = (if m = n then child_num (nd h n) + 1 else child_num (nd h m))"
    "m \<noteq> n \<Longrightarrow> nd_val (nd g m) = nd_val (nd h m)" "m \<noteq> n \<Longrightarrow> subnode_dirty (nd g m) = subnode_dirty (nd h m)"
    "m \<noteq> n \<Longrightarrow> eval_sz (nd g m) = eval_sz (nd h m)" "m \<noteq> n \<Longrightarrow> eval_val_sz (nd g m) = eval_val_sz (nd h m)"
    "m \<noteq> n \<Longrightarrow> nd_ht (nd g m) = nd_ht (nd h m)" "m \<notin> insert c (set (childlist (nd h n))) \<Longrightarrow> hnext g m = hnext h m"
    "subnode_dirty (nd g n)" "val_i32 (nd_val (nd g n)) = 0" "eval_val_sz (nd g n) = eval_val_sz (nd h n) + eval_sz (nd h c)"
    "eval_sz (nd g n) = knv_eval_field_length (nd_tag (nd h n)) PB_WT_STRING (len_val (eval_val_sz (nd g n)))"
    "ht_ok g n (insert c (set (childlist (nd h n))))" "np_free g = np_free h" "np_fresh g = np_fresh h"
    "metas (nd g m) = metas (nd h m)" "child_has_key (nd g m) = (child_has_key (nd h m) \<or> m = n \<and> k_val (nd_key (nd h c)) \<noteq> [])"
  using assms unfolding inserted_def by (simp | meson)+

lemma InnerInsertChild_steps:
  assumes ok: "ht_ok h n (set (childlist (nd h n)))" and c: "c \<noteq> 0" "c \<noteq> n" "c \<notin> set (childlist (nd h n))"
    and ev: "0 \<le> eval_sz (nd h n)" "0 \<le> eval_sz (nd h c)" and ty: "nd_type (nd h n) = PB_WT_STRING"
    and e: "eval_sz (nd h n) = knv_eval_field_length (nd_tag (nd h n)) PB_WT_STRING (len_val (eval_val_sz (nd h n)))"
    and cl: "cl = (if at_tail then childlist (nd h n) @ [c] else c # childlist (nd h n))"
  shows "\<exists>g. inserted n c cl h g \<and> InnerInsertChild n c True True at_tail h =
    map_option (Pair 0) (UpdateParentEvalueAndSetDirty n (eval_sz (nd g n) - eval_sz (nd h n)) g)"
proof -
  let ?S = "set (childlist (nd h n))"
  define hB where "hB = upd n (\<lambda>x. x\<lparr>childlist := if at_tail then childlist x @ [c] else c # childlist x\<rparr>) (upd c (\<lambda>x. x\<lparr>nd_parent := n\<rparr>) h)"
  have "ht_ok hB n ?S" by (rule ht_ok_frame [OF ok]) (use c in \<open>auto simp: hB_def\<close>)
  from KnvHt_put_ok [OF this c(3,1)] obtain hC where
    C: "KnvHt_put hB n c = Some hC" "ht_ok hC n (insert c ?S)" "ht_same {n} (insert c ?S) hB hC" by blast
  note s = ht_same_sel [OF C(3)]
  define hD where "hD = upd n (\<lambda>x. x\<lparr>child_has_key := child_has_key x \<or> k_val (nd_key (nd hC c)) \<noteq> [], child_num := child_num x + 1\<rparr>) hC"
  have eD: "eval_sz (nd hD n) = eval_sz (nd h n)" "eval_sz (nd hD c) = eval_sz (nd h c)" "nd_tag (nd hD n) = nd_tag (nd h n)"
    "nd_type (nd hD n) = PB_WT_STRING" "eval_val_sz (nd hD n) = eval_val_sz (nd h n)" "par hD n = par h n"
    using c ty s [of n] s [of c] by (simp_all add: hD_def hB_def)
  have eC: "eval_sz (nd hC n) = eval_sz (nd h n)" using eD(1) by (simp add: hD_def)
  obtain off hE where E: "UPDATE_EVAL_SZ n (eval_sz (nd h c)) hD = (off, hE)" by (cases "UPDATE_EVAL_SZ n (eval_sz (nd h c)) hD")
  define g where "g = SET_VALUE_DIRTY n hE"
  have hE: "hE = upd n (\<lambda>x. x\<lparr>eval_val_sz := eval_val_sz (nd h n) + eval_sz (nd h c),
      eval_sz := knv_eval_field_length (nd_tag (nd h n)) PB_WT_STRING (len_val (eval_val_sz (nd h n) + eval_sz (nd h c)))\<rparr>) hD"
  proof (cases "eval_sz (nd h c) = 0")
    case True
    have "upd n (\<lambda>x. x\<lparr>eval_val_sz := eval_val_sz (nd h n), eval_sz := eval_sz (nd h n)\<rparr>) hD = hD"
      using eD by (auto simp: upd_def fun_eq_iff)
    then show ?thesis using True E e by (simp add: UPDATE_EVAL_SZ_def)
  next
    case False
    then show ?thesis using E eD by (simp add: UPDATE_EVAL_SZ_def Let_def)
  qed
  have off: "off = eval_sz (nd g n) - eval_sz (nd h n)"
    using E eD e by (auto simp: g_def SET_VALUE_DIRTY_def UPDATE_EVAL_SZ_def Let_def split: if_splits)
  have "inserted n c cl h g"
    unfolding inserted_def
  proof (intro conjI allI)
    show "ht_ok g n (insert c ?S)"
      by (rule ht_ok_frame [OF C(2)]) (simp_all add: g_def hE hD_def SET_VALUE_DIRTY_def)
    show "np_free g = np_free h" "np_fresh g = np_fresh h"
      using C(3) by (simp_all add: g_def hE hD_def SET_VALUE_DIRTY_def ht_same_def hB_def)
    fix m
    have "hnext g m = hnext hC m" "hnext hB m = hnext h m" by (simp_all add: g_def hE hD_def SET_VALUE_DIRTY_def hB_def)
    then show "m \<notin> insert c ?S \<longrightarrow> hnext g m = hnext h m" using ht_same_next [OF C(3), of m] by simp
    have "m \<noteq> n \<Longrightarrow> nd_ht (nd hC m) = nd_ht (nd hB m)" using C(3) by (simp add: ht_same_def)
    then show "m \<noteq> n \<longrightarrow> nd_val (nd g m) = nd_val (nd h m) \<and> subnode_dirty (nd g m) = subnode_dirty (nd h m) \<and>
           eval_sz (nd g m) = eval_sz (nd h m) \<and> eval_val_sz (nd g m) = eval_val_sz (nd h m) \<and> nd_ht (nd g m) = nd_ht (nd h m)"
      using s [of m] by (simp add: g_def hE hD_def SET_VALUE_DIRTY_def hB_def)
  qed (use s c cl in \<open>simp_all add: g_def hE hD_def SET_VALUE_DIRTY_def hB_def\<close>)
  moreover have "InnerInsertChild n c True True at_tail h = map_option (Pair 0) (UpdateParentEvalueAndSetDirty n off g)"
    using C(1) c(1) ev eD(1,2) eC E
    by (simp add: InnerInsertChild_def INSERT_CHILD_def hB_def [symmetric] hD_def [symmetric] EvaluateSize_cached
        finish_change_def adjust_eval_def g_def)
  ultimately show ?thesis using off by blast
qed
lemma edges_insert:
  assumes "inserted n c cl h g" "n \<in> L" "set cl = insert c (set (childlist (nd h n)))"
  shows "edges g L = insert (n, c) (edges h L)"
  using assms(2,3) insertedD(5,7) [OF assms(1)] by (auto simp: edges_def split: if_splits)

lemma inserted_local:
  assumes inv: "knv_inv h L" and n: "n \<in> L" "insertable (nd h n)" and nm: "not_meta h n" and c: "c \<in> L" "par h c = 0" "c \<noteq> n"
    and g: "inserted n c cl h g" and cl: "cl = childlist (nd h n) @ [c] \<or> cl = c # childlist (nd h n)" and q: "q \<in> L"
  shows "shape_ok (nd g q)" "key_ok g q" "link_ok g L q" "index_ok g q" "is_leaf (nd g q) \<longleftrightarrow> is_leaf (nd h q) \<and> q \<noteq> n"
proof -
  note D = insertedD [OF g] and at = knv_inv_at [OF inv]
  have set: "set cl = insert c (set (childlist (nd h n)))" using cl by auto
  have len: "int (length cl) = child_num (nd h n) + 1"
    using at(1) [OF n(1)] n(2) cl by (auto simp: shape_ok_def insertable_def)
  have n0: "n \<noteq> 0" "q \<noteq> 0" using n(1) q inv by (auto simp: knv_inv_def pool_ok_def)
  have kid: "x \<in> set (kids (nd h q)) \<Longrightarrow> x \<noteq> c \<and> par h x = q" for x
    using at(6) [OF q] c(2) n0(2) by (auto simp: link_ok_def)
  show leaf: "is_leaf (nd g q) \<longleftrightarrow> is_leaf (nd h q) \<and> q \<noteq> n"
    using n(2) by (auto simp: is_leaf_def D(2,5,8) insertable_def)
  show "shape_ok (nd g q)"
  proof (cases "q = n")
    case True
    have "\<not> is_folded (nd g n)" using leaf True D(16) by (simp add: is_folded_def IsBufferValid_def)
    then show ?thesis
      using True at(1) [OF n(1)] n(2) len by (auto simp: shape_ok_def D(1,2,5,7,8) insertable_def)
  next
    case False
    then have "is_folded (nd g q) = is_folded (nd h q)" using leaf D(9,10) by (simp add: is_folded_def IsBufferValid_def)
    then show ?thesis using at(1) [OF q] False unfolding shape_ok_def by (simp add: D(1,2,5,7,8,9))
  qed
  show "key_ok g q"
    unfolding key_ok_def
  proof (intro impI)
    assume k: "has_key (nd g q) \<and> \<not> is_leaf (nd g q)"
    then have "has_key (nd h q)" by (simp add: has_key_def D(3,4))
    moreover have "\<not> is_leaf (nd h q)" using k leaf calculation n(2) by (auto simp: insertable_def)
    ultimately obtain m ms where m: "metalist (nd h q) = m # ms" "nd_tag (nd h m) = 1" "is_leaf (nd h m)"
      "nd_type (nd h m) = k_type (nd_key (nd h q))"
      "field_bytes 1 (k_type (nd_key (nd h q))) (nd_val (nd h m)) = field_bytes 1 (k_type (nd_key (nd h q))) (key_GetValue (nd_key (nd h q)))"
      using at(3) [OF q] by (auto simp: key_ok_def)
    have "m \<noteq> n" by (rule key_meta_differs [OF inv q m(1) nm])
    then show "\<exists>m ms. metalist (nd g q) = m # ms \<and> nd_tag (nd g m) = 1 \<and> is_leaf (nd g m) \<and> nd_type (nd g m) = k_type (nd_key (nd g q)) \<and>
        field_bytes 1 (k_type (nd_key (nd g q))) (nd_val (nd g m)) = field_bytes 1 (k_type (nd_key (nd g q))) (key_GetValue (nd_key (nd g q)))"
      using m by (intro exI [of _ m] exI [of _ ms]) (simp add: D(1-5,9) is_leaf_def D(8))
  qed
  show "link_ok g L q"
    using at(6) [OF q] c n kid cl n0 by (auto simp: link_ok_def D(5,6,7))
  show "index_ok g q"
  proof (cases "q = n")
    case True
    then show ?thesis using D(19) set by (simp add: index_ok_def D(7))
  next
    case False
    have "ht_ok g q (set (childlist (nd h q)))"
    proof (rule ht_ok_frame [OF at(7) [OF q, unfolded index_ok_def] D(13) [OF False]])
      fix x assume x: "x \<in> set (childlist (nd h q))"
      then have "x \<notin> insert c (set (childlist (nd h n)))"
        using kid [of x] at(6) [OF n(1)] False by (auto simp: link_ok_def)
      then show "hnext g x = hnext h x \<and> nd_tag (nd g x) = nd_tag (nd h x) \<and> nd_key (nd g x) = nd_key (nd h x)"
        using D(1,3,14) by simp
    qed
    then show ?thesis using False by (simp add: index_ok_def D(7))
  qed
qed

lemma InsertChild_inv:
  assumes inv: "knv_inv h L" and ev: "evaluated h L" and n: "n \<in> L" "insertable (nd h n)" and nm: "not_meta h n"
    and c: "c \<in> L" "par h c = 0" "c \<noteq> n" and ac: "(c, n) \<notin> (edges h L)\<^sup>*"
  shows "\<exists>h'. InsertChild n c True at_tail h = Some (0, h') \<and> knv_inv h' L \<and>
    childlist (nd h' n) = (if at_tail then childlist (nd h n) @ [c] else c # childlist (nd h n))"
proof -
  let ?cl = "if at_tail then childlist (nd h n) @ [c] else c # childlist (nd h n)"
  note at = knv_inv_at [OF inv]
  have L0: "0 \<notin> L" using inv by (simp add: knv_inv_def pool_ok_def)
  have c0: "c \<noteq> 0" "n \<noteq> 0" using c(1) n(1) L0 by metis+
  have cn: "c \<notin> set (childlist (nd h n))" using at(6) [OF n(1)] c(2) c0(2) by (auto simp: link_ok_def)
  have ty: "nd_type (nd h n) = PB_WT_STRING" "0 \<le> child_num (nd h n)" using n(2) by (auto simp: insertable_def)
  have e: "eval_sz (nd h n) = knv_eval_field_length (nd_tag (nd h n)) PB_WT_STRING (len_val (eval_val_sz (nd h n)))"
    using at(2) [OF n(1)] ty by (simp add: size_ok_def Let_def)
  have evs: "0 \<le> eval_sz (nd h q)" if "q \<in> L" for q using ev that by (simp add: evaluated_def)
  obtain g where g: "inserted n c ?cl h g" and run: "InnerInsertChild n c True True at_tail h =
      map_option (Pair 0) (UpdateParentEvalueAndSetDirty n (eval_sz (nd g n) - eval_sz (nd h n)) g)"
    using InnerInsertChild_steps [OF at(7) [OF n(1), unfolded index_ok_def] c0(1) c(3) cn evs [OF n(1)] evs [OF c(1)] ty(1) e refl] by blast
  note D = insertedD [OF g]
  have clc: "?cl = childlist (nd h n) @ [c] \<or> ?cl = c # childlist (nd h n)" by simp
  note loc = inserted_local [OF inv n nm c g clc]
  have pn: "par h n \<noteq> n" using no_self_parent [OF _ at(6) [OF n(1)]] inv c0(2) by (auto simp: knv_inv_def)
  have "\<exists>h'. UpdateParentEvalueAndSetDirty n (eval_sz (nd g n) - eval_sz (nd h n)) g = Some h' \<and> knv_inv h' L \<and> anc_frame L g h'"
  proof (rule ancestors_inv [OF inv _ _ subset_refl n(1)])
    show "pool_ok g L" using inv D(10,13) n(1) unfolding knv_inv_def pool_ok_def D(20,21) by (metis IntI empty_iff)
    have "set ?cl = insert c (set (childlist (nd h n)))" by auto
    then show "acyclic (edges g L)"
      using edges_insert [OF g n(1)] inv ac by (simp add: acyclic_insert knv_inv_def)
  next
    fix q assume q: "q \<in> L"
    show "shape_ok (nd g q) \<and> key_ok g q \<and> link_ok g L q \<and> index_ok g q" using loc(1-4) [OF q] by blast
    have q0: "q \<noteq> 0" using q L0 by metis
    have parn: "par g n = par h n" using D(6) [of n] c(3) by simp
    have sums: "sum_list (map (\<lambda>c. eval_sz (nd g c)) (kids (nd h q))) = sum_list (map (\<lambda>c. eval_sz (nd h c)) (kids (nd h q))) +
        (if q = par h n then eval_sz (nd g n) - eval_sz (nd h n) else 0)"
      by (rule sum_kids [OF at(6) [OF q] at(6) [OF n(1)] q0 D(11)])
    show "size_off g q (if q = par g n then eval_sz (nd g n) - eval_sz (nd h n) else 0)"
    proof (cases "q = n")
      case True
      have "eval_val_sz (nd h n) = sum_list (map (\<lambda>c. eval_sz (nd h c)) (kids (nd h n)))"
        using at(1,2) [OF n(1)] n(2) by (cases "is_leaf (nd h n)")
          (auto simp: size_ok_def Let_def insertable_def str_len_def shape_ok_def is_leaf_def)
      moreover have "sum_list (map (\<lambda>c. eval_sz (nd g c)) (kids (nd g n))) =
          sum_list (map (\<lambda>c. eval_sz (nd g c)) (kids (nd h n))) + eval_sz (nd h c)"
        using D(11) [OF c(3)] by (simp add: D(5,7))
      ultimately show ?thesis
        using True D(17,18) ty pn parn sums loc(5) [OF n(1)] by (simp add: size_off_def Let_def D(1,2))
    next
      case False
      have "is_leaf (nd h q) \<Longrightarrow> q \<noteq> par h n" using parent_not_leaf [OF at(6) [OF n(1)] at(1)] q0 by auto
      then show ?thesis
        using sums False loc(5) [OF q] parn
        by (intro size_off_keep [OF at(2) [OF q]]) (simp_all add: D(1,2,5,7,9,11,12))
    qed
    show "0 \<le> eval_sz (nd g q)" if "q \<noteq> n" using evs [OF q] D(11) [OF that] by simp
    show "dirty_ok g q" if "par g q \<noteq> par g n"
    proof (cases "q = c \<or> par h q = n")
      case True
      then have "par g q = n" using D(6) [of q] by auto
      then show ?thesis using D(15) by (simp add: dirty_ok_def)
    next
      case False
      then have "q \<noteq> n" "par g q = par h q" using that D(6) parn by auto
      then show ?thesis using at(5) [OF q] False D(10) [of q] D(10) [of "par h q"] by (simp add: dirty_ok_def)
    qed
    show "q \<in> L \<and> enc_same (nd h q) (nd g q) \<and> \<not> subnode_dirty (nd h q) \<or> q \<notin> L \<and> is_leaf (nd g q)"
      if "\<not> subnode_dirty (nd g q)"
      using that q D(15) D(10) [of q] by (cases "q = n") (auto simp: enc_same_def D(1,2,5,7,8,9))
  qed
  then obtain h' where h': "UpdateParentEvalueAndSetDirty n (eval_sz (nd g n) - eval_sz (nd h n)) g = Some h'" "knv_inv h' L" "anc_frame L g h'"
    by blast
  have "childlist (nd h' n) = ?cl" using size_same_sel(7) [OF anc_frame_node(1) [OF h'(3)], of n] D(7) [of n] by simp
  moreover have "nd_tag (nd h n) \<noteq> 0" using at(1) [OF n(1)] by (simp add: shape_ok_def)
  ultimately show ?thesis using h'(1,2) run ty c0(1) by (simp add: InsertChild_def)
qed
lemma child_parent: "link_ok h L q \<Longrightarrow> c \<in> set (childlist (nd h q)) \<Longrightarrow> par h c = q"
  by (simp add: link_ok_def)

lemma retag_index:
  assumes inv: "knv_inv h L" and n: "n \<in> L" and nm: "not_meta h n"
  shows "\<exists>h1 h2. parent_remove n h = Some h1 \<and> parent_put n (upd n (\<lambda>x. x\<lparr>nd_tag := t\<rparr>) h1) = Some h2 \<and>
    (\<forall>m. node_same ((nd h m)\<lparr>nd_tag := if m = n then t else nd_tag (nd h m)\<rparr>) (nd h2 m)) \<and>
    np_free h2 = np_free h \<and> np_fresh h2 = np_fresh h \<and> (\<forall>m. m \<notin> L \<longrightarrow> nd_ht (nd h2 m) = nd_ht (nd h m)) \<and>
    (\<forall>q \<in> L. ht_ok h2 q (set (childlist (nd h q))))"
proof -
  note at = knv_inv_at [OF inv]
  have n0: "n \<noteq> 0" using inv n by (auto simp: knv_inv_def pool_ok_def)
  show ?thesis
  proof (cases "par h n = 0")
    case True
    let ?h = "upd n (\<lambda>x. x\<lparr>nd_tag := t\<rparr>) h"
    have "ht_ok ?h q (set (childlist (nd h q)))" if q: "q \<in> L" for q
    proof (rule ht_ok_frame [OF at(7) [OF q, unfolded index_ok_def]])
      fix c assume "c \<in> set (childlist (nd h q))"
      then have "par h c = q" by (rule child_parent [OF at(6) [OF q]])
      moreover have "q \<noteq> 0" using q inv by (auto simp: knv_inv_def pool_ok_def)
      ultimately have "c \<noteq> n" using True by metis
      then show "hnext ?h c = hnext h c \<and> nd_tag (nd ?h c) = nd_tag (nd h c) \<and> nd_key (nd ?h c) = nd_key (nd h c)" by simp
    qed simp
    then show ?thesis using True by (simp add: parent_remove_def parent_put_def node_same_def)
  next
    case False
    let ?p = "par h n"
    let ?S = "set (childlist (nd h ?p))"
    have p: "?p \<in> L" "n \<in> ?S" using at(6) [OF n] nm False by (auto simp: link_ok_def not_meta_def)
    from KnvHt_remove_ok [OF at(7) [OF p(1), unfolded index_ok_def] p(2)] obtain h1 where
      r: "KnvHt_remove h ?p n = Some (0, h1)" "ht_ok h1 ?p (?S - {n})" "ht_same {?p} (?S - {n}) h h1" by blast
    let ?h = "upd n (\<lambda>x. x\<lparr>nd_tag := t\<rparr>) h1"
    have "ht_ok ?h ?p (?S - {n})" by (rule ht_ok_frame [OF r(2)]) auto
    from KnvHt_put_ok [OF this _ n0] obtain h2 where
      u: "KnvHt_put ?h ?p n = Some h2" "ht_ok h2 ?p (insert n (?S - {n}))" "ht_same {?p} (insert n (?S - {n})) ?h h2" by blast
    note s1 = ht_same_sel [OF r(3)] and s2 = ht_same_sel [OF u(3)]
    have same: "node_same ((nd h m)\<lparr>nd_tag := if m = n then t else nd_tag (nd h m)\<rparr>) (nd h2 m)" for m
      unfolding node_same_def by (rule KnvNode.equality) (simp_all add: s1 s2)
    have nx: "hnext h2 m = hnext h m" if "m \<notin> ?S" for m
      using ht_same_next [OF r(3), of m] ht_same_next [OF u(3), of m] that p(2) by auto
    have nh: "nd_ht (nd h2 m) = nd_ht (nd h m)" if "m \<noteq> ?p" for m
      using r(3) u(3) that by (simp add: ht_same_def)
    have "ht_ok h2 q (set (childlist (nd h q)))" if q: "q \<in> L" for q
    proof (cases "q = ?p")
      case True
      then show ?thesis using u(2) p(2) by (simp add: insert_absorb)
    next
      case F: False
      show ?thesis
      proof (rule ht_ok_frame [OF at(7) [OF q, unfolded index_ok_def] nh [OF F]])
        fix c assume "c \<in> set (childlist (nd h q))"
        then have "par h c = q" by (rule child_parent [OF at(6) [OF q]])
        then have "c \<notin> ?S" using child_parent [OF at(6) [OF p(1)], of c] F by auto
        moreover from this have "c \<noteq> n" using p(2) by blast
        ultimately show "hnext h2 c = hnext h c \<and> nd_tag (nd h2 c) = nd_tag (nd h c) \<and> nd_key (nd h2 c) = nd_key (nd h c)"
          using nx node_same_sel(1,4) [OF same] by simp
      qed
    qed
    moreover have "parent_remove n h = Some h1" "parent_put n ?h = Some h2"
      using r(1) u(1) False s1(12) [of n] by (simp_all add: parent_remove_def parent_put_def)
    moreover have "np_free h2 = np_free h" "np_fresh h2 = np_fresh h" using r(3) u(3) by (simp_all add: ht_same_def)
    moreover have "nd_ht (nd h2 m) = nd_ht (nd h m)" if "m \<notin> L" for m using nh [of m] that p(1) by blast
    ultimately show ?thesis using same by blast
  qed
qed
lemma SetTag_inv:
  assumes inv: "knv_inv h L" and ev: "evaluated h L" and n: "n \<in> L" and nm: "not_meta h n" and t: "t \<noteq> 0" "t < 2 ^ 29"
  shows "\<exists>h'. SetTag n t h = Some (0, h') \<and> knv_inv h' L \<and> nd_tag (nd h' n) = t \<and> kids (nd h' n) = kids (nd h n)"
proof -
  note at = knv_inv_at [OF inv]
  have L0: "0 \<notin> L" and ac: "acyclic (edges h L)" using inv by (auto simp: knv_inv_def pool_ok_def)
  obtain h1 h2 where r: "parent_remove n h = Some h1" "parent_put n (upd n (\<lambda>x. x\<lparr>nd_tag := t\<rparr>) h1) = Some h2"
    "np_free h2 = np_free h" "np_fresh h2 = np_fresh h" "\<And>q. q \<in> L \<Longrightarrow> ht_ok h2 q (set (childlist (nd h q)))"
    "\<And>m. m \<notin> L \<Longrightarrow> nd_ht (nd h2 m) = nd_ht (nd h m)"
    "\<And>m. node_same ((nd h m)\<lparr>nd_tag := if m = n then t else nd_tag (nd h m)\<rparr>) (nd h2 m)"
    using retag_index [OF inv n nm, of t] by blast
  let ?x = "nd h n"
  define s where "s = knv_eval_field_length t (nd_type ?x) (if nd_type ?x = PB_WT_STRING then len_val (eval_val_sz ?x) else nd_val ?x)"
  define g where "g = upd n (\<lambda>x. x\<lparr>eval_sz := s, subnode_dirty := True\<rparr>) h2"
  note S = node_same_sel [OF r(7), simplified]
  have D: "nd_type (nd g m) = nd_type (nd h m)" "nd_val (nd g m) = nd_val (nd h m)" "nd_key (nd g m) = nd_key (nd h m)"
    "child_num (nd g m) = child_num (nd h m)" "childlist (nd g m) = childlist (nd h m)" "metalist (nd g m) = metalist (nd h m)"
    "no_key (nd g m) = no_key (nd h m)" "par g m = par h m" "eval_val_sz (nd g m) = eval_val_sz (nd h m)"
    "nd_tag (nd g m) = (if m = n then t else nd_tag (nd h m))" "eval_sz (nd g m) = (if m = n then s else eval_sz (nd h m))"
    "subnode_dirty (nd g m) = (m = n \<or> subnode_dirty (nd h m))" "nd_ht (nd g m) = nd_ht (nd h2 m)" for m
    by (simp_all add: g_def S)
  have leaf: "is_leaf (nd g m) = is_leaf (nd h m)" for m by (simp add: is_leaf_def D)
  have "\<exists>h'. UpdateParentEvalueAndSetDirty n (s - eval_sz ?x) g = Some h' \<and> knv_inv h' L \<and> anc_frame L g h'"
  proof (rule ancestors_inv [OF inv _ _ subset_refl n])
    have fr: "m \<notin> L" if "m \<in> set (np_free h)" for m using inv that by (auto simp: knv_inv_def pool_ok_def)
    have "nd_ht (nd g m) = KnvHt_clear \<and> \<not> subnode_dirty (nd g m)" if "m \<in> set (np_free h)" for m
      using inv fr [OF that] that r(6) [of m] n by (auto simp: knv_inv_def pool_ok_def D)
    moreover have "np_free g = np_free h" "np_fresh g = np_fresh h" using r(3,4) by (simp_all add: g_def)
    ultimately show "pool_ok g L" using inv by (simp add: knv_inv_def pool_ok_def)
    show "acyclic (edges g L)" using ac by (simp add: edges_def D)
  next
    fix q assume q: "q \<in> L"
    have q0: "q \<noteq> 0" using q L0 by metis
    have "is_folded (nd g q) \<Longrightarrow> is_folded (nd h q)" using leaf [of q] by (auto simp: is_folded_def IsBufferValid_def D)
    then have "shape_ok (nd g q)" using at(1) [OF q] t by (auto simp: shape_ok_def D)
    moreover have "key_ok g q"
      unfolding key_ok_def
    proof (intro impI)
      assume k: "has_key (nd g q) \<and> \<not> is_leaf (nd g q)"
      then obtain m ms where m: "metalist (nd h q) = m # ms" "nd_tag (nd h m) = 1" "is_leaf (nd h m)"
        "nd_type (nd h m) = k_type (nd_key (nd h q))"
        "field_bytes 1 (k_type (nd_key (nd h q))) (nd_val (nd h m)) = field_bytes 1 (k_type (nd_key (nd h q))) (key_GetValue (nd_key (nd h q)))"
        using at(3) [OF q] leaf [of q] by (auto simp: key_ok_def has_key_def D)
      have "m \<noteq> n" by (rule key_meta_differs [OF inv q m(1) nm])
      then show "\<exists>m ms. metalist (nd g q) = m # ms \<and> nd_tag (nd g m) = 1 \<and> is_leaf (nd g m) \<and> nd_type (nd g m) = k_type (nd_key (nd g q)) \<and>
          field_bytes 1 (k_type (nd_key (nd g q))) (nd_val (nd g m)) = field_bytes 1 (k_type (nd_key (nd g q))) (key_GetValue (nd_key (nd g q)))"
        using m leaf by (intro exI [of _ m] exI [of _ ms]) (simp add: D)
    qed
    moreover have "link_ok g L q" using at(6) [OF q] by (simp add: link_ok_def D)
    moreover have "index_ok g q"
      unfolding index_ok_def D by (rule ht_ok_frame [OF r(5) [OF q]]) (simp_all add: g_def)
    ultimately show "shape_ok (nd g q) \<and> key_ok g q \<and> link_ok g L q \<and> index_ok g q" by blast
    have sums: "sum_list (map (\<lambda>c. eval_sz (nd g c)) (kids (nd h q))) = sum_list (map (\<lambda>c. eval_sz (nd h c)) (kids (nd h q))) +
        (if q = par h n then eval_sz (nd g n) - eval_sz (nd h n) else 0)"
      by (rule sum_kids [OF at(6) [OF q] at(6) [OF n] q0]) (simp add: D)
    have pl: "is_leaf (nd h q) \<Longrightarrow> q \<noteq> par h n" using parent_not_leaf [OF at(6) [OF n] at(1)] q0 by auto
    show "size_off g q (if q = par g n then s - eval_sz ?x else 0)"
    proof (cases "q = n")
      case True
      have "par h n \<noteq> n" using no_self_parent [OF ac at(6) [OF n]] q0 True by metis
      then show ?thesis
        using True at(2) [OF n] sums leaf [of n] by (auto simp: size_off_def size_ok_def Let_def D s_def)
    next
      case False
      then show ?thesis
        using sums pl leaf [of q] by (intro size_off_keep [OF at(2) [OF q]]) (simp_all add: D)
    qed
    show "0 \<le> eval_sz (nd g q)" if "q \<noteq> n" using ev q that by (simp add: evaluated_def D)
    show "dirty_ok g q" if "par g q \<noteq> par g n"
      using at(5) [OF q] that by (auto simp: dirty_ok_def D)
    show "q \<in> L \<and> enc_same (nd h q) (nd g q) \<and> \<not> subnode_dirty (nd h q) \<or> q \<notin> L \<and> is_leaf (nd g q)"
      if "\<not> subnode_dirty (nd g q)"
      using that q by (auto simp: enc_same_def D)
  qed
  then obtain h' where h': "UpdateParentEvalueAndSetDirty n (s - eval_sz ?x) g = Some h'" "knv_inv h' L" "anc_frame L g h'" by blast
  note sel = size_same_sel [OF anc_frame_node(1) [OF h'(3)]]
  have "nd_tag (nd h' n) = t" "kids (nd h' n) = kids (nd h n)" by (simp_all add: sel D)
  moreover have "0 \<le> eval_sz ?x" using ev n by (simp add: evaluated_def)
  moreover have "SetTag n t h = map_option (Pair 0) (UpdateParentEvalueAndSetDirty n (s - eval_sz ?x) g)"
    using r(1,2) t(1) at(1) [OF n] calculation(3) S [of n]
    by (simp add: SetTag_def Let_def shape_ok_def g_def s_def)
  ultimately show ?thesis using h'(1,2) by simp
qed
section \<open>An example: a table with freed nodes\<close>

text \<open>A tree with one child is built, read as a value (which folds it) and searched again. The heaps of the
  single steps are given in full.\<close>

definition knv_empty :: knv_heap where
  "knv_empty = \<lparr>nd = \<lambda>_. KnvNode_construct, np_free = [], np_fresh = 1\<rparr>"

lemmas flen_eval = knv_eval_field_length_def pb_eval_field_length_def pb_eval_tag_length_def pb_eval_vint_length_def
  vint_length_loop.simps tag_word_def wire_num_def len_val_def val_i32_def s32_def

definition root_new :: KnvNode where
  "root_new = KnvNode_construct\<lparr>nd_tag := 20, child_num := 0, eval_sz := 3\<rparr>"

definition stale_new :: knv_heap where
  "stale_new = \<lparr>nd = (\<lambda>_. KnvNode_construct)(1 := root_new), np_free = [], np_fresh = 2\<rparr>"

lemma stale_1: "NewTree 20 None knv_empty = Some (1, stale_new)"
  by (simp add: NewTree_def KnvNode_New_def np_New_def InitNode_def Let_def upd_def InitChildList_def key_init_def KnvNode_construct_def
     flen_eval stale_new_def knv_empty_def root_new_def)

definition child_int :: KnvNode where
  "child_int = KnvNode_construct\<lparr>nd_tag := 12, nd_type := PB_WT_VARINT, nd_val := \<lparr>val_i64 = 7, val_data = []\<rparr>, child_num := 0,
   no_key := True, nd_parent := 1, eval_sz := 2\<rparr>"

definition table_one :: KnvHt where
  "table_one = \<lparr>ht_nr = 1, ht_sz = 32, ht_bm = (\<lambda>_. False)(12 := True), ht_slot = (\<lambda>_. 0)(12 := 2)\<rparr>"

definition root_built :: KnvNode where
  "root_built = KnvNode_construct\<lparr>nd_tag := 20, child_num := 1, eval_sz := 5, eval_val_sz := 2, subnode_dirty := True,
   childlist := [2], nd_ht := table_one\<rparr>"

definition stale_built :: knv_heap where
  "stale_built = \<lparr>nd = (\<lambda>_. KnvNode_construct)(1 := root_built, 2 := child_int), np_free = [], np_fresh = 3\<rparr>"

lemma hash12: "get_keyhash 12 [] 32 = 12" by (simp add: get_keyhash_def)

lemma stale_2: "InsertIntLeaf 1 12 7 stale_new = Some (2, stale_built)"
  apply (simp add: InsertIntLeaf_def InsertChild_new_def KnvNode_New_def np_New_def InitNode_def Let_def upd_def InitChildList_def key_init_def KnvNode_construct_def
     flen_eval stale_new_def root_new_def InsertChild_def InnerInsertChild_def INSERT_CHILD_def KnvHt_put_def KnvHt_clear_def KNV_DEFAULT_HT_SIZE_def
     ht_push_def hash12 EvaluateSize.simps finish_change_def adjust_eval_def UPDATE_EVAL_SZ_def SET_VALUE_DIRTY_def 
     UpdateParentEvalueAndSetDirty_def update_loop.simps set_i32_def)
  apply (simp add: stale_built_def root_built_def child_int_def table_one_def KnvNode_construct_def fun_eq_iff KnvHt_clear_def KNV_DEFAULT_HT_SIZE_def)
  done

definition child_freed :: KnvNode where
  "child_freed = KnvNode_construct\<lparr>nd_type := PB_WT_VARINT, no_key := True, nd_parent := 1, eval_sz := 2\<rparr>"

definition root_folded :: KnvNode where
  "root_folded = KnvNode_construct\<lparr>nd_tag := 20, nd_val := \<lparr>val_i64 = 2, val_data = [96, 7]\<rparr>, eval_sz := 5, eval_val_sz := 2, nd_ht := table_one\<rparr>"

definition stale_folded :: knv_heap where
  "stale_folded = \<lparr>nd = (\<lambda>_. KnvNode_construct)(1 := root_folded, 2 := child_freed), np_free = [2], np_fresh = 3\<rparr>"

lemmas enc_eval = knv_add_field_val_def pb_add_field_val_def pb_add_tag_def pb_add_vint_def vint_buffer_def vint_loop.simps
  tag_word_def wire_num_def pb_add_def usz_def knv_init_buff_def pb_init_buff_def s32_def val_i32_def

lemma buffer_size_5: "buffer_size 5 = 64"
  by (simp add: buffer_size_def usz_def biggest_magic_def pool_object_def GetAllocSize_def get_magic_def nr_magics_def magics_def magic_search.simps)

lemma ser_child: "Serialize 2 64 True stale_built = Some (0, [96, 7], stale_built)"
  by (subst Serialize.simps) (simp add: Let_def stale_built_def child_int_def is_folded_def is_leaf_def enc_eval)

lemma ser_root: "Serialize 1 64 False stale_built = Some (0, [96, 7], stale_built)"
proof -
  have "nd stale_built 1 = root_built" by (simp add: stale_built_def)
  moreover have "EvaluateSize 1 stale_built = Some (5, stale_built)" by (subst EvaluateSize.simps) (simp add: stale_built_def root_built_def Let_def)
  moreover have "\<not> is_folded root_built" "rest_metas stale_built 1 = []" "has_key root_built = False"
    by (simp_all add: root_built_def is_folded_def is_leaf_def IsBufferValid_def KnvNode_construct_def val_i32_def rest_metas_def stale_built_def has_key_def)
  ultimately show ?thesis
    by (subst Serialize.simps) (simp add: ser_child Let_def root_built_def enc_eval)
qed

lemma stale_3: "KnvNode_GetValue 1 stale_built = Some (Some \<lparr>val_i64 = 2, val_data = [96, 7]\<rparr>, stale_folded)"
proof -
  have n1: "nd stale_built 1 = root_built" by (simp add: stale_built_def)
  have e: "EvaluateSize 1 stale_built = Some (5, stale_built)" by (subst EvaluateSize.simps) (simp add: stale_built_def root_built_def Let_def)
  have nf: "\<not> is_folded root_built"
    by (simp add: root_built_def is_folded_def is_leaf_def IsBufferValid_def KnvNode_construct_def val_i32_def)
  have "Fold 1 stale_built = Some (0, stale_folded)"
    unfolding Fold_def n1 
    apply (simp del: One_nat_def add: nf e buffer_size_5 ser_root n1 Let_def drop_metas_def drop_children_def np_DeleteAll_def)
    apply (simp add: root_built_def upd_def stale_built_def ReleaseObject_def child_int_def ReleaseKnvNodeList_def release_loop.simps ReleaseNode_def KnvNode_construct_def set_i32_def)
    apply (simp add: stale_folded_def root_folded_def child_freed_def fun_eq_iff KnvNode_construct_def table_one_def)
    done
  then show ?thesis by (simp add: KnvNode_GetValue_def stale_folded_def root_folded_def)
qed

definition child_again :: KnvNode where
  "child_again = child_int\<lparr>ht_next := 2\<rparr>"

definition table_again :: KnvHt where
  "table_again = table_one\<lparr>ht_nr := 2\<rparr>"

definition root_again :: KnvNode where
  "root_again = root_folded\<lparr>child_num := 1, childlist := [2], nd_ht := table_again\<rparr>"

definition stale_again :: knv_heap where
  "stale_again = \<lparr>nd = (\<lambda>_. KnvNode_construct)(1 := root_again, 2 := child_again), np_free = [], np_fresh = 3\<rparr>"

definition child_field :: pb_field where
  "child_field = \<lparr>pf_tag = 12, pf_eom = False, pf_type = PB_WT_VARINT, pf_val = \<lparr>val_i64 = 7, val_data = []\<rparr>, pf_ptr = [], pf_left = 0\<rparr>"

lemma stale_begin: "knv_begin field0 [96, 7] 2 = (True, child_field)"
  by (simp add: knv_begin_def pb_begin_def pb_decode_tag_def pb_decode_varint_def varint_loop.simps pb_get_byte_def field0_def
    val_i32_def wire_of_def pb_decode_body_def child_field_def)

lemma stale_next: "knv_next child_field = (False, child_field\<lparr>pf_eom := True\<rparr>)"
  by (simp add: knv_next_def pb_next_def pb_decode_tag_def pb_decode_varint_def varint_loop.simps pb_get_byte_def child_field_def)

lemma stale_expand: "Expand 1 stale_folded = Some (0, stale_again)"
proof -
  have v: "str_bytes \<lparr>val_i64 = 2, val_data = [96, 7]\<rparr> = [96, 7]" "str_len \<lparr>val_i64 = 2, val_data = [96, 7]\<rparr> = 2"
    by (simp_all add: str_bytes_def str_len_def val_i32_def s32_def)
  have "expand_loop 1 False 2 child_field (upd 1 (\<lambda>x. (InitChildList 0 x)\<lparr>child_has_key := False\<rparr>) stale_folded) = Some stale_again"
    apply (subst expand_loop.simps)
    apply (simp add: stale_next)
    apply (simp add: child_field_def UC_MAX_META_NUM_def expand_child_def np_New_def stale_folded_def InitChildList_def InitNode_def Let_def upd_def key_init_def
      child_freed_def root_folded_def KnvNode_construct_def KnvHt_put_def ht_push_def hash12 table_one_def expand_end_def)
    apply (simp add: stale_again_def root_again_def child_again_def child_int_def fun_eq_iff KnvNode_construct_def table_one_def table_again_def root_folded_def)
    done
  then show ?thesis
    by (simp del: One_nat_def add: Expand_def InnerExpand_def stale_folded_def root_folded_def KnvNode_construct_def v stale_begin Let_def)
qed

lemma stale_4: "FindChild 1 44 [] stale_folded = None"
proof -
  have "ht_find stale_again 44 [] 2 = None"
    by (rule ht_find_circular [where C = "{2}"]) (auto simp: stale_again_def child_again_def child_int_def IsMatch_iff)
  moreover have "get_keyhash 44 [] 32 = 12" by (simp add: get_keyhash_def)
  moreover have "nd_ht (nd stale_again 1) = table_again" "child_num (nd stale_again 1) = 1" by (simp_all add: stale_again_def root_again_def)
  ultimately have "KnvHt_get stale_again 1 44 [] = None" by (simp add: KnvHt_get_def table_again_def table_one_def)
  moreover have "nd_tag (nd stale_folded 1) = 20" "child_num (nd stale_again 1) = 1" by (simp_all add: stale_folded_def root_folded_def stale_again_def root_again_def)
  ultimately show ?thesis by (simp del: One_nat_def add: FindChild_def stale_expand)
qed

lemma root_built_sel: "nd_tag root_built = 20" "nd_type root_built = PB_WT_STRING" "child_num root_built = 1" "childlist root_built = [2]"
  "metalist root_built = []" "eval_sz root_built = 5" "eval_val_sz root_built = 2" "subnode_dirty root_built" "nd_parent root_built = 0"
  "nd_ht root_built = table_one" "\<not> IsBufferValid root_built" "k_val (nd_key root_built) = []" "is_leaf root_built = False"
  "has_key root_built = False"
  by (simp_all add: root_built_def KnvNode_construct_def IsBufferValid_def val_i32_def is_leaf_def has_key_def)

lemma child_int_sel: "nd_tag child_int = 12" "nd_type child_int = PB_WT_VARINT" "child_num child_int = 0" "childlist child_int = []"
  "metalist child_int = []" "eval_sz child_int = 2" "nd_val child_int = \<lparr>val_i64 = 7, val_data = []\<rparr>" "subnode_dirty child_int = False"
  "nd_parent child_int = 1" "nd_ht child_int = KnvHt_clear" "k_val (nd_key child_int) = []" "is_leaf child_int = True"
  "has_key child_int = False" "ht_next child_int = 0"
  by (simp_all add: child_int_def KnvNode_construct_def is_leaf_def has_key_def)

lemma built_nd: "nd stale_built 1 = root_built" "nd stale_built 2 = child_int"
  by (simp_all add: stale_built_def)

lemmas built_sel = built_nd root_built_sel child_int_sel

lemma built_index: "index_ok stale_built 1" "index_ok stale_built 2"
proof -
  let ?c = "(\<lambda>_. [])(12 := [2]) :: nat \<Rightarrow> nat list"
  have nodes: "ht_nodes ?c = {2}" by (auto simp: ht_nodes_def split: if_splits)
  have "ht_rep stale_built table_one ?c"
    unfolding ht_rep_def
  proof (intro conjI allI ballI)
    fix c hi :: nat assume "c \<in> set (?c hi)"
    then have "c = 2" "hi = 12" by (auto split: if_splits)
    then show "node_hash stale_built c (ht_sz table_one) = hi"
      using hash12 by (simp add: built_sel table_one_def)
  next
    show "ht_nr table_one = int (card (ht_nodes ?c))" by (simp add: nodes table_one_def)
  qed (auto simp: table_one_def built_sel)
  then show "index_ok stale_built 1"
    unfolding index_ok_def ht_ok_def using nodes by (intro exI [of _ ?c]) (simp add: built_sel del: One_nat_def)
  show "index_ok stale_built 2"
    unfolding index_ok_def using ht_clear_ok [of stale_built 2] by (simp add: built_sel)
qed

lemma built_inv: "knv_inv stale_built {1, 2}"
proof -
  have e: "edges stale_built {1, 2} = {(1, 2)}" by (auto simp: edges_def built_sel simp del: One_nat_def)
  have ac: "acyclic (edges stale_built {1, 2})" unfolding e by (simp add: acyclic_insert) (simp add: acyclic_def)
  have pool: "pool_ok stale_built {1, 2}" by (simp add: pool_ok_def stale_built_def)
  have n1: "shape_ok root_built \<and> size_ok stale_built 1 \<and> key_ok stale_built 1 \<and> clean_ok stale_built 1 \<and> dirty_ok stale_built 1 \<and>
    link_ok stale_built {1, 2} 1"
    by (simp add: shape_ok_def size_ok_def key_ok_def clean_ok_def dirty_ok_def link_ok_def is_folded_def built_sel del: One_nat_def)
      (simp add: flen_eval)
  have n2: "shape_ok child_int \<and> size_ok stale_built 2 \<and> key_ok stale_built 2 \<and> clean_ok stale_built 2 \<and> dirty_ok stale_built 2 \<and>
    link_ok stale_built {1, 2} 2"
    by (simp add: shape_ok_def size_ok_def key_ok_def clean_ok_def dirty_ok_def link_ok_def built_sel del: One_nat_def)
      (simp add: flen_eval)
  show ?thesis
    unfolding knv_inv_def using pool ac n1 n2 built_index built_nd by (simp del: One_nat_def)
qed

lemma built_evaluated: "evaluated stale_built {1, 2}"
  by (simp add: evaluated_def built_sel del: One_nat_def)

section \<open>Properties\<close>

text \<open>(C26) Serialisation is exact. Every node of a tree that satisfies the invariant stands for a unique byte string,
  its reference encoding, and when that is shorter than 2 GB the cached size is its length and \<open>Serialize\<close>, which
  trusts cached sizes, folded buffers and dirty flags, returns 0 and writes exactly this string.\<close>

theorem Serialize_exact:
  assumes "knv_inv h L" "n \<in> L"
  shows "\<exists>bs. (\<forall>x. knv_enc h n x \<longleftrightarrow> x = bs) \<and> (length bs < 2 ^ 31 \<longrightarrow>
    EvaluateSize n h = Some (int (length bs), h) \<and> Serialize_string n h = Some (0, bs, h))"
proof -
  obtain bs where bs: "knv_enc h n bs" using knv_enc_exists [OF assms] by blast
  have "EvaluateSize n h = Some (int (length bs), h)" if "length bs < 2 ^ 31"
    using EvaluateSize_cached [of h n] enc_size [OF assms(1) bs assms(2) that] by simp
  then show ?thesis
    using bs knv_enc_unique [OF bs] Serialize_string_enc [OF assms bs] by (intro exI [of _ bs]) blast
qed

theorem Serialize_exact_witness: "Serialize_string 1 stale_built = Some (0, [162, 1, 2, 96, 7], stale_built)"
proof -
  have "knv_enc stale_built 2 [96, 7]"
    by (rule enc_leaf) (simp_all add: built_sel field_bytes_def enc_eval)
  moreover have "head_bytes 20 (Suc (Suc 0)) = [162, 1, 2]" by (simp add: head_bytes_def enc_eval)
  ultimately have "knv_enc stale_built 1 [162, 1, 2, 96, 7]"
    by (intro enc_node [where bss = "[[96, 7]]"]) (simp_all add: built_sel del: One_nat_def)
  moreover obtain bs where "\<forall>x. knv_enc stale_built 1 x \<longleftrightarrow> x = bs"
    "length bs < 2 ^ 31 \<longrightarrow> EvaluateSize 1 stale_built = Some (int (length bs), stale_built) \<and>
       Serialize_string 1 stale_built = Some (0, bs, stale_built)"
    using Serialize_exact [OF built_inv, of 1] by blast
  moreover have "length ([162, 1, 2, 96, 7] :: byte list) < 2 ^ 31" by simp
  ultimately show ?thesis by metis
qed

text \<open>(C27) Operations that change a tree in place keep the invariant, and with it the exactness of later serialisations: \<open>SetValue\<close> of a
  number on a node that has a number, \<open>SetValue\<close> of a string shorter than 2 GB on a string without children that has no key field,
  \<open>SetTag\<close>, and \<open>InsertChild\<close> at the front or at the end of the children of a node that is already expanded (or is an empty message), for
  a tree that the node is not in. The nodes have their sizes and none is the meta node of another one. Each operation reaches all
  ancestors: sizes are adjusted and folded buffers invalidated up to the root. In the other cases the code does not keep
  the invariant: a string over an expanded message leaves the old children in the hash table, a string with a key field changes the
  key before it is compared, and a child under a string that is not a message leaves the old length in the size.\<close>

theorem tree_ops_inv:
  assumes "knv_inv h L" "evaluated h L" "n \<in> L" "not_meta h n"
  shows "(nd_type (nd h n) \<noteq> PB_WT_STRING \<longrightarrow>
       (\<exists>h'. SetValue n (nd_type (nd h n)) v h = Some (0, h') \<and> knv_inv h' L \<and> val_i64 (nd_val (nd h' n)) = val_i64 v)) \<and>
    (nd_type (nd h n) = PB_WT_STRING \<and> is_leaf (nd h n) \<and> \<not> has_key (nd h n) \<and> length (str_bytes v) < 2 ^ 31 \<longrightarrow>
       (\<exists>h'. SetValue n PB_WT_STRING v h = Some (0, h') \<and> knv_inv h' L \<and> str_bytes (nd_val (nd h' n)) = str_bytes v)) \<and>
    (t \<noteq> 0 \<and> t < 2 ^ 29 \<longrightarrow> (\<exists>h'. SetTag n t h = Some (0, h') \<and> knv_inv h' L \<and> nd_tag (nd h' n) = t)) \<and>
    (insertable (nd h n) \<and> c \<in> L \<and> c \<noteq> n \<and> nd_parent (nd h c) = 0 \<and> (c, n) \<notin> (edges h L)\<^sup>* \<longrightarrow>
       (\<exists>h'. InsertChild n c True at_tail h = Some (0, h') \<and> knv_inv h' L \<and>
          childlist (nd h' n) = (if at_tail then childlist (nd h n) @ [c] else c # childlist (nd h n))))"
proof (intro conjI impI)
  show "\<exists>h'. SetValue n (nd_type (nd h n)) v h = Some (0, h') \<and> knv_inv h' L \<and> val_i64 (nd_val (nd h' n)) = val_i64 v"
    if "nd_type (nd h n) \<noteq> PB_WT_STRING"
    using SetValue_int_inv [OF assms(1-3) that assms(4), of "val_i64 v"] that unfolding SetValue_def by auto
  show "\<exists>h'. SetValue n PB_WT_STRING v h = Some (0, h') \<and> knv_inv h' L \<and> str_bytes (nd_val (nd h' n)) = str_bytes v"
    if "nd_type (nd h n) = PB_WT_STRING \<and> is_leaf (nd h n) \<and> \<not> has_key (nd h n) \<and> length (str_bytes v) < 2 ^ 31"
    using SetValue_str_inv [OF assms(1-3) _ assms(4), of "str_bytes v"] that unfolding SetValue_def by auto
  show "\<exists>h'. SetTag n t h = Some (0, h') \<and> knv_inv h' L \<and> nd_tag (nd h' n) = t" if "t \<noteq> 0 \<and> t < 2 ^ 29"
    using SetTag_inv [OF assms, of t] that by blast
  show "\<exists>h'. InsertChild n c True at_tail h = Some (0, h') \<and> knv_inv h' L \<and>
          childlist (nd h' n) = (if at_tail then childlist (nd h n) @ [c] else c # childlist (nd h n))"
    if "insertable (nd h n) \<and> c \<in> L \<and> c \<noteq> n \<and> nd_parent (nd h c) = 0 \<and> (c, n) \<notin> (edges h L)\<^sup>*"
    using InsertChild_inv [OF assms(1-3) _ assms(4), of c at_tail] that by simp
qed

theorem tree_ops_inv_witness:
  "\<exists>h'. SetValue 2 PB_WT_VARINT \<lparr>val_i64 = 300, val_data = []\<rparr> stale_built = Some (0, h') \<and> knv_inv h' {1, 2} \<and> val_i64 (nd_val (nd h' 2)) = 300"
proof -
  have "not_meta stale_built 2" "nd_type (nd stale_built 2) = PB_WT_VARINT"
    by (simp_all add: not_meta_def built_sel del: One_nat_def)
  then show ?thesis using tree_ops_inv [OF built_inv built_evaluated, of 2 "\<lparr>val_i64 = 300, val_data = []\<rparr>"] by auto
qed

text \<open>(C28) Folding a node keeps its hash table, although the children in it are released. When the node is expanded
  again the pool hands out the same nodes, \<open>put\<close> links a node in front of itself, and a search for a child that does
  not exist but has the same hash never ends: here in a tree with one child, read once with \<open>GetValue\<close>.\<close>

theorem fold_lookup_diverges:
  "\<exists>h1 h2 h3 v. NewTree 20 None knv_empty = Some (1, h1) \<and> InsertIntLeaf 1 12 7 h1 = Some (2, h2) \<and>
     KnvNode_GetValue 1 h2 = Some (Some v, h3) \<and> FindChild 1 44 [] h3 = None"
  using stale_1 stale_2 stale_3 stale_4 by blast

end
