(* ===== verification/Knv_Expand.thy ===== *)
theory Knv_Expand
  imports Knv_Tree
begin

text \<open>
  Expansion of a message into nodes (\<open>InnerExpand\<close>, \<open>NewFromMessage\<close> of \<open>knv/knv_node.cc\<close>) and the access to its
  fields: for every byte string that the decoder accepts, whatever its fields, there is one node for each field, in
  order, and the accessors by tag return the values of the fields.
\<close>

section \<open>The node pool\<close>

lemma np_New_ok:
  assumes "pool_ok h L" "np_New h = (c, h')"
  shows "c \<notin> L" "c \<noteq> 0" "pool_ok h' (insert c L)" "\<And>m. m \<noteq> c \<Longrightarrow> nd h' m = nd h m"
    "nd_ht (nd h' c) = KnvHt_clear" "\<not> subnode_dirty (nd h' c)"
proof -
  have D: "finite L" "0 \<notin> L" "0 \<notin> set (np_free h)" "distinct (np_free h)" "set (np_free h) \<inter> L = {}" "0 < np_fresh h"
    "\<forall>n \<in> set (np_free h) \<union> L. n < np_fresh h"
    "\<forall>n \<in> set (np_free h). nd_ht (nd h n) = KnvHt_clear \<and> \<not> subnode_dirty (nd h n)"
    using assms(1) unfolding pool_ok_def by simp_all
  have "c \<notin> L \<and> c \<noteq> 0 \<and> pool_ok h' (insert c L) \<and> (\<forall>m. m \<noteq> c \<longrightarrow> nd h' m = nd h m) \<and>
    nd_ht (nd h' c) = KnvHt_clear \<and> \<not> subnode_dirty (nd h' c)"
  proof (cases "np_free h")
    case Nil
    then have c: "c = np_fresh h" and h': "h' = h\<lparr>nd := (nd h)(np_fresh h := KnvNode_construct), np_fresh := np_fresh h + 1\<rparr>"
      using assms(2) by (auto simp: np_New_def)
    have "c \<notin> L" using D(7) c by auto
    moreover have "\<forall>n \<in> insert c L. n < np_fresh h + 1" using D(7) c by (auto simp: less_Suc_eq)
    ultimately show ?thesis using D(1,2,6) Nil c by (simp add: h' pool_ok_def KnvNode_construct_def)
  next
    case (Cons i fs)
    then have c: "c = i" and h': "h' = h\<lparr>np_free := fs\<rparr>" using assms(2) by (simp_all add: np_New_def)
    show ?thesis using D Cons by (auto simp: h' c pool_ok_def)
  qed
  then show "c \<notin> L" "c \<noteq> 0" "pool_ok h' (insert c L)" "\<And>m. m \<noteq> c \<Longrightarrow> nd h' m = nd h m"
    "nd_ht (nd h' c) = KnvHt_clear" "\<not> subnode_dirty (nd h' c)" by simp_all
qed

lemma pool_ok_frame:
  assumes "pool_ok h L" "np_free h' = np_free h" "np_fresh h' = np_fresh h" "\<And>q. q \<notin> L \<Longrightarrow> nd h' q = nd h q"
  shows "pool_ok h' L"
proof -
  have "\<And>q. q \<in> set (np_free h) \<Longrightarrow> nd h' q = nd h q" using assms(1,4) by (auto simp: pool_ok_def)
  then show ?thesis using assms(1-3) by (simp add: pool_ok_def)
qed

text \<open>No node gets lost between two states: those that were free or were made since are free or in \<open>K\<close>.\<close>

definition pool_keeps :: "knv_heap \<Rightarrow> knv_heap \<Rightarrow> nat set \<Rightarrow> bool" where
  "pool_keeps h g K \<longleftrightarrow> set (np_free h) \<subseteq> set (np_free g) \<union> K \<and> (\<forall>q. np_fresh h \<le> q \<and> q < np_fresh g \<longrightarrow> q \<in> set (np_free g) \<union> K)"

lemma pool_keeps_refl [simp]: "pool_keeps g g K"
  by (auto simp: pool_keeps_def)

lemma pool_keeps_upd [simp]: "pool_keeps h (upd n f g) K = pool_keeps h g K"
  by (simp add: pool_keeps_def)

lemma pool_keeps_frame:
  "pool_keeps h g K \<Longrightarrow> np_free g' = np_free g \<Longrightarrow> np_fresh g' = np_fresh g \<Longrightarrow> pool_keeps h g' K"
  by (simp add: pool_keeps_def)

lemma pool_keeps_trans: "pool_keeps a b K \<Longrightarrow> pool_keeps b c M \<Longrightarrow> pool_keeps a c (K \<union> M)"
  by (auto simp: pool_keeps_def) (metis UnE linorder_not_le subsetD)

lemma pool_keeps_New: "np_New g = (c, g') \<Longrightarrow> pool_keeps g g' {c}"
  by (auto simp: pool_keeps_def np_New_def split: list.splits)

lemma pool_ok_upd: "pool_ok h L \<Longrightarrow> n \<in> L \<Longrightarrow> pool_ok (upd n f h) L"
  by (rule pool_ok_frame) auto

lemma pool_ok_same:
  assumes "pool_ok h L" "ht_same P A h h'" "P \<subseteq> L"
  shows "pool_ok h' L"
proof -
  have s: "np_free h' = np_free h" "np_fresh h' = np_fresh h" using assms(2) by (simp_all add: ht_same_def)
  have "nd_ht (nd h' m) = nd_ht (nd h m)" "subnode_dirty (nd h' m) = subnode_dirty (nd h m)" if "m \<in> set (np_free h)" for m
  proof -
    have "m \<notin> P" using assms(1,3) that by (auto simp: pool_ok_def)
    then show "nd_ht (nd h' m) = nd_ht (nd h m)" using assms(2) by (simp add: ht_same_def)
    show "subnode_dirty (nd h' m) = subnode_dirty (nd h m)" by (rule ht_same_sel(9) [OF assms(2)])
  qed
  then show ?thesis using assms(1) by (simp add: pool_ok_def s)
qed

section \<open>Nodes of fields\<close>

definition val_view :: "pb_wire_type \<Rightarrow> pb_val \<Rightarrow> u64 + byte list" where
  "val_view ty v = (if ty = PB_WT_STRING then Inr (str_bytes v) else Inl (val_i64 v))"

text \<open>A string value that begins with a field; the node of such a value counts as not expanded.\<close>

definition is_message :: "pb_val \<Rightarrow> bool" where
  "is_message v \<longleftrightarrow> val_i32 v \<noteq> 0 \<and> fst (knv_begin field0 (str_bytes v) (str_len v))"

definition kid_ok :: "knv_heap \<Rightarrow> nat \<Rightarrow> nat \<Rightarrow> u32 \<times> pb_wire_type \<times> pb_val \<Rightarrow> bool" where
  "kid_ok h n c f \<longleftrightarrow> (case f of (t, ty, v) \<Rightarrow> let x = nd h c in
     nd_tag x = t \<and> nd_type x = ty \<and> val_view ty (nd_val x) = val_view ty v \<and> nd_parent x = n \<and>
     (ty = PB_WT_STRING \<longrightarrow> val_i32 (nd_val x) = val_i32 v \<and> (is_message v \<longrightarrow> child_num x = -1)) \<and>
     child_num x \<in> {-1, 0} \<and> childlist x = [] \<and> metalist x = [] \<and> nd_ht x = KnvHt_clear \<and> \<not> subnode_dirty x)"

lemma kid_ok_cong:
  assumes "kid_ok h n c f" "node_same (nd h c) (nd h' c)" "nd_ht (nd h' c) = nd_ht (nd h c)"
  shows "kid_ok h' n c f"
  using assms(1,3) node_same_sel [OF assms(2)] by (simp add: kid_ok_def Let_def split: prod.splits)

lemma str_bytes_set: "str_bytes (set_i32 i v\<lparr>val_data := d\<rparr>) = take (unat i) d"
  using val_i32_set_i32 [of i v] by (simp add: str_bytes_def val_i32_def)

lemma InitNode_other [simp]: "m \<noteq> c \<Longrightarrow> nd (InitNode c t ty v ue sz fnk h) m = nd h m"
  by (simp add: InitNode_def)

lemma InitNode_pool [simp]:
  "np_free (InitNode c t ty v ue sz fnk h) = np_free h" "np_fresh (InitNode c t ty v ue sz fnk h) = np_fresh h"
  by (simp_all add: InitNode_def)

lemma init_key_num: "init_key v fnk = (k, j) \<Longrightarrow> j = -1 \<or> j = 0"
  by (simp add: init_key_def split: prod.splits if_splits)

lemma InitNode_self:
  assumes "h' = InitNode c t ty (Some v) True sz fnk h"
  shows "nd_tag (nd h' c) = t" "nd_type (nd h' c) = ty" "val_view ty (nd_val (nd h' c)) = val_view ty v"
    "child_num (nd h' c) \<in> {-1, 0}" "childlist (nd h' c) = []" "metalist (nd h' c) = []"
    "nd_ht (nd h' c) = nd_ht (nd h c)" "subnode_dirty (nd h' c) = subnode_dirty (nd h c)" "nd_parent (nd h' c) = 0"
  by (auto simp: assms InitNode_def InitChildList_def Let_def val_view_def str_bytes_def
      dest!: init_key_num split: prod.splits)

lemma InitNode_message:
  assumes "h' = InitNode c t PB_WT_STRING (Some v) True sz fnk h"
  shows "val_i32 (nd_val (nd h' c)) = val_i32 v" "is_message v \<Longrightarrow> child_num (nd h' c) = -1"
proof -
  let ?v = "(set_i32 (val_i32 v) (nd_val (nd h c)))\<lparr>val_data := val_data v\<rparr>"
  have i: "val_i32 ?v = val_i32 v" using val_i32_set_i32 [of "val_i32 v" "nd_val (nd h c)"] by (simp add: val_i32_def)
  then show "val_i32 (nd_val (nd h' c)) = val_i32 v" by (simp add: assms InitNode_def InitChildList_def Let_def split: prod.split)
  have v: "str_bytes ?v = str_bytes v" "str_len ?v = str_len v" using i by (simp_all add: str_bytes_def str_len_def)
  assume m: "is_message v"
  then have "str_len v \<noteq> 0" using word_of_str_len [of v] by (auto simp: is_message_def)
  then show "child_num (nd h' c) = -1"
    using m v by (auto simp: assms InitNode_def InitChildList_def Let_def is_message_def init_key_def split: prod.splits)
qed

lemma InitNode_kid:
  assumes "nd_ht (nd h c) = KnvHt_clear" "\<not> subnode_dirty (nd h c)"
  shows "kid_ok (upd c (\<lambda>x. x\<lparr>nd_parent := n\<rparr>) (InitNode c t ty (Some v) True sz fnk h)) n c (t, ty, v)"
  using InitNode_self [OF refl, where c = c and t = t and ty = ty and v = v and sz = sz and fnk = fnk and h = h] assms
    InitNode_message [OF refl, where c = c and t = t and v = v and sz = sz and fnk = fnk and h = h] by (auto simp: kid_ok_def)

section \<open>The loop of an expansion\<close>

type_synonym field = "u32 \<times> pb_wire_type \<times> pb_val"

definition meta_fields :: "field list \<Rightarrow> field list" where
  "meta_fields fs = filter (\<lambda>(t, _). is_meta_tag t) fs"

definition child_fields :: "field list \<Rightarrow> field list" where
  "child_fields fs = filter (\<lambda>(t, _). \<not> is_meta_tag t) fs"

text \<open>The members of the expanded node that the loop does not change.\<close>

definition root_same :: "KnvNode \<Rightarrow> KnvNode \<Rightarrow> bool" where
  "root_same x y \<longleftrightarrow> nd_tag y = nd_tag x \<and> nd_type y = nd_type x \<and> nd_val y = nd_val x \<and> nd_key y = nd_key x \<and>
     nd_parent y = nd_parent x \<and> no_key y = no_key x"

definition kids_rep :: "knv_heap \<Rightarrow> nat \<Rightarrow> field list \<Rightarrow> bool" where
  "kids_rep h n fs \<longleftrightarrow> (let x = nd h n in
     list_all2 (kid_ok h n) (metalist x) (meta_fields fs) \<and> list_all2 (kid_ok h n) (childlist x) (child_fields fs) \<and>
     child_num x = int (length (childlist x)) \<and> ht_ok h n (set (childlist x)) \<and>
     (metalist x \<noteq> [] \<longrightarrow> (\<forall>t. is_meta_tag t \<longrightarrow> metas x (unat t) = last (0 # filter (\<lambda>c. nd_tag (nd h c) = t) (metalist x)))) \<and>
     (\<forall>c \<in> set (childlist x). k_val (nd_key (nd h c)) \<noteq> [] \<longrightarrow> child_has_key x))"

definition expanding :: "knv_heap \<Rightarrow> nat set \<Rightarrow> nat \<Rightarrow> field list \<Rightarrow> knv_heap \<Rightarrow> bool" where
  "expanding h L n fs g \<longleftrightarrow> (let K = set (kids (nd g n)) in
     pool_ok g (L \<union> K) \<and> K \<inter> L = {} \<and> distinct (kids (nd g n)) \<and> kids_rep g n fs \<and>
     root_same (nd h n) (nd g n) \<and> (\<forall>q \<in> L - {n}. nd g q = nd h q) \<and> pool_keeps h g K)"

lemma fields_append [simp]:
  "meta_fields (fs @ [(t, ty, v)]) = (if is_meta_tag t then meta_fields fs @ [(t, ty, v)] else meta_fields fs)"
  "child_fields (fs @ [(t, ty, v)]) = (if is_meta_tag t then child_fields fs else child_fields fs @ [(t, ty, v)])"
  by (simp_all add: meta_fields_def child_fields_def)

text \<open>A change that keeps the nodes of the fields.\<close>

lemma kid_ok_eq: "kid_ok h n c f \<Longrightarrow> nd h' c = nd h c \<Longrightarrow> kid_ok h' n c f"
  by (simp add: kid_ok_def)

lemma all2_kid_eq:
  assumes "list_all2 (kid_ok h n) cs fs" "\<And>c. c \<in> set cs \<Longrightarrow> nd h' c = nd h c"
  shows "list_all2 (kid_ok h' n) cs fs"
  by (rule list.rel_mono_strong [OF assms(1)]) (blast intro: kid_ok_eq assms(2))

lemma expand_meta_step:
  assumes e: "expanding h L n fs g" and n: "n \<in> L" and t: "is_meta_tag (pf_tag f)"
  shows "expanding h L n (fs @ [(pf_tag f, pf_type f, pf_val f)]) (expand_meta n f sz g)"
proof -
  let ?x = "nd g n" and ?f = "(pf_tag f, pf_type f, pf_val f)"
  define g0 where "g0 = (if metalist ?x = [] then upd n (\<lambda>x. x\<lparr>metas := \<lambda>_. 0\<rparr>) g else g)"
  obtain m g1 where new: "np_New g0 = (m, g1)" by fastforce
  define g2 where "g2 = upd n (\<lambda>x. x\<lparr>metalist := metalist x @ [m]\<rparr>) g1"
  define g4 where "g4 = upd m (\<lambda>x. x\<lparr>nd_parent := n\<rparr>) (InitNode m (pf_tag f) (pf_type f) (Some (pf_val f)) True sz True g2)"
  define g5 where "g5 = upd n (\<lambda>x. x\<lparr>metas := (metas x)(unat (pf_tag f) := m)\<rparr>) g4"
  have run: "expand_meta n f sz g = g5"
    by (simp add: expand_meta_def g0_def [symmetric] new Let_def g2_def g4_def g5_def)
  let ?K = "set (kids ?x)"
  have E: "pool_ok g (L \<union> ?K)" "?K \<inter> L = {}" "distinct (kids ?x)" "kids_rep g n fs" "root_same (nd h n) ?x" "\<forall>q \<in> L - {n}. nd g q = nd h q" "pool_keeps h g ?K"
    using e by (simp_all add: expanding_def Let_def)
  have "pool_ok g0 (L \<union> ?K)" using E(1) n by (auto simp: g0_def intro: pool_ok_upd)
  note N = np_New_ok [OF this new]
  have mn: "m \<noteq> n" "m \<notin> L" "m \<notin> ?K" using N(1) n by auto
  have oth: "nd g5 q = nd g q" if "q \<noteq> n" "q \<noteq> m" for q
    using that N(4) [of q] mn by (simp add: g5_def g4_def g2_def g0_def)
  have x5: "nd g5 n = ?x\<lparr>metalist := metalist ?x @ [m], metas := (if metalist ?x = [] then \<lambda>_. 0 else metas ?x)(unat (pf_tag f) := m)\<rparr>"
    using mn(1) N(4) [of n] by (simp add: g5_def g4_def g2_def g0_def)
  have kid: "kid_ok g5 n m ?f"
    using InitNode_kid [of g2 m] N(5,6) mn(1) by (simp add: g5_def g4_def g2_def kid_ok_def)
  have "pool_ok g5 (insert m (L \<union> ?K))"
    by (rule pool_ok_frame [OF N(3)]) (use n in \<open>auto simp: g5_def g4_def g2_def\<close>)
  then have pool: "pool_ok g5 (L \<union> set (kids (nd g5 n)))" by (simp add: x5 insert_commute Un_commute)
  have R: "list_all2 (kid_ok g n) (metalist ?x) (meta_fields fs)" "list_all2 (kid_ok g n) (childlist ?x) (child_fields fs)"
    "child_num ?x = int (length (childlist ?x))" "ht_ok g n (set (childlist ?x))"
    "metalist ?x \<noteq> [] \<Longrightarrow> is_meta_tag t \<Longrightarrow> metas ?x (unat t) = last (0 # filter (\<lambda>c. nd_tag (nd g c) = t) (metalist ?x))"
    "\<forall>c \<in> set (childlist ?x). k_val (nd_key (nd g c)) \<noteq> [] \<longrightarrow> child_has_key ?x" for t
    using E(4) by (simp_all add: kids_rep_def Let_def)
  have kq: "nd g5 c = nd g c" if "c \<in> ?K" for c
  proof (rule oth)
    show "c \<noteq> n" using that E(2) n by (metis IntI empty_iff)
    show "c \<noteq> m" using that mn(3) by metis
  qed
  have "kids_rep g5 n (fs @ [?f])"
    unfolding kids_rep_def Let_def
  proof (intro conjI impI allI)
    show "list_all2 (kid_ok g5 n) (metalist (nd g5 n)) (meta_fields (fs @ [?f]))"
      using t kid all2_kid_eq [OF R(1), of g5] kq by (simp add: x5 list_all2_appendI)
    show "list_all2 (kid_ok g5 n) (childlist (nd g5 n)) (child_fields (fs @ [?f]))"
      using t all2_kid_eq [OF R(2), of g5] kq by (simp add: x5)
    show "ht_ok g5 n (set (childlist (nd g5 n)))"
      using ht_ok_frame [OF R(4), of g5] kq by (simp add: x5)
    show "\<forall>c \<in> set (childlist (nd g5 n)). k_val (nd_key (nd g5 c)) \<noteq> [] \<longrightarrow> child_has_key (nd g5 n)"
      using R(6) kq by (simp add: x5)
    fix u :: u32 assume u: "is_meta_tag u"
    have tm: "nd_tag (nd g5 m) = pf_tag f" using kid by (simp add: kid_ok_def Let_def)
    have "filter (\<lambda>c. nd_tag (nd g5 c) = u) (metalist ?x) = filter (\<lambda>c. nd_tag (nd g c) = u) (metalist ?x)"
      using kq by (intro filter_cong) auto
    moreover have "unat u = unat (pf_tag f) \<longleftrightarrow> u = pf_tag f" by (simp add: word_unat_eq_iff)
    ultimately show "metas (nd g5 n) (unat u) = last (0 # filter (\<lambda>c. nd_tag (nd g5 c) = u) (metalist (nd g5 n)))"
      using R(5) [OF _ u] tm u by (simp add: x5)
  qed (simp add: x5 R(3))
  moreover have "root_same (nd h n) (nd g5 n)" using E(5) by (simp add: x5 root_same_def)
  moreover have "\<forall>q \<in> L - {n}. nd g5 q = nd h q" using E(6) oth mn(2) by (metis DiffE insertI1)
  moreover have "pool_keeps h g0 ?K" by (rule pool_keeps_frame [OF E(7)]) (simp_all add: g0_def)
  then have "pool_keeps h g1 (?K \<union> {m})" using pool_keeps_New [OF new] by (rule pool_keeps_trans)
  then have "pool_keeps h g5 (?K \<union> {m})" by (rule pool_keeps_frame) (simp_all add: g5_def g4_def g2_def)
  then have "pool_keeps h g5 (set (kids (nd g5 n)))" by (simp add: x5 insert_commute Un_commute)
  ultimately show ?thesis
    unfolding run expanding_def Let_def using pool E(2,3) mn n by (simp add: x5)
qed

lemma expand_child_step:
  assumes e: "expanding h L n fs g" and n: "n \<in> L" and t: "\<not> is_meta_tag (pf_tag f)"
  shows "\<exists>g'. expand_child n f sz fnk g = Some g' \<and> expanding h L n (fs @ [(pf_tag f, pf_type f, pf_val f)]) g'"
proof -
  let ?x = "nd g n" and ?f = "(pf_tag f, pf_type f, pf_val f)"
  obtain c g1 where new: "np_New g = (c, g1)" by fastforce
  define g2 where "g2 = upd n (\<lambda>x. x\<lparr>childlist := childlist x @ [c]\<rparr>) g1"
  define g3 where "g3 = InitNode c (pf_tag f) (pf_type f) (Some (pf_val f)) True sz fnk g2"
  define k where "k = k_val (nd_key (nd g3 c))"
  define g5 where "g5 = upd c (\<lambda>x. x\<lparr>nd_parent := n\<rparr>) (upd n (\<lambda>x. x\<lparr>child_has_key := child_has_key x \<or> k \<noteq> []\<rparr>) g3)"
  have run: "expand_child n f sz fnk g = Option.bind (KnvHt_put g5 n c) (\<lambda>h6. Some (upd n (\<lambda>x. x\<lparr>child_num := child_num x + 1\<rparr>) h6))"
    by (simp add: expand_child_def new Let_def g2_def [symmetric] g3_def [symmetric] k_def g5_def)
  let ?K = "set (kids ?x)"
  have E: "pool_ok g (L \<union> ?K)" "?K \<inter> L = {}" "distinct (kids ?x)" "kids_rep g n fs" "root_same (nd h n) ?x" "\<forall>q \<in> L - {n}. nd g q = nd h q" "pool_keeps h g ?K"
    using e by (simp_all add: expanding_def Let_def)
  note N = np_New_ok [OF E(1) new]
  have cn: "c \<noteq> n" "c \<notin> L" "c \<notin> ?K" using N(1) n by auto
  have oth: "nd g5 q = nd g q" if "q \<noteq> n" "q \<noteq> c" for q
    using that N(4) [of q] cn by (simp add: g5_def g3_def g2_def)
  have x5: "nd g5 n = ?x\<lparr>childlist := childlist ?x @ [c], child_has_key := child_has_key ?x \<or> k \<noteq> []\<rparr>"
    using cn(1) N(4) [of n] by (simp add: g5_def g3_def g2_def)
  have "g5 = upd n (\<lambda>x. x\<lparr>child_has_key := child_has_key x \<or> k \<noteq> []\<rparr>) (upd c (\<lambda>x. x\<lparr>nd_parent := n\<rparr>) g3)"
    using cn(1) by (simp add: g5_def upd_def fun_upd_twist)
  then have kid: "kid_ok g5 n c ?f" and k5: "k_val (nd_key (nd g5 c)) = k"
    using InitNode_kid [of g2 c] N(5,6) cn(1) by (simp_all add: g3_def g2_def kid_ok_def k_def)
  have kq: "nd g5 q = nd g q" if "q \<in> ?K" for q
  proof (rule oth)
    show "q \<noteq> n" using that E(2) n by (metis IntI empty_iff)
    show "q \<noteq> c" using that cn(3) by metis
  qed
  have R: "list_all2 (kid_ok g n) (metalist ?x) (meta_fields fs)" "list_all2 (kid_ok g n) (childlist ?x) (child_fields fs)"
    "child_num ?x = int (length (childlist ?x))" "ht_ok g n (set (childlist ?x))"
    "metalist ?x \<noteq> [] \<Longrightarrow> is_meta_tag t \<Longrightarrow> metas ?x (unat t) = last (0 # filter (\<lambda>c. nd_tag (nd g c) = t) (metalist ?x))"
    "\<forall>c \<in> set (childlist ?x). k_val (nd_key (nd g c)) \<noteq> [] \<longrightarrow> child_has_key ?x" for t
    using E(4) by (simp_all add: kids_rep_def Let_def)
  have "ht_ok g5 n (set (childlist ?x))" using ht_ok_frame [OF R(4), of g5] kq by (simp add: x5)
  then obtain g6 where g6: "KnvHt_put g5 n c = Some g6" "ht_ok g6 n (insert c (set (childlist ?x)))"
    "ht_same {n} (insert c (set (childlist ?x))) g5 g6"
    using KnvHt_put_ok [of g5 n "set (childlist ?x)" c] cn(3) N(2) by auto
  define g7 where "g7 = upd n (\<lambda>x. x\<lparr>child_num := child_num x + 1\<rparr>) g6"
  note S = ht_same_sel [OF g6(3)]
  have x7: "metalist (nd g7 n) = metalist ?x" "childlist (nd g7 n) = childlist ?x @ [c]" "child_num (nd g7 n) = child_num ?x + 1"
    "metas (nd g7 n) = metas ?x" "child_has_key (nd g7 n) \<longleftrightarrow> child_has_key ?x \<or> k \<noteq> []" "root_same ?x (nd g7 n)"
    "nd_ht (nd g7 n) = nd_ht (nd g6 n)"
    by (simp_all add: g7_def S x5 root_same_def)
  have ns: "node_same (nd g5 q) (nd g7 q) \<and> nd_ht (nd g7 q) = nd_ht (nd g5 q)" if "q \<noteq> n" for q
    using that ht_same_node [OF g6(3), of q] g6(3) by (simp add: g7_def ht_same_def)
  have kid7: "kid_ok g7 n q f'" if "q \<noteq> n" "kid_ok g5 n q f'" for q f'
    using kid_ok_cong [OF that(2)] ns [OF that(1)] by blast
  have knn: "q \<noteq> n" if "q \<in> insert c ?K" for q using that E(2) n cn(1) by auto
  have all7: "list_all2 (kid_ok g7 n) cs fs'" if "list_all2 (kid_ok g n) cs fs'" "set cs \<subseteq> ?K" for cs fs'
  proof (rule list.rel_mono_strong [OF that(1)])
    fix q f' assume "q \<in> set cs" "kid_ok g n q f'"
    then show "kid_ok g7 n q f'" using kid7 [of q f'] kid_ok_eq [of g n q f' g5] kq [of q] knn [of q] that(2) by blast
  qed
  have tg: "nd_tag (nd g7 q) = nd_tag (nd g5 q) \<and> nd_key (nd g7 q) = nd_key (nd g5 q) \<and> hnext g7 q = hnext g6 q" if "q \<noteq> n" for q
    using node_same_sel(1,4) ns [OF that] that by (simp add: g7_def S)
  have "kids_rep g7 n (fs @ [?f])"
    unfolding kids_rep_def Let_def
  proof (intro conjI impI allI)
    show "list_all2 (kid_ok g7 n) (metalist (nd g7 n)) (meta_fields (fs @ [?f]))"
      using t all7 [OF R(1)] by (simp add: x7)
    show "list_all2 (kid_ok g7 n) (childlist (nd g7 n)) (child_fields (fs @ [?f]))"
      using t all7 [OF R(2)] kid7 [OF cn(1) kid] by (simp add: x7 list_all2_appendI)
    show "child_num (nd g7 n) = int (length (childlist (nd g7 n)))" by (simp add: x7 R(3))
    show "ht_ok g7 n (set (childlist (nd g7 n)))"
      using ht_ok_frame [OF g6(2), of g7] knn by (simp add: x7) (simp add: g7_def)
    show "\<forall>q \<in> set (childlist (nd g7 n)). k_val (nd_key (nd g7 q)) \<noteq> [] \<longrightarrow> child_has_key (nd g7 n)"
      using R(6) kq tg knn k5 cn(1) by (simp add: x7) blast
    fix u :: u32 assume m: "metalist (nd g7 n) \<noteq> []" and u: "is_meta_tag u"
    have "filter (\<lambda>c. nd_tag (nd g7 c) = u) (metalist ?x) = filter (\<lambda>c. nd_tag (nd g c) = u) (metalist ?x)"
      using kq tg knn by (intro filter_cong) auto
    then show "metas (nd g7 n) (unat u) = last (0 # filter (\<lambda>c. nd_tag (nd g7 c) = u) (metalist (nd g7 n)))"
      using R(5) [OF _ u] m by (simp add: x7)
  qed
  moreover have "pool_ok g7 (L \<union> set (kids (nd g7 n)))"
  proof -
    have "pool_ok g5 (insert c (L \<union> ?K))" by (rule pool_ok_frame [OF N(3)]) (use n in \<open>auto simp: g5_def g3_def g2_def\<close>)
    then have "pool_ok g6 (insert c (L \<union> ?K))" by (rule pool_ok_same [OF _ g6(3)]) (use n in blast)
    then have "pool_ok g7 (insert c (L \<union> ?K))" unfolding g7_def using n by (intro pool_ok_upd) auto
    then show ?thesis by (simp add: x7 insert_commute Un_commute Un_left_commute)
  qed
  moreover have "root_same (nd h n) (nd g7 n)" using E(5) x7(6) by (simp add: root_same_def)
  moreover have "\<forall>q \<in> L - {n}. nd g7 q = nd h q"
  proof
    fix q assume q: "q \<in> L - {n}"
    then have "q \<noteq> c" "q \<notin> insert c (set (childlist ?x))" using cn(2) E(2) by auto
    then have "nd g7 q = nd g5 q" using q ns [of q] ht_same_next [OF g6(3), of q] ht_same_node [OF g6(3), of q]
      by (simp add: g7_def node_same_def)
    then show "nd g7 q = nd h q" using E(6) q oth [of q] \<open>q \<noteq> c\<close> by simp
  qed
  moreover have "pool_keeps h g1 (?K \<union> {c})" using E(7) pool_keeps_New [OF new] by (rule pool_keeps_trans)
  then have "pool_keeps h g7 (?K \<union> {c})" by (rule pool_keeps_frame) (use g6(3) in \<open>simp_all add: g7_def ht_same_def g5_def g3_def g2_def\<close>)
  then have "pool_keeps h g7 (set (kids (nd g7 n)))" by (simp add: x7 insert_commute Un_commute Un_left_commute)
  ultimately have "expanding h L n (fs @ [?f]) g7"
    unfolding expanding_def Let_def using E(2,3) cn n by (simp add: x7)
  then show ?thesis using run g6(1) by (simp add: g7_def)
qed

lemma expanding_upd:
  assumes "expanding h L n fs g" "n \<in> L"
  shows "expanding h L n fs (upd n (\<lambda>x. x\<lparr>subnode_dirty := d\<rparr>) g)"
proof -
  let ?g = "upd n (\<lambda>x. x\<lparr>subnode_dirty := d\<rparr>) g"
  have E: "pool_ok g (L \<union> set (kids (nd g n)))" "set (kids (nd g n)) \<inter> L = {}" "kids_rep g n fs"
    using assms(1) by (simp_all add: expanding_def Let_def)
  have kq: "nd ?g c = nd g c" if "c \<in> set (kids (nd g n))" for c using that E(2) assms(2) by auto
  then have "list_all2 (kid_ok ?g n) cs fs'" if "list_all2 (kid_ok g n) cs fs'" "set cs \<subseteq> set (kids (nd g n))" for cs fs'
    using all2_kid_eq [OF that(1), of ?g] that(2) by blast
  moreover have "filter (\<lambda>c. nd_tag (nd ?g c) = u) (metalist (nd g n)) = filter (\<lambda>c. nd_tag (nd g c) = u) (metalist (nd g n))" for u
    using kq by (intro filter_cong) auto
  moreover have "ht_ok ?g n (set (childlist (nd g n)))"
    using E(3) ht_ok_frame [of g n "set (childlist (nd g n))" ?g] by (simp add: kids_rep_def Let_def)
  ultimately have "kids_rep ?g n fs" using E(3) kq by (simp add: kids_rep_def Let_def)
  then show ?thesis using assms E(1) pool_ok_upd [of g "L \<union> set (kids (nd g n))" n] by (simp add: expanding_def root_same_def Let_def)
qed

lemma expand_loop_ok:
  assumes "expanding h L n fs g" "n \<in> L" "pb_read_all f = (gs, True)"
  shows "\<exists>g'. expand_loop n fnk prev f g = Some g' \<and> expanding h L n (fs @ (pf_tag f, pf_type f, pf_val f) # gs) g' \<and>
    \<not> subnode_dirty (nd g' n)"
  using assms
proof (induction f arbitrary: fs g gs prev rule: pb_read_all.induct)
  case (1 f)
  let ?f = "(pf_tag f, pf_type f, pf_val f)"
  obtain g1 where g1: "(if unat (pf_tag f) \<le> UC_MAX_META_NUM then Some (expand_meta n f (prev - pf_left f) g)
      else expand_child n f (prev - pf_left f) fnk g) = Some g1" "expanding h L n (fs @ [?f]) g1"
    using expand_meta_step [OF 1(2,3)] expand_child_step [OF 1(2,3)] by metis
  obtain ok f' where nx: "pb_next f = (ok, f')" by fastforce
  show ?case
  proof (cases ok)
    case True
    obtain hs where hs: "pb_read_all f' = (hs, True)" "gs = (pf_tag f', pf_type f', pf_val f') # hs"
      using 1(4) nx True by (subst (asm) pb_read_all.simps) (auto split: prod.splits)
    from 1(1) [OF nx [symmetric] True g1(2) 1(3) hs(1), of "pf_left f"]
    show ?thesis using g1(1) nx True hs(2) by (subst expand_loop.simps) (simp add: knv_next_def)
  next
    case False
    then have "gs = []" "pf_eom f'" using 1(4) nx by (subst (asm) pb_read_all.simps, simp)+
    then show ?thesis using g1 nx False expanding_upd [OF g1(2) 1(3), of False]
      by (subst expand_loop.simps) (simp add: knv_next_def expand_end_def)
  qed
qed

text \<open>\<open>msg_fields bs = Some fs\<close>: the decoder reads the whole string as a message with the fields \<open>fs\<close>.\<close>

definition msg_fields :: "byte list \<Rightarrow> field list option" where
  "msg_fields bs = (case pb_read_all (pb_start bs (int (length bs)) field0) of (fs, eom) \<Rightarrow> if eom then Some fs else None)"

lemma InnerExpand_ok:
  assumes pool: "pool_ok h L" and n: "n \<in> L" and x: "child_num (nd h n) < 0" "nd_type (nd h n) = PB_WT_STRING" "nd_ht (nd h n) = KnvHt_clear"
    and p: "nd_parent (nd h n) = 0 \<or> nd_tag (nd h n) \<noteq> 1" and v: "str_len (nd_val (nd h n)) = int (length (str_bytes (nd_val (nd h n))))"
    and fs: "msg_fields (str_bytes (nd_val (nd h n))) = Some fs" "fs \<noteq> []"
  shows "\<exists>g. InnerExpand n fnk h = Some g \<and> expanding h L n fs g \<and> \<not> subnode_dirty (nd g n)"
proof -
  let ?h = "upd n (\<lambda>x. (InitChildList 0 x)\<lparr>child_has_key := False\<rparr>) h" and ?d = "str_bytes (nd_val (nd h n))"
  have e: "expanding h L n [] ?h"
    using pool_ok_upd [OF pool n] ht_clear_ok [of ?h n] x(3)
    by (simp add: expanding_def kids_rep_def root_same_def InitChildList_def meta_fields_def child_fields_def Let_def)
  obtain ok f where nx: "pb_next (pb_start ?d (int (length ?d)) field0) = (ok, f)" by fastforce
  obtain gs where gs: "pb_read_all f = (gs, True)" "fs = (pf_tag f, pf_type f, pf_val f) # gs" and ok: ok
    using fs nx unfolding msg_fields_def by (subst (asm) pb_read_all.simps) (auto split: prod.splits if_splits)
  have "InnerExpand n fnk h = expand_loop n fnk (int (length ?d)) f ?h"
    using x p v nx ok by (auto simp: InnerExpand_def knv_begin_def pb_begin_next Let_def)
  then show ?thesis using expand_loop_ok [OF e n gs(1)] gs(2) by simp
qed

section \<open>Access to the fields of an expanded node\<close>

definition last_field :: "u32 \<Rightarrow> field list \<Rightarrow> (pb_wire_type \<times> pb_val) option" where
  "last_field t fs = (case rev (filter (\<lambda>(u, _). u = t) fs) of [] \<Rightarrow> None | (_, f) # _ \<Rightarrow> Some f)"

definition field_int :: "(pb_wire_type \<times> pb_val) option \<Rightarrow> u64" where
  "field_int f = (case f of None \<Rightarrow> 0 | Some (ty, v) \<Rightarrow>
     if ty = PB_WT_VARINT \<or> ty = PB_WT_FIXED64 then val_i64 v else if ty = PB_WT_FIXED32 then ucast (val_i32 v) else 0)"

definition field_str :: "(pb_wire_type \<times> pb_val) option \<Rightarrow> byte list" where
  "field_str f = (case f of None \<Rightarrow> [] | Some (ty, v) \<Rightarrow> if ty = PB_WT_STRING then str_bytes v else [])"

lemma kid_int:
  assumes "kid_ok h n c (t, ty, v)"
  shows "KnvNode_GetIntVal h c = field_int (Some (ty, v))"
  using assms by (auto simp: kid_ok_def KnvNode_GetIntVal_def field_int_def Let_def val_view_def val_i32_def split: if_splits)

lemma kid_str:
  assumes "kid_ok h n c (t, ty, v)" "t \<noteq> 0"
  shows "KnvNode_GetStrVal c h = Some (field_str (Some (ty, v)), h)"
  using assms
  by (auto simp: kid_ok_def KnvNode_GetStrVal_def KnvNode_GetValue_def Fold_def is_folded_def is_leaf_def field_str_def Let_def val_view_def)

lemma list_all2_filter_last:
  assumes "list_all2 (kid_ok h n) cs fs"
  shows "case filter (\<lambda>c. nd_tag (nd h c) = t) cs of
      [] \<Rightarrow> filter (\<lambda>(u, _). u = t) fs = []
    | as \<Rightarrow> filter (\<lambda>(u, _). u = t) fs \<noteq> [] \<and> kid_ok h n (last as) (last (filter (\<lambda>(u, _). u = t) fs))"
  using assms
proof (induction rule: list_all2_induct)
  case Nil
  then show ?case by simp
next
  case (Cons c cs f fs)
  have "nd_tag (nd h c) = fst f" using Cons(1) by (simp add: kid_ok_def Let_def split: prod.splits)
  then show ?case using Cons(1,3) by (cases f) (auto split: list.splits)
qed

lemma filter_tag: "P t \<Longrightarrow> filter (\<lambda>(u, _). u = t) (filter (\<lambda>(u, _). P u) fs) = filter (\<lambda>(u, _). u = t) fs"
  by (induction fs) auto

lemma last_field_meta: "is_meta_tag t \<Longrightarrow> last_field t (meta_fields fs) = last_field t fs"
  by (simp only: last_field_def meta_fields_def filter_tag [where P = is_meta_tag])

lemma last_field_child: "\<not> is_meta_tag t \<Longrightarrow> last_field t (child_fields fs) = last_field t fs"
  using filter_tag [of "\<lambda>t. \<not> is_meta_tag t" t fs] by (simp add: last_field_def child_fields_def)

lemma last_field_last:
  "last_field t fs = (if filter (\<lambda>(u, _). u = t) fs = [] then None else Some (snd (last (filter (\<lambda>(u, _). u = t) fs))))"
  by (simp add: last_field_def hd_rev [symmetric] split: list.splits prod.splits)

lemma last_filter_tag:
  assumes "filter (\<lambda>(u, _). u = t) fs \<noteq> []"
  shows "last (filter (\<lambda>(u, _). u = t) fs) = (t, snd (last (filter (\<lambda>(u, _). u = t) fs)))"
  using last_in_set [OF assms] by auto

lemma GetMeta_rep:
  assumes rep: "kids_rep h n fs" and n: "nd_tag (nd h n) \<noteq> 0" "0 \<notin> set (kids (nd h n))" and t: "is_meta_tag t"
  shows "\<exists>m. GetMeta n t h = Some (m, h) \<and>
    (case last_field t fs of None \<Rightarrow> m = 0 | Some f \<Rightarrow> m \<noteq> 0 \<and> kid_ok h n m (t, f))"
proof -
  let ?x = "nd h n" and ?p = "\<lambda>c. nd_tag (nd h c) = t" and ?q = "\<lambda>(u, _). u = t"
  have R: "list_all2 (kid_ok h n) (metalist ?x) (meta_fields fs)" "child_num ?x \<ge> 0"
    "metalist ?x \<noteq> [] \<Longrightarrow> metas ?x (unat t) = last (0 # filter ?p (metalist ?x))"
    using rep t by (simp_all add: kids_rep_def Let_def)
  let ?m = "last (0 # filter ?p (metalist ?x))"
  have run: "GetMeta n t h = Some (?m, h)"
    using n t R(2,3) by (auto simp: GetMeta_def)
  have L: "case filter ?p (metalist ?x) of [] \<Rightarrow> filter ?q (meta_fields fs) = []
    | as \<Rightarrow> filter ?q (meta_fields fs) \<noteq> [] \<and> kid_ok h n (last as) (last (filter ?q (meta_fields fs)))"
    by (rule list_all2_filter_last [OF R(1)])
  have lf: "last_field t fs = (if filter ?q (meta_fields fs) = [] then None else Some (snd (last (filter ?q (meta_fields fs)))))"
    using last_field_meta [OF t, of fs] last_field_last [of t "meta_fields fs"] by simp
  show ?thesis
  proof (cases "filter ?p (metalist ?x) = []")
    case True
    then have "last_field t fs = None" using L lf by simp
    then show ?thesis using run True by simp
  next
    case False
    then have ne: "filter ?q (meta_fields fs) \<noteq> []" and k: "kid_ok h n ?m (last (filter ?q (meta_fields fs)))"
      using L by (auto split: list.splits)
    have "last_field t fs = Some (snd (last (filter ?q (meta_fields fs))))"
      using lf ne by simp
    moreover have "?m \<in> set (metalist ?x)" using False last_in_set [OF False] by auto
    then have "?m \<noteq> 0" using n(2) by (metis Un_iff set_append)
    moreover have "kid_ok h n ?m (t, snd (last (filter ?q (meta_fields fs))))" using k last_filter_tag [OF ne] by simp
    ultimately show ?thesis using run by (auto split: prod.splits)
  qed
qed

lemma GetMetaInt_rep:
  assumes "kids_rep h n fs" "nd_tag (nd h n) \<noteq> 0" "0 \<notin> set (kids (nd h n))" "is_meta_tag t"
  shows "GetMetaInt n t h = Some (field_int (last_field t fs), h)"
  using GetMeta_rep [OF assms] kid_int by (auto simp: GetMetaInt_def field_int_def split: option.splits)

lemma GetMetaStr_rep:
  assumes "kids_rep h n fs" "nd_tag (nd h n) \<noteq> 0" "0 \<notin> set (kids (nd h n))" "is_meta_tag t" "t \<noteq> 0"
  shows "GetMetaStr n t h = Some (field_str (last_field t fs), h)"
  using GetMeta_rep [OF assms(1-4)] kid_str [OF _ assms(5)] by (auto simp: GetMetaStr_def field_str_def split: option.splits)

text \<open>A child is found by its tag, with or without keys in the table, when no other child has this tag.\<close>

lemma list_all2_in: "list_all2 P xs ys \<Longrightarrow> x \<in> set xs \<Longrightarrow> \<exists>y \<in> set ys. P x y"
  by (induction rule: list_all2_induct) auto

lemma find_filter: "List.find P xs = (if filter P xs = [] then None else Some (hd (filter P xs)))"
  by (induction xs) auto

lemma list_all2_filter_tag:
  assumes "list_all2 (kid_ok h n) cs fs"
  shows "list_all2 (kid_ok h n) (filter (\<lambda>c. nd_tag (nd h c) = t) cs) (filter (\<lambda>(u, _). u = t) fs)"
  using assms
proof (induction rule: list_all2_induct)
  case (Cons c cs f fs)
  have "nd_tag (nd h c) = fst f" using Cons(1) by (simp add: kid_ok_def Let_def split: prod.splits)
  then show ?case using Cons(1,3) by (cases f) auto
qed simp

lemma FindChildByTag_first:
  assumes rep: "kids_rep h n fs" and n: "nd_tag (nd h n) \<noteq> 0" and t: "\<not> is_meta_tag t" and once: "length (filter (\<lambda>(u, _). u = t) fs) \<le> 1"
  shows "FindChildByTag n t h = Some (case filter (\<lambda>c. nd_tag (nd h c) = t) (childlist (nd h n)) of [] \<Rightarrow> 0 | c # _ \<Rightarrow> c, h)"
    "list_all2 (kid_ok h n) (filter (\<lambda>c. nd_tag (nd h c) = t) (childlist (nd h n))) (filter (\<lambda>(u, _). u = t) fs)"
proof -
  let ?x = "nd h n" and ?p = "\<lambda>c. nd_tag (nd h c) = t" and ?q = "\<lambda>(u, _). u = t"
  let ?as = "filter ?p (childlist ?x)" and ?bs = "filter ?q (child_fields fs)"
  have R: "list_all2 (kid_ok h n) (childlist ?x) (child_fields fs)" "child_num ?x = int (length (childlist ?x))"
    "ht_ok h n (set (childlist ?x))" "\<forall>c \<in> set (childlist ?x). k_val (nd_key (nd h c)) \<noteq> [] \<longrightarrow> child_has_key ?x"
    using rep by (simp_all add: kids_rep_def Let_def)
  have fb: "?bs = filter ?q fs" unfolding child_fields_def by (rule filter_tag) (rule t)
  show F: "list_all2 (kid_ok h n) ?as (filter ?q fs)" using list_all2_filter_tag [OF R(1), of t] unfolding fb .
  have num: "GetChildNum n h = Some (int (length (childlist ?x)), h)"
    using n R(2) by (simp add: GetChildNum_def Expand_def InnerExpand_def)
  define c0 where "c0 = (case ?as of [] \<Rightarrow> 0 | c # _ \<Rightarrow> c)"
  have "length ?as \<le> 1" using list_all2_lengthD [OF F] once by simp
  then have one: "set ?as = (if ?as = [] then {} else {c0})" by (cases ?as) (auto simp: c0_def)
  obtain c where c: "KnvHt_get h n t [] = Some c"
    "c = 0 \<and> (\<forall>y \<in> set (childlist ?x). \<not> IsMatch h y t []) \<or> c \<in> set (childlist ?x) \<and> c \<noteq> 0 \<and> IsMatch h c t []"
    using KnvHt_get_ok [OF R(3), of t "[]"] by blast
  have "c = c0" if nk: "\<not> child_has_key ?x"
  proof -
    have m: "IsMatch h y t [] \<longleftrightarrow> y \<in> set ?as" if "y \<in> set (childlist ?x)" for y
      using nk R(4) that by (auto simp: IsMatch_def)
    have "y = c0" if "y \<in> set (childlist ?x)" "IsMatch h y t []" for y using m [OF that(1)] that(2) one by (metis empty_iff singletonD)
    moreover have "c0 = 0 \<or> c0 \<in> set (childlist ?x) \<and> IsMatch h c0 t []" using m [of c0] one by (cases "?as = []") (auto simp: c0_def)
    ultimately show ?thesis using c(2) by auto
  qed
  then show "FindChildByTag n t h = Some (case ?as of [] \<Rightarrow> 0 | c # _ \<Rightarrow> c, h)"
    using n c(1) by (auto simp: FindChildByTag_def num find_filter c0_def split: list.splits)
qed

lemma FindChildByTag_rep:
  assumes rep: "kids_rep h n fs" and n: "nd_tag (nd h n) \<noteq> 0" "0 \<notin> set (kids (nd h n))" and t: "\<not> is_meta_tag t"
    and once: "length (filter (\<lambda>(u, _). u = t) fs) \<le> 1"
  shows "\<exists>c. FindChildByTag n t h = Some (c, h) \<and>
    (case last_field t fs of None \<Rightarrow> c = 0 | Some f \<Rightarrow> c \<noteq> 0 \<and> kid_ok h n c (t, f))"
proof -
  let ?as = "filter (\<lambda>c. nd_tag (nd h c) = t) (childlist (nd h n))" and ?q = "\<lambda>(u, _). u = t"
  note F = FindChildByTag_first [OF rep n(1) t once]
  show ?thesis
  proof (cases ?as)
    case Nil
    then have "last_field t fs = None" using F(2) by (simp add: last_field_last)
    then show ?thesis using F(1) Nil by simp
  next
    case (Cons c cs)
    then have "Suc (length cs) \<le> 1" using list_all2_lengthD [OF F(2)] once by (metis length_Cons)
    then have as: "?as = [c]" using Cons by simp
    then obtain f where f: "filter ?q fs = [f]" "kid_ok h n c f" using F(2) by (auto simp: list_all2_Cons1)
    have "f \<in> set (filter ?q fs)" using f(1) by simp
    then have "fst f = t" by auto
    moreover have "c \<in> set ?as" using as by simp
    then have "c \<in> set (kids (nd h n))" by simp
    then have "c \<noteq> 0" using n(2) by metis
    ultimately show ?thesis using F(1) f as by (cases f) (auto simp: last_field_last)
  qed
qed

text \<open>When several children have the tag, the node of one of them is found.\<close>

definition field_with :: "u32 \<Rightarrow> field list \<Rightarrow> (pb_wire_type \<times> pb_val) option \<Rightarrow> bool" where
  "field_with t fs f \<longleftrightarrow> (case f of None \<Rightarrow> \<forall>g \<in> set fs. fst g \<noteq> t | Some g \<Rightarrow> (t, g) \<in> set fs)"

lemma FindChildByTag_some:
  assumes rep: "kids_rep h n fs" and n: "nd_tag (nd h n) \<noteq> 0" "0 \<notin> set (kids (nd h n))" and t: "\<not> is_meta_tag t"
  shows "\<exists>c f. FindChildByTag n t h = Some (c, h) \<and> field_with t fs f \<and> (case f of None \<Rightarrow> c = 0 | Some g \<Rightarrow> c \<noteq> 0 \<and> kid_ok h n c (t, g))"
proof -
  let ?x = "nd h n" and ?as = "filter (\<lambda>c. nd_tag (nd h c) = t) (childlist (nd h n))"
  have R: "list_all2 (kid_ok h n) (childlist ?x) (child_fields fs)" "child_num ?x = int (length (childlist ?x))"
    "ht_ok h n (set (childlist ?x))" "\<forall>c \<in> set (childlist ?x). k_val (nd_key (nd h c)) \<noteq> [] \<longrightarrow> child_has_key ?x"
    using rep by (simp_all add: kids_rep_def Let_def)
  have num: "GetChildNum n h = Some (int (length (childlist ?x)), h)"
    using n R(2) by (simp add: GetChildNum_def Expand_def InnerExpand_def)
  obtain c where c: "KnvHt_get h n t [] = Some c"
    "c = 0 \<and> (\<forall>y \<in> set (childlist ?x). \<not> IsMatch h y t []) \<or> c \<in> set (childlist ?x) \<and> c \<noteq> 0 \<and> IsMatch h c t []"
    using KnvHt_get_ok [OF R(3), of t "[]"] by blast
  have m: "\<not> child_has_key ?x \<Longrightarrow> y \<in> set (childlist ?x) \<Longrightarrow> IsMatch h y t [] \<longleftrightarrow> nd_tag (nd h y) = t" for y
    using R(4) by (auto simp: IsMatch_def)
  obtain d where d: "FindChildByTag n t h = Some (d, h)" "d = 0 \<and> ?as = [] \<or> d \<in> set ?as"
  proof (cases "child_has_key ?x")
    case True
    have "FindChildByTag n t h = Some (case ?as of [] \<Rightarrow> 0 | c # _ \<Rightarrow> c, h)"
      using n True by (auto simp: FindChildByTag_def num find_filter split: list.splits)
    then show thesis using that by (cases ?as) auto
  next
    case False
    have "FindChildByTag n t h = Some (if childlist ?x = [] then 0 else c, h)"
      using n c(1) False by (auto simp: FindChildByTag_def num)
    moreover have "c = 0 \<and> ?as = [] \<or> c \<in> set ?as" using c(2) m [OF False] by (auto simp: filter_empty_conv)
    ultimately show thesis using that by (cases "childlist ?x = []") auto
  qed
  have F: "list_all2 (kid_ok h n) ?as (filter (\<lambda>(u, _). u = t) fs)"
    using list_all2_filter_tag [OF R(1), of t] filter_tag [of "\<lambda>u. \<not> is_meta_tag u" t fs] t by (simp add: child_fields_def)
  show ?thesis
  proof (cases "?as = []")
    case True
    then have "field_with t fs None" using F by (auto simp: field_with_def filter_empty_conv)
    then show ?thesis using d True by (intro exI [of _ 0] exI [of _ None]) auto
  next
    case False
    then have "d \<in> set ?as" using d(2) by blast
    moreover from this have "d \<in> set (childlist ?x)" by simp
    then have "d \<noteq> 0" using n(2) by (metis Un_iff set_append)
    moreover obtain g where "g \<in> set (filter (\<lambda>(u, _). u = t) fs)" "kid_ok h n d g" using list_all2_in [OF F] calculation(1) by blast
    ultimately show ?thesis using d(1) by (intro exI [of _ d] exI [of _ "Some (snd g)"]) (auto simp: field_with_def)
  qed
qed

lemma GetChild_some:
  assumes "kids_rep h n fs" "nd_tag (nd h n) \<noteq> 0" "0 \<notin> set (kids (nd h n))" "\<not> is_meta_tag t"
  shows "\<exists>f. field_with t fs f \<and> GetChildInt n t h = Some (field_int f, h) \<and> GetChildStr n t h = Some (field_str f, h)"
proof -
  obtain c f where F: "FindChildByTag n t h = Some (c, h)" "field_with t fs f" "case f of None \<Rightarrow> c = 0 | Some g \<Rightarrow> c \<noteq> 0 \<and> kid_ok h n c (t, g)"
    using FindChildByTag_some [OF assms] by blast
  have "t \<noteq> 0" using assms(4) by auto
  then have "GetChildInt n t h = Some (field_int f, h)" "GetChildStr n t h = Some (field_str f, h)"
    using F(1,3) kid_int [of h n c t] kid_str [of h n c t]
    by (auto simp: GetChildInt_def GetChildStr_def field_int_def field_str_def split: option.splits)
  then show ?thesis using F(2) by blast
qed

lemma GetChildStr_rep:
  assumes "kids_rep h n fs" "nd_tag (nd h n) \<noteq> 0" "0 \<notin> set (kids (nd h n))" "\<not> is_meta_tag t" "length (filter (\<lambda>(u, _). u = t) fs) \<le> 1"
  shows "GetChildStr n t h = Some (field_str (last_field t fs), h)"
proof -
  have "t \<noteq> 0" using assms(4) by auto
  then show ?thesis
    using FindChildByTag_rep [OF assms] kid_str [of h n _ t] by (auto simp: GetChildStr_def field_str_def split: option.splits)
qed

section \<open>Release of an expanded node\<close>

lemma ReleaseNode_sel:
  "nd (ReleaseNode c h) q = (if q = c then (nd h c)\<lparr>subnode_dirty := False, child_num := -1, nd_key := (nd_key (nd h c))\<lparr>k_val := []\<rparr>,
     nd_ht := KnvHt_clear, nd_tag := 0, nd_val := \<lparr>val_i64 = 0, val_data = []\<rparr>\<rparr> else nd h q)"
  "np_free (ReleaseNode c h) = np_free h" "np_fresh (ReleaseNode c h) = np_fresh h"
  by (simp_all add: ReleaseNode_def)

text \<open>Nodes without children of their own, released one by one.\<close>

lemma release_level_leaves:
  assumes "\<forall>c \<in> set cs. childlist (nd h c) = [] \<and> metalist (nd h c) = []"
  shows "\<exists>g. release_level cs (cc, h) = (cc, g) \<and> np_free g = np_free h \<and> np_fresh g = np_fresh h \<and>
    (\<forall>q. q \<notin> set cs \<longrightarrow> nd g q = nd h q) \<and>
    (\<forall>q \<in> set cs. nd_ht (nd g q) = KnvHt_clear \<and> \<not> subnode_dirty (nd g q))"
  using assms
proof (induction cs arbitrary: h)
  case (Cons c cs)
  have e: "childlist (nd h c) = []" "metalist (nd h c) = []" using Cons.prems by auto
  have "\<forall>d \<in> set cs. childlist (nd (ReleaseNode c h) d) = [] \<and> metalist (nd (ReleaseNode c h) d) = []"
    using Cons.prems by (auto simp: ReleaseNode_sel)
  from Cons.IH [OF this] obtain g where g: "release_level cs (cc, ReleaseNode c h) = (cc, g)" "np_free g = np_free h" "np_fresh g = np_fresh h"
    "\<forall>q. q \<notin> set cs \<longrightarrow> nd g q = nd (ReleaseNode c h) q"
    "\<forall>q \<in> set cs. nd_ht (nd g q) = KnvHt_clear \<and> \<not> subnode_dirty (nd g q)" by (auto simp: ReleaseNode_sel)
  have "nd_ht (nd g c) = KnvHt_clear \<and> \<not> subnode_dirty (nd g c)" using g(4,5) by (cases "c \<in> set cs") (auto simp: ReleaseNode_sel)
  then show ?case using g e by (intro exI [of _ g]) (auto simp: ReleaseNode_sel Let_def)
qed simp

lemma ReleaseKnvNodeList_leaves:
  assumes "\<forall>c \<in> set cs. childlist (nd h c) = [] \<and> metalist (nd h c) = []"
  shows "\<exists>g. ReleaseKnvNodeList cs h = Some g \<and> np_free g = cs @ np_free h \<and> np_fresh g = np_fresh h \<and>
    (\<forall>q. q \<notin> set cs \<longrightarrow> nd g q = nd h q) \<and>
    (\<forall>q \<in> set cs. nd_ht (nd g q) = KnvHt_clear \<and> \<not> subnode_dirty (nd g q))"
proof -
  obtain g where g: "release_level cs ([], h) = ([], g)" "np_free g = np_free h" "np_fresh g = np_fresh h"
    "\<forall>q. q \<notin> set cs \<longrightarrow> nd g q = nd h q" "\<forall>q \<in> set cs. nd_ht (nd g q) = KnvHt_clear \<and> \<not> subnode_dirty (nd g q)"
    using release_level_leaves [OF assms] by blast
  have "release_loop cs [] h = Some (cs, g)"
  proof (cases "cs = []")
    case True
    then show ?thesis using g(1) by (subst release_loop.simps) simp
  next
    case False
    then show ?thesis using g(1) by (subst release_loop.simps) (simp add: release_loop.simps)
  qed
  then show ?thesis using g by (auto simp: ReleaseKnvNodeList_def)
qed

lemma Delete_expanded:
  assumes e: "expanding h L n fs g" and n: "n \<in> L"
  shows "\<exists>g'. KnvNode_Delete n g = Some g' \<and> pool_ok g' (L - {n}) \<and> (\<forall>q \<in> L - {n}. nd g' q = nd h q) \<and>
    np_free g' = n # childlist (nd g n) @ metalist (nd g n) @ np_free g \<and> np_fresh g' = np_fresh g"
proof -
  let ?x = "nd g n"
  have E: "pool_ok g (L \<union> set (kids ?x))" "set (kids ?x) \<inter> L = {}" "distinct (kids ?x)" "kids_rep g n fs" "\<forall>q \<in> L - {n}. nd g q = nd h q"
    using e by (simp_all add: expanding_def Let_def)
  have leaf: "childlist (nd g c) = [] \<and> metalist (nd g c) = []" if "c \<in> set (kids ?x)" for c
  proof -
    have K: "list_all2 (kid_ok g n) (metalist ?x) (meta_fields fs)" "list_all2 (kid_ok g n) (childlist ?x) (child_fields fs)"
      using E(4) by (simp_all add: kids_rep_def Let_def)
    obtain f where "kid_ok g n c f"
    proof (cases "c \<in> set (metalist ?x)")
      case True
      then show thesis using list_all2_in [OF K(1)] \<open>\<And>f. kid_ok g n c f \<Longrightarrow> thesis\<close> by metis
    next
      case False
      then have "c \<in> set (childlist ?x)" using \<open>c \<in> set (kids ?x)\<close> by simp
      then show thesis using list_all2_in [OF K(2)] \<open>\<And>f. kid_ok g n c f \<Longrightarrow> thesis\<close> by metis
    qed
    then show ?thesis by (simp add: kid_ok_def Let_def split: prod.splits)
  qed
  obtain g1 where g1: "ReleaseKnvNodeList (metalist ?x) g = Some g1" "np_free g1 = metalist ?x @ np_free g" "np_fresh g1 = np_fresh g"
    "\<forall>q. q \<notin> set (metalist ?x) \<longrightarrow> nd g1 q = nd g q"
    "\<forall>q \<in> set (metalist ?x). nd_ht (nd g1 q) = KnvHt_clear \<and> \<not> subnode_dirty (nd g1 q)"
  proof -
    have "\<forall>c \<in> set (metalist ?x). childlist (nd g c) = [] \<and> metalist (nd g c) = []" by (intro ballI leaf) simp
    from ReleaseKnvNodeList_leaves [OF this] show thesis using that by (elim exE conjE)
  qed
  have nk: "n \<notin> set (kids ?x)" using E(2) n by auto
  define g2 where "g2 = upd n (\<lambda>x. x\<lparr>metalist := []\<rparr>) g1"
  have x2: "childlist (nd g1 n) = childlist ?x" using g1(4) nk by simp
  have "\<forall>c \<in> set (childlist ?x). childlist (nd g2 c) = [] \<and> metalist (nd g2 c) = []"
  proof
    fix c assume c: "c \<in> set (childlist ?x)"
    then have "c \<in> set (kids ?x)" "c \<noteq> n" "c \<notin> set (metalist ?x)" using nk E(3) by auto
    then show "childlist (nd g2 c) = [] \<and> metalist (nd g2 c) = []" using leaf [of c] g1(4) by (simp add: g2_def)
  qed
  from ReleaseKnvNodeList_leaves [OF this] obtain g3 where g3: "ReleaseKnvNodeList (childlist ?x) g2 = Some g3" "np_free g3 = childlist ?x @ np_free g2" "np_fresh g3 = np_fresh g2"
    "\<forall>q. q \<notin> set (childlist ?x) \<longrightarrow> nd g3 q = nd g2 q"
    "\<forall>q \<in> set (childlist ?x). nd_ht (nd g3 q) = KnvHt_clear \<and> \<not> subnode_dirty (nd g3 q)"
    by (elim exE conjE)
  define g4 where "g4 = ReleaseNode n (upd n (\<lambda>x. x\<lparr>childlist := []\<rparr>) g3)"
  define g5 where "g5 = g4\<lparr>np_free := n # np_free g4\<rparr>"
  have cn: "child_num ?x \<ge> 0" using E(4) by (simp add: kids_rep_def Let_def)
  have "n \<noteq> 0" using E(1) n by (auto simp: pool_ok_def)
  then have run: "KnvNode_Delete n g = Some g5"
    using cn g1(1) g3(1) x2 by (simp add: KnvNode_Delete_def np_Delete_def ReleaseObject_def g2_def [symmetric] g4_def g5_def)
  have free: "np_free g5 = n # childlist ?x @ metalist ?x @ np_free g" "np_fresh g5 = np_fresh g"
    using g1(2,3) g3(2,3) by (simp_all add: g5_def g4_def ReleaseNode_sel g2_def)
  have rest: "nd g5 q = nd g q" if "q \<notin> insert n (set (kids ?x))" for q
    using that g1(4) g3(4) by (simp add: g5_def g4_def ReleaseNode_sel g2_def)
  have clean: "nd_ht (nd g5 q) = KnvHt_clear \<and> \<not> subnode_dirty (nd g5 q)" if qf: "q \<in> set (np_free g5)" for q
  proof -
    consider "q = n" | "q \<noteq> n" "q \<in> set (childlist ?x)" | "q \<noteq> n" "q \<notin> set (childlist ?x)" "q \<in> set (metalist ?x)"
      | "q \<notin> insert n (set (kids ?x))" "q \<in> set (np_free g)" using qf free(1) by auto
    then show ?thesis
    proof cases
      case 4
      then show ?thesis using rest E(1) by (simp add: pool_ok_def)
    qed (use g1(5) g3(4,5) in \<open>auto simp: g5_def g4_def ReleaseNode_sel g2_def\<close>)
  qed
  have "distinct (np_free g5)" "0 \<notin> set (np_free g5)" "set (np_free g5) \<inter> (L - {n}) = {}"
    using E(1-3) n nk unfolding free(1) pool_ok_def by auto
  moreover have "\<forall>q \<in> set (np_free g5) \<union> (L - {n}). q < np_fresh g5"
    using E(1) n unfolding free pool_ok_def by auto
  ultimately have "pool_ok g5 (L - {n})" using E(1) clean free(2) unfolding pool_ok_def by auto
  moreover have "nd g5 q = nd h q" if "q \<in> L - {n}" for q using that rest [of q] E(2,5) by auto
  ultimately show ?thesis using run free by blast
qed

section \<open>A message read into a tree\<close>

lemma msg_fields_begin:
  assumes "msg_fields bs = Some fs" "fs \<noteq> []"
  shows "fst (knv_begin field0 bs (int (length bs)))" "bs \<noteq> []"
proof -
  obtain ok f where nx: "pb_next (pb_start bs (int (length bs)) field0) = (ok, f)" by fastforce
  have ok: ok using assms nx unfolding msg_fields_def by (subst (asm) pb_read_all.simps) (auto split: if_splits)
  then show "fst (knv_begin field0 bs (int (length bs)))" using nx by (simp add: knv_begin_def pb_begin_next)
  show "bs \<noteq> []"
    using assms pb_read_all_end [of "pb_start [] 0 field0"] by (auto simp: msg_fields_def pb_start_def)
qed

lemma InitNode_Expand:
  assumes pool: "pool_ok h L" and new: "np_New h = (n, g)" and h1: "h1 = InitNode n t PB_WT_STRING (Some w) True sz False g"
    and fs: "msg_fields (str_bytes w) = Some fs" "fs \<noteq> []" and len: "str_len w = int (length (str_bytes w))" and t: "t \<noteq> 0"
  shows "\<exists>h2. n \<notin> L \<and> (\<forall>q \<in> L. nd h1 q = nd h q) \<and> nd_tag (nd h1 n) = t \<and>
    child_num (nd h1 n) < 0 \<and> Expand n h1 = Some (0, h2) \<and> expanding h1 (insert n L) n fs h2"
proof -
  note N = np_New_ok [OF pool new]
  have ne: "str_bytes w \<noteq> []" using msg_fields_begin(2) [OF fs] .
  then have "val_i32 w \<noteq> 0" by (auto simp: str_bytes_def)
  then have "is_message w" using msg_fields_begin(1) [OF fs] len by (simp add: is_message_def)
  note M = InitNode_message [OF h1] and S = InitNode_self [OF h1]
  have cn: "child_num (nd h1 n) = -1" using M(2) \<open>is_message w\<close> .
  have sv: "str_bytes (nd_val (nd h1 n)) = str_bytes w" "str_len (nd_val (nd h1 n)) = str_len w"
    using S(3) M(1) by (simp_all add: val_view_def str_len_def)
  have pool1: "pool_ok h1 (insert n L)" by (rule pool_ok_frame [OF N(3)]) (auto simp: h1)
  have "\<exists>h2. InnerExpand n False h1 = Some h2 \<and> expanding h1 (insert n L) n fs h2 \<and> \<not> subnode_dirty (nd h2 n)"
    by (rule InnerExpand_ok [OF pool1]) (use S N(5) cn fs sv len in simp_all)
  then obtain h2 where "InnerExpand n False h1 = Some h2" "expanding h1 (insert n L) n fs h2" by blast
  moreover have "nd h1 q = nd h q" if "q \<in> L" for q
  proof -
    have "q \<noteq> n" using that N(1) by metis
    then show ?thesis using N(4) [of q] by (simp add: h1)
  qed
  ultimately show ?thesis using N(1) S(1) cn t by (auto simp: Expand_def)
qed

lemma NewFromMessage_Expand:
  assumes pool: "pool_ok h L" and fs: "msg_fields bs = Some fs" "fs \<noteq> []" and len: "length bs < 2 ^ 31" and t: "t \<noteq> 0"
  shows "\<exists>n h1 h2. NewFromMessage bs t h = Some (n, h1) \<and> n \<notin> L \<and> (\<forall>q \<in> L. nd h1 q = nd h q) \<and> nd_tag (nd h1 n) = t \<and>
    child_num (nd h1 n) < 0 \<and> Expand n h1 = Some (0, h2) \<and> expanding h1 (insert n L) n fs h2"
proof -
  obtain n g where new: "np_New h = (n, g)" by fastforce
  define h1 where "h1 = InitNode n t PB_WT_STRING (Some (str_val bs)) True 0 False g"
  have u: "unat (of_nat (length bs) :: u32) = length bs" using len by (intro val_i32_str_val) simp
  have "str_bytes (str_val bs) = bs" "str_len (str_val bs) = int (length bs)"
    using u val_i32_str_val [of bs] len by (simp_all add: str_bytes_def str_len_def)
  moreover have "NewFromMessage bs t h = Some (n, h1)" using t by (simp add: NewFromMessage_def KnvNode_New_def new h1_def)
  ultimately show ?thesis using InitNode_Expand [OF pool new h1_def _ fs(2) _ t] fs(1) by (simp add: exI)
qed

lemma expanding_sel:
  assumes "expanding h L n fs g" "nd_tag (nd h n) \<noteq> 0"
  shows "kids_rep g n fs" "nd_tag (nd g n) \<noteq> 0" "0 \<notin> set (kids (nd g n))"
  using assms by (simp_all add: expanding_def root_same_def Let_def pool_ok_def)

lemma GetChildInt_rep:
  assumes "kids_rep h n fs" "nd_tag (nd h n) \<noteq> 0" "0 \<notin> set (kids (nd h n))" "\<not> is_meta_tag t" "length (filter (\<lambda>(u, _). u = t) fs) \<le> 1"
  shows "GetChildInt n t h = Some (field_int (last_field t fs), h)"
  using FindChildByTag_rep [OF assms] kid_int [of h n _ t] by (auto simp: GetChildInt_def field_int_def split: option.splits)

lemma GetMeta_expand:
  assumes "child_num (nd h n) < 0" "Expand n h = Some (0, g)" "child_num (nd g n) \<ge> 0" "nd_tag (nd h n) \<noteq> 0" "nd_tag (nd g n) \<noteq> 0" "is_meta_tag t"
  shows "GetMeta n t h = GetMeta n t g"
  using assms by (simp add: GetMeta_def)

text \<open>Fields with their values, as the nodes of a list show them.\<close>

definition node_fields :: "knv_heap \<Rightarrow> nat list \<Rightarrow> (u32 \<times> pb_wire_type \<times> (u64 + byte list)) list" where
  "node_fields h cs = map (\<lambda>c. (nd_tag (nd h c), nd_type (nd h c), val_view (nd_type (nd h c)) (nd_val (nd h c)))) cs"

definition views :: "field list \<Rightarrow> (u32 \<times> pb_wire_type \<times> (u64 + byte list)) list" where
  "views fs = map (\<lambda>(t, ty, v). (t, ty, val_view ty v)) fs"

lemma node_fields_rep: "list_all2 (kid_ok h n) cs fs \<Longrightarrow> node_fields h cs = views fs"
  by (induction rule: list_all2_induct) (auto simp: node_fields_def views_def kid_ok_def Let_def)

lemma NewFromMessage_keeps: "t \<noteq> 0 \<Longrightarrow> NewFromMessage bs t h = Some (n, h1) \<Longrightarrow> pool_keeps h h1 {n}"
proof -
  assume t: "t \<noteq> 0" "NewFromMessage bs t h = Some (n, h1)"
  obtain m g where new: "np_New h = (m, g)" by fastforce
  then have "m = n" "np_free h1 = np_free g" "np_fresh h1 = np_fresh g" using t by (auto simp: NewFromMessage_def KnvNode_New_def)
  then show ?thesis using pool_keeps_frame [OF pool_keeps_New [OF new]] by simp
qed

text \<open>(C29) A message is read into a tree. For every byte string that the decoder accepts, with any fields in any order, and
  every state of the node pool, \<open>NewFromMessage\<close> and \<open>Expand\<close> return; the metas are then the fields with tags up to 10 and the
  children the other ones, in the order of the message and with their types and values. The accessors return the last field with
  the tag of a meta and one of the fields with the tag of a child, which is the only one when the tag occurs once, and the empty
  value when there is none. \<open>Delete\<close> puts the node and all its metas and children on the free list, so that every node that was
  free before the message was read, or was made for it, is free again, and it touches no other tree.\<close>

theorem message_read:
  assumes "pool_ok h L" "msg_fields bs = Some fs" "fs \<noteq> []" "length bs < 2 ^ 31" "t \<noteq> 0"
  shows "\<exists>n h1 h2 h3. NewFromMessage bs t h = Some (n, h1) \<and> n \<notin> L \<and> Expand n h1 = Some (0, h2) \<and>
    node_fields h2 (metalist (nd h2 n)) = views (meta_fields fs) \<and> node_fields h2 (childlist (nd h2 n)) = views (child_fields fs) \<and>
    (\<forall>u. u \<noteq> 0 \<and> (is_meta_tag u \<or> length (filter (\<lambda>(w, _). w = u) fs) \<le> 1) \<longrightarrow>
       GetFieldInt n u h2 = Some (field_int (last_field u fs), h2) \<and> GetFieldStr n u h2 = Some (field_str (last_field u fs), h2)) \<and>
    (\<forall>u. \<not> is_meta_tag u \<longrightarrow>
       (\<exists>f. field_with u fs f \<and> GetFieldInt n u h2 = Some (field_int f, h2) \<and> GetFieldStr n u h2 = Some (field_str f, h2))) \<and>
    KnvNode_Delete n h2 = Some h3 \<and> pool_ok h3 L \<and> (\<forall>q \<in> L. nd h3 q = nd h q) \<and>
    np_free h3 = n # childlist (nd h2 n) @ metalist (nd h2 n) @ np_free h2 \<and> np_fresh h3 = np_fresh h2 \<and>
    set (np_free h) \<union> {np_fresh h..<np_fresh h3} \<subseteq> set (np_free h3)"
proof -
  obtain n h1 h2 where N: "NewFromMessage bs t h = Some (n, h1)" "n \<notin> L" "\<forall>q \<in> L. nd h1 q = nd h q" "nd_tag (nd h1 n) = t"
    "Expand n h1 = Some (0, h2)" "expanding h1 (insert n L) n fs h2"
    using NewFromMessage_Expand [OF assms] by (elim exE conjE)
  note S = expanding_sel [OF N(6)]
  have tag: "nd_tag (nd h1 n) \<noteq> 0" using N(4) assms(5) by simp
  have fields: "GetFieldInt n u h2 = Some (field_int (last_field u fs), h2) \<and> GetFieldStr n u h2 = Some (field_str (last_field u fs), h2)"
    if "u \<noteq> 0" "is_meta_tag u \<or> length (filter (\<lambda>(w, _). w = u) fs) \<le> 1" for u
    using that GetMetaInt_rep [OF S [OF tag], of u] GetMetaStr_rep [OF S [OF tag], of u] GetChildInt_rep [OF S [OF tag], of u]
      GetChildStr_rep [OF S [OF tag], of u]
    by (cases "is_meta_tag u") (simp_all add: GetFieldInt_def GetFieldStr_def)
  have some: "\<exists>f. field_with u fs f \<and> GetFieldInt n u h2 = Some (field_int f, h2) \<and> GetFieldStr n u h2 = Some (field_str f, h2)"
    if "\<not> is_meta_tag u" for u
    using GetChild_some [OF S [OF tag] that] that by (simp add: GetFieldInt_def GetFieldStr_def)
  have L: "list_all2 (kid_ok h2 n) (metalist (nd h2 n)) (meta_fields fs)" "list_all2 (kid_ok h2 n) (childlist (nd h2 n)) (child_fields fs)"
    using S(1) [OF tag] by (simp_all add: kids_rep_def Let_def)
  obtain h3 where D: "KnvNode_Delete n h2 = Some h3" "pool_ok h3 (insert n L - {n})" "\<forall>q \<in> insert n L - {n}. nd h3 q = nd h1 q"
    "np_free h3 = n # childlist (nd h2 n) @ metalist (nd h2 n) @ np_free h2" "np_fresh h3 = np_fresh h2"
    using Delete_expanded [OF N(6)] by blast
  have "pool_keeps h1 h2 (set (kids (nd h2 n)))" using N(6) by (simp add: expanding_def Let_def)
  from pool_keeps_trans [OF NewFromMessage_keeps [OF assms(5) N(1)] this]
  have "set (np_free h) \<union> {np_fresh h..<np_fresh h3} \<subseteq> set (np_free h3)" unfolding pool_keeps_def D(4,5) by auto
  moreover have "insert n L - {n} = L" using N(2) by blast
  ultimately show ?thesis
    using N(1-3,5) fields some node_fields_rep [OF L(1)] node_fields_rep [OF L(2)] D
    by (intro exI [of _ n] exI [of _ h1] exI [of _ h2] exI [of _ h3]) simp
qed

lemma empty_pool: "pool_ok knv_empty {}"
  by (simp add: pool_ok_def knv_empty_def)

text \<open>The decoder on the encoding of a list of fields.\<close>

definition decoded :: "field \<Rightarrow> field \<Rightarrow> bool" where
  "decoded g f \<longleftrightarrow> (case (g, f) of ((t, ty, w), (u, uy, v)) \<Rightarrow> t = u \<and> ty = uy \<and> (\<exists>old. w = dec_val ty v old))"

lemma pb_read_all_decoded:
  assumes "list_all (\<lambda>(t, wt, v). wf_field t wt v) fs" "pf_ptr f = fields_bytes fs" "pf_left f = int (length (fields_bytes fs))"
    "pf_left f < 2 ^ 31"
  shows "\<exists>gs. pb_read_all f = (gs, True) \<and> list_all2 decoded gs fs"
  using assms
proof (induction fs arbitrary: f)
  case Nil
  then show ?case by (simp add: pb_read_all_end fields_bytes_def)
next
  case (Cons x fs)
  obtain t wt v where x: "x = (t, wt, v)" by (cases x)
  let ?b = "field_bytes t wt v"
  have wf: "wf_field t wt v" using Cons.prems x by simp
  have split: "fields_bytes (x # fs) = ?b @ fields_bytes fs" by (simp add: x fields_bytes_def)
  define g where "g = f\<lparr>pf_tag := t, pf_type := wt, pf_val := dec_val wt v (pf_val f), pf_ptr := fields_bytes fs, pf_left := pf_left f - int (length ?b)\<rparr>"
  have "pb_decode_tag f = (0, g)"
    unfolding g_def by (rule pb_decode_tag_field [OF wf]) (use Cons.prems split in auto)
  then have "pb_read_all f = (case pb_read_all g of (gs, e) \<Rightarrow> ((pf_tag g, pf_type g, pf_val g) # gs, e))"
    by (simp add: pb_read_all.simps [of f] pb_next_def)
  moreover obtain gs where "pb_read_all g = (gs, True)" "list_all2 decoded gs fs"
    using Cons.IH [of g] Cons.prems split by (auto simp: g_def)
  moreover have "decoded (pf_tag g, pf_type g, pf_val g) x" by (auto simp: x g_def decoded_def)
  ultimately show ?case by simp
qed

lemma msg_fields_bytes:
  assumes "list_all (\<lambda>(t, wt, v). wf_field t wt v) fs" "length (fields_bytes fs) < 2 ^ 31"
  shows "\<exists>gs. msg_fields (fields_bytes fs) = Some gs \<and> list_all2 decoded gs fs"
  using pb_read_all_decoded [OF assms(1), of "pb_start (fields_bytes fs) (int (length (fields_bytes fs))) field0"] assms(2)
  by (auto simp: msg_fields_def pb_start_def)

lemma decoded_last:
  assumes "list_all2 decoded gs fs"
  shows "field_int (last_field t gs) = field_int (last_field t fs) \<and> field_str (last_field t gs) = field_str (last_field t fs) \<and>
    length (filter (\<lambda>(u, _). u = t) gs) = length (filter (\<lambda>(u, _). u = t) fs)"
proof -
  have one: "decoded (u, ty, w) (u', ty', v) \<Longrightarrow> field_int (Some (ty, w)) = field_int (Some (ty', v)) \<and> field_str (Some (ty, w)) = field_str (Some (ty', v))"
    for u ty w u' ty' v by (auto simp: decoded_def field_int_def field_str_def dec_val_def val_i32_def str_bytes_def)
  have "list_all2 decoded (filter (\<lambda>(u, _). u = t) gs) (filter (\<lambda>(u, _). u = t) fs)"
    using assms by (induction rule: list_all2_induct) (auto simp: decoded_def)
  then have r: "list_all2 decoded (rev (filter (\<lambda>(u, _). u = t) gs)) (rev (filter (\<lambda>(u, _). u = t) fs))" by simp
  then show ?thesis
    unfolding last_field_def using one list_all2_lengthD [OF r] 
    by (cases "rev (filter (\<lambda>(u, _). u = t) gs)"; cases "rev (filter (\<lambda>(u, _). u = t) fs)") (auto split: prod.splits)
qed

theorem message_read_witness:
  "\<exists>n h1 h2. NewFromMessage [8, 5, 90, 1, 7] 1 knv_empty = Some (n, h1) \<and> Expand n h1 = Some (0, h2) \<and>
     GetFieldInt n 1 h2 = Some (5, h2) \<and> GetFieldStr n 11 h2 = Some ([7], h2)"
proof -
  let ?fs = "[(1, PB_WT_VARINT, int_val 5), (11, PB_WT_STRING, str_val [7])] :: field list"
  have b: "fields_bytes ?fs = [8, 5, 90, 1, 7]"
    by (simp add: fields_bytes_def field_bytes_def str_val_def enc_eval)
  have "list_all (\<lambda>(t, wt, v). wf_field t wt v) ?fs" by (simp add: wf_field_def str_val_def val_i32_def)
  then obtain gs where gs: "msg_fields [8, 5, 90, 1, 7] = Some gs" "list_all2 decoded gs ?fs"
    using msg_fields_bytes [of ?fs] b by auto
  from gs(2) have "gs \<noteq> []" by auto
  moreover have "length [8, 5, 90, 1, 7 :: byte] < 2 ^ 31" "(1 :: u32) \<noteq> 0" by simp_all
  ultimately obtain n h1 h2 where R: "NewFromMessage [8, 5, 90, 1, 7] 1 knv_empty = Some (n, h1)" "Expand n h1 = Some (0, h2)"
    and A: "\<forall>u. u \<noteq> 0 \<and> (is_meta_tag u \<or> length (filter (\<lambda>(w, _). w = u) gs) \<le> 1) \<longrightarrow>
       GetFieldInt n u h2 = Some (field_int (last_field u gs), h2) \<and> GetFieldStr n u h2 = Some (field_str (last_field u gs), h2)"
    using message_read [OF empty_pool gs(1), of 1] by (elim meta_impE exE conjE)
  have V: "field_int (last_field 1 gs) = 5" "field_str (last_field 11 gs) = [7]" "length (filter (\<lambda>(u, _). u = 11) gs) \<le> 1"
    using decoded_last [OF gs(2), of 1] decoded_last [OF gs(2), of 11]
    by (simp_all add: last_field_def field_int_def field_str_def str_bytes_def str_val_def val_i32_def)
  have "GetFieldInt n 1 h2 = Some (5, h2)" using A [rule_format, of 1] V(1) by (simp add: UC_MAX_META_NUM_def)
  moreover have "GetFieldStr n 11 h2 = Some ([7], h2)" using A [rule_format, of 11] V(2,3) by simp
  ultimately show ?thesis using R by (intro exI [of _ n] exI [of _ h1] exI [of _ h2] conjI)
qed

end
