(* ===== verification/Knv_Build.thy ===== *)
theory Knv_Build
  imports Knv_Expand
begin

text \<open>
  Trees that are built field by field: a new root, then metas and children without children of their own, as the
  packets of the proxy are built. The tree represents the list of its fields in the sense of \<open>Knv_Expand\<close>, its cached sizes
  are right, and it serialises to the encoding of the fields; no other node changes.
\<close>

section \<open>A tree under construction\<close>

definition building :: "knv_heap \<Rightarrow> nat set \<Rightarrow> nat \<Rightarrow> field list \<Rightarrow> knv_heap \<Rightarrow> bool" where
  "building h L n fs g \<longleftrightarrow> n \<in> L \<and> expanding g L n fs g \<and> (\<forall>q \<in> L - {n}. nd g q = nd h q) \<and>
     (\<forall>c \<in> insert n (set (kids (nd g n))). shape_ok (nd g c) \<and> size_ok g c) \<and>
     nd_type (nd g n) = PB_WT_STRING \<and> nd_parent (nd g n) = 0 \<and> val_i32 (nd_val (nd g n)) = 0 \<and>
     (kids (nd g n) \<noteq> [] \<longrightarrow> subnode_dirty (nd g n))"

lemma root_same_refl [simp]: "root_same x x"
  by (simp add: root_same_def)

lemma expanding_parts:
  "expanding g L n fs g \<longleftrightarrow> pool_ok g (L \<union> set (kids (nd g n))) \<and> set (kids (nd g n)) \<inter> L = {} \<and> distinct (kids (nd g n)) \<and> kids_rep g n fs"
  by (auto simp: expanding_def Let_def)

text \<open>Changes of sizes, and of the flag, the key and the value of the root, keep the representation.\<close>

lemma kid_ok_sizes:
  assumes "kid_ok g n c f" "nd g' c = (nd g c)\<lparr>eval_sz := s, eval_val_sz := vs\<rparr>"
  shows "kid_ok g' n c f"
  using assms by (simp add: kid_ok_def Let_def split: prod.splits)

lemma expanding_sizes:
  assumes e: "expanding g L n fs g" and n: "n \<in> L" and np: "np_free g' = np_free g" "np_fresh g' = np_fresh g"
    and x: "nd g' n = (nd g n)\<lparr>nd_val := v, nd_key := k, no_key := nk, subnode_dirty := d, eval_sz := s n, eval_val_sz := vs n\<rparr>"
    and kd: "\<And>c. c \<in> set (kids (nd g n)) \<Longrightarrow> nd g' c = (nd g c)\<lparr>eval_sz := s c, eval_val_sz := vs c\<rparr>"
    and out: "\<And>q. q \<notin> insert n (set (kids (nd g n))) \<Longrightarrow> nd g' q = nd g q"
  shows "expanding g' L n fs g'"
proof -
  let ?K = "set (kids (nd g n))"
  have E: "pool_ok g (L \<union> ?K)" "?K \<inter> L = {}" "distinct (kids (nd g n))" "kids_rep g n fs" using e by (simp_all add: expanding_parts)
  have kk: "kids (nd g' n) = kids (nd g n)" by (simp add: x)
  have all: "list_all2 (kid_ok g' n) cs fs'" if "list_all2 (kid_ok g n) cs fs'" "set cs \<subseteq> ?K" for cs fs'
  proof (rule list.rel_mono_strong [OF that(1)])
    fix c f assume "c \<in> set cs" "kid_ok g n c f"
    then show "kid_ok g' n c f" using that(2) by (intro kid_ok_sizes [OF _ kd]) blast+
  qed
  have sel: "nd_tag (nd g' c) = nd_tag (nd g c) \<and> nd_key (nd g' c) = nd_key (nd g c) \<and> hnext g' c = hnext g c" if "c \<in> ?K" for c
    using kd [OF that] by simp
  have fl: "filter (\<lambda>c. nd_tag (nd g' c) = u) (metalist (nd g n)) = filter (\<lambda>c. nd_tag (nd g c) = u) (metalist (nd g n))" for u
    using sel by (intro filter_cong) auto
  have "ht_ok g' n (set (childlist (nd g n)))"
    by (rule ht_ok_frame [of g]) (use E(4) sel in \<open>auto simp: kids_rep_def Let_def x\<close>)
  then have "kids_rep g' n fs"
    using E(4) sel all [of "metalist (nd g n)"] all [of "childlist (nd g n)"] fl by (simp add: kids_rep_def Let_def x)
  moreover have "pool_ok g' (L \<union> ?K)"
  proof (rule pool_ok_frame [OF E(1) np])
    fix q assume "q \<notin> L \<union> ?K"
    then have "q \<notin> insert n ?K" using n by blast
    then show "nd g' q = nd g q" by (rule out)
  qed
  ultimately show ?thesis using E(2,3) kk by (simp add: expanding_parts)
qed

section \<open>A new root\<close>

lemma building_new:
  assumes "pool_ok h L" "t \<noteq> 0" "t < 2 ^ 29"
  shows "\<exists>n g. NewTree t None h = Some (n, g) \<and> n \<notin> L \<and> n \<noteq> 0 \<and> building h (insert n L) n [] g \<and>
    nd_key (nd g n) = \<lparr>k_type = PB_WT_STRING, k_val = []\<rparr> \<and> \<not> no_key (nd g n) \<and> nd_tag (nd g n) = t"
proof -
  obtain n g0 where new: "np_New h = (n, g0)" by fastforce
  note N = np_New_ok [OF assms(1) new]
  define g where "g = InitNode n t PB_WT_STRING None True 0 False g0"
  have run: "NewTree t None h = Some (n, g)" using assms(2) by (simp add: NewTree_def KnvNode_New_def new g_def)
  let ?v = "\<lparr>val_i64 = 0, val_data = []\<rparr>"
  have x: "nd g n = (nd g0 n)\<lparr>nd_tag := t, nd_type := PB_WT_STRING, nd_parent := 0, nd_val := ?v, nd_key := \<lparr>k_type = PB_WT_STRING, k_val = []\<rparr>,
      eval_val_sz := 0, eval_sz := knv_eval_field_length t PB_WT_STRING ?v, no_key := False, child_num := 0, childlist := [], metalist := []\<rparr>"
    by (simp add: g_def InitNode_def InitChildList_def key_init_def Let_def)
  have v: "knv_eval_field_length t PB_WT_STRING ?v = knv_eval_field_length t PB_WT_STRING (len_val 0)"
    by (rule flen_i32) (simp add: val_i32_def len_val_def)
  have cl: "nd_ht (nd g n) = KnvHt_clear" "\<not> subnode_dirty (nd g n)" using N(5,6) by (simp_all add: x)
  have "pool_ok g (insert n L)" by (rule pool_ok_frame [OF N(3)]) (auto simp: g_def)
  then have "expanding g (insert n L) n [] g"
    using ht_clear_ok [of g n] cl by (simp add: expanding_parts kids_rep_def Let_def meta_fields_def child_fields_def x)
  moreover have "shape_ok (nd g n)" "size_ok g n"
    using assms(2,3) v by (simp_all add: shape_ok_def size_ok_def is_leaf_def str_len_def x) (simp_all add: val_i32_def s32_def)
  moreover have "\<forall>q \<in> insert n L - {n}. nd g q = nd h q" using N(4) by (simp add: g_def)
  ultimately have "building h (insert n L) n [] g" by (simp add: building_def x) (simp add: val_i32_def)
  then show ?thesis using run N(1,2) by (intro exI [of _ n] exI [of _ g]) (simp add: x)
qed

section \<open>A new leaf\<close>

lemma InitNode_leaf:
  assumes "wf_field t ty v" "g = upd c (\<lambda>x. x\<lparr>nd_parent := p\<rparr>) (InitNode c t ty (Some v) True 0 fnk h)"
  shows "shape_ok (nd g c)" "size_ok g c" "is_leaf (nd g c)" "eval_sz (nd g c) = knv_eval_field_length t ty (nd_val (nd g c))"
    "eval_val_sz (nd g c) = (if ty = PB_WT_STRING then str_len (nd_val (nd g c)) else 0)"
proof -
  note I = InitNode_self [OF refl, where c = c and t = t and ty = ty and v = v and sz = 0 and fnk = fnk and h = h]
  have x: "nd_tag (nd g c) = t" "nd_type (nd g c) = ty" "child_num (nd g c) \<in> {-1, 0}" "childlist (nd g c) = []" "metalist (nd g c) = []"
    using I(1,2,4-6) by (simp_all add: assms(2))
  show l: "is_leaf (nd g c)" using x by (auto simp: is_leaf_def)
  show e: "eval_sz (nd g c) = knv_eval_field_length t ty (nd_val (nd g c))"
    "eval_val_sz (nd g c) = (if ty = PB_WT_STRING then str_len (nd_val (nd g c)) else 0)"
    by (simp_all add: assms(2) InitNode_def InitChildList_def Let_def split: prod.splits)
  have "ty = PB_WT_STRING \<Longrightarrow> length (val_data (nd_val (nd g c))) = unat (val_i32 (nd_val (nd g c)))"
    using assms(1) by (simp add: assms(2) InitNode_def InitChildList_def Let_def wf_field_def val_i32_def split: prod.splits) (simp add: val_i32_def [symmetric])
  then show "shape_ok (nd g c)" using assms(1) x by (auto simp: shape_ok_def wf_field_def)
  show "size_ok g c" using x l e by (simp add: size_ok_def Let_def flen_str_len)
qed

lemma val_i32_upd_data [simp]: "val_i32 (x\<lparr>val_data := d\<rparr>) = val_i32 x"
  by (simp add: val_i32_def)

lemma InitNode_flen:
  "knv_eval_field_length t ty (nd_val (nd (InitNode c t ty (Some v) True sz fnk h) c)) = knv_eval_field_length t ty v"
proof (cases "ty = PB_WT_STRING")
  case True
  then have "nd_val (nd (InitNode c t ty (Some v) True sz fnk h) c) = (set_i32 (val_i32 v) (nd_val (nd h c)))\<lparr>val_data := val_data v\<rparr>"
    by (simp add: InitNode_def InitChildList_def Let_def split: prod.splits)
  then show ?thesis unfolding True by (intro flen_i32) simp
next
  case False
  then show ?thesis
    by (cases ty) (auto simp: InitNode_def InitChildList_def Let_def val_i32_def knv_eval_field_length_def pb_eval_field_length_def split: prod.splits)
qed

section \<open>Adding a field\<close>

text \<open>The end of an operation on a root: its size is adjusted and it is marked, there are no ancestors.\<close>

definition root_grown :: "nat \<Rightarrow> int \<Rightarrow> knv_heap \<Rightarrow> knv_heap" where
  "root_grown n off h = upd n (\<lambda>x. x\<lparr>eval_val_sz := eval_val_sz x + off,
     eval_sz := knv_eval_field_length (nd_tag x) PB_WT_STRING (len_val (eval_val_sz x + off)),
     nd_val := set_i32 0 (nd_val x), subnode_dirty := True\<rparr>) h"

lemma root_grown_sel [simp]:
  "q \<noteq> n \<Longrightarrow> nd (root_grown n off h) q = nd h q" "np_free (root_grown n off h) = np_free h" "np_fresh (root_grown n off h) = np_fresh h"
  by (simp_all add: root_grown_def)

lemma finish_root:
  assumes "nd_parent (nd h n) = 0" "nd_type (nd h n) = PB_WT_STRING" "0 \<le> eval_sz (nd h n)"
    "eval_sz (nd h n) = knv_eval_field_length (nd_tag (nd h n)) PB_WT_STRING (len_val (eval_val_sz (nd h n)))"
  shows "finish_change n off h = Some (root_grown n off h)"
proof -
  let ?h = "upd n (\<lambda>x. x\<lparr>eval_val_sz := eval_val_sz x + off,
     eval_sz := knv_eval_field_length (nd_tag x) PB_WT_STRING (len_val (eval_val_sz x + off))\<rparr>) h"
  obtain o' h1 where u: "UPDATE_EVAL_SZ n off h = (o', h1)" by fastforce
  have h1: "h1 = ?h"
  proof (cases "off = 0")
    case True
    then have "?h = upd n (\<lambda>x. x) h" using assms(4) by (auto simp: upd_def fun_eq_iff)
    then show ?thesis using u True by (simp add: UPDATE_EVAL_SZ_def upd_def)
  next
    case False
    then show ?thesis using u assms(2) by (auto simp: UPDATE_EVAL_SZ_def Let_def upd_def)
  qed
  have "nd_parent (nd (SET_VALUE_DIRTY n ?h) n) = 0" using assms(1) by (simp add: SET_VALUE_DIRTY_def)
  moreover have "SET_VALUE_DIRTY n ?h = root_grown n off h" by (simp add: SET_VALUE_DIRTY_def root_grown_def upd_def)
  ultimately show ?thesis
    using assms(3) u h1 by (simp add: finish_change_def adjust_eval_def UpdateParentEvalueAndSetDirty_def update_loop.simps [of 0])
qed

lemma building_parts:
  assumes "building h L n fs g"
  shows "n \<in> L" "expanding g L n fs g" "\<forall>q \<in> L - {n}. nd g q = nd h q" "nd_type (nd g n) = PB_WT_STRING" "nd_parent (nd g n) = 0"
    "val_i32 (nd_val (nd g n)) = 0" "\<And>c. c \<in> insert n (set (kids (nd g n))) \<Longrightarrow> shape_ok (nd g c) \<and> size_ok g c"
    "kids_rep g n fs" "0 \<notin> set (kids (nd g n))" "nd_tag (nd g n) \<noteq> 0" "pool_ok g (L \<union> set (kids (nd g n)))" "set (kids (nd g n)) \<inter> L = {}"
    "eval_sz (nd g n) = knv_eval_field_length (nd_tag (nd g n)) PB_WT_STRING (len_val (eval_val_sz (nd g n)))"
    "eval_val_sz (nd g n) = sum_list (map (\<lambda>c. eval_sz (nd g c)) (kids (nd g n)))"
proof -
  show b: "n \<in> L" "expanding g L n fs g" "\<forall>q \<in> L - {n}. nd g q = nd h q" "nd_type (nd g n) = PB_WT_STRING" "nd_parent (nd g n) = 0"
    "val_i32 (nd_val (nd g n)) = 0"
    using assms by (simp_all add: building_def)
  show at: "\<And>c. c \<in> insert n (set (kids (nd g n))) \<Longrightarrow> shape_ok (nd g c) \<and> size_ok g c"
    using assms unfolding building_def by blast
  show e: "kids_rep g n fs" "pool_ok g (L \<union> set (kids (nd g n)))" "set (kids (nd g n)) \<inter> L = {}" using b(2) by (simp_all add: expanding_parts)
  then show "0 \<notin> set (kids (nd g n))" by (simp add: pool_ok_def)
  have n: "shape_ok (nd g n)" "size_ok g n" using at by simp_all
  then show "nd_tag (nd g n) \<noteq> 0" by (simp add: shape_ok_def)
  show "eval_sz (nd g n) = knv_eval_field_length (nd_tag (nd g n)) PB_WT_STRING (len_val (eval_val_sz (nd g n)))"
    using n(2) b(4) by (simp add: size_ok_def Let_def)
  show "eval_val_sz (nd g n) = sum_list (map (\<lambda>c. eval_sz (nd g c)) (kids (nd g n)))"
  proof (cases "is_leaf (nd g n)")
    case True
    then have "kids (nd g n) = []" using shape_not_leaf [OF n(1)] by blast
    then show ?thesis using n(2) b(4,6) True by (simp add: size_ok_def Let_def str_len_def s32_def)
  qed (use n(2) b(4) in \<open>simp add: size_ok_def Let_def\<close>)
qed

lemma building_intro:
  assumes n: "n \<in> L" and e: "expanding g L n fs g" and frame: "\<And>q. q \<in> L - {n} \<Longrightarrow> nd g q = nd h q"
    and kd: "\<And>c. c \<in> set (kids (nd g n)) \<Longrightarrow> shape_ok (nd g c) \<and> size_ok g c" "kids (nd g n) \<noteq> []"
    and x: "nd_tag (nd g n) \<noteq> 0" "nd_tag (nd g n) < 2 ^ 29" "nd_type (nd g n) = PB_WT_STRING" "nd_parent (nd g n) = 0"
      "val_i32 (nd_val (nd g n)) = 0" "subnode_dirty (nd g n)"
    and sz: "eval_sz (nd g n) = knv_eval_field_length (nd_tag (nd g n)) PB_WT_STRING (len_val (eval_val_sz (nd g n)))"
      "eval_val_sz (nd g n) = sum_list (map (\<lambda>c. eval_sz (nd g c)) (kids (nd g n)))"
  shows "building h L n fs g"
proof -
  have cn: "child_num (nd g n) = int (length (childlist (nd g n)))" using e by (simp add: expanding_parts kids_rep_def Let_def)
  then have nl: "\<not> is_leaf (nd g n)" using kd(2) x(3) by (auto simp: is_leaf_def)
  then have "shape_ok (nd g n)" using x cn by (simp add: shape_ok_def is_folded_def IsBufferValid_def)
  moreover have "size_ok g n" using nl x(3) sz by (simp add: size_ok_def Let_def)
  ultimately show ?thesis unfolding building_def using n e frame kd x by auto
qed

text \<open>A leaf \<open>c\<close> has been linked into the root; then the root is adjusted.\<close>

lemma building_add:
  assumes b: "building h L n fs g" and e: "expanding g1 L n fs' g1" and frame: "\<And>q. q \<in> L - {n} \<Longrightarrow> nd g1 q = nd g q"
    and x: "nd_tag (nd g1 n) = nd_tag (nd g n)" "nd_type (nd g1 n) = nd_type (nd g n)" "nd_parent (nd g1 n) = nd_parent (nd g n)"
      "eval_val_sz (nd g1 n) = eval_val_sz (nd g n)"
    and kd: "\<And>c. c \<in> set (kids (nd g1 n)) \<Longrightarrow> shape_ok (nd g1 c) \<and> size_ok g1 c \<and> is_leaf (nd g1 c)" "kids (nd g1 n) \<noteq> []"
    and sm: "sum_list (map (\<lambda>c. eval_sz (nd g1 c)) (kids (nd g1 n))) = sum_list (map (\<lambda>c. eval_sz (nd g c)) (kids (nd g n))) + off"
  shows "building h L n fs' (root_grown n off g1)"
proof -
  note B = building_parts [OF b]
  let ?g = "root_grown n off g1"
  have E: "set (kids (nd g1 n)) \<inter> L = {}" "kids_rep g1 n fs'" using e by (simp_all add: expanding_parts)
  have kn: "c \<noteq> n" if "c \<in> set (kids (nd g1 n))" for c using that E(1) B(1) by (metis IntI empty_iff)
  have y: "nd ?g n = (nd g1 n)\<lparr>nd_val := set_i32 0 (nd_val (nd g1 n)), nd_key := nd_key (nd g1 n), no_key := no_key (nd g1 n), subnode_dirty := True,
      eval_sz := knv_eval_field_length (nd_tag (nd g1 n)) PB_WT_STRING (len_val (eval_val_sz (nd g1 n) + off)), eval_val_sz := eval_val_sz (nd g1 n) + off\<rparr>"
    by (simp add: root_grown_def)
  have eg: "expanding ?g L n fs' ?g"
    by (rule expanding_sizes [OF e B(1), where s = "\<lambda>c. eval_sz (nd ?g c)" and vs = "\<lambda>c. eval_val_sz (nd ?g c)"
          and k = "nd_key (nd g1 n)" and nk = "no_key (nd g1 n)" and d = True and v = "set_i32 0 (nd_val (nd g1 n))"])
       (use kn in \<open>simp_all add: y\<close>)
  have sums: "sum_list (map (\<lambda>c. eval_sz (nd ?g c)) (kids (nd g1 n))) = sum_list (map (\<lambda>c. eval_sz (nd g1 c)) (kids (nd g1 n)))"
    using kn by (intro arg_cong [where f = sum_list] map_cong refl) simp
  have tag: "nd_tag (nd g n) \<noteq> 0 \<and> nd_tag (nd g n) < 2 ^ 29" using B(7) [of n] by (simp add: shape_ok_def)
  show ?thesis
  proof (rule building_intro [OF B(1) eg])
    fix c assume "c \<in> set (kids (nd ?g n))"
    then have c: "c \<in> set (kids (nd g1 n))" by (simp add: y)
    then show "shape_ok (nd ?g c) \<and> size_ok ?g c" using kd(1) [OF c] kn [OF c] by (simp add: size_ok_def Let_def)
  qed (use B(3,4,5,14) frame x kd(2) sm sums tag in \<open>simp_all add: y\<close>)
qed

text \<open>A kid of the old tree whose node only moved in a chain of the table is a right leaf in the new one.\<close>

lemma kid_keeps:
  assumes "shape_ok (nd g c)" "size_ok g c" "kid_ok g n c f" "nd g1 c = (nd g c)\<lparr>ht_next := x\<rparr>"
  shows "shape_ok (nd g1 c) \<and> size_ok g1 c \<and> is_leaf (nd g1 c)"
proof -
  have l: "is_leaf (nd g c)" using assms(3) by (auto simp: kid_ok_def is_leaf_def Let_def split: prod.splits)
  then have "is_leaf (nd g1 c)" by (simp add: assms(4) is_leaf_def)
  moreover have "is_folded (nd g1 c) = is_folded (nd g c)" by (simp add: assms(4) is_folded_def is_leaf_def IsBufferValid_def)
  ultimately show ?thesis using assms(1,2) l by (simp add: assms(4) shape_ok_def size_ok_def Let_def)
qed

lemma kid_exists:
  assumes "kids_rep g n fs" "c \<in> set (kids (nd g n))"
  shows "\<exists>f \<in> set fs. kid_ok g n c f"
proof -
  have K: "list_all2 (kid_ok g n) (metalist (nd g n)) (meta_fields fs)" "list_all2 (kid_ok g n) (childlist (nd g n)) (child_fields fs)"
    using assms(1) by (simp_all add: kids_rep_def Let_def)
  consider "c \<in> set (metalist (nd g n))" | "c \<in> set (childlist (nd g n))" using assms(2) by auto
  then show ?thesis
  proof cases
    case 1
    then show ?thesis using list_all2_in [OF K(1) 1] by (auto simp: meta_fields_def)
  next
    case 2
    then show ?thesis using list_all2_in [OF K(2) 2] by (auto simp: child_fields_def)
  qed
qed

lemma SetMeta_new:
  assumes b: "building h L n fs g" and t: "is_meta_tag t" "last_field t fs = None" "t = 1 \<Longrightarrow> metalist (nd g n) = []"
    and wf: "wf_field t ty v" and ev: "0 \<le> eval_sz (nd g n)"
  shows "\<exists>g'. SetMeta n t ty (Some v) ob True g = Some (0, g') \<and> building h L n (fs @ [(t, ty, v)]) g' \<and>
    nd_key (nd g' n) = nd_key (nd g n) \<and> no_key (nd g' n) = no_key (nd g n) \<and> nd_tag (nd g' n) = nd_tag (nd g n) \<and>
    metalist (nd g' n) \<noteq> []"
proof -
  note B = building_parts [OF b]
  let ?x = "nd g n" and ?K = "set (kids (nd g n))"
  define f where "f = field0\<lparr>pf_tag := t, pf_type := ty, pf_val := v\<rparr>"
  define g0 where "g0 = (if metalist ?x = [] then upd n (\<lambda>x. x\<lparr>metas := \<lambda>_. 0\<rparr>) g else g)"
  obtain m g1 where new: "np_New g0 = (m, g1)" by fastforce
  define g2 where "g2 = upd n (\<lambda>x. x\<lparr>metalist := metalist x @ [m]\<rparr>) g1"
  define g3 where "g3 = upd m (\<lambda>x. x\<lparr>nd_parent := n\<rparr>) (InitNode m t ty (Some v) True 0 True g2)"
  define g4 where "g4 = upd n (\<lambda>x. x\<lparr>metas := (metas x)(unat t := m)\<rparr>) g3"
  have em: "expand_meta n f 0 g = g4"
    by (simp add: expand_meta_def g0_def [symmetric] new Let_def g2_def g3_def g4_def f_def)
  have "pool_ok g0 (L \<union> ?K)" using B(1,11) by (auto simp: g0_def intro: pool_ok_upd)
  note N = np_New_ok [OF this new]
  have mn: "m \<noteq> n" "m \<notin> L" "m \<notin> ?K" using N(1) B(1) by auto
  have "metalist (nd g1 n) = metalist ?x" using N(4) [of n] mn(1) by (simp add: g0_def)
  then have "g2 = upd n (\<lambda>x. x\<lparr>metalist := if t = 1 then m # metalist x else metalist x @ [m]\<rparr>) g1"
    using t(3) by (auto simp: g2_def upd_def)
  then have nm: "new_meta n t ty (Some v) g = (m, g4)"
    by (simp add: new_meta_def g0_def [symmetric] new Let_def g3_def g4_def)
  have oth: "nd g4 q = nd g q" if "q \<noteq> n" "q \<noteq> m" for q
    using that N(4) [of q] by (simp add: g4_def g3_def g2_def g0_def)
  have x4: "nd g4 n = ?x\<lparr>metalist := metalist ?x @ [m], metas := (if metalist ?x = [] then \<lambda>_. 0 else metas ?x)(unat t := m)\<rparr>"
    using mn(1) N(4) [of n] by (simp add: g4_def g3_def g2_def g0_def)
  have kq: "nd g4 c = nd g c" if "c \<in> ?K" for c
  proof (rule oth)
    show "c \<noteq> n" using that B(1,12) by (metis IntI empty_iff)
    show "c \<noteq> m" using that mn(3) by metis
  qed
  have "expanding g L n (fs @ [(t, ty, v)]) g4"
    using expand_meta_step [OF B(2,1), of f 0] t(1) em by (simp add: f_def)
  then have e4: "expanding g4 L n (fs @ [(t, ty, v)]) g4" by (simp add: expanding_def Let_def)
  have n4: "nd g4 m = nd g3 m" using mn(1) by (simp add: g4_def)
  have leaf: "shape_ok (nd g4 m)" "size_ok g4 m" "is_leaf (nd g4 m)" "eval_sz (nd g4 m) = knv_eval_field_length t ty (nd_val (nd g4 m))"
    "eval_val_sz (nd g4 m) = (if ty = PB_WT_STRING then str_len (nd_val (nd g4 m)) else 0)"
    using InitNode_leaf [OF wf g3_def] by (simp_all add: n4 size_ok_def Let_def)
  have same: "upd m (\<lambda>x. x\<lparr>eval_val_sz := if ty = PB_WT_STRING then str_len (nd_val x) else 0, eval_sz := knv_eval_field_length t ty (nd_val (nd g4 m))\<rparr>) g4 = g4"
    using leaf(4,5) by (auto simp: upd_def fun_eq_iff)
  have fin: "finish_change n (eval_sz (nd g4 m)) g4 = Some (root_grown n (eval_sz (nd g4 m)) g4)"
    by (rule finish_root) (use B(4,5,13) ev in \<open>simp_all add: x4\<close>)
  have gm: "GetMeta n t g = Some (0, g)"
    using GetMeta_rep [OF B(8,10,9) t(1)] t(2) by auto
  have run: "SetMeta n t ty (Some v) ob True g = Some (0, root_grown n (eval_sz (nd g4 m)) g4)"
    using B(4,10) t(1) gm nm same fin leaf(4) by (simp add: SetMeta_def Let_def)
  have "building h L n (fs @ [(t, ty, v)]) (root_grown n (eval_sz (nd g4 m)) g4)"
  proof (rule building_add [OF b e4])
    fix c assume c: "c \<in> set (kids (nd g4 n))"
    show "shape_ok (nd g4 c) \<and> size_ok g4 c \<and> is_leaf (nd g4 c)"
    proof (cases "c = m")
      case False
      then have c: "c \<in> ?K" using c by (auto simp: x4)
      then obtain f where f: "kid_ok g n c f" using kid_exists [OF B(8)] by blast
      have "shape_ok (nd g c)" "size_ok g c" using B(7) c by blast+
      then show ?thesis by (rule kid_keeps [OF _ _ f, where x = "ht_next (nd g c)"]) (simp add: kq [OF c])
    qed (use leaf in simp)
  next
    have "sum_list (map (\<lambda>c. eval_sz (nd g4 c)) (kids ?x)) = sum_list (map (\<lambda>c. eval_sz (nd g c)) (kids ?x))"
      using kq by (intro arg_cong [where f = sum_list] map_cong refl) simp
    then show "sum_list (map (\<lambda>c. eval_sz (nd g4 c)) (kids (nd g4 n))) = sum_list (map (\<lambda>c. eval_sz (nd g c)) (kids ?x)) + eval_sz (nd g4 m)"
      by (simp add: x4)
  qed (use oth mn in \<open>auto simp: x4\<close>)
  then show ?thesis using run by (intro exI [of _ "root_grown n (eval_sz (nd g4 m)) g4"]) (simp add: root_grown_def x4)
qed

lemma InsertChild_leaf:
  assumes b: "building h L n fs g" and t: "\<not> is_meta_tag t" and wf: "wf_field t ty v" and ev: "0 \<le> eval_sz (nd g n)" "0 \<le> knv_eval_field_length t ty v"
  shows "\<exists>c g'. InsertChild_new n t ty None (Some v) g = Some (c, g') \<and> c \<noteq> 0 \<and> building h L n (fs @ [(t, ty, v)]) g' \<and>
    nd_key (nd g' n) = nd_key (nd g n) \<and> no_key (nd g' n) = no_key (nd g n) \<and> nd_tag (nd g' n) = nd_tag (nd g n)"
proof -
  note B = building_parts [OF b]
  let ?x = "nd g n" and ?K = "set (kids (nd g n))" and ?f = "(t, ty, v)" and ?cl = "childlist (nd g n) @ [fst (np_New g)]"
  obtain c g0 where new: "np_New g = (c, g0)" by fastforce
  define g1 where "g1 = InitNode c t ty (Some v) True 0 False g0"
  note N = np_New_ok [OF B(11) new]
  have t0: "t \<noteq> 0" using wf by (simp add: wf_field_def)
  have kn: "KnvNode_New t ty PB_WT_STRING None (Some v) g = Some (c, g1)"
    using t0 by (simp add: KnvNode_New_def new g1_def)
  have cn: "c \<noteq> n" "c \<notin> L" "c \<notin> ?K" using N(1) B(1) by auto
  have o1: "nd g1 q = nd g q" if "q \<noteq> c" for q using that N(4) by (simp add: g1_def)
  have x1: "nd g1 n = ?x" using o1 cn(1) by simp
  have R: "list_all2 (kid_ok g n) (metalist ?x) (meta_fields fs)" "list_all2 (kid_ok g n) (childlist ?x) (child_fields fs)"
    "child_num ?x = int (length (childlist ?x))" "ht_ok g n (set (childlist ?x))"
    "metalist ?x \<noteq> [] \<Longrightarrow> is_meta_tag t \<Longrightarrow> metas ?x (unat t) = last (0 # filter (\<lambda>c. nd_tag (nd g c) = t) (metalist ?x))"
    "\<forall>c \<in> set (childlist ?x). k_val (nd_key (nd g c)) \<noteq> [] \<longrightarrow> child_has_key ?x" for t
    using B(8) by (simp_all add: kids_rep_def Let_def)
  have kc: "q \<noteq> c \<and> q \<noteq> n" if "q \<in> ?K" for q using that cn(3) B(1,12) by (metis IntI empty_iff)
  have ok1: "ht_ok g1 n (set (childlist (nd g1 n)))"
    unfolding x1 by (rule ht_ok_frame [OF R(4)]) (use kc o1 in \<open>auto simp: x1\<close>)
  note leaf = InitNode_leaf [OF wf, of "upd c (\<lambda>x. x\<lparr>nd_parent := n\<rparr>) g1" c n False g0, folded g1_def, OF refl]
  have ec: "eval_sz (nd g1 c) = knv_eval_field_length t ty v"
    using leaf(4) InitNode_flen [of t ty c v 0 False g0] by (simp add: g1_def)
  have run: "\<exists>g2. inserted n c (childlist ?x @ [c]) g1 g2 \<and> InnerInsertChild n c True True True g1 =
    map_option (Pair 0) (UpdateParentEvalueAndSetDirty n (eval_sz (nd g2 n) - eval_sz (nd g1 n)) g2)"
    by (rule InnerInsertChild_steps [OF ok1]) (use N(2) cn kc ev ec B(4,13) in \<open>simp_all add: x1\<close>)
  then obtain g2 where g2: "inserted n c (childlist ?x @ [c]) g1 g2" "InnerInsertChild n c True True True g1 =
    map_option (Pair 0) (UpdateParentEvalueAndSetDirty n (eval_sz (nd g2 n) - eval_sz (nd g1 n)) g2)" by blast
  note D = insertedD [OF g2(1)]
  have "par g2 n = 0" using D(6) [of n] cn(1) B(5) by (simp add: x1)
  then have ins: "InnerInsertChild n c True True True g1 = Some (0, g2)"
    using g2(2) by (simp add: UpdateParentEvalueAndSetDirty_def update_loop.simps [of 0])
  have all: "InsertChild_new n t ty None (Some v) g = Some (c, g2)"
    using kn ins N(2) B(4,10) R(3) by (simp add: InsertChild_new_def InsertChild_def x1)
  have kq: "\<exists>x. nd g2 q = (nd g q)\<lparr>ht_next := x\<rparr>" if "q \<noteq> n" "q \<noteq> c" for q
    using that D(1-14) [of q] D(22,23) [of q] o1 [of q] by (intro exI [of _ "hnext g2 q"] KnvNode.equality) simp_all
  have kc2: "kid_ok g2 n c ?f"
    using InitNode_kid [OF N(5,6), of n t ty v 0 False] D(1,2) [of c] D(5-10) [of c] D(13) [of c] cn(1) by (simp add: kid_ok_def Let_def g1_def)
  have all2: "list_all2 (kid_ok g2 n) cs fs'" if cs: "list_all2 (kid_ok g n) cs fs'" "set cs \<subseteq> ?K" for cs fs'
  proof (rule list.rel_mono_strong [OF cs(1)])
    fix q f' assume "q \<in> set cs" "kid_ok g n q f'"
    moreover obtain x where "nd g2 q = (nd g q)\<lparr>ht_next := x\<rparr>" using kq kc cs(2) \<open>q \<in> set cs\<close> by blast
    ultimately show "kid_ok g2 n q f'" by (simp add: kid_ok_def Let_def split: prod.splits)
  qed
  have x2: "metalist (nd g2 n) = metalist ?x" "childlist (nd g2 n) = childlist ?x @ [c]" "child_num (nd g2 n) = child_num ?x + 1"
    "metas (nd g2 n) = metas ?x" "child_has_key (nd g2 n) \<longleftrightarrow> child_has_key ?x \<or> k_val (nd_key (nd g1 c)) \<noteq> []"
    using D(5,7,8,22,23) [of n] by (simp_all add: x1)
  have sel: "nd_tag (nd g2 q) = nd_tag (nd g q) \<and> nd_key (nd g2 q) = nd_key (nd g q)" if "q \<in> ?K" for q
    using kq [of q] kc [OF that] by auto
  have rep: "kids_rep g2 n (fs @ [?f])"
    unfolding kids_rep_def Let_def
  proof (intro conjI impI allI)
    show "list_all2 (kid_ok g2 n) (metalist (nd g2 n)) (meta_fields (fs @ [?f]))" using t all2 [OF R(1)] by (simp add: x2)
    show "list_all2 (kid_ok g2 n) (childlist (nd g2 n)) (child_fields (fs @ [?f]))"
      using t all2 [OF R(2)] kc2 by (simp add: x2 list_all2_appendI)
    show "child_num (nd g2 n) = int (length (childlist (nd g2 n)))" by (simp add: x2 R(3))
    show "ht_ok g2 n (set (childlist (nd g2 n)))" using D(19) by (simp add: x2 x1)
    show "\<forall>q \<in> set (childlist (nd g2 n)). k_val (nd_key (nd g2 q)) \<noteq> [] \<longrightarrow> child_has_key (nd g2 n)"
      using R(6) sel D(3) [of c] by (auto simp: x2)
    fix u :: u32 assume m: "metalist (nd g2 n) \<noteq> []" and u: "is_meta_tag u"
    have "filter (\<lambda>c. nd_tag (nd g2 c) = u) (metalist ?x) = filter (\<lambda>c. nd_tag (nd g c) = u) (metalist ?x)"
      using sel by (intro filter_cong) auto
    then show "metas (nd g2 n) (unat u) = last (0 # filter (\<lambda>c. nd_tag (nd g2 c) = u) (metalist (nd g2 n)))"
      using R(5) [OF _ u] m by (simp add: x2)
  qed
  have kk: "set (kids (nd g2 n)) = insert c ?K" by (auto simp: x2)
  have p1: "pool_ok g1 (insert c (L \<union> ?K))" by (rule pool_ok_frame [OF N(3)]) (auto simp: g1_def)
  have "nd_ht (nd g2 m) = nd_ht (nd g1 m) \<and> subnode_dirty (nd g2 m) = subnode_dirty (nd g1 m)" if "m \<in> set (np_free g1)" for m
  proof -
    have "m \<noteq> n" using p1 that B(1) by (auto simp: pool_ok_def)
    then show ?thesis using D(10,13) by blast
  qed
  then have "pool_ok g2 (insert c (L \<union> ?K))" using p1 by (simp add: pool_ok_def D(20,21))
  then have ex: "expanding g2 L n (fs @ [?f]) g2"
    using rep B(2,12) cn kk by (auto simp: expanding_parts x2)
  have lc: "shape_ok (nd g2 c) \<and> size_ok g2 c"
  proof -
    let ?g = "upd c (\<lambda>x. x\<lparr>nd_parent := n\<rparr>) g1"
    have "\<exists>x. nd g2 c = (nd ?g c)\<lparr>ht_next := x\<rparr>"
      using cn(1) D(1-14) [of c] D(22,23) [of c] by (intro exI [of _ "hnext g2 c"] KnvNode.equality) simp_all
    moreover have "kid_ok ?g n c ?f" unfolding g1_def by (rule InitNode_kid [OF N(5,6)])
    ultimately show ?thesis using kid_keeps [OF leaf(1,2)] by blast
  qed
  have "building h L n (fs @ [?f]) g2"
  proof (rule building_intro [OF B(1) ex])
    fix q assume q: "q \<in> set (kids (nd g2 n))"
    show "shape_ok (nd g2 q) \<and> size_ok g2 q"
    proof (cases "q = c")
      case False
      then have q: "q \<in> ?K" using q kk by auto
      obtain f' x where "kid_ok g n q f'" "nd g2 q = (nd g q)\<lparr>ht_next := x\<rparr>" using kid_exists [OF B(8) q] kq kc [OF q] by blast
      moreover have "shape_ok (nd g q)" "size_ok g q" using B(7) q by blast+
      ultimately show ?thesis using kid_keeps by blast
    qed (use lc in simp)
  next
    fix q assume q: "q \<in> L - {n}"
    then have "q \<noteq> c" "q \<noteq> n" "q \<notin> insert c (set (childlist (nd g1 n)))" using cn(2) B(12) by (auto simp: x1)
    then have "nd g2 q = nd g q" using kq [of q] D(14) [of q] o1 [of q] by auto
    then show "nd g2 q = nd h q" using B(3) q by simp
  next
    have "sum_list (map (\<lambda>q. eval_sz (nd g2 q)) (kids ?x)) = sum_list (map (\<lambda>q. eval_sz (nd g q)) (kids ?x))"
      using D(11) o1 kc by (intro arg_cong [where f = sum_list] map_cong refl) simp
    then show "eval_val_sz (nd g2 n) = sum_list (map (\<lambda>q. eval_sz (nd g2 q)) (kids (nd g2 n)))"
      using D(17) D(11) [OF cn(1)] B(14) by (simp add: x2 x1)
  qed (use D(1,2,6,15,16,18) cn(1) B(4,5,7) in \<open>auto simp: x1 x2 shape_ok_def\<close>)
  then show ?thesis using all N(2) D(1,3,4) [of n] by (intro exI [of _ c] exI [of _ g2]) (simp add: x1)
qed

section \<open>The bytes of the tree\<close>

definition wf_fields :: "field list \<Rightarrow> bool" where
  "wf_fields fs \<longleftrightarrow> list_all (\<lambda>(t, ty, v). wf_field t ty v) fs"

text \<open>Metas come before children.\<close>

definition wire_fields :: "field list \<Rightarrow> field list" where
  "wire_fields fs = meta_fields fs @ child_fields fs"

lemma kid_bytes:
  assumes "kid_ok g n c (t, ty, v)" "shape_ok (nd g c)" "wf_field t ty v"
  shows "is_leaf (nd g c)" "field_bytes (nd_tag (nd g c)) (nd_type (nd g c)) (nd_val (nd g c)) = field_bytes t ty v"
proof -
  have k: "nd_tag (nd g c) = t" "nd_type (nd g c) = ty" "val_view ty (nd_val (nd g c)) = val_view ty v"
    "child_num (nd g c) \<in> {-1, 0}" "childlist (nd g c) = []" "metalist (nd g c) = []"
    using assms(1) by (simp_all add: kid_ok_def Let_def)
  show l: "is_leaf (nd g c)" using k by (auto simp: is_leaf_def)
  show "field_bytes (nd_tag (nd g c)) (nd_type (nd g c)) (nd_val (nd g c)) = field_bytes t ty v"
  proof (cases "ty = PB_WT_STRING")
    case True
    have s: "str_bytes (nd_val (nd g c)) = str_bytes v" using k(3) True by (simp add: val_view_def)
    have "length (val_data (nd_val (nd g c))) = unat (val_i32 (nd_val (nd g c)))" "length (val_data v) = unat (val_i32 v)"
      using assms(2,3) True l k(2) by (auto simp: shape_ok_def is_folded_def wf_field_def)
    then have "unat (val_i32 (nd_val (nd g c))) = unat (val_i32 v)" using arg_cong [OF s, of length] by (simp add: str_bytes_def)
    then have "val_i32 (nd_val (nd g c)) = val_i32 v" by (simp add: word_unat_eq_iff)
    then show ?thesis using s True k(1,2) by (simp add: field_bytes_def str_bytes_def)
  next
    case False
    then have "val_i64 (nd_val (nd g c)) = val_i64 v" using k(3) by (simp add: val_view_def)
    then show ?thesis using False k(1,2) by (cases ty) (simp_all add: field_bytes_def val_i32_def)
  qed
qed

lemma wf_fieldsD: "wf_fields fs \<Longrightarrow> (t, ty, v) \<in> set fs \<Longrightarrow> wf_field t ty v"
  by (auto simp: wf_fields_def list_all_iff)

lemma building_fields:
  assumes "building h L n fs g"
  shows "list_all2 (kid_ok g n) (kids (nd g n)) (wire_fields fs)"
  using building_parts(8) [OF assms] by (simp add: kids_rep_def Let_def wire_fields_def list_all2_appendI)

abbreviation enc_field :: "field \<Rightarrow> byte list" where
  "enc_field \<equiv> \<lambda>(t, ty, v). field_bytes t ty v"

lemma wire_set [simp]: "set (wire_fields fs) = set fs"
  by (auto simp: wire_fields_def meta_fields_def child_fields_def)

lemma building_enc:
  assumes b: "building h L n fs g" and wf: "wf_fields fs"
  shows "list_all2 (\<lambda>c f. knv_enc g c (enc_field f) \<and> (length (enc_field f) < 2 ^ 31 \<longrightarrow> eval_sz (nd g c) = int (length (enc_field f))))
    (kids (nd g n)) (wire_fields fs)"
proof (rule list.rel_mono_strong [OF building_fields [OF b]])
  fix c f assume c: "c \<in> set (kids (nd g n))" and f: "f \<in> set (wire_fields fs)" and k: "kid_ok g n c f"
  obtain t ty v where fe: "f = (t, ty, v)" by (cases f)
  have sh: "shape_ok (nd g c)" "size_ok g c" using building_parts(7) [OF b] c by blast+
  note kb = kid_bytes [OF k [unfolded fe] sh(1) wf_fieldsD [OF wf]]
  have kb: "is_leaf (nd g c)" "field_bytes (nd_tag (nd g c)) (nd_type (nd g c)) (nd_val (nd g c)) = field_bytes t ty v"
    using kb f fe by simp_all
  show "knv_enc g c (enc_field f) \<and> (length (enc_field f) < 2 ^ 31 \<longrightarrow> eval_sz (nd g c) = int (length (enc_field f)))"
    using enc_leaf [OF kb(1) kb(2) [symmetric]] leaf_size [OF sh kb(1) kb(2) [symmetric]] fe by simp
qed

lemma building_size:
  assumes b: "building h L n fs g" and wf: "wf_fields fs" and len: "length (fields_bytes (wire_fields fs)) + 20 < 2 ^ 31"
  shows "eval_val_sz (nd g n) = int (length (fields_bytes (wire_fields fs)))" "int (length (fields_bytes (wire_fields fs))) \<le> eval_sz (nd g n)"
    "eval_sz (nd g n) < 2 ^ 31"
proof -
  note B = building_parts [OF b]
  have "list_all2 (\<lambda>c bs. length bs < 2 ^ 31 \<longrightarrow> eval_sz (nd g c) = int (length bs)) (kids (nd g n)) (map enc_field (wire_fields fs))"
    using building_enc [OF b wf] by (simp add: list_all2_map2) (erule list_all2_mono, simp)
  then have "sum_list (map (\<lambda>c. eval_sz (nd g c)) (kids (nd g n))) = int (length (fields_bytes (wire_fields fs)))"
    unfolding fields_bytes_def by (rule list_all2_enc_sizes) (use len in \<open>simp add: fields_bytes_def\<close>)
  then show vs: "eval_val_sz (nd g n) = int (length (fields_bytes (wire_fields fs)))" using B(14) by simp
  let ?H = "head_bytes (nd_tag (nd g n)) (length (fields_bytes (wire_fields fs)))"
  have "nd_tag (nd g n) < 2 ^ 29" using B(7) [of n] by (simp add: shape_ok_def)
  moreover have "length (?H @ fields_bytes (wire_fields fs)) < 2 ^ 31"
    using len head_length [of "nd_tag (nd g n)" "length (fields_bytes (wire_fields fs))"] by simp
  ultimately have "eval_sz (nd g n) = int (length (?H @ fields_bytes (wire_fields fs)))"
    unfolding B(13) vs using B(10) by (intro flen_head)
  then show "int (length (fields_bytes (wire_fields fs))) \<le> eval_sz (nd g n)" "eval_sz (nd g n) < 2 ^ 31"
    using len head_length [of "nd_tag (nd g n)" "length (fields_bytes (wire_fields fs))"] by simp_all
qed

text \<open>The root and its fields satisfy the invariant of trees, whatever else is in the heap.\<close>

lemma pool_ok_subset: "pool_ok g L \<Longrightarrow> M \<subseteq> L \<Longrightarrow> pool_ok g M"
  by (auto simp: pool_ok_def finite_subset)

lemma building_inv:
  assumes b: "building h L n fs g" and key: "key_ok g n"
  shows "knv_inv g (insert n (set (kids (nd g n))))"
proof -
  note B = building_parts [OF b]
  let ?K = "set (kids (nd g n))"
  have k: "par g c = n" "childlist (nd g c) = []" "metalist (nd g c) = []" "nd_ht (nd g c) = KnvHt_clear" "\<not> subnode_dirty (nd g c)" "is_leaf (nd g c)"
    if c: "c \<in> ?K" for c
  proof -
    obtain f where "kid_ok g n c f" using kid_exists [OF B(8) c] by blast
    then show "par g c = n" "childlist (nd g c) = []" "metalist (nd g c) = []" "nd_ht (nd g c) = KnvHt_clear" "\<not> subnode_dirty (nd g c)" "is_leaf (nd g c)"
      by (auto simp: kid_ok_def is_leaf_def Let_def split: prod.splits)
  qed
  have n: "n \<notin> ?K" "n \<noteq> 0" using B(1,11,12) by (auto simp: pool_ok_def)
  have pool: "pool_ok g (insert n ?K)" by (rule pool_ok_subset [OF B(11)]) (use B(1) in auto)
  have edge: "a = n \<and> c \<in> ?K" if "(a, c) \<in> edges g (insert n ?K)" for a c
  proof (cases "a \<in> ?K")
    case True
    then have "kids (nd g a) = []" using k(2,3) [OF True] by simp
    then show ?thesis using that by (simp add: edges_def)
  next
    case False
    then show ?thesis using that unfolding edges_def by blast
  qed
  have "x = n \<and> y \<in> ?K" if "(x, y) \<in> (edges g (insert n ?K))\<^sup>+" for x y
    using that by (induction rule: trancl_induct) (use edge in blast)+
  then have "acyclic (edges g (insert n ?K))" using n(1) unfolding acyclic_def by metis
  moreover have "index_ok g n" using B(8) by (simp add: index_ok_def kids_rep_def Let_def)
  moreover have "link_ok g (insert n ?K) n" using B(2,5) k(1) by (auto simp: link_ok_def expanding_parts)
  moreover have "dirty_ok g n" using B(5) by (simp add: dirty_ok_def)
  moreover have "clean_ok g n"
  proof (cases "kids (nd g n) = []")
    case True
    then have "is_leaf (nd g n)" using B(8) by (simp add: is_leaf_def kids_rep_def Let_def)
    then show ?thesis by (simp add: clean_ok_def)
  next
    case False
    then have "subnode_dirty (nd g n)" using b unfolding building_def by blast
    then show ?thesis by (simp add: clean_ok_def)
  qed
  moreover have "key_ok g c \<and> clean_ok g c \<and> dirty_ok g c \<and> link_ok g (insert n ?K) c \<and> index_ok g c" if c: "c \<in> ?K" for c
    using k [OF c] c n ht_clear_ok [of g c] by (simp add: key_ok_def clean_ok_def dirty_ok_def link_ok_def index_ok_def)
  ultimately show ?thesis unfolding knv_inv_def using pool B(7) key by blast
qed

lemma building_key:
  assumes b: "building h L n fs g" and wf: "wf_fields fs"
    and k: "nd_key (nd g n) = \<lparr>k_type = PB_WT_STRING, k_val = app\<rparr>" "app \<noteq> [] \<Longrightarrow> \<exists>r. fs = (1, PB_WT_STRING, str_val app) # r"
  shows "key_ok g n"
  unfolding key_ok_def
proof (intro impI)
  assume "has_key (nd g n) \<and> \<not> is_leaf (nd g n)"
  then have "app \<noteq> []" using k(1) by (simp add: has_key_def)
  then obtain r where fs: "fs = (1, PB_WT_STRING, str_val app) # r" using k(2) by blast
  have m1: "is_meta_tag 1" by (simp add: UC_MAX_META_NUM_def)
  have "list_all2 (kid_ok g n) (metalist (nd g n)) (meta_fields fs)" using building_parts(8) [OF b] by (simp add: kids_rep_def Let_def)
  then obtain m ms where m: "metalist (nd g n) = m # ms" "kid_ok g n m (1, PB_WT_STRING, str_val app)"
    using m1 by (auto simp: fs meta_fields_def list_all2_Cons2)
  have "m \<in> set (kids (nd g n))" using m(1) by simp
  then have sh: "shape_ok (nd g m)" using building_parts(7) [OF b] by blast
  have "wf_field 1 PB_WT_STRING (str_val app)" using wf by (simp add: fs wf_fields_def)
  note kb = kid_bytes [OF m(2) sh this]
  have t: "nd_tag (nd g m) = 1" "nd_type (nd g m) = PB_WT_STRING" using m(2) by (simp_all add: kid_ok_def Let_def)
  show "\<exists>m ms. metalist (nd g n) = m # ms \<and> nd_tag (nd g m) = 1 \<and> is_leaf (nd g m) \<and> nd_type (nd g m) = k_type (nd_key (nd g n)) \<and>
        field_bytes 1 (k_type (nd_key (nd g n))) (nd_val (nd g m)) = field_bytes 1 (k_type (nd_key (nd g n))) (key_GetValue (nd_key (nd g n)))"
    using m(1) t kb k(1) by (intro exI [of _ m] exI [of _ ms]) (simp add: key_GetValue_def)
qed

lemma building_Serialize:
  assumes b: "building h L n fs g" and wf: "wf_fields fs" and fs: "fs \<noteq> []" and key: "key_ok g n"
    and len: "length (fields_bytes (wire_fields fs)) + 20 < 2 ^ 31"
  shows "EvaluateSize n g = Some (eval_sz (nd g n), g)" "Serialize n (eval_sz (nd g n)) False g = Some (0, fields_bytes (wire_fields fs), g)"
proof -
  note B = building_parts [OF b] and S = building_size [OF b wf len]
  show "EvaluateSize n g = Some (eval_sz (nd g n), g)" by (rule EvaluateSize_cached) (use S(2) in linarith)
  let ?bss = "map enc_field (wire_fields fs)"
  have cc: "concat ?bss = fields_bytes (wire_fields fs)" by (simp add: fields_bytes_def)
  have inv: "knv_inv g (insert n (set (kids (nd g n))))" by (rule building_inv [OF b key])
  have e: "list_all2 (knv_enc g) (kids (nd g n)) ?bss"
    using building_enc [OF b wf] by (simp add: list_all2_map2) (erule list_all2_mono, simp)
  have "wire_fields fs \<noteq> []" using fs wire_set [of fs] by (metis set_empty)
  then have ne: "kids (nd g n) \<noteq> []" using e by auto
  have nf: "\<not> is_folded (nd g n)"
    using shape_not_leaf [OF _ ne] B(6,7) by (auto simp: is_folded_def IsBufferValid_def)
  have kid: "list_all2 (\<lambda>c bs. \<forall>s. int (length bs) \<le> s \<longrightarrow> s < 2 ^ 31 \<longrightarrow> Serialize c s True g = Some (0, bs, g)) (kids (nd g n)) ?bss"
  proof (rule list.rel_mono_strong [OF e])
    fix c bs assume "c \<in> set (kids (nd g n))" "bs \<in> set ?bss" "knv_enc g c bs"
    then show "\<forall>s. int (length bs) \<le> s \<longrightarrow> s < 2 ^ 31 \<longrightarrow> Serialize c s True g = Some (0, bs, g)"
      using Serialize_enc [OF inv] by auto
  qed
  show "Serialize n (eval_sz (nd g n)) False g = Some (0, fields_bytes (wire_fields fs), g)"
    by (rule Serialize_node [OF inv _ nf e kid])
       (use S len head_length [of "nd_tag (nd g n)" "length (fields_bytes (wire_fields fs))"] cc in simp_all)
qed

section \<open>Fields of a root\<close>

lemma building_key_upd:
  assumes b: "building h L n fs g"
  shows "building h L n fs (upd n (\<lambda>x. x\<lparr>nd_key := k, no_key := nk\<rparr>) g)"
proof -
  let ?g = "upd n (\<lambda>x. x\<lparr>nd_key := k, no_key := nk\<rparr>) g"
  note B = building_parts [OF b]
  have kn: "c \<noteq> n" if "c \<in> set (kids (nd g n))" for c using that B(1,12) by (metis IntI empty_iff)
  have y: "nd ?g n = (nd g n)\<lparr>nd_key := k, no_key := nk\<rparr>" by simp
  have e: "expanding ?g L n fs ?g"
    by (rule expanding_sizes [OF B(2,1), where s = "\<lambda>c. eval_sz (nd g c)" and vs = "\<lambda>c. eval_val_sz (nd g c)"
          and k = k and nk = nk and d = "subnode_dirty (nd g n)" and v = "nd_val (nd g n)"]) (use kn in simp_all)
  have sums: "sum_list (map (\<lambda>c. eval_sz (nd ?g c)) (kids (nd g n))) = sum_list (map (\<lambda>c. eval_sz (nd g c)) (kids (nd g n)))"
    using kn by (intro arg_cong [where f = sum_list] map_cong refl) simp
  have n: "shape_ok (nd ?g n)" "size_ok ?g n"
    using B(7) [of n] sums by (simp_all add: shape_ok_def size_ok_def is_folded_def is_leaf_def IsBufferValid_def Let_def)
  have "shape_ok (nd ?g c) \<and> size_ok ?g c" if "c \<in> insert n (set (kids (nd ?g n)))" for c
  proof (cases "c = n")
    case False
    then have c: "c \<in> set (kids (nd g n))" using that by simp
    obtain f where "kid_ok g n c f" using kid_exists [OF B(8) c] by blast
    moreover have "shape_ok (nd g c)" "size_ok g c" using B(7) c by blast+
    ultimately show ?thesis using kid_keeps [of g c n f ?g "ht_next (nd g c)"] False by simp
  qed (use n in simp)
  then show ?thesis using b e unfolding building_def by (simp add: y)
qed

lemma key_init_str: "length bs < 65536 \<Longrightarrow> key_init PB_WT_STRING (Some (str_val bs)) = \<lparr>k_type = PB_WT_STRING, k_val = bs\<rparr>"
  using val_i32_str_val(2) [of bs] by (simp add: key_init_def val_i32_str_val)

text \<open>The first string field of a root without fields is also its key.\<close>

lemma SetFieldStr_key:
  assumes b: "building h L n [] g" and nk: "\<not> no_key (nd g n)" and len: "length bs < 65536"
    and ev: "0 \<le> eval_sz (nd g n)"
  shows "\<exists>g'. SetFieldStr n 1 bs g = Some (0, g') \<and> building h L n (if bs = [] then [] else [(1, PB_WT_STRING, str_val bs)]) g' \<and>
    nd_key (nd g' n) = \<lparr>k_type = PB_WT_STRING, k_val = bs\<rparr> \<and> \<not> no_key (nd g' n) \<and> nd_tag (nd g' n) = nd_tag (nd g n)"
proof -
  let ?k = "\<lparr>k_type = PB_WT_STRING, k_val = bs\<rparr>"
  define g1 where "g1 = upd n (\<lambda>x. x\<lparr>nd_key := ?k, no_key := False\<rparr>) g"
  have g1: "upd n (\<lambda>x. x\<lparr>nd_key := ?k\<rparr>) g = g1" using nk by (auto simp: g1_def upd_def fun_eq_iff)
  have b1: "building h L n [] g1" unfolding g1_def by (rule building_key_upd [OF b])
  note B = building_parts [OF b1]
  have p: "nd_parent (nd g n) = 0" using building_parts(5) [OF b] .
  have m1: "is_meta_tag 1" by (simp add: UC_MAX_META_NUM_def)
  have run: "SetFieldStr n 1 bs g = SetKey n PB_WT_STRING (Some (str_val bs)) g"
    using m1 nk by (simp add: SetFieldStr_def SetMetaStr_def SetMeta_public_def)
  have gm: "GetMeta n 1 g1 = Some (0, g1)" using GetMeta_rep [OF B(8,10,9) m1] by (auto simp: last_field_def)
  obtain g2 where g2: "(if bs \<noteq> [] then SetMeta n 1 PB_WT_STRING (Some (str_val bs)) False True g1 else InnerRemoveMeta n 1 g1) = Some (0, g2)"
    "building h L n (if bs = [] then [] else [(1, PB_WT_STRING, str_val bs)]) g2" "nd_key (nd g2 n) = ?k" "nd_tag (nd g2 n) = nd_tag (nd g n)"
  proof (cases "bs = []")
    case True
    have "InnerRemoveMeta n 1 g1 = Some (0, g1)" using gm B(10) m1 by (simp add: InnerRemoveMeta_def)
    then show ?thesis using True b1 that [of g1] by (simp add: g1_def)
  next
    case False
    have "wf_field 1 PB_WT_STRING (str_val bs)" using len by (intro wf_str_val) simp_all
    moreover have "metalist (nd g1 n) = []" using B(8) by (simp add: kids_rep_def meta_fields_def Let_def)
    moreover have "0 \<le> eval_sz (nd g1 n)" using ev by (simp add: g1_def)
    ultimately obtain g' where "SetMeta n 1 PB_WT_STRING (Some (str_val bs)) False True g1 = Some (0, g')"
      "building h L n ([] @ [(1, PB_WT_STRING, str_val bs)]) g'" "nd_key (nd g' n) = nd_key (nd g1 n)" "nd_tag (nd g' n) = nd_tag (nd g1 n)"
      using SetMeta_new [OF b1 m1, of PB_WT_STRING "str_val bs" False] by (auto simp: last_field_def)
    then show ?thesis using False that [of g'] by (simp add: g1_def)
  qed
  define g3 where "g3 = upd n (\<lambda>x. x\<lparr>no_key := False\<rparr>) g2"
  have "g3 = upd n (\<lambda>x. x\<lparr>nd_key := ?k, no_key := False\<rparr>) g2" using g2(3) by (auto simp: g3_def upd_def fun_eq_iff)
  then have b3: "building h L n (if bs = [] then [] else [(1, PB_WT_STRING, str_val bs)]) g3" using building_key_upd [OF g2(2)] by simp
  have p2: "nd_parent (nd g2 n) = 0" using building_parts(5) [OF g2(2)] .
  have ki: "key_init PB_WT_STRING (Some (str_val bs)) = ?k" by (rule key_init_str [OF len])
  have "SetKey n PB_WT_STRING (Some (str_val bs)) g = Some (0, g3)"
  proof (cases "bs = []")
    case True
    then show ?thesis using p p2 g2(1) g1 ki by (simp add: SetKey_def parent_remove_def parent_put_def g3_def)
  next
    case False
    then show ?thesis using p p2 g2(1) g1 ki by (simp add: SetKey_def parent_remove_def parent_put_def g3_def key_GetValue_def Let_def)
  qed
  then show ?thesis using run b3 g2(3,4) by (intro exI [of _ g3]) (simp add: g3_def)
qed

end
