(* ===== verification/Knv_Request.thy ===== *)
theory Knv_Request
  imports Knv_Build
begin

text \<open>
  The operations of \<open>KnvNode\<close> that work on two trees (\<open>knv/knv_node.cc\<close>): extraction of the part of a data tree that a request
  tree names, deletion and update by such a tree, the request tree of a data tree, and the comparison of two trees.

  The loops run over child lists that the bodies do not change, except by removing the node they are at, so a loop is a fold over
  the list at its start; its state begins with the value with which the code returns early, 0 while there is none. Memory does
  not run out in the model, so the branches for a failed allocation do not occur.
\<close>

section \<open>Definitions\<close>

abbreviation key_of :: "knv_heap \<Rightarrow> nat \<Rightarrow> byte list" where
  "key_of h n \<equiv> k_val (nd_key (nd h n))"

definition delete_tree :: "nat \<Rightarrow> knv_heap \<Rightarrow> knv_heap option" where
  "delete_tree n h = (if n \<noteq> 0 then KnvNode_Delete n h else Some h)"

text \<open>The nodes of a chain of the hash table, from one on.\<close>

partial_function (option) ht_chain :: "knv_heap \<Rightarrow> nat \<Rightarrow> nat list option" where
  "ht_chain h c = (if c = 0 then Some [] else Option.bind (ht_chain h (ht_next (nd h c))) (\<lambda>cs. Some (c # cs)))"

definition FindChildByTag_pos :: "nat \<Rightarrow> u32 \<Rightarrow> knv_heap \<Rightarrow> (nat \<times> HtPos option \<times> knv_heap) option" where
  "FindChildByTag_pos n t h =
     (if nd_tag (nd h n) = 0 then Some (0, None, h)
      else do {
        (num, h1) \<leftarrow> GetChildNum n h;
        (if num \<le> 0 then Some (0, None, h1)
         else if child_has_key (nd h1 n)
         then Some (case List.find (\<lambda>c. nd_tag (nd h1 c) = t) (childlist (nd h1 n)) of Some c \<Rightarrow> c | None \<Rightarrow> 0, None, h1)
         else map_option (\<lambda>(c, pos). (c, Some pos, h1)) (KnvHt_get_pos h1 n t [])) })"

subsection \<open>Extraction\<close>

text \<open>\<open>key.len\<close> and \<open>key.val\<close> are copied, \<open>key.type\<close> is not.\<close>

definition copy_key :: "nat \<Rightarrow> nat \<Rightarrow> knv_heap \<Rightarrow> knv_heap" where
  "copy_key from to h =
     (if key_of h from \<noteq> [] then upd to (\<lambda>x. x\<lparr>nd_key := (nd_key x)\<lparr>k_val := key_of h from\<rparr>\<rparr>) h else h)"

definition DUPLICATE_NODE_META :: "nat \<Rightarrow> nat \<Rightarrow> knv_heap \<Rightarrow> nat \<times> knv_heap" where
  "DUPLICATE_NODE_META pt from h = (if pt = 0 then DupEmptyNode from h else (pt, h))"

text \<open>Adding an extracted child to a result tree that is made when it is needed.\<close>

definition add_result :: "nat \<Rightarrow> nat \<Rightarrow> nat \<Rightarrow> knv_heap \<Rightarrow> (nat \<times> knv_heap) option" where
  "add_result pt from c h =
     (if c = 0 then Some (pt, h)
      else case DUPLICATE_NODE_META pt from h of (m, h1) \<Rightarrow> map_option (\<lambda>(_, h2). (m, h2)) (InnerInsertChild m c True False False h1))"

text \<open>The loop over the metas of the request: state \<open>(ret, out, h)\<close>.\<close>

definition request_meta :: "nat \<Rightarrow> nat \<Rightarrow> int \<times> nat \<times> knv_heap \<Rightarrow> (int \<times> nat \<times> knv_heap) option" where
  "request_meta n m s =
     (case s of (ret, out, h) \<Rightarrow>
        let x = nd h m; md = metas (nd h n) (unat (nd_tag x))
        in if ret \<noteq> 0 \<or> nd_tag x = 1 \<or> nd_type x \<noteq> PB_WT_VARINT \<or> val_i64 (nd_val x) = 0 \<or> md = 0 then Some s
           else case DUPLICATE_NODE_META out n h of (o1, h1) \<Rightarrow> do {
             (l, h2) \<leftarrow> KnvNode_GetValue md h1;
             (case l of
                None \<Rightarrow> map_option (\<lambda>h3. (-4, o1, h3)) (KnvNode_Delete o1 h2)
              | Some v \<Rightarrow> map_option (\<lambda>(_, h3). (0, o1, h3)) (SetMeta o1 (nd_tag (nd h2 md)) (nd_type (nd h2 md)) (Some v) False False h2)) })"

text \<open>The nodes of the data tree that a child of the request names.\<close>

definition request_targets :: "nat \<Rightarrow> nat \<Rightarrow> knv_heap \<Rightarrow> nat list option" where
  "request_targets n sub_req h =
     (let t = nd_tag (nd h sub_req); same = (\<lambda>c. nd_tag (nd h c) = t)
      in if key_of h sub_req \<noteq> []
         then map_option (\<lambda>c. if c = 0 then [] else [c]) (KnvHt_get h n t (key_of h sub_req))
         else if \<not> child_has_key (nd h n)
         then do { c \<leftarrow> KnvHt_get h n t []; cs \<leftarrow> ht_chain h c; Some (filter same cs) }
         else Some (filter same (childlist (nd h n))))"

definition node_size :: "nat \<Rightarrow> knv_heap \<Rightarrow> knv_heap" where
  "node_size n h = (if n \<noteq> 0 then upd n (\<lambda>x. x\<lparr>eval_sz := knv_eval_field_length (nd_tag x) PB_WT_STRING (len_val (eval_val_sz x))\<rparr>) h else h)"

text \<open>The result is \<open>(ret, out, empty, h)\<close>; the state of the loops has the same form.\<close>

partial_function (option) InnerGetSubTree :: "nat \<Rightarrow> nat \<Rightarrow> bool \<Rightarrow> knv_heap \<Rightarrow> (int \<times> nat \<times> nat \<times> knv_heap) option" where
  "InnerGetSubTree n req_tree no_empty h =
     (if nd_type (nd h req_tree) \<noteq> PB_WT_STRING \<and> val_i64 (nd_val (nd h req_tree)) = 0 then Some (0, 0, 0, h)
      else do {
        h1 \<leftarrow> InnerExpand req_tree False h;
        (if child_num (nd h1 req_tree) \<le> 0
         then do {
           (out, h2) \<leftarrow> InnerDuplicate n True h1;
           Some (if out = 0 then (-2, 0, 0, h2) else (0, out, 0, copy_key n out h2)) }
         else do {
           h2 \<leftarrow> InnerExpand n (\<not> child_has_key (nd h1 req_tree)) h1;
           (if child_num (nd h2 n) \<le> 0
            then if no_empty then Some (0, 0, 0, h2)
                 else do {
                   (empty, h3) \<leftarrow> InnerDuplicate req_tree True h2;
                   Some (if empty = 0 then (-3, 0, 0, h3) else (0, 0, empty, copy_key req_tree empty h3)) }
            else do {
              (r1, out1, h3) \<leftarrow> mfold (request_meta n) (metalist (nd h2 req_tree)) (0, 0, h2);
              (if r1 \<noteq> 0 then Some (r1, out1, 0, h3)
               else do {
                 (r, out, empty, h4) \<leftarrow> mfold (\<lambda>sub_req s.
                   if fst s \<noteq> 0 then Some s
                   else do {
                     targets \<leftarrow> request_targets n sub_req (snd (snd (snd s)));
                     s1 \<leftarrow> mfold (\<lambda>sub_data u.
                       if fst u \<noteq> 0 then Some u
                       else do {
                         let (_, out, empty, g) = u;
                         (ret, so, se, g1) \<leftarrow> InnerGetSubTree sub_data sub_req no_empty g;
                         (if ret \<noteq> 0
                          then do { g2 \<leftarrow> delete_tree out g1; g3 \<leftarrow> delete_tree empty g2; Some (-2, 0, 0, g3) }
                          else do {
                            (out1, g2) \<leftarrow> add_result out n so g1;
                            (empty1, g3) \<leftarrow> (if no_empty then Some (empty, g2) else add_result empty req_tree se g2);
                            Some (0, out1, empty1, g3) }) }) targets s;
                     (if fst s1 \<noteq> 0 \<or> targets \<noteq> [] \<or> no_empty then Some s1
                      else do {
                        let (_, out, empty, g) = s1;
                        let (empty1, g1) = DUPLICATE_NODE_META empty req_tree g;
                        (ret, g2) \<leftarrow> InnerInsertChild empty1 sub_req False False False g1;
                        (if ret \<noteq> 0
                         then do { g3 \<leftarrow> delete_tree out g2; g4 \<leftarrow> delete_tree empty1 g3; Some (-1, 0, 0, g4) }
                         else Some (0, out, empty1, g2)) }) }) (childlist (nd h3 req_tree)) (0, out1, 0, h3);
                 Some (r, out, empty, if r = 0 then node_size out (node_size empty h4) else h4) }) }) }) })"

text \<open>With a bad argument the code does not assign \<open>out\<close> and \<open>empty\<close>; 0 stands for what they held.\<close>

definition GetSubTree :: "nat \<Rightarrow> nat \<Rightarrow> bool \<Rightarrow> knv_heap \<Rightarrow> (int \<times> nat \<times> nat \<times> knv_heap) option" where
  "GetSubTree n req_tree no_empty h =
     (if req_tree = 0 \<or> nd_tag (nd h req_tree) = 0 then Some (-1, 0, 0, h)
      else if nd_tag (nd h n) \<noteq> nd_tag (nd h req_tree) \<or> key_of h req_tree \<noteq> [] \<and> \<not> key_eq (nd_key (nd h n)) (nd_key (nd h req_tree))
      then Some (0, 0, 0, h)
      else InnerGetSubTree n req_tree no_empty h)"

subsection \<open>Deletion\<close>

text \<open>Noting a deleted part in the tree of what was deleted.\<close>

definition add_match :: "nat \<Rightarrow> nat \<Rightarrow> nat \<Rightarrow> knv_heap \<Rightarrow> (nat \<times> knv_heap) option" where
  "add_match match req_tree sub_match h = do {
     (m, h1) \<leftarrow> (if match = 0 then NewTree (nd_tag (nd h req_tree)) (Some (nd_key (nd h req_tree))) h else Some (match, h));
     map_option (\<lambda>(_, h2). (m, h2)) (InnerInsertChild m sub_match True False True h1) }"

text \<open>The result is \<open>(ret, match_req_tree, h)\<close>: 1 when the whole tree is to be deleted.\<close>

partial_function (option) DeleteSubTree :: "nat \<Rightarrow> nat \<Rightarrow> nat \<Rightarrow> knv_heap \<Rightarrow> (int \<times> nat \<times> knv_heap) option" where
  "DeleteSubTree n req_tree match0 h =
     (if req_tree = 0 \<or> nd_tag (nd h req_tree) = 0 then Some (-1, match0, h)
      else if nd_tag (nd h n) \<noteq> nd_tag (nd h req_tree) \<or> key_of h req_tree \<noteq> [] \<and> \<not> key_eq (nd_key (nd h n)) (nd_key (nd h req_tree))
      then Some (0, 0, h)
      else do {
        h1 \<leftarrow> InnerExpand req_tree False h;
        (if child_num (nd h1 req_tree) \<le> 0
         then map_option (\<lambda>(m, g). (1, m, g))
           (if key_of h1 req_tree \<noteq> [] then NewTree (nd_tag (nd h1 req_tree)) (Some (nd_key (nd h1 req_tree))) h1
            else KnvNode_New (nd_tag (nd h1 req_tree)) PB_WT_VARINT PB_WT_STRING None (Some (int_val 1)) h1)
         else do {
           h2 \<leftarrow> InnerExpand n (\<not> child_has_key (nd h1 req_tree)) h1;
           (if child_num (nd h2 n) \<le> 0 then Some (0, 0, h2)
            else do {
              (r, match, h3) \<leftarrow> mfold (\<lambda>sub_req s.
                if fst s \<noteq> 0 then Some s
                else let g = snd (snd s); t = nd_tag (nd g sub_req)
                in if key_of g sub_req \<noteq> []
                   then do {
                     (c, pos) \<leftarrow> KnvHt_get_pos g n t (key_of g sub_req);
                     (if c = 0 then Some s
                      else do {
                        (ret, sub_match, g1) \<leftarrow> DeleteSubTree c sub_req 0 g;
                        (if ret < 0 then map_option (\<lambda>g2. (-4, 0, g2)) (delete_tree (fst (snd s)) g1)
                         else do {
                           (m1, g2) \<leftarrow> (if sub_match \<noteq> 0 then add_match (fst (snd s)) req_tree sub_match g1 else Some (fst (snd s), g1));
                           (num, g3) \<leftarrow> (if ret = 1 then Some (0, g2) else GetChildNum c g2);
                           g4 \<leftarrow> (if num \<le> 0 then map_option snd (RemoveChildByPos n c (Some pos) g3) else Some g3);
                           Some (0, m1, g4) }) }) }
                   else do {
                     g1 \<leftarrow> InnerExpand sub_req False g;
                     (if child_num (nd g1 sub_req) \<le> 0
                      then if nd_type (nd g1 sub_req) = PB_WT_STRING \<or> nd_type (nd g1 sub_req) = PB_WT_VARINT \<and> val_i64 (nd_val (nd g1 sub_req)) \<noteq> 0
                           then do {
                             (_, g2) \<leftarrow> RemoveChildrenByTag n t g1;
                             (m1, g3) \<leftarrow> (if fst (snd s) = 0 then NewTree (nd_tag (nd g2 req_tree)) (Some (nd_key (nd g2 req_tree))) g2
                                          else Some (fst (snd s), g2));
                             (ret, g4) \<leftarrow> InnerInsertChild m1 sub_req False False True g3;
                             (if ret \<noteq> 0 then map_option (\<lambda>g5. (-6, 0, g5)) (delete_tree m1 g4) else Some (0, m1, g4)) }
                           else Some (0, fst (snd s), g1)
                      else mfold (\<lambda>c u.
                        if fst u \<noteq> 0 \<or> nd_tag (nd (snd (snd u)) c) \<noteq> t then Some u
                        else do {
                          (ret, sub_match, g2) \<leftarrow> DeleteSubTree c sub_req 0 (snd (snd u));
                          (if ret < 0 then map_option (\<lambda>g3. (-4, 0, g3)) (delete_tree (fst (snd u)) g2)
                           else do {
                             (m1, g3) \<leftarrow> (if sub_match \<noteq> 0 then add_match (fst (snd u)) req_tree sub_match g2 else Some (fst (snd u), g2));
                             (num, g4) \<leftarrow> (if ret = 1 then Some (0, g3) else GetChildNum c g3);
                             g5 \<leftarrow> (if num \<le> 0 then map_option snd (RemoveChildByPos n c None g4) else Some g4);
                             Some (0, m1, g5) }) }) (childlist (nd g1 n)) (0, fst (snd s), g1)) })
                (childlist (nd h2 req_tree)) (0, 0, h2);
              (if r \<noteq> 0 then Some (r, match, h3)
               else do {
                 (num, h4) \<leftarrow> GetChildNum n h3;
                 Some (if num \<le> 0 then 1 else 0, match, h4) }) }) }) })"

subsection \<open>Update\<close>

text \<open>The tags of the last level are removed in the order of an \<open>unordered_set\<close>, which does not matter for the result; here
  it is the order of the first occurrences.\<close>

partial_function (option) UpdateSubTree :: "nat \<Rightarrow> nat \<Rightarrow> int \<Rightarrow> knv_heap \<Rightarrow> (int \<times> knv_heap) option" where
  "UpdateSubTree n update_tree max_level h =
     (if update_tree = 0 \<or> nd_tag (nd h update_tree) = 0 then Some (-1, h)
      else if nd_tag (nd h n) \<noteq> nd_tag (nd h update_tree) \<or> \<not> key_eq (nd_key (nd h n)) (nd_key (nd h update_tree)) then Some (0, h)
      else do {
        h1 \<leftarrow> (if max_level = 0 then do { g \<leftarrow> InnerExpand n True h; InnerExpand update_tree True g } else Some h);
        (unum, h2) \<leftarrow> (if max_level < 0 then Some (0, h1) else GetChildNum update_tree h1);
        (num, h3) \<leftarrow> (if unum \<le> 0 then Some (0, h2) else GetChildNum n h2);
        (if num \<le> 0
         then do {
           (l, h4) \<leftarrow> KnvNode_GetValue update_tree h3;
           (case l of
              None \<Rightarrow> Some (-2, h4)
            | Some v \<Rightarrow> map_option (\<lambda>(ret, h5). (if ret \<noteq> 0 then -3 else 0, h5)) (SetValue n (nd_type (nd h4 update_tree)) v h4)) }
         else do {
           (r1, h4) \<leftarrow> mfold (\<lambda>m s.
             let x = nd (snd s) m
             in if fst s \<noteq> 0 \<or> unat (nd_tag x) \<le> 1 then Some s
                else map_option (\<lambda>(ret, g). (if ret < 0 then -6 else 0, g)) (SetMeta n (nd_tag x) (nd_type x) (Some (nd_val x)) False True (snd s)))
             (metalist (nd h3 update_tree)) (0, h3);
           (if r1 \<noteq> 0 then Some (r1, h4)
            else do {
              let level = max_level - 1;
              let subs = childlist (nd h4 update_tree);
              h5 \<leftarrow> (if level < 0
                      then mfold (\<lambda>t g. map_option snd (RemoveChildrenByTag n t g)) (remdups (map (\<lambda>c. nd_tag (nd h4 c)) subs)) h4
                      else Some h4);
              mfold (\<lambda>sub_update s.
                if fst s \<noteq> 0 then Some s
                else do {
                  sub_data \<leftarrow> (if level \<ge> 0 then KnvHt_get (snd s) n (nd_tag (nd (snd s) sub_update)) (key_of (snd s) sub_update) else Some 0);
                  (if sub_data \<noteq> 0
                   then do {
                     (ret, g) \<leftarrow> UpdateSubTree sub_data sub_update level (snd s);
                     Some (if ret \<noteq> 0 then -4 else 0, g) }
                   else map_option (\<lambda>(ret, g). (if ret \<noteq> 0 then -5 else 0, g)) (InnerInsertChild n sub_update False False True (snd s))) })
                subs (0, h5) }) }) })"

subsection \<open>Request trees\<close>

partial_function (option) MakeRequestTree :: "nat \<Rightarrow> int \<Rightarrow> knv_heap \<Rightarrow> (nat \<times> knv_heap) option" where
  "MakeRequestTree n max_level h =
     (if nd_tag (nd h n) = 0 then Some (0, h)
      else do {
        (num, h1) \<leftarrow> (if max_level < 0 then Some (0, h) else GetChildNum n h);
        (if num \<le> 0
         then if child_num (nd h1 n) < 0 \<or> metalist (nd h1 n) = []
              then KnvNode_New (nd_tag (nd h1 n)) PB_WT_VARINT PB_WT_STRING None (Some (int_val 1)) h1
              else NewTree (nd_tag (nd h1 n)) (Some (nd_key (nd h1 n))) h1
         else do {
           (bad, new_tr, h2) \<leftarrow> mfold (\<lambda>sub_tree s.
             if fst s then Some s
             else do {
               (tr, g1) \<leftarrow> (if fst (snd s) = 0 then NewTree (nd_tag (nd (snd (snd s)) n)) (Some (nd_key (nd (snd (snd s)) n))) (snd (snd s))
                            else Some (snd s));
               (sub_req, g2) \<leftarrow> MakeRequestTree sub_tree (max_level - 1) g1;
               (if sub_req = 0 then Some (True, 0, g2)
                else map_option (\<lambda>(_, g3). (False, tr, g3)) (InnerInsertChild tr sub_req True False True g2)) })
             (childlist (nd h1 n)) (False, 0, h1);
           Some (new_tr, h2) }) })"

subsection \<open>Comparison\<close>

text \<open>The result is the tree of the differences, or 0, and \<open>nRetCode\<close>. The state of the loop is \<open>(stopped, pstRetNode, nRetCode, h)\<close>.\<close>

partial_function (option) Compare :: "nat \<Rightarrow> nat \<Rightarrow> knv_heap \<Rightarrow> (nat \<times> int \<times> knv_heap) option" where
  "Compare n pstNode h =
     (if pstNode = 0 \<or> \<not> key_eq (nd_key (nd h n)) (nd_key (nd h pstNode))
      then map_option (\<lambda>(d, h1). (d, if d = 0 then 1 else 0, h1)) (Duplicate n h)
      else do {
        (first, h1) \<leftarrow> GetFirstChild n h;
        (_, r, code, h2) \<leftarrow> mfold (\<lambda>c s.
          if fst s then Some s
          else do {
            let (_, pstRetNode, _, g) = s;
            (cmp, g1) \<leftarrow> FindChild pstNode (nd_tag (nd g c)) (key_of g c) g;
            (if cmp = 0
             then if pstRetNode = 0
                  then map_option (\<lambda>(m, g2). (True, 0, if m = 0 then 1 else 0, g2)) (NewTree (nd_tag (nd g1 n)) (Some (nd_key (nd g1 n))) g1)
                  else do {
                    (ret, g2) \<leftarrow> InsertChild pstRetNode c False True g1;
                    (if ret \<noteq> 0 then map_option (\<lambda>g3. (True, 0, 1, g3)) (KnvNode_Delete pstRetNode g2) else Some (False, pstRetNode, 0, g2)) }
             else do {
               (sub, code, g2) \<leftarrow> Compare c cmp g1;
               (if code \<noteq> 0 then map_option (\<lambda>g3. (True, 0, code, g3)) (delete_tree pstRetNode g2)
                else if sub = 0 then Some (False, pstRetNode, 0, g2)
                else if pstRetNode = 0
                then map_option (\<lambda>(m, g3). (True, 0, if m = 0 then 1 else 0, g3)) (NewTree (nd_tag (nd g2 n)) (Some (nd_key (nd g2 n))) g2)
                else do {
                  (ret, g3) \<leftarrow> InsertChild pstRetNode sub True False g2;
                  (if ret \<noteq> 0 then map_option (\<lambda>g4. (True, 0, 1, g4)) (KnvNode_Delete pstRetNode g3) else Some (False, pstRetNode, 0, g3)) }) }) })
          (if first = 0 then [] else childlist (nd h1 n)) (False, 0, 0, h1);
        Some (r, code, h2) })"

subsection \<open>Iteration\<close>

definition GetNextMeta :: "nat \<Rightarrow> knv_heap \<Rightarrow> nat" where
  "GetNextMeta cur h = (if cur = 0 then 0 else case siblings_after h cur of [] \<Rightarrow> 0 | d # _ \<Rightarrow> d)"

declare ht_chain.simps [code] InnerGetSubTree.simps [code] DeleteSubTree.simps [code] UpdateSubTree.simps [code] MakeRequestTree.simps [code] Compare.simps [code]

section \<open>Comparison finds nothing\<close>

lemma mfold_invariant:
  assumes "mfold f xs s = Some s'" "P s" "\<And>x s s'. x \<in> set xs \<Longrightarrow> P s \<Longrightarrow> f x s = Some s' \<Longrightarrow> P s'"
  shows "P s'"
  using assms
proof (induction xs arbitrary: s)
  case (Cons x xs)
  then obtain s1 where s1: "f x s = Some s1" "mfold f xs s1 = Some s'" by (auto split: bind_splits)
  have "P s1" using Cons.prems(3) [OF _ Cons.prems(2) s1(1)] by simp
  then show ?case using Cons.IH [OF s1(2)] Cons.prems(3) by (metis list.set_intros(2))
qed simp

text \<open>\<open>Compare\<close> never reports a difference between nodes with the same key. When the result tree would have to be made, for the
  first child that is missing in the other tree or differs from its counterpart, the function makes it, loses it and returns \<open>NULL\<close>
  with return code 0: whatever the two trees are, every call that returns says that they are equal, unless the keys differ.\<close>

theorem Compare_blind:
  assumes "pstNode \<noteq> 0" "key_eq (nd_key (nd h n)) (nd_key (nd h pstNode))" "Compare n pstNode h = Some (r, code, h')"
  shows "r = 0"
proof -
  obtain first h1 where G: "GetFirstChild n h = Some (first, h1)"
    using assms by (subst (asm) Compare.simps) (auto split: bind_splits)
  have inv: "\<And>F xs b c g. mfold F xs (False, 0, 0, h1) = Some (b, r, c, g) \<Longrightarrow>
      (\<And>x s s'. fst (snd s) = (0 :: nat) \<Longrightarrow> F x s = Some s' \<Longrightarrow> fst (snd s') = 0) \<Longrightarrow> r = 0"
    by (drule mfold_invariant [where P = "\<lambda>s. fst (snd s) = 0"]) auto
  from assms(3) show ?thesis
    apply (subst (asm) Compare.simps)
    apply (simp add: assms(1,2) G split: bind_splits prod.splits)
    apply (erule inv)
    apply (auto simp: Let_def split: if_splits bind_splits prod.splits)
    done
qed

text \<open>Two trees, of which only the first has a child.\<close>

theorem Compare_blind_witness:
  "\<exists>m g0 n g1 c g2 code h'. NewTree 1 None knv_empty = Some (m, g0) \<and> NewTree 1 None g0 = Some (n, g1) \<and>
     InsertChild_new n 11 PB_WT_VARINT None (Some (int_val 5)) g1 = Some (c, g2) \<and> c \<noteq> 0 \<and> Compare n m g2 = Some (0, code, h')"
proof -
  obtain m g0 where m: "NewTree 1 None knv_empty = Some (m, g0)" "m \<noteq> 0" "building knv_empty (insert m {}) m [] g0"
    "nd_key (nd g0 m) = \<lparr>k_type = PB_WT_STRING, k_val = []\<rparr>" "nd_tag (nd g0 m) = 1"
    using building_new [OF empty_pool, of 1] by auto
  have "kids (nd g0 m) = []" "child_num (nd g0 m) = 0"
    using building_parts(8) [OF m(3)] by (auto simp: kids_rep_def Let_def meta_fields_def child_fields_def)
  moreover have "pool_ok g0 {m}" using building_parts(11) [OF m(3)] calculation by simp
  ultimately obtain n g1 where n: "NewTree 1 None g0 = Some (n, g1)" "n \<notin> {m}" "building g0 (insert n {m}) n [] g1"
    "nd_key (nd g1 n) = \<lparr>k_type = PB_WT_STRING, k_val = []\<rparr>" "nd_tag (nd g1 n) = 1" and m0: "child_num (nd g0 m) = 0"
    using building_new [of g0 "{m}" 1] by auto
  have e: "0 \<le> eval_sz (nd g1 n)"
    using building_size(2) [OF n(3)] by (simp add: wf_fields_def wire_fields_def meta_fields_def child_fields_def fields_bytes_def)
  have w: "wf_field 11 PB_WT_VARINT (int_val 5)" by (simp add: wf_field_def)
  have "0 \<le> knv_eval_field_length 11 PB_WT_VARINT (int_val 5)" using flen_field_bytes [OF w] by (simp add: field_bytes_def enc_eval)
  with e obtain c g2 where c: "InsertChild_new n 11 PB_WT_VARINT None (Some (int_val 5)) g1 = Some (c, g2)" "c \<noteq> 0"
    "building g0 (insert n {m}) n [(11, PB_WT_VARINT, int_val 5)] g2" "nd_key (nd g2 n) = nd_key (nd g1 n)" "nd_tag (nd g2 n) = nd_tag (nd g1 n)"
    using InsertChild_leaf [OF n(3) _ w] by (auto simp: UC_MAX_META_NUM_def)
  have mm: "nd g2 m = nd g0 m" using building_parts(3) [OF c(3)] n(2) by auto
  have k: "key_eq (nd_key (nd g2 n)) (nd_key (nd g2 m))" using mm m(4) n(4) c(4) by (simp add: key_eq_def)
  have R: "kids_rep g2 n [(11, PB_WT_VARINT, int_val 5)]" "0 \<notin> set (kids (nd g2 n))" using building_parts(8,9) [OF c(3)] by simp_all
  then obtain d where d: "childlist (nd g2 n) = [d]" "child_num (nd g2 n) = 1" "d \<noteq> 0"
    by (auto simp: kids_rep_def Let_def child_fields_def list_all2_Cons2 UC_MAX_META_NUM_def)
  have ex: "Expand n g2 = Some (0, g2)" "Expand m g2 = Some (0, g2)"
    using c(5) n(5) d(2) mm m(5) m0 by (simp_all add: Expand_def InnerExpand_def)
  have F: "FindChild m t x g2 = Some (0, g2)" for t x using ex(2) mm m(5) m0 by (simp add: FindChild_def)
  obtain p q where N: "NewTree (nd_tag (nd g2 n)) (Some (nd_key (nd g2 n))) g2 = Some (p, q)"
    using c(4,5) n(4,5) by (cases "np_New g2") (auto simp: NewTree_def KnvNode_New_def key_GetValue_def key_init_def str_val_def Let_def)
  have "\<exists>code h'. Compare n m g2 = Some (0, code, h')"
    using k m(2) d ex(1) F N by (subst Compare.simps) (simp add: GetFirstChild_def)
  then obtain r code h' where C: "Compare n m g2 = Some (r, code, h')" by blast
  have "r = 0" by (rule Compare_blind [OF m(2) k C])
  then show ?thesis using m(1) n(1) c(1,2) C by blast
qed

end
