(* ===== verification/Knv_Protocol.thy ===== *)
theory Knv_Protocol
  imports Knv_Request
begin

text \<open>
  Packets of the node library (\<open>knv/protocol.h\<close>, \<open>knv/protocol.cc\<close>): a tree with a header and bodies, the fields of the header that
  the class keeps in members, encoding to bytes in two formats, and splitting of a packet into parts and their merging.

  \<open>retmsg\<close> with \<open>retmsglen\<close> is \<open>None\<close> for a null pointer and else the bytes; \<open>rspaddr\<close> is its \<open>addr_len\<close> bytes. An operation returns its
  C++ result, the object and the heap, and \<open>None\<close> when it does not return or reads outside a buffer or through a null pointer. The
  argument \<open>alloc\<close> is \<open>UcMemManager::Alloc\<close>: for a size \<open>None\<close>, or what the new buffer holds; an encoder returns the buffer with
  the size. Error texts and printing are left out; of \<open>Print\<close> there is only what it does to the nodes.
\<close>

section \<open>Definitions\<close>

definition KNV_PKG_TAG :: u32 where "KNV_PKG_TAG = 0xdb3"

definition KNV_PKG_HDR_TAG :: u32 where "KNV_PKG_HDR_TAG = 0xbad"

definition KNV_PKG_BDY_TAG :: u32 where "KNV_PKG_BDY_TAG = 0xdad"

definition KNV_PKG_PART_TAG_BASE :: u32 where "KNV_PKG_PART_TAG_BASE = 0x1ee"

definition KNV_PKG_HDR_CMD_TAG :: u32 where "KNV_PKG_HDR_CMD_TAG = 2"

definition KNV_PKG_HDR_SUBCMD_TAG :: u32 where "KNV_PKG_HDR_SUBCMD_TAG = 3"

definition KNV_PKG_HDR_SEQ_TAG :: u32 where "KNV_PKG_HDR_SEQ_TAG = 4"

definition KNV_PKG_HDR_RET_TAG :: u32 where "KNV_PKG_HDR_RET_TAG = 7"

definition KNV_PKG_HDR_ERR_TAG :: u32 where "KNV_PKG_HDR_ERR_TAG = 8"

definition KNV_PKG_HDR_RSP_ADDR :: u32 where "KNV_PKG_HDR_RSP_ADDR = 2001"

definition KNV_PKG_HDR_ALLOW_SPLIT :: u32 where "KNV_PKG_HDR_ALLOW_SPLIT = 2002"

definition KNV_PKG_HDR_MAX_PKG_SIZE :: u32 where "KNV_PKG_HDR_MAX_PKG_SIZE = 2003"

definition KNV_PKG_HDR_TOTAL_SPLIT_COUNT :: u32 where "KNV_PKG_HDR_TOTAL_SPLIT_COUNT = 2004"

definition KNV_PKG_HDR_CURR_SPLIT_INDEX :: u32 where "KNV_PKG_HDR_CURR_SPLIT_INDEX = 2005"

definition KNV_DEFUALT_MAX_PKG_SIZE :: "16 word" where "KNV_DEFUALT_MAX_PKG_SIZE = 64000"

definition STX_IPV6_PB :: byte where "STX_IPV6_PB = 0x28"

definition ETX_IPV6_PB :: byte where "ETX_IPV6_PB = 0x29"

definition STX_KNV_BDY :: "byte list" where "STX_KNV_BDY = [0xea, 0xda]"

record KnvProtocol =
  pt_tree :: nat
  pt_header :: nat
  pt_body :: nat
  pt_cmd :: u32
  pt_subcmd :: u32
  pt_seq :: u64
  pt_retcode :: u32
  pt_retmsg :: "byte list option"
  pt_rspaddr :: "byte list"
  pt_allow_split :: byte
  pt_max_pkg_sz :: "16 word"
  total_split_count :: byte
  curr_split_index :: byte
  pt_auto_delete :: bool

subsection \<open>Decoding\<close>

definition pt_IsValid :: "KnvProtocol \<Rightarrow> knv_heap \<Rightarrow> bool" where
  "pt_IsValid p h \<longleftrightarrow> pt_tree p \<noteq> 0 \<and> nd_tag (nd h (pt_tree p)) = KNV_PKG_TAG"

definition INIT_HEADER_INFO :: "KnvProtocol \<Rightarrow> KnvProtocol" where
  "INIT_HEADER_INFO p = p\<lparr>pt_cmd := 0, pt_subcmd := 0, pt_seq := 0, pt_retcode := 0, pt_retmsg := None, pt_rspaddr := [],
     pt_allow_split := 0, pt_max_pkg_sz := 0, total_split_count := 0, curr_split_index := 0\<rparr>"

text \<open>The value of a meta or child of the header, when it is there and has the type.\<close>

definition typed_value :: "pb_wire_type \<Rightarrow> nat \<times> knv_heap \<Rightarrow> pb_val option \<times> knv_heap" where
  "typed_value ty m = (case m of (c, h) \<Rightarrow> (if c \<noteq> 0 \<and> nd_type (nd h c) = ty then Some (nd_val (nd h c)) else None, h))"

definition header_meta :: "nat \<Rightarrow> u32 \<Rightarrow> pb_wire_type \<Rightarrow> knv_heap \<Rightarrow> (pb_val option \<times> knv_heap) option" where
  "header_meta n t ty h = map_option (typed_value ty) (GetMeta n t h)"

definition header_child :: "nat \<Rightarrow> u32 \<Rightarrow> pb_wire_type \<Rightarrow> knv_heap \<Rightarrow> (pb_val option \<times> knv_heap) option" where
  "header_child n t ty h = map_option (typed_value ty) (FindChildByTag n t h)"

abbreviation i64_of :: "pb_val option \<Rightarrow> u64" where
  "i64_of v \<equiv> case v of None \<Rightarrow> 0 | Some w \<Rightarrow> val_i64 w"

abbreviation i32_of :: "pb_val option \<Rightarrow> u32" where
  "i32_of v \<equiv> case v of None \<Rightarrow> 0 | Some w \<Rightarrow> val_i32 w"

definition InitHeaderInfo :: "KnvProtocol \<Rightarrow> knv_heap \<Rightarrow> (KnvProtocol \<times> knv_heap) option" where
  "InitHeaderInfo p h =
     (let p0 = INIT_HEADER_INFO p; n = pt_header p
      in if n = 0 then Some (p0, h)
         else do {
           (cm, h1) \<leftarrow> header_meta n KNV_PKG_HDR_CMD_TAG PB_WT_VARINT h;
           (sc, h2) \<leftarrow> header_meta n KNV_PKG_HDR_SUBCMD_TAG PB_WT_VARINT h1;
           (rt, h3) \<leftarrow> header_meta n KNV_PKG_HDR_RET_TAG PB_WT_VARINT h2;
           (er, h4) \<leftarrow> header_meta n KNV_PKG_HDR_ERR_TAG PB_WT_STRING h3;
           (sq, h5) \<leftarrow> header_meta n KNV_PKG_HDR_SEQ_TAG PB_WT_VARINT h4;
           (ad, h6) \<leftarrow> header_child n KNV_PKG_HDR_RSP_ADDR PB_WT_STRING h5;
           (al, h7) \<leftarrow> header_child n KNV_PKG_HDR_ALLOW_SPLIT PB_WT_VARINT h6;
           (mx, h8) \<leftarrow> header_child n KNV_PKG_HDR_MAX_PKG_SIZE PB_WT_VARINT h7;
           (tc, h9) \<leftarrow> header_child n KNV_PKG_HDR_TOTAL_SPLIT_COUNT PB_WT_VARINT h8;
           (ci, h10) \<leftarrow> header_child n KNV_PKG_HDR_CURR_SPLIT_INDEX PB_WT_VARINT h9;
           Some (p0\<lparr>pt_cmd := i32_of cm, pt_subcmd := i32_of sc, pt_retcode := i32_of rt,
                    pt_retmsg := map_option str_bytes er, pt_seq := i64_of sq,
                    pt_rspaddr := (case ad of None \<Rightarrow> [] | Some v \<Rightarrow> if str_len v = 16 \<or> str_len v = 28 then str_bytes v else []),
                    pt_allow_split := (if i64_of al \<noteq> 0 then 1 else 0), pt_max_pkg_sz := ucast (i64_of mx),
                    total_split_count := ucast (i64_of tc), curr_split_index := ucast (i64_of ci)\<rparr>, h10) })"

partial_function (option) FindFirstBody :: "nat \<Rightarrow> knv_heap \<Rightarrow> nat option" where
  "FindFirstBody b h = (if b \<noteq> 0 \<and> nd_tag (nd h b) \<noteq> KNV_PKG_BDY_TAG then FindFirstBody (GetSibling b h) h else Some b)"

partial_function (option) KnvNode_Print :: "nat \<Rightarrow> knv_heap \<Rightarrow> knv_heap option" where
  "KnvNode_Print n h =
     (if nd_tag (nd h n) = 0 then Some h
      else do {
        (_, h1) \<leftarrow> Expand n h;
        let x = nd h1 n;
        (if child_num x > 0 then mfold KnvNode_Print (childlist x) h1
         else if child_num x \<ge> 0 \<and> metalist x \<noteq> [] then Some h1
         else Option.bind (KnvNode_GetValue n h1) (\<lambda>(_, h2). Some h2)) })"

definition EXPAND_TREE :: "KnvProtocol \<Rightarrow> knv_heap \<Rightarrow> (int \<times> KnvProtocol \<times> knv_heap) option" where
  "EXPAND_TREE p h =
     (if pt_header p \<noteq> 0 then Some (0, p, h)
      else do {
        (c, h1) \<leftarrow> GetFirstChild (pt_tree p) h;
        b \<leftarrow> FindFirstBody c h1;
        (hdr, h2) \<leftarrow> FindChildByTag (pt_tree p) KNV_PKG_HDR_TAG h1;
        (if hdr = 0
         then do {
           h3 \<leftarrow> KnvNode_Print (pt_tree p) h2;
           h4 \<leftarrow> (if pt_auto_delete p then KnvNode_Delete (pt_tree p) h3 else Some h3);
           Some (-1, p\<lparr>pt_tree := 0, pt_body := 0\<rparr>, h4) }
         else Some (0, p\<lparr>pt_body := b, pt_header := hdr\<rparr>, h2)) })"

text \<open>The test of the tag negates the tag before it compares.\<close>

definition InitProtocol :: "KnvProtocol \<Rightarrow> knv_heap \<Rightarrow> (KnvProtocol \<times> knv_heap) option" where
  "InitProtocol p h = do {
     (bad, p1, h1) \<leftarrow>
       (if pt_tree p = 0 \<or> (if nd_tag (nd h (pt_tree p)) = 0 then 1 else 0) = KNV_PKG_TAG then Some (True, p, h)
        else map_option (\<lambda>(r, q, g). (r \<noteq> 0, q, g)) (EXPAND_TREE p h));
     (if bad
      then do {
        h2 \<leftarrow> (if pt_tree p1 \<noteq> 0 \<and> pt_auto_delete p1 then KnvNode_Delete (pt_tree p1) h1 else Some h1);
        InitHeaderInfo (p1\<lparr>pt_tree := 0, pt_header := 0, pt_body := 0\<rparr>) h2 }
      else InitHeaderInfo p1 h1) }"

text \<open>A new object; the members that no initialiser names get their values from \<open>INIT_HEADER_INFO\<close>.\<close>

definition new_protocol :: "nat \<Rightarrow> nat \<Rightarrow> nat \<Rightarrow> bool \<Rightarrow> KnvProtocol" where
  "new_protocol t hdr bdy del = \<lparr>pt_tree = t, pt_header = hdr, pt_body = bdy, pt_cmd = 0, pt_subcmd = 0, pt_seq = 0, pt_retcode = 0,
     pt_retmsg = None, pt_rspaddr = [], pt_allow_split = 0, pt_max_pkg_sz = 0, total_split_count = 0, curr_split_index = 0,
     pt_auto_delete = del\<rparr>"

text \<open>The default constructor; the argument stands for the members it does not initialise.\<close>

definition KnvProtocol_default :: "KnvProtocol \<Rightarrow> KnvProtocol" where
  "KnvProtocol_default p = p\<lparr>pt_tree := 0, pt_header := 0, pt_body := 0\<rparr>"

definition KnvProtocol_copy ::
    "KnvProtocol \<Rightarrow> bool \<Rightarrow> bool \<Rightarrow> knv_heap \<Rightarrow> (KnvProtocol \<times> KnvProtocol \<times> knv_heap) option" where
  "KnvProtocol_copy proto take_ownership deep_copy h = do {
     let t = (if pt_IsValid proto h then pt_tree proto else 0);
     (p, proto', h1) \<leftarrow>
       (if take_ownership
        then if pt_auto_delete proto then Some (new_protocol t 0 0 True, proto\<lparr>pt_auto_delete := False\<rparr>, h)
             else if pt_tree proto \<noteq> 0
             then map_option (\<lambda>(d, g). (new_protocol d 0 0 True, proto, g)) (Duplicate (pt_tree proto) h)
             else Some (new_protocol t 0 0 True, proto, h)
        else if deep_copy \<and> t \<noteq> 0 then map_option (\<lambda>(d, g). (new_protocol d 0 0 True, proto, g)) (Duplicate t h)
        else Some (new_protocol t 0 0 False, proto, h));
     (p', h2) \<leftarrow> InitProtocol p h1;
     Some (p', proto', h2) }"

text \<open>The label \<open>failure\<close> of the constructor from a header and a body.\<close>

definition parts_failed :: "nat \<Rightarrow> nat \<Rightarrow> bool \<Rightarrow> knv_heap \<Rightarrow> (KnvProtocol \<times> knv_heap) option" where
  "parts_failed hdr bdy take_ownership h = do {
     h1 \<leftarrow> (if take_ownership then Option.bind (delete_tree hdr h) (delete_tree bdy) else Some h);
     InitProtocol (new_protocol 0 hdr bdy True) h1 }"

definition KnvProtocol_parts :: "nat \<Rightarrow> nat \<Rightarrow> bool \<Rightarrow> knv_heap \<Rightarrow> (KnvProtocol \<times> knv_heap) option" where
  "KnvProtocol_parts hdr bdy take_ownership h = do {
     (t, h1) \<leftarrow> NewTree KNV_PKG_TAG None h;
     (if t = 0 then parts_failed hdr bdy take_ownership h1
      else do {
        (r, h2) \<leftarrow> (if hdr = 0 then Some (-1, h1) else InsertChild t hdr take_ownership True h1);
        (if r \<noteq> 0 then Option.bind (KnvNode_Delete t h2) (parts_failed hdr bdy take_ownership)
         else do {
           (r', h3) \<leftarrow> (if bdy = 0 then Some (0, h2) else InsertChild t bdy take_ownership True h2);
           (t', h4) \<leftarrow>
             (if r' = 0 then Some (t, h3)
              else do {
                g1 \<leftarrow> KnvNode_Delete t h3;
                g2 \<leftarrow> (if take_ownership then KnvNode_Delete bdy g1 else Some g1);
                Some (0, g2) });
           (if take_ownership then InitProtocol (new_protocol t' hdr bdy True) h4
            else if t' = 0 then None
            else do {
              (e, p, h5) \<leftarrow> EXPAND_TREE (new_protocol t' 0 0 True) h4;
              InitProtocol (if e \<noteq> 0 then p\<lparr>pt_tree := 0\<rparr> else p) h5 }) }) }) }"

text \<open>The fields of an OIDB packet: STX, the two lengths in network order, header, body, ETX. \<open>total_len\<close> is computed in 32 bits.
  \<open>OidbWild\<close> is a packet for which the code reads outside the buffer.\<close>

datatype oidb = OidbBad | OidbWild | OidbPkg "byte list" "byte list"

definition be32 :: "u32 \<Rightarrow> byte list" where
  "be32 w = rev (le_bytes 4 w)"

definition ntohl_at :: "byte list \<Rightarrow> nat \<Rightarrow> u32" where
  "ntohl_at buf i = le_word (rev (take 4 (drop i buf)))"

definition oidb_parse :: "byte list \<Rightarrow> oidb" where
  "oidb_parse buf =
     (if length buf < 10 then OidbBad
      else let hlen = ntohl_at buf 1; blen = ntohl_at buf 5; total_len = sint (hlen + blen + 10 :: u32)
           in if total_len > int (length buf) then OidbBad
              else if total_len < 1 then OidbWild
              else if buf ! (nat total_len - 1) \<noteq> ETX_IPV6_PB then OidbBad
              else if 9 + unat hlen + unat blen > length buf then OidbWild
              else OidbPkg (take (unat hlen) (drop 9 buf)) (take (unat blen) (drop (9 + unat hlen) buf)))"

definition InitFromOidbPkg :: "byte list \<Rightarrow> KnvProtocol \<Rightarrow> knv_heap \<Rightarrow> (KnvProtocol \<times> knv_heap) option" where
  "InitFromOidbPkg buf p h =
     (case oidb_parse buf of
        OidbBad \<Rightarrow> Some (p, h)
      | OidbWild \<Rightarrow> None
      | OidbPkg hb bb \<Rightarrow> do {
          (hdr, h1) \<leftarrow> KnvNode_New KNV_PKG_HDR_TAG PB_WT_STRING PB_WT_VARINT None (Some (str_val hb)) h;
          (if hdr = 0 then Some (p\<lparr>pt_header := 0\<rparr>, h1)
           else if take 2 (drop (9 + length hb) buf) = STX_KNV_BDY
           then do {
             (t, h2) \<leftarrow> KnvNode_New KNV_PKG_TAG PB_WT_STRING PB_WT_VARINT None (Some (str_val bb)) h1;
             (if t = 0 then map_option (Pair (p\<lparr>pt_tree := 0, pt_header := 0\<rparr>)) (KnvNode_Delete hdr h2)
              else do {
                (r, h3) \<leftarrow> InsertChild t hdr True False h2;
                (if r < 0
                 then map_option (Pair (p\<lparr>pt_tree := 0, pt_header := 0\<rparr>)) (Option.bind (KnvNode_Delete hdr h3) (KnvNode_Delete t))
                 else Some (p\<lparr>pt_tree := t, pt_header := hdr\<rparr>, h3)) }) }
           else do {
             (bdy, h2) \<leftarrow> KnvNode_New KNV_PKG_BDY_TAG PB_WT_STRING PB_WT_VARINT None (Some (str_val bb)) h1;
             (t, h3) \<leftarrow> (if bdy \<noteq> 0 then NewTree KNV_PKG_TAG None h2 else Some (pt_tree p, h2));
             (if bdy = 0 \<or> t = 0
              then do {
                h4 \<leftarrow> KnvNode_Delete hdr h3;
                h5 \<leftarrow> delete_tree bdy h4;
                Some (p\<lparr>pt_tree := t, pt_header := 0, pt_body := 0\<rparr>, h5) }
              else do {
                (r, h4) \<leftarrow> InsertChild t hdr True True h3;
                (if r < 0
                 then do {
                   h5 \<leftarrow> KnvNode_Delete hdr h4;
                   h6 \<leftarrow> KnvNode_Delete bdy h5;
                   h7 \<leftarrow> KnvNode_Delete t h6;
                   Some (p\<lparr>pt_tree := 0, pt_header := 0, pt_body := 0\<rparr>, h7) }
                 else do {
                   (r', h5) \<leftarrow> InsertChild t bdy True True h4;
                   (if r' < 0
                    then do {
                      h6 \<leftarrow> KnvNode_Delete bdy h5;
                      h7 \<leftarrow> KnvNode_Delete t h6;
                      Some (p\<lparr>pt_tree := 0, pt_header := 0, pt_body := 0\<rparr>, h7) }
                    else Some (p\<lparr>pt_tree := t, pt_header := hdr, pt_body := bdy\<rparr>, h5)) }) }) }) })"

definition KnvProtocol_decode :: "byte list \<Rightarrow> knv_heap \<Rightarrow> (KnvProtocol \<times> knv_heap) option" where
  "KnvProtocol_decode buf h = do {
     (p, h1) \<leftarrow>
       (if buf \<noteq> [] \<and> hd buf = STX_IPV6_PB then InitFromOidbPkg buf (new_protocol 0 0 0 True) h
        else case KnvNode_New_data buf h of (t, g) \<Rightarrow> Some (new_protocol t 0 0 True, g));
     InitProtocol p h1 }"

definition pt_Delete :: "KnvProtocol \<Rightarrow> knv_heap \<Rightarrow> (KnvProtocol \<times> knv_heap) option" where
  "pt_Delete p h = do {
     h1 \<leftarrow> (if pt_auto_delete p then delete_tree (pt_tree p) h else Some h);
     Some (p\<lparr>pt_tree := 0, pt_header := 0, pt_body := 0\<rparr>, h1) }"

definition assign_bytes :: "KnvProtocol \<Rightarrow> byte list \<Rightarrow> knv_heap \<Rightarrow> (int \<times> KnvProtocol \<times> knv_heap) option" where
  "assign_bytes p buf h =
     (case KnvNode_New_data buf h of (tr, h1) \<Rightarrow>
        if tr = 0 then Some (-1, p, h1)
        else do {
          (p1, h2) \<leftarrow> pt_Delete p h1;
          (p2, h3) \<leftarrow> InitProtocol (p1\<lparr>pt_tree := tr, pt_auto_delete := True\<rparr>) h2;
          Some (0, p2, h3) })"

definition assign :: "KnvProtocol \<Rightarrow> KnvProtocol \<Rightarrow> bool \<Rightarrow> knv_heap \<Rightarrow> (int \<times> KnvProtocol \<times> KnvProtocol \<times> knv_heap) option" where
  "assign p prot own_buf h = do {
     (p1, h1) \<leftarrow> pt_Delete (p\<lparr>pt_cmd := pt_cmd prot, pt_subcmd := pt_subcmd prot, pt_seq := pt_seq prot, pt_retcode := pt_retcode prot,
       pt_rspaddr := pt_rspaddr prot, pt_allow_split := pt_allow_split prot, pt_max_pkg_sz := pt_max_pkg_sz prot,
       total_split_count := total_split_count prot, curr_split_index := curr_split_index prot\<rparr>) h;
     (if \<not> own_buf
      then Some (0, p1\<lparr>pt_tree := pt_tree prot, pt_header := pt_header prot, pt_body := pt_body prot, pt_retmsg := pt_retmsg prot,
                       pt_auto_delete := pt_auto_delete prot\<rparr>, prot\<lparr>pt_auto_delete := False\<rparr>, h1)
      else if pt_tree prot = 0 then None
      else do {
        (t, h2) \<leftarrow> Duplicate (pt_tree prot) h1;
        let p2 = p1\<lparr>pt_retmsg := None, pt_tree := t\<rparr>;
        (if t = 0 then Some (-1, p2, prot, h2)
         else do {
           (hdr, h3) \<leftarrow> FindChildByTag t KNV_PKG_HDR_TAG h2;
           (if hdr = 0
            then do {
              h4 \<leftarrow> KnvNode_Delete t h3;
              Some (-2, p2\<lparr>pt_tree := 0\<rparr>, prot, h4) }
            else do {
              (m, h4) \<leftarrow> header_meta hdr KNV_PKG_HDR_ERR_TAG PB_WT_STRING h3;
              (bdy, h5) \<leftarrow> FindChildByTag t KNV_PKG_BDY_TAG h4;
              Some (0, p2\<lparr>pt_header := hdr, pt_retmsg := map_option str_bytes m, pt_body := bdy, pt_auto_delete := True\<rparr>, prot, h5) }) }) }) }"

subsection \<open>Header, bodies and domains\<close>

definition GetHeader :: "KnvProtocol \<Rightarrow> knv_heap \<Rightarrow> nat" where
  "GetHeader p h = (if pt_IsValid p h then pt_header p else 0)"

text \<open>Whether there is a valid current body.\<close>

definition body_valid :: "KnvProtocol \<Rightarrow> knv_heap \<Rightarrow> bool" where
  "body_valid p h \<longleftrightarrow> pt_IsValid p h \<and> pt_body p \<noteq> 0 \<and> nd_tag (nd h (pt_body p)) \<noteq> 0"

definition GetBody :: "KnvProtocol \<Rightarrow> knv_heap \<Rightarrow> nat" where
  "GetBody p h = (if body_valid p h then pt_body p else 0)"

definition pt_GetKey :: "KnvProtocol \<Rightarrow> knv_heap \<Rightarrow> knv_key option" where
  "pt_GetKey p h = (if body_valid p h then Some (nd_key (nd h (pt_body p))) else None)"

definition GetHeaderIntField :: "KnvProtocol \<Rightarrow> u32 \<Rightarrow> knv_heap \<Rightarrow> (u64 \<times> knv_heap) option" where
  "GetHeaderIntField p ftag h = (if pt_header p \<noteq> 0 then GetFieldInt (pt_header p) ftag h else Some (0, h))"

definition GetHeaderStringField :: "KnvProtocol \<Rightarrow> u32 \<Rightarrow> knv_heap \<Rightarrow> (byte list \<times> knv_heap) option" where
  "GetHeaderStringField p ftag h = (if pt_header p \<noteq> 0 then GetFieldStr (pt_header p) ftag h else Some ([], h))"

definition SetHeaderIntField :: "KnvProtocol \<Rightarrow> u32 \<Rightarrow> u64 \<Rightarrow> knv_heap \<Rightarrow> (int \<times> KnvProtocol \<times> knv_heap) option" where
  "SetHeaderIntField p ftag new_val h =
     (if \<not> pt_IsValid p h then Some (-1, p, h)
      else do {
        (r, h1) \<leftarrow> SetFieldInt (pt_header p) ftag new_val h;
        Some (if r \<noteq> 0 then (-2, p, h1)
              else (0, if ftag = KNV_PKG_HDR_CMD_TAG then p\<lparr>pt_cmd := ucast new_val\<rparr>
                       else if ftag = KNV_PKG_HDR_SUBCMD_TAG then p\<lparr>pt_subcmd := ucast new_val\<rparr>
                       else if ftag = KNV_PKG_HDR_SEQ_TAG then p\<lparr>pt_seq := new_val\<rparr>
                       else if ftag = KNV_PKG_HDR_RET_TAG then p\<lparr>pt_retcode := ucast new_val\<rparr> else p, h1)) })"

definition SetHeaderStringField :: "KnvProtocol \<Rightarrow> u32 \<Rightarrow> byte list option \<Rightarrow> knv_heap \<Rightarrow> (int \<times> KnvProtocol \<times> knv_heap) option" where
  "SetHeaderStringField p ftag new_val h =
     (if \<not> pt_IsValid p h then Some (-1, p, h)
      else do {
        (r, h1) \<leftarrow> (case new_val of
            Some v \<Rightarrow> if v \<noteq> [] then SetFieldStr (pt_header p) ftag v h else RemoveField (pt_header p) ftag h
          | None \<Rightarrow> RemoveField (pt_header p) ftag h);
        Some (if r \<noteq> 0 then (-2, p, h1)
              else (0, if ftag = KNV_PKG_HDR_ERR_TAG then p\<lparr>pt_retmsg := new_val\<rparr> else p, h1)) })"

definition SetRspAddr :: "KnvProtocol \<Rightarrow> byte list \<Rightarrow> knv_heap \<Rightarrow> (int \<times> KnvProtocol \<times> knv_heap) option" where
  "SetRspAddr p addr h =
     (if \<not> pt_IsValid p h then Some (-1, p, h)
      else do {
        let p1 = p\<lparr>pt_rspaddr := addr\<rparr>;
        (n, h1) \<leftarrow> FindChildByTag (pt_header p) KNV_PKG_HDR_RSP_ADDR h;
        (if n \<noteq> 0
         then map_option (\<lambda>(r, g). (if r < 0 then -1 else 0, p1, g)) (SetValue_str n addr h1)
         else map_option (\<lambda>(c, g). (if c = 0 then -2 else 0, p1, g)) (InsertStrLeaf (pt_header p) KNV_PKG_HDR_RSP_ADDR addr h1)) })"

definition KnvProtocol_new :: "u32 \<Rightarrow> u32 \<Rightarrow> u32 \<Rightarrow> knv_heap \<Rightarrow> (KnvProtocol \<times> knv_heap) option" where
  "KnvProtocol_new dwCmd dwSubCmd dwSeq h = do {
     (p, h1) \<leftarrow> InitProtocol (new_protocol 0 0 0 True) h;
     (t, h2) \<leftarrow> NewTree KNV_PKG_TAG None h1;
     (if t = 0 then Some (p, h2)
      else do {
        (hdr, h3) \<leftarrow> InsertSubNode t KNV_PKG_HDR_TAG None h2;
        (if hdr = 0 then map_option (Pair p) (KnvNode_Delete t h3)
         else do {
           (r1, p1, g1) \<leftarrow> SetHeaderIntField (p\<lparr>pt_tree := t, pt_header := hdr\<rparr>) KNV_PKG_HDR_CMD_TAG (ucast dwCmd) h3;
           (r2, p2, g2) \<leftarrow> (if r1 \<noteq> 0 then Some (r1, p1, g1) else SetHeaderIntField p1 KNV_PKG_HDR_SUBCMD_TAG (ucast dwSubCmd) g1);
           (r3, p3, g3) \<leftarrow> (if r2 \<noteq> 0 then Some (r2, p2, g2) else SetHeaderIntField p2 KNV_PKG_HDR_SEQ_TAG (ucast dwSeq) g2);
           (if r3 \<noteq> 0 then map_option (Pair (p3\<lparr>pt_tree := 0, pt_header := 0\<rparr>)) (KnvNode_Delete t g3)
            else Some (p3\<lparr>pt_cmd := dwCmd, pt_subcmd := dwSubCmd, pt_seq := ucast dwSeq\<rparr>, g3)) }) }) }"

definition GetFirstRequest :: "KnvProtocol \<Rightarrow> knv_heap \<Rightarrow> (nat \<times> KnvProtocol \<times> knv_heap) option" where
  "GetFirstRequest p h = do {
     (c, h1) \<leftarrow> (if pt_tree p \<noteq> 0 then GetFirstChild (pt_tree p) h else Some (0, h));
     b \<leftarrow> FindFirstBody c h1;
     Some (b, if b \<noteq> 0 then p\<lparr>pt_body := b\<rparr> else p, h1) }"

definition GetNextRequest :: "KnvProtocol \<Rightarrow> knv_heap \<Rightarrow> (nat \<times> KnvProtocol) option" where
  "GetNextRequest p h = do {
     b \<leftarrow> FindFirstBody (if pt_body p \<noteq> 0 then GetSibling (pt_body p) h else 0) h;
     Some (b, if b \<noteq> 0 then p\<lparr>pt_body := b\<rparr> else p) }"

definition AddBody :: "KnvProtocol \<Rightarrow> nat \<Rightarrow> bool \<Rightarrow> knv_heap \<Rightarrow> (int \<times> KnvProtocol \<times> knv_heap) option" where
  "AddBody p b take_ownership h =
     (if \<not> pt_IsValid p h then Some (-1, p, h)
      else if b = 0 \<or> nd_tag (nd h b) \<noteq> KNV_PKG_BDY_TAG then Some (-2, p, h)
      else do {
        (r, h1) \<leftarrow> InsertChild (pt_tree p) b take_ownership True h;
        Some (if r \<noteq> 0 then (-3, p, h1) else (0, p\<lparr>pt_body := b\<rparr>, h1)) })"

definition AddBody_value :: "KnvProtocol \<Rightarrow> pb_wire_type \<Rightarrow> pb_val \<Rightarrow> knv_heap \<Rightarrow> (int \<times> KnvProtocol \<times> knv_heap) option" where
  "AddBody_value p keytype key h = do {
     (n, h1) \<leftarrow> KnvNode_New KNV_PKG_BDY_TAG PB_WT_STRING keytype (Some key) None h;
     (if n \<noteq> 0 then AddBody p n True h1 else Some (-1, p, h1)) }"

definition AddBody_key :: "KnvProtocol \<Rightarrow> knv_key \<Rightarrow> knv_heap \<Rightarrow> (int \<times> KnvProtocol \<times> knv_heap) option" where
  "AddBody_key p key h = do {
     (n, h1) \<leftarrow> NewTree KNV_PKG_BDY_TAG (Some key) h;
     (if n \<noteq> 0 then AddBody p n True h1 else Some (-1, p, h1)) }"

definition RemoveAllBodies :: "KnvProtocol \<Rightarrow> knv_heap \<Rightarrow> (int \<times> KnvProtocol \<times> knv_heap) option" where
  "RemoveAllBodies p h =
     (if \<not> pt_IsValid p h then Some (-1, p, h)
      else do {
        (r, h1) \<leftarrow> RemoveChildrenByTag (pt_tree p) KNV_PKG_BDY_TAG h;
        Some (if r < 0 then (-2, p, h1) else (0, p\<lparr>pt_body := 0\<rparr>, h1)) })"

definition ReassignBody :: "KnvProtocol \<Rightarrow> nat \<Rightarrow> bool \<Rightarrow> knv_heap \<Rightarrow> (int \<times> KnvProtocol \<times> knv_heap) option" where
  "ReassignBody p new_body take_ownership h = do {
     (r, p1, h1) \<leftarrow> RemoveAllBodies p h;
     (if r \<noteq> 0 then Some (-1, p1, h1)
      else if new_body = 0 then Some (0, p1, h1)
      else do {
        (r', p2, h2) \<leftarrow> AddBody p1 new_body take_ownership h1;
        Some (if r' \<noteq> 0 then -2 else 0, p2, h2) }) }"

definition GetDomainNum :: "KnvProtocol \<Rightarrow> knv_heap \<Rightarrow> (int \<times> knv_heap) option" where
  "GetDomainNum p h = (if pt_IsValid p h \<and> pt_body p \<noteq> 0 then GetChildNum (pt_body p) h else Some (0, h))"

definition GetFirstDomain :: "KnvProtocol \<Rightarrow> knv_heap \<Rightarrow> (nat \<times> knv_heap) option" where
  "GetFirstDomain p h = (if pt_body p \<noteq> 0 then GetFirstChild (pt_body p) h else Some (0, h))"

definition GetDomain :: "KnvProtocol \<Rightarrow> u32 \<Rightarrow> knv_heap \<Rightarrow> (nat \<times> knv_heap) option" where
  "GetDomain p iDomainId h = (if body_valid p h then FindChild (pt_body p) iDomainId [] h else Some (0, h))"

definition AddDomain_id :: "KnvProtocol \<Rightarrow> u32 \<Rightarrow> knv_heap \<Rightarrow> (nat \<times> knv_heap) option" where
  "AddDomain_id p iDomainId h =
     (if \<not> body_valid p h then Some (0, h)
      else do {
        (n, h1) \<leftarrow> FindChild (pt_body p) iDomainId [] h;
        (if n \<noteq> 0 then Some (n, h1) else InsertChild_new (pt_body p) iDomainId PB_WT_STRING None None h1) })"

definition AddDomain :: "KnvProtocol \<Rightarrow> nat \<Rightarrow> bool \<Rightarrow> knv_heap \<Rightarrow> (int \<times> knv_heap) option" where
  "AddDomain p domain take_ownership h =
     (if \<not> body_valid p h then Some (-1, h)
      else do {
        (n, h1) \<leftarrow> FindChild (pt_body p) (nd_tag (nd h domain)) [] h;
        (if n \<noteq> 0 then Some (-2, h1)
         else map_option (\<lambda>(r, g). (if r \<noteq> 0 then -3 else 0, g)) (InsertChild (pt_body p) domain take_ownership True h1)) })"

definition RemoveDomain :: "KnvProtocol \<Rightarrow> u32 \<Rightarrow> knv_heap \<Rightarrow> (int \<times> knv_heap) option" where
  "RemoveDomain p iDomainId h =
     (if \<not> body_valid p h then Some (-1, h)
      else map_option (\<lambda>(r, g). (if r < 0 then -2 else 0, g)) (RemoveChildrenByTag (pt_body p) iDomainId h))"

definition EvalMaxSize :: "KnvProtocol \<Rightarrow> knv_heap \<Rightarrow> (int \<times> knv_heap) option" where
  "EvalMaxSize p h = (if pt_IsValid p h then EvaluateSize (pt_tree p) h else Some (-1, h))"


subsection \<open>Encoding\<close>

text \<open>Writing into a buffer.\<close>

definition poke :: "int \<Rightarrow> byte list \<Rightarrow> byte list \<Rightarrow> byte list" where
  "poke i bs m = take (nat i) m @ bs @ drop (nat i + length bs) m"

definition EncodeOidb ::
    "(int \<Rightarrow> byte list option) \<Rightarrow> KnvProtocol \<Rightarrow> nat \<Rightarrow> knv_heap \<Rightarrow> (int \<times> byte list \<times> knv_heap) option" where
  "EncodeOidb alloc p body_tree h = do {
     (l, h1) \<leftarrow> KnvNode_GetValue (pt_header p) h;
     v \<leftarrow> l;
     let hdr_sz = str_len v;
     (bdy_sz, h2) \<leftarrow> (if body_tree \<noteq> 0 then EvaluateSize body_tree h1 else Some (0, h1));
     let total_sz = hdr_sz + bdy_sz + 10;
     (case alloc total_sz of
        None \<Rightarrow> Some (-4, [], h2)
      | Some m0 \<Rightarrow> do {
          let m1 = poke 9 (str_bytes v) (poke 5 (be32 (word_of_int bdy_sz)) (poke 1 (be32 (word_of_int hdr_sz)) (poke 0 [STX_IPV6_PB] m0)));
          (r, out, h3) \<leftarrow> (if bdy_sz \<noteq> 0 then Serialize body_tree bdy_sz True h2 else Some (0, [], h2));
          Some (if r < 0 then (-5, m1, h3)
                else (total_sz, poke (total_sz - 1) [ETX_IPV6_PB] (poke (9 + hdr_sz) out m1), h3)) }) }"

text \<open>The loop over the bodies: what they serialise to.\<close>

definition encode_bodies :: "int \<Rightarrow> nat list \<Rightarrow> knv_heap \<Rightarrow> (int \<times> byte list \<times> knv_heap) option" where
  "encode_bodies max_bdy_sz ns h = mfold (\<lambda>n (r, out, g).
     if r < 0 \<or> nd_tag (nd g n) = KNV_PKG_HDR_TAG then Some (r, out, g)
     else Option.bind (Serialize n (max_bdy_sz - int (length out)) True g)
            (\<lambda>(r', bs, g'). Some (if r' < 0 then (-5, out, g') else (0, out @ bs, g')))) ns (0, [], h)"

definition EncodeAllOidb :: "(int \<Rightarrow> byte list option) \<Rightarrow> KnvProtocol \<Rightarrow> knv_heap \<Rightarrow> (int \<times> byte list \<times> knv_heap) option" where
  "EncodeAllOidb alloc p h = do {
     (l, h1) \<leftarrow> KnvNode_GetValue (pt_header p) h;
     v \<leftarrow> l;
     let hdr_sz = str_len v;
     (max_bdy_sz, h2) \<leftarrow> EvaluateSize (pt_tree p) h1;
     (case alloc (hdr_sz + max_bdy_sz + 10) of
        None \<Rightarrow> Some (-4, [], h2)
      | Some m0 \<Rightarrow> do {
          let m1 = poke 9 (str_bytes v) (poke 1 (be32 (word_of_int hdr_sz)) (poke 0 [STX_IPV6_PB] m0));
          (c, h3) \<leftarrow> GetFirstChild (pt_tree p) h2;
          (r, out, h4) \<leftarrow> encode_bodies max_bdy_sz (if c = 0 then [] else childlist (nd h3 (pt_tree p))) h3;
          let m2 = poke (9 + hdr_sz) out m1;
          let bdy_sz = int (length out);
          Some (if r < 0 then (r, m2, h4)
                else (hdr_sz + bdy_sz + 9, poke (hdr_sz + bdy_sz + 9) [ETX_IPV6_PB] (poke 5 (be32 (word_of_int bdy_sz)) m2), h4)) }) }"

definition EncodeCompatOidb ::
    "(int \<Rightarrow> byte list option) \<Rightarrow> KnvProtocol \<Rightarrow> nat \<Rightarrow> knv_heap \<Rightarrow> (int \<times> byte list \<times> knv_heap) option" where
  "EncodeCompatOidb alloc p body_tree h = do {
     (l, h1) \<leftarrow> KnvNode_GetValue (pt_header p) h;
     (bdy, h2) \<leftarrow> (if body_tree \<noteq> 0 then KnvNode_GetValue body_tree h1 else Some (None, h1));
     v \<leftarrow> l;
     let hdr_sz = str_len v;
     let bdy_sz = (case bdy of None \<Rightarrow> 0 | Some w \<Rightarrow> str_len w);
     let total_sz = hdr_sz + bdy_sz + 10;
     (case alloc total_sz of
        None \<Rightarrow> Some (-4, [], h2)
      | Some m0 \<Rightarrow>
          let m1 = poke 9 (str_bytes v) (poke 5 (be32 (word_of_int bdy_sz)) (poke 1 (be32 (word_of_int hdr_sz)) (poke 0 [STX_IPV6_PB] m0)));
              m2 = (case bdy of None \<Rightarrow> m1 | Some w \<Rightarrow> if bdy_sz \<noteq> 0 then poke (9 + hdr_sz) (str_bytes w) m1 else m1)
          in Some (total_sz, poke (total_sz - 1) [ETX_IPV6_PB] m2, h2)) }"

text \<open>The message argument of \<open>Encode\<close>: no pointer, the pointer \<open>retmsg\<close> itself, or another one. The code compares pointers.\<close>

datatype err_arg = NoMsg | OwnMsg | NewMsg "byte list"

definition err_changed :: "KnvProtocol \<Rightarrow> err_arg \<Rightarrow> bool" where
  "err_changed p err = (case err of NoMsg \<Rightarrow> pt_retmsg p \<noteq> None | OwnMsg \<Rightarrow> False | NewMsg _ \<Rightarrow> True)"

definition err_bytes :: "err_arg \<Rightarrow> byte list option" where
  "err_bytes err = (case err of NewMsg bs \<Rightarrow> Some bs | _ \<Rightarrow> None)"

text \<open>The part of \<open>Encode\<close> that writes tag, length, header and body.\<close>

definition encode_knv :: "(int \<Rightarrow> byte list option) \<Rightarrow> nat \<Rightarrow> nat \<Rightarrow> knv_heap \<Rightarrow> (int \<times> byte list \<times> knv_heap) option" where
  "encode_knv alloc hdr body_tree h = do {
     (hdr_sz, h1) \<leftarrow> EvaluateSize hdr h;
     (bdy_sz, h2) \<leftarrow> (if body_tree \<noteq> 0 then EvaluateSize body_tree h1 else Some (0, h1));
     let total_val_sz = hdr_sz + bdy_sz;
     let total_sz = knv_eval_field_length KNV_PKG_TAG PB_WT_STRING (len_val total_val_sz);
     (case alloc total_sz of
        None \<Rightarrow> Some (-6, [], h2)
      | Some m0 \<Rightarrow>
          case knv_add_string_head (knv_init_buff (nat total_sz)) KNV_PKG_TAG (usz total_val_sz) of (r, b) \<Rightarrow>
            if r \<noteq> 0 then Some (-8, [], h2)
            else do {
              let cur_len = int (length (bout b));
              (r1, out1, h3) \<leftarrow> Serialize hdr (total_sz - cur_len) True h2;
              (if r1 \<noteq> 0 then Some (-9, [], h3)
               else do {
                 let cur_len' = cur_len + int (length out1);
                 let m1 = poke cur_len out1 (poke 0 (bout b) m0);
                 (if bdy_sz \<le> 0 then Some (total_sz, m1, h3)
                  else do {
                    (r2, out2, h4) \<leftarrow> Serialize body_tree (total_sz - cur_len') True h3;
                    Some (if r2 \<noteq> 0 then (-10, [], h4) else (total_sz, poke cur_len' out2 m1, h4)) }) }) }) }"

definition Encode ::
    "(int \<Rightarrow> byte list option) \<Rightarrow> KnvProtocol \<Rightarrow> u32 \<Rightarrow> err_arg \<Rightarrow> nat \<Rightarrow> bool \<Rightarrow> bool \<Rightarrow> knv_heap \<Rightarrow>
       (int \<times> byte list \<times> KnvProtocol \<times> knv_heap) option" where
  "Encode alloc p ret err body_tree encode_oidb compat_oidb h =
     (if \<not> pt_IsValid p h then Some (-1, [], p, h)
      else do {
        (r1, p1, h1) \<leftarrow> (if ret \<noteq> pt_retcode p then SetHeaderIntField p KNV_PKG_HDR_RET_TAG (ucast ret) h else Some (0, p, h));
        (if r1 \<noteq> 0 then Some (-2, [], p1, h1)
         else do {
           (r2, p2, h2) \<leftarrow> (if err_changed p1 err then SetHeaderStringField p1 KNV_PKG_HDR_ERR_TAG (err_bytes err) h1 else Some (0, p1, h1));
           (if r2 \<noteq> 0 then Some (-3, [], p2, h2)
            else do {
              (l, m, h3) \<leftarrow> (if encode_oidb then (if compat_oidb then EncodeCompatOidb alloc p2 body_tree h2 else EncodeOidb alloc p2 body_tree h2)
                            else encode_knv alloc (pt_header p2) body_tree h2);
              Some (l, m, p2, h3) }) }) })"

definition EncodeAll ::
    "(int \<Rightarrow> byte list option) \<Rightarrow> KnvProtocol \<Rightarrow> bool \<Rightarrow> bool \<Rightarrow> knv_heap \<Rightarrow> (int \<times> byte list \<times> knv_heap) option" where
  "EncodeAll alloc p encode_oidb compat_oidb h =
     (if \<not> pt_IsValid p h then Some (-1, [], h)
      else if encode_oidb then (if compat_oidb then EncodeCompatOidb alloc p (pt_body p) h else EncodeAllOidb alloc p h)
      else do {
        (sz, h1) \<leftarrow> EvaluateSize (pt_tree p) h;
        (case alloc sz of
           None \<Rightarrow> Some (-2, [], h1)
         | Some m0 \<Rightarrow> do {
             (r, out, h2) \<leftarrow> Serialize (pt_tree p) sz True h1;
             Some (if r \<noteq> 0 then (-3, [], h2) else (int (length out), poke 0 out m0, h2)) }) })"

text \<open>The public encoders into a buffer. A packet with an error is its header and the error.\<close>

definition pt_Encode ::
    "(int \<Rightarrow> byte list option) \<Rightarrow> KnvProtocol \<Rightarrow> bool \<Rightarrow> bool \<Rightarrow> knv_heap \<Rightarrow> (int \<times> byte list \<times> KnvProtocol \<times> knv_heap) option" where
  "pt_Encode alloc p encode_oidb compat_oidb h =
     (if pt_retcode p \<noteq> 0 then Encode alloc p (pt_retcode p) OwnMsg 0 encode_oidb compat_oidb h
      else map_option (\<lambda>(l, m, g). (l, m, p, g)) (EncodeAll alloc p encode_oidb compat_oidb h))"

definition EncodeWithError ::
    "(int \<Rightarrow> byte list option) \<Rightarrow> KnvProtocol \<Rightarrow> u32 \<Rightarrow> byte list \<Rightarrow> bool \<Rightarrow> bool \<Rightarrow> knv_heap \<Rightarrow>
       (int \<times> byte list \<times> KnvProtocol \<times> knv_heap) option" where
  "EncodeWithError alloc p ret msg encode_oidb compat_oidb h = Encode alloc p ret (NewMsg msg) 0 encode_oidb compat_oidb h"

definition EncodeWithBody ::
    "(int \<Rightarrow> byte list option) \<Rightarrow> KnvProtocol \<Rightarrow> nat \<Rightarrow> bool \<Rightarrow> bool \<Rightarrow> knv_heap \<Rightarrow> (int \<times> byte list \<times> KnvProtocol \<times> knv_heap) option" where
  "EncodeWithBody alloc p b encode_oidb compat_oidb h = Encode alloc p 0 NoMsg b encode_oidb compat_oidb h"

text \<open>The encoders into a \<open>string\<close>: its bytes are as many of the buffer as the encoder returned.\<close>

definition to_string :: "int \<times> byte list \<times> 'a \<Rightarrow> int \<times> byte list \<times> 'a" where
  "to_string r = (case r of (l, m, x) \<Rightarrow> if l < 0 then (l, [], x) else (0, take (nat l) m, x))"


definition Encode_string :: "(int \<Rightarrow> byte list option) \<Rightarrow> KnvProtocol \<Rightarrow> knv_heap \<Rightarrow> (int \<times> byte list \<times> KnvProtocol \<times> knv_heap) option" where
  "Encode_string alloc p h = map_option to_string (pt_Encode alloc p False False h)"

definition EncodeWithError_string ::
    "(int \<Rightarrow> byte list option) \<Rightarrow> KnvProtocol \<Rightarrow> u32 \<Rightarrow> byte list \<Rightarrow> knv_heap \<Rightarrow> (int \<times> byte list \<times> KnvProtocol \<times> knv_heap) option" where
  "EncodeWithError_string alloc p ret msg h = map_option to_string (EncodeWithError alloc p ret msg False False h)"

definition EncodeWithBody_string ::
    "(int \<Rightarrow> byte list option) \<Rightarrow> KnvProtocol \<Rightarrow> nat \<Rightarrow> knv_heap \<Rightarrow> (int \<times> byte list \<times> KnvProtocol \<times> knv_heap) option" where
  "EncodeWithBody_string alloc p b h = map_option to_string (EncodeWithBody alloc p b False False h)"

definition EncodeOidb_string :: "(int \<Rightarrow> byte list option) \<Rightarrow> KnvProtocol \<Rightarrow> knv_heap \<Rightarrow> (int \<times> byte list \<times> KnvProtocol \<times> knv_heap) option" where
  "EncodeOidb_string alloc p h = map_option to_string (pt_Encode alloc p True False h)"

definition EncodeOidbWithError ::
    "(int \<Rightarrow> byte list option) \<Rightarrow> KnvProtocol \<Rightarrow> u32 \<Rightarrow> byte list \<Rightarrow> knv_heap \<Rightarrow> (int \<times> byte list \<times> KnvProtocol \<times> knv_heap) option" where
  "EncodeOidbWithError alloc p ret msg h = map_option to_string (EncodeWithError alloc p ret msg True False h)"

definition EncodeOidbWithBody ::
    "(int \<Rightarrow> byte list option) \<Rightarrow> KnvProtocol \<Rightarrow> nat \<Rightarrow> knv_heap \<Rightarrow> (int \<times> byte list \<times> KnvProtocol \<times> knv_heap) option" where
  "EncodeOidbWithBody alloc p b h = map_option to_string (EncodeWithBody alloc p b True False h)"

definition EncodeCompatOidb_string :: "(int \<Rightarrow> byte list option) \<Rightarrow> KnvProtocol \<Rightarrow> knv_heap \<Rightarrow> (int \<times> byte list \<times> KnvProtocol \<times> knv_heap) option" where
  "EncodeCompatOidb_string alloc p h = map_option to_string (pt_Encode alloc p True True h)"

definition EncodeCompatOidbWithError ::
    "(int \<Rightarrow> byte list option) \<Rightarrow> KnvProtocol \<Rightarrow> u32 \<Rightarrow> byte list \<Rightarrow> knv_heap \<Rightarrow> (int \<times> byte list \<times> KnvProtocol \<times> knv_heap) option" where
  "EncodeCompatOidbWithError alloc p ret msg h = map_option to_string (EncodeWithError alloc p ret msg True True h)"

definition EncodeCompatOidbWithBody ::
    "(int \<Rightarrow> byte list option) \<Rightarrow> KnvProtocol \<Rightarrow> nat \<Rightarrow> knv_heap \<Rightarrow> (int \<times> byte list \<times> KnvProtocol \<times> knv_heap) option" where
  "EncodeCompatOidbWithBody alloc p b h = map_option to_string (EncodeWithBody alloc p b True True h)"

subsection \<open>Splitting and merging\<close>

definition GetMaxPkgSize :: "KnvProtocol \<Rightarrow> 16 word" where
  "GetMaxPkgSize p = (if pt_max_pkg_sz p < 128 \<or> pt_max_pkg_sz p > KNV_DEFUALT_MAX_PKG_SIZE then KNV_DEFUALT_MAX_PKG_SIZE else pt_max_pkg_sz p)"

definition SetAllowSplit :: "KnvProtocol \<Rightarrow> bool \<Rightarrow> u32 \<Rightarrow> KnvProtocol" where
  "SetAllowSplit p allow pkg_sz =
     p\<lparr>pt_allow_split := if allow then 1 else 0, pt_max_pkg_sz := if pkg_sz \<noteq> 0 then ucast pkg_sz else pt_max_pkg_sz p\<rparr>"

definition SetReqSplit :: "KnvProtocol \<Rightarrow> bool \<Rightarrow> u32 \<Rightarrow> knv_heap \<Rightarrow> (int \<times> knv_heap) option" where
  "SetReqSplit p allow pkg_sz h =
     (if \<not> pt_IsValid p h then Some (-1, h)
      else do {
        (r, h1) \<leftarrow> (if allow then SetChildInt (pt_header p) KNV_PKG_HDR_ALLOW_SPLIT 1 h
                    else RemoveChildrenByTag (pt_header p) KNV_PKG_HDR_ALLOW_SPLIT h);
        (if r \<noteq> 0 then Some (-2, h1)
         else if pkg_sz = 0 then Some (0, h1)
         else map_option (\<lambda>(r', g). (if r' \<noteq> 0 then -3 else 0, g)) (SetChildInt (pt_header p) KNV_PKG_HDR_MAX_PKG_SIZE (ucast pkg_sz) h1)) })"

definition IsComplete :: "KnvProtocol \<Rightarrow> knv_heap \<Rightarrow> bool" where
  "IsComplete p h \<longleftrightarrow> pt_IsValid p h \<and> (pt_retcode p \<noteq> 0 \<or> total_split_count p = 0 \<or> GetBody p h \<noteq> 0)"

abbreviation part_tag :: "nat \<Rightarrow> u32" where
  "part_tag i \<equiv> KNV_PKG_PART_TAG_BASE + of_nat i"

text \<open>The loop that adds up the parts. The first component is the result with which it returns early; a missing part is no error.\<close>

definition part_length :: "nat \<Rightarrow> nat \<Rightarrow> int option \<times> int \<times> knv_heap \<Rightarrow> (int option \<times> int \<times> knv_heap) option" where
  "part_length t i s =
     (case s of (Some e, total_len, h) \<Rightarrow> Some (Some e, total_len, h)
      | (None, total_len, h) \<Rightarrow> do {
          (c, h1) \<leftarrow> FindChildByTag t (part_tag i) h;
          (if c = 0 then Some (Some 0, total_len, h1)
           else do {
             (l, h2) \<leftarrow> KnvNode_GetValue c h1;
             Some (case l of
                     None \<Rightarrow> (Some (-6), total_len, h2)
                   | Some v \<Rightarrow> if str_len v = 0 then (Some (-6), total_len, h2)
                              else if nd_type (nd h2 c) \<noteq> PB_WT_STRING then (Some (-7), total_len, h2)
                              else (None, total_len + str_len v, h2)) }) })"

text \<open>The loop that copies the parts and removes them.\<close>

definition part_merge :: "nat \<Rightarrow> int \<Rightarrow> nat \<Rightarrow> int \<times> byte list \<times> knv_heap \<Rightarrow> (int \<times> byte list \<times> knv_heap) option" where
  "part_merge t total_len i s =
     (case s of (r, buf, h) \<Rightarrow>
        if r \<noteq> 0 then Some s
        else do {
          (c, h1) \<leftarrow> FindChildByTag t (part_tag i) h;
          (if c = 0 then Some (-10, buf, h1)
           else do {
             (l, h2) \<leftarrow> KnvNode_GetValue c h1;
             (case l of
                None \<Rightarrow> Some (-11, buf, h2)
              | Some v \<Rightarrow>
                  if int (length buf) + str_len v > total_len then Some (-12, buf, h2)
                  else map_option (\<lambda>(_, g). (0, buf @ str_bytes v, g)) (RemoveChildByPos t c None h2)) }) })"

definition AddPartial ::
    "(int \<Rightarrow> byte list option) \<Rightarrow> KnvProtocol \<Rightarrow> KnvProtocol \<Rightarrow> bool \<Rightarrow> knv_heap \<Rightarrow> (int \<times> KnvProtocol \<times> KnvProtocol \<times> knv_heap) option" where
  "AddPartial alloc p part own_buf h =
     (if \<not> pt_IsValid part h then Some (-1, p, part, h)
      else if pt_tree p = 0 then assign p part own_buf h
      else if IsComplete p h \<or> IsComplete part h \<or> total_split_count p \<noteq> total_split_count part \<or> curr_split_index part \<ge> total_split_count p
      then assign p part own_buf h
      else do {
        let t = pt_tree p;
        let tag = part_tag (unat (curr_split_index part));
        (c, h1) \<leftarrow> FindChildByTag (pt_tree part) tag h;
        (if c = 0 then Some (-2, p, part, h1)
         else if nd_type (nd h1 c) \<noteq> PB_WT_STRING then Some (-3, p, part, h1)
         else do {
           (c2, h2) \<leftarrow> FindChildByTag t tag h1;
           (if c2 \<noteq> 0 then Some (-4, p, part, h2)
            else do {
              (r, h3) \<leftarrow> InsertChild t c False True h2;
              (if r \<noteq> 0 then Some (-5, p, part, h3)
               else do {
                 (e, total_len, h4) \<leftarrow> mfold (part_length t) [0..<unat (total_split_count p)] (None, 0, h3);
                 (if e \<noteq> None then Some (the e, p, part, h4)
                  else if total_len \<le> 0 then Some (-8, p, part, h4)
                  else if alloc total_len = None then Some (-9, p, part, h4)
                  else do {
                    (r2, buf, h5) \<leftarrow> mfold (part_merge t total_len) [0..<unat (total_split_count p)] (0, [], h4);
                    (if r2 \<noteq> 0 then Some (r2, p, part, h5)
                     else do {
                       (r3, p', h6) \<leftarrow> assign_bytes p buf h5;
                       Some (if r3 \<noteq> 0 then -13 else 0, p', part, h6) }) }) }) }) }) })"

text \<open>The label \<open>no_need_split\<close>.\<close>

definition no_need_split :: "KnvProtocol \<Rightarrow> nat \<Rightarrow> knv_heap \<Rightarrow> (int \<times> knv_heap) option" where
  "no_need_split p b h =
     (if b = 0 then Some (0, h)
      else do {
        (c, h1) \<leftarrow> Duplicate b h;
        (if c = 0 then Some (-2, h1)
         else do {
           (r, h2) \<leftarrow> SetTag c KNV_PKG_PART_TAG_BASE h1;
           (if r \<noteq> 0 then map_option (Pair (-3)) (KnvNode_Delete c h2)
            else do {
              (r', h3) \<leftarrow> InsertChild (pt_tree p) c True True h2;
              (if r' \<noteq> 0 then map_option (Pair (-4)) (KnvNode_Delete c h3) else Some (0, h3)) }) }) })"

text \<open>The number of parts of an encoded packet and the bytes of a part.\<close>

definition nr_parts :: "u32 \<Rightarrow> int \<Rightarrow> u32" where
  "nr_parts sz_part encoded_len = (word_of_int encoded_len + sz_part - 1) div sz_part"

definition part_bytes :: "u32 \<Rightarrow> int \<Rightarrow> byte list \<Rightarrow> nat \<Rightarrow> byte list" where
  "part_bytes sz_part encoded_len m i =
     (let last = nr_parts sz_part encoded_len - 1;
          sz_last = word_of_int encoded_len - last * sz_part
      in take (unat (if of_nat i = last then sz_last else sz_part)) (drop (unat (of_nat i * sz_part :: u32)) m))"

definition insert_part :: "KnvProtocol \<Rightarrow> u32 \<Rightarrow> int \<Rightarrow> byte list \<Rightarrow> nat \<Rightarrow> int \<times> knv_heap \<Rightarrow> (int \<times> knv_heap) option" where
  "insert_part p sz_part encoded_len m i s =
     (case s of (r, h) \<Rightarrow>
        if r \<noteq> 0 then Some s
        else do {
          (part, h1) \<leftarrow> KnvNode_New (part_tag i) PB_WT_STRING PB_WT_STRING None (Some (str_val (part_bytes sz_part encoded_len m i))) h;
          (if part = 0 then Some (-8, h1)
           else do {
             (_, h2) \<leftarrow> RemoveChildrenByTag (pt_tree p) (part_tag i) h1;
             (r', h3) \<leftarrow> InsertChild (pt_tree p) part True True h2;
             (if r' \<noteq> 0 then map_option (Pair (-9)) (KnvNode_Delete part h3) else Some (0, h3)) }) })"

definition Split :: "(int \<Rightarrow> byte list option) \<Rightarrow> KnvProtocol \<Rightarrow> nat \<Rightarrow> knv_heap \<Rightarrow> (int \<times> KnvProtocol \<times> knv_heap) option" where
  "Split alloc p b h =
     (if \<not> pt_IsValid p h then Some (-1, p, h)
      else do {
        let p1 = p\<lparr>total_split_count := 1\<rparr>;
        (_, h1) \<leftarrow> RemoveChildrenByTag (pt_header p) KNV_PKG_HDR_TOTAL_SPLIT_COUNT h;
        (_, h2) \<leftarrow> RemoveChildrenByTag (pt_header p) KNV_PKG_HDR_CURR_SPLIT_INDEX h1;
        (sz, h3) \<leftarrow>
          (if b \<noteq> 0
           then do {
             (s1, g1) \<leftarrow> EvaluateSize (pt_header p) h2;
             (s2, g2) \<leftarrow> EvaluateSize b g1;
             Some (s1 + s2 + 32, g2) }
           else map_option (\<lambda>(s, g). (s + 32, g)) (EvaluateSize (pt_tree p) h2));
        let cur_sz = (word_of_int sz :: u32);
        let max_sz = (ucast (GetMaxPkgSize p1) :: u32);
        (if pt_allow_split p1 = 0 \<or> (b = 0 \<and> pt_body p1 = 0) \<or> cur_sz \<le> max_sz
         then map_option (\<lambda>(r, g). (r, p1, g)) (no_need_split p1 b h3)
         else do {
           (encoded_len, m, p2, h4) \<leftarrow> (if b \<noteq> 0 then EncodeWithBody alloc p1 b False False h3 else pt_Encode alloc p1 False False h3);
           (if encoded_len < 0 then Some (-5, p2, h4)
            else if encoded_len \<le> uint max_sz then map_option (\<lambda>(r, g). (r, p2, g)) (no_need_split p2 b h4)
            else do {
              (hs, h5) \<leftarrow> EvaluateSize (pt_header p2) h4;
              let hdr_sz = (word_of_int (hs + 16) :: u32);
              (if hdr_sz \<ge> max_sz then Some (-6, p2, h5)
               else do {
                 let sz_part = max_sz - hdr_sz;
                 let nr_pkgs = nr_parts sz_part encoded_len;
                 (if nr_pkgs \<le> 1 then map_option (\<lambda>(r, g). (r, p2, g)) (no_need_split p2 b h5)
                  else do {
                    let p3 = p2\<lparr>total_split_count := ucast nr_pkgs\<rparr>;
                    (r, h6) \<leftarrow> SetChildInt (pt_header p3) KNV_PKG_HDR_TOTAL_SPLIT_COUNT (ucast nr_pkgs) h5;
                    (if r \<noteq> 0 then Some (-7, p3, h6)
                     else map_option (\<lambda>(r', g). (r', p3, g))
                            (mfold (insert_part p3 sz_part encoded_len m) [0..<unat nr_pkgs] (0, h6))) }) }) }) }) })"

definition EncodePart ::
    "(int \<Rightarrow> byte list option) \<Rightarrow> KnvProtocol \<Rightarrow> int \<Rightarrow> knv_heap \<Rightarrow> (int \<times> byte list \<times> KnvProtocol \<times> knv_heap) option" where
  "EncodePart alloc p index h =
     (if \<not> pt_IsValid p h then Some (-1, [], p, h)
      else if index \<ge> uint (total_split_count p) then Some (-1, [], p, h)
      else if total_split_count p = 1
      then do {
        (b, h1) \<leftarrow> FindChildByTag (pt_tree p) KNV_PKG_PART_TAG_BASE h;
        (if b \<noteq> 0
         then do {
           (_, h2) \<leftarrow> SetTag b KNV_PKG_BDY_TAG h1;
           (l, m, p', h3) \<leftarrow> EncodeWithBody alloc p b False False h2;
           (_, h4) \<leftarrow> SetTag b KNV_PKG_PART_TAG_BASE h3;
           Some (l, m, p', h4) }
         else pt_Encode alloc p False False h1) }
      else do {
        (b, h1) \<leftarrow> FindChildByTag (pt_tree p) (KNV_PKG_PART_TAG_BASE + word_of_int index) h;
        (if b = 0 then Some (-2, [], p, h1)
         else do {
           (r, h2) \<leftarrow> SetChildInt (pt_header p) KNV_PKG_HDR_CURR_SPLIT_INDEX (word_of_int index) h1;
           (if r \<noteq> 0 then Some (-3, [], p, h2) else EncodeWithBody alloc p b False False h2) }) })"

definition EncodePart_string ::
    "(int \<Rightarrow> byte list option) \<Rightarrow> KnvProtocol \<Rightarrow> int \<Rightarrow> knv_heap \<Rightarrow> (int \<times> byte list \<times> KnvProtocol \<times> knv_heap) option" where
  "EncodePart_string alloc p index h = map_option to_string (EncodePart alloc p index h)"

declare FindFirstBody.simps [code] KnvNode_Print.simps [code]


section \<open>OIDB packets\<close>

lemma length_be32 [simp]: "length (be32 w) = 4"
  by (simp add: be32_def)

lemma ntohl_be32: "length a = i \<Longrightarrow> ntohl_at (a @ be32 w @ b) i = w"
  by (simp add: ntohl_at_def be32_def le_word_le_bytes)

text \<open>Writing right behind what was written.\<close>

lemma poke_next: "int (length a) = i \<Longrightarrow> poke i bs (a @ m) = a @ bs @ drop (length bs) m"
  by (auto simp: poke_def)

lemma word_int_small: "0 \<le> i \<Longrightarrow> i < 2 ^ 31 \<Longrightarrow> unat (word_of_int i :: u32) = nat i"
  by (simp add: unat_eq_nat_uint uint_word_of_int)

lemma take_exact: "length xs = n \<Longrightarrow> take n (xs @ ys) = xs"
  by simp

lemma drop_exact: "length xs = n \<Longrightarrow> drop n (xs @ ys) = ys"
  by simp

lemma sint_small: "n < 2 ^ 31 \<Longrightarrow> sint (of_nat n :: u32) = int n"
  by (simp add: signed_of_nat signed_take_bit_int_eq_self_iff)

lemma oidb_parse_packet:
  assumes "length hb + length bb + 10 < 2 ^ 31"
  shows "oidb_parse (STX_IPV6_PB # be32 (of_nat (length hb)) @ be32 (of_nat (length bb)) @ hb @ bb @ [ETX_IPV6_PB]) = OidbPkg hb bb"
proof -
  let ?p = "STX_IPV6_PB # be32 (of_nat (length hb)) @ be32 (of_nat (length bb)) @ hb @ bb @ [ETX_IPV6_PB]"
  have n: "ntohl_at ?p 1 = of_nat (length hb)" "ntohl_at ?p 5 = of_nat (length bb)"
    using ntohl_be32 [of "[STX_IPV6_PB]" 1] ntohl_be32 [of "STX_IPV6_PB # be32 (of_nat (length hb))" 5] by simp_all
  have u: "unat (of_nat (length hb) :: u32) = length hb" "unat (of_nat (length bb) :: u32) = length bb"
    using assms by (simp_all add: unat_of_nat take_bit_nat_eq_self_iff)
  have "of_nat (length hb) + of_nat (length bb) + 10 = (of_nat (length hb + length bb + 10) :: u32)" by simp
  then have s: "sint (of_nat (length hb) + of_nat (length bb) + 10 :: u32) = int (length hb + length bb + 10)"
    using sint_small [of "length hb + length bb + 10"] assms by (simp only:)
  have d: "drop 9 ?p = hb @ bb @ [ETX_IPV6_PB]" "drop (9 + length hb) ?p = bb @ [ETX_IPV6_PB]"
    using drop_exact [of "STX_IPV6_PB # be32 (of_nat (length hb)) @ be32 (of_nat (length bb))" 9]
      drop_exact [of "STX_IPV6_PB # be32 (of_nat (length hb)) @ be32 (of_nat (length bb)) @ hb" "9 + length hb"] by simp_all
  have e: "?p ! (length hb + length bb + 9) = ETX_IPV6_PB"
    using nth_append_length [of "STX_IPV6_PB # be32 (of_nat (length hb)) @ be32 (of_nat (length bb)) @ hb @ bb" ETX_IPV6_PB "[]"] by (simp add: add_ac)
  show ?thesis unfolding oidb_parse_def n Let_def s u d using e by (simp add: nat_add_distrib)
qed


text \<open>What \<open>EncodeOidb\<close> and \<open>EncodeCompatOidb\<close> write, when the node library gives them the bytes of header and body.\<close>

lemma oidb_written:
  assumes "length hb + length bb + 10 \<le> length m0"
  shows "take (length hb + length bb + 10) (poke (int (length hb) + int (length bb) + 10 - 1) [e] (poke (9 + int (length hb)) bb (poke 9 hb (poke 5 (be32 y)
     (poke 1 (be32 x) (poke 0 [s] m0)))))) = s # be32 x @ be32 y @ hb @ bb @ [e]"
proof -
  have 1: "poke 0 [s] m0 = [s] @ drop 1 m0" using poke_next [of "[]" 0 "[s]" m0] by simp
  have 2: "poke 1 (be32 x) ([s] @ drop 1 m0) = ([s] @ be32 x) @ drop 5 m0" by (subst poke_next) simp_all
  have 3: "poke 5 (be32 y) (([s] @ be32 x) @ drop 5 m0) = ([s] @ be32 x @ be32 y) @ drop 9 m0" by (subst poke_next) simp_all
  have 4: "poke 9 hb (([s] @ be32 x @ be32 y) @ drop 9 m0) = ([s] @ be32 x @ be32 y @ hb) @ drop (9 + length hb) m0"
    by (subst poke_next) (simp_all add: add.commute)
  have 5: "poke (9 + int (length hb)) bb (([s] @ be32 x @ be32 y @ hb) @ drop (9 + length hb) m0) =
      ([s] @ be32 x @ be32 y @ hb @ bb) @ drop (9 + length hb + length bb) m0"
    by (subst poke_next) (simp_all add: add_ac)
  have 6: "poke (int (length hb) + int (length bb) + 10 - 1) [e] (([s] @ be32 x @ be32 y @ hb @ bb) @ drop (9 + length hb + length bb) m0) =
      ([s] @ be32 x @ be32 y @ hb @ bb @ [e]) @ drop (10 + length hb + length bb) m0"
    by (subst poke_next) (simp_all add: add_ac)
  show ?thesis unfolding 1 2 3 4 5 6 by (subst take_exact) simp_all
qed

lemma EncodeOidb_bytes:
  assumes "KnvNode_GetValue (pt_header p) h = Some (Some v, h1)" "str_len v = int (length (str_bytes v))"
    "b \<noteq> 0 \<Longrightarrow> EvaluateSize b h1 = Some (int (length bs), h2) \<and> (bs = [] \<or> Serialize b (int (length bs)) True h2 = Some (0, bs, h2))"
    "b = 0 \<Longrightarrow> bs = [] \<and> h2 = h1"
    "alloc (int (length (str_bytes v) + length bs + 10)) = Some m0" "length (str_bytes v) + length bs + 10 \<le> length m0"
    "length (str_bytes v) + length bs + 10 < 2 ^ 31"
  shows "map_option to_string (EncodeOidb alloc p b h) =
     Some (0, STX_IPV6_PB # be32 (of_nat (length (str_bytes v))) @ be32 (of_nat (length bs)) @ str_bytes v @ bs @ [ETX_IPV6_PB], h2)"
proof -
  let ?l = "int (length (str_bytes v)) + int (length bs) + 10"
  let ?m = "poke (?l - 1) [ETX_IPV6_PB] (poke (9 + int (length (str_bytes v))) bs (poke 9 (str_bytes v) (poke 5 (be32 (word_of_int (int (length bs))))
     (poke 1 (be32 (word_of_int (int (length (str_bytes v))))) (poke 0 [STX_IPV6_PB] m0)))))"
  have z: "(if b \<noteq> 0 then EvaluateSize b h1 else Some (0, h1)) = Some (int (length bs), h2)" using assms(3,4) by auto
  have s: "(if int (length bs) \<noteq> 0 then Serialize b (int (length bs)) True h2 else Some (0, [], h2)) = Some (0, bs, h2)"
    using assms(3,4) by auto
  have a: "alloc ?l = Some m0" using assms(5) by simp
  have "EncodeOidb alloc p b h = Some (?l, ?m, h2)"
    unfolding EncodeOidb_def assms(1) Option.bind.simps case_prod_conv Let_def assms(2) z a option.case s by simp
  moreover have "take (length (str_bytes v) + length bs + 10) ?m =
      STX_IPV6_PB # be32 (of_nat (length (str_bytes v))) @ be32 (of_nat (length bs)) @ str_bytes v @ bs @ [ETX_IPV6_PB]"
    using oidb_written [OF assms(6), of ETX_IPV6_PB "of_nat (length bs)" "of_nat (length (str_bytes v))" STX_IPV6_PB] by simp
  moreover have "nat ?l = length (str_bytes v) + length bs + 10" by simp
  ultimately show ?thesis by (simp add: to_string_def)
qed


definition alloc_ok :: "(int \<Rightarrow> byte list option) \<Rightarrow> bool" where
  "alloc_ok alloc \<longleftrightarrow> (\<forall>sz m. alloc sz = Some m \<longrightarrow> sz \<le> int (length m))"

lemma oidb_all_lengths:
  assumes "9 + length hb \<le> length m0"
  shows "take 9 (poke (int (length hb + length bb + 9)) [e] (poke 5 (be32 y) (poke (9 + int (length hb)) bb (poke 9 hb (poke 1 (be32 x) (poke 0 [s] m0)))))) =
     s # be32 x @ be32 y"
    "length hb + length bb + 9 \<le> length (poke (int (length hb + length bb + 9)) [e] (poke 5 (be32 y) (poke (9 + int (length hb)) bb (poke 9 hb (poke 1 (be32 x) (poke 0 [s] m0))))))"
proof -
  have 1: "poke 0 [s] m0 = [s] @ drop 1 m0" using poke_next [of "[]" 0 "[s]" m0] by simp
  have 2: "poke 1 (be32 x) ([s] @ drop 1 m0) = ([s] @ be32 x @ take 4 (drop 5 m0)) @ drop 9 m0"
    using poke_next [of "[s]" 1 "be32 x" "drop 1 m0"] append_take_drop_id [of 4 "drop 5 m0"] by simp
  have l: "length (take 4 (drop 5 m0)) = 4" using assms by simp
  have 4: "poke 9 hb (([s] @ be32 x @ take 4 (drop 5 m0)) @ drop 9 m0) = ([s] @ be32 x @ take 4 (drop 5 m0) @ hb) @ drop (9 + length hb) m0"
    using l by (subst poke_next) (simp_all add: add.commute)
  have 5: "poke (9 + int (length hb)) bb (([s] @ be32 x @ take 4 (drop 5 m0) @ hb) @ drop (9 + length hb) m0) =
      ([s] @ be32 x) @ take 4 (drop 5 m0) @ hb @ bb @ drop (9 + length hb + length bb) m0"
    using l by (subst poke_next) (simp_all add: add_ac)
  have 6: "poke 5 (be32 y) (([s] @ be32 x) @ take 4 (drop 5 m0) @ hb @ bb @ drop (9 + length hb + length bb) m0) =
      ([s] @ be32 x @ be32 y @ hb @ bb) @ drop (9 + length hb + length bb) m0"
    using l by (subst poke_next) simp_all
  have 7: "poke (int (length hb + length bb + 9)) [e] (([s] @ be32 x @ be32 y @ hb @ bb) @ drop (9 + length hb + length bb) m0) =
      ([s] @ be32 x @ be32 y) @ hb @ bb @ [e] @ drop (10 + length hb + length bb) m0"
    by (subst poke_next) (simp_all add: add_ac)
  show "take 9 (poke (int (length hb + length bb + 9)) [e] (poke 5 (be32 y) (poke (9 + int (length hb)) bb (poke 9 hb (poke 1 (be32 x) (poke 0 [s] m0)))))) =
     s # be32 x @ be32 y" unfolding 1 2 4 5 6 7 by simp
  show "length hb + length bb + 9 \<le> length (poke (int (length hb + length bb + 9)) [e] (poke 5 (be32 y) (poke (9 + int (length hb)) bb (poke 9 hb (poke 1 (be32 x) (poke 0 [s] m0))))))"
    unfolding 1 2 4 5 6 7 by simp
qed

text \<open>A packet without its last byte.\<close>

lemma oidb_parse_short:
  assumes "take 9 buf = s # be32 (of_nat a) @ be32 (of_nat b)" "length buf = a + b + 9" "a + b + 10 < 2 ^ 31"
  shows "oidb_parse buf = OidbBad"
proof -
  have buf: "buf = (s # be32 (of_nat a) @ be32 (of_nat b)) @ drop 9 buf" using append_take_drop_id [of 9 buf] assms(1) by simp
  have n: "ntohl_at buf 1 = of_nat a" "ntohl_at buf 5 = of_nat b"
    using ntohl_be32 [of "[s]" 1 "of_nat a" "be32 (of_nat b) @ drop 9 buf"] ntohl_be32 [of "s # be32 (of_nat a)" 5 "of_nat b" "drop 9 buf"] buf by simp_all
  have "of_nat a + of_nat b + 10 = (of_nat (a + b + 10) :: u32)" by simp
  then have "sint (of_nat a + of_nat b + 10 :: u32) = int (a + b + 10)" using sint_small [of "a + b + 10"] assms(3) by (simp only:)
  then show ?thesis unfolding oidb_parse_def n Let_def using assms(2) by simp
qed

lemma decode_bad:
  assumes "hd buf = STX_IPV6_PB" "buf \<noteq> []" "oidb_parse buf = OidbBad"
  shows "KnvProtocol_decode buf k = Some (new_protocol 0 0 0 True, k)"
  using assms by (simp add: KnvProtocol_decode_def InitFromOidbPkg_def InitProtocol_def InitHeaderInfo_def INIT_HEADER_INFO_def new_protocol_def)


lemma EncodeAllOidb_result:
  assumes "EncodeAllOidb alloc p h = Some (l, m, h')" "0 \<le> l" "alloc_ok alloc"
    "KnvNode_GetValue (pt_header p) h = Some (Some v, h1)" "str_len v = int (length (str_bytes v))"
    "EvaluateSize (pt_tree p) h1 = Some (sz, h2)" "0 \<le> sz"
  shows "\<exists>out :: byte list. l = int (length (str_bytes v) + length out + 9) \<and> nat l \<le> length m \<and>
    take 9 m = STX_IPV6_PB # be32 (of_nat (length (str_bytes v))) @ be32 (of_nat (length out))"
proof -
  let ?n = "int (length (str_bytes v))"
  obtain m0 where m0: "alloc (?n + sz + 10) = Some m0"
    using assms(1,2) unfolding EncodeAllOidb_def assms(4-6) Option.bind.simps case_prod_conv Let_def by (cases "alloc (?n + sz + 10)") auto
  then have len: "9 + length (str_bytes v) \<le> length m0" using assms(3,7) unfolding alloc_ok_def by fastforce
  obtain c h3 r out h4 where R: "GetFirstChild (pt_tree p) h2 = Some (c, h3)"
      "encode_bodies sz (if c = 0 then [] else childlist (nd h3 (pt_tree p))) h3 = Some (r, out, h4)"
    using assms(1) unfolding EncodeAllOidb_def assms(4-6) Option.bind.simps case_prod_conv Let_def m0 option.case
    by (auto simp: bind_eq_Some_conv)
  have "(l, m, h') = (if r < 0 then (r, poke (9 + ?n) out (poke 9 (str_bytes v) (poke 1 (be32 (word_of_int ?n)) (poke 0 [STX_IPV6_PB] m0))), h4)
     else (?n + int (length out) + 9, poke (?n + int (length out) + 9) [ETX_IPV6_PB] (poke 5 (be32 (word_of_int (int (length out))))
       (poke (9 + ?n) out (poke 9 (str_bytes v) (poke 1 (be32 (word_of_int ?n)) (poke 0 [STX_IPV6_PB] m0))))), h4))"
    using assms(1) unfolding EncodeAllOidb_def assms(4-6) Option.bind.simps case_prod_conv Let_def m0 option.case R by simp
  then have lm: "l = int (length (str_bytes v) + length out + 9)" "m = poke (int (length (str_bytes v) + length out + 9)) [ETX_IPV6_PB] (poke 5 (be32 (of_nat (length out)))
       (poke (9 + ?n) out (poke 9 (str_bytes v) (poke 1 (be32 (of_nat (length (str_bytes v)))) (poke 0 [STX_IPV6_PB] m0)))))"
    using assms(2) by (simp_all split: if_splits)
  show ?thesis by (rule exI [of _ out]) (simp only: lm nat_int oidb_all_lengths [OF len] simp_thms)
qed

text \<open>(C39) The OIDB packets of a whole tree cannot be read. The length that \<open>EncodeAllOidb\<close> returns leaves out the last byte of the
  packet, so the string that \<open>EncodeOidb\<close> makes of it ends before ETX. Whatever header and bodies the tree has, the constructor that
  decodes such a string refuses it and leaves an object without a tree.\<close>

theorem EncodeAllOidb_unreadable:
  assumes "EncodeAllOidb alloc p h = Some (l, m, h')" "0 \<le> l" "l + 1 < 2 ^ 31" "alloc_ok alloc"
    "KnvNode_GetValue (pt_header p) h = Some (Some v, h1)" "str_len v = int (length (str_bytes v))"
    "EvaluateSize (pt_tree p) h1 = Some (sz, h2)" "0 \<le> sz"
  shows "to_string (l, m, h') = (0, take (nat l) m, h') \<and> KnvProtocol_decode (take (nat l) m) k = Some (new_protocol 0 0 0 True, k) \<and>
    \<not> pt_IsValid (new_protocol 0 0 0 True) k"
proof -
  obtain out :: "byte list" where R: "l = int (length (str_bytes v) + length out + 9)" "nat l \<le> length m"
      "take 9 m = STX_IPV6_PB # be32 (of_nat (length (str_bytes v))) @ be32 (of_nat (length out))"
    using EncodeAllOidb_result [OF assms(1,2,4-)] by blast
  let ?b = "take (nat l) m"
  have l: "length ?b = length (str_bytes v) + length out + 9" using R(1,2) by simp
  have t: "take 9 ?b = STX_IPV6_PB # be32 (of_nat (length (str_bytes v))) @ be32 (of_nat (length out))" using R(1,3) by (simp add: min_def)
  have "oidb_parse ?b = OidbBad" by (rule oidb_parse_short [OF t l]) (use assms(3) R(1) in simp)
  moreover have "?b \<noteq> []" "hd ?b = STX_IPV6_PB" using t by (cases ?b; simp)+
  ultimately show ?thesis using decode_bad [of ?b k] assms(2) by (simp add: to_string_def pt_IsValid_def new_protocol_def)
qed

text \<open>A packet with the command 5 and an empty body.\<close>

definition demo_node :: "u32 \<Rightarrow> nat \<Rightarrow> pb_val \<Rightarrow> int \<Rightarrow> int \<Rightarrow> KnvNode" where
  "demo_node t p v s vs = KnvNode_construct\<lparr>nd_tag := t, nd_type := PB_WT_STRING, nd_parent := p, nd_val := v, eval_sz := s, eval_val_sz := vs,
     child_num := -1\<rparr>"

definition demo_packet :: knv_heap where
  "demo_packet = knv_empty\<lparr>nd := (nd knv_empty)(
     4 := (demo_node KNV_PKG_TAG 0 (str_val []) 15 10)\<lparr>childlist := [5, 6], child_num := 2, subnode_dirty := True\<rparr>,
     5 := demo_node KNV_PKG_HDR_TAG 4 (str_val [16, 5]) 6 2, 6 := (demo_node KNV_PKG_BDY_TAG 4 (str_val []) 4 0)\<lparr>child_num := 0\<rparr>)\<rparr>"

lemma demo_packet_encoded:
  "EncodeAllOidb (\<lambda>sz. Some (replicate (nat sz) 0)) (new_protocol 4 5 6 True) demo_packet =
     Some (15, [40, 0, 0, 0, 2, 0, 0, 0, 4, 16, 5, 234, 218, 1, 0, 41] @ replicate 11 0, demo_packet)"
proof -
  have n: "nd demo_packet 4 = (demo_node KNV_PKG_TAG 0 (str_val []) 15 10)\<lparr>childlist := [5, 6], child_num := 2, subnode_dirty := True\<rparr>"
    "nd demo_packet 5 = demo_node KNV_PKG_HDR_TAG 4 (str_val [16, 5]) 6 2" "nd demo_packet 6 = (demo_node KNV_PKG_BDY_TAG 4 (str_val []) 4 0)\<lparr>child_num := 0\<rparr>"
    by (simp_all add: demo_packet_def)
  have v: "KnvNode_GetValue 5 demo_packet = Some (Some (str_val [16, 5]), demo_packet)"
    by (simp add: KnvNode_GetValue_def Fold_def n is_folded_def is_leaf_def demo_node_def KNV_PKG_HDR_TAG_def)
  have e: "EvaluateSize 4 demo_packet = Some (15, demo_packet)" using EvaluateSize_cached [of demo_packet 4] by (simp add: n demo_node_def)
  have c: "GetFirstChild 4 demo_packet = Some (5, demo_packet)"
    by (simp add: GetFirstChild_def Expand_def InnerExpand_def n demo_node_def KNV_PKG_TAG_def)
  have s: "Serialize 6 15 True demo_packet = Some (0, [234, 218, 1, 0], demo_packet)"
    by (rule Serialize_folded) (simp_all add: n demo_node_def is_folded_def is_leaf_def KnvNode_construct_def KNV_PKG_BDY_TAG_def field_bytes_def str_val_def enc_eval)
  have b: "encode_bodies 15 [5, 6] demo_packet = Some (0, [234, 218, 1, 0], demo_packet)"
    using s by (simp add: encode_bodies_def n demo_node_def KNV_PKG_BDY_TAG_def KNV_PKG_HDR_TAG_def)
  have be: "be32 2 = [0, 0, 0, 2]" "be32 4 = [0, 0, 0, 4]" by code_simp+
  have "str_len (str_val [16, 5]) = 2" "str_bytes (str_val [16, 5]) = [16, 5]" by (simp_all add: str_len_def str_bytes_def str_val_def val_i32_def)
  then show ?thesis
    using v e c b by (simp add: EncodeAllOidb_def new_protocol_def n demo_node_def poke_def be STX_IPV6_PB_def ETX_IPV6_PB_def)
qed


theorem EncodeAllOidb_unreadable_witness:
  "KnvProtocol_decode [40, 0, 0, 0, 2, 0, 0, 0, 4, 16, 5, 234, 218, 1, 0] knv_empty = Some (new_protocol 0 0 0 True, knv_empty)"
proof -
  have n: "nd demo_packet 4 = (demo_node KNV_PKG_TAG 0 (str_val []) 15 10)\<lparr>childlist := [5, 6], child_num := 2, subnode_dirty := True\<rparr>"
    "nd demo_packet 5 = demo_node KNV_PKG_HDR_TAG 4 (str_val [16, 5]) 6 2" by (simp_all add: demo_packet_def)
  have v: "KnvNode_GetValue (pt_header (new_protocol 4 5 6 True)) demo_packet = Some (Some (str_val [16, 5]), demo_packet)"
    by (simp add: KnvNode_GetValue_def Fold_def n is_folded_def is_leaf_def demo_node_def KNV_PKG_HDR_TAG_def new_protocol_def)
  have e: "EvaluateSize (pt_tree (new_protocol 4 5 6 True)) demo_packet = Some (15, demo_packet)"
    using EvaluateSize_cached [of demo_packet 4] by (simp add: n demo_node_def new_protocol_def)
  have a: "alloc_ok (\<lambda>sz. Some (replicate (nat sz) 0))" by (simp add: alloc_ok_def)
  have "str_len (str_val [16, 5]) = int (length (str_bytes (str_val [16, 5])))" by (simp add: str_len_def str_bytes_def str_val_def val_i32_def)
  then show ?thesis
    using EncodeAllOidb_unreadable [OF demo_packet_encoded _ _ a v _ e, of knv_empty] by simp
qed


text \<open>The sum of the two lengths of a packet wraps around: ten bytes that claim a header of one byte and a body of 4 GB pass all tests.\<close>

theorem oidb_length_wraps: "KnvProtocol_decode [0x28, 0, 0, 0, 1, 0xff, 0xff, 0xff, 0xff, 0x29] k = None"
proof -
  let ?b = "[0x28, 0, 0, 0, 1, 0xff, 0xff, 0xff, 0xff, 0x29] :: byte list"
  have "ntohl_at ?b 1 = 1" "ntohl_at ?b 5 = 0xffffffff" by (simp_all add: ntohl_at_def enc_eval)
  then have "oidb_parse ?b = OidbWild" by (simp add: oidb_parse_def ETX_IPV6_PB_def)
  then show ?thesis by (simp add: KnvProtocol_decode_def InitFromOidbPkg_def STX_IPV6_PB_def)
qed

text \<open>The other two encoders write packets that are read back.\<close>

theorem EncodeOidb_readable:
  assumes "KnvNode_GetValue (pt_header p) h = Some (Some v, h1)" "str_len v = int (length (str_bytes v))"
    "b \<noteq> 0 \<Longrightarrow> EvaluateSize b h1 = Some (int (length bs), h2) \<and> (bs = [] \<or> Serialize b (int (length bs)) True h2 = Some (0, bs, h2))"
    "b = 0 \<Longrightarrow> bs = [] \<and> h2 = h1"
    "alloc (int (length (str_bytes v) + length bs + 10)) = Some m0" "length (str_bytes v) + length bs + 10 \<le> length m0"
    "length (str_bytes v) + length bs + 10 < 2 ^ 31"
  shows "\<exists>m. map_option to_string (EncodeOidb alloc p b h) = Some (0, m, h2) \<and> oidb_parse m = OidbPkg (str_bytes v) bs"
  using EncodeOidb_bytes [of p h v h1 b bs h2 alloc m0, OF assms] oidb_parse_packet [OF assms(7)] by blast

section \<open>Parts\<close>

lemma unat_u32_of_nat: "n < 2 ^ 32 \<Longrightarrow> unat (of_nat n :: u32) = n"
  by (simp add: unat_of_nat take_bit_nat_eq_self_iff)

lemma unat_part:
  fixes sz :: u32
  assumes "i < n" "(n - 1) * unat sz < 2 ^ 32"
  shows "unat (of_nat i * sz) = i * unat sz"
proof -
  have "i * unat sz \<le> (n - 1) * unat sz" using assms(1) by (intro mult_right_mono) simp_all
  then have "i * unat sz < 2 ^ 32" using assms(2) by (rule le_less_trans)
  moreover have "of_nat i * sz = (of_nat (i * unat sz) :: u32)" by simp
  ultimately show ?thesis using unat_u32_of_nat by (simp only:)
qed

text \<open>A list cut into pieces of a size.\<close>

lemma concat_pieces:
  fixes xs :: "'a list"
  shows "concat (map (\<lambda>i. take s (drop (i * s) xs)) [0..<n]) = take (n * s) xs"
proof (induction n)
  case (Suc n)
  have "take (Suc n * s) xs = take (n * s) xs @ take s (drop (n * s) xs)" using take_add [of "n * s" s xs] by (simp add: add.commute)
  then show ?case using Suc by simp
qed simp

lemma ceiling_div:
  fixes s :: nat
  assumes "0 < s" "0 < len"
  shows "0 < (len + s - 1) div s" "((len + s - 1) div s - 1) * s < len" "len \<le> (len + s - 1) div s * s"
proof -
  let ?n = "(len + s - 1) div s"
  have d: "?n * s \<le> len + s - 1" "len + s - 1 < ?n * s + s"
    using div_mult_mod_eq [of "len + s - 1" s] mod_less_divisor [OF assms(1), of "len + s - 1"] by linarith+
  then show l: "len \<le> ?n * s" by linarith
  show n: "0 < ?n" using l assms(2) by (intro Nat.gr0I) simp
  have "(?n - 1) * s + s = ?n * s" using n by (simp add: diff_mult_distrib)
  then show "(?n - 1) * s < len" using d(1) assms by linarith
qed

lemma nr_parts_nat:
  assumes "0 < sz" "0 < len" "len < 2 ^ 31" "len + uint sz < 2 ^ 32"
  shows "unat (nr_parts sz len) = (nat len + unat sz - 1) div unat sz"
proof -
  have s: "0 < unat sz" using assms(1) by (simp add: word_less_nat_alt)
  have "int (nat len + unat sz) < int (2 ^ 32)" using assms(2,4) by simp
  then have l: "nat len + unat sz - 1 < 2 ^ 32" by (simp only: of_nat_less_iff)
  have "of_nat (nat len) = (word_of_int len :: u32)" using assms(2) by simp
  then have "word_of_int len + sz - 1 = (of_nat (nat len + unat sz - 1) :: u32)" using s by (simp add: of_nat_diff)
  then have "unat (word_of_int len + sz - 1) = nat len + unat sz - 1" using unat_u32_of_nat [OF l] by (simp only:)
  then show ?thesis by (simp add: nr_parts_def unat_div)
qed


lemma part_bytes_piece:
  assumes "0 < sz" "0 < len" "len < 2 ^ 31" "len + uint sz < 2 ^ 32" "i < unat (nr_parts sz len)"
  shows "part_bytes sz len m i = take (if i = unat (nr_parts sz len) - 1 then nat len - i * unat sz else unat sz) (drop (i * unat sz) m)"
proof -
  let ?n = "unat (nr_parts sz len)"
  have s: "0 < unat sz" "0 < nat len" using assms(1,2) by (simp_all add: word_less_nat_alt)
  have N: "0 < ?n" "(?n - 1) * unat sz < nat len" using ceiling_div [OF s] nr_parts_nat [OF assms(1-4)] by simp_all
  have small: "(?n - 1) * unat sz < 2 ^ 32" using N(2) assms(3) by simp
  have w: "nr_parts sz len - 1 = of_nat (?n - 1)" using N(1) by (simp add: of_nat_diff)
  have "?n < 2 ^ 32" using unsigned_less [of "nr_parts sz len"] by simp
  then have "i < 2 ^ 32" "?n - 1 < 2 ^ 32" using assms(5) by linarith+
  then have i: "(of_nat i = nr_parts sz len - 1) = (i = ?n - 1)" unfolding w using unat_u32_of_nat by metis
  have "of_nat (nat len) = (word_of_int len :: u32)" using assms(2) by simp
  then have "word_of_int len - of_nat (?n - 1) * sz = (of_nat (nat len - (?n - 1) * unat sz) :: u32)" using N(2) by (simp add: of_nat_diff)
  then have "unat (word_of_int len - of_nat (?n - 1) * sz) = nat len - (?n - 1) * unat sz"
    using unat_u32_of_nat [of "nat len - (?n - 1) * unat sz"] assms(3) by (simp only:) simp
  then show ?thesis using unat_part [OF assms(5) small] unfolding part_bytes_def Let_def i unfolding w by (simp only: split: if_splits) simp
qed

text \<open>(C38) Splitting loses nothing. For a packet of any length below 2 GB and a part size that is not 0, the parts that \<open>Split\<close> cuts, put
  together in order, are the bytes of the packet; no part is empty and none is longer than the part size.\<close>

theorem Split_parts:
  assumes "0 < sz" "0 < len" "len < 2 ^ 31" "len + uint sz < 2 ^ 32" "nat len \<le> length m"
  shows "concat (map (part_bytes sz len m) [0..<unat (nr_parts sz len)]) = take (nat len) m \<and>
    (\<forall>i < unat (nr_parts sz len). 0 < length (part_bytes sz len m i) \<and> length (part_bytes sz len m i) \<le> unat sz)"
proof -
  let ?n = "unat (nr_parts sz len)" and ?s = "unat sz" and ?p = "\<lambda>i. take (unat sz) (drop (i * unat sz) m)"
  have s: "0 < ?s" "0 < nat len" using assms(1,2) by (simp_all add: word_less_nat_alt)
  have N: "0 < ?n" "(?n - 1) * ?s < nat len" "nat len \<le> ?n * ?s" using ceiling_div [OF s] nr_parts_nat [OF assms(1-4)] by simp_all
  note P = part_bytes_piece [OF assms(1-4)]
  have n: "[0..<?n] = [0..<?n - 1] @ [?n - 1]" using N(1) by (metis Suc_pred' upt_Suc_append zero_le)
  have "map (part_bytes sz len m) [0..<?n - 1] = map ?p [0..<?n - 1]" using P by (intro map_cong refl) simp
  then have "concat (map (part_bytes sz len m) [0..<?n - 1]) = take ((?n - 1) * ?s) m" using concat_pieces [of ?s m] by (simp only:)
  moreover have "part_bytes sz len m (?n - 1) = take (nat len - (?n - 1) * ?s) (drop ((?n - 1) * ?s) m)" using P [of "?n - 1"] N(1) by simp
  ultimately have "concat (map (part_bytes sz len m) [0..<?n]) = take ((?n - 1) * ?s + (nat len - (?n - 1) * ?s)) m"
    unfolding n take_add by simp
  moreover have "0 < length (part_bytes sz len m i) \<and> length (part_bytes sz len m i) \<le> ?s" if i: "i < ?n" for i
  proof (cases "i = ?n - 1")
    case True
    have "(?n - 1) * ?s + ?s = ?n * ?s" using N(1) by (simp add: diff_mult_distrib)
    then have "nat len - (?n - 1) * ?s \<le> ?s" "0 < nat len - (?n - 1) * ?s" using N(2,3) by linarith+
    then show ?thesis using P [OF i] True assms(5) by (simp add: min_le_iff_disj)
  next
    case False
    then have "i * ?s + ?s \<le> (?n - 1) * ?s" using i mult_right_mono [of "Suc i" "?n - 1" ?s] by (simp add: add.commute)
    then have "?s \<le> length m - i * ?s" using N(2) assms(5) by linarith
    then show ?thesis using P [OF i] False s(1) by simp
  qed
  ultimately show ?thesis using N(2) by simp
qed

theorem Split_parts_witness:
  "map (part_bytes 2 5 [1, 2, 3, 4, 5]) [0..<3] = [[1, 2], [3, 4], [5]] \<and> concat (map (part_bytes 2 5 [1, 2, 3, 4, 5]) [0..<3]) = [1, 2, 3, 4, 5]"
proof -
  have "unat (nr_parts 2 5) = 3" by code_simp
  moreover have "map (part_bytes 2 5 [1, 2, 3, 4, 5]) [0..<3] = [[1, 2], [3, 4], [5]]" by code_simp
  ultimately show ?thesis using Split_parts [of 2 5 "[1, 2, 3, 4, 5]"] by simp
qed


text \<open>The lengths of varints in 7-bit groups.\<close>

lemma vint_length_short: "unat v < 128 \<Longrightarrow> pb_eval_vint_length v = 1"
proof -
  assume "unat v < 128"
  then have "unat (drop_bit 7 v) = 0" by (simp add: drop_bit_eq_div unat_div)
  then have "drop_bit 7 v = 0" by (simp only: unat_eq_zero)
  then show ?thesis by (simp add: pb_eval_vint_length_def vint_length_loop.simps [of v] vint_length_loop.simps [of 0])
qed

lemma vint_length_more: "128 \<le> unat v \<Longrightarrow> pb_eval_vint_length v = Suc (pb_eval_vint_length (drop_bit 7 v)) \<and> unat (drop_bit 7 v) = unat v div 128"
proof -
  assume v: "128 \<le> unat v"
  have u: "unat (drop_bit 7 v) = unat v div 128" by (simp add: drop_bit_eq_div unat_div)
  then have "unat (drop_bit 7 v) \<noteq> 0" using v by simp
  then have "drop_bit 7 v \<noteq> 0" "v \<noteq> 0" using v by auto
  then show ?thesis using u by (simp add: pb_eval_vint_length_def vint_length_loop.simps [of v])
qed

lemma vint_length_three:
  assumes "16384 \<le> unat v" "unat v < 2097152"
  shows "pb_eval_vint_length v = 3"
proof -
  have 1: "pb_eval_vint_length v = Suc (pb_eval_vint_length (drop_bit 7 v))" "unat (drop_bit 7 v) = unat v div 128"
    using vint_length_more [of v] assms(1) by simp_all
  have 2: "pb_eval_vint_length (drop_bit 7 v) = Suc (pb_eval_vint_length (drop_bit 7 (drop_bit 7 v)))" "unat (drop_bit 7 (drop_bit 7 v)) = unat v div 128 div 128"
    using vint_length_more [of "drop_bit 7 v"] 1(2) assms(1) by simp_all
  show ?thesis using 1 2 vint_length_short [of "drop_bit 7 (drop_bit 7 v)"] assms(2) by simp
qed

lemma string_field_length:
  assumes "pb_eval_tag_length PB_WT_STRING t = a" "a \<le> 10" "16384 \<le> n" "n < 2097152"
  shows "knv_eval_field_length t PB_WT_STRING (len_val n) = n + 3 + int a"
proof -
  have "val_i32 (len_val n) = word_of_int n" by simp
  moreover have "unat (word_of_int n :: u32) = nat n" using assms(3,4) by (intro word_int_small) simp_all
  moreover from this have "unat (ucast (word_of_int n :: u32) :: u64) = nat n" using assms(4)
    by (simp add: unsigned_ucast_eq take_bit_nat_eq_self_iff)
  ultimately show ?thesis
    using assms vint_length_three [of "ucast (word_of_int n :: u32)"]
    by (simp add: knv_eval_field_length_def pb_eval_field_length_def s32_def u32n_def)
qed

text \<open>The room that \<open>Split\<close> leaves for tags and lengths is one byte too small for the default packet size: with less than 128 parts, the
  first part makes a packet of 64001 bytes, if the two fields that are added to the header do not change the length of its length.\<close>

theorem part_exceeds_limit:
  assumes "0 \<le> hs" "hs \<le> 47000" "0 < nr" "nr < 128"
  shows "knv_eval_field_length KNV_PKG_TAG PB_WT_STRING (len_val (hs + knv_eval_field_length KNV_PKG_HDR_TOTAL_SPLIT_COUNT PB_WT_VARINT (int_val (of_nat nr)) +
      knv_eval_field_length KNV_PKG_HDR_CURR_SPLIT_INDEX PB_WT_VARINT (int_val 0) +
      knv_eval_field_length (part_tag 0) PB_WT_STRING (len_val (uint KNV_DEFUALT_MAX_PKG_SIZE - (hs + 16))))) = uint KNV_DEFUALT_MAX_PKG_SIZE + 1"
proof -
  have m: "uint KNV_DEFUALT_MAX_PKG_SIZE = 64000" by (simp add: KNV_DEFUALT_MAX_PKG_SIZE_def)
  have t: "pb_eval_tag_length PB_WT_STRING KNV_PKG_TAG = 3" "pb_eval_tag_length PB_WT_STRING (part_tag 0) = 2"
    "pb_eval_tag_length PB_WT_VARINT KNV_PKG_HDR_TOTAL_SPLIT_COUNT = 2" "pb_eval_tag_length PB_WT_VARINT KNV_PKG_HDR_CURR_SPLIT_INDEX = 2"
    by (simp_all add: pb_eval_tag_length_def vint_eval tag_word_def wire_num_def KNV_PKG_TAG_def KNV_PKG_PART_TAG_BASE_def
        KNV_PKG_HDR_TOTAL_SPLIT_COUNT_def KNV_PKG_HDR_CURR_SPLIT_INDEX_def)
  have n: "pb_eval_vint_length (of_nat nr) = 1" using assms(4) by (intro vint_length_short) (simp add: unat_of_nat take_bit_nat_eq_self_iff)
  have f: "knv_eval_field_length KNV_PKG_HDR_TOTAL_SPLIT_COUNT PB_WT_VARINT (int_val (of_nat nr)) = 3"
    "knv_eval_field_length KNV_PKG_HDR_CURR_SPLIT_INDEX PB_WT_VARINT (int_val 0) = 3"
    using n t(3,4) by (simp_all add: knv_eval_field_length_def pb_eval_field_length_def pb_eval_vint_length_def)
  have p: "knv_eval_field_length (part_tag 0) PB_WT_STRING (len_val (64000 - (hs + 16))) = 64000 - (hs + 16) + 5"
    using string_field_length [OF t(2), of "64000 - (hs + 16)"] assms(1,2) by simp
  show ?thesis unfolding m f p using string_field_length [OF t(1), of "63995"] by simp
qed


section \<open>Packets of header and body\<close>

text \<open>The encoder writes the head of the packet and the encodings of header and body.\<close>

lemma EvaluateSize_enc:
  assumes "knv_inv h L" "knv_enc h n bs" "n \<in> L" "length bs < 2 ^ 31"
  shows "EvaluateSize n h = Some (int (length bs), h)"
  using EvaluateSize_cached [of h n] enc_size [OF assms] by simp

lemma encode_knv_bytes:
  assumes inv: "knv_inv h L" and hd: "knv_enc h hdr hb" "hdr \<in> L" and bd: "b \<in> L" "knv_enc h b bb" "b \<noteq> 0"
    and len: "length (hb @ bb) + 20 < 2 ^ 31" and al: "alloc_ok alloc" "\<forall>sz. alloc sz \<noteq> None"
  shows "\<exists>m. encode_knv alloc hdr b h = Some (int (length (head_bytes KNV_PKG_TAG (length (hb @ bb)) @ hb @ bb)), m, h) \<and>
    take (length (head_bytes KNV_PKG_TAG (length (hb @ bb)) @ hb @ bb)) m = head_bytes KNV_PKG_TAG (length (hb @ bb)) @ hb @ bb"
proof -
  let ?H = "head_bytes KNV_PKG_TAG (length (hb @ bb))"
  let ?T = "int (length (?H @ hb @ bb))"
  have hl: "length ?H \<le> 20" by (rule head_length)
  have T: "?T < 2 ^ 31" using hl len by simp
  have flen: "knv_eval_field_length KNV_PKG_TAG PB_WT_STRING (len_val (int (length hb) + int (length bb))) = ?T"
    using flen_head [of KNV_PKG_TAG "hb @ bb"] T by (simp add: KNV_PKG_TAG_def)
  obtain m0 where m0: "alloc ?T = Some m0" "?T \<le> int (length m0)" using al unfolding alloc_ok_def by blast
  let ?b = "knv_init_buff (nat ?T)"
  have B: "bout ?b = []" "bleft ?b = ?T" using T by simp_all
  have us: "usz (int (length hb) + int (length bb)) = length (hb @ bb)" using len by (simp add: usz_def nat_add_distrib)
  have head: "knv_add_string_head ?b KNV_PKG_TAG (usz (int (length hb) + int (length bb))) = (0, ?b\<lparr>bout := ?H, bleft := ?T - int (length ?H)\<rparr>)"
    unfolding us using add_head [of KNV_PKG_TAG "length (hb @ bb)" ?b] B T by simp
  have s1: "Serialize hdr (?T - int (length ?H)) True h = Some (0, hb, h)"
    by (rule Serialize_enc [OF inv hd]) (use T len in simp_all)
  have s2: "Serialize b (?T - (int (length ?H) + int (length hb))) True h = Some (0, bb, h)"
    by (rule Serialize_enc [OF inv bd(2,1)]) (use T len in simp_all)
  have e: "EvaluateSize hdr h = Some (int (length hb), h)" "EvaluateSize b h = Some (int (length bb), h)"
    using EvaluateSize_enc [OF inv hd] EvaluateSize_enc [OF inv bd(2,1)] len by simp_all
  let ?m1 = "poke (int (length ?H)) hb (poke 0 ?H m0)"
  let ?m = "if int (length bb) \<le> 0 then ?m1 else poke (int (length ?H) + int (length hb)) bb ?m1"
  have run: "encode_knv alloc hdr b h = Some (?T, ?m, h)"
    unfolding encode_knv_def e Option.bind.simps case_prod_conv Let_def if_P [OF bd(3)] flen m0(1) option.case head
    using s1 s2 by simp
  have 1: "poke 0 ?H m0 = ?H @ drop (length ?H) m0" using poke_next [of "[]" 0 ?H m0] by simp
  have 2: "poke (int (length ?H)) hb (?H @ drop (length ?H) m0) = (?H @ hb) @ drop (length ?H + length hb) m0" by (subst poke_next) (simp_all add: add.commute)
  have 3: "poke (int (length ?H) + int (length hb)) bb ((?H @ hb) @ drop (length ?H + length hb) m0) = (?H @ hb @ bb) @ drop (length ?H + length hb + length bb) m0"
    by (subst poke_next) (simp_all add: add_ac)
  have "take (length (?H @ hb @ bb)) ?m = ?H @ hb @ bb" unfolding 1 2 3 by simp
  then show ?thesis using run by blast
qed

text \<open>The first field of a message.\<close>

lemma msg_fields_first:
  assumes "msg_fields bs = Some ((t, ty, w) # r)"
  shows "\<exists>f. knv_begin field0 bs (int (length bs)) = (True, f) \<and> pf_tag f = t \<and> pf_type f = ty \<and> pf_val f = w"
proof -
  obtain ok f where nx: "pb_next (pb_start bs (int (length bs)) field0) = (ok, f)" by fastforce
  have "ok \<and> pf_tag f = t \<and> pf_type f = ty \<and> pf_val f = w"
    using assms nx unfolding msg_fields_def by (subst (asm) pb_read_all.simps) (auto split: prod.splits if_splits)
  then show ?thesis using nx by (simp add: knv_begin_def pb_begin_next)
qed

text \<open>Walking the children of a node.\<close>

lemma GetSibling_list:
  assumes "childlist (nd h n) = pre @ c # cs" "distinct (kids (nd h n))" "nd_parent (nd h c) = n" "n \<noteq> 0"
  shows "GetSibling c h = (case cs of [] \<Rightarrow> 0 | d # _ \<Rightarrow> d)"
proof -
  have "c \<notin> set (metalist (nd h n))" "c \<notin> set pre" using assms(1,2) by auto
  then have "dropWhile (\<lambda>d. d \<noteq> c) (pre @ c # cs) = c # cs" by (subst dropWhile_append2) auto
  then have "siblings_after h c = cs"
    using assms(1,3) \<open>c \<notin> set (metalist (nd h n))\<close> by (simp add: siblings_after_def Let_def)
  then show ?thesis using assms(3,4) by (simp add: GetSibling_def)
qed

lemma FindFirstBody_list:
  assumes "childlist (nd h n) = pre @ cs" "distinct (kids (nd h n))" "\<forall>c \<in> set cs. nd_parent (nd h c) = n \<and> c \<noteq> 0" "n \<noteq> 0"
  shows "FindFirstBody (case cs of [] \<Rightarrow> 0 | c # _ \<Rightarrow> c) h = Some (first_with h KNV_PKG_BDY_TAG cs)"
  using assms(1,3)
proof (induction cs arbitrary: pre)
  case Nil
  then show ?case by (simp add: FindFirstBody.simps [of 0] first_with_def)
next
  case (Cons c cs)
  have "FindFirstBody (case cs of [] \<Rightarrow> 0 | d # _ \<Rightarrow> d) h = Some (first_with h KNV_PKG_BDY_TAG cs)"
    using Cons(1) [of "pre @ [c]"] Cons(2,3) by simp
  moreover have "GetSibling c h = (case cs of [] \<Rightarrow> 0 | d # _ \<Rightarrow> d)"
    using GetSibling_list [OF Cons(2) assms(2) _ assms(4)] Cons(3) by simp
  ultimately show ?case using Cons(3) by (simp add: FindFirstBody.simps [of c] first_with_def)
qed


text \<open>The last field with a tag, when it has the type.\<close>

definition typed_field :: "u32 \<Rightarrow> pb_wire_type \<Rightarrow> field list \<Rightarrow> (u64 + byte list) option" where
  "typed_field t ty fs = (case last_field t fs of None \<Rightarrow> None | Some (uy, v) \<Rightarrow> if uy = ty then Some (val_view ty v) else None)"

definition view_int :: "(u64 + byte list) option \<Rightarrow> u64" where
  "view_int w = (case w of Some (Inl i) \<Rightarrow> i | _ \<Rightarrow> 0)"

definition view_str :: "(u64 + byte list) option \<Rightarrow> byte list option" where
  "view_str w = (case w of Some (Inr bs) \<Rightarrow> Some bs | _ \<Rightarrow> None)"

abbreviation varint_field :: "u32 \<Rightarrow> field list \<Rightarrow> u64" where
  "varint_field t fs \<equiv> view_int (typed_field t PB_WT_VARINT fs)"

text \<open>What the members of an object say about a header with the given fields.\<close>

definition header_view :: "field list \<Rightarrow> KnvProtocol \<Rightarrow> bool" where
  "header_view fs p \<longleftrightarrow> pt_cmd p = ucast (varint_field KNV_PKG_HDR_CMD_TAG fs) \<and> pt_subcmd p = ucast (varint_field KNV_PKG_HDR_SUBCMD_TAG fs) \<and>
     pt_seq p = varint_field KNV_PKG_HDR_SEQ_TAG fs \<and> pt_retcode p = ucast (varint_field KNV_PKG_HDR_RET_TAG fs) \<and>
     pt_retmsg p = view_str (typed_field KNV_PKG_HDR_ERR_TAG PB_WT_STRING fs) \<and>
     (pt_allow_split p \<noteq> 0 \<longleftrightarrow> varint_field KNV_PKG_HDR_ALLOW_SPLIT fs \<noteq> 0) \<and> pt_max_pkg_sz p = ucast (varint_field KNV_PKG_HDR_MAX_PKG_SIZE fs) \<and>
     total_split_count p = ucast (varint_field KNV_PKG_HDR_TOTAL_SPLIT_COUNT fs) \<and> curr_split_index p = ucast (varint_field KNV_PKG_HDR_CURR_SPLIT_INDEX fs)"

definition header_once :: "field list \<Rightarrow> bool" where
  "header_once fs \<longleftrightarrow> (\<forall>t \<in> {KNV_PKG_HDR_RSP_ADDR, KNV_PKG_HDR_ALLOW_SPLIT, KNV_PKG_HDR_MAX_PKG_SIZE, KNV_PKG_HDR_TOTAL_SPLIT_COUNT,
     KNV_PKG_HDR_CURR_SPLIT_INDEX}. length (filter (\<lambda>(u, _). u = t) fs) \<le> 1)"

lemmas header_tags = KNV_PKG_HDR_CMD_TAG_def KNV_PKG_HDR_SUBCMD_TAG_def KNV_PKG_HDR_SEQ_TAG_def KNV_PKG_HDR_RET_TAG_def KNV_PKG_HDR_ERR_TAG_def
  KNV_PKG_HDR_RSP_ADDR_def KNV_PKG_HDR_ALLOW_SPLIT_def KNV_PKG_HDR_MAX_PKG_SIZE_def KNV_PKG_HDR_TOTAL_SPLIT_COUNT_def
  KNV_PKG_HDR_CURR_SPLIT_INDEX_def

lemma typed_value_view:
  assumes "case f of None \<Rightarrow> c = 0 | Some g \<Rightarrow> c \<noteq> 0 \<and> kid_ok h n c (t, g)"
  shows "\<exists>v. typed_value ty (c, h) = (v, h) \<and> map_option (val_view ty) v = (case f of None \<Rightarrow> None | Some (uy, w) \<Rightarrow> if uy = ty then Some (val_view ty w) else None)"
  using assms by (auto simp: typed_value_def kid_ok_def Let_def split: option.splits)

lemma header_meta_rep:
  assumes "kids_rep h n fs" "nd_tag (nd h n) \<noteq> 0" "0 \<notin> set (kids (nd h n))" "is_meta_tag t"
  shows "\<exists>v. header_meta n t ty h = Some (v, h) \<and> map_option (val_view ty) v = typed_field t ty fs"
  using GetMeta_rep [OF assms] typed_value_view [where f = "last_field t fs" and h = h and n = n and t = t and ty = ty] by (fastforce simp: header_meta_def typed_field_def)

lemma header_child_rep:
  assumes "kids_rep h n fs" "nd_tag (nd h n) \<noteq> 0" "0 \<notin> set (kids (nd h n))" "\<not> is_meta_tag t" "length (filter (\<lambda>(u, _). u = t) fs) \<le> 1"
  shows "\<exists>v. header_child n t ty h = Some (v, h) \<and> map_option (val_view ty) v = typed_field t ty fs"
  using FindChildByTag_rep [OF assms] typed_value_view [where f = "last_field t fs" and h = h and n = n and t = t and ty = ty] by (fastforce simp: header_child_def typed_field_def)

lemma view_values:
  "map_option (val_view PB_WT_VARINT) v = w \<Longrightarrow> i64_of v = view_int w \<and> i32_of v = ucast (view_int w)"
  "map_option (val_view PB_WT_STRING) v = w \<Longrightarrow> map_option str_bytes v = view_str w"
  by (auto simp: view_int_def view_str_def val_view_def val_i32_def split: option.splits)

text \<open>Reading a header whose node is expanded.\<close>

lemma InitHeaderInfo_rep:
  assumes "kids_rep h (pt_header p) fs" "nd_tag (nd h (pt_header p)) \<noteq> 0" "0 \<notin> set (kids (nd h (pt_header p)))" "header_once fs" "pt_header p \<noteq> 0"
  shows "\<exists>p'. InitHeaderInfo p h = Some (p', h) \<and> header_view fs p' \<and> pt_tree p' = pt_tree p \<and> pt_header p' = pt_header p \<and> pt_body p' = pt_body p"
proof -
  note M = header_meta_rep [OF assms(1-3)] and C = header_child_rep [OF assms(1-3)]
  obtain a where a: "header_meta (pt_header p) KNV_PKG_HDR_CMD_TAG PB_WT_VARINT h = Some (a, h)" "map_option (val_view PB_WT_VARINT) a = typed_field KNV_PKG_HDR_CMD_TAG PB_WT_VARINT fs"
    using M [of KNV_PKG_HDR_CMD_TAG] by (auto simp: header_tags UC_MAX_META_NUM_def)
  obtain b where b: "header_meta (pt_header p) KNV_PKG_HDR_SUBCMD_TAG PB_WT_VARINT h = Some (b, h)" "map_option (val_view PB_WT_VARINT) b = typed_field KNV_PKG_HDR_SUBCMD_TAG PB_WT_VARINT fs"
    using M [of KNV_PKG_HDR_SUBCMD_TAG] by (auto simp: header_tags UC_MAX_META_NUM_def)
  obtain c where c: "header_meta (pt_header p) KNV_PKG_HDR_RET_TAG PB_WT_VARINT h = Some (c, h)" "map_option (val_view PB_WT_VARINT) c = typed_field KNV_PKG_HDR_RET_TAG PB_WT_VARINT fs"
    using M [of KNV_PKG_HDR_RET_TAG] by (auto simp: header_tags UC_MAX_META_NUM_def)
  obtain d where d: "header_meta (pt_header p) KNV_PKG_HDR_ERR_TAG PB_WT_STRING h = Some (d, h)" "map_option (val_view PB_WT_STRING) d = typed_field KNV_PKG_HDR_ERR_TAG PB_WT_STRING fs"
    using M [of KNV_PKG_HDR_ERR_TAG] by (auto simp: header_tags UC_MAX_META_NUM_def)
  obtain e where e: "header_meta (pt_header p) KNV_PKG_HDR_SEQ_TAG PB_WT_VARINT h = Some (e, h)" "map_option (val_view PB_WT_VARINT) e = typed_field KNV_PKG_HDR_SEQ_TAG PB_WT_VARINT fs"
    using M [of KNV_PKG_HDR_SEQ_TAG] by (auto simp: header_tags UC_MAX_META_NUM_def)
  have H: "\<exists>v. header_child (pt_header p) t ty h = Some (v, h) \<and> map_option (val_view ty) v = typed_field t ty fs"
    if "t \<in> {KNV_PKG_HDR_RSP_ADDR, KNV_PKG_HDR_ALLOW_SPLIT, KNV_PKG_HDR_MAX_PKG_SIZE, KNV_PKG_HDR_TOTAL_SPLIT_COUNT, KNV_PKG_HDR_CURR_SPLIT_INDEX}" for t ty
    using that assms(4) by (intro C) (auto simp: header_once_def header_tags UC_MAX_META_NUM_def)
  obtain u where u: "header_child (pt_header p) KNV_PKG_HDR_RSP_ADDR PB_WT_STRING h = Some (u, h)" using H by blast
  obtain v where v: "header_child (pt_header p) KNV_PKG_HDR_ALLOW_SPLIT PB_WT_VARINT h = Some (v, h)" "map_option (val_view PB_WT_VARINT) v = typed_field KNV_PKG_HDR_ALLOW_SPLIT PB_WT_VARINT fs" using H by blast
  obtain w where w: "header_child (pt_header p) KNV_PKG_HDR_MAX_PKG_SIZE PB_WT_VARINT h = Some (w, h)" "map_option (val_view PB_WT_VARINT) w = typed_field KNV_PKG_HDR_MAX_PKG_SIZE PB_WT_VARINT fs" using H by blast
  obtain x where x: "header_child (pt_header p) KNV_PKG_HDR_TOTAL_SPLIT_COUNT PB_WT_VARINT h = Some (x, h)" "map_option (val_view PB_WT_VARINT) x = typed_field KNV_PKG_HDR_TOTAL_SPLIT_COUNT PB_WT_VARINT fs" using H by blast
  obtain y where y: "header_child (pt_header p) KNV_PKG_HDR_CURR_SPLIT_INDEX PB_WT_VARINT h = Some (y, h)" "map_option (val_view PB_WT_VARINT) y = typed_field KNV_PKG_HDR_CURR_SPLIT_INDEX PB_WT_VARINT fs" using H by blast
  show ?thesis
    unfolding InitHeaderInfo_def Let_def using assms(5)
    by (simp add: a(1) b(1) c(1) d(1) e(1) u v(1) w(1) x(1) y(1) header_view_def INIT_HEADER_INFO_def
        view_values(1) [OF a(2)] view_values(1) [OF b(2)] view_values(1) [OF c(2)] view_values(2) [OF d(2)] view_values(1) [OF e(2)]
        view_values(1) [OF v(2)] view_values(1) [OF w(2)] view_values(1) [OF x(2)] view_values(1) [OF y(2)])
qed


text \<open>Decoding keeps what the members show.\<close>

lemma typed_field_decoded:
  assumes "list_all2 decoded gs fs" "ty = PB_WT_VARINT \<or> ty = PB_WT_STRING"
  shows "typed_field t ty gs = typed_field t ty fs"
proof -
  have one: "uy = uy' \<and> (uy = ty \<longrightarrow> val_view ty w = val_view ty v)" if "decoded (u, uy, w) (u', uy', v)" for u uy w u' uy' v
    using that assms(2) by (auto simp: decoded_def dec_val_def val_view_def val_i32_def str_bytes_def)
  have "list_all2 decoded (filter (\<lambda>(u, _). u = t) gs) (filter (\<lambda>(u, _). u = t) fs)"
    using assms(1) by (induction rule: list_all2_induct) (auto simp: decoded_def)
  then have r: "list_all2 decoded (rev (filter (\<lambda>(u, _). u = t) gs)) (rev (filter (\<lambda>(u, _). u = t) fs))" by simp
  then show ?thesis
    unfolding typed_field_def last_field_def
    by (cases "rev (filter (\<lambda>(u, _). u = t) gs)"; cases "rev (filter (\<lambda>(u, _). u = t) fs)") (auto split: prod.splits dest!: one)
qed

lemma header_decoded:
  assumes "list_all2 decoded gs fs"
  shows "header_once gs = header_once fs" "header_view gs p = header_view fs p"
  using decoded_last [OF assms] typed_field_decoded [OF assms] by (simp_all add: header_once_def header_view_def)

lemma str_val_sel:
  assumes "length bs < 2 ^ 31"
  shows "str_bytes (str_val bs) = bs" "str_len (str_val bs) = int (length bs)"
  using val_i32_str_val [of bs] assms by (simp_all add: str_bytes_def str_len_def)

lemma dec_str_val:
  assumes "decoded (t, ty, w) (u, PB_WT_STRING, str_val bs)" "length bs < 2 ^ 31"
  shows "t = u" "ty = PB_WT_STRING" "str_bytes w = bs" "str_len w = int (length bs)"
  using assms(1) str_val_sel [OF assms(2)] by (auto simp: decoded_def dec_val_def str_bytes_def str_len_def val_i32_def)

text \<open>The expansion of the header, which is a child of the packet.\<close>

lemma header_expand:
  assumes pool: "pool_ok h L" and c: "c \<in> L" "kid_ok h n c (KNV_PKG_HDR_TAG, PB_WT_STRING, w)" and w: "str_len w = int (length (str_bytes w))"
    and hs: "msg_fields (str_bytes w) = Some hs" "hs \<noteq> []" "header_once hs" and p: "pt_header p = c" "c \<noteq> 0"
  shows "\<exists>p' h'. InitHeaderInfo p h = Some (p', h') \<and> header_view hs p' \<and> pt_tree p' = pt_tree p \<and> pt_header p' = c \<and> pt_body p' = pt_body p \<and>
    (\<forall>q \<in> L - {c}. nd h' q = nd h q)"
proof -
  have ne: "str_bytes w \<noteq> []" using msg_fields_begin(2) [OF hs(1,2)] .
  then have "val_i32 w \<noteq> 0" by (auto simp: str_bytes_def)
  then have "is_message w" using msg_fields_begin(1) [OF hs(1,2)] w by (simp add: is_message_def)
  then have k: "nd_tag (nd h c) = KNV_PKG_HDR_TAG" "nd_type (nd h c) = PB_WT_STRING" "nd_ht (nd h c) = KnvHt_clear" "child_num (nd h c) = -1"
    "str_bytes (nd_val (nd h c)) = str_bytes w" "val_i32 (nd_val (nd h c)) = val_i32 w"
    using c(2) by (simp_all add: kid_ok_def Let_def val_view_def)
  have t: "nd_tag (nd h c) \<noteq> 0" "nd_tag (nd h c) \<noteq> 1" using k(1) by (simp_all add: KNV_PKG_HDR_TAG_def)
  have "\<exists>g. InnerExpand c False h = Some g \<and> expanding h L c hs g \<and> \<not> subnode_dirty (nd g c)"
    by (rule InnerExpand_ok [OF pool c(1)]) (use k w hs t in \<open>simp_all add: str_len_def\<close>)
  then obtain g where g: "Expand c h = Some (0, g)" "expanding h L c hs g" using t(1) by (auto simp: Expand_def)
  note S = expanding_sel [OF g(2) t(1)]
  have "child_num (nd g c) \<ge> 0" using S(1) by (simp add: kids_rep_def Let_def)
  then have "GetMeta c KNV_PKG_HDR_CMD_TAG h = GetMeta c KNV_PKG_HDR_CMD_TAG g"
    using k(4) g(1) t(1) S(2) by (intro GetMeta_expand) (simp_all add: header_tags UC_MAX_META_NUM_def)
  then have "InitHeaderInfo p h = InitHeaderInfo p g" using p by (simp add: InitHeaderInfo_def header_meta_def [of c KNV_PKG_HDR_CMD_TAG])
  moreover obtain p' where "InitHeaderInfo p g = Some (p', g)" "header_view hs p'" "pt_tree p' = pt_tree p" "pt_header p' = pt_header p" "pt_body p' = pt_body p"
    using InitHeaderInfo_rep [of g p hs] S hs(3) p by auto
  moreover have "\<forall>q \<in> L - {c}. nd g q = nd h q" using g(2) by (simp add: expanding_def Let_def)
  ultimately show ?thesis using p(1) by (intro exI [of _ p'] exI [of _ g]) simp
qed


text \<open>A packet of a header with the fields \<open>hfs\<close> and a body.\<close>

abbreviation packet_parts :: "field list \<Rightarrow> byte list \<Rightarrow> field list" where
  "packet_parts hfs bv \<equiv> [(KNV_PKG_HDR_TAG, PB_WT_STRING, str_val (fields_bytes hfs)), (KNV_PKG_BDY_TAG, PB_WT_STRING, str_val bv)]"

lemma packet_expanded:
  assumes e: "expanding h (insert n M) n fs h2" and n: "n \<noteq> 0" "nd_tag (nd h n) \<noteq> 0"
    and fs: "fs = [(KNV_PKG_HDR_TAG, PB_WT_STRING, w1), (KNV_PKG_BDY_TAG, PB_WT_STRING, w2)]"
  shows "\<exists>c b. childlist (nd h2 n) = [c, b] \<and> kid_ok h2 n c (KNV_PKG_HDR_TAG, PB_WT_STRING, w1) \<and> kid_ok h2 n b (KNV_PKG_BDY_TAG, PB_WT_STRING, w2) \<and>
    c \<noteq> 0 \<and> b \<noteq> 0 \<and> c \<noteq> b \<and> c \<noteq> n \<and> FindFirstBody c h2 = Some b \<and> FindChildByTag n KNV_PKG_HDR_TAG h2 = Some (c, h2)"
proof -
  note S = expanding_sel [OF e n(2)]
  have cf: "child_fields fs = fs" by (simp add: child_fields_def fs UC_MAX_META_NUM_def KNV_PKG_HDR_TAG_def KNV_PKG_BDY_TAG_def)
  have "list_all2 (kid_ok h2 n) (childlist (nd h2 n)) fs" using S(1) unfolding kids_rep_def Let_def cf by blast
  then obtain c b where cb: "childlist (nd h2 n) = [c, b]" "kid_ok h2 n c (KNV_PKG_HDR_TAG, PB_WT_STRING, w1)" "kid_ok h2 n b (KNV_PKG_BDY_TAG, PB_WT_STRING, w2)"
    by (auto simp: fs list_all2_Cons2)
  have d: "distinct (kids (nd h2 n))" "set (kids (nd h2 n)) \<inter> insert n M = {}" using e by (simp_all add: expanding_def Let_def)
  have nz: "c \<noteq> 0" "b \<noteq> 0" "c \<noteq> b" "c \<noteq> n" using S(3) d cb(1) by auto
  have tg: "nd_tag (nd h2 c) = KNV_PKG_HDR_TAG" "nd_tag (nd h2 b) = KNV_PKG_BDY_TAG" "nd_parent (nd h2 c) = n" "nd_parent (nd h2 b) = n"
    using cb(2,3) by (simp_all add: kid_ok_def Let_def)
  have "FindFirstBody c h2 = Some (first_with h2 KNV_PKG_BDY_TAG [c, b])"
    using FindFirstBody_list [of h2 n "[]" "[c, b]"] cb(1) d(1) tg(3,4) nz n(1) by simp
  then have "FindFirstBody c h2 = Some b" by (simp add: first_with_def tg KNV_PKG_BDY_TAG_def KNV_PKG_HDR_TAG_def)
  moreover have "FindChildByTag n KNV_PKG_HDR_TAG h2 = Some (c, h2)"
    using FindChildByTag_first(1) [OF S(1,2), of KNV_PKG_HDR_TAG] cb(1)
    by (simp add: fs tg UC_MAX_META_NUM_def KNV_PKG_BDY_TAG_def KNV_PKG_HDR_TAG_def)
  ultimately show ?thesis using cb nz by blast
qed

lemma packet_parts_length:
  assumes "length (fields_bytes hfs) < 2 ^ 31" "length bv < 2 ^ 31"
  shows "length (fields_bytes (packet_parts hfs bv)) \<le> length (fields_bytes hfs) + length bv + 40"
proof -
  have "length (field_bytes t PB_WT_STRING (str_val bs)) \<le> length bs + 20" if "length bs < 2 ^ 31" for t bs
    using head_length [of t "length bs"] that by (simp add: field_bytes_str)
  from this [OF assms(1), of KNV_PKG_HDR_TAG] this [OF assms(2), of KNV_PKG_BDY_TAG]
  show ?thesis unfolding fields_bytes_def [of "packet_parts hfs bv"] by simp
qed

lemma msg_fields_packet:
  assumes len: "length (fields_bytes hfs) + length bv + 60 < 2 ^ 31"
  shows "\<exists>w1 w2. msg_fields (fields_bytes (packet_parts hfs bv)) = Some [(KNV_PKG_HDR_TAG, PB_WT_STRING, w1), (KNV_PKG_BDY_TAG, PB_WT_STRING, w2)] \<and>
      str_bytes w1 = fields_bytes hfs \<and> str_len w1 = int (length (fields_bytes hfs)) \<and> str_bytes w2 = bv"
    "\<exists>w. msg_fields (field_bytes KNV_PKG_TAG PB_WT_STRING (str_val (fields_bytes (packet_parts hfs bv)))) = Some [(KNV_PKG_TAG, PB_WT_STRING, w)] \<and>
      str_bytes w = fields_bytes (packet_parts hfs bv) \<and> str_len w = int (length (fields_bytes (packet_parts hfs bv)))"
proof -
  let ?m = "fields_bytes (packet_parts hfs bv)"
  let ?P = "[(KNV_PKG_TAG, PB_WT_STRING, str_val ?m)] :: field list"
  have lens: "length (fields_bytes hfs) < 2 ^ 31" "length bv < 2 ^ 31" using len by simp_all
  have lm: "length ?m + 20 < 2 ^ 31" "length ?m < 2 ^ 31" using packet_parts_length [OF lens] len by simp_all
  have lb: "length (fields_bytes ?P) < 2 ^ 31"
    using head_length [of KNV_PKG_TAG "length ?m"] lm(1) field_bytes_str [of ?m KNV_PKG_TAG] unfolding fields_bytes_def [of ?P] by simp
  have wfp: "list_all (\<lambda>(t, wt, v). wf_field t wt v) ?P" "list_all (\<lambda>(t, wt, v). wf_field t wt v) (packet_parts hfs bv)"
    using wf_str_val lens lm by (simp_all add: KNV_PKG_TAG_def KNV_PKG_HDR_TAG_def KNV_PKG_BDY_TAG_def)
  obtain gs where gs: "msg_fields ?m = Some gs" "list_all2 decoded gs (packet_parts hfs bv)" using msg_fields_bytes [OF wfp(2) lm(2)] by blast
  obtain t1 y1 w1 t2 y2 w2 where g: "gs = [(t1, y1, w1), (t2, y2, w2)]" "decoded (t1, y1, w1) (KNV_PKG_HDR_TAG, PB_WT_STRING, str_val (fields_bytes hfs))"
      "decoded (t2, y2, w2) (KNV_PKG_BDY_TAG, PB_WT_STRING, str_val bv)"
    using gs(2) by (auto simp: list_all2_Cons2)
  show "\<exists>w1 w2. msg_fields ?m = Some [(KNV_PKG_HDR_TAG, PB_WT_STRING, w1), (KNV_PKG_BDY_TAG, PB_WT_STRING, w2)] \<and>
      str_bytes w1 = fields_bytes hfs \<and> str_len w1 = int (length (fields_bytes hfs)) \<and> str_bytes w2 = bv"
    using gs(1) g(1) dec_str_val [OF g(2) lens(1)] dec_str_val [OF g(3) lens(2)] by (intro exI [of _ w1] exI [of _ w2]) simp
  obtain qs where qs: "msg_fields (fields_bytes ?P) = Some qs" "list_all2 decoded qs ?P" using msg_fields_bytes [OF wfp(1) lb] by blast
  obtain t y w where q: "qs = [(t, y, w)]" "decoded (t, y, w) (KNV_PKG_TAG, PB_WT_STRING, str_val ?m)" using qs(2) by (auto simp: list_all2_Cons2)
  have "field_bytes KNV_PKG_TAG PB_WT_STRING (str_val ?m) = fields_bytes ?P" by (simp add: fields_bytes_def [of ?P])
  then show "\<exists>w. msg_fields (field_bytes KNV_PKG_TAG PB_WT_STRING (str_val ?m)) = Some [(KNV_PKG_TAG, PB_WT_STRING, w)] \<and> str_bytes w = ?m \<and> str_len w = int (length ?m)"
    using qs(1) q(1) dec_str_val [OF q(2) lm(2)] by (intro exI [of _ w]) simp
qed

lemma New_data_packet:
  assumes pool: "pool_ok k M" and len: "length (fields_bytes hfs) + length bv + 60 < 2 ^ 31"
  shows "\<exists>n h1 h2 c b w1 w2. KnvNode_New_data (field_bytes KNV_PKG_TAG PB_WT_STRING (str_val (fields_bytes (packet_parts hfs bv)))) k = (n, h1) \<and> n \<noteq> 0 \<and>
    nd_tag (nd h1 n) = KNV_PKG_TAG \<and> expanding h1 (insert n M) n [(KNV_PKG_HDR_TAG, PB_WT_STRING, w1), (KNV_PKG_BDY_TAG, PB_WT_STRING, w2)] h2 \<and>
    str_bytes w1 = fields_bytes hfs \<and> str_len w1 = int (length (fields_bytes hfs)) \<and> str_bytes w2 = bv \<and>
    childlist (nd h2 n) = [c, b] \<and> kid_ok h2 n c (KNV_PKG_HDR_TAG, PB_WT_STRING, w1) \<and> kid_ok h2 n b (KNV_PKG_BDY_TAG, PB_WT_STRING, w2) \<and>
    c \<noteq> 0 \<and> b \<noteq> 0 \<and> c \<noteq> b \<and> c \<noteq> n \<and> GetFirstChild n h1 = Some (c, h2) \<and> FindFirstBody c h2 = Some b \<and> FindChildByTag n KNV_PKG_HDR_TAG h2 = Some (c, h2)"
proof -
  let ?m = "fields_bytes (packet_parts hfs bv)"
  let ?b = "field_bytes KNV_PKG_TAG PB_WT_STRING (str_val ?m)"
  obtain w where P: "msg_fields ?b = Some [(KNV_PKG_TAG, PB_WT_STRING, w)]" "str_bytes w = ?m" "str_len w = int (length ?m)"
    using msg_fields_packet(2) [OF len] by blast
  obtain w1 w2 where F: "msg_fields ?m = Some [(KNV_PKG_HDR_TAG, PB_WT_STRING, w1), (KNV_PKG_BDY_TAG, PB_WT_STRING, w2)]"
    "str_bytes w1 = fields_bytes hfs" "str_len w1 = int (length (fields_bytes hfs))" "str_bytes w2 = bv"
    using msg_fields_packet(1) [OF len] by blast
  obtain f where f: "knv_begin field0 (?b) (int (length (?b))) = (True, f)" "pf_tag f = KNV_PKG_TAG" "pf_type f = PB_WT_STRING" "pf_val f = w"
    using msg_fields_first [OF P(1)] by blast
  obtain n g where new: "np_New k = (n, g)" by fastforce
  define h1 where "h1 = InitNode n KNV_PKG_TAG PB_WT_STRING (Some w) True (int (length (?b)) - pf_left f) False g"
  have N: "KnvNode_New_data (?b) k = (n, h1)" using f by (simp add: KnvNode_New_data_def new h1_def)
  have t0: "KNV_PKG_TAG \<noteq> 0" by (simp add: KNV_PKG_TAG_def)
  obtain h2 where X: "n \<notin> M" "nd_tag (nd h1 n) = KNV_PKG_TAG" "Expand n h1 = Some (0, h2)"
      "expanding h1 (insert n M) n [(KNV_PKG_HDR_TAG, PB_WT_STRING, w1), (KNV_PKG_BDY_TAG, PB_WT_STRING, w2)] h2"
    using InitNode_Expand [OF pool new h1_def, of "[(KNV_PKG_HDR_TAG, PB_WT_STRING, w1), (KNV_PKG_BDY_TAG, PB_WT_STRING, w2)]"] F(1) P(2,3) t0 by auto
  have n0: "n \<noteq> 0" "nd_tag (nd h1 n) \<noteq> 0" using np_New_ok(2) [OF pool new] X(2) t0 by simp_all
  obtain c b where C: "childlist (nd h2 n) = [c, b]" "kid_ok h2 n c (KNV_PKG_HDR_TAG, PB_WT_STRING, w1)" "kid_ok h2 n b (KNV_PKG_BDY_TAG, PB_WT_STRING, w2)"
    "c \<noteq> 0" "b \<noteq> 0" "c \<noteq> b" "c \<noteq> n" "FindFirstBody c h2 = Some b" "FindChildByTag n KNV_PKG_HDR_TAG h2 = Some (c, h2)"
    using packet_expanded [OF X(4) n0 refl] by blast
  have "child_num (nd h2 n) = 2" using expanding_sel(1) [OF X(4) n0(2)] C(1) by (simp add: kids_rep_def Let_def)
  then have G: "GetFirstChild n h1 = Some (c, h2)" using X(3) C(1) by (simp add: GetFirstChild_def)
  show ?thesis
    by (intro exI [of _ n] exI [of _ h1] exI [of _ h2] exI [of _ c] exI [of _ b] exI [of _ w1] exI [of _ w2] conjI N n0(1) X(2,4) F(2-4) C(1-9) G)
qed

lemma decode_packet:
  assumes pool: "pool_ok k M" and hfs: "wf_fields hfs" "hfs \<noteq> []" "header_once hfs"
    and len: "length (fields_bytes hfs) + length bv + 60 < 2 ^ 31"
  shows "\<exists>p k'. KnvProtocol_decode (field_bytes KNV_PKG_TAG PB_WT_STRING (str_val (fields_bytes (packet_parts hfs bv)))) k = Some (p, k') \<and>
    pt_IsValid p k' \<and> header_view hfs p \<and> pt_body p \<noteq> 0 \<and> nd_tag (nd k' (pt_body p)) = KNV_PKG_BDY_TAG \<and> str_bytes (nd_val (nd k' (pt_body p))) = bv"
proof -
  let ?m = "fields_bytes (packet_parts hfs bv)"
  let ?b = "field_bytes KNV_PKG_TAG PB_WT_STRING (str_val ?m)"
  obtain n h1 h2 c b w1 w2 where N: "KnvNode_New_data ?b k = (n, h1)" "n \<noteq> 0" "nd_tag (nd h1 n) = KNV_PKG_TAG"
      "expanding h1 (insert n M) n [(KNV_PKG_HDR_TAG, PB_WT_STRING, w1), (KNV_PKG_BDY_TAG, PB_WT_STRING, w2)] h2"
      "str_bytes w1 = fields_bytes hfs" "str_len w1 = int (length (fields_bytes hfs))" "str_bytes w2 = bv"
    and C: "childlist (nd h2 n) = [c, b]" "kid_ok h2 n c (KNV_PKG_HDR_TAG, PB_WT_STRING, w1)" "kid_ok h2 n b (KNV_PKG_BDY_TAG, PB_WT_STRING, w2)"
      "c \<noteq> 0" "b \<noteq> 0" "c \<noteq> b" "c \<noteq> n" "GetFirstChild n h1 = Some (c, h2)" "FindFirstBody c h2 = Some b" "FindChildByTag n KNV_PKG_HDR_TAG h2 = Some (c, h2)"
    using New_data_packet [OF pool len] by (elim exE conjE)
  have lens: "length (fields_bytes hfs) < 2 ^ 31" using len by simp
  obtain hs where hs: "msg_fields (fields_bytes hfs) = Some hs" "list_all2 decoded hs hfs" "hs \<noteq> []"
    using msg_fields_bytes [OF hfs(1) [unfolded wf_fields_def] lens] hfs(2) by auto
  define L where "L = insert n M \<union> set (kids (nd h2 n))"
  have "pool_ok h2 L" using N(4) unfolding L_def expanding_def Let_def by blast
  then have L: "pool_ok h2 L" "c \<in> L" "b \<in> L - {c}" "n \<in> L - {c}" using N(4) C(1,6,7) by (auto simp: L_def expanding_def Let_def)
  let ?p = "(new_protocol n 0 0 True)\<lparr>pt_body := b, pt_header := c\<rparr>"
  obtain p' h' where I: "InitHeaderInfo ?p h2 = Some (p', h')" "header_view hs p'" "pt_tree p' = n" "pt_body p' = b" "\<forall>q \<in> L - {c}. nd h' q = nd h2 q"
    using header_expand [OF L(1,2) C(2) _ _ hs(3), of ?p] N(5,6) hs(1,2) header_decoded(1) hfs(3) C(4) by (auto simp: new_protocol_def)
  have "nd_tag (nd h2 n) = KNV_PKG_TAG" using N(3,4) by (simp add: expanding_def root_same_def Let_def)
  then have v: "pt_IsValid p' h'" using I(3,5) L(4) N(2) by (simp add: pt_IsValid_def)
  have "InitProtocol (new_protocol n 0 0 True) h1 = Some (p', h')"
    using N(2,3) C(4,8-10) I(1) by (simp add: InitProtocol_def EXPAND_TREE_def new_protocol_def KNV_PKG_TAG_def)
  moreover have "hd (?b) \<noteq> STX_IPV6_PB"
    by (simp add: field_bytes_def KNV_PKG_TAG_def STX_IPV6_PB_def enc_eval)
  ultimately have "KnvProtocol_decode (?b) k = Some (p', h')" using N(1) by (simp add: KnvProtocol_decode_def)
  moreover have "nd_tag (nd h' b) = KNV_PKG_BDY_TAG" "str_bytes (nd_val (nd h' b)) = bv"
    using I(5) L(3) C(3) N(7) by (auto simp: kid_ok_def Let_def val_view_def)
  ultimately show ?thesis using v I(2,4) C(5) header_decoded(2) [OF hs(2)] by (intro exI [of _ p'] exI [of _ h']) simp
qed


text \<open>(C37) Packets with a body arrive. Whatever tree the sender has, the string that \<open>EncodeWithBody\<close> makes of its header and a body is
  decoded by the receiving side into a valid object whose command, sequence number, return code, message and splitting parameters are
  those of the fields of the header, and whose body has the bytes of the body that was sent.\<close>

theorem packet_encode_decode:
  assumes "knv_inv h L" "pt_header p \<in> L" "b \<in> L" "b \<noteq> 0" "pt_IsValid p h" "pt_retcode p = 0" "pt_retmsg p = None"
    "knv_enc h (pt_header p) (field_bytes KNV_PKG_HDR_TAG PB_WT_STRING (str_val (fields_bytes hfs)))"
    "knv_enc h b (field_bytes KNV_PKG_BDY_TAG PB_WT_STRING (str_val bv))"
    "wf_fields hfs" "hfs \<noteq> []" "header_once hfs" "length (fields_bytes hfs) + length bv + 60 < 2 ^ 31"
    "alloc_ok alloc" "\<forall>sz. alloc sz \<noteq> None" "pool_ok k M"
  shows "\<exists>l m q k'. EncodeWithBody alloc p b False False h = Some (l, m, p, h) \<and> 0 \<le> l \<and> KnvProtocol_decode (take (nat l) m) k = Some (q, k') \<and>
    pt_IsValid q k' \<and> header_view hfs q \<and> pt_body q \<noteq> 0 \<and> nd_tag (nd k' (pt_body q)) = KNV_PKG_BDY_TAG \<and> str_bytes (nd_val (nd k' (pt_body q))) = bv"
proof -
  let ?hb = "field_bytes KNV_PKG_HDR_TAG PB_WT_STRING (str_val (fields_bytes hfs))" and ?bb = "field_bytes KNV_PKG_BDY_TAG PB_WT_STRING (str_val bv)"
  let ?m = "fields_bytes (packet_parts hfs bv)"
  have m: "?hb @ ?bb = ?m" by (simp add: fields_bytes_def [of "packet_parts hfs bv"])
  have lm: "length (?hb @ ?bb) + 20 < 2 ^ 31" unfolding m using packet_parts_length [of hfs bv] assms(13) by simp
  have f: "head_bytes KNV_PKG_TAG (length (?hb @ ?bb)) @ ?hb @ ?bb = field_bytes KNV_PKG_TAG PB_WT_STRING (str_val ?m)"
    using field_bytes_str [of ?m KNV_PKG_TAG] lm unfolding m by simp
  obtain buf where E: "encode_knv alloc (pt_header p) b h = Some (int (length (field_bytes KNV_PKG_TAG PB_WT_STRING (str_val ?m))), buf, h)"
      "take (length (field_bytes KNV_PKG_TAG PB_WT_STRING (str_val ?m))) buf = field_bytes KNV_PKG_TAG PB_WT_STRING (str_val ?m)"
    using encode_knv_bytes [OF assms(1,8,2,3,9,4) lm assms(14,15)] unfolding f by blast
  then have "EncodeWithBody alloc p b False False h = Some (int (length (field_bytes KNV_PKG_TAG PB_WT_STRING (str_val ?m))), buf, p, h)"
    using assms(5-7) by (simp add: EncodeWithBody_def Encode_def err_changed_def)
  moreover obtain q k' where "KnvProtocol_decode (field_bytes KNV_PKG_TAG PB_WT_STRING (str_val ?m)) k = Some (q, k')" "pt_IsValid q k'" "header_view hfs q"
      "pt_body q \<noteq> 0" "nd_tag (nd k' (pt_body q)) = KNV_PKG_BDY_TAG" "str_bytes (nd_val (nd k' (pt_body q))) = bv"
    using decode_packet [OF assms(16,10-13)] by blast
  ultimately show ?thesis using E(2)
    by (intro exI [of _ "int (length (field_bytes KNV_PKG_TAG PB_WT_STRING (str_val ?m)))"] exI [of _ buf] exI [of _ q] exI [of _ k']) simp
qed

text \<open>A packet with command 5 and sequence number 300.\<close>

definition demo_header :: "field list" where
  "demo_header = [(2, PB_WT_VARINT, int_val 5), (4, PB_WT_VARINT, int_val 300)]"

lemma demo_header_bytes: "fields_bytes demo_header = [16, 5, 32, 172, 2]"
  by (simp add: demo_header_def fields_bytes_def field_bytes_def enc_eval)

lemma demo_tree:
  "\<exists>n g c b. n \<noteq> 0 \<and> b \<noteq> 0 \<and> nd_tag (nd g n) = KNV_PKG_TAG \<and> knv_inv g (insert n {c, b}) \<and>
    knv_enc g c (field_bytes KNV_PKG_HDR_TAG PB_WT_STRING (str_val (fields_bytes demo_header))) \<and>
    knv_enc g b (field_bytes KNV_PKG_BDY_TAG PB_WT_STRING (str_val [8, 1]))"
proof -
  let ?H = "(KNV_PKG_HDR_TAG, PB_WT_STRING, str_val (fields_bytes demo_header))" and ?B = "(KNV_PKG_BDY_TAG, PB_WT_STRING, str_val [8, 1])"
  have wfb: "wf_field KNV_PKG_HDR_TAG PB_WT_STRING (str_val (fields_bytes demo_header))" "wf_field KNV_PKG_BDY_TAG PB_WT_STRING (str_val [8, 1])"
    by (intro wf_str_val; simp add: demo_header_bytes KNV_PKG_HDR_TAG_def KNV_PKG_BDY_TAG_def)+
  have nm: "\<not> is_meta_tag KNV_PKG_HDR_TAG" "\<not> is_meta_tag KNV_PKG_BDY_TAG" by (simp_all add: UC_MAX_META_NUM_def KNV_PKG_HDR_TAG_def KNV_PKG_BDY_TAG_def)
  have small: "length (field_bytes t PB_WT_STRING (str_val bs)) + 20 < 2 ^ 31" if "length bs \<le> 5" for t bs
    using head_length [of t "length bs"] field_bytes_str [of bs t] that by simp
  note s1 = small [of "fields_bytes demo_header" KNV_PKG_HDR_TAG] and s2 = small [of "[8, 1]" KNV_PKG_BDY_TAG]
  have w: "wf_fields [?H, ?B]" "wire_fields [?H, ?B] = [?H, ?B]" "wf_fields [?H]" "fields_bytes (wire_fields [?H]) = field_bytes KNV_PKG_HDR_TAG PB_WT_STRING (str_val (fields_bytes demo_header))"
    using wfb nm by (simp_all add: wf_fields_def wire_fields_def meta_fields_def child_fields_def fields_bytes_def [of "[_]"])
  obtain n g0 where N: "n \<noteq> 0" "building knv_empty (insert n {}) n [] g0" "nd_tag (nd g0 n) = KNV_PKG_TAG" "nd_key (nd g0 n) = \<lparr>k_type = PB_WT_STRING, k_val = []\<rparr>"
    using building_new [OF empty_pool, of KNV_PKG_TAG] by (auto simp: KNV_PKG_TAG_def)
  have e0: "0 \<le> eval_sz (nd g0 n)" using building_size(2) [OF N(2)] by (simp add: wf_fields_def wire_fields_def meta_fields_def child_fields_def fields_bytes_def)
  have "0 \<le> knv_eval_field_length KNV_PKG_HDR_TAG PB_WT_STRING (str_val (fields_bytes demo_header))" using flen_field_bytes [OF wfb(1)] s1 by (simp add: demo_header_bytes)
  then obtain g1 where G1: "building knv_empty (insert n {}) n [?H] g1" "nd_key (nd g1 n) = nd_key (nd g0 n)" "nd_tag (nd g1 n) = nd_tag (nd g0 n)"
    using InsertChild_leaf [OF N(2) nm(1) wfb(1) e0] by auto
  have e1: "0 \<le> eval_sz (nd g1 n)" using building_size(2) [OF G1(1) w(3)] s1 unfolding w(4) by (simp add: demo_header_bytes)
  have "0 \<le> knv_eval_field_length KNV_PKG_BDY_TAG PB_WT_STRING (str_val [8, 1])" using flen_field_bytes [OF wfb(2)] s2 by simp
  then obtain g2 where G2: "building knv_empty (insert n {}) n [?H, ?B] g2" "nd_key (nd g2 n) = nd_key (nd g1 n)" "nd_tag (nd g2 n) = nd_tag (nd g1 n)"
    using InsertChild_leaf [OF G1(1) nm(2) wfb(2) e1] by auto
  have inv: "knv_inv g2 (insert n (set (kids (nd g2 n))))"
    by (rule building_inv [OF G2(1) building_key [OF G2(1) w(1), where app = "[]"]]) (use N(4) G1(2) G2(2) in simp_all)
  obtain c b where K: "kids (nd g2 n) = [c, b]" "knv_enc g2 c (enc_field ?H)" "knv_enc g2 b (enc_field ?B)"
    using building_enc [OF G2(1) w(1)] unfolding w(2) by (auto simp: list_all2_Cons2)
  moreover have "b \<noteq> 0" using building_parts(9) [OF G2(1)] unfolding K(1) by auto
  ultimately show ?thesis using N(1,3) G1(3) G2(3) inv unfolding K(1) by (intro exI [of _ n] exI [of _ g2] exI [of _ c] exI [of _ b]) simp
qed

theorem packet_encode_decode_witness:
  "\<exists>h p b l m q k'. EncodeWithBody (\<lambda>sz. Some (replicate (nat sz) 0)) p b False False h = Some (l, m, p, h) \<and>
    KnvProtocol_decode (take (nat l) m) knv_empty = Some (q, k') \<and> pt_IsValid q k' \<and> pt_cmd q = 5 \<and> pt_seq q = 300 \<and> str_bytes (nd_val (nd k' (pt_body q))) = [8, 1]"
proof -
  have wf: "wf_fields demo_header" "demo_header \<noteq> []" "header_once demo_header"
    by (simp_all add: demo_header_def wf_fields_def wf_field_def header_once_def header_tags)
  obtain n g c b where T: "n \<noteq> 0" "b \<noteq> 0" "nd_tag (nd g n) = KNV_PKG_TAG" "knv_inv g (insert n {c, b})"
      "knv_enc g c (field_bytes KNV_PKG_HDR_TAG PB_WT_STRING (str_val (fields_bytes demo_header)))" "knv_enc g b (field_bytes KNV_PKG_BDY_TAG PB_WT_STRING (str_val [8, 1]))"
    using demo_tree by (elim exE conjE)
  define p where "p = new_protocol n c b True"
  have P: "pt_header p = c" "pt_IsValid p g" "pt_retcode p = 0" "pt_retmsg p = None" using T(1,3) by (simp_all add: p_def new_protocol_def pt_IsValid_def)
  have a: "alloc_ok (\<lambda>sz. Some (replicate (nat sz) 0))" "\<forall>sz. Some (replicate (nat sz) (0 :: byte)) \<noteq> None" by (simp_all add: alloc_ok_def)
  have v: "varint_field KNV_PKG_HDR_CMD_TAG demo_header = 5" "varint_field KNV_PKG_HDR_SEQ_TAG demo_header = 300"
    by (simp_all add: demo_header_def typed_field_def last_field_def view_int_def val_view_def header_tags)
  have "\<exists>l m q k'. EncodeWithBody (\<lambda>sz. Some (replicate (nat sz) 0)) p b False False g = Some (l, m, p, g) \<and> 0 \<le> l \<and> KnvProtocol_decode (take (nat l) m) knv_empty = Some (q, k') \<and>
    pt_IsValid q k' \<and> header_view demo_header q \<and> pt_body q \<noteq> 0 \<and> nd_tag (nd k' (pt_body q)) = KNV_PKG_BDY_TAG \<and> str_bytes (nd_val (nd k' (pt_body q))) = [8, 1]"
    by (rule packet_encode_decode [OF T(4) _ _ T(2) P(2-4) _ T(6) wf _ a empty_pool]) (use T(5) in \<open>simp_all add: P(1) demo_header_bytes\<close>)
  then obtain l m q k' where "EncodeWithBody (\<lambda>sz. Some (replicate (nat sz) 0)) p b False False g = Some (l, m, p, g)" "KnvProtocol_decode (take (nat l) m) knv_empty = Some (q, k')"
      "pt_IsValid q k'" "header_view demo_header q" "str_bytes (nd_val (nd k' (pt_body q))) = [8, 1]"
    by (elim exE conjE)
  then show ?thesis using v by (intro exI [of _ g] exI [of _ p] exI [of _ b] exI [of _ l] exI [of _ m] exI [of _ q] exI [of _ k']) (simp add: header_view_def)
qed

end
