(* ===== verification/Fork_Children.thy ===== *)
theory Fork_Children
  imports Prelude "HOL-Library.Multiset"
begin

text \<open>
  The process supervisor (\<open>fork_children.c\<close>): the parent forks the worker processes, notes in a signal handler which of them
  ended, and starts them again.

  The handler \<open>DealSigChld\<close> may run between any two statements of the parent, so the supervising loop is a step relation whose
  program counter separates the statements that touch the shared arrays. \<open>alive\<close> are the running children and \<open>zombies\<close> those
  that ended and were not waited for; they belong to the kernel. While the first loop runs, \<open>SIGCHLD\<close> is ignored, so that a child which
  ends then leaves no zombie: these children are the argument \<open>ended\<close> of \<open>ForkChildren\<close>. The number of a new process is one that no slot
  holds: the kernel does not give a number out again at once. Times are seconds. Monitoring is left out.
\<close>

section \<open>Definitions\<close>

definition MAXPIDNUM :: nat where "MAXPIDNUM = 1024"

definition MIN_INTERVAL :: int where "MIN_INTERVAL = 1"

datatype fc_pc = Asleep | At nat | Forked nat int | Cleared nat int

record FcState =
  preTimeArr :: "nat \<Rightarrow> int"
  chldFlagArr :: "nat \<Rightarrow> int"
  pidArray :: "nat \<Rightarrow> int"
  gChildNum :: nat
  fc_at :: fc_pc
  curTime :: int
  alive :: "int list"
  zombies :: "int list"

text \<open>The search for the slot of a child that ended: the first match.\<close>

fun mark_slot :: "nat list \<Rightarrow> int \<Rightarrow> FcState \<Rightarrow> FcState" where
  "mark_slot [] chidPid s = s"
| "mark_slot (j # js) chidPid s =
     (if pidArray s j = chidPid then s\<lparr>chldFlagArr := (chldFlagArr s)(j := 1)\<rparr> else mark_slot js chidPid s)"

text \<open>\<open>pids\<close> are the results of \<open>waitpid\<close> until it returns 0 or -1.\<close>

definition DealSigChld :: "int list \<Rightarrow> FcState \<Rightarrow> FcState" where
  "DealSigChld pids s = (fold (mark_slot [0..<gChildNum s]) pids s)\<lparr>zombies := []\<rparr>"

text \<open>The first loop, on the results of \<open>fork\<close>. In a child, where the result is 0, the function returns the index.\<close>

fun fork_loop :: "int \<Rightarrow> int list \<Rightarrow> nat \<Rightarrow> nat \<Rightarrow> FcState \<Rightarrow> nat option \<times> nat \<times> FcState" where
  "fork_loop startTime [] i iSucNum s = (None, iSucNum, s)"
| "fork_loop startTime (pid # pids) i iSucNum s =
     (if pid = 0 then (Some i, iSucNum, s)
      else if pid > 0
      then fork_loop startTime pids (i + 1) (iSucNum + 1)
             (s\<lparr>pidArray := (pidArray s)(i := pid), preTimeArr := (preTimeArr s)(i := startTime), alive := pid # alive s\<rparr>)
      else if pid = -1 then fork_loop startTime pids (i + 1) iSucNum (s\<lparr>pidArray := (pidArray s)(i := 0)\<rparr>)
      else fork_loop startTime pids (i + 1) iSucNum s)"

datatype fc_result = Returned int "int list" | Supervising

text \<open>The function up to the endless loop; \<open>pids\<close> has a result of \<open>fork\<close> for each child and \<open>ended\<close> the children that end before the
  handler is installed. When it returns, the second value has the processes that were killed.\<close>

definition ForkChildren :: "nat \<Rightarrow> int \<Rightarrow> int list \<Rightarrow> int list \<Rightarrow> FcState \<Rightarrow> fc_result \<times> FcState" where
  "ForkChildren childNum startTime pids ended s =
     (if childNum > MAXPIDNUM then (Returned (-1) [], s)
      else case fork_loop startTime (take childNum pids) 0 0 (s\<lparr>gChildNum := childNum\<rparr>) of
        (Some i, _, s1) \<Rightarrow> (Returned (int i) [], s1)
      | (None, iSucNum, s1) \<Rightarrow>
          if iSucNum < childNum then (Returned (-2) (filter (\<lambda>p. p \<noteq> 0) (map (pidArray s1) [0..<childNum])), s1)
          else (Supervising, s1\<lparr>alive := filter (\<lambda>p. p \<notin> set ended) (alive s1)\<rparr>))"

text \<open>The supervising loop.\<close>

text \<open>The process that was forked and is not in the array yet.\<close>

definition newborn :: "FcState \<Rightarrow> int set" where
  "newborn s = (case fc_at s of Forked i p \<Rightarrow> {p} | Cleared i p \<Rightarrow> {p} | _ \<Rightarrow> {})"

abbreviation slot_pids :: "FcState \<Rightarrow> int set" where
  "slot_pids s \<equiv> pidArray s ` {..<gChildNum s}"

inductive fc_step :: "FcState \<Rightarrow> FcState \<Rightarrow> bool" where
  Wake: "fc_at s = Asleep \<Longrightarrow> fc_step s (s\<lparr>fc_at := At 0, curTime := t\<rparr>)"
| Skip: "fc_at s = At i \<Longrightarrow> i < gChildNum s \<Longrightarrow> chldFlagArr s i \<noteq> 1 \<or> curTime s - preTimeArr s i < MIN_INTERVAL \<Longrightarrow>
    fc_step s (s\<lparr>fc_at := At (i + 1)\<rparr>)"
| ForkFails: "fc_at s = At i \<Longrightarrow> i < gChildNum s \<Longrightarrow> chldFlagArr s i = 1 \<Longrightarrow> curTime s - preTimeArr s i \<ge> MIN_INTERVAL \<Longrightarrow>
    fc_step s (s\<lparr>fc_at := At (i + 1)\<rparr>)"
| ForkWorks: "fc_at s = At i \<Longrightarrow> i < gChildNum s \<Longrightarrow> chldFlagArr s i = 1 \<Longrightarrow> curTime s - preTimeArr s i \<ge> MIN_INTERVAL \<Longrightarrow>
    0 < p \<Longrightarrow> p \<notin> set (alive s) \<union> set (zombies s) \<union> slot_pids s \<Longrightarrow>
    fc_step s (s\<lparr>fc_at := Forked i p, alive := p # alive s\<rparr>)"
| Clear: "fc_at s = Forked i p \<Longrightarrow> fc_step s (s\<lparr>chldFlagArr := (chldFlagArr s)(i := 0), fc_at := Cleared i p\<rparr>)"
| Store: "fc_at s = Cleared i p \<Longrightarrow>
    fc_step s (s\<lparr>pidArray := (pidArray s)(i := p), preTimeArr := (preTimeArr s)(i := curTime s), fc_at := At (i + 1)\<rparr>)"
| Round: "fc_at s = At i \<Longrightarrow> gChildNum s \<le> i \<Longrightarrow> fc_step s (s\<lparr>fc_at := Asleep\<rparr>)"
| Dies: "p \<in> set (alive s) \<Longrightarrow> fc_step s (s\<lparr>alive := remove1 p (alive s), zombies := p # zombies s\<rparr>)"
| Signal: "mset pids = mset (zombies s) \<Longrightarrow> pids \<noteq> [] \<Longrightarrow> fc_step s (DealSigChld pids s)"

abbreviation fc_steps :: "FcState \<Rightarrow> FcState \<Rightarrow> bool" where
  "fc_steps \<equiv> fc_step\<^sup>*\<^sup>*"

text \<open>A step in which the handler waits for a process before its number is stored, and the other steps.\<close>

definition reaped_early :: "FcState \<Rightarrow> FcState \<Rightarrow> bool" where
  "reaped_early s s' \<longleftrightarrow> newborn s \<inter> set (zombies s) \<noteq> {} \<and> zombies s' = []"

definition calm_step :: "FcState \<Rightarrow> FcState \<Rightarrow> bool" where
  "calm_step s s' \<longleftrightarrow> fc_step s s' \<and> \<not> reaped_early s s'"

abbreviation calm_steps :: "FcState \<Rightarrow> FcState \<Rightarrow> bool" where
  "calm_steps \<equiv> calm_step\<^sup>*\<^sup>*"

section \<open>The handler\<close>

lemma mark_slot_sel [simp]:
  "pidArray (mark_slot js p s) = pidArray s" "preTimeArr (mark_slot js p s) = preTimeArr s" "gChildNum (mark_slot js p s) = gChildNum s"
  "fc_at (mark_slot js p s) = fc_at s" "curTime (mark_slot js p s) = curTime s" "alive (mark_slot js p s) = alive s" "zombies (mark_slot js p s) = zombies s"
  by (induction js) simp_all

lemma mark_slots_sel [simp]:
  "pidArray (fold (mark_slot js) ps s) = pidArray s" "preTimeArr (fold (mark_slot js) ps s) = preTimeArr s" "gChildNum (fold (mark_slot js) ps s) = gChildNum s"
  "fc_at (fold (mark_slot js) ps s) = fc_at s" "curTime (fold (mark_slot js) ps s) = curTime s" "alive (fold (mark_slot js) ps s) = alive s"
  by (induction ps arbitrary: s) simp_all

lemma mark_slot_flag:
  assumes "inj_on (pidArray s) (set js)"
  shows "chldFlagArr (mark_slot js p s) j = (if j \<in> set js \<and> pidArray s j = p then 1 else chldFlagArr s j)"
  using assms
proof (induction js)
  case (Cons i js)
  then show ?case by (cases "i = j") (auto simp: inj_on_def)
qed simp

text \<open>The handler flags exactly the slots of the children that were waited for.\<close>

lemma DealSigChld_sel:
  assumes "inj_on (pidArray s) {..<gChildNum s}"
  shows "chldFlagArr (DealSigChld ps s) j = (if j < gChildNum s \<and> pidArray s j \<in> set ps then 1 else chldFlagArr s j)"
    "pidArray (DealSigChld ps s) = pidArray s" "preTimeArr (DealSigChld ps s) = preTimeArr s" "gChildNum (DealSigChld ps s) = gChildNum s"
    "fc_at (DealSigChld ps s) = fc_at s" "curTime (DealSigChld ps s) = curTime s" "alive (DealSigChld ps s) = alive s" "zombies (DealSigChld ps s) = []"
proof -
  let ?js = "[0..<gChildNum s]"
  have "chldFlagArr (fold (mark_slot ?js) ps t) j = (if j < gChildNum s \<and> pidArray s j \<in> set ps then 1 else chldFlagArr t j)"
    if "pidArray t = pidArray s" for t
    using that
  proof (induction ps arbitrary: t)
    case (Cons p ps)
    have "chldFlagArr (mark_slot ?js p t) j = (if j < gChildNum s \<and> pidArray s j = p then 1 else chldFlagArr t j)"
      using assms Cons.prems mark_slot_flag [of t ?js p j] by (simp add: atLeast0LessThan)
    then show ?case using Cons by auto
  qed simp
  then show "chldFlagArr (DealSigChld ps s) j = (if j < gChildNum s \<and> pidArray s j \<in> set ps then 1 else chldFlagArr s j)"
    by (simp add: DealSigChld_def)
qed (simp_all add: DealSigChld_def)

section \<open>Invariants\<close>

text \<open>What holds whenever the handler runs: every process belongs to one slot, or was just forked; a flagged slot has no process.\<close>

definition fc_wf :: "FcState \<Rightarrow> bool" where
  "fc_wf s \<longleftrightarrow> inj_on (pidArray s) {..<gChildNum s} \<and> distinct (alive s @ zombies s) \<and>
     set (alive s) \<union> set (zombies s) \<subseteq> slot_pids s \<union> newborn s \<and>
     (\<forall>j < gChildNum s. chldFlagArr s j = 1 \<longrightarrow> pidArray s j \<notin> set (alive s) \<union> set (zombies s)) \<and>
     (case fc_at s of Forked i p \<Rightarrow> i < gChildNum s \<and> p \<notin> slot_pids s \<and> pidArray s i \<notin> set (alive s) \<union> set (zombies s)
      | Cleared i p \<Rightarrow> i < gChildNum s \<and> chldFlagArr s i = 0 \<and> p \<notin> slot_pids s \<and> pidArray s i \<notin> set (alive s) \<union> set (zombies s) | _ \<Rightarrow> True)"

lemma fc_wf_step:
  assumes "fc_step s s'" "fc_wf s"
  shows "fc_wf s' \<and> gChildNum s' = gChildNum s"
  using assms
proof (induction rule: fc_step.induct)
  case (Store s i p)
  have "x \<in> slot_pids (s\<lparr>pidArray := (pidArray s)(i := p)\<rparr>)" if "x \<in> set (alive s) \<union> set (zombies s)" for x
    using Store that by (fastforce simp: fc_wf_def newborn_def image_iff)
  then show ?case using Store by (auto simp: fc_wf_def inj_on_def newborn_def)
next
  case (Signal pids s)
  have "inj_on (pidArray s) {..<gChildNum s}" using Signal.prems by (simp add: fc_wf_def)
  note D = DealSigChld_sel [OF this]
  have "set pids = set (zombies s)" using Signal(1) by (metis set_mset_mset)
  then show ?case using Signal.prems unfolding fc_wf_def newborn_def D by (auto split: fc_pc.splits if_splits)
next
  case (Dies p s)
  have d: "distinct (alive s @ zombies s)" using Dies by (simp add: fc_wf_def)
  have "set (remove1 p (alive s)) \<union> set (p # zombies s) = set (alive s) \<union> set (zombies s)" using Dies(1) d by auto
  moreover have "distinct (remove1 p (alive s) @ p # zombies s)" using Dies(1) d by auto
  ultimately show ?case using Dies(2) by (simp add: fc_wf_def newborn_def split: fc_pc.splits)
qed (auto simp: fc_wf_def newborn_def split: fc_pc.splits)

lemma fc_wf_steps:
  assumes "fc_steps s s'" "fc_wf s"
  shows "fc_wf s' \<and> gChildNum s' = gChildNum s"
  using assms by (induction rule: rtranclp_induct) (auto dest: fc_wf_step)

text \<open>There are never more processes than slots.\<close>

lemma fc_wf_bound:
  assumes "fc_wf s"
  shows "length (alive s) + length (zombies s) \<le> gChildNum s"
proof -
  let ?A = "set (alive s @ zombies s)" and ?n = "gChildNum s"
  have d: "card ?A = length (alive s) + length (zombies s)" using assms distinct_card [of "alive s @ zombies s"] by (simp add: fc_wf_def)
  have sub: "?A \<subseteq> slot_pids s \<union> newborn s" using assms by (simp add: fc_wf_def)
  show ?thesis
  proof (cases "newborn s = {}")
    case True
    then have "card ?A \<le> card (slot_pids s)" using sub by (intro card_mono) auto
    also have "\<dots> \<le> ?n" using card_image_le [of "{..<?n}" "pidArray s"] by simp
    finally show ?thesis using d by simp
  next
    case False
    then obtain i p where w: "newborn s = {p}" "i < ?n" "pidArray s i \<notin> ?A" using assms by (auto simp: newborn_def fc_wf_def split: fc_pc.splits)
    have "?A \<subseteq> insert p (pidArray s ` ({..<?n} - {i}))" using sub w by auto
    then have "card ?A \<le> card (insert p (pidArray s ` ({..<?n} - {i})))" by (intro card_mono) auto
    also have "\<dots> \<le> Suc (card (pidArray s ` ({..<?n} - {i})))" by (simp add: card_insert_le_m1 card_insert_if)
    also have "\<dots> \<le> Suc (card ({..<?n} - {i}))" by (simp add: card_image_le)
    also have "\<dots> = ?n" using w(2) by simp
    finally show ?thesis using d by simp
  qed
qed

text \<open>No worker is lost: a slot that is not flagged has a process, and so has the slot that is being refilled.\<close>

definition fc_ok :: "FcState \<Rightarrow> bool" where
  "fc_ok s \<longleftrightarrow> fc_wf s \<and> newborn s \<subseteq> set (alive s) \<union> set (zombies s) \<and>
     (\<forall>j < gChildNum s. chldFlagArr s j \<noteq> 1 \<longrightarrow> (\<forall>p. fc_at s \<noteq> Cleared j p) \<longrightarrow> pidArray s j \<in> set (alive s) \<union> set (zombies s))"

lemma fc_ok_step:
  assumes "calm_step s s'" "fc_ok s"
  shows "fc_ok s'"
proof -
  have st: "fc_step s s'" "\<not> reaped_early s s'" using assms(1) by (simp_all add: calm_step_def)
  have wf: "fc_wf s'" "fc_wf s" using st(1) assms(2) fc_wf_step by (auto simp: fc_ok_def)
  show ?thesis
    using st assms(2) wf
  proof (induction rule: fc_step.induct)
    case (Signal pids s)
    have "inj_on (pidArray s) {..<gChildNum s}" using Signal.prems by (simp add: fc_wf_def)
    note D = DealSigChld_sel [OF this]
    have z: "set pids = set (zombies s)" using Signal(1) by (metis set_mset_mset)
    have nb: "newborn (DealSigChld pids s) = newborn s" by (simp add: newborn_def D)
    have "newborn s \<inter> set (zombies s) = {}" using Signal.prems(1) D(8) by (auto simp: reaped_early_def)
    then show ?case using Signal z unfolding fc_ok_def nb D by auto
  next
    case (Dies p s)
    then have "set (alive s) \<union> set (zombies s) = set (remove1 p (alive s)) \<union> set (p # zombies s)" by (auto simp: fc_wf_def)
    then show ?case using Dies by (simp add: fc_ok_def newborn_def split: fc_pc.splits)
  qed (auto simp: fc_ok_def newborn_def split: fc_pc.splits)
qed

lemma fc_ok_steps:
  assumes "calm_steps s s'" "fc_ok s"
  shows "fc_ok s'"
  using assms by (induction rule: rtranclp_induct) (auto dest: fc_ok_step)

lemma calm_fc_steps: "calm_steps s s' \<Longrightarrow> fc_steps s s'"
  by (induction rule: rtranclp_induct) (auto simp: calm_step_def intro: rtranclp.rtrancl_into_rtrancl)

text \<open>A run is calm, or there is a first process that was waited for too early.\<close>

lemma fc_steps_calm:
  assumes "fc_steps s s'"
  shows "calm_steps s s' \<or> (\<exists>u v. calm_steps s u \<and> fc_step u v \<and> reaped_early u v \<and> fc_steps v s')"
  using assms
proof (induction rule: rtranclp_induct)
  case (step u v)
  show ?case
  proof (cases "calm_steps s u \<and> reaped_early u v")
    case False
    then show ?thesis using step by (auto simp: calm_step_def intro: rtranclp.rtrancl_into_rtrancl)
  qed (use step in blast)
qed simp

lemma calmI: "fc_step s s' \<Longrightarrow> zombies s' \<noteq> [] \<or> newborn s \<inter> set (zombies s) = {} \<Longrightarrow> calm_step s s'"
  by (auto simp: calm_step_def reaped_early_def)

lemma calm_same: "fc_step s s' \<Longrightarrow> zombies s' = zombies s \<Longrightarrow> calm_step s s'"
  by (rule calmI) auto

section \<open>Start\<close>

definition fc_zero :: FcState where
  "fc_zero = \<lparr>preTimeArr = (\<lambda>_. 0), chldFlagArr = (\<lambda>_. 0), pidArray = (\<lambda>_. 0), gChildNum = 0, fc_at = Asleep, curTime = 0, alive = [], zombies = []\<rparr>"

lemma fork_loop_sel:
  assumes "fork_loop t pids i k s = (None, m, s1)"
  shows "chldFlagArr s1 = chldFlagArr s" "gChildNum s1 = gChildNum s" "fc_at s1 = fc_at s" "zombies s1 = zombies s" "m \<le> k + length pids"
    "m = k + length pids \<Longrightarrow> (\<forall>p \<in> set pids. 0 < p) \<and> alive s1 = rev pids @ alive s \<and>
       (\<forall>j. pidArray s1 j = (if i \<le> j \<and> j < i + length pids then pids ! (j - i) else pidArray s j))"
proof -
  have "chldFlagArr s1 = chldFlagArr s \<and> gChildNum s1 = gChildNum s \<and> fc_at s1 = fc_at s \<and> zombies s1 = zombies s \<and> m \<le> k + length pids \<and>
    (m = k + length pids \<longrightarrow> (\<forall>p \<in> set pids. 0 < p) \<and> alive s1 = rev pids @ alive s \<and>
       (\<forall>j. pidArray s1 j = (if i \<le> j \<and> j < i + length pids then pids ! (j - i) else pidArray s j)))"
    using assms
  proof (induction pids arbitrary: i k s)
    case (Cons p pids)
    show ?case
    proof (cases "p > 0")
      case True
      have "j - i = Suc (j - Suc i)" if "Suc i \<le> j" for j using that by simp
      then show ?thesis using Cons.IH [of "i + 1" "k + 1"] Cons.prems True by (auto simp: nth_Cons')
    next
      case False
      then have "p \<noteq> 0" using Cons.prems by auto
      then obtain s2 where s2: "fork_loop t pids (i + 1) k s2 = (None, m, s1)"
        "chldFlagArr s2 = chldFlagArr s" "gChildNum s2 = gChildNum s" "fc_at s2 = fc_at s" "zombies s2 = zombies s"
        using Cons.prems False by (auto split: if_splits)
      then show ?thesis using Cons.IH [OF s2(1)] by simp
    qed
  qed simp
  then show "chldFlagArr s1 = chldFlagArr s" "gChildNum s1 = gChildNum s" "fc_at s1 = fc_at s" "zombies s1 = zombies s" "m \<le> k + length pids"
    "m = k + length pids \<Longrightarrow> (\<forall>p \<in> set pids. 0 < p) \<and> alive s1 = rev pids @ alive s \<and>
       (\<forall>j. pidArray s1 j = (if i \<le> j \<and> j < i + length pids then pids ! (j - i) else pidArray s j))" by blast+
qed

lemma ForkChildren_start:
  assumes "ForkChildren n t pids ended fc_zero = (Supervising, s)" "distinct pids"
  shows "fc_wf s" "gChildNum s = n" "n \<le> length pids" "alive s = filter (\<lambda>p. p \<notin> set ended) (rev (take n pids))"
    "\<forall>j < n. pidArray s j = pids ! j" "chldFlagArr s = (\<lambda>_. 0)" "fc_at s = Asleep" "zombies s = []"
proof -
  obtain m s1 where L: "fork_loop t (take n pids) 0 0 (fc_zero\<lparr>gChildNum := n\<rparr>) = (None, m, s1)" "\<not> m < n"
    and s: "s = s1\<lparr>alive := filter (\<lambda>p. p \<notin> set ended) (alive s1)\<rparr>"
    using assms(1) by (auto simp: ForkChildren_def split: if_splits option.splits prod.splits)
  note F = fork_loop_sel [OF L(1)]
  have m: "m = length (take n pids)" "n \<le> length pids" using F(5) L(2) by auto
  have A: "alive s1 = rev (take n pids)" "\<forall>j. pidArray s1 j = (if j < n then pids ! j else 0)"
    using F(6) m by (simp_all add: fc_zero_def min_def)
  show *: "gChildNum s = n" "n \<le> length pids" "alive s = filter (\<lambda>p. p \<notin> set ended) (rev (take n pids))" "\<forall>j < n. pidArray s j = pids ! j"
    "chldFlagArr s = (\<lambda>_. 0)" "fc_at s = Asleep" "zombies s = []"
    using F(1-4) A m(2) by (simp_all add: s fc_zero_def)
  have "inj_on (pidArray s) {..<n}" using *(4) assms(2) m(2) by (simp add: inj_on_def nth_eq_iff_index_eq)
  moreover have "set (take n pids) = (\<lambda>j. pids ! j) ` {..<n}" using nth_image [OF m(2)] by (simp add: atLeast0LessThan)
  then have "set (alive s) \<subseteq> slot_pids s" using * by auto
  ultimately show "fc_wf s" using * assms(2) by (simp add: fc_wf_def newborn_def)
qed

lemma ForkChildren_ok:
  assumes "ForkChildren n t pids ended fc_zero = (Supervising, s)" "distinct pids" "set ended \<inter> set pids = {}"
  shows "fc_ok s"
proof -
  note I = ForkChildren_start [OF assms(1,2)]
  have "pids ! j \<in> set (alive s)" if "j < n" for j
  proof -
    have "pids ! j \<in> set (take n pids)" using that I(3) by (metis in_set_conv_nth length_take min.absorb2 nth_take)
    moreover have "pids ! j \<notin> set ended" using that I(3) assms(3) by (metis IntI emptyE nth_mem order_less_le_trans)
    ultimately show ?thesis using I(4) by simp
  qed
  then show ?thesis using I by (simp add: fc_ok_def newborn_def)
qed

section \<open>Restarts\<close>

text \<open>The loop can always be brought to its end.\<close>

lemma fc_finish_round: "fc_at s = At i \<Longrightarrow> \<exists>s1. calm_steps s s1 \<and> fc_at s1 = Asleep"
proof (induction "gChildNum s - i" arbitrary: i s)
  case 0
  then have "calm_step s (s\<lparr>fc_at := Asleep\<rparr>)" by (intro calm_same [OF fc_step.Round]) simp_all
  then show ?case by (intro exI [of _ "s\<lparr>fc_at := Asleep\<rparr>"]) auto
next
  case (Suc k)
  let ?s = "s\<lparr>fc_at := At (i + 1)\<rparr>"
  have "i < gChildNum s" using Suc(2) by simp
  then have st: "calm_step s ?s"
    using Suc(3) by (cases "chldFlagArr s i = 1 \<and> curTime s - preTimeArr s i \<ge> MIN_INTERVAL") (rule calm_same [OF fc_step.ForkFails] calm_same [OF fc_step.Skip]; force)+
  have "k = gChildNum ?s - (i + 1)" using Suc(2) by simp
  from Suc(1) [OF this] obtain s1 where "calm_steps ?s s1" "fc_at s1 = Asleep" by auto
  then show ?case using st by (meson converse_rtranclp_into_rtranclp)
qed

lemma fc_sleeps: "\<exists>s1. calm_steps s s1 \<and> fc_at s1 = Asleep"
proof (cases "fc_at s")
  case (Forked i p)
  let ?a = "s\<lparr>chldFlagArr := (chldFlagArr s)(i := 0), fc_at := Cleared i p\<rparr>"
  let ?b = "?a\<lparr>pidArray := (pidArray ?a)(i := p), preTimeArr := (preTimeArr ?a)(i := curTime ?a), fc_at := At (i + 1)\<rparr>"
  have "calm_step s ?a" using Forked by (intro calm_same [OF fc_step.Clear]) simp_all
  moreover have "calm_step ?a ?b" by (intro calm_same [OF fc_step.Store]) simp_all
  moreover obtain s1 where "calm_steps ?b s1" "fc_at s1 = Asleep" using fc_finish_round [of ?b "i + 1"] by auto
  ultimately show ?thesis by (meson converse_rtranclp_into_rtranclp)
next
  case (Cleared i p)
  let ?b = "s\<lparr>pidArray := (pidArray s)(i := p), preTimeArr := (preTimeArr s)(i := curTime s), fc_at := At (i + 1)\<rparr>"
  have "calm_step s ?b" using Cleared by (intro calm_same [OF fc_step.Store]) simp_all
  moreover obtain s1 where "calm_steps ?b s1" "fc_at s1 = Asleep" using fc_finish_round [of ?b "i + 1"] by auto
  ultimately show ?thesis by (meson converse_rtranclp_into_rtranclp)
qed (use fc_finish_round in auto)

text \<open>A round in which every slot is due and \<open>fork\<close> works refills all flagged slots.\<close>

lemma fc_refill:
  assumes "fc_at s = At i" "i \<le> gChildNum s" "zombies s = []" "\<forall>j < i. chldFlagArr s j \<noteq> 1" "\<forall>j. i \<le> j \<and> j < gChildNum s \<longrightarrow> curTime s - preTimeArr s j \<ge> MIN_INTERVAL"
  shows "\<exists>s1. calm_steps s s1 \<and> fc_at s1 = At (gChildNum s) \<and> zombies s1 = [] \<and> (\<forall>j < gChildNum s. chldFlagArr s1 j \<noteq> 1)"
  using assms
proof (induction "gChildNum s - i" arbitrary: i s)
  case 0
  then show ?case by (intro exI [of _ s]) simp
next
  case (Suc k)
  have i: "i < gChildNum s" using Suc(2) by simp
  show ?case
  proof (cases "chldFlagArr s i = 1")
    case False
    let ?s = "s\<lparr>fc_at := At (i + 1)\<rparr>"
    have st: "calm_step s ?s" using Suc(3) i False by (intro calm_same [OF fc_step.Skip]) simp_all
    have "k = gChildNum ?s - (i + 1)" using Suc(2) by simp
    from Suc(1) [OF this] obtain s1 where "calm_steps ?s s1" "fc_at s1 = At (gChildNum s)" "zombies s1 = []" "\<forall>j < gChildNum s. chldFlagArr s1 j \<noteq> 1"
      using Suc(3-7) i False by (auto simp: less_Suc_eq)
    then show ?thesis using st by (meson converse_rtranclp_into_rtranclp)
  next
    case True
    obtain p :: int where p: "0 < p" "p \<notin> set (alive s) \<union> set (zombies s) \<union> slot_pids s"
    proof -
      have "finite (set (alive s) \<union> set (zombies s) \<union> slot_pids s)" by simp
      then obtain b where "\<forall>x \<in> set (alive s) \<union> set (zombies s) \<union> slot_pids s. x \<le> b" by (meson Max_ge)
      then show thesis using that [of "max 0 b + 1"] by force
    qed
    let ?a = "s\<lparr>fc_at := Forked i p, alive := p # alive s\<rparr>"
    let ?b = "?a\<lparr>chldFlagArr := (chldFlagArr ?a)(i := 0), fc_at := Cleared i p\<rparr>"
    let ?c = "?b\<lparr>pidArray := (pidArray ?b)(i := p), preTimeArr := (preTimeArr ?b)(i := curTime ?b), fc_at := At (i + 1)\<rparr>"
    have "calm_step s ?a" using Suc(3,7) i True p by (intro calm_same [OF fc_step.ForkWorks]) auto
    moreover have "calm_step ?a ?b" by (intro calm_same [OF fc_step.Clear]) simp_all
    moreover have "calm_step ?b ?c" by (intro calm_same [OF fc_step.Store]) simp_all
    moreover have "k = gChildNum ?c - (i + 1)" using Suc(2) by simp
    from Suc(1) [OF this] obtain s1 where "calm_steps ?c s1" "fc_at s1 = At (gChildNum s)" "zombies s1 = []" "\<forall>j < gChildNum s. chldFlagArr s1 j \<noteq> 1"
      using Suc(3-7) i by (auto simp: less_Suc_eq)
    ultimately show ?thesis by (meson converse_rtranclp_into_rtranclp)
  qed
qed

lemma fc_recovers:
  assumes "fc_ok s"
  shows "\<exists>s1. calm_steps s s1 \<and> (\<forall>j < gChildNum s. pidArray s1 j \<in> set (alive s1))"
proof -
  obtain a where a: "calm_steps s a" "fc_at a = Asleep" using fc_sleeps by blast
  have "\<exists>b. calm_steps a b \<and> fc_at b = Asleep \<and> zombies b = []"
  proof (cases "zombies a = []")
    case False
    then have "calm_step a (DealSigChld (zombies a) a)" using a(2) by (intro calmI [OF fc_step.Signal]) (simp_all add: newborn_def)
    moreover have "fc_at (DealSigChld (zombies a) a) = Asleep" "zombies (DealSigChld (zombies a) a) = []"
      using a(2) by (simp_all add: DealSigChld_def)
    ultimately show ?thesis by blast
  qed (use a(2) in blast)
  then obtain b where b: "calm_steps a b" "fc_at b = Asleep" "zombies b = []" by blast
  have "finite (preTimeArr b ` {..<gChildNum b})" by simp
  then obtain t where t: "\<forall>j < gChildNum b. preTimeArr b j \<le> t" by (meson Max_ge image_eqI lessThan_iff)
  let ?c = "b\<lparr>fc_at := At 0, curTime := max (curTime b) (t + 1)\<rparr>"
  have c: "calm_step b ?c" using b(2) by (intro calm_same [OF fc_step.Wake]) simp_all
  obtain d where d: "calm_steps ?c d" "fc_at d = At (gChildNum b)" "zombies d = []" "\<forall>j < gChildNum b. chldFlagArr d j \<noteq> 1"
    using fc_refill [of ?c 0] b(3) t by (force simp: MIN_INTERVAL_def)
  have sd: "calm_steps s d" using a(1) b(1) c d(1) by (meson converse_rtranclp_into_rtranclp rtranclp_trans)
  have "fc_ok d" "gChildNum d = gChildNum s" "gChildNum b = gChildNum s"
    using fc_ok_steps [OF sd assms] fc_wf_steps [OF calm_fc_steps [OF sd]] fc_wf_steps [OF calm_fc_steps [OF rtranclp_trans [OF a(1) b(1)]]] assms
    by (simp_all add: fc_ok_def)
  then have "\<forall>j < gChildNum s. pidArray d j \<in> set (alive d)" using d(2-4) by (simp add: fc_ok_def)
  then show ?thesis using sd by blast
qed

text \<open>(C35) The supervisor over all its runs, with the handler between any two statements. After a successful start with any number of
  workers there are never more processes than slots, no two slots hold the same process, and a slot that is flagged for a restart has no
  running process, so that no worker is started twice. When no worker ended during the start-up, a worker is lost in one way only: the
  handler ran while a process that had ended was forked but not yet in the array (what then happens is \<open>worker_lost\<close>). In every
  other run each slot has a process that runs or has not been waited for yet, or is flagged, or is being refilled with such a process,
  and a state in which all workers run can be reached.\<close>

theorem workers_supervised:
  assumes "ForkChildren n t pids ended fc_zero = (Supervising, s)" "distinct pids" "fc_steps s s'"
  shows "length (alive s') + length (zombies s') \<le> n \<and> inj_on (pidArray s') {..<n} \<and>
    (\<forall>j < n. chldFlagArr s' j = 1 \<longrightarrow> pidArray s' j \<notin> set (alive s')) \<and>
    (set ended \<inter> set pids = {} \<longrightarrow>
      (\<exists>u v. fc_steps s u \<and> fc_step u v \<and> reaped_early u v \<and> fc_steps v s') \<or>
      (\<forall>j < n. pidArray s' j \<in> set (alive s') \<union> set (zombies s') \<or> chldFlagArr s' j = 1 \<or>
        (\<exists>p. fc_at s' = Cleared j p \<and> p \<in> set (alive s') \<union> set (zombies s'))) \<and>
      (\<exists>s''. fc_steps s' s'' \<and> (\<forall>j < n. pidArray s'' j \<in> set (alive s''))))"
proof -
  note I = ForkChildren_start [OF assms(1,2)]
  have wf: "fc_wf s'" and n: "gChildNum s' = n" using fc_wf_steps [OF assms(3)] I(1,2) by simp_all
  have calm: "(\<forall>j < n. pidArray s' j \<in> set (alive s') \<union> set (zombies s') \<or> chldFlagArr s' j = 1 \<or>
        (\<exists>p. fc_at s' = Cleared j p \<and> p \<in> set (alive s') \<union> set (zombies s'))) \<and>
      (\<exists>s''. fc_steps s' s'' \<and> (\<forall>j < n. pidArray s'' j \<in> set (alive s'')))" if "calm_steps s s'" "set ended \<inter> set pids = {}"
  proof
    have ok: "fc_ok s'" using fc_ok_steps [OF that(1)] ForkChildren_ok [OF assms(1,2) that(2)] by blast
    show "\<forall>j < n. pidArray s' j \<in> set (alive s') \<union> set (zombies s') \<or> chldFlagArr s' j = 1 \<or>
        (\<exists>p. fc_at s' = Cleared j p \<and> p \<in> set (alive s') \<union> set (zombies s'))"
      using ok n by (auto simp: fc_ok_def newborn_def)
    show "\<exists>s''. fc_steps s' s'' \<and> (\<forall>j < n. pidArray s'' j \<in> set (alive s''))" using fc_recovers [OF ok] calm_fc_steps n by blast
  qed
  have "length (alive s') + length (zombies s') \<le> n" using fc_wf_bound [OF wf] n by simp
  moreover have "inj_on (pidArray s') {..<n}" "\<forall>j < n. chldFlagArr s' j = 1 \<longrightarrow> pidArray s' j \<notin> set (alive s')" using wf n by (auto simp: fc_wf_def)
  ultimately show ?thesis using fc_steps_calm [OF assms(3)] calm calm_fc_steps by blast
qed

theorem workers_supervised_witness:
  "\<exists>s. ForkChildren 2 5 [11, 12] [] fc_zero = (Supervising, s) \<and> length (alive s) \<le> 2 \<and> inj_on (pidArray s) {..<2}"
proof -
  obtain s where s: "ForkChildren 2 5 [11, 12] [] fc_zero = (Supervising, s)" by (simp add: ForkChildren_def MAXPIDNUM_def)
  have d: "distinct [11, 12 :: int]" by simp
  have "length (alive s) + length (zombies s) \<le> 2 \<and> inj_on (pidArray s) {..<2}" using workers_supervised [OF s d rtranclp.rtrancl_refl] by blast
  then show ?thesis using s by auto
qed

text \<open>A slot that is lost: its last process is gone, and nothing will flag it.\<close>

definition fc_lost :: "nat \<Rightarrow> int \<Rightarrow> FcState \<Rightarrow> bool" where
  "fc_lost i p s \<longleftrightarrow> i < gChildNum s \<and> p \<notin> set (alive s) \<union> set (zombies s) \<and>
     (fc_at s = Forked i p \<or> fc_at s = Cleared i p \<or>
      chldFlagArr s i = 0 \<and> pidArray s i = p \<and> (\<forall>q. fc_at s \<noteq> Forked i q \<and> fc_at s \<noteq> Cleared i q))"

lemma fc_lost_step:
  assumes "fc_step s s'" "fc_wf s" "fc_lost i p s"
  shows "fc_lost i p s'"
  using assms
proof (induction rule: fc_step.induct)
  case (Signal pids s)
  have "inj_on (pidArray s) {..<gChildNum s}" using Signal.prems by (simp add: fc_wf_def)
  note D = DealSigChld_sel [OF this]
  have "set pids = set (zombies s)" using Signal(1) by (metis set_mset_mset)
  then show ?case using Signal.prems unfolding fc_lost_def D by auto
next
  case (Dies q s)
  then show ?case by (auto simp: fc_lost_def dest: notin_set_remove1)
next
  case (ForkWorks s k q)
  then have "q \<noteq> p" "k \<noteq> i" by (auto simp: fc_lost_def)
  then show ?case using ForkWorks by (auto simp: fc_lost_def)
next
  case (Store s k q)
  then show ?case by (auto simp: fc_lost_def fc_wf_def)
qed (auto simp: fc_lost_def fc_wf_def)

lemma fc_lost_steps:
  assumes "fc_steps s s'" "fc_wf s" "fc_lost i p s"
  shows "fc_lost i p s' \<and> fc_wf s'"
  using assms by (induction rule: rtranclp_induct) (auto dest: fc_lost_step fc_wf_step)

text \<open>A slot whose process is gone, outside the two assignments.\<close>

definition fc_gone :: "nat \<Rightarrow> FcState \<Rightarrow> bool" where
  "fc_gone i s \<longleftrightarrow> i < gChildNum s \<and> pidArray s i \<notin> set (alive s) \<union> set (zombies s) \<and> chldFlagArr s i = 0 \<and> i \<notin> {j. \<exists>q. fc_at s = Forked j q \<or> fc_at s = Cleared j q}"

lemma fc_gone_step:
  assumes "fc_step s s'" "fc_wf s" "fc_gone i s"
  shows "fc_gone i s'"
  using assms
proof (induction rule: fc_step.induct)
  case (Signal pids s)
  have "inj_on (pidArray s) {..<gChildNum s}" using Signal.prems by (simp add: fc_wf_def)
  note D = DealSigChld_sel [OF this]
  have "set pids = set (zombies s)" using Signal(1) by (metis set_mset_mset)
  then show ?case using Signal.prems unfolding fc_gone_def D by auto
next
  case (Dies q s)
  then show ?case by (auto simp: fc_gone_def dest: notin_set_remove1)
qed (auto simp: fc_gone_def)

text \<open>A worker that ends while the others are still being forked is never started again: the signal is ignored at that time, so no handler
  sees it.\<close>

theorem startup_worker_lost:
  assumes "ForkChildren n t pids ended fc_zero = (Supervising, s)" "distinct pids" "j < n" "pids ! j \<in> set ended" "fc_steps s s'"
  shows "chldFlagArr s' j = 0 \<and> pidArray s' j \<notin> set (alive s') \<union> set (zombies s')"
proof -
  note I = ForkChildren_start [OF assms(1,2)]
  have "fc_gone j s" using I assms(3,4) by (simp add: fc_gone_def)
  with assms(5) have "fc_gone j s' \<and> fc_wf s'" using I(1)
    by (induction rule: rtranclp_induct) (auto dest: fc_gone_step fc_wf_step)
  then show ?thesis by (simp add: fc_gone_def)
qed

text \<open>(C36) As the code is, a worker can be lost for good. When a worker that was just forked ends, and the signal arrives before
  its number is in the array, the handler waits for it without finding its slot, and the parent then clears the flag: from then on,
  whatever happens, the slot has no process and is not flagged, except while the loop is still between the two assignments.\<close>

theorem worker_lost:
  assumes "ForkChildren n t pids ended fc_zero = (Supervising, s0)" "distinct pids" "fc_steps s0 s" "fc_at s = Forked i p" "p \<in> set (alive s)"
    "mset ps = mset (p # zombies s)"
  shows "\<exists>s2. fc_steps s s2 \<and> fc_at s2 = Forked i p \<and>
    (\<forall>s'. fc_steps s2 s' \<longrightarrow> fc_at s' \<in> {Forked i p, Cleared i p} \<or>
       chldFlagArr s' i = 0 \<and> pidArray s' i \<notin> set (alive s') \<union> set (zombies s') \<and> (\<forall>q. fc_at s' \<noteq> Forked i q))"
proof -
  have wf0: "fc_wf s0" by (rule ForkChildren_start(1) [OF assms(1,2)])
  have wf: "fc_wf s" using fc_wf_steps [OF assms(3) wf0] by simp
  let ?a = "s\<lparr>alive := remove1 p (alive s), zombies := p # zombies s\<rparr>"
  let ?b = "DealSigChld ps ?a"
  have A: "fc_step s ?a" using assms(5) by (rule fc_step.Dies)
  have ne: "ps \<noteq> []" using assms(6) by auto
  have B: "fc_step ?a ?b" by (rule fc_step.Signal) (use assms(6) ne in simp_all)
  have wfa: "fc_wf ?a" using fc_wf_step [OF A wf] by simp
  have wfb: "fc_wf ?b" using fc_wf_step [OF B wfa] by simp
  have "inj_on (pidArray ?a) {..<gChildNum ?a}" using wfa by (simp only: fc_wf_def)
  note D = DealSigChld_sel [OF this, of ps]
  have "distinct (alive s)" "i < gChildNum s" using wf assms(4) by (simp_all add: fc_wf_def)
  then have L: "fc_lost i p ?b" unfolding fc_lost_def D using assms(4) by simp
  have "fc_at s' \<in> {Forked i p, Cleared i p} \<or> chldFlagArr s' i = 0 \<and> pidArray s' i \<notin> set (alive s') \<union> set (zombies s') \<and> (\<forall>q. fc_at s' \<noteq> Forked i q)"
    if "fc_steps ?b s'" for s'
    using fc_lost_steps [OF that wfb L] by (auto simp: fc_lost_def)
  moreover have "fc_steps s ?b" using A B by (meson converse_rtranclp_into_rtranclp r_into_rtranclp)
  moreover have "fc_at ?b = Forked i p" unfolding D using assms(4) by simp
  ultimately show ?thesis by blast
qed

theorem worker_lost_witness:
  "\<exists>s0 s s2. ForkChildren 1 5 [11] [] fc_zero = (Supervising, s0) \<and> fc_steps s0 s \<and> fc_at s = Forked 0 12 \<and> fc_steps s s2 \<and>
     (\<forall>s'. fc_steps s2 s' \<longrightarrow> fc_at s' \<in> {Forked 0 12, Cleared 0 12} \<or>
       chldFlagArr s' 0 = 0 \<and> pidArray s' 0 \<notin> set (alive s') \<union> set (zombies s'))"
proof -
  obtain s0 where s0: "ForkChildren 1 5 [11] [] fc_zero = (Supervising, s0)" by (simp add: ForkChildren_def MAXPIDNUM_def)
  have d: "distinct [11 :: int]" by simp
  note I = ForkChildren_start(2,4-8) [OF s0 d]
  define a where "a = s0\<lparr>alive := remove1 11 (alive s0), zombies := 11 # zombies s0\<rparr>"
  define b where "b = DealSigChld [11] a"
  have a: "pidArray a 0 = 11" "gChildNum a = 1" "alive a = []" "zombies a = [11]" "fc_at a = Asleep" using I by (simp_all add: a_def)
  then have "inj_on (pidArray a) {..<gChildNum a}" by (simp add: inj_on_def)
  note D = DealSigChld_sel [OF this, of "[11]", folded b_def, unfolded a]
  let ?c = "b\<lparr>fc_at := At 0, curTime := max (curTime b) (preTimeArr b 0 + 1)\<rparr>"
  let ?d = "?c\<lparr>fc_at := Forked 0 12, alive := 12 # alive ?c\<rparr>"
  have "fc_step s0 a" unfolding a_def by (rule fc_step.Dies) (simp add: I(2))
  moreover have "fc_step a b" unfolding b_def by (rule fc_step.Signal) (simp_all add: a)
  moreover have "fc_step b ?c" by (rule fc_step.Wake) (simp_all add: D)
  moreover have "fc_step ?c ?d" by (rule fc_step.ForkWorks) (auto simp: D a MIN_INTERVAL_def)
  ultimately have st: "fc_steps s0 ?d" by (meson converse_rtranclp_into_rtranclp rtranclp.rtrancl_refl)
  have z: "zombies ?d = []" by (simp add: D(8))
  obtain s2 where "fc_steps ?d s2" "\<forall>s'. fc_steps s2 s' \<longrightarrow> fc_at s' \<in> {Forked 0 12, Cleared 0 12} \<or>
       chldFlagArr s' 0 = 0 \<and> pidArray s' 0 \<notin> set (alive s') \<union> set (zombies s')"
    using worker_lost [OF s0 d st, of 0 12 "[12]"] z by auto
  then show ?thesis using s0 st by (intro exI [of _ s0] exI [of _ ?d] exI [of _ s2]) simp
qed

end
