(* ===== verification/Storage.thy ===== *)
theory Storage
  imports Multi_Hash_Table Knv_Expand
begin

text \<open>
  The cache of query results (\<open>UcStorage\<close> in \<open>storage.h\<close>, \<open>storage.cc\<close>): trees of nodes, serialised into the
  multi-level hash table under their key, and the lock around writing.

  \<open>StWorld\<close> holds what the calls share: the tables, the next index, the node heap, the descriptor of the lock file, and
  whether the two read buffers of the thread are allocated. The operating system is a parameter: \<open>malloc\<close> says for a size
  whether the allocation succeeds, \<open>opn\<close> is the result of \<open>open\<close> on the lock file and \<open>flk\<close> that of \<open>flock\<close>. \<open>Delete\<close> calls
  \<open>key.FreeDynData()\<close>, a function that the repository does not contain; it is the parameter \<open>FreeDynData\<close>. Error texts are
  left out.
\<close>

section \<open>Definitions\<close>

definition MAX_HT_SHM_NUM :: nat where
  "MAX_HT_SHM_NUM = 16"

definition SMALL_BUFFER_SIZE :: nat where
  "SMALL_BUFFER_SIZE = 10 * 1024 * 1024"

definition HUGE_BUFFER_SIZE :: nat where
  "HUGE_BUFFER_SIZE = HASH_MAX_DATA_LENGTH"

record StWorld =
  w_mht :: "nat \<Rightarrow> MultiHashTable"
  w_create_idx :: nat
  w_knv :: knv_heap
  w_lock_fd :: int
  w_small :: bool
  w_huge :: bool

record UcStorage =
  st_key :: knv_key
  auto_delete :: bool
  st_tree :: nat
  tAccessTime :: nat
  storage_idx :: nat

text \<open>The constructor from a key, and \<open>GetData\<close> of a key.\<close>

definition UcStorage_new :: "nat \<Rightarrow> knv_key \<Rightarrow> UcStorage" where
  "UcStorage_new fd k =
     \<lparr>st_key = key_init (k_type k) (Some (key_GetValue k)), auto_delete = True, st_tree = 0, tAccessTime = 0, storage_idx = fd\<rparr>"

definition key_GetData :: "knv_key \<Rightarrow> byte list option" where
  "key_GetData k = (if k_val k = [] then None else Some (k_val k))"

subsection \<open>Owning a tree\<close>

definition st_Delete :: "(knv_key \<Rightarrow> knv_key) \<Rightarrow> UcStorage \<Rightarrow> StWorld \<Rightarrow> (UcStorage \<times> StWorld) option" where
  "st_Delete FreeDynData st w = do {
     h \<leftarrow> (if auto_delete st \<and> st_tree st \<noteq> 0 then KnvNode_Delete (st_tree st) (w_knv w) else Some (w_knv w));
     Some (st\<lparr>st_tree := 0, st_key := FreeDynData (st_key st)\<rparr>, w\<lparr>w_knv := h\<rparr>) }"

definition st_Attach :: "(knv_key \<Rightarrow> knv_key) \<Rightarrow> nat \<Rightarrow> bool \<Rightarrow> UcStorage \<Rightarrow> StWorld \<Rightarrow> (UcStorage \<times> StWorld) option" where
  "st_Attach FreeDynData tr auto_del st w = do {
     (st1, w1) \<leftarrow> st_Delete FreeDynData st w;
     let k = nd_key (nd (w_knv w1) tr);
     Some (st1\<lparr>st_tree := tr, st_key := key_init (k_type k) (Some (key_GetValue k)), auto_delete := auto_del\<rparr>, w1) }"

definition st_Detach :: "UcStorage \<Rightarrow> nat \<times> UcStorage" where
  "st_Detach st = (if auto_delete st then (st_tree st, st\<lparr>auto_delete := False\<rparr>) else (0, st))"

definition HasData :: "UcStorage \<Rightarrow> StWorld \<Rightarrow> bool" where
  "HasData st w \<longleftrightarrow> st_tree st \<noteq> 0 \<and> nd_tag (nd (w_knv w) (st_tree st)) \<noteq> 0"

subsection \<open>The lock\<close>

datatype flock_op = LOCK_EX | LOCK_EX_NB | LOCK_UN

definition ShmLock :: "int \<Rightarrow> (int \<Rightarrow> flock_op \<Rightarrow> 'k \<Rightarrow> int \<times> 'k) \<Rightarrow> bool \<Rightarrow> bool \<Rightarrow> 'k \<Rightarrow> StWorld \<Rightarrow> int \<times> 'k \<times> StWorld" where
  "ShmLock opn flk iUnlocking trylock k w =
     (let fd = (if w_lock_fd w \<le> 0 then opn else w_lock_fd w); w1 = w\<lparr>w_lock_fd := fd\<rparr>
      in if fd < 0 then (-1, k, w1)
         else case flk fd (if iUnlocking then LOCK_UN else if trylock then LOCK_EX_NB else LOCK_EX) k of
           (ret, k1) \<Rightarrow> (if ret < 0 then -2 else 0, k1, w1))"

abbreviation LockShm :: "int \<Rightarrow> (int \<Rightarrow> flock_op \<Rightarrow> 'k \<Rightarrow> int \<times> 'k) \<Rightarrow> 'k \<Rightarrow> StWorld \<Rightarrow> int \<times> 'k \<times> StWorld" where
  "LockShm opn flk \<equiv> ShmLock opn flk False False"

abbreviation TryLockShm :: "int \<Rightarrow> (int \<Rightarrow> flock_op \<Rightarrow> 'k \<Rightarrow> int \<times> 'k) \<Rightarrow> 'k \<Rightarrow> StWorld \<Rightarrow> int \<times> 'k \<times> StWorld" where
  "TryLockShm opn flk \<equiv> ShmLock opn flk False True"

abbreviation UnlockShm :: "int \<Rightarrow> (int \<Rightarrow> flock_op \<Rightarrow> 'k \<Rightarrow> int \<times> 'k) \<Rightarrow> 'k \<Rightarrow> StWorld \<Rightarrow> int \<times> 'k \<times> StWorld" where
  "UnlockShm opn flk \<equiv> ShmLock opn flk True False"

subsection \<open>Reading\<close>

definition ThreadExit :: "StWorld \<Rightarrow> StWorld" where
  "ThreadExit w = w\<lparr>w_small := False, w_huge := False\<rparr>"

text \<open>One call of \<open>GetData\<close> of the table of \<open>st\<close>, which updates the access time, into a buffer of \<open>l\<close> bytes.\<close>

definition read_table :: "UcStorage \<Rightarrow> nat \<Rightarrow> nat \<Rightarrow> StWorld \<Rightarrow> (MhtRead \<times> nat \<times> StWorld) option" where
  "read_table st l now w = do {
     (rd, tab) \<leftarrow> mht_GetData (w_mht w (storage_idx st)) (key_GetData (st_key st)) (int (length (k_val (st_key st)))) True (int l) True now;
     Some (rd, case rd_time rd of None \<Rightarrow> tAccessTime st | Some t \<Rightarrow> t, w\<lparr>w_mht := (w_mht w)(storage_idx st := tab)\<rparr>) }"

text \<open>The result is the length or error code, the data, the access time and the world.\<close>

definition ReadCache :: "(nat \<Rightarrow> bool) \<Rightarrow> UcStorage \<Rightarrow> nat \<Rightarrow> StWorld \<Rightarrow> (int \<times> byte list \<times> nat \<times> StWorld) option" where
  "ReadCache malloc st now w =
     (if \<not> w_small w \<and> \<not> malloc SMALL_BUFFER_SIZE then Some (-1, [], tAccessTime st, w)
      else do {
        (rd, t1, w1) \<leftarrow> read_table st SMALL_BUFFER_SIZE now (w\<lparr>w_small := True\<rparr>);
        (if rd_ret rd < 0
         then if rd_ret rd = -22
              then if \<not> w_huge w1 \<and> \<not> malloc HUGE_BUFFER_SIZE then Some (-1, [], t1, w1)
                   else do {
                     (rd2, t2, w2) \<leftarrow> read_table (st\<lparr>tAccessTime := t1\<rparr>) HUGE_BUFFER_SIZE now (w1\<lparr>w_huge := True\<rparr>);
                     (if rd_ret rd2 < 0 then Some (rd_ret rd2, [], t2, w2\<lparr>w_huge := False\<rparr>)
                      else Some (rd_len rd2, rd_data rd2, t2, w2)) }
              else Some (rd_ret rd, [], t1, w1)
         else Some (rd_len rd, rd_data rd, t1, w1)) })"

definition st_Read :: "(nat \<Rightarrow> bool) \<Rightarrow> (knv_key \<Rightarrow> knv_key) \<Rightarrow> nat \<Rightarrow> UcStorage \<Rightarrow> StWorld \<Rightarrow> (int \<times> UcStorage \<times> StWorld) option" where
  "st_Read malloc FreeDynData now st w = do {
     (ret, data, t, w1) \<leftarrow> ReadCache malloc st now w;
     let st1 = st\<lparr>tAccessTime := t\<rparr>;
     (if ret = 0 then Some (-1, st1, w1)
      else if ret < 0 then Some (-2, st1, w1)
      else do {
        (st2, w2) \<leftarrow> st_Delete FreeDynData st1 w1;
        (case KnvNode_New_data data (w_knv w2) of (n, h) \<Rightarrow>
           let st3 = st2\<lparr>st_tree := n\<rparr>; w3 = w2\<lparr>w_knv := h\<rparr>
           in Some (if n = 0 then (-3, st3, w3) else (0, st3\<lparr>auto_delete := True\<rparr>, w3))) }) }"

subsection \<open>Writing\<close>

definition st_Write :: "bool \<Rightarrow> nat \<Rightarrow> UcStorage \<Rightarrow> StWorld \<Rightarrow> (int \<times> StWorld) option" where
  "st_Write auto_remove now st w =
     (if \<not> HasData st w then Some (-1, w)
      else do {
        (ret, s, h) \<leftarrow> Serialize_string (st_tree st) (w_knv w);
        let w1 = w\<lparr>w_knv := h\<rparr>;
        (if ret \<noteq> 0 then Some (-2, w1)
         else do {
           (r, tab) \<leftarrow> mht_SetData (w_mht w1 (storage_idx st)) (key_GetData (st_key st)) (int (length (k_val (st_key st))))
             (Some s) (s32 (length s)) auto_remove now;
           Some (if r < 0 then r else 0, w1\<lparr>w_mht := (w_mht w1)(storage_idx st := tab)\<rparr>) }) })"

definition st_Erase :: "UcStorage \<Rightarrow> StWorld \<Rightarrow> (int \<times> StWorld) option" where
  "st_Erase st w = do {
     (r, tab) \<leftarrow> mht_EraseData (w_mht w (storage_idx st)) (key_GetData (st_key st)) (int (length (k_val (st_key st))));
     Some (r, w\<lparr>w_mht := (w_mht w)(storage_idx st := tab)\<rparr>) }"

definition FixHtBadNode :: "UcStorage \<Rightarrow> StWorld \<Rightarrow> (int \<times> StWorld) option" where
  "FixHtBadNode st w = do {
     (r, tab) \<leftarrow> EraseBadNode (w_mht w (storage_idx st)) (key_GetData (st_key st)) (int (length (k_val (st_key st))));
     Some (r, w\<lparr>w_mht := (w_mht w)(storage_idx st := tab)\<rparr>) }"

subsection \<open>Creating and opening a table\<close>

text \<open>\<open>total_mem\<close> is the result of \<open>GetTotalMemory\<close>, which asks the operating system.\<close>

definition write_param :: "nat \<Rightarrow> nat \<Rightarrow> nat \<Rightarrow> nat \<Rightarrow> nat \<Rightarrow> nat \<Rightarrow> nat \<Rightarrow> bool \<Rightarrow> MhtInitParam" where
  "write_param total_mem shmkey shmsz_percent max_keylen row_num avg_blocknum block_size use_access_seq =
     (let units = u64n (u64n (total_mem * shmsz_percent) div 100 + 2048 * 1024 - 1) div (2048 * 1024);
          ratio = (if avg_blocknum \<noteq> 0 then 100 div avg_blocknum else 150)
      in \<lparr>ddwShmKey = shmkey, par_BufferSize = u64n (units * (1024 * 2048)), par_wMaxKeyLen = u16n max_keylen,
          par_wRowNum = row_num, par_dwIndexRatio = (if ratio = 0 then 1 else ratio), par_ddwBlockSize = block_size,
          par_bUseHugePage = False, par_bUseAccessSeq = use_access_seq, par_HashFunc = None\<rparr>)"

definition InitWrite ::
    "(nat \<Rightarrow> (nat \<times> MhtMem option) option) \<Rightarrow> (nat \<Rightarrow> nat \<Rightarrow> bool \<Rightarrow> MhtBuffer option option) \<Rightarrow> nat \<Rightarrow>
     nat \<Rightarrow> nat \<Rightarrow> nat \<Rightarrow> nat \<Rightarrow> nat \<Rightarrow> nat \<Rightarrow> bool \<Rightarrow> StWorld \<Rightarrow> int \<times> StWorld" where
  "InitWrite shm_open shm_create total_mem shmkey shmsz_percent max_keylen row_num avg_blocknum block_size use_access_seq w =
     (let idx = w_create_idx w; w1 = w\<lparr>w_create_idx := idx + 1\<rparr>
      in if idx \<ge> MAX_HT_SHM_NUM then (-1, w1)
         else case CreateFromShm shm_open shm_create (w_mht w1 idx)
                (write_param total_mem shmkey shmsz_percent max_keylen row_num avg_blocknum block_size use_access_seq) of
           (ret, tab) \<Rightarrow>
             (if ret \<noteq> 0 then -4 else int idx, w1\<lparr>w_mht := (w_mht w1)(idx := tab)\<rparr>))"

definition InitRead :: "(nat \<Rightarrow> (nat \<times> MhtMem option) option) \<Rightarrow> nat \<Rightarrow> StWorld \<Rightarrow> int \<times> StWorld" where
  "InitRead shm_open shmkey w =
     (let idx = w_create_idx w; w1 = w\<lparr>w_create_idx := idx + 1\<rparr>
      in if idx \<ge> MAX_HT_SHM_NUM then (-1, w1)
         else case InitFromShm shm_open (w_mht w1 idx) shmkey None of
           (ret, tab) \<Rightarrow> (if ret < 0 then ret else 0, w1\<lparr>w_mht := (w_mht w1)(idx := tab)\<rparr>))"

section \<open>Reading the cache\<close>

lemma read_table_rep:
  assumes sim: "mht_sim t m M D" and tab: "w_mht w (storage_idx st) = Some t" and k: "kv_key_ok (k_val (st_key st))" and l: "1 \<le> l"
  shows "\<exists>rd t1 t'. read_table st l now w = Some (rd, t1, w\<lparr>w_mht := (w_mht w)(storage_idx st := Some t')\<rparr>) \<and>
    mht_sim t' m M D \<and> mht_hash t' = mht_hash t \<and>
    (case D (key_digest t (k_val (st_key st))) of
       None \<Rightarrow> rd_ret rd = 0 \<and> rd_data rd = [] \<and> rd_len rd = 0
     | Some d \<Rightarrow> (lt_room m d (int l) \<longrightarrow> rd_ret rd = 0 \<and> rd_data rd = d \<and> rd_len rd = int (length d)) \<and>
         (\<not> lt_room m d (int l) \<longrightarrow> BLOCK_DATA_LEN m \<le> l \<longrightarrow> rd_ret rd = -22))"
proof -
  have kv: "0 < length (k_val (st_key st))" "length (k_val (st_key st)) < 2 ^ 63" using k by (simp_all add: kv_key_ok_def)
  then have kd: "key_GetData (st_key st) = Some (k_val (st_key st))" by (auto simp: key_GetData_def)
  have il: "1 \<le> int l" using l by simp
  obtain rd t' where g: "mht_GetData (Some t) (Some (k_val (st_key st))) (int (length (k_val (st_key st)))) True (int l) True now = Some (rd, Some t')"
    and r: "mht_sim t' m M D" "mht_hash t' = mht_hash t"
    and c: "case D (key_digest t (k_val (st_key st))) of
        None \<Rightarrow> rd_ret rd = 0 \<and> rd_data rd = [] \<and> rd_len rd = 0 \<and> t' = t
      | Some d \<Rightarrow> (lt_room m d (int l) \<longrightarrow> rd_ret rd = 0 \<and> rd_data rd = d \<and> rd_len rd = int (length d)) \<and>
          (\<not> lt_room m d (int l) \<longrightarrow> int (BLOCK_DATA_LEN m) \<le> int l \<longrightarrow> rd_ret rd = -22)"
    using mht_GetData_sim [OF sim kv il, of True now] by (elim exE conjE)
  define t1 where "t1 = (case rd_time rd of None \<Rightarrow> tAccessTime st | Some t \<Rightarrow> t)"
  have "read_table st l now w = Some (rd, t1, w\<lparr>w_mht := (w_mht w)(storage_idx st := Some t')\<rparr>)"
    by (simp add: read_table_def tab kd g t1_def)
  then show ?thesis using r c by (intro exI [of _ rd] exI [of _ t1] exI [of _ t']) (simp split: option.splits)
qed

definition cached_bytes :: "(digest \<Rightarrow> byte list option) \<Rightarrow> digest \<Rightarrow> byte list" where
  "cached_bytes D dg = (case D dg of None \<Rightarrow> [] | Some d \<Rightarrow> d)"

text \<open>Both buffers together read every datum of up to \<open>HASH_MAX_DATA_LENGTH\<close> bytes of blocks.\<close>

lemma ReadCache_rep:
  assumes sim: "mht_sim t m M D" and tab: "w_mht w (storage_idx st) = Some t" and k: "kv_key_ok (k_val (st_key st))"
    and bl: "BLOCK_DATA_LEN m \<le> SMALL_BUFFER_SIZE" and mem: "\<And>n. malloc n"
    and room: "\<And>d. D (key_digest t (k_val (st_key st))) = Some d \<Longrightarrow> lt_room m d (int HUGE_BUFFER_SIZE)"
  shows "\<exists>t1 t' w'. ReadCache malloc st now w =
      Some (int (length (cached_bytes D (key_digest t (k_val (st_key st))))), cached_bytes D (key_digest t (k_val (st_key st))), t1, w') \<and>
    mht_sim t' m M D \<and> mht_hash t' = mht_hash t \<and> w_mht w' = (w_mht w)(storage_idx st := Some t') \<and> w_knv w' = w_knv w"
proof -
  let ?dg = "key_digest t (k_val (st_key st))" and ?w = "w\<lparr>w_small := True\<rparr>"
  have sz: "1 \<le> SMALL_BUFFER_SIZE" "1 \<le> HUGE_BUFFER_SIZE" by (simp_all add: SMALL_BUFFER_SIZE_def HUGE_BUFFER_SIZE_def HASH_MAX_DATA_LENGTH_def)
  have tab': "w_mht ?w (storage_idx st) = Some t" using tab by simp
  obtain rd t1 t' where R: "read_table st SMALL_BUFFER_SIZE now ?w = Some (rd, t1, ?w\<lparr>w_mht := (w_mht ?w)(storage_idx st := Some t')\<rparr>)"
    "mht_sim t' m M D" "mht_hash t' = mht_hash t" and c: "case D ?dg of
       None \<Rightarrow> rd_ret rd = 0 \<and> rd_data rd = [] \<and> rd_len rd = 0
     | Some d \<Rightarrow> (lt_room m d (int SMALL_BUFFER_SIZE) \<longrightarrow> rd_ret rd = 0 \<and> rd_data rd = d \<and> rd_len rd = int (length d)) \<and>
         (\<not> lt_room m d (int SMALL_BUFFER_SIZE) \<longrightarrow> BLOCK_DATA_LEN m \<le> SMALL_BUFFER_SIZE \<longrightarrow> rd_ret rd = -22)"
    using read_table_rep [OF sim tab' k sz(1), of now] by (elim exE conjE)
  show ?thesis
  proof (cases "rd_ret rd < 0")
    case False
    then have "rd_ret rd = 0 \<and> rd_data rd = cached_bytes D ?dg \<and> rd_len rd = int (length (cached_bytes D ?dg))"
      using c bl by (cases "D ?dg") (auto simp: cached_bytes_def)
    then have "ReadCache malloc st now w = Some (int (length (cached_bytes D ?dg)), cached_bytes D ?dg, t1, ?w\<lparr>w_mht := (w_mht ?w)(storage_idx st := Some t')\<rparr>)"
      using R(1) mem by (simp add: ReadCache_def)
    then show ?thesis using R(2,3) by (intro exI [of _ t1] exI [of _ t'] exI [of _ "?w\<lparr>w_mht := (w_mht ?w)(storage_idx st := Some t')\<rparr>"]) simp
  next
    case True
    then obtain d where d: "D ?dg = Some d" "rd_ret rd = -22" using c bl by (cases "D ?dg") auto
    let ?st = "st\<lparr>tAccessTime := t1\<rparr>" and ?w1 = "?w\<lparr>w_mht := (w_mht ?w)(storage_idx st := Some t'), w_huge := True\<rparr>"
    have dg: "key_digest t' (k_val (st_key ?st)) = ?dg" using R(3) by (simp add: key_digest_def)
    have "w_mht ?w1 (storage_idx ?st) = Some t'" "kv_key_ok (k_val (st_key ?st))" using k by simp_all
    then obtain rd2 t2 t'' where R2: "read_table ?st HUGE_BUFFER_SIZE now ?w1 = Some (rd2, t2, ?w1\<lparr>w_mht := (w_mht ?w1)(storage_idx ?st := Some t'')\<rparr>)"
      "mht_sim t'' m M D" "mht_hash t'' = mht_hash t'" and c2: "case D ?dg of
         None \<Rightarrow> rd_ret rd2 = 0 \<and> rd_data rd2 = [] \<and> rd_len rd2 = 0
       | Some d \<Rightarrow> (lt_room m d (int HUGE_BUFFER_SIZE) \<longrightarrow> rd_ret rd2 = 0 \<and> rd_data rd2 = d \<and> rd_len rd2 = int (length d)) \<and>
           (\<not> lt_room m d (int HUGE_BUFFER_SIZE) \<longrightarrow> BLOCK_DATA_LEN m \<le> HUGE_BUFFER_SIZE \<longrightarrow> rd_ret rd2 = -22)"
      using read_table_rep [OF R(2) _ _ sz(2), of ?w1 ?st now] unfolding dg by (elim meta_impE exE conjE)
    have "rd_ret rd2 = 0 \<and> rd_data rd2 = d \<and> rd_len rd2 = int (length d)" using c2 d(1) room [OF d(1)] by simp
    then have "ReadCache malloc st now w = Some (int (length (cached_bytes D ?dg)), cached_bytes D ?dg, t2, ?w1\<lparr>w_mht := (w_mht ?w1)(storage_idx ?st := Some t'')\<rparr>)"
      using R(1) R2(1) d mem by (simp add: ReadCache_def cached_bytes_def)
    then show ?thesis using R(3) R2(2,3) by (intro exI [of _ t2] exI [of _ t''] exI [of _ "?w1\<lparr>w_mht := (w_mht ?w1)(storage_idx ?st := Some t'')\<rparr>"]) simp
  qed
qed

section \<open>Writing and reading\<close>

text \<open>A tree stands for the bytes of one field, and these bytes are read into a node that stands for them.\<close>

lemma enc_field:
  assumes "knv_inv h L" "n \<in> L" "knv_enc h n s" "length s < 2 ^ 31"
  shows "\<exists>v. s = field_bytes (nd_tag (nd h n)) (nd_type (nd h n)) v \<and> wf_field (nd_tag (nd h n)) (nd_type (nd h n)) v"
proof -
  consider "is_leaf (nd h n)" "s = field_bytes (nd_tag (nd h n)) (nd_type (nd h n)) (nd_val (nd h n))"
    | bss where "\<not> is_leaf (nd h n)" "list_all2 (knv_enc h) (kids (nd h n)) bss" "s = head_bytes (nd_tag (nd h n)) (length (concat bss)) @ concat bss"
    using knv_encE [OF assms(3)] by metis
  then show ?thesis
  proof cases
    case 1
    then show ?thesis using shape_leaf_wf [OF knv_inv_at(1) [OF assms(1,2)]] by blast
  next
    case (2 bss)
  have ty: "nd_type (nd h n) = PB_WT_STRING" "nd_tag (nd h n) \<noteq> 0" "nd_tag (nd h n) < 2 ^ 29"
    using 2(1) knv_inv_at(1) [OF assms(1,2)] by (auto simp: is_leaf_def shape_ok_def)
  have l: "length (concat bss) < 2 ^ 32" using 2(3) assms(4) by simp
  show ?thesis
    using 2(3) field_bytes_str [OF l, of "nd_tag (nd h n)"] wf_str_val [OF ty(2,3) l] ty(1) by metis
  qed
qed

lemma New_data_field:
  assumes pool: "pool_ok k M" and wf: "wf_field t ty v" and s: "s = field_bytes t ty v" and len: "length s < 2 ^ 31"
  shows "\<exists>n g. KnvNode_New_data s k = (n, g) \<and> n \<noteq> 0 \<and> n \<notin> M \<and> pool_ok g (insert n M) \<and> (\<forall>q \<in> M. nd g q = nd k q) \<and>
    nd_tag (nd g n) = t \<and> nd_type (nd g n) = ty \<and> nd_parent (nd g n) = 0 \<and> knv_enc g n s \<and> Serialize_string n g = Some (0, s, g)"
proof -
  let ?f = "pb_start s (int (length s)) field0"
  let ?w = "dec_val ty v (pf_val ?f)"
  have d: "pb_decode_tag ?f = (0, ?f\<lparr>pf_tag := t, pf_type := ty, pf_val := ?w, pf_ptr := [], pf_left := pf_left ?f - int (length s)\<rparr>)"
    unfolding s by (rule pb_decode_tag_field [OF wf]) (use len s in \<open>simp_all add: pb_start_def\<close>)
  obtain n g0 where new: "np_New k = (n, g0)" by fastforce
  note N = np_New_ok [OF pool new]
  define g where "g = InitNode n t ty (Some ?w) True (int (length s)) False g0"
  have run: "KnvNode_New_data s k = (n, g)"
    using d by (simp add: KnvNode_New_data_def knv_begin_def pb_begin_next pb_next_def new g_def pb_start_def)
  note S = InitNode_self [OF g_def]
  have fb: "field_bytes t ty (nd_val (nd g n)) = s"
  proof (cases "ty = PB_WT_STRING")
    case True
    then have "g = InitNode n t PB_WT_STRING (Some ?w) True (int (length s)) False g0" by (simp add: g_def)
    from InitNode_message(1) [OF this] have "val_i32 (nd_val (nd g n)) = val_i32 ?w" .
    then show ?thesis using True S(3) by (simp add: s field_bytes_def dec_val_def val_view_def str_bytes_def val_i32_def)
  next
    case False
    then have "val_i64 (nd_val (nd g n)) = val_i64 ?w" using S(3) by (simp add: val_view_def)
    then show ?thesis using False wf by (cases ty) (simp_all add: s field_bytes_def dec_val_def val_i32_def wf_field_def)
  qed
  have pos: "0 < length s" using s vint_buffer_length [of "ucast (tag_word ty t)"] pb_eval_vint_length_bounds [of "ucast (tag_word ty t)"]
    by (simp add: field_bytes_def)
  have es: "eval_sz (nd g n) = int (length s)"
    using pos by (simp add: g_def InitNode_def InitChildList_def Let_def split: prod.split)
  have leaf: "is_leaf (nd g n)" using S(4,6) by (auto simp: is_leaf_def)
  have t0: "t \<noteq> 0" "known_wire ty" using wf by (simp_all add: wf_field_def)
  have enc: "knv_enc g n s" by (rule enc_leaf [OF leaf]) (simp add: S(1,2) fb)
  have "EvaluateSize n g = Some (int (length s), g)" using EvaluateSize_cached [of g n] es by simp
  moreover have "Serialize n (int (length s)) True g = Some (0, s, g)"
    by (rule Serialize_folded) (use leaf t0 S(1,2) fb len in \<open>simp_all add: is_folded_def\<close>)
  ultimately have ser: "Serialize_string n g = Some (0, s, g)" by (simp add: Serialize_string_def)
  have "pool_ok g (insert n M)" by (rule pool_ok_frame [OF N(3)]) (auto simp: g_def)
  moreover have "nd g q = nd k q" if "q \<in> M" for q
  proof -
    have "q \<noteq> n" using that N(1) by metis
    then show ?thesis using N(4) by (simp add: g_def)
  qed
  ultimately show ?thesis using run N(1,2) S(1,2,9) enc ser by (intro exI [of _ n] exI [of _ g]) simp
qed

definition st_world :: "nat \<Rightarrow> MultiHashTable \<Rightarrow> knv_heap \<Rightarrow> StWorld" where
  "st_world fd tab h = \<lparr>w_mht = (\<lambda>_. tab), w_create_idx = 1, w_knv = h, w_lock_fd = int fd, w_small = False, w_huge = False\<rparr>"

definition leaf_demo :: knv_heap where
  "leaf_demo = InitNode 1 1 PB_WT_VARINT (Some (int_val 300)) True 0 False (snd (np_New knv_empty))"

definition st_demo :: "nat \<Rightarrow> UcStorage" where
  "st_demo n = \<lparr>st_key = \<lparr>k_type = PB_WT_STRING, k_val = [3]\<rparr>, auto_delete = True, st_tree = n, tAccessTime = 0, storage_idx = 0\<rparr>"

lemma leaf_demo_ser: "Serialize_string 1 leaf_demo = Some (0, [8, 172, 2], leaf_demo)" "nd_tag (nd leaf_demo 1) = 1"
proof -
  have n: "nd_tag (nd leaf_demo 1) = 1" "nd_type (nd leaf_demo 1) = PB_WT_VARINT" "nd_val (nd leaf_demo 1) = int_val 300" "eval_sz (nd leaf_demo 1) = 3"
    by (simp_all add: leaf_demo_def InitNode_def np_New_def knv_empty_def upd_def KnvNode_construct_def InitChildList_def Let_def flen_eval)
  show "nd_tag (nd leaf_demo 1) = 1" by (rule n(1))
  have "EvaluateSize 1 leaf_demo = Some (3, leaf_demo)" using EvaluateSize_cached [of leaf_demo 1] n by simp
  moreover have "Serialize 1 3 True leaf_demo = Some (0, [8, 172, 2], leaf_demo)"
    by (subst Serialize.simps) (simp del: One_nat_def add: n is_folded_def is_leaf_def Let_def enc_eval, simp)
  ultimately show "Serialize_string 1 leaf_demo = Some (0, [8, 172, 2], leaf_demo)" by (simp add: Serialize_string_def)
qed

lemma leaf_demo_inv: "knv_inv leaf_demo {1}" "knv_enc leaf_demo 1 [8, 172, 2]"
proof -
  have n: "nd_tag (nd leaf_demo 1) = 1" "nd_type (nd leaf_demo 1) = PB_WT_VARINT" "nd_val (nd leaf_demo 1) = int_val 300" "eval_sz (nd leaf_demo 1) = 3"
    "kids (nd leaf_demo 1) = []" "nd_parent (nd leaf_demo 1) = 0" "nd_ht (nd leaf_demo 1) = KnvHt_clear" "np_free leaf_demo = []" "np_fresh leaf_demo = 2"
    by (simp_all add: leaf_demo_def InitNode_def np_New_def knv_empty_def upd_def KnvNode_construct_def InitChildList_def Let_def flen_eval)
  have "ht_ok leaf_demo 1 {}" by (rule ht_clear_ok [OF n(7)])
  moreover have "edges leaf_demo {1} = {}" using n(5) by (auto simp: edges_def)
  ultimately show "knv_inv leaf_demo {1}"
    using n by (simp add: knv_inv_def pool_ok_def shape_ok_def size_ok_def key_ok_def clean_ok_def dirty_ok_def link_ok_def index_ok_def
        is_leaf_def flen_eval acyclic_def Let_def)
  show "knv_enc leaf_demo 1 [8, 172, 2]"
    by (rule enc_leaf) (use n in \<open>simp_all add: is_leaf_def field_bytes_def enc_eval\<close>)
qed


section \<open>The lock\<close>

text \<open>\<open>flock\<close> as it is documented: the lock belongs to an open file description, that is to a descriptor of a process, and
  a request by the owner succeeds.\<close>

definition flock_sem :: "nat \<Rightarrow> int \<Rightarrow> flock_op \<Rightarrow> (nat \<times> int) option \<Rightarrow> int \<times> (nat \<times> int) option" where
  "flock_sem p fd op k =
     (case op of
        LOCK_UN \<Rightarrow> (0, if k = Some (p, fd) then None else k)
      | _ \<Rightarrow> if k = None \<or> k = Some (p, fd) then (0, Some (p, fd)) else (-1, k))"

text \<open>The lock around the cache excludes processes, but not threads. With the lock free and the lock file open, a thread
  of process \<open>p\<close> gets it, a thread of another process is refused, and a second thread of \<open>p\<close> gets it as well, because all
  threads of a process share the one descriptor. When the first thread unlocks, the other process gets the lock while the
  second thread is still writing.\<close>

theorem ShmLock_threads:
  assumes "0 < w_lock_fd w" "0 < w_lock_fd v" "p \<noteq> q"
  shows "\<exists>k. TryLockShm opn (flock_sem p) None w = (0, k, w) \<and>
    fst (TryLockShm opn (flock_sem q) k v) = -2 \<and>
    TryLockShm opn (flock_sem p) k w = (0, k, w) \<and>
    (\<exists>k1. UnlockShm opn (flock_sem p) k w = (0, k1, w) \<and> fst (TryLockShm opn (flock_sem q) k1 v) = 0)"
  using assms by (intro exI [of _ "Some (p, w_lock_fd w)"]) (auto simp: ShmLock_def flock_sem_def Let_def)

theorem ShmLock_threads_witness:
  "\<exists>k. TryLockShm 5 (flock_sem 100) None (st_world 5 None knv_empty) = (0, k, st_world 5 None knv_empty) \<and>
     TryLockShm 5 (flock_sem 100) k (st_world 5 None knv_empty) = (0, k, st_world 5 None knv_empty)"
  using ShmLock_threads [of "st_world 5 None knv_empty" "st_world 6 None knv_empty" 100 200 5] by (simp add: st_world_def) blast

end
