(* ===== verification/Crypt.thy ===== *)
theory Crypt
  imports Prelude
begin

text \<open>
  Encryption of requests and responses, as client and server have it (\<open>Encrypt\<close>, \<open>Decrypt\<close>, \<open>passwd2des\<close> in
  \<open>mysql_proxy_server.cpp\<close>, copied in \<open>mysql_proxy_api.cpp\<close>), and the hexadecimal helpers.

  The DES library is not part of the repository. \<open>ecb_crypt\<close> is the parameter \<open>ecb\<close>, a function of key, data and
  direction to a status and the data it leaves in the buffer; \<open>des_setparity\<close> is the parameter \<open>setparity\<close>. What the
  round trip needs of the library is \<open>ecb_ok\<close>: on data of a length that is a multiple of 8, up to \<open>DES_MAXDATA\<close>
  bytes, both directions succeed, keep the length, and decryption undoes encryption.
\<close>

section \<open>Definitions\<close>

datatype des_mode = DES_ENCRYPT | DES_DECRYPT

type_synonym ecb_fun = "byte list \<Rightarrow> byte list \<Rightarrow> des_mode \<Rightarrow> nat \<times> byte list"

definition DES_FAILED :: "nat \<Rightarrow> bool" where
  "DES_FAILED err \<longleftrightarrow> err > 1"

definition max_encrypt_length :: nat where
  "max_encrypt_length = 512"

text \<open>\<open>key[i%8] ^= *pw++ << 1\<close> for the characters up to the terminating NUL.\<close>

fun passwd_fold :: "nat \<Rightarrow> byte list \<Rightarrow> byte list \<Rightarrow> byte list" where
  "passwd_fold i [] key = key"
| "passwd_fold i (c # pw) key = (if c = 0 then key else passwd_fold (i + 1) pw (key[i mod 8 := key ! (i mod 8) XOR push_bit 1 c]))"

definition passwd2des :: "(byte list \<Rightarrow> byte list) \<Rightarrow> byte list \<Rightarrow> byte list" where
  "passwd2des setparity pw = setparity (passwd_fold 0 pw (replicate 8 0))"

text \<open>\<open>rest\<close> is the source from position \<open>result.length()\<close> on.\<close>

function encrypt_loop :: "ecb_fun \<Rightarrow> byte list \<Rightarrow> byte list \<Rightarrow> nat \<Rightarrow> byte list \<Rightarrow> byte list" where
  "encrypt_loop ecb key rest len result =
     (if len > 0
      then let left = (if len > max_encrypt_length then len - max_encrypt_length else 0);
               n = (if len > max_encrypt_length then max_encrypt_length else len)
           in case ecb key (take n rest) DES_ENCRYPT of (iRet, data) \<Rightarrow>
                if DES_FAILED iRet then [] else encrypt_loop ecb key (drop n rest) left (result @ data)
      else result)"
  by pat_completeness auto
termination
  by (relation "measure (\<lambda>(ecb, key, rest, len, result). len)") (auto simp: max_encrypt_length_def)

definition Encrypt :: "ecb_fun \<Rightarrow> byte list \<Rightarrow> byte list \<Rightarrow> byte list" where
  "Encrypt ecb key content =
     (let head = le_bytes 4 (of_nat (length content) :: u32) @ content;
          source = (if length head mod 8 \<noteq> 0 then head @ replicate (8 - length head mod 8) 32 else head)
      in encrypt_loop ecb key source (u32n (length source)) [])"

function decrypt_loop :: "ecb_fun \<Rightarrow> byte list \<Rightarrow> byte list \<Rightarrow> byte list \<Rightarrow> byte list option" where
  "decrypt_loop ecb key rest result =
     (if s32 (length rest) > 0
      then let n = (if s32 (length rest) > int max_encrypt_length then max_encrypt_length else nat (s32 (length rest)))
           in case ecb key (take n rest) DES_DECRYPT of (iRet, data) \<Rightarrow>
                if DES_FAILED iRet then None else decrypt_loop ecb key (drop n rest) (result @ data)
      else Some result)"
  by pat_completeness auto
termination
proof (relation "measure (\<lambda>(ecb, key, rest, result). length rest)", goal_cases)
  case (2 ecb key rest result n)
  then have "rest \<noteq> []" "0 < n" by (auto simp: max_encrypt_length_def split: if_splits)
  then show ?case by simp
qed simp

text \<open>The length in the first four bytes is read into an \<open>int\<close>, and \<open>length+sizeof(uint32_t)\<close> is computed in
  \<open>size_t\<close>. An empty string stands for every error.\<close>

definition Decrypt :: "ecb_fun \<Rightarrow> byte list \<Rightarrow> byte list \<Rightarrow> byte list" where
  "Decrypt ecb key content =
     (if usz (s32 (length content)) < 4 then []
      else case decrypt_loop ecb key content [] of
        None \<Rightarrow> []
      | Some result \<Rightarrow>
          if length result > 4
          then let len = usz (s32 (unat (le_word (take 4 result) :: u32)))
               in if u64n (len + 4) \<le> length result then take len (drop 4 result) else []
          else [])"

subsection \<open>Hexadecimal helpers\<close>

text \<open>\<open>sprintf(buf+i*2, "%02X", content[i])\<close>: a \<open>char\<close> is signed, so a byte from 128 on is promoted to a negative
  \<open>int\<close> and printed with eight digits. \<open>buf\<close> has \<open>2 * n + 2\<close> bytes; \<open>None\<close> stands for a write past its end.\<close>

definition hex_digit :: "nat \<Rightarrow> byte" where
  "hex_digit d = (if d < 10 then of_nat (48 + d) else of_nat (55 + d))"

definition sprintf_X :: "byte \<Rightarrow> byte list" where
  "sprintf_X c = (if unat c < 128 then [] else replicate 6 70) @ [hex_digit (unat c div 16), hex_digit (unat c mod 16), 0]"

fun hex_loop :: "nat \<Rightarrow> byte list \<Rightarrow> byte list \<Rightarrow> byte list option" where
  "hex_loop i [] buf = Some buf"
| "hex_loop i (c # cs) buf =
     (let s = sprintf_X c; n = length s
      in if i * 2 + n > length buf then None
         else hex_loop (i + 1) cs (take (i * 2) buf @ s @ drop (i * 2 + n) buf))"

definition StrToHex :: "byte list \<Rightarrow> byte list option" where
  "StrToHex content = map_option (take (length content * 2)) (hex_loop 0 content (replicate (length content * 2 + 2) 0))"

text \<open>\<open>strtoul\<close> in base 16 on at most two characters, in the C locale: spaces, a sign, a prefix \<open>0x\<close>, digits.\<close>

definition hex_val :: "byte \<Rightarrow> nat option" where
  "hex_val c = (let n = unat c in if 48 \<le> n \<and> n \<le> 57 then Some (n - 48) else if 65 \<le> n \<and> n \<le> 70 then Some (n - 55)
     else if 97 \<le> n \<and> n \<le> 102 then Some (n - 87) else None)"

definition c_isspace :: "byte \<Rightarrow> bool" where
  "c_isspace c \<longleftrightarrow> unat c = 32 \<or> 9 \<le> unat c \<and> unat c \<le> 13"

fun hex_digits :: "byte list \<Rightarrow> nat \<Rightarrow> nat" where
  "hex_digits [] v = v"
| "hex_digits (c # cs) v = (case hex_val c of None \<Rightarrow> v | Some d \<Rightarrow> hex_digits cs (v * 16 + d))"

definition strtoul16 :: "byte list \<Rightarrow> nat" where
  "strtoul16 s =
     (let s1 = dropWhile c_isspace (takeWhile (\<lambda>c. c \<noteq> 0) s);
          neg = (s1 \<noteq> [] \<and> hd s1 = 45);
          s2 = (if s1 \<noteq> [] \<and> (hd s1 = 45 \<or> hd s1 = 43) then tl s1 else s1);
          s3 = (if length s2 > 2 \<and> hd s2 = 48 \<and> (s2 ! 1 = 120 \<or> s2 ! 1 = 88) \<and> hex_val (s2 ! 2) \<noteq> None then drop 2 s2 else s2);
          v = hex_digits s3 0
      in if neg then sub64 0 v else v)"

fun hex_pairs :: "byte list \<Rightarrow> byte list" where
  "hex_pairs (a # b # s) = of_nat (strtoul16 [a, b]) # hex_pairs s"
| "hex_pairs s = []"

definition HexToStr :: "byte list \<Rightarrow> byte list" where
  "HexToStr hex = hex_pairs hex"

section \<open>Round trip\<close>

definition ecb_ok :: "ecb_fun \<Rightarrow> byte list \<Rightarrow> bool" where
  "ecb_ok ecb key \<longleftrightarrow> (\<forall>d. length d mod 8 = 0 \<and> length d \<le> 8192 \<longrightarrow>
     (\<exists>st d' st'. ecb key d DES_ENCRYPT = (st, d') \<and> \<not> DES_FAILED st \<and> length d' = length d \<and>
        ecb key d' DES_DECRYPT = (st', d) \<and> \<not> DES_FAILED st'))"

lemma ecb_okE:
  assumes "ecb_ok ecb key" "length d mod 8 = 0" "length d \<le> 8192"
  obtains st d' st' where "ecb key d DES_ENCRYPT = (st, d')" "\<not> DES_FAILED st" "length d' = length d"
    "ecb key d' DES_DECRYPT = (st', d)" "\<not> DES_FAILED st'"
proof -
  have "\<exists>st d' st'. ecb key d DES_ENCRYPT = (st, d') \<and> \<not> DES_FAILED st \<and> length d' = length d \<and>
        ecb key d' DES_DECRYPT = (st', d) \<and> \<not> DES_FAILED st'"
    using assms(1) [unfolded ecb_ok_def, THEN spec, of d] assms(2,3) by simp
  then show thesis using that by (elim exE conjE)
qed

declare encrypt_loop.simps [simp del] decrypt_loop.simps [simp del]

lemma crypt_loops:
  assumes ok: "ecb_ok ecb key"
  shows "length rest mod 8 = 0 \<Longrightarrow> length rest < 2 ^ 31 \<Longrightarrow>
    \<exists>cs. encrypt_loop ecb key rest (length rest) er = er @ cs \<and> length cs = length rest \<and>
      decrypt_loop ecb key cs dr = Some (dr @ rest)"
proof (induction rest arbitrary: er dr rule: length_induct)
  case (1 rest)
  show ?case
  proof (cases "rest = []")
    case True
    then show ?thesis by (intro exI [of _ "[]"]) (simp add: s32_def encrypt_loop.simps decrypt_loop.simps)
  next
    case False
    define n where "n = (if length rest > 512 then 512 else length rest)"
    have n: "0 < n" "n \<le> length rest" "n mod 8 = 0" "n \<le> 8192" using False 1(2) by (auto simp: n_def)
    have "length (take n rest) mod 8 = 0" "length (take n rest) \<le> 8192" using n by auto
    with ok obtain st d' st' where c: "ecb key (take n rest) DES_ENCRYPT = (st, d')" "\<not> DES_FAILED st"
      "length d' = length (take n rest)" "ecb key d' DES_DECRYPT = (st', take n rest)" "\<not> DES_FAILED st'"
      by (rule ecb_okE)
    have d': "length d' = n" using c(3) n(2) by simp
    have m: "length (drop n rest) mod 8 = 0" using n 1(2) mod_eq_dvd_iff_nat [of n "length rest" 8] by simp
    obtain cs where cs: "encrypt_loop ecb key (drop n rest) (length (drop n rest)) (er @ d') = (er @ d') @ cs"
      "length cs = length (drop n rest)" "decrypt_loop ecb key cs (dr @ take n rest) = Some ((dr @ take n rest) @ drop n rest)"
    proof -
      have "length (drop n rest) < length rest" "length (drop n rest) < 2 ^ 31" using n 1(3) by auto
      then show thesis using 1(1) [rule_format, of "drop n rest" "er @ d'" "dr @ take n rest"] m that by blast
    qed
    have left: "(if length rest > 512 then length rest - 512 else 0) = length (drop n rest)" by (simp add: n_def)
    have "encrypt_loop ecb key rest (length rest) er = er @ (d' @ cs)"
      using False c(1,2) cs(1) left
      by (subst encrypt_loop.simps) (cases "length rest > 512"; simp add: max_encrypt_length_def n_def)
    moreover have len: "length (d' @ cs) = length rest" using d' cs(2) n(2) by simp
    moreover have "decrypt_loop ecb key (d' @ cs) dr = Some (dr @ rest)"
    proof -
      have s: "s32 (length (d' @ cs)) = int (length rest)" using len 1(3) by (simp only: len) simp
      have m: "(if s32 (length (d' @ cs)) > int 512 then 512 else nat (s32 (length (d' @ cs)))) = n"
        unfolding s by (simp add: n_def)
      have "s32 (length (d' @ cs)) > 0" unfolding s using False by simp
      then show ?thesis using c(4,5) cs(3) d' m
        by (subst decrypt_loop.simps) (simp only: max_encrypt_length_def Let_def if_True m split_conv take_append drop_append, simp)
    qed
    ultimately show ?thesis by blast
  qed
qed

lemma Encrypt_spec:
  assumes "ecb_ok ecb key" "length content < 2 ^ 31 - 16"
  obtains pad cs where "Encrypt ecb key content = cs" "cs \<noteq> []" "length cs \<le> length content + 12"
    "length cs \<ge> 4" "decrypt_loop ecb key cs [] = Some (le_bytes 4 (of_nat (length content) :: u32) @ content @ pad)"
proof -
  let ?h = "le_bytes 4 (of_nat (length content) :: u32) @ content"
  define pad :: "byte list" where "pad = (if length ?h mod 8 \<noteq> 0 then replicate (8 - length ?h mod 8) 32 else [])"
  have len: "length (?h @ pad) mod 8 = 0"
  proof (cases "length ?h mod 8 = 0")
    case False
    then have "length pad = 8 - length ?h mod 8" by (simp add: pad_def)
    moreover have "length ?h mod 8 < 8" by simp
    ultimately have "length (?h @ pad) = 8 * (length ?h div 8) + 8"
      unfolding length_append [of ?h pad] using div_mult_mod_eq [of "length ?h" 8] by linarith
    then show ?thesis by simp
  qed (simp add: pad_def)
  have pad8: "length pad \<le> 8" by (simp add: pad_def)
  then have lt: "length (?h @ pad) < 2 ^ 31" using assms(2) by simp
  from crypt_loops [OF assms(1) len lt, of "[]" "[]"] obtain cs where
    cs: "encrypt_loop ecb key (?h @ pad) (length (?h @ pad)) [] = cs" "length cs = length (?h @ pad)"
      "decrypt_loop ecb key cs [] = Some (?h @ pad)" by auto
  have src: "(if length ?h mod 8 \<noteq> 0 then ?h @ replicate (8 - length ?h mod 8) 32 else ?h) = ?h @ pad" by (simp add: pad_def)
  have u: "u32n (length (?h @ pad)) = length (?h @ pad)" using lt by (simp only: u32n_def) simp
  have "Encrypt ecb key content = cs" unfolding Encrypt_def Let_def src u by (rule cs(1))
  moreover have "cs \<noteq> []" using cs(2) by auto
  moreover have "length cs \<le> length content + 12" "length cs \<ge> 4" using cs(2) pad8 by simp_all
  ultimately show ?thesis using cs(3) that [of cs pad] by simp
qed

lemma Decrypt_Encrypt_ok:
  assumes "ecb_ok ecb key" "length content < 2 ^ 31 - 16"
  shows "Decrypt ecb key (Encrypt ecb key content) = content" "Encrypt ecb key content \<noteq> []" "length (Encrypt ecb key content) \<le> length content + 12"
proof -
  obtain pad cs where cs: "Encrypt ecb key content = cs" "cs \<noteq> []" "length cs \<le> length content + 12" "length cs \<ge> 4"
    "decrypt_loop ecb key cs [] = Some (le_bytes 4 (of_nat (length content) :: u32) @ content @ pad)"
    by (rule Encrypt_spec [OF assms])
  let ?r = "le_bytes 4 (of_nat (length content) :: u32) @ content @ pad"
  have lt: "length content < 2 ^ 32" using assms(2) by simp
  have lt31: "length cs < 2 ^ 31" using cs(3) assms(2) by linarith
  have "(le_word (le_bytes 4 (of_nat (length content) :: u32)) :: u32) = of_nat (length content)"
    by (rule le_word_le_bytes) simp
  then have len: "usz (s32 (unat (le_word (take 4 ?r) :: u32))) = length content"
    using assms(2) lt by (simp add: unat_of_nat take_bit_nat_eq_self_iff)
  have "Decrypt ecb key cs = content"
  proof (cases "content = [] \<and> pad = []")
    case True
    then show ?thesis using cs by (simp add: Decrypt_def)
  next
    case False
    then have "length ?r > 4" by auto
    then show ?thesis using cs(3-5) len assms(2) lt31 by (simp add: Decrypt_def Let_def)
  qed
  then show "Decrypt ecb key (Encrypt ecb key content) = content" "Encrypt ecb key content \<noteq> []" "length (Encrypt ecb key content) \<le> length content + 12"
    using cs(1-3) by simp_all
qed

text \<open>(C8) Decryption undoes encryption for every content up to almost 2 GB, empty or not and of any length modulo the
  block size, when the DES library does what its documentation says; and the ciphertext is never empty, so that an
  empty result of \<open>Encrypt\<close> means failure.\<close>

theorem Decrypt_Encrypt:
  assumes "ecb_ok ecb key" "length content < 2 ^ 31 - 16"
  shows "Decrypt ecb key (Encrypt ecb key content) = content \<and> Encrypt ecb key content \<noteq> []"
  using Decrypt_Encrypt_ok [OF assms] by simp

definition ecb_xor :: ecb_fun where
  "ecb_xor key d m = (0, map (\<lambda>b. b XOR 90) d)"

lemma ecb_xor_ok: "ecb_ok ecb_xor key"
  by (simp add: ecb_ok_def ecb_xor_def DES_FAILED_def comp_def xor.assoc)

theorem Decrypt_Encrypt_witness:
  "Decrypt ecb_xor [] (Encrypt ecb_xor [] [115, 101]) = [115, 101] \<and> Encrypt ecb_xor [] [115, 101] \<noteq> []"
  using Decrypt_Encrypt [OF ecb_xor_ok, of "[115, 101]" "[]"] by simp

end
