(* ===== verification/Key_File.thy ===== *)
theory Key_File
  imports Crypt "HOL-Library.AList"
begin

text \<open>
  The file of application names and passwords: \<open>LoadKeyFile\<close> of \<open>mysql_proxy_server.cpp\<close>, which fills
  \<open>stConfig.mapAppKeys\<close>.

  The map is an association list with one entry for each name; assigning to a name replaces its entry. The stream has the
  bytes not yet read and a flag for \<open>good()\<close>. \<open>getline\<close> stores at most \<open>sizeof(line) - 1\<close> characters; it ends the stream
  at the end of the file and also when a line is longer than that.
\<close>

section \<open>Definitions\<close>

type_synonym app_keys = "(byte list \<times> byte list) list"

definition line_size :: nat where
  "line_size = 10240"

definition getline :: "byte list \<times> bool \<Rightarrow> byte list \<times> byte list \<times> bool" where
  "getline s =
     (case s of (rest, good) \<Rightarrow>
        if \<not> good then ([], rest, False)
        else let l = takeWhile (\<lambda>c. c \<noteq> 10) (take (line_size - 1) rest); r = drop (length l) rest
             in if r = [] then (l, [], False)
                else if hd r = 10 then (l, tl r, True)
                else (l, r, False))"

definition word_char :: "byte \<Rightarrow> bool" where
  "word_char c \<longleftrightarrow> \<not> c_isspace c \<and> c \<noteq> 35"

text \<open>One line, as a C string from its first character: the name and the password, or nothing for a comment.\<close>

definition parse_key_line :: "byte list \<Rightarrow> (byte list \<times> byte list) option" where
  "parse_key_line line =
     (let p = dropWhile c_isspace line
      in if p \<noteq> [] \<and> hd p = 35 then None
         else let appname = takeWhile word_char p; q = dropWhile word_char p
              in if q = [] \<or> hd q = 35 then Some (appname, [])
                 else Some (appname, takeWhile word_char (dropWhile c_isspace q)))"

lemma getline_measure:
  assumes "(l, rest1, good1) = getline (rest, good)" "takeWhile (\<lambda>c. c \<noteq> 0) l \<noteq> [] \<or> good1"
  shows "length rest1 + (if good1 then 1 else 0) < length rest + (if good then 1 else 0)"
  using assms by (auto simp: getline_def Let_def split: if_splits)

function load_loop :: "(byte list \<Rightarrow> byte list) \<Rightarrow> byte list \<times> bool \<Rightarrow> app_keys \<Rightarrow> app_keys" where
  "load_loop setparity (rest, good) keys =
     (case getline (rest, good) of (l, rest1, good1) \<Rightarrow>
        let line = takeWhile (\<lambda>c. c \<noteq> 0) l
        in if line \<noteq> []
           then load_loop setparity (rest1, good1)
                  (case parse_key_line line of
                     None \<Rightarrow> keys
                   | Some (appname, appkey) \<Rightarrow> AList.update appname (passwd2des setparity appkey) keys)
           else if \<not> good1 then keys
           else load_loop setparity (rest1, good1) keys)"
  by pat_completeness auto
termination
proof (relation "measure (\<lambda>(setparity, (rest, good), keys). length rest + (if good then 1 else 0))", goal_cases)
  case (2 setparity rest good keys l y rest1 good1 line)
  then show ?case using getline_measure [of l rest1 good1 rest good] by (cases y) simp
next
  case (3 setparity rest good keys l y rest1 good1 line)
  then show ?case using getline_measure [of l rest1 good1 rest good] by (cases y) simp
qed simp

text \<open>The result is the number of applications, or -1 when the file cannot be opened.\<close>

definition LoadKeyFile :: "(byte list \<Rightarrow> byte list) \<Rightarrow> byte list option \<Rightarrow> app_keys \<Rightarrow> int \<times> app_keys" where
  "LoadKeyFile setparity file keys =
     (case file of
        None \<Rightarrow> (-1, keys)
      | Some bytes \<Rightarrow> let keys1 = load_loop setparity (bytes, True) keys in (int (length keys1), keys1))"

declare load_loop.simps [simp del]

section \<open>Loading\<close>

lemma load_line:
  assumes "10 \<notin> set l" "0 \<notin> set l" "l \<noteq> []" "length l < line_size"
  shows "load_loop sp (l @ 10 # rest, True) keys =
    load_loop sp (rest, True) (case parse_key_line l of None \<Rightarrow> keys | Some (a, k) \<Rightarrow> AList.update a (passwd2des sp k) keys)"
proof -
  have ne: "takeWhile (\<lambda>c. c \<noteq> 10) l = l" "takeWhile (\<lambda>c. c \<noteq> 0) l = l" using assms(1,2) by (auto simp: takeWhile_eq_all_conv)
  have "takeWhile (\<lambda>c. c \<noteq> 10) (take (line_size - 1) (l @ 10 # rest)) = l"
  proof (cases "length l = line_size - 1")
    case True
    then show ?thesis using ne(1) by simp
  next
    case False
    then have "take (line_size - 1) (l @ 10 # rest) = l @ 10 # take (line_size - 1 - length l - 1) rest"
      using assms(4) by (cases "line_size - 1 - length l") auto
    then show ?thesis using ne(1) by (simp only:) (simp add: takeWhile_append)
  qed
  then have "getline (l @ 10 # rest, True) = (l, rest, True)" by (simp add: getline_def Let_def)
  then show ?thesis using assms(3) by (subst load_loop.simps) (simp only: split_conv prod.case Let_def ne if_True not_False_eq_True)
qed

lemma load_end: "load_loop sp ([], True) keys = keys"
  by (subst load_loop.simps) (simp add: getline_def Let_def)

text \<open>A name and a password are words without spaces and without \<open>#\<close>, in the C locale.\<close>

definition key_word :: "byte list \<Rightarrow> bool" where
  "key_word w \<longleftrightarrow> w \<noteq> [] \<and> list_all (\<lambda>c. word_char c \<and> c \<noteq> 0) w"

definition key_line :: "byte list \<times> byte list \<Rightarrow> byte list" where
  "key_line ak = fst ak @ 32 # snd ak"

lemma key_word_facts:
  assumes "key_word w"
  shows "w \<noteq> []" "takeWhile word_char w = w" "dropWhile word_char w = []" "10 \<notin> set w" "0 \<notin> set w" "\<not> c_isspace (hd w)" "hd w \<noteq> 35"
  using assms
  by (auto simp: key_word_def list_all_iff takeWhile_eq_all_conv dropWhile_eq_Nil_conv word_char_def c_isspace_def)

lemma parse_key_line:
  assumes "key_word a" "key_word k"
  shows "parse_key_line (key_line (a, k)) = Some (a, k)"
proof -
  have s: "c_isspace 32" "\<not> word_char 32" by (simp_all add: c_isspace_def word_char_def)
  obtain c a' where a: "a = c # a'" using key_word_facts(1) [OF assms(1)] by (cases a) auto
  have "dropWhile c_isspace (key_line (a, k)) = key_line (a, k)"
    using key_word_facts(6) [OF assms(1)] by (simp add: key_line_def a)
  moreover have "takeWhile word_char (key_line (a, k)) = a" "dropWhile word_char (key_line (a, k)) = 32 # k"
    using key_word_facts(2,3) [OF assms(1)] s(2)
    by (simp_all add: key_line_def takeWhile_append2 takeWhile_eq_all_conv dropWhile_append2 dropWhile_eq_Nil_conv
        takeWhile_append dropWhile_append)
  moreover have "dropWhile c_isspace (32 # k) = k" using s(1) key_word_facts(1,6) [OF assms(2)] by (cases k) simp_all
  moreover have "hd (key_line (a, k)) \<noteq> 35" using key_word_facts(7) [OF assms(1)] by (simp add: key_line_def a)
  ultimately show ?thesis using key_word_facts(2) [OF assms(2)] by (simp add: parse_key_line_def key_line_def Let_def)
qed

definition key_file :: "(byte list \<times> byte list) list \<Rightarrow> byte list" where
  "key_file ps = concat (map (\<lambda>p. key_line p @ [10]) ps)"

definition key_entry :: "byte list \<times> byte list \<Rightarrow> bool" where
  "key_entry p \<longleftrightarrow> key_word (fst p) \<and> key_word (snd p) \<and> length (key_line p) < line_size"

lemma load_entries:
  assumes "list_all key_entry ps"
  shows "load_loop sp (key_file ps, True) keys = fold (\<lambda>(a, k). AList.update a (passwd2des sp k)) ps keys"
  using assms
proof (induction ps arbitrary: keys)
  case (Cons p ps)
  obtain a k where p: "p = (a, k)" by (cases p)
  have w: "key_word a" "key_word k" "length (key_line p) < line_size" using Cons.prems p by (auto simp: key_entry_def)
  have "10 \<notin> set (key_line p)" "0 \<notin> set (key_line p)" "key_line p \<noteq> []"
    using key_word_facts(4,5) [OF w(1)] key_word_facts(4,5) [OF w(2)] by (auto simp: key_line_def p)
  then have "load_loop sp (key_line p @ 10 # key_file ps, True) keys = load_loop sp (key_file ps, True) (AList.update a (passwd2des sp k) keys)"
    using load_line [OF _ _ _ w(3)] parse_key_line [OF w(1,2)] p by simp
  then show ?case using Cons p by (simp add: key_file_def)
qed (simp add: load_end key_file_def)

lemma map_of_entries:
  "map_of (fold (\<lambda>(a, k). AList.update a (f k)) ps keys) = map_of keys ++ map_of (rev (map (\<lambda>(a, k). (a, f k)) ps))"
  by (induction ps arbitrary: keys) (auto simp: update_conv map_add_def fun_eq_iff split: option.split)

text \<open>(C34) A key file is loaded completely. For a file with one line for each application, its name and its password,
  every application that occurs is registered with the DES key of its last password, and no other one.\<close>

theorem LoadKeyFile_loads:
  assumes "list_all key_entry ps"
  shows "map_of (snd (LoadKeyFile sp (Some (key_file ps)) [])) = map_of (rev (map (\<lambda>(a, k). (a, passwd2des sp k)) ps))"
  by (simp add: LoadKeyFile_def Let_def load_entries [OF assms] map_of_entries)

theorem LoadKeyFile_loads_witness:
  "map_of (snd (LoadKeyFile id (Some (key_file [([97], [98]), ([99], [100]), ([97], [101])])) [])) =
     [[99] \<mapsto> passwd2des id [100], [97] \<mapsto> passwd2des id [101]]"
  using LoadKeyFile_loads [of "[([97], [98]), ([99], [100]), ([97], [101])]" id]
  by (simp add: key_entry_def key_word_def word_char_def c_isspace_def key_line_def line_size_def fun_eq_iff)

text \<open>A blank line in the key file opens the server. A line that is not empty but holds only white space, such as the
  carriage return of an empty line in a DOS file, registers an application with the empty name, and its key is the one of
  the empty password, which everybody can compute; it stays registered whatever the file holds besides lines of other
  applications.\<close>

theorem LoadKeyFile_blank_line:
  assumes "l \<noteq> []" "list_all c_isspace l" "10 \<notin> set l" "length l < line_size" "list_all key_entry ps"
  shows "map_of (snd (LoadKeyFile sp (Some (l @ 10 # key_file ps)) [])) [] = Some (sp (replicate 8 0))"
proof -
  have z: "0 \<notin> set l" using assms(2) by (auto simp: list_all_iff c_isspace_def)
  have "\<forall>x \<in> set l. c_isspace x" using assms(2) by (simp add: list_all_iff)
  then have "dropWhile c_isspace l = []" by (simp only: dropWhile_eq_Nil_conv)
  then have "parse_key_line l = Some ([], [])" by (simp only: parse_key_line_def Let_def) simp
  then have first: "load_loop sp (l @ 10 # key_file ps, True) [] = load_loop sp (key_file ps, True) [([], passwd2des sp [])]"
    using load_line [OF assms(3) z assms(1,4)] by simp
  have "[] \<notin> fst ` set ps" using assms(5) key_word_facts(1) by (fastforce simp: list_all_iff key_entry_def)
  then have "map_of (rev (map (\<lambda>(a, k). (a, passwd2des sp k)) ps)) [] = None"
    by (auto simp: map_of_eq_None_iff image_image split_beta)
  then show ?thesis
    by (simp add: LoadKeyFile_def Let_def first load_entries [OF assms(5)] map_of_entries map_add_def passwd2des_def)
qed

theorem LoadKeyFile_blank_line_witness:
  "map_of (snd (LoadKeyFile id (Some ([13] @ 10 # key_file [([97], [98])])) [])) [] = Some (replicate 8 0)"
  using LoadKeyFile_blank_line [of "[13]" "[([97], [98])]" id]
  by (simp add: key_entry_def key_word_def word_char_def c_isspace_def key_line_def line_size_def)

end
