(* ===== verification/Traffic.thy ===== *)
theory Traffic
  imports Prelude
begin

text \<open>
  Traffic control: the shared counters of \<open>comm/atomic_counter_array.c\<close> and \<open>TrafficCtl\<close> of
  \<open>mysql_proxy_server.cpp\<close>.

  Six counters form a ring; \<open>cIdx\<close> is the slot that collects the bytes sent now, and the five slots from it on
  are the current and the last four time slices. \<open>tvTime\<close> holds the time at which each slot was opened. A counter
  operation on a \<open>NULL\<close> pointer is an argument \<open>None\<close>. The atomic instructions are single steps; the loop around
  \<open>cmpxchg\<close> takes the changes that other threads make before each attempt as an argument.

  The counters are in shared memory, while \<open>tvTime\<close> is a static variable of each worker process: \<open>TrafficState\<close> is what one process
  sees, and \<open>TrafficSystem\<close> has the shared counters and the times of every process.

  The specification of the window is a list of slices without bound, newest first, with the true numbers of bytes; the ring of
  32-bit counters refines it when a single process runs \<open>TrafficCtl\<close>.
\<close>

section \<open>Definitions\<close>

record atomic_counter_t =
  dwCounter :: "u32 list"
  cIdx :: nat

definition counter_zero :: atomic_counter_t where
  "counter_zero = \<lparr>dwCounter = replicate 6 0, cIdx = 0\<rparr>"

definition slot_upd :: "(u32 \<Rightarrow> u32) \<Rightarrow> nat \<Rightarrow> atomic_counter_t \<Rightarrow> atomic_counter_t" where
  "slot_upd f i c = c\<lparr>dwCounter := (dwCounter c)[i := f (dwCounter c ! i)]\<rparr>"

text \<open>\<open>GetShm3\<close> tries to attach and then, when it may, to create the segment; \<open>get create\<close> is the result of \<open>GetShm\<close>
  (\<open>shmget\<close> and \<open>shmat\<close>) without and with \<open>IPC_CREAT\<close>.\<close>

definition GetShm3 :: "(bool \<Rightarrow> 'a option) \<Rightarrow> bool \<Rightarrow> int \<times> 'a option" where
  "GetShm3 get creat =
     (case get False of
        Some p \<Rightarrow> (0, Some p)
      | None \<Rightarrow> if \<not> creat then (-1, None)
                else case get True of None \<Rightarrow> (-1, None) | Some p \<Rightarrow> (1, Some p))"

definition atomic_counter_array_init ::
    "(bool \<Rightarrow> atomic_counter_t option) \<Rightarrow> bool \<Rightarrow> u32 \<Rightarrow> int \<times> atomic_counter_t option" where
  "atomic_counter_array_init get null iVal =
     (if null then (-1, None)
      else case GetShm3 get True of
        (iRet, None) \<Rightarrow> (-20, None)
      | (iRet, Some c) \<Rightarrow>
          (0, Some (if iRet = 1 then slot_upd (\<lambda>_. iVal) (cIdx counter_zero) counter_zero else c)))"

definition atomic_counter_array_inc_current_slot :: "atomic_counter_t option \<Rightarrow> int \<times> atomic_counter_t option" where
  "atomic_counter_array_inc_current_slot p =
     (case p of None \<Rightarrow> (-1, p) | Some c \<Rightarrow> (0, Some (slot_upd (\<lambda>v. v + 1) (cIdx c) c)))"

text \<open>\<open>env k\<close> is what the other threads do to the counter before the \<open>k\<close>th attempt.\<close>

partial_function (option) dec_loop :: "(nat \<Rightarrow> u32 \<Rightarrow> u32) \<Rightarrow> nat \<Rightarrow> u32 \<Rightarrow> u32 \<Rightarrow> u32 option" where
  "dec_loop env k c mem =
     (if c - 1 = -1 then Some mem
      else let old = env k mem
           in if old = c then Some (c - 1) else dec_loop env (k + 1) old old)"

definition atomic_counter_array_dec_current_slot ::
    "(nat \<Rightarrow> u32 \<Rightarrow> u32) \<Rightarrow> atomic_counter_t option \<Rightarrow> (int \<times> atomic_counter_t option) option" where
  "atomic_counter_array_dec_current_slot env p =
     (case p of
        None \<Rightarrow> Some (-1, p)
      | Some c \<Rightarrow> map_option (\<lambda>v. (0, Some (slot_upd (\<lambda>_. v) (cIdx c) c)))
                    (dec_loop env 0 (dwCounter c ! cIdx c) (dwCounter c ! cIdx c)))"

definition atomic_counter_array_set_lastest_slot :: "atomic_counter_t option \<Rightarrow> u32 \<Rightarrow> int \<times> atomic_counter_t option" where
  "atomic_counter_array_set_lastest_slot p val =
     (case p of None \<Rightarrow> (-1, p) | Some c \<Rightarrow> (0, Some (slot_upd (\<lambda>_. val) ((cIdx c + 4) mod 6) c)))"

definition atomic_counter_array_get_five_slots :: "atomic_counter_t option \<Rightarrow> u32 \<Rightarrow> int \<times> u32" where
  "atomic_counter_array_get_five_slots p val =
     (case p of None \<Rightarrow> (-1, val) | Some c \<Rightarrow> (0, fold (\<lambda>i v. v + dwCounter c ! ((cIdx c + i) mod 6)) [0..<5] val))"

definition atomic_counter_array_get_current_slot :: "atomic_counter_t option \<Rightarrow> u32 \<Rightarrow> int \<times> u32" where
  "atomic_counter_array_get_current_slot p val =
     (case p of None \<Rightarrow> (-1, val) | Some c \<Rightarrow> (0, dwCounter c ! cIdx c))"

definition atomic_counter_array_add_current_slot :: "atomic_counter_t option \<Rightarrow> u32 \<Rightarrow> int \<times> atomic_counter_t option" where
  "atomic_counter_array_add_current_slot p val =
     (case p of None \<Rightarrow> (-1, p) | Some c \<Rightarrow> (0, Some (slot_upd (\<lambda>v. v + val) (cIdx c) c)))"

subsection \<open>Traffic control\<close>

record timeval =
  tv_sec :: u64
  tv_usec :: u64

definition TimeToUsec :: "timeval option \<Rightarrow> u64" where
  "TimeToUsec pval = (case pval of None \<Rightarrow> 0 | Some v \<Rightarrow> tv_sec v * 1000000 + tv_usec v)"

definition SubTime :: "timeval \<Rightarrow> timeval \<Rightarrow> u64" where
  "SubTime tv1 tv2 = TimeToUsec (Some tv1) - TimeToUsec (Some tv2)"

record TrafficState =
  stSendBytesCounter :: atomic_counter_t
  tvTime :: "timeval list"

definition ctl_reset :: "timeval \<Rightarrow> TrafficState" where
  "ctl_reset tvNow = \<lparr>stSendBytesCounter = counter_zero, tvTime = replicate 6 tvNow\<rparr>"

text \<open>A new time slice: the slot after next is cleared and the index goes to the slot before.\<close>

definition ctl_advance :: "timeval \<Rightarrow> TrafficState \<Rightarrow> TrafficState" where
  "ctl_advance tvNow s =
     (let c1 = the (snd (atomic_counter_array_set_lastest_slot (Some (stSendBytesCounter s)) 0));
          idx = (cIdx c1 + 5) mod 6
      in \<lparr>stSendBytesCounter = c1\<lparr>cIdx := idx\<rparr>, tvTime = (tvTime s)[idx := tvNow]\<rparr>)"

definition TrafficCtl :: "int \<Rightarrow> int \<Rightarrow> timeval \<Rightarrow> TrafficState \<Rightarrow> int \<times> TrafficState" where
  "TrafficCtl iUTimePice iSendBytesLimit tvNow s =
     (let ullUsec = SubTime tvNow (tvTime s ! cIdx (stSendBytesCounter s))
      in if ullUsec \<ge> 5000 * 1000000 * of_int iUTimePice then (0, ctl_reset tvNow)
         else let s1 = (if ullUsec > 100000 * of_int iUTimePice then ctl_advance tvNow s else s);
                  ullUsec1 = SubTime tvNow (tvTime s1 ! ((cIdx (stSendBytesCounter s1) + 4) mod 6))
              in if ullUsec1 \<ge> 100000 * of_int iUTimePice
                 then let dwSendBytes = snd (atomic_counter_array_get_five_slots (Some (stSendBytesCounter s1)) 0)
                      in (if ucast dwSendBytes * 1000000 div ullUsec1 > (of_int iSendBytesLimit :: u64) then 1 else 0, s1)
                 else (0, s1))"

definition ctl_send :: "u32 \<Rightarrow> TrafficState \<Rightarrow> TrafficState" where
  "ctl_send len s = s\<lparr>stSendBytesCounter := the (snd (atomic_counter_array_add_current_slot (Some (stSendBytesCounter s)) len))\<rparr>"

text \<open>All processes: the counters, and the times of each process. Any process may send; a check is that of process \<open>q\<close>.\<close>

record TrafficSystem =
  tr_counter :: atomic_counter_t
  tr_times :: "nat \<Rightarrow> timeval list"

definition proc_view :: "nat \<Rightarrow> TrafficSystem \<Rightarrow> TrafficState" where
  "proc_view p S = \<lparr>stSendBytesCounter = tr_counter S, tvTime = tr_times S p\<rparr>"

definition proc_set :: "nat \<Rightarrow> TrafficState \<Rightarrow> TrafficSystem \<Rightarrow> TrafficSystem" where
  "proc_set p s S = \<lparr>tr_counter = stSendBytesCounter s, tr_times = (tr_times S)(p := tvTime s)\<rparr>"

datatype traffic_op = Sent nat u32 | Check nat timeval

fun traffic_step :: "int \<Rightarrow> int \<Rightarrow> traffic_op \<Rightarrow> TrafficSystem \<Rightarrow> TrafficSystem" where
  "traffic_step pice limit (Sent q len) S = proc_set q (ctl_send len (proc_view q S)) S"
| "traffic_step pice limit (Check q now) S = proc_set q (snd (TrafficCtl pice limit now (proc_view q S))) S"

section \<open>Specification: slices of time\<close>

type_synonym slices = "(timeval \<times> nat) list"

fun spec_send :: "nat \<Rightarrow> slices \<Rightarrow> slices" where
  "spec_send len ((t, b) # ss) = (t, b + len) # ss"
| "spec_send len [] = []"

definition spec_check :: "int \<Rightarrow> timeval \<Rightarrow> slices \<Rightarrow> slices" where
  "spec_check pice now ss =
     (if SubTime now (fst (hd ss)) \<ge> 5000 * 1000000 * of_int pice then replicate 5 (now, 0)
      else if SubTime now (fst (hd ss)) > 100000 * of_int pice then (now, 0) # ss else ss)"

fun spec_step :: "int \<Rightarrow> traffic_op \<Rightarrow> slices \<Rightarrow> slices" where
  "spec_step pice (Sent q len) ss = spec_send (unat len) ss"
| "spec_step pice (Check q now) ss = spec_check pice now ss"

text \<open>The bytes of the last five slices, and their rate over the time since the oldest of them was opened.\<close>

definition window_bytes :: "slices \<Rightarrow> nat" where
  "window_bytes ss = sum_list (map snd (take 5 ss))"

definition spec_over :: "int \<Rightarrow> int \<Rightarrow> timeval \<Rightarrow> slices \<Rightarrow> bool" where
  "spec_over pice limit now ss \<longleftrightarrow>
     (let elapsed = SubTime now (fst (ss ! 4))
      in elapsed \<ge> 100000 * of_int pice \<and> int (window_bytes ss * 1000000 div unat elapsed) > limit)"

definition spec_result :: "int \<Rightarrow> int \<Rightarrow> timeval \<Rightarrow> slices \<Rightarrow> int" where
  "spec_result pice limit now ss =
     (if SubTime now (fst (hd ss)) \<ge> 5000 * 1000000 * of_int pice then 0
      else if spec_over pice limit now (spec_check pice now ss) then 1 else 0)"

section \<open>Refinement\<close>

text \<open>Slot \<open>cIdx + i\<close> of the ring is slice \<open>i\<close>, its bytes modulo \<open>2 ^ 32\<close>, and the slot that is opened next is already zero.\<close>

definition ring_rep :: "TrafficState \<Rightarrow> slices \<Rightarrow> bool" where
  "ring_rep s ss \<longleftrightarrow> (let c = stSendBytesCounter s in
     length (dwCounter c) = 6 \<and> length (tvTime s) = 6 \<and> cIdx c < 6 \<and> 5 \<le> length ss \<and>
     (\<forall>i < 5. tvTime s ! ((cIdx c + i) mod 6) = fst (ss ! i) \<and> dwCounter c ! ((cIdx c + i) mod 6) = of_nat (snd (ss ! i))) \<and>
     dwCounter c ! ((cIdx c + 5) mod 6) = 0)"

lemma all_less_5: "(\<forall>i < (5::nat). P i) \<longleftrightarrow> P 0 \<and> P 1 \<and> P 2 \<and> P 3 \<and> P 4"
  by (auto simp: eval_nat_numeral less_Suc_eq)

lemma length_6E:
  assumes "length xs = 6"
  obtains a b c d e f where "xs = [a, b, c, d, e, f]"
  using assms by (auto simp: eval_nat_numeral length_Suc_conv)

lemma length_5E:
  assumes "5 \<le> length xs"
  obtains a b c d e ys where "xs = a # b # c # d # e # ys"
  using assms by (auto simp: eval_nat_numeral Suc_le_length_iff)

lemma less_6E:
  assumes "i < (6::nat)"
  obtains "i = 0" | "i = 1" | "i = 2" | "i = 3" | "i = 4" | "i = 5"
  using assms by linarith

text \<open>A state that represents slices, written out.\<close>

lemma ring_repE:
  assumes "ring_rep s ss"
  obtains c0 c1 c2 c3 c4 c5 t0 t1 t2 t3 t4 t5 i a b c d e ys where
    "s = \<lparr>stSendBytesCounter = \<lparr>dwCounter = [c0, c1, c2, c3, c4, c5], cIdx = i\<rparr>, tvTime = [t0, t1, t2, t3, t4, t5]\<rparr>"
    "i < 6" "ss = a # b # c # d # e # ys"
proof -
  obtain cs i ts where s: "s = \<lparr>stSendBytesCounter = \<lparr>dwCounter = cs, cIdx = i\<rparr>, tvTime = ts\<rparr>"
    by (metis TrafficState.surjective atomic_counter_t.surjective old.unit.exhaust)
  from assms have l: "length cs = 6" "length ts = 6" "i < 6" "5 \<le> length ss" by (simp_all add: ring_rep_def s)
  from l(1) obtain c0 c1 c2 c3 c4 c5 where "cs = [c0, c1, c2, c3, c4, c5]" by (rule length_6E)
  moreover from l(2) obtain t0 t1 t2 t3 t4 t5 where "ts = [t0, t1, t2, t3, t4, t5]" by (rule length_6E)
  moreover from l(4) obtain a b c d e ys where "ss = a # b # c # d # e # ys" by (rule length_5E)
  ultimately show thesis using that l(3) s by blast
qed

lemma ring_send:
  assumes "ring_rep s ss"
  shows "ring_rep (ctl_send len s) (spec_send (unat len) ss)"
  using assms
  by (rule ring_repE, elim less_6E; cases "hd ss")
     (use assms in \<open>auto simp: ring_rep_def all_less_5 ctl_send_def atomic_counter_array_add_current_slot_def slot_upd_def\<close>)

lemma ring_reset: "ring_rep (ctl_reset now) (replicate 5 (now, 0))"
  by (simp add: ring_rep_def all_less_5 ctl_reset_def counter_zero_def)

lemma ring_advance:
  assumes "ring_rep s ss"
  shows "ring_rep (ctl_advance now s) ((now, 0) # ss)"
  using assms
  by (rule ring_repE, elim less_6E)
     (use assms in \<open>auto simp: ring_rep_def all_less_5 ctl_advance_def atomic_counter_array_set_lastest_slot_def slot_upd_def Let_def\<close>)

lemma ring_five:
  assumes "ring_rep s ss"
  shows "snd (atomic_counter_array_get_five_slots (Some (stSendBytesCounter s)) 0) = of_nat (window_bytes ss)"
proof -
  have u: "[0..<5] = [0, 1, 2, 3, 4 :: nat]" by (simp add: upt_rec)
  show ?thesis using assms
    by (rule ring_repE)
       (use assms in \<open>auto simp: ring_rep_def all_less_5 atomic_counter_array_get_five_slots_def u add.assoc window_bytes_def\<close>)
qed

lemma ring_head:
  assumes "ring_rep s ss"
  shows "tvTime s ! cIdx (stSendBytesCounter s) = fst (hd ss)"
    "tvTime s ! ((cIdx (stSendBytesCounter s) + 4) mod 6) = fst (ss ! 4)"
proof -
  have i: "cIdx (stSendBytesCounter s) < 6" and ne: "ss \<noteq> []"
    and all: "\<forall>i < 5. tvTime s ! ((cIdx (stSendBytesCounter s) + i) mod 6) = fst (ss ! i)"
    using assms by (auto simp: ring_rep_def Let_def)
  show "tvTime s ! cIdx (stSendBytesCounter s) = fst (hd ss)" using all [rule_format, of 0] i ne by (simp add: hd_conv_nth)
  show "tvTime s ! ((cIdx (stSendBytesCounter s) + 4) mod 6) = fst (ss ! 4)" using all [rule_format, of 4] by simp
qed

lemma rate_exact:
  assumes "b < 2 ^ 32" "0 \<le> limit" "limit < 2 ^ 63"
  shows "(ucast (of_nat b :: u32) * 1000000 div e > (of_int limit :: u64)) \<longleftrightarrow> int (b * 1000000 div unat e) > limit"
proof -
  have b: "b mod 2 ^ 32 = b" using assms(1) by simp
  have u: "unat (ucast (of_nat b :: u32) :: u64) = b"
    using assms(1) by (simp add: unsigned_ucast_eq unsigned_of_nat take_bit_eq_mod)
  have "unat (ucast (of_nat b :: u32) * 1000000 :: u64) = b * 1000000"
    using assms(1) by (simp add: unat_word_ariths u)
  then have "unat (ucast (of_nat b :: u32) * 1000000 div e :: u64) = b * 1000000 div unat e" by (simp add: unat_div)
  moreover have "unat (of_int limit :: u64) = nat limit" using assms(2,3) by (simp add: unsigned_of_int take_bit_int_eq_self nat_eq_iff)
  ultimately show ?thesis using assms(2) by (simp add: word_less_nat_alt nat_less_iff)
qed
lemma TrafficCtl_rep:
  assumes "ring_rep s ss"
  shows "ring_rep (snd (TrafficCtl pice limit now s)) (spec_check pice now ss)"
    "0 \<le> limit \<Longrightarrow> limit < 2 ^ 63 \<Longrightarrow> window_bytes (spec_check pice now ss) < 2 ^ 32 \<Longrightarrow>
      fst (TrafficCtl pice limit now s) = spec_result pice limit now ss"
proof -
  have "ring_rep (snd (TrafficCtl pice limit now s)) (spec_check pice now ss) \<and>
    (0 \<le> limit \<and> limit < 2 ^ 63 \<and> window_bytes (spec_check pice now ss) < 2 ^ 32 \<longrightarrow>
      fst (TrafficCtl pice limit now s) = spec_result pice limit now ss)"
  proof (cases "SubTime now (fst (hd ss)) \<ge> 5000 * 1000000 * of_int pice")
    case True
    then show ?thesis
      using ring_reset [of now] by (simp add: TrafficCtl_def ring_head(1) [OF assms] spec_result_def spec_check_def Let_def)
  next
    case False
    define s1 where "s1 = (if SubTime now (fst (hd ss)) > 100000 * of_int pice then ctl_advance now s else s)"
    have r: "ring_rep s1 (spec_check pice now ss)"
      using assms ring_advance [OF assms] False by (simp add: s1_def spec_check_def)
    have "snd (TrafficCtl pice limit now s) = s1"
      using False by (simp add: TrafficCtl_def ring_head(1) [OF assms] s1_def [symmetric] Let_def)
    moreover have "fst (TrafficCtl pice limit now s) = spec_result pice limit now ss"
      if "0 \<le> limit" "limit < 2 ^ 63" "window_bytes (spec_check pice now ss) < 2 ^ 32"
      using False by (simp add: TrafficCtl_def ring_head(1) [OF assms] s1_def [symmetric] ring_head(2) [OF r] ring_five [OF r]
          spec_result_def spec_over_def Let_def rate_exact [OF that(3,1,2)])
    ultimately show ?thesis using r by simp
  qed
  then show "ring_rep (snd (TrafficCtl pice limit now s)) (spec_check pice now ss)"
    "0 \<le> limit \<Longrightarrow> limit < 2 ^ 63 \<Longrightarrow> window_bytes (spec_check pice now ss) < 2 ^ 32 \<Longrightarrow>
      fst (TrafficCtl pice limit now s) = spec_result pice limit now ss" by blast+
qed

lemma proc_view_set [simp]: "proc_view q (proc_set p s S) = (if q = p then s else \<lparr>stSendBytesCounter = stSendBytesCounter s, tvTime = tr_times S q\<rparr>)"
  by (simp add: proc_view_def proc_set_def)

lemma traffic_step_rep:
  assumes "ring_rep (proc_view p S) ss" "\<And>q now. x = Check q now \<Longrightarrow> q = p"
  shows "ring_rep (proc_view p (traffic_step pice limit x S)) (spec_step pice x ss)"
proof (cases x)
  case (Sent q len)
  have "proc_view p (traffic_step pice limit x S) = ctl_send len (proc_view p S)"
    unfolding Sent by (simp add: proc_view_def proc_set_def ctl_send_def)
  then show ?thesis using ring_send [OF assms(1), of len] Sent by simp
next
  case (Check q now)
  then show ?thesis using assms TrafficCtl_rep(1) [OF assms(1)] by simp
qed

text \<open>(C30) With one process that runs \<open>TrafficCtl\<close> (\<open>CHILD_NUM\<close> 1), the ring measures the window. Start from any state in which the
  counters and the times of process \<open>p\<close> represent a list of time slices with their true numbers of bytes, as after the reset of its
  first call. After any sequence of sends, by any processes, and of checks by \<open>p\<close>, they represent the slices that these operations make,
  the counters modulo \<open>2 ^ 32\<close>; and when the last five slices have less than \<open>2 ^ 32\<close> bytes together, the next call refuses traffic exactly
  when these bytes, over the time since the oldest of the slices was opened, exceed the limit and that time is at least one
  slice. Both conditions are needed: see \<open>TrafficCtl_saturates\<close> and \<open>traffic_three_processes\<close>.\<close>

theorem TrafficCtl_refines:
  assumes "ring_rep (proc_view p S) ss" "\<forall>q now. Check q now \<in> set ops \<longrightarrow> q = p"
  shows "ring_rep (proc_view p (fold (traffic_step pice limit) ops S)) (fold (spec_step pice) ops ss) \<and>
    (0 \<le> limit \<and> limit < 2 ^ 31 \<and> window_bytes (spec_check pice now (fold (spec_step pice) ops ss)) < 2 ^ 32 \<longrightarrow>
      fst (TrafficCtl pice limit now (proc_view p (fold (traffic_step pice limit) ops S))) =
      spec_result pice limit now (fold (spec_step pice) ops ss))"
proof -
  have "ring_rep (proc_view p (fold (traffic_step pice limit) ops S)) (fold (spec_step pice) ops ss)"
    using assms
  proof (induction ops arbitrary: S ss)
    case (Cons x ops)
    have "ring_rep (proc_view p (traffic_step pice limit x S)) (spec_step pice x ss)"
      by (rule traffic_step_rep [OF Cons.prems(1)]) (use Cons.prems(2) in auto)
    then show ?case using Cons.IH [of "traffic_step pice limit x S" "spec_step pice x ss"] Cons.prems(2) by auto
  qed simp
  from this TrafficCtl_rep(2) [OF this, of limit] show ?thesis by auto
qed

text \<open>The start of a process: its times are zero, and the first check resets them and the counters.\<close>

lemma traffic_start:
  assumes "SubTime now (tr_times S p ! cIdx (tr_counter S)) \<ge> 5000 * 1000000 * of_int pice"
  shows "ring_rep (proc_view p (traffic_step pice limit (Check p now) S)) (replicate 5 (now, 0))"
proof -
  have "snd (TrafficCtl pice limit now (proc_view p S)) = ctl_reset now" using assms by (simp add: TrafficCtl_def proc_view_def Let_def)
  then show ?thesis using ring_reset [of now] by simp
qed

text \<open>The clock of the examples, in seconds, and a system before the first check.\<close>

definition at_sec :: "u64 \<Rightarrow> timeval" where
  "at_sec n = \<lparr>tv_sec = n, tv_usec = 0\<rparr>"

definition traffic_zero :: TrafficSystem where
  "traffic_zero = \<lparr>tr_counter = counter_zero, tr_times = (\<lambda>_. replicate 6 (at_sec 0))\<rparr>"

text \<open>Thirty million bytes every two seconds, with a check by each of the processes.\<close>

definition busy_ops :: "nat list \<Rightarrow> nat \<Rightarrow> traffic_op list" where
  "busy_ops ps k = map (\<lambda>p. Check p (at_sec 100000)) ps @
     concat (map (\<lambda>i. Sent 1 30000000 # map (\<lambda>p. Check p (at_sec (100000 + 2 * of_nat i))) ps) [1..<k])"

theorem TrafficCtl_refines_witness:
  "fst (TrafficCtl 10 10000000 (at_sec 100012) (proc_view 1 (fold (traffic_step 10 10000000) (busy_ops [1] 6) traffic_zero))) = 1"
proof -
  define S where "S = traffic_step 10 10000000 (Check 1 (at_sec 100000)) traffic_zero"
  define ops where "ops = tl (busy_ops [1] 6)"
  let ?ss = "fold (spec_step 10) ops (replicate 5 (at_sec 100000, 0))"
  have u: "[Suc 0..<6] = [1, 2, 3, 4, 5]" by (simp add: upt_rec)
  have ops: "busy_ops [1] 6 = Check 1 (at_sec 100000) # ops" "\<forall>q now. Check q now \<in> set ops \<longrightarrow> q = 1"
    by (auto simp: ops_def busy_ops_def)
  have r: "ring_rep (proc_view 1 S) (replicate 5 (at_sec 100000, 0))"
    unfolding S_def by (rule traffic_start) (simp add: traffic_zero_def counter_zero_def at_sec_def SubTime_def TimeToUsec_def)
  have five: "replicate 5 x = [x, x, x, x, x]" for x :: "timeval \<times> nat" by (simp add: eval_nat_numeral)
  have "?ss = [(at_sec 100010, 0), (at_sec 100008, 30000000), (at_sec 100006, 30000000), (at_sec 100004, 30000000),
      (at_sec 100002, 30000000), (at_sec 100000, 30000000), (at_sec 100000, 0), (at_sec 100000, 0), (at_sec 100000, 0), (at_sec 100000, 0)]"
    by (simp add: ops_def busy_ops_def u five spec_check_def at_sec_def SubTime_def TimeToUsec_def)
  then have "window_bytes (spec_check 10 (at_sec 100012) ?ss) < 2 ^ 32" "spec_result 10 10000000 (at_sec 100012) ?ss = 1"
    by (simp_all add: window_bytes_def spec_result_def spec_over_def spec_check_def at_sec_def SubTime_def TimeToUsec_def Let_def)
  then show ?thesis
    using TrafficCtl_refines [OF r ops(2), of 10 10000000 "at_sec 100012"] unfolding ops(1) S_def by simp
qed

text \<open>The sum of the five counters has 32 bits. When the window is so long that even the largest sum stays below the limit, traffic is
  never refused, whatever was sent; with slices of five seconds and the default limit of 300 million bytes per second this is every full
  window.\<close>

theorem TrafficCtl_saturates:
  assumes "ring_rep s ss" "0 \<le> limit" "limit < 2 ^ 31" "(2 ^ 32 - 1) * 1000000 < unat (SubTime now (fst (spec_check pice now ss ! 4))) * (nat limit + 1)"
  shows "fst (TrafficCtl pice limit now s) = 0"
proof (cases "SubTime now (fst (hd ss)) \<ge> 5000 * 1000000 * of_int pice")
  case True
  then show ?thesis by (simp add: TrafficCtl_def ring_head(1) [OF assms(1)] Let_def)
next
  case False
  define s1 where "s1 = (if SubTime now (fst (hd ss)) > 100000 * of_int pice then ctl_advance now s else s)"
  have r: "ring_rep s1 (spec_check pice now ss)"
    using assms(1) ring_advance [OF assms(1)] False by (simp add: s1_def spec_check_def)
  let ?e = "SubTime now (fst (spec_check pice now ss ! 4))"
  let ?b = "window_bytes (spec_check pice now ss) mod 2 ^ 32"
  have b: "(of_nat (window_bytes (spec_check pice now ss)) :: u32) = of_nat ?b"
    by (simp add: word_unat_eq_iff unsigned_of_nat take_bit_eq_mod)
  have "?b < 2 ^ 32" by simp
  then have "?b * 1000000 \<le> (2 ^ 32 - 1) * 1000000" by simp
  then have "?b * 1000000 < (nat limit + 1) * unat ?e" using assms(4) by (simp add: mult.commute)
  then have "?b * 1000000 div unat ?e < nat limit + 1" by (simp add: less_mult_imp_div_less)
  then have "\<not> int (?b * 1000000 div unat ?e) > limit" using assms(2) by linarith
  then have "\<not> ucast (of_nat (window_bytes (spec_check pice now ss)) :: u32) * 1000000 div ?e > (of_int limit :: u64)"
    unfolding b using rate_exact [of ?b limit ?e] assms(2,3) by simp
  then show ?thesis
    using False by (simp add: TrafficCtl_def ring_head(1) [OF assms(1)] s1_def [symmetric] ring_head(2) [OF r] ring_five [OF r] Let_def)
qed

text \<open>With three worker processes, as the configuration file of the repository has it, each opens every third slot, and the slot at the
  end of its window is one of which it never wrote the time: the window seems to begin at the start of the process. The traffic that a
  single process refuses (as in the witness above) is then admitted by all three.\<close>

theorem traffic_three_processes:
  "\<forall>p \<in> {1, 2, 3}. fst (TrafficCtl 10 10000000 (at_sec 100012) (proc_view p (fold (traffic_step 10 10000000) (busy_ops [1, 2, 3] 6) traffic_zero))) = 0"
  by code_simp
end
