(* ===== verification/Framing.thy ===== *)
theory Framing
  imports Prelude
begin

text \<open>
  Framing of the byte stream between client and server: \<open>ParsePacket\<close> and \<open>Worker\<close> of \<open>mysql_proxy_server.cpp\<close>.

  A packet is the token \<open>@MyPROXY\<close>, its total length as a \<open>uint64_t\<close>, and a message. The loop works on pointers into
  the receive buffer; the model carries the bytes from \<open>packet\<close> on, and the address \<open>endpack\<close> of the end of the buffer,
  because \<open>packet+packlen\<close> is computed from a length that the peer chose and may wrap around. What happens to a complete
  message is the parameter \<open>handler\<close> on a state of any type, \<open>None\<close> when it does not return. The constructor of \<open>string\<close>
  throws \<open>std::length_error\<close> for a length above \<open>max_size()\<close>; nothing catches it, so the result \<open>Thrown\<close> is the end of
  the process.
\<close>

section \<open>Definitions\<close>

datatype 's run = Done 's | Thrown

definition PACKET_START_TOKEN :: "byte list" where
  "PACKET_START_TOKEN = [64, 77, 121, 80, 82, 79, 88, 89]"

definition PACKET_HEADER_LENGTH :: nat where
  "PACKET_HEADER_LENGTH = 16"

definition MAX_REQUEST_PACKET_LENGTH :: nat where
  "MAX_REQUEST_PACKET_LENGTH = 4096 + PACKET_HEADER_LENGTH"

text \<open>\<open>max_size()\<close> of a string of \<open>char\<close>.\<close>

definition string_max_size :: nat where
  "string_max_size = 2 ^ 62 - 7"

fun skip_to_token :: "byte list \<Rightarrow> byte list" where
  "skip_to_token [] = []"
| "skip_to_token (b # bs) =
     (if PACKET_HEADER_LENGTH < length (b # bs) \<and> memcmp (take 8 (b # bs)) PACKET_START_TOKEN \<noteq> 0
      then skip_to_token bs else b # bs)"

definition packlen_at :: "byte list \<Rightarrow> u64" where
  "packlen_at packet = le_word (take 8 (drop 8 packet))"

lemma length_skip_to_token: "length (skip_to_token bs) \<le> length bs"
  by (induction bs) auto

lemma packlen_ge_header:
  assumes "\<not> string_max_size < unat (w - of_nat PACKET_HEADER_LENGTH :: u64)"
  shows "PACKET_HEADER_LENGTH \<le> unat w"
proof (rule ccontr)
  assume "\<not> PACKET_HEADER_LENGTH \<le> unat w"
  then have w: "unat w < 16" by (simp add: PACKET_HEADER_LENGTH_def)
  then have "unat (w - 16) = unat w + 2 ^ 64 - 16"
    by (simp add: unat_sub_if')
  with assms show False by (simp add: PACKET_HEADER_LENGTH_def string_max_size_def)
qed

function parse_loop :: "nat \<Rightarrow> (byte list \<Rightarrow> 's \<Rightarrow> 's option) \<Rightarrow> u64 \<Rightarrow> byte list \<Rightarrow> 's \<Rightarrow> (byte list \<times> 's) run option" where
  "parse_loop maxlen handler endpack packet s =
     (if packet = [] then Some (Done (packet, s))
      else let p = skip_to_token packet
           in if length p \<le> PACKET_HEADER_LENGTH then Some (Done (p, s))
              else let packlen = packlen_at p
                   in if endpack < endpack - of_nat (length p) + packlen
                      then if unat packlen > maxlen then parse_loop maxlen handler endpack (tl p) s
                           else Some (Done (p, s))
                      else if string_max_size < unat (packlen - of_nat PACKET_HEADER_LENGTH) then Some Thrown
                      else case handler (take (unat (packlen - of_nat PACKET_HEADER_LENGTH)) (drop PACKET_HEADER_LENGTH p)) s of
                             None \<Rightarrow> None
                           | Some s1 \<Rightarrow> parse_loop maxlen handler endpack (drop (unat packlen) p) s1)"
  by pat_completeness auto
termination
proof (relation "measure (\<lambda>(maxlen, handler, endpack, packet, s). length packet)", goal_cases)
  case (2 maxlen handler endpack packet s p packlen)
  then show ?case using length_skip_to_token [of packet] by (simp add: PACKET_HEADER_LENGTH_def)
next
  case (3 maxlen handler endpack packet s p packlen s1)
  then have "PACKET_HEADER_LENGTH \<le> unat packlen" by (metis packlen_ge_header)
  then show ?case using 3 length_skip_to_token [of packet] by (simp add: PACKET_HEADER_LENGTH_def)
qed simp

declare parse_loop.simps [simp del]

text \<open>\<open>reqstr\<close> becomes what is left from \<open>packet\<close> on; when nothing was consumed it is not assigned.\<close>

definition ParsePacket :: "(byte list \<Rightarrow> 's \<Rightarrow> 's option) \<Rightarrow> u64 \<Rightarrow> byte list \<Rightarrow> 's \<Rightarrow> (byte list \<times> 's) run option" where
  "ParsePacket handler endpack reqstr s = parse_loop MAX_REQUEST_PACKET_LENGTH handler endpack reqstr s"

text \<open>The results of \<open>recv\<close> up to the first that is not positive, each with the address at which the buffer ends after
  the bytes were appended; \<open>final\<close> is that address for the last call.\<close>

fun worker_loop :: "(byte list \<Rightarrow> 's \<Rightarrow> 's option) \<Rightarrow> (byte list \<times> u64) list \<Rightarrow> byte list \<Rightarrow> 's \<Rightarrow> (byte list \<times> 's) run option" where
  "worker_loop handler [] reqstr s = Some (Done (reqstr, s))"
| "worker_loop handler ((buffer, endpack) # recvs) reqstr s =
     (case ParsePacket handler endpack (reqstr @ buffer) s of
        None \<Rightarrow> None
      | Some Thrown \<Rightarrow> Some Thrown
      | Some (Done (reqstr1, s1)) \<Rightarrow> worker_loop handler recvs reqstr1 s1)"

definition Worker :: "(byte list \<Rightarrow> 's \<Rightarrow> 's option) \<Rightarrow> (byte list \<times> u64) list \<Rightarrow> u64 \<Rightarrow> 's \<Rightarrow> 's run option" where
  "Worker handler recvs final s =
     (case worker_loop handler recvs [] s of
        None \<Rightarrow> None
      | Some Thrown \<Rightarrow> Some Thrown
      | Some (Done (reqstr, s1)) \<Rightarrow>
          if reqstr \<noteq> []
          then case ParsePacket handler final reqstr s1 of
                 None \<Rightarrow> None
               | Some Thrown \<Rightarrow> Some Thrown
               | Some (Done (_, s2)) \<Rightarrow> Some (Done s2)
          else Some (Done s1))"

text \<open>The packet of a message, as the senders build it (\<open>SendResponse\<close>, \<open>SendRequest\<close>).\<close>

definition frame :: "byte list \<Rightarrow> byte list" where
  "frame msg = PACKET_START_TOKEN @ le_bytes 8 (of_nat (PACKET_HEADER_LENGTH + length msg) :: u64) @ msg"

section \<open>One packet\<close>

text \<open>The buffer lies below \<open>2 ^ 62\<close> and does not start at address 0: then no address wraps for an honest length.\<close>

definition buffer_at :: "u64 \<Rightarrow> nat \<Rightarrow> bool" where
  "buffer_at endpack n \<longleftrightarrow> n < unat endpack \<and> unat endpack < 2 ^ 62"

lemma buffer_at_mono: "buffer_at e n \<Longrightarrow> m \<le> n \<Longrightarrow> buffer_at e m"
  by (simp add: buffer_at_def)

lemma past_end:
  assumes "buffer_at e n" "unat w < 2 ^ 62"
  shows "e < e - of_nat n + w \<longleftrightarrow> n < unat w"
proof -
  have n: "unat (of_nat n :: u64) = n" using assms(1) by (simp add: buffer_at_def unat_of_nat take_bit_nat_eq_self_iff)
  have d: "unat (e - of_nat n) = unat e - n" using assms(1) n by (simp add: buffer_at_def unat_sub_if')
  have "unat (e - of_nat n + w) = unat e - n + unat w"
    using assms d by (subst unat_add_lem [THEN iffD1]) (auto simp: buffer_at_def)
  then show ?thesis using assms(1) by (simp add: word_less_nat_alt buffer_at_def) linarith
qed

lemma frame_facts:
  assumes "length msg < 2 ^ 61"
  shows "length (frame msg) = 16 + length msg" "take 8 (frame msg @ x) = PACKET_START_TOKEN"
    "unat (packlen_at (frame msg @ x)) = 16 + length msg"
    "take (length msg) (drop PACKET_HEADER_LENGTH (frame msg @ x)) = msg" "drop (16 + length msg) (frame msg @ x) = x"
proof -
  show "length (frame msg) = 16 + length msg" "take 8 (frame msg @ x) = PACKET_START_TOKEN"
    "take (length msg) (drop PACKET_HEADER_LENGTH (frame msg @ x)) = msg"
    by (simp_all add: frame_def PACKET_START_TOKEN_def PACKET_HEADER_LENGTH_def)
  then show "drop (16 + length msg) (frame msg @ x) = x" by simp
  have "packlen_at (frame msg @ x) = le_word (le_bytes 8 (of_nat (PACKET_HEADER_LENGTH + length msg) :: u64))"
    by (simp add: packlen_at_def frame_def PACKET_START_TOKEN_def)
  also have "\<dots> = of_nat (PACKET_HEADER_LENGTH + length msg)" by (rule le_word_le_bytes) simp
  finally show "unat (packlen_at (frame msg @ x)) = 16 + length msg"
    using assms by (simp only: unat_of_nat PACKET_HEADER_LENGTH_def) (simp add: take_bit_nat_eq_self_iff)
qed

lemma skip_to_token_at:
  assumes "take 8 p = PACKET_START_TOKEN"
  shows "skip_to_token p = p"
  using assms by (cases p) (simp_all add: memcmp_eq_0 PACKET_START_TOKEN_def)

lemma skip_to_token_short: "length p \<le> PACKET_HEADER_LENGTH \<Longrightarrow> skip_to_token p = p"
  by (cases p) simp_all

lemma parse_frame:
  assumes "buffer_at e (length (frame msg @ x))" "msg \<noteq> []" "length msg < 2 ^ 61"
  shows "parse_loop maxlen handler e (frame msg @ x) s = Option.bind (handler msg s) (\<lambda>s1. parse_loop maxlen handler e x s1)"
proof -
  note F = frame_facts [OF assms(3)]
  have l: "length (frame msg @ x) = 16 + length msg + length x" using F(1) by simp
  have ne: "frame msg @ x \<noteq> []" "\<not> length (frame msg @ x) \<le> PACKET_HEADER_LENGTH"
    using assms(2) l by (auto simp: PACKET_HEADER_LENGTH_def)
  have pl: "unat (packlen_at (frame msg @ x)) < 2 ^ 62" using F(3) [of x] assms(3) by simp
  have e: "\<not> e < e - of_nat (length (frame msg @ x)) + packlen_at (frame msg @ x)"
    unfolding past_end [OF assms(1) pl] F(3) using l by simp
  have u: "unat (packlen_at (frame msg @ x) - of_nat PACKET_HEADER_LENGTH) = length msg"
    using F(3) [of x] by (simp add: unat_sub_if' PACKET_HEADER_LENGTH_def)
  have m: "\<not> string_max_size < length msg" using assms(3) by (simp add: string_max_size_def)
  show ?thesis
    by (subst parse_loop.simps)
       (simp only: ne skip_to_token_at [OF F(2)] Let_def e u m F(3) F(4) F(5) if_False split: option.split, simp)
qed

text \<open>A packet that has not arrived in full stays in the buffer.\<close>

definition partial_frame :: "nat \<Rightarrow> byte list \<Rightarrow> bool" where
  "partial_frame maxlen t \<longleftrightarrow>
     (\<exists>msg u. msg \<noteq> [] \<and> PACKET_HEADER_LENGTH + length msg \<le> maxlen \<and> frame msg = t @ u \<and> u \<noteq> [])"

lemma parse_partial:
  assumes "partial_frame maxlen t" "buffer_at e (length t)" "maxlen < 2 ^ 61"
  shows "parse_loop maxlen handler e t s = Some (Done (t, s))"
proof -
  obtain msg u where m: "msg \<noteq> []" "16 + length msg \<le> maxlen" "frame msg = t @ u" "u \<noteq> []"
    using assms(1) by (auto simp: partial_frame_def PACKET_HEADER_LENGTH_def)
  have lm: "length msg < 2 ^ 61" using m(2) assms(3) by linarith
  note F = frame_facts [OF lm]
  show ?thesis
  proof (cases "length t \<le> PACKET_HEADER_LENGTH")
    case True
    then show ?thesis by (subst parse_loop.simps) (simp add: skip_to_token_short Let_def)
  next
    case False
    then have l: "16 < length t" by (simp add: PACKET_HEADER_LENGTH_def)
    have tok: "take 8 t = PACKET_START_TOKEN" using F(2) [of "[]"] m(3) l by simp
    have "packlen_at t = packlen_at (frame msg @ [])" using m(3) l by (simp add: packlen_at_def)
    then have pl: "unat (packlen_at t) = 16 + length msg" using F(3) [of "[]"] by simp
    have "length (frame msg) = length t + length u" using m(3) by simp
    then have lt: "length t < 16 + length msg" using F(1) m(4) by simp
    have "unat (packlen_at t) < 2 ^ 62" using pl lm by simp
    then have e: "e < e - of_nat (length t) + packlen_at t" using past_end [OF assms(2)] lt pl by simp
    have mx: "\<not> maxlen < unat (packlen_at t)" using pl m(2) by simp
    have ne: "t \<noteq> []" using l by auto
    show ?thesis
      by (subst parse_loop.simps) (simp only: ne False skip_to_token_at [OF tok] Let_def e mx if_False if_True)
  qed
qed

lemma parse_frames:
  assumes "list_all (\<lambda>m. m \<noteq> [] \<and> length m < 2 ^ 61) ms" "buffer_at e (length (concat (map frame ms) @ x))"
  shows "parse_loop maxlen handler e (concat (map frame ms) @ x) s =
    Option.bind (mfold handler ms s) (\<lambda>s1. parse_loop maxlen handler e x s1)"
  using assms
proof (induction ms arbitrary: s)
  case (Cons m ms)
  have "buffer_at e (length (frame m @ (concat (map frame ms) @ x)))" using Cons.prems(2) by simp
  then have "parse_loop maxlen handler e (frame m @ (concat (map frame ms) @ x)) s =
    Option.bind (handler m s) (\<lambda>s1. parse_loop maxlen handler e (concat (map frame ms) @ x) s1)"
    using Cons.prems(1) by (intro parse_frame) auto
  moreover have "buffer_at e (length (concat (map frame ms) @ x))" using Cons.prems(2) by (rule buffer_at_mono) simp
  ultimately show ?case using Cons by (cases "handler m s") simp_all
qed simp

section \<open>Streams in chunks\<close>

text \<open>The contract of a parser that is called again whenever bytes arrive: with a sequence of encoded items and the
  beginning of another one in its buffer, it handles the items in order and leaves the beginning alone. Then the way in
  which the stream is cut into chunks makes no difference.\<close>

locale stream_parser =
  fixes parse :: "'c \<Rightarrow> byte list \<Rightarrow> 's \<Rightarrow> (byte list \<times> 's) run option"
    and enc :: "'m \<Rightarrow> byte list"
    and item :: "'m \<Rightarrow> bool"
    and handle :: "'m \<Rightarrow> 's \<Rightarrow> 's option"
    and fits :: "'c \<Rightarrow> nat \<Rightarrow> bool"
  assumes parse_items: "\<lbrakk>list_all item ms; t = [] \<or> (\<exists>m u. item m \<and> enc m = t @ u \<and> u \<noteq> []); fits c (length (concat (map enc ms) @ t));
      mfold handle ms s = Some s1\<rbrakk> \<Longrightarrow> parse c (concat (map enc ms) @ t) s = Some (Done (t, s1))"
    and fits_mono: "\<lbrakk>fits c n; m \<le> n\<rbrakk> \<Longrightarrow> fits c m"
begin

fun feed :: "(byte list \<times> 'c) list \<Rightarrow> byte list \<Rightarrow> 's \<Rightarrow> (byte list \<times> 's) run option" where
  "feed [] buf s = Some (Done (buf, s))"
| "feed ((b, c) # cs) buf s =
     (case parse c (buf @ b) s of
        None \<Rightarrow> None
      | Some Thrown \<Rightarrow> Some Thrown
      | Some (Done (buf1, s1)) \<Rightarrow> feed cs buf1 s1)"

lemma split_items:
  assumes "p @ r = concat (map enc ms) @ t" "list_all item ms" "t = [] \<or> (\<exists>m u. item m \<and> enc m = t @ u \<and> u \<noteq> [])"
  shows "\<exists>ms1 ms2 q. ms = ms1 @ ms2 \<and> p = concat (map enc ms1) @ q \<and> q @ r = concat (map enc ms2) @ t \<and>
    (q = [] \<or> (\<exists>m u. item m \<and> enc m = q @ u \<and> u \<noteq> [])) \<and> (r = [] \<longrightarrow> ms2 = [])"
  using assms
proof (induction ms arbitrary: p)
  case Nil
  have "p = [] \<or> (\<exists>m u. item m \<and> enc m = p @ u \<and> u \<noteq> [])"
  proof (cases "t = []")
    case False
    then obtain m u where m: "item m" "enc m = t @ u" "u \<noteq> []" using Nil.prems(3) by auto
    moreover have "t = p @ r" using Nil.prems(1) by simp
    ultimately show ?thesis by (intro disjI2 exI [of _ m] exI [of _ "r @ u"]) simp
  qed (use Nil.prems(1) in simp)
  then show ?case using Nil.prems(1) by (intro exI [of _ "[]"] exI [of _ p]) simp
next
  case (Cons m ms)
  have eq: "p @ r = enc m @ (concat (map enc ms) @ t)" using Cons.prems(1) by simp
  show ?case
  proof (cases "length (enc m) \<le> length p")
    case True
    define p1 where "p1 = drop (length (enc m)) p"
    have "take (length (enc m)) (p @ r) = enc m" using eq by simp
    then have p: "p = enc m @ p1" using True append_take_drop_id [of "length (enc m)" p] by (simp add: p1_def)
    then have "p1 @ r = concat (map enc ms) @ t" using eq by simp
    moreover have "list_all item ms" using Cons.prems(2) by simp
    ultimately obtain ms1 ms2 q where q: "ms = ms1 @ ms2" "p1 = concat (map enc ms1) @ q" "q @ r = concat (map enc ms2) @ t"
      "q = [] \<or> (\<exists>m u. item m \<and> enc m = q @ u \<and> u \<noteq> [])" "r = [] \<longrightarrow> ms2 = []"
      using Cons.IH [of p1] Cons.prems(3) by (elim meta_impE exE conjE)
    then show ?thesis using p by (intro exI [of _ "m # ms1"] exI [of _ ms2] exI [of _ q]) simp
  next
    case False
    have "take (length p) (enc m @ (concat (map enc ms) @ t)) = p" using eq by (metis append_eq_conv_conj)
    then have "take (length p) (enc m) = p" using False by simp
    then have "enc m = p @ drop (length p) (enc m)" by (metis append_take_drop_id)
    moreover have "drop (length p) (enc m) \<noteq> []" using False by simp
    ultimately have "\<exists>m u. item m \<and> enc m = p @ u \<and> u \<noteq> []"
      using Cons.prems(2) by (intro exI [of _ m] exI [of _ "drop (length p) (enc m)"]) simp
    moreover have "r \<noteq> []" using False arg_cong [OF eq, of length] by auto
    ultimately show ?thesis using Cons.prems(1) by (intro exI [of _ "[]"] exI [of _ "m # ms"] exI [of _ p]) simp
  qed
qed

lemma feed_stream:
  assumes "buf @ concat (map fst cs) = concat (map enc ms) @ t" "list_all item ms"
    "t = [] \<or> (\<exists>m u. item m \<and> enc m = t @ u \<and> u \<noteq> [])" "mfold handle ms s = Some s1"
    "length buf + length (concat (map fst cs)) \<le> n" "list_all (\<lambda>(b, c). fits c n) cs" "concat (map fst cs) = [] \<longrightarrow> ms = []"
  shows "feed cs buf s = Some (Done (t, s1))"
  using assms
proof (induction cs arbitrary: buf ms s)
  case Nil
  then show ?case by simp
next
  case (Cons bc cs)
  obtain b c where bc: "bc = (b, c)" by (cases bc)
  have eq: "(buf @ b) @ concat (map fst cs) = concat (map enc ms) @ t" using Cons.prems(1) bc by simp
  obtain ms1 ms2 q where q: "ms = ms1 @ ms2" "buf @ b = concat (map enc ms1) @ q"
    "q @ concat (map fst cs) = concat (map enc ms2) @ t" "q = [] \<or> (\<exists>m u. item m \<and> enc m = q @ u \<and> u \<noteq> [])"
    "concat (map fst cs) = [] \<longrightarrow> ms2 = []"
    using split_items [OF eq Cons.prems(2,3)] by (elim exE conjE)
  obtain s2 where s2: "mfold handle ms1 s = Some s2" "mfold handle ms2 s2 = Some s1"
    using Cons.prems(4) q(1) by (auto simp: mfold_append split: bind_splits)
  have items: "list_all item ms1" "list_all item ms2" using Cons.prems(2) q(1) by simp_all
  have len: "length (concat (map enc ms1) @ q) + length (concat (map fst cs)) \<le> n"
    using Cons.prems(5) unfolding q(2) [symmetric] by (simp add: bc)
  have "fits c n" using Cons.prems(6) bc by simp
  then have "fits c (length (concat (map enc ms1) @ q))" by (rule fits_mono) (use len in simp)
  then have "parse c (buf @ b) s = Some (Done (q, s2))"
    unfolding q(2) by (intro parse_items items(1) q(4) s2(1))
  moreover have "feed cs q s2 = Some (Done (t, s1))"
    using len Cons.prems(6) by (intro Cons.IH [OF q(3) items(2) Cons.prems(3) s2(2) _ _ q(5)]) simp_all
  ultimately show ?case using bc by simp
qed

end

section \<open>The connection of a client\<close>

definition request_msg :: "byte list \<Rightarrow> bool" where
  "request_msg m \<longleftrightarrow> m \<noteq> [] \<and> PACKET_HEADER_LENGTH + length m \<le> MAX_REQUEST_PACKET_LENGTH"

lemma request_msg_short: "list_all request_msg ms \<Longrightarrow> list_all (\<lambda>m. m \<noteq> [] \<and> length m < 2 ^ 61) ms"
  by (erule list.pred_mono_strong) (simp add: request_msg_def PACKET_HEADER_LENGTH_def MAX_REQUEST_PACKET_LENGTH_def)

lemma partial_request:
  assumes "\<exists>m u. request_msg m \<and> frame m = t @ u \<and> u \<noteq> []"
  shows "partial_frame MAX_REQUEST_PACKET_LENGTH t"
  using assms by (auto simp: partial_frame_def request_msg_def)

interpretation requests: stream_parser "ParsePacket handler" frame request_msg handler buffer_at for handler
proof unfold_locales
  fix ms t c s s1
  assume a: "list_all request_msg ms" "t = [] \<or> (\<exists>m u. request_msg m \<and> frame m = t @ u \<and> u \<noteq> [])"
    "buffer_at c (length (concat (map frame ms) @ t))" "mfold handler ms s = Some s1"
  have "parse_loop MAX_REQUEST_PACKET_LENGTH handler c t s1 = Some (Done (t, s1))"
  proof (cases "t = []")
    case True
    then show ?thesis by (subst parse_loop.simps) simp
  next
    case False
    have "buffer_at c (length t)" using a(3) by (rule buffer_at_mono) simp
    then show ?thesis using False a(2) partial_request
      by (intro parse_partial) (auto simp: MAX_REQUEST_PACKET_LENGTH_def PACKET_HEADER_LENGTH_def)
  qed
  then show "ParsePacket handler c (concat (map frame ms) @ t) s = Some (Done (t, s1))"
    using a(4) by (simp add: ParsePacket_def parse_frames [OF request_msg_short [OF a(1)] a(3)])
qed (rule buffer_at_mono)

lemma worker_loop_feed: "worker_loop handler recvs buf s = requests.feed handler recvs buf s"
  by (induction recvs arbitrary: buf s) (auto split: option.split run.split)

lemma frame_nonempty: "frame m \<noteq> []"
  by (simp add: frame_def PACKET_START_TOKEN_def)

lemma Worker_messages:
  assumes "list_all request_msg ms" "t = [] \<or> (\<exists>m u. request_msg m \<and> frame m = t @ u \<and> u \<noteq> [])"
    "concat (map fst recvs) = concat (map frame ms) @ t" "mfold handler ms s = Some s1"
    "list_all (\<lambda>(_, e). buffer_at e (length (concat (map fst recvs)))) recvs" "buffer_at final (length t)"
  shows "Worker handler recvs final s = Some (Done s1)"
proof -
  have "concat (map fst recvs) = [] \<longrightarrow> ms = []" using assms(3) frame_nonempty by (cases ms) auto
  then have "worker_loop handler recvs [] s = Some (Done (t, s1))"
    unfolding worker_loop_feed using assms(3,5) by (intro requests.feed_stream [OF _ assms(1,2,4)]) simp_all
  moreover have "ParsePacket handler final t s1 = Some (Done (t, s1))"
    using requests.parse_items [where ms = "[]" and t = t and c = final and s = s1] assms(2,6) by simp
  ultimately show ?thesis by (simp add: Worker_def)
qed

text \<open>(C6) A client connection delivers every request exactly once and in order. However the stream of packets is cut
  into chunks by the network, in the middle of a token, a length or a message, and also when the client stops in the
  middle of a packet, \<open>Worker\<close> calls the handler for exactly the complete messages, in their order.\<close>

theorem Worker_stream:
  assumes "list_all request_msg ms" "t = [] \<or> (\<exists>m u. request_msg m \<and> frame m = t @ u \<and> u \<noteq> [])"
    "concat (map fst recvs) = concat (map frame ms) @ t" "mfold handler ms s = Some s1"
    "list_all (\<lambda>(_, e). buffer_at e (length (concat (map fst recvs)))) recvs" "buffer_at final (length t)"
  shows "Worker handler recvs final s = Some (Done s1)"
  by (rule Worker_messages [OF assms])

theorem Worker_stream_witness:
  "Worker (\<lambda>m s. Some (s @ [m])) [(PACKET_START_TOKEN @ [17, 0, 0], 100), ([0, 0, 0, 0, 0, 7] @ frame [8, 9] @ [64, 77], 100)] 100 [] =
     Some (Done [[7], [8, 9]])"
proof (rule Worker_stream [of "[[7], [8, 9]]" "[64, 77]"])
  have "frame [7] = [64, 77] @ drop 2 (frame [7])" "drop 2 (frame [7]) \<noteq> []" by (simp_all add: frame_def PACKET_START_TOKEN_def)
  then show "[64, 77] = [] \<or> (\<exists>m u. request_msg m \<and> frame m = [64, 77] @ u \<and> u \<noteq> [])"
    by (intro disjI2 exI [of _ "[7]"] exI [of _ "drop 2 (frame [7])"])
       (simp add: request_msg_def PACKET_HEADER_LENGTH_def MAX_REQUEST_PACKET_LENGTH_def)
  have "le_bytes 8 (17 :: u64) = [17, 0, 0, 0, 0, 0, 0, 0]" by code_simp
  then show "concat (map fst [(PACKET_START_TOKEN @ [17, 0, 0], 100 :: u64), ([0, 0, 0, 0, 0, 7] @ frame [8, 9] @ [64, 77], 100)]) =
    concat (map frame [[7], [8, 9]]) @ [64, 77]"
    by (simp add: frame_def PACKET_HEADER_LENGTH_def)
qed (simp_all add: request_msg_def frame_def PACKET_START_TOKEN_def PACKET_HEADER_LENGTH_def MAX_REQUEST_PACKET_LENGTH_def
    buffer_at_def)

text \<open>(C31) One packet without any credentials ends the server. After any valid requests, a header whose length field is
  below 16, followed by at least one byte, makes \<open>packlen-PACKET_HEADER_LENGTH\<close> wrap around, and the construction of the
  message throws an exception that nothing catches.\<close>

theorem short_length_ends_server:
  assumes "list_all request_msg ms" "mfold handler ms s = Some s1" "unat (w :: u64) < PACKET_HEADER_LENGTH" "x \<noteq> []"
    "buffer_at e (length (concat (map frame ms) @ PACKET_START_TOKEN @ le_bytes 8 w @ x))"
  shows "Worker handler [(concat (map frame ms) @ PACKET_START_TOKEN @ le_bytes 8 w @ x, e)] final s = Some Thrown"
proof -
  let ?p = "PACKET_START_TOKEN @ le_bytes 8 w @ x"
  have tok: "take 8 ?p = PACKET_START_TOKEN" by (simp add: PACKET_START_TOKEN_def)
  have l: "length ?p = 16 + length x" by (simp add: PACKET_START_TOKEN_def)
  have w: "packlen_at ?p = w" by (simp add: packlen_at_def PACKET_START_TOKEN_def le_word_le_bytes)
  have b: "buffer_at e (length ?p)" using assms(5) by (rule buffer_at_mono) simp
  have e: "\<not> e < e - of_nat (length ?p) + w" using past_end [OF b, of w] assms(3) l by (simp add: PACKET_HEADER_LENGTH_def)
  have th: "string_max_size < unat (w - of_nat PACKET_HEADER_LENGTH)" using packlen_ge_header [of w] assms(3) by (rule_tac ccontr) simp
  have ne: "?p \<noteq> []" "\<not> length ?p \<le> PACKET_HEADER_LENGTH" using l assms(4) by (auto simp: PACKET_HEADER_LENGTH_def)
  have "parse_loop MAX_REQUEST_PACKET_LENGTH handler e ?p s1 = Some Thrown"
    by (subst parse_loop.simps) (simp only: ne skip_to_token_at [OF tok] Let_def w e th if_False if_True)
  then have "ParsePacket handler e (concat (map frame ms) @ ?p) s = Some Thrown"
    unfolding ParsePacket_def parse_frames [OF request_msg_short [OF assms(1)] assms(5)] using assms(2) by simp
  then show ?thesis by (simp add: Worker_def)
qed

theorem short_length_ends_server_witness:
  "Worker (\<lambda>m s. Some (s @ [m])) [(frame [7] @ PACKET_START_TOKEN @ le_bytes 8 (0 :: u64) @ [0], 100)] 100 [] = Some Thrown"
  using short_length_ends_server [of "[[7]]" "\<lambda>m s. Some (s @ [m])" "[]" "[[7]]" 0 "[0]" 100 100]
  by (simp add: request_msg_def frame_def PACKET_START_TOKEN_def PACKET_HEADER_LENGTH_def MAX_REQUEST_PACKET_LENGTH_def buffer_at_def)

text \<open>Bytes without a token are skipped, up to the last 16.\<close>

definition no_token :: "byte list \<Rightarrow> bool" where
  "no_token p \<longleftrightarrow> (\<forall>i \<le> length p. take 8 (drop i p) \<noteq> PACKET_START_TOKEN)"

lemma no_token_drop: "no_token p \<Longrightarrow> no_token (drop k p)"
proof (cases "k \<le> length p")
  case True
  assume "no_token p"
  then have "take 8 (drop (i + k) p) \<noteq> PACKET_START_TOKEN" if "i \<le> length p - k" for i
    using that True unfolding no_token_def by (metis add.commute le_diff_conv2)
  then show ?thesis by (simp add: no_token_def)
qed (simp add: no_token_def PACKET_START_TOKEN_def)

lemma no_token_take: "no_token p \<Longrightarrow> no_token (take k p)"
proof (unfold no_token_def, intro allI impI notI)
  fix i
  assume a: "\<forall>i \<le> length p. take 8 (drop i p) \<noteq> PACKET_START_TOKEN" "i \<le> length (take k p)" "take 8 (drop i (take k p)) = PACKET_START_TOKEN"
  have "length (take 8 (drop i (take k p))) = 8" unfolding a(3) by (simp add: PACKET_START_TOKEN_def)
  then have "take 8 (drop i (take k p)) = take 8 (drop i p)" by (simp add: take_drop min_def split: if_splits)
  moreover have "i \<le> length p" using a(2) by simp
  ultimately show False using a(1,3) by metis
qed

lemma skip_no_token:
  assumes "no_token p"
  shows "skip_to_token p = drop (length p - PACKET_HEADER_LENGTH) p"
  using assms
proof (induction p)
  case (Cons b p)
  have nt: "no_token p" using no_token_drop [OF Cons.prems, of 1] by simp
  show ?case
  proof (cases "length (b # p) \<le> PACKET_HEADER_LENGTH")
    case False
    then have "length (take 8 (b # p)) = length PACKET_START_TOKEN" by (simp add: PACKET_HEADER_LENGTH_def PACKET_START_TOKEN_def)
    then have "memcmp (take 8 (b # p)) PACKET_START_TOKEN \<noteq> 0"
      using Cons.prems [unfolded no_token_def, rule_format, of 0] by (simp add: memcmp_eq_0)
    moreover have "length (b # p) - PACKET_HEADER_LENGTH = Suc (length p - PACKET_HEADER_LENGTH)" using False by simp
    ultimately show ?thesis using False Cons.IH [OF nt] by simp
  qed simp
qed simp

lemma parse_no_token:
  assumes "no_token p"
  shows "parse_loop maxlen handler e p s = Some (Done (drop (length p - PACKET_HEADER_LENGTH) p, s))"
proof -
  have "length (skip_to_token p) \<le> PACKET_HEADER_LENGTH" by (simp add: skip_no_token [OF assms])
  then show ?thesis by (subst parse_loop.simps) (simp add: skip_no_token [OF assms, symmetric] Let_def)
qed

text \<open>(C32) A packet above the limit of 4112 bytes is accepted or lost depending on how it arrives. When it arrives in one
  piece its message is handled like any other; when the first piece ends after the header and before the end of the packet,
  the token is skipped and, if no token occurs inside the packet, no message is handled at all.\<close>

theorem oversized_packet:
  assumes "MAX_REQUEST_PACKET_LENGTH < PACKET_HEADER_LENGTH + length m" "length m < 2 ^ 61" "no_token (tl (frame m))"
    "PACKET_HEADER_LENGTH < k" "k < length (frame m)" "handler m s = Some s1"
    "buffer_at e1 (length (frame m))" "buffer_at e2 (length (frame m))"
  shows "Worker handler [(frame m, e1)] final s = Some (Done s1) \<and>
    Worker handler [(take k (frame m), e1), (drop k (frame m), e2)] final s = Some (Done s)"
proof -
  note F = frame_facts [OF assms(2)]
  have m: "m \<noteq> []" using assms(1) by (auto simp: MAX_REQUEST_PACKET_LENGTH_def)
  have nil: "parse_loop mx handler e [] s1 = Some (Done ([], s1))" for mx e by (subst parse_loop.simps) simp
  have "ParsePacket handler e1 (frame m) s = Some (Done ([], s1))"
    using parse_frame [of e1 m "[]" MAX_REQUEST_PACKET_LENGTH handler s] m assms(2,6,7) nil by (simp add: ParsePacket_def)
  then have one: "Worker handler [(frame m, e1)] final s = Some (Done s1)" by (simp add: Worker_def)
  let ?p = "take k (frame m)"
  have k: "16 < k" "length ?p = k" using assms(4,5) by (simp_all add: PACKET_HEADER_LENGTH_def)
  have tok: "take 8 ?p = PACKET_START_TOKEN" using F(2) [of "[]"] k(1) by (simp add: min_def)
  have "take 8 (drop 8 ?p) = take 8 (drop 8 (frame m))" using k(1) by (simp add: take_drop min_def)
  then have w: "packlen_at ?p = packlen_at (frame m @ [])" by (simp add: packlen_at_def)
  have b: "buffer_at e1 (length ?p)" using assms(7) by (rule buffer_at_mono) simp
  have wl: "unat (packlen_at ?p) = 16 + length m" unfolding w by (rule F(3))
  have e: "e1 < e1 - of_nat (length ?p) + packlen_at ?p"
    using past_end [OF b, of "packlen_at ?p"] wl assms(2,5) k(2) F(1) by simp
  have mx: "MAX_REQUEST_PACKET_LENGTH < unat (packlen_at ?p)" using wl assms(1) by (simp add: PACKET_HEADER_LENGTH_def)
  have ne: "?p \<noteq> []" "\<not> length ?p \<le> PACKET_HEADER_LENGTH" using k by (auto simp: PACKET_HEADER_LENGTH_def)
  have tl: "tl ?p = take (k - 1) (tl (frame m))" using k(1) by (simp add: tl_take)
  have nt: "no_token (tl ?p)" unfolding tl by (rule no_token_take [OF assms(3)])
  let ?q = "drop (length (tl ?p) - PACKET_HEADER_LENGTH) (tl ?p)"
  have "parse_loop MAX_REQUEST_PACKET_LENGTH handler e1 ?p s = Some (Done (?q, s))"
    by (subst parse_loop.simps)
       (simp only: ne skip_to_token_at [OF tok] Let_def e mx if_False if_True parse_no_token [OF nt])
  then have P1: "ParsePacket handler e1 ?p s = Some (Done (?q, s))" by (simp add: ParsePacket_def)
  have "?q @ drop k (frame m) = drop (length (tl ?p) - PACKET_HEADER_LENGTH) (tl ?p @ drop k (frame m))" by simp
  also have "tl ?p @ drop k (frame m) = tl (frame m)" using k ne(1) by (metis append_take_drop_id tl_append2)
  finally have nt2: "no_token (?q @ drop k (frame m))" using no_token_drop [OF assms(3)] by simp
  then have P2: "ParsePacket handler e2 (?q @ drop k (frame m)) s =
    Some (Done (drop (length (?q @ drop k (frame m)) - PACKET_HEADER_LENGTH) (?q @ drop k (frame m)), s))"
    unfolding ParsePacket_def by (rule parse_no_token)
  define r where "r = drop (length (?q @ drop k (frame m)) - PACKET_HEADER_LENGTH) (?q @ drop k (frame m))"
  have W: "worker_loop handler [(?p, e1), (drop k (frame m), e2)] [] s = Some (Done (r, s))"
    by (simp only: worker_loop.simps append_Nil P1 P2 [folded r_def] option.case run.case prod.case)
  have P3: "\<exists>r'. ParsePacket handler final r s = Some (Done (r', s))"
    unfolding ParsePacket_def r_def parse_no_token [OF no_token_drop [OF nt2]] by simp
  have "Worker handler [(?p, e1), (drop k (frame m), e2)] final s = Some (Done s)"
    unfolding Worker_def W using P3 by auto
  with one show ?thesis by (rule conjI)
qed

lemma no_token_no_at: "64 \<notin> set p \<Longrightarrow> no_token p"
  unfolding no_token_def PACKET_START_TOKEN_def by (metis in_set_dropD in_set_takeD list.set_intros(1))

theorem oversized_packet_witness:
  "Worker (\<lambda>m s. Some (s + 1)) [(frame (replicate 4097 0), 9000)] 9000 (0 :: nat) = Some (Done 1) \<and>
   Worker (\<lambda>m s. Some (s + 1)) [(take 1448 (frame (replicate 4097 0)), 9000), (drop 1448 (frame (replicate 4097 0)), 9000)] 9000 (0 :: nat) =
     Some (Done 0)"
proof -
  have "le_bytes 8 (4113 :: u64) = [17, 16, 0, 0, 0, 0, 0, 0]" by code_simp
  then have "64 \<notin> set (tl (frame (replicate 4097 0)))" by (simp add: frame_def PACKET_START_TOKEN_def PACKET_HEADER_LENGTH_def)
  then show ?thesis
    by (intro oversized_packet no_token_no_at)
       (simp_all add: frame_def PACKET_START_TOKEN_def PACKET_HEADER_LENGTH_def MAX_REQUEST_PACKET_LENGTH_def buffer_at_def)
qed

end
