(* ===== verification/Packet.thy ===== *)
theory Packet
  imports Knv_Build Framing
begin

text \<open>
  The packets between client and server: a tree with application name, sequence number, error number and content, which
  \<open>SendResponse\<close> of the server and \<open>SendRequest\<close> of the client build, serialise and delete in the same way, and which the two
  functions \<open>ParsePacket\<close> read back.
\<close>

section \<open>Definitions\<close>

text \<open>The bytes of a C string literal.\<close>

definition c_str :: "string \<Rightarrow> byte list" where
  "c_str s = map of_char s"

text \<open>A number in decimal.\<close>

fun dec_digits :: "nat \<Rightarrow> nat \<Rightarrow> byte list" where
  "dec_digits 0 n = []"
| "dec_digits (Suc k) n = (if n < 10 then [of_nat (48 + n)] else dec_digits k (n div 10) @ [of_nat (48 + n mod 10)])"

definition dec_str :: "nat \<Rightarrow> byte list" where
  "dec_str n = dec_digits (n + 1) n"

record ProxyPacket =
  appname :: "byte list"
  appkey :: "byte list"
  sequence :: u64
  errnum :: u32
  content :: "byte list"

text \<open>The packet as it is sent; \<open>None\<close> when the tree was not created or not serialised.\<close>

definition build_packet :: "byte list \<Rightarrow> u64 \<Rightarrow> u32 \<Rightarrow> byte list \<Rightarrow> knv_heap \<Rightarrow> (byte list option \<times> knv_heap) option" where
  "build_packet app sq err cont h = do {
     (tree, h1) \<leftarrow> NewTree 1 None h;
     (if tree = 0 then Some (None, h1)
      else do {
        (_, h2) \<leftarrow> SetFieldStr tree 1 app h1;
        (_, h3) \<leftarrow> SetFieldInt tree 2 sq h2;
        (_, h4) \<leftarrow> SetFieldInt tree 3 (ucast err) h3;
        (_, h5) \<leftarrow> SetFieldStr tree 11 cont h4;
        (len, h6) \<leftarrow> EvaluateSize tree h5;
        (ret, out, h7) \<leftarrow> Serialize tree len False h6;
        h8 \<leftarrow> KnvNode_Delete tree h7;
        Some (if ret < 0 then None else Some (frame out), h8) }) }"

section \<open>Building\<close>

definition packet_fields :: "byte list \<Rightarrow> u64 \<Rightarrow> u32 \<Rightarrow> byte list \<Rightarrow> field list" where
  "packet_fields app sq err cont = (if app = [] then [] else [(1, PB_WT_STRING, str_val app)]) @
     [(2, PB_WT_VARINT, int_val sq), (3, PB_WT_VARINT, int_val (ucast err)), (11, PB_WT_STRING, str_val cont)]"

declare UC_MAX_META_NUM_def [simp]

lemma fields_bytes_append [simp]: "fields_bytes (fs @ gs) = fields_bytes fs @ fields_bytes gs"
  by (simp add: fields_bytes_def)

lemma wf_fields_append [simp]: "wf_fields (fs @ gs) \<longleftrightarrow> wf_fields fs \<and> wf_fields gs"
  by (simp add: wf_fields_def)

lemma wire_packet: "wire_fields (packet_fields app sq err cont) = packet_fields app sq err cont"
  by (simp add: wire_fields_def packet_fields_def meta_fields_def child_fields_def)

lemma wf_packet:
  assumes "length app < 65536" "length cont < 2 ^ 31"
  shows "wf_fields (packet_fields app sq err cont)"
  using assms wf_str_val [of 1 app] wf_str_val [of 11 cont] by (simp add: wf_fields_def packet_fields_def wf_field_def)

text \<open>Adding a number or a string to a tree under construction that is small enough.\<close>

lemma SetFieldInt_new:
  assumes "building h L n fs g" "wf_fields fs" "length (fields_bytes (wire_fields fs)) + 20 < 2 ^ 31"
    "is_meta_tag t" "t \<noteq> 0" "t \<noteq> 1" "last_field t fs = None"
  shows "\<exists>g'. SetFieldInt n t i g = Some (0, g') \<and> building h L n (fs @ [(t, PB_WT_VARINT, int_val i)]) g' \<and> nd_key (nd g' n) = nd_key (nd g n)"
proof -
  have "unat t < unat (2 ^ 29 :: u32)" using assms(4) by (simp add: UC_MAX_META_NUM_def)
  then have "wf_field t PB_WT_VARINT (int_val i)" using assms(5) by (simp add: wf_field_def word_less_nat_alt)
  moreover have "0 \<le> eval_sz (nd g n)" using building_size(2) [OF assms(1-3)] by linarith
  ultimately obtain g' where "SetMeta n t PB_WT_VARINT (Some (int_val i)) True True g = Some (0, g')"
    "building h L n (fs @ [(t, PB_WT_VARINT, int_val i)]) g'" "nd_key (nd g' n) = nd_key (nd g n)"
    using SetMeta_new [OF assms(1,4,7), of PB_WT_VARINT "int_val i" True] assms(6) by auto
  then show ?thesis using assms(4,6) by (simp add: SetFieldInt_def SetMetaInt_def SetMeta_public_def)
qed

lemma SetFieldStr_new:
  assumes b: "building h L n fs g" and wf: "wf_fields fs" and len: "length (fields_bytes (wire_fields fs)) + 20 < 2 ^ 31"
    and t: "\<not> is_meta_tag t" "t < 2 ^ 29" "filter (\<lambda>(u, _). u = t) fs = []" and bs: "length (field_bytes t PB_WT_STRING (str_val bs)) < 2 ^ 31" "length bs < 2 ^ 31"
  shows "\<exists>g'. SetFieldStr n t bs g = Some (0, g') \<and> building h L n (fs @ [(t, PB_WT_STRING, str_val bs)]) g' \<and> nd_key (nd g' n) = nd_key (nd g n)"
proof -
  note B = building_parts [OF b]
  have t0: "t \<noteq> 0" using t(1) by auto
  have w: "wf_field t PB_WT_STRING (str_val bs)" using t0 t(2) bs(2) by (intro wf_str_val) simp_all
  have "FindChildByTag n t g = Some (0, g)"
    using FindChildByTag_rep [OF B(8,10,9) t(1)] t(3) by (auto simp: last_field_def)
  moreover have "0 \<le> eval_sz (nd g n)" using building_size(2) [OF b wf len] by linarith
  moreover have "0 \<le> knv_eval_field_length t PB_WT_STRING (str_val bs)" using flen_field_bytes [OF w bs(1)] by simp
  ultimately obtain c g' where "FindChildByTag n t g = Some (0, g)" "InsertChild_new n t PB_WT_STRING None (Some (str_val bs)) g = Some (c, g')" "c \<noteq> 0"
    "building h L n (fs @ [(t, PB_WT_STRING, str_val bs)]) g'" "nd_key (nd g' n) = nd_key (nd g n)"
    using InsertChild_leaf [OF b t(1) w] by blast
  then show ?thesis using t(1) by (simp add: SetFieldStr_def SetChildStr_def SetChild_def)
qed

lemma packet_length:
  assumes "length app < 2 ^ 32" "length cont < 2 ^ 32"
  shows "length (fields_bytes (packet_fields app sq err cont)) \<le> length app + length cont + 80"
proof -
  have i: "length (field_bytes t PB_WT_VARINT (int_val i)) \<le> 20" for t i
    using pb_eval_vint_length_bounds [of "ucast (tag_word PB_WT_VARINT t)"] pb_eval_vint_length_bounds [of i]
    by (simp add: field_bytes_def vint_buffer_length)
  have s: "length (field_bytes t PB_WT_STRING (str_val bs)) \<le> length bs + 20" if "length bs < 2 ^ 32" for t bs
    using head_length [of t "length bs"] by (simp add: field_bytes_str [OF that])
  show ?thesis using i [of 2 sq] i [of 3 "ucast err"] s [OF assms(1), of 1] s [OF assms(2), of 11] by (simp add: packet_fields_def fields_bytes_def)
qed

lemma build_packet_ok:
  assumes pool: "pool_ok h L" and len: "length app < 65536" "length cont < 2 ^ 30"
  shows "\<exists>h'. build_packet app sq err cont h = Some (Some (frame (fields_bytes (packet_fields app sq err cont))), h') \<and>
    pool_ok h' L \<and> (\<forall>q \<in> L. nd h' q = nd h q)"
proof -
  let ?k = "\<lparr>k_type = PB_WT_STRING, k_val = app\<rparr>"
  let ?a = "if app = [] then [] else [(1, PB_WT_STRING, str_val app)] :: field list"
  let ?b = "?a @ [(2, PB_WT_VARINT, int_val sq)]" and ?d = "(?a @ [(2, PB_WT_VARINT, int_val sq)]) @ [(3, PB_WT_VARINT, int_val (ucast err))]"
  have all: "packet_fields app sq err cont = ?d @ [(11, PB_WT_STRING, str_val cont)]" by (simp add: packet_fields_def)
  have w: "wire_fields ?a = ?a" "wire_fields ?b = ?b" "wire_fields ?d = ?d"
    by (simp_all add: wire_fields_def meta_fields_def child_fields_def)
  have lp: "length (fields_bytes (packet_fields app sq err cont)) + 20 < 2 ^ 31" using packet_length [of app cont sq err] len by simp
  then have lf: "length (fields_bytes ?d) + length (field_bytes 11 PB_WT_STRING (str_val cont)) + 20 < 2 ^ 31"
    unfolding all fields_bytes_append by (simp add: fields_bytes_def)
  then have lc: "length (field_bytes 11 PB_WT_STRING (str_val cont)) < 2 ^ 31" by simp
  have l: "length (fields_bytes (wire_fields ?a)) + 20 < 2 ^ 31" "length (fields_bytes (wire_fields ?b)) + 20 < 2 ^ 31" "length (fields_bytes (wire_fields ?d)) + 20 < 2 ^ 31"
    using lf unfolding w fields_bytes_append by simp_all
  have wf: "wf_fields ?a" "wf_fields ?b" "wf_fields ?d" "wf_fields (packet_fields app sq err cont)"
    using wf_packet [of app cont sq err] len by (simp_all add: all wf_fields_def)
  obtain n g0 where N: "NewTree 1 None h = Some (n, g0)" "n \<notin> L" "n \<noteq> 0" "building h (insert n L) n [] g0" "\<not> no_key (nd g0 n)"
    using building_new [OF pool, of 1] by auto
  have e0: "0 \<le> eval_sz (nd g0 n)" using building_size(2) [OF N(4)] by (simp add: wf_fields_def wire_fields_def meta_fields_def child_fields_def fields_bytes_def)
  obtain g1 where A: "SetFieldStr n 1 app g0 = Some (0, g1)" "building h (insert n L) n ?a g1" "nd_key (nd g1 n) = ?k"
    using SetFieldStr_key [OF N(4,5) len(1) e0] by blast
  obtain g2 where G2: "SetFieldInt n 2 sq g1 = Some (0, g2)" "building h (insert n L) n ?b g2" "nd_key (nd g2 n) = nd_key (nd g1 n)"
    using SetFieldInt_new [OF A(2) wf(1) l(1), of 2 sq] by (auto simp: last_field_def)
  obtain g3 where G3: "SetFieldInt n 3 (ucast err) g2 = Some (0, g3)" "building h (insert n L) n ?d g3" "nd_key (nd g3 n) = nd_key (nd g2 n)"
    using SetFieldInt_new [OF G2(2) wf(2) l(2), of 3 "ucast err"] by (auto simp: last_field_def)
  obtain g4 where G4: "SetFieldStr n 11 cont g3 = Some (0, g4)" "building h (insert n L) n (packet_fields app sq err cont) g4" "nd_key (nd g4 n) = nd_key (nd g3 n)"
    using SetFieldStr_new [OF G3(2) wf(3) l(3), of 11 cont] lc len(2) unfolding all by auto
  have "key_ok g4 n"
    by (rule building_key [OF G4(2) wf(4)]) (use A(3) G2(3) G3(3) G4(3) in \<open>auto simp: packet_fields_def\<close>)
  then have S: "EvaluateSize n g4 = Some (eval_sz (nd g4 n), g4)"
    "Serialize n (eval_sz (nd g4 n)) False g4 = Some (0, fields_bytes (packet_fields app sq err cont), g4)"
    using building_Serialize [OF G4(2) wf(4)] lp by (simp_all add: wire_packet) (simp_all add: packet_fields_def)
  obtain h' where D: "KnvNode_Delete n g4 = Some h'" "pool_ok h' (insert n L - {n})" "\<forall>q \<in> insert n L - {n}. nd h' q = nd g4 q"
    using Delete_expanded [OF building_parts(2,1) [OF G4(2)]] by blast
  have "insert n L - {n} = L" using N(2) by blast
  moreover have "\<forall>q \<in> L. nd g4 q = nd h q" using building_parts(3) [OF G4(2)] N(2) by auto
  ultimately show ?thesis
    using N(1,3) A(1) G2(1) G3(1) G4(1) S D by (intro exI [of _ h']) (simp add: build_packet_def)
qed

section \<open>Reading\<close>

text \<open>The accessors on a message that has not been expanded yet.\<close>

lemma packet_read:
  assumes "pool_ok h L" "msg_fields bs = Some fs" "fs \<noteq> []" "length bs < 2 ^ 31" "length (filter (\<lambda>(u, _). u = 11) fs) \<le> 1"
  shows "\<exists>n h1 h2 h3. NewFromMessage bs 1 h = Some (n, h1) \<and> n \<noteq> 0 \<and> GetFieldStr n 1 h1 = Some (field_str (last_field 1 fs), h2) \<and>
    GetFieldInt n 2 h2 = Some (field_int (last_field 2 fs), h2) \<and> GetFieldInt n 3 h2 = Some (field_int (last_field 3 fs), h2) \<and>
    GetFieldStr n 11 h2 = Some (field_str (last_field 11 fs), h2) \<and>
    KnvNode_Delete n h2 = Some h3 \<and> pool_ok h3 L \<and> (\<forall>q \<in> L. nd h3 q = nd h q)"
proof -
  obtain n h1 h2 where N: "NewFromMessage bs 1 h = Some (n, h1)" "n \<notin> L" "\<forall>q \<in> L. nd h1 q = nd h q" "nd_tag (nd h1 n) = 1"
    "child_num (nd h1 n) < 0" "Expand n h1 = Some (0, h2)" "expanding h1 (insert n L) n fs h2"
    using NewFromMessage_Expand [OF assms(1-4), of 1] by auto
  have tag: "nd_tag (nd h1 n) \<noteq> 0" using N(4) by simp
  note S = expanding_sel [OF N(7) tag]
  have "child_num (nd h2 n) \<ge> 0" using S(1) by (simp add: kids_rep_def Let_def)
  then have "GetMeta n 1 h1 = GetMeta n 1 h2" using N(4-6) S(2) by (intro GetMeta_expand) simp_all
  then have a: "GetFieldStr n 1 h1 = Some (field_str (last_field 1 fs), h2)"
    using GetMetaStr_rep [OF S, of 1] by (simp add: GetFieldStr_def GetMetaStr_def)
  have n0: "n \<noteq> 0" using N(7) by (auto simp: expanding_def pool_ok_def Let_def)
  obtain h3 where "KnvNode_Delete n h2 = Some h3" "pool_ok h3 (insert n L - {n})" "\<forall>q \<in> insert n L - {n}. nd h3 q = nd h1 q"
    using Delete_expanded [OF N(7)] by blast
  moreover have "insert n L - {n} = L" using N(2) by blast
  ultimately show ?thesis
    using N(1,3) n0 a GetMetaInt_rep [OF S, of 2] GetMetaInt_rep [OF S, of 3] GetChildStr_rep [OF S, of 11] assms(5)
    by (intro exI [of _ n] exI [of _ h1] exI [of _ h2] exI [of _ h3]) (simp add: GetFieldInt_def GetFieldStr_def)
qed

lemma packet_decode:
  assumes "length app < 65536" "length cont < 2 ^ 30"
  shows "\<exists>fs. msg_fields (fields_bytes (packet_fields app sq err cont)) = Some fs \<and> fs \<noteq> [] \<and> length (fields_bytes (packet_fields app sq err cont)) < 2 ^ 31 \<and>
    length (filter (\<lambda>(u, _). u = 11) fs) \<le> 1 \<and> field_str (last_field 1 fs) = app \<and> field_int (last_field 2 fs) = sq \<and>
    field_int (last_field 3 fs) = ucast err \<and> field_str (last_field 11 fs) = cont"
proof -
  let ?P = "packet_fields app sq err cont"
  have wf: "list_all (\<lambda>(t, wt, v). wf_field t wt v) ?P" using wf_packet [of app cont sq err] assms by (simp add: wf_fields_def)
  have l: "length (fields_bytes ?P) < 2 ^ 31" using packet_length [of app cont sq err] assms by simp
  obtain fs where fs: "msg_fields (fields_bytes ?P) = Some fs" "list_all2 decoded fs ?P" using msg_fields_bytes [OF wf l] by blast
  have "str_bytes (str_val app) = app" "str_bytes (str_val cont) = cont"
    using val_i32_str_val [of app] val_i32_str_val [of cont] assms by (simp_all add: str_bytes_def)
  then have "field_str (last_field 1 fs) = app \<and> field_int (last_field 2 fs) = sq \<and> field_int (last_field 3 fs) = ucast err \<and>
      field_str (last_field 11 fs) = cont \<and> length (filter (\<lambda>(u, _). u = 11) fs) \<le> 1"
    using decoded_last [OF fs(2), of 1] decoded_last [OF fs(2), of 2] decoded_last [OF fs(2), of 3] decoded_last [OF fs(2), of 11]
    by (auto simp: packet_fields_def last_field_def field_str_def field_int_def)
  moreover have "fs \<noteq> []" using fs(2) by (auto simp: packet_fields_def)
  ultimately show ?thesis using fs(1) l by blast
qed

text \<open>(C7) What one side sends is what the other side reads. Whatever trees the two node pools hold, for a name of less than 64 KB
  and a content of less than 1 GB the sender builds a packet, and the reader of its message finds the same name, sequence
  number, error number and content; afterwards both pools hold the same trees as before.\<close>

theorem packet_roundtrip:
  assumes "pool_ok h L" "pool_ok k M" "length app < 65536" "length cont < 2 ^ 30"
  shows "\<exists>m h'. build_packet app sq err cont h = Some (Some (frame m), h') \<and> pool_ok h' L \<and> (\<forall>q \<in> L. nd h' q = nd h q) \<and>
    (\<exists>n k1 k2 k3. NewFromMessage m 1 k = Some (n, k1) \<and> n \<noteq> 0 \<and> GetFieldStr n 1 k1 = Some (app, k2) \<and>
       GetFieldInt n 2 k2 = Some (sq, k2) \<and> GetFieldInt n 3 k2 = Some (ucast err, k2) \<and> GetFieldStr n 11 k2 = Some (cont, k2) \<and>
       KnvNode_Delete n k2 = Some k3 \<and> pool_ok k3 M \<and> (\<forall>q \<in> M. nd k3 q = nd k q))"
proof -
  let ?m = "fields_bytes (packet_fields app sq err cont)"
  obtain fs where fs: "msg_fields ?m = Some fs" "fs \<noteq> []" "length ?m < 2 ^ 31" "length (filter (\<lambda>(u, _). u = 11) fs) \<le> 1"
    "field_str (last_field 1 fs) = app" "field_int (last_field 2 fs) = sq" "field_int (last_field 3 fs) = ucast err" "field_str (last_field 11 fs) = cont"
    using packet_decode [OF assms(3,4), of sq err] by blast
  note R = packet_read [OF assms(2) fs(1-4), unfolded fs(5-8)]
  obtain h' where "build_packet app sq err cont h = Some (Some (frame ?m), h')" "pool_ok h' L" "\<forall>q \<in> L. nd h' q = nd h q"
    using build_packet_ok [OF assms(1,3,4), of sq err] by blast
  then show ?thesis using R by (intro exI [of _ ?m] exI [of _ h']) simp
qed

theorem packet_roundtrip_witness:
  "\<exists>m h' n k1 k2. build_packet [97] 5 0 [1, 2] knv_empty = Some (Some (frame m), h') \<and> NewFromMessage m 1 knv_empty = Some (n, k1) \<and>
     GetFieldStr n 1 k1 = Some ([97], k2) \<and> GetFieldInt n 2 k2 = Some (5, k2) \<and> GetFieldStr n 11 k2 = Some ([1, 2], k2)"
  using packet_roundtrip [OF empty_pool empty_pool, of "[97]" "[1, 2]" 5 0] by auto

end
