(* ===== verification/Proxy_Server.thy ===== *)
theory Proxy_Server
  imports Storage Key_File Traffic Packet
begin

text \<open>
  The server (\<open>mysql_proxy_server.cpp\<close>): the pool of database connections, the tree of a query result, the handling of a
  request from its packet to its response, start-up, and one round of the main loop.

  What the server shares is \<open>PxWorld\<close>: the cache and the node heap, the queue of free connections, the last error text, the
  traffic counters, the state of the lock file, the state of the database, and the packets sent. The MySQL client library, the
  DES library and the operating system are not part of the repository; they are the fields of \<open>px_env\<close>, functions on a
  database state of any type. Connections are numbers, 0 is \<open>NULL\<close>. A result set is its field names and its rows, with
  \<open>None\<close> for an SQL \<open>NULL\<close>. \<open>time(NULL)\<close> is read four times for a request; the values are \<open>px_clock\<close>. Monitoring and log output
  are left out, except that the log of a result evaluates the size of its tree.
\<close>

section \<open>Definitions\<close>

record MYSQL_RES =
  res_fields :: "byte list list"
  res_rows :: "byte list option list list"
  res_lengths :: bool

record ('d, 'k) px_env =
  e_ecb :: ecb_fun
  e_malloc :: "nat \<Rightarrow> bool"
  e_free_dyn :: "knv_key \<Rightarrow> knv_key"
  e_open :: int
  e_flock :: "int \<Rightarrow> flock_op \<Rightarrow> 'k \<Rightarrow> int \<times> 'k"
  e_knv_msg :: "byte list"
  my_init :: "'d \<Rightarrow> nat \<times> 'd"
  my_connect :: "nat \<Rightarrow> 'd \<Rightarrow> bool \<times> 'd"
  my_charset :: "nat \<Rightarrow> 'd \<Rightarrow> 'd"
  my_query :: "nat \<Rightarrow> byte list \<Rightarrow> 'd \<Rightarrow> int \<times> 'd"
  my_store :: "nat \<Rightarrow> 'd \<Rightarrow> MYSQL_RES option \<times> 'd"
  my_errno :: "nat \<Rightarrow> 'd \<Rightarrow> int"
  my_error :: "nat \<Rightarrow> 'd \<Rightarrow> byte list"
  my_close :: "nat \<Rightarrow> 'd \<Rightarrow> 'd"
  my_server_error :: "int \<Rightarrow> bool"

record PxConfig =
  mapAppKeys :: app_keys
  iShmMaxKeyLen :: int
  iCacheValidSeconds :: int
  iShmFd :: nat
  sCharset :: "byte list"
  bLogDebug :: bool

record px_clock =
  t_read :: nat
  t_check :: nat
  t_pack :: nat
  t_write :: nat

record ('d, 'k) PxWorld =
  px_st :: StWorld
  vstMySQLPool :: "nat list"
  sMySQLError :: "byte list"
  px_traffic :: TrafficState
  px_lock :: 'k
  px_db :: 'd
  px_sent :: "(int \<times> byte list) list"

abbreviation px_knv :: "('d, 'k) PxWorld \<Rightarrow> knv_heap" where
  "px_knv w \<equiv> w_knv (px_st w)"

definition set_knv :: "knv_heap \<Rightarrow> ('d, 'k) PxWorld \<Rightarrow> ('d, 'k) PxWorld" where
  "set_knv h w = w\<lparr>px_st := (px_st w)\<lparr>w_knv := h\<rparr>\<rparr>"

subsection \<open>Connections\<close>

text \<open>\<open>ConcurrentQueue\<close>: both operations run under its mutex.\<close>

definition queue_Put :: "'a \<Rightarrow> 'a list \<Rightarrow> 'a list" where
  "queue_Put t q = q @ [t]"

definition queue_Get :: "'a list \<Rightarrow> 'a option \<times> 'a list" where
  "queue_Get q = (case q of [] \<Rightarrow> (None, []) | t # q1 \<Rightarrow> (Some t, q1))"

definition InitMySQL :: "('d, 'k) px_env \<Rightarrow> PxConfig \<Rightarrow> ('d, 'k) PxWorld \<Rightarrow> nat \<times> ('d, 'k) PxWorld" where
  "InitMySQL env cfg w =
     (case my_init env (px_db w) of (mysql, db1) \<Rightarrow>
        if mysql = 0 then (0, w\<lparr>px_db := db1, sMySQLError := c_str ''mysql_init failed: '' @ my_error env 0 db1\<rparr>)
        else case my_connect env mysql db1 of (ok, db2) \<Rightarrow>
          if \<not> ok
          then (0, w\<lparr>px_db := my_close env mysql db2, sMySQLError := c_str ''mysql_real_connect failed: '' @ my_error env mysql db2\<rparr>)
          else (mysql, w\<lparr>px_db := (if sCharset cfg \<noteq> [] then my_charset env mysql db2 else db2)\<rparr>))"

definition AllocMySQL :: "('d, 'k) px_env \<Rightarrow> PxConfig \<Rightarrow> ('d, 'k) PxWorld \<Rightarrow> nat \<times> ('d, 'k) PxWorld" where
  "AllocMySQL env cfg w =
     (case queue_Get (vstMySQLPool w) of (t, q) \<Rightarrow>
        let w1 = w\<lparr>vstMySQLPool := q\<rparr>
        in case t of
             Some mysql \<Rightarrow> if mysql \<noteq> 0 then (mysql, w1) else InitMySQL env cfg w1
           | None \<Rightarrow> InitMySQL env cfg w1)"

definition FreeMySQL :: "nat \<Rightarrow> ('d, 'k) PxWorld \<Rightarrow> ('d, 'k) PxWorld" where
  "FreeMySQL mysql w = (if mysql \<noteq> 0 then w\<lparr>vstMySQLPool := queue_Put mysql (vstMySQLPool w)\<rparr> else w)"

definition RealFreeMySQL :: "('d, 'k) px_env \<Rightarrow> nat \<Rightarrow> ('d, 'k) PxWorld \<Rightarrow> ('d, 'k) PxWorld" where
  "RealFreeMySQL env mysql w = w\<lparr>px_db := my_close env mysql (px_db w)\<rparr>"

subsection \<open>Packets\<close>

text \<open>The error number and the content that go into the response.\<close>

definition response_content :: "ecb_fun \<Rightarrow> byte list \<Rightarrow> int \<Rightarrow> byte list \<Rightarrow> u32 \<times> byte list" where
  "response_content ecb key errornum cont =
     (if errornum = 0
      then let c = Encrypt ecb key cont
           in if c = [] \<and> cont \<noteq> [] then (2, c_str ''Encryption failed'') else (of_int errornum, c)
      else (of_int errornum, cont))"

definition SendResponse ::
    "('d, 'k) px_env \<Rightarrow> int \<Rightarrow> ProxyPacket \<Rightarrow> int \<Rightarrow> byte list \<Rightarrow> ('d, 'k) PxWorld \<Rightarrow> ('d, 'k) PxWorld option" where
  "SendResponse env sockfd stRequest errornum cont w =
     (case response_content (e_ecb env) (appkey stRequest) errornum cont of (err, c) \<Rightarrow> do {
        (pk, h) \<leftarrow> build_packet (appname stRequest) (sequence stRequest) err c (px_knv w);
        let w1 = set_knv h w;
        Some (case pk of
                None \<Rightarrow> w1
              | Some rsp \<Rightarrow> w1\<lparr>px_traffic := ctl_send (of_nat (length rsp)) (px_traffic w1), px_sent := px_sent w1 @ [(sockfd, rsp)]\<rparr>) })"

subsection \<open>The tree of a result\<close>

definition max_row_num_for_each_set :: nat where
  "max_row_num_for_each_set = 10000"

definition str_key :: "byte list \<Rightarrow> knv_key" where
  "str_key bs = \<lparr>k_type = PB_WT_STRING, k_val = take (u16n (length bs)) bs\<rparr>"

definition pack_row :: "bool \<Rightarrow> nat \<Rightarrow> byte list option list \<Rightarrow> nat \<Rightarrow> knv_heap \<Rightarrow> knv_heap option" where
  "pack_row lengths num_fields row subtree h =
     mfold (\<lambda>(i, v) g. case v of
              None \<Rightarrow> Some g
            | Some bs \<Rightarrow> map_option snd (AddFieldStr subtree (of_nat (11 + i)) (if lengths then bs else takeWhile (\<lambda>c. c \<noteq> 0) bs) g))
       (zip [0..<num_fields] row) h"

text \<open>The loop over the rows; \<open>settree\<close> is 0 when a new set has to be started. The flag is False when a node was not added.\<close>

fun pack_rows :: "bool \<Rightarrow> nat \<Rightarrow> nat \<Rightarrow> byte list option list list \<Rightarrow> nat \<Rightarrow> nat \<Rightarrow> knv_heap \<Rightarrow> (bool \<times> knv_heap) option" where
  "pack_rows lengths num_fields tree [] settree r h = Some (True, h)"
| "pack_rows lengths num_fields tree (row # rows) settree r h = do {
     (st, h1) \<leftarrow> (if settree = 0
                   then InsertSubNode tree 12 (Some (str_key (c_str ''set '' @ dec_str (r div max_row_num_for_each_set)))) h
                   else Some (settree, h));
     (if st = 0 then Some (False, h1)
      else do {
        (subtree, h2) \<leftarrow> InsertSubNode st 11 (Some (str_key (c_str ''row '' @ dec_str r))) h1;
        (if subtree = 0 then Some (False, h2)
         else do {
           h3 \<leftarrow> pack_row lengths num_fields row subtree h2;
           (st1, h4) \<leftarrow> (if r \<noteq> 0 \<and> r mod max_row_num_for_each_set = 0
                          then map_option (\<lambda>(_, g). (0, g)) (KnvNode_GetValue st h3)
                          else Some (st, h3));
           pack_rows lengths num_fields tree rows st1 (r + 1) h4 }) }) }"

fun pack_fields :: "nat \<Rightarrow> byte list list \<Rightarrow> knv_heap \<Rightarrow> (bool \<times> knv_heap) option" where
  "pack_fields fieldstree [] h = Some (True, h)"
| "pack_fields fieldstree (name # names) h = do {
     (fieldnode, h1) \<leftarrow> InsertSubNode fieldstree 11 (Some (str_key name)) h;
     (if fieldnode = 0 then Some (False, h1) else pack_fields fieldstree names h1) }"

text \<open>The second value is the beginning of \<open>sMySQLError\<close> when there is no tree.\<close>

definition PackResult :: "bool \<Rightarrow> nat \<Rightarrow> MYSQL_RES \<Rightarrow> knv_key \<Rightarrow> knv_heap \<Rightarrow> (nat \<times> string \<times> knv_heap) option" where
  "PackResult debug now result reqkey h = do {
     (tree, h1) \<leftarrow> NewTree 1 (Some reqkey) h;
     (if tree = 0 then Some (0, ''Create KNV tree failed: '', h1)
      else do {
        let num_fields = u32n (length (res_fields result));
        (_, h2) \<leftarrow> SetFieldInt tree 2 (of_nat now) h1;
        (_, h3) \<leftarrow> SetFieldInt tree 3 (of_nat (u32n (length (res_rows result)))) h2;
        (_, h4) \<leftarrow> SetFieldInt tree 4 (of_nat num_fields) h3;
        let failed = (\<lambda>g. map_option (\<lambda>g1. (0, ''Add KNV node failed: '', g1)) (KnvNode_Delete tree g));
        (fieldstree, h5) \<leftarrow> InsertSubNode tree 11 (Some (str_key (c_str ''fields''))) h4;
        (if fieldstree = 0 then failed h5
         else do {
           (ok1, h6) \<leftarrow> pack_fields fieldstree (res_fields result) h5;
           (if \<not> ok1 then failed h6
            else do {
              (ok2, h7) \<leftarrow> pack_rows (res_lengths result) num_fields tree (res_rows result) 0 0 h6;
              (if \<not> ok2 then failed h7
               else do {
                 h8 \<leftarrow> (if debug then map_option snd (EvaluateSize tree h7) else Some h7);
                 Some (tree, [], h8) }) }) }) }) }"

subsection \<open>Requests\<close>

definition GetReqHashKey :: "PxConfig \<Rightarrow> byte list \<Rightarrow> byte list" where
  "GetReqHashKey cfg reqstr =
     (if int (length reqstr) < iShmMaxKeyLen cfg - 32 then reqstr else take (nat (iShmMaxKeyLen cfg - 32)) reqstr)"

definition c_tolower :: "byte \<Rightarrow> byte" where
  "c_tolower c = (if 65 \<le> unat c \<and> unat c \<le> 90 then c + 32 else c)"

text \<open>\<open>strncasecmp(sql, word, strlen(word)) == 0\<close>. The statement is a C string.\<close>

definition starts_with :: "string \<Rightarrow> byte list \<Rightarrow> bool" where
  "starts_with word sql \<longleftrightarrow> map c_tolower (take (length word) (takeWhile (\<lambda>c. c \<noteq> 0) sql)) = c_str word"

definition allowed_sql :: "byte list \<Rightarrow> bool" where
  "allowed_sql sql \<longleftrightarrow> starts_with ''select'' sql \<or> starts_with ''show'' sql \<or> starts_with ''desc'' sql"

text \<open>The statement without leading white space, as it goes to the database: up to the first NUL.\<close>

definition skip_spaces :: "byte list \<Rightarrow> byte list" where
  "skip_spaces reqstr = dropWhile (\<lambda>c. c = 10 \<or> c = 13 \<or> c_isspace c) reqstr"

definition sql_text :: "byte list \<Rightarrow> byte list" where
  "sql_text sql = takeWhile (\<lambda>c. c \<noteq> 0) sql"

text \<open>Errors of the client library after which the query is sent again over a new connection.\<close>

definition conn_error :: "int \<Rightarrow> bool" where
  "conn_error err \<longleftrightarrow> err \<in> {2006, 2013, 2002, 2003, 2010, 2011}"

definition CR_OUT_OF_MEMORY :: int where
  "CR_OUT_OF_MEMORY = 2008"

definition max_try_num :: nat where
  "max_try_num = 10"

text \<open>Reading the cache: the tree when it is there and not too old, else 0.\<close>

definition cache_lookup ::
    "('d, 'k) px_env \<Rightarrow> PxConfig \<Rightarrow> px_clock \<Rightarrow> UcStorage \<Rightarrow> ('d, 'k) PxWorld \<Rightarrow> (nat \<times> UcStorage \<times> ('d, 'k) PxWorld) option" where
  "cache_lookup env cfg clk st w = do {
     (ret, st1, sw) \<leftarrow> st_Read (e_malloc env) (e_free_dyn env) (t_read clk) st (px_st w);
     let w1 = w\<lparr>px_st := sw\<rparr>;
     let tree = st_tree st1;
     (if ret < 0 then Some (0, st1, w1)
      else do {
        (t, h) \<leftarrow> (if tree \<noteq> 0 then GetFieldInt tree 2 (px_knv w1) else Some (0, px_knv w1));
        let w2 = set_knv h w1;
        Some (if t = 0 \<or> sint (t + word_of_int (iCacheValidSeconds cfg)) < int (t_check clk) then 0 else tree, st1, w2) }) }"

text \<open>The two error exits of a query: keep or close the connection, and either try again or report the error.\<close>

definition query_failed ::
    "('d, 'k) px_env \<Rightarrow> string \<Rightarrow> nat \<Rightarrow> ('d, 'k) PxWorld \<Rightarrow> int \<times> ('d, 'k) PxWorld" where
  "query_failed env what mysql w =
     (let err = my_errno env mysql (px_db w); w1 = w\<lparr>sMySQLError := c_str what @ my_error env mysql (px_db w)\<rparr>
      in (err, if my_server_error env err then FreeMySQL mysql w1 else RealFreeMySQL env mysql w1))"

text \<open>Keeping the new tree in the cache, when the lock is free.\<close>

definition cache_store ::
    "('d, 'k) px_env \<Rightarrow> px_clock \<Rightarrow> nat \<Rightarrow> UcStorage \<Rightarrow> ('d, 'k) PxWorld \<Rightarrow> (UcStorage \<times> ('d, 'k) PxWorld) option" where
  "cache_store env clk tree st w = do {
     (st1, sw1) \<leftarrow> st_Attach (e_free_dyn env) tree True st (px_st w);
     (case TryLockShm (e_open env) (e_flock env) (px_lock w) sw1 of (r, k1, sw2) \<Rightarrow>
        if r = 0
        then do {
          (_, sw3) \<leftarrow> st_Write True (t_write clk) st1 sw2;
          (case UnlockShm (e_open env) (e_flock env) k1 sw3 of (_, k2, sw4) \<Rightarrow> Some (st1, w\<lparr>px_st := sw4, px_lock := k2\<rparr>)) }
        else Some (st1, w\<lparr>px_st := sw2, px_lock := k1\<rparr>)) }"

text \<open>The loop that asks the database. The result is the tree, or 0 when a response has already been sent.\<close>

function query_loop ::
    "('d, 'k) px_env \<Rightarrow> PxConfig \<Rightarrow> px_clock \<Rightarrow> int \<Rightarrow> ProxyPacket \<Rightarrow> byte list \<Rightarrow> knv_key \<Rightarrow> nat \<Rightarrow> UcStorage \<Rightarrow> ('d, 'k) PxWorld
       \<Rightarrow> (nat \<times> UcStorage \<times> ('d, 'k) PxWorld) option" where
  "query_loop env cfg clk sockfd stRequest sql key try_num st w =
     (case AllocMySQL env cfg w of (mysql, w1) \<Rightarrow>
        if mysql = 0
        then map_option (\<lambda>w2. (0, st, w2)) (SendResponse env sockfd stRequest 1 (sMySQLError w1) w1)
        else case my_query env mysql (sql_text sql) (px_db w1) of (iRet, db1) \<Rightarrow>
          let w2 = w1\<lparr>px_db := db1\<rparr>
          in if iRet < 0
             then case query_failed env ''mysql_query failed: '' mysql w2 of (err, w3) \<Rightarrow>
                    if conn_error err \<and> try_num < max_try_num
                    then query_loop env cfg clk sockfd stRequest sql key (try_num + 1) st w3
                    else map_option (\<lambda>w4. (0, st, w4)) (SendResponse env sockfd stRequest err (sMySQLError w3) w3)
             else case my_store env mysql (px_db w2) of (res, db2) \<Rightarrow>
               let w3 = w2\<lparr>px_db := db2\<rparr>
               in case res of
                    None \<Rightarrow>
                      (case query_failed env ''mysql_store_result failed: '' mysql w3 of (err, w4) \<Rightarrow>
                         if conn_error err \<and> try_num < max_try_num
                         then query_loop env cfg clk sockfd stRequest sql key (try_num + 1) st w4
                         else map_option (\<lambda>w5. (0, st, w5)) (SendResponse env sockfd stRequest err (sMySQLError w4) w4))
                  | Some result \<Rightarrow> do {
                      (tree, msg, h) \<leftarrow> PackResult (bLogDebug cfg) (t_pack clk) result key (px_knv w3);
                      let w4 = FreeMySQL mysql (set_knv h w3);
                      (if tree = 0
                       then let w5 = w4\<lparr>sMySQLError := c_str msg @ e_knv_msg env\<rparr>
                            in map_option (\<lambda>w6. (0, st, w6)) (SendResponse env sockfd stRequest CR_OUT_OF_MEMORY (sMySQLError w5) w5)
                       else do {
                         (st1, w5) \<leftarrow> cache_store env clk tree st w4;
                         Some (tree, st1, w5) }) })"
  by pat_completeness auto
termination
  by (relation "measure (\<lambda>(env, cfg, clk, sockfd, stRequest, sql, key, try_num, st, w). max_try_num - try_num)") auto

declare query_loop.simps [simp del]

text \<open>The destructor of the storage object runs at the end.\<close>

definition st_destroy :: "('d, 'k) px_env \<Rightarrow> UcStorage \<Rightarrow> ('d, 'k) PxWorld \<Rightarrow> ('d, 'k) PxWorld option" where
  "st_destroy env st w = map_option (\<lambda>(_, sw). w\<lparr>px_st := sw\<rparr>) (st_Delete (e_free_dyn env) st (px_st w))"

definition ProcessRequest ::
    "('d, 'k) px_env \<Rightarrow> PxConfig \<Rightarrow> px_clock \<Rightarrow> int \<Rightarrow> ProxyPacket \<Rightarrow> ('d, 'k) PxWorld \<Rightarrow> ('d, 'k) PxWorld option" where
  "ProcessRequest env cfg clk sockfd stRequest w =
     (let reqstr = Decrypt (e_ecb env) (appkey stRequest) (content stRequest)
      in if reqstr = []
         then let w1 = w\<lparr>sMySQLError := c_str ''Unauthorized request''\<rparr>
              in SendResponse env sockfd stRequest 1 (sMySQLError w1) w1
         else let sql = skip_spaces reqstr
         in if \<not> allowed_sql sql
            then let w1 = w\<lparr>sMySQLError := c_str ''statement not starting with SELECT/SHOW/DESC is not supperted.''\<rparr>
                 in SendResponse env sockfd stRequest 1 (sMySQLError w1) w1
            else let key = str_key (GetReqHashKey cfg sql); st = UcStorage_new (iShmFd cfg) key
            in do {
              (tree, st1, w1) \<leftarrow> cache_lookup env cfg clk st w;
              (tree2, st2, w2) \<leftarrow> (if tree = 0 then query_loop env cfg clk sockfd stRequest sql key 0 st1 w1 else Some (tree, st1, w1));
              (if tree2 = 0 then st_destroy env st2 w2
               else do {
                 (rsp, h) \<leftarrow> KnvNode_GetStrVal tree2 (px_knv w2);
                 w3 \<leftarrow> SendResponse env sockfd stRequest 0 rsp (set_knv h w2);
                 st_destroy env st2 w3 }) })"

text \<open>What \<open>ParsePacket\<close> does with a message; \<open>Worker\<close> calls it for each packet of a connection.\<close>

definition handle_message ::
    "('d, 'k) px_env \<Rightarrow> PxConfig \<Rightarrow> px_clock \<Rightarrow> int \<Rightarrow> byte list \<Rightarrow> ('d, 'k) PxWorld \<Rightarrow> ('d, 'k) PxWorld option" where
  "handle_message env cfg clk sockfd msg w = do {
     (tree, h1) \<leftarrow> NewFromMessage msg 1 (px_knv w);
     (if tree = 0 then Some (set_knv h1 w)
      else do {
        (app, h2) \<leftarrow> GetFieldStr tree 1 h1;
        (sq, h3) \<leftarrow> GetFieldInt tree 2 h2;
        (cont, h4) \<leftarrow> GetFieldStr tree 11 h3;
        h5 \<leftarrow> KnvNode_Delete tree h4;
        let w1 = set_knv h5 w;
        let p = \<lparr>appname = app, appkey = [], sequence = sq, errnum = 0, content = cont\<rparr>;
        (case map_of (mapAppKeys cfg) app of
           None \<Rightarrow> let w2 = w1\<lparr>sMySQLError := c_str ''Unregistered appname '' @ app\<rparr>
                   in SendResponse env sockfd p 1 (sMySQLError w2) w2
         | Some k \<Rightarrow> ProcessRequest env cfg clk sockfd (p\<lparr>appkey := k\<rparr>) w1) }) }"

subsection \<open>Start-up and main loop\<close>

text \<open>The settings that \<open>TLib_Cfg_GetConfig\<close> reads, before \<open>ProxyInit\<close> corrects them.\<close>

record PxSettings =
  cf_keyfile :: "byte list option"
  cf_shm_key :: nat
  cf_shm_percent :: nat
  cf_shm_blocksize :: nat
  cf_max_keylen :: int
  cf_child_num :: int
  cf_cache_seconds :: int
  cf_send_limit :: int
  cf_min_interval :: int
  cf_ena_traffic :: int
  cf_charset :: "byte list"
  cf_log_debug :: bool

record PxLimits =
  iSendBytesLimit :: int
  iMinInterval :: int
  iEnaTraficCtrl :: int

definition clamp_limits :: "PxSettings \<Rightarrow> PxLimits" where
  "clamp_limits c =
     (let l1 = (if cf_send_limit c < 10000000 then 10000000 else cf_send_limit c);
          l2 = (if l1 > 500000000 then 500000000 else l1)
      in \<lparr>iSendBytesLimit = l2, iMinInterval = (if cf_min_interval c > 50 then 50 else cf_min_interval c),
          iEnaTraficCtrl = cf_ena_traffic c\<rparr>)"

text \<open>\<open>shm_open\<close>, \<open>shm_create\<close> and \<open>total_mem\<close> are as in \<open>InitWrite\<close>, \<open>get\<close> as in \<open>GetShm3\<close>; \<open>listenfd\<close> is the result of
  \<open>CreateListenSock\<close> and \<open>forked\<close> that of \<open>ForkChildren\<close>. The result is the descriptor, or -1, with the configuration.\<close>

definition ProxyInit ::
    "('d, 'k) px_env \<Rightarrow> (byte list \<Rightarrow> byte list) \<Rightarrow> (nat \<Rightarrow> (nat \<times> MhtMem option) option) \<Rightarrow>
     (nat \<Rightarrow> nat \<Rightarrow> bool \<Rightarrow> MhtBuffer option option) \<Rightarrow> nat \<Rightarrow> (bool \<Rightarrow> atomic_counter_t option) \<Rightarrow> int \<Rightarrow> int \<Rightarrow>
     PxSettings \<Rightarrow> ('d, 'k) PxWorld \<Rightarrow> int \<times> (PxConfig \<times> PxLimits) option \<times> ('d, 'k) PxWorld" where
  "ProxyInit env setparity shm_open shm_create total_mem get listenfd forked c w =
     (case LoadKeyFile setparity (cf_keyfile c) [] of (n, keys) \<Rightarrow>
        if n < 0 then (-1, None, w)
        else if keys = [] then (-1, None, w)
        else let maxkey = (if cf_max_keylen c < 128 then 128 else cf_max_keylen c)
        in case InitWrite shm_open shm_create total_mem (cf_shm_key c) (u8n (cf_shm_percent c)) (nat maxkey) 20 1 (cf_shm_blocksize c) False (px_st w) of
          (fd, sw) \<Rightarrow> let w1 = w\<lparr>px_st := sw\<rparr>
            in if fd < 0 then (-1, None, w1)
               else case atomic_counter_array_init get False 0 of
                 (_, None) \<Rightarrow> (-1, None, w1)
               | (_, Some ctr) \<Rightarrow>
                 let w2 = w1\<lparr>px_traffic := (px_traffic w1)\<lparr>stSendBytesCounter := ctr\<lparr>cIdx := 0\<rparr>\<rparr>\<rparr>;
                     cfg = \<lparr>mapAppKeys = keys, iShmMaxKeyLen = maxkey, iCacheValidSeconds = cf_cache_seconds c, iShmFd = nat fd,
                            sCharset = cf_charset c, bLogDebug = cf_log_debug c\<rparr>
                 in if listenfd < 0 then (-1, None, w2)
                    else case InitMySQL env cfg w2 of (mysql, w3) \<Rightarrow>
                      if mysql = 0 then (-1, None, w3)
                      else let w4 = (if cf_child_num c > 1 then RealFreeMySQL env mysql w3 else FreeMySQL mysql w3)
                      in if forked < 0 then (-1, None, w4) else (listenfd, Some (cfg, clamp_limits c), w4))"

text \<open>One round of the main loop: \<open>sel\<close> is the result of \<open>select\<close>, \<open>eintr\<close> says whether \<open>errno\<close> is \<open>EINTR\<close>, \<open>isset\<close> whether the
  listening socket is ready, and \<open>sock\<close> is the result of \<open>accept\<close>, which is only called when the socket is ready.\<close>

datatype main_action = NextRound | CloseSocket int | StartWorker int

definition main_round ::
    "PxLimits \<Rightarrow> timeval \<Rightarrow> int \<Rightarrow> bool \<Rightarrow> bool \<Rightarrow> int \<Rightarrow> TrafficState \<Rightarrow> main_action \<times> TrafficState" where
  "main_round lim now sel eintr isset sock s =
     (case (if iEnaTraficCtrl lim \<noteq> 0 then TrafficCtl (iMinInterval lim) (iSendBytesLimit lim) now s else (0, s)) of (r, s1) \<Rightarrow>
        let iClose = (r \<noteq> 0)
        in (if sel = 0 then NextRound
            else if sel < 0 \<and> eintr then NextRound
            else if \<not> isset then NextRound
            else if sock < 0 then NextRound
            else if iClose then CloseSocket sock
            else StartWorker sock, s1))"

section \<open>What a request can do\<close>

lemma set_knv_sel [simp]:
  "vstMySQLPool (set_knv h w) = vstMySQLPool w" "sMySQLError (set_knv h w) = sMySQLError w" "px_traffic (set_knv h w) = px_traffic w"
  "px_lock (set_knv h w) = px_lock w" "px_db (set_knv h w) = px_db w" "px_sent (set_knv h w) = px_sent w" "px_knv (set_knv h w) = h"
  "w_mht (px_st (set_knv h w)) = w_mht (px_st w)"
  by (simp_all add: set_knv_def)

lemma FreeMySQL_sel [simp]:
  "px_db (FreeMySQL m w) = px_db w" "px_sent (FreeMySQL m w) = px_sent w" "px_st (FreeMySQL m w) = px_st w" "px_lock (FreeMySQL m w) = px_lock w"
  by (simp_all add: FreeMySQL_def)

text \<open>A response changes the node heap and the traffic counters, and adds at most one packet, for this connection.\<close>

definition sent_one :: "int \<Rightarrow> ('d, 'k) PxWorld \<Rightarrow> ('d, 'k) PxWorld \<Rightarrow> bool" where
  "sent_one sockfd w w' \<longleftrightarrow> (\<exists>ps. px_sent w' = px_sent w @ map (Pair sockfd) ps \<and> length ps \<le> 1)"

lemma SendResponse_frame:
  assumes "SendResponse env sockfd req err c w = Some w'"
  shows "px_db w' = px_db w" "vstMySQLPool w' = vstMySQLPool w" "w_mht (px_st w') = w_mht (px_st w)" "sent_one sockfd w w'"
proof -
  obtain e d pk h where s: "response_content (e_ecb env) (appkey req) err c = (e, d)"
    "build_packet (appname req) (sequence req) e d (px_knv w) = Some (pk, h)"
    using assms by (auto simp: SendResponse_def split: prod.splits bind_splits)
  have w': "w' = (case pk of None \<Rightarrow> set_knv h w
      | Some rsp \<Rightarrow> (set_knv h w)\<lparr>px_traffic := ctl_send (of_nat (length rsp)) (px_traffic w), px_sent := px_sent w @ [(sockfd, rsp)]\<rparr>)"
    using assms s by (simp add: SendResponse_def Let_def split: option.splits)
  show "px_db w' = px_db w" "vstMySQLPool w' = vstMySQLPool w" "w_mht (px_st w') = w_mht (px_st w)"
    by (simp_all add: w' split: option.split)
  show "sent_one sockfd w w'"
    unfolding sent_one_def by (rule exI [of _ "case pk of None \<Rightarrow> [] | Some rsp \<Rightarrow> [rsp]"]) (simp add: w' split: option.split)
qed

text \<open>It returns, whatever other trees are in use, and sends the packet with the fields of the response.\<close>

lemma SendResponse_ok:
  assumes "pool_ok (px_knv w) L" "length (appname req) < 65536" "response_content (e_ecb env) (appkey req) err c = (e, d)" "length d < 2 ^ 30"
  shows "\<exists>w'. SendResponse env sockfd req err c w = Some w' \<and> pool_ok (px_knv w') L \<and> (\<forall>q \<in> L. nd (px_knv w') q = nd (px_knv w) q) \<and>
    sMySQLError w' = sMySQLError w \<and>
    px_sent w' = px_sent w @ [(sockfd, frame (fields_bytes (packet_fields (appname req) (sequence req) e d)))]"
proof -
  obtain h where "build_packet (appname req) (sequence req) e d (px_knv w) = Some (Some (frame (fields_bytes (packet_fields (appname req) (sequence req) e d))), h)"
    "pool_ok h L" "\<forall>q \<in> L. nd h q = nd (px_knv w) q"
    using build_packet_ok [OF assms(1,2,4), of "sequence req" e] by blast
  then show ?thesis using assms(3) by (simp add: SendResponse_def Let_def)
qed

lemma refusal_content [simp]: "err \<noteq> 0 \<Longrightarrow> response_content ecb key err c = (of_int err, c)"
  by (simp add: response_content_def)

lemma InitMySQL_sel [simp]:
  "px_sent (snd (InitMySQL env cfg w)) = px_sent w" "px_st (snd (InitMySQL env cfg w)) = px_st w"
  "vstMySQLPool (snd (InitMySQL env cfg w)) = vstMySQLPool w"
  by (simp_all add: InitMySQL_def split: prod.split)

lemma AllocMySQL_sel [simp]:
  "px_sent (snd (AllocMySQL env cfg w)) = px_sent w" "px_st (snd (AllocMySQL env cfg w)) = px_st w"
  by (simp_all add: AllocMySQL_def Let_def split: prod.split option.split)

lemma query_failed_sel [simp]:
  "px_sent (snd (query_failed env what m w)) = px_sent w" "px_st (snd (query_failed env what m w)) = px_st w"
  by (simp_all add: query_failed_def Let_def RealFreeMySQL_def)

lemma cache_lookup_frame:
  assumes "cache_lookup env cfg clk st w = Some (tree, st1, w1)"
  shows "px_db w1 = px_db w" "px_sent w1 = px_sent w" "vstMySQLPool w1 = vstMySQLPool w"
  using assms by (auto simp: cache_lookup_def Let_def split: bind_splits if_splits)

lemma cache_store_frame:
  assumes "cache_store env clk tree st w = Some (st1, w1)"
  shows "px_db w1 = px_db w" "px_sent w1 = px_sent w"
  using assms by (auto simp: cache_store_def split: bind_splits prod.splits if_splits)

lemma st_destroy_frame:
  assumes "st_destroy env st w = Some w1"
  shows "px_db w1 = px_db w" "px_sent w1 = px_sent w" "vstMySQLPool w1 = vstMySQLPool w"
  using assms by (auto simp: st_destroy_def)

text \<open>The database library with a log of the statements that were sent to it.\<close>

definition logged :: "('d, 'k) px_env \<Rightarrow> ('d \<times> byte list list, 'k) px_env" where
  "logged env = \<lparr>e_ecb = e_ecb env, e_malloc = e_malloc env, e_free_dyn = e_free_dyn env, e_open = e_open env, e_flock = e_flock env,
     e_knv_msg = e_knv_msg env,
     my_init = (\<lambda>(d, l). case my_init env d of (m, d1) \<Rightarrow> (m, (d1, l))),
     my_connect = (\<lambda>m (d, l). case my_connect env m d of (ok, d1) \<Rightarrow> (ok, (d1, l))),
     my_charset = (\<lambda>m (d, l). (my_charset env m d, l)),
     my_query = (\<lambda>m q (d, l). case my_query env m q d of (r, d1) \<Rightarrow> (r, (d1, l @ [q]))),
     my_store = (\<lambda>m (d, l). case my_store env m d of (r, d1) \<Rightarrow> (r, (d1, l))),
     my_errno = (\<lambda>m (d, l). my_errno env m d), my_error = (\<lambda>m (d, l). my_error env m d),
     my_close = (\<lambda>m (d, l). (my_close env m d, l)), my_server_error = my_server_error env\<rparr>"

abbreviation q_log :: "('d \<times> byte list list, 'k) PxWorld \<Rightarrow> byte list list" where
  "q_log w \<equiv> snd (px_db w)"

lemma logged_steps [simp]:
  "snd (snd (my_init (logged env) d)) = snd d" "snd (snd (my_connect (logged env) m d)) = snd d" "snd (my_charset (logged env) m d) = snd d"
  "snd (snd (my_query (logged env) m q d)) = snd d @ [q]" "snd (snd (my_store (logged env) m d)) = snd d" "snd (my_close (logged env) m d) = snd d"
  "e_ecb (logged env) = e_ecb env"
  by (simp_all add: logged_def split: prod.split)

lemma AllocMySQL_log: "q_log (snd (AllocMySQL (logged env) cfg w)) = q_log w"
proof -
  have "q_log (snd (InitMySQL (logged env) cfg w)) = q_log w" for w
    using logged_steps(1) [of env "px_db w"] logged_steps(2) [of env "fst (my_init (logged env) (px_db w))" "snd (my_init (logged env) (px_db w))"]
    by (simp add: InitMySQL_def split_beta)
  from this [of "w\<lparr>vstMySQLPool := q\<rparr>" for q] show ?thesis by (simp add: AllocMySQL_def Let_def split: prod.split option.split)
qed

lemma query_failed_log: "q_log (snd (query_failed (logged env) what m w)) = q_log w"
  by (simp add: query_failed_def Let_def RealFreeMySQL_def)

definition queried :: "byte list \<Rightarrow> nat \<Rightarrow> int \<Rightarrow> bool \<Rightarrow> ('d \<times> byte list list, 'k) PxWorld \<Rightarrow> ('d \<times> byte list list, 'k) PxWorld \<Rightarrow> bool" where
  "queried q n sockfd silent w w' \<longleftrightarrow>
     (\<exists>k \<le> n. q_log w' = q_log w @ replicate k q) \<and> (if silent then px_sent w' = px_sent w else sent_one sockfd w w')"

lemma sent_one_trans: "px_sent w1 = px_sent w \<Longrightarrow> sent_one s w1 w2 \<Longrightarrow> sent_one s w w2"
  by (simp add: sent_one_def)

lemma queried_more:
  assumes "q_log v = q_log w @ [q]" "px_sent v = px_sent w" "queried q n sockfd silent v w'"
  shows "queried q (n + 1) sockfd silent w w'"
proof -
  obtain k where "k \<le> n" "q_log w' = q_log v @ replicate k q" using assms(3) by (auto simp: queried_def)
  then have "Suc k \<le> n + 1 \<and> q_log w' = q_log w @ replicate (Suc k) q" using assms(1) by simp
  then show ?thesis using assms(2,3) unfolding queried_def sent_one_def by metis
qed

lemma SendResponse_queried:
  assumes "SendResponse env sockfd req err c v = Some w'" "px_sent v = px_sent w" "q_log v = q_log w"
  shows "queried q n sockfd False w w'"
  using SendResponse_frame(1,4) [OF assms(1)] assms(2,3) by (auto simp: queried_def sent_one_def intro: exI [of _ 0])

lemma query_loop_log:
  assumes "query_loop (logged env) cfg clk sockfd req sql key n st w = Some (tree, st1, w1)" "n \<le> max_try_num"
  shows "queried (sql_text sql) (max_try_num + 1 - n) sockfd (tree \<noteq> 0) w w1"
  using assms
proof (induction "max_try_num - n" arbitrary: n w rule: less_induct)
  case less
  let ?e = "logged env" and ?q = "sql_text sql"
  have n: "max_try_num + 1 - n = max_try_num - n + 1" using less.prems(2) by simp
  obtain mysql w2 where A: "AllocMySQL ?e cfg w = (mysql, w2)" by (cases "AllocMySQL ?e cfg w")
  have l2: "q_log w2 = q_log w" "px_sent w2 = px_sent w" using AllocMySQL_log [of env cfg w] AllocMySQL_sel(1) [of ?e cfg w] A by simp_all
  note run = less.prems(1) [unfolded query_loop.simps [of ?e cfg clk sockfd req sql key n st w] A split_conv]
  show ?case
  proof (cases "mysql = 0")
    case True
    then show ?thesis using run SendResponse_queried [OF _ l2(2,1)] by auto
  next
    case False
    obtain iRet db1 where Q: "my_query ?e mysql ?q (px_db w2) = (iRet, db1)" by (cases "my_query ?e mysql ?q (px_db w2)")
    have l3: "snd db1 = q_log w @ [?q]" using logged_steps(4) [of env mysql ?q "px_db w2"] Q l2(1) by simp
    obtain res db2 where R: "my_store ?e mysql db1 = (res, db2)" by (cases "my_store ?e mysql db1")
    have l4: "snd db2 = q_log w @ [?q]" using logged_steps(5) [of env mysql db1] R l3 by simp
    have fail: "queried ?q (max_try_num - n + 1) sockfd (tree \<noteq> 0) w w1"
      if l: "q_log v = q_log w @ [?q]" "px_sent v = px_sent w" and f: "query_failed ?e what mysql v = (err, v1)"
        and run: "(if conn_error err \<and> n < max_try_num then query_loop ?e cfg clk sockfd req sql key (n + 1) st v1
           else map_option (\<lambda>w4. (0, st, w4)) (SendResponse ?e sockfd req err (sMySQLError v1) v1)) = Some (tree, st1, w1)" for what err v v1
    proof (rule queried_more [of v1])
      show lv: "q_log v1 = q_log w @ [?q]" "px_sent v1 = px_sent w"
        using query_failed_log [of env what mysql v] query_failed_sel(1) [of ?e what mysql v] f l by simp_all
      show "queried ?q (max_try_num - n) sockfd (tree \<noteq> 0) v1 w1"
      proof (cases "conn_error err \<and> n < max_try_num")
        case True
        then show ?thesis using less.hyps [of "n + 1" v1] run by (simp add: diff_less_mono2)
      next
        case False
        then have "tree = 0 \<and> SendResponse ?e sockfd req err (sMySQLError v1) v1 = Some w1" using run by auto
        then show ?thesis using SendResponse_queried [of ?e sockfd req err "sMySQLError v1" v1 w1 v1] by simp
      qed
    qed
    show ?thesis
    proof (cases "iRet < 0")
      case True
      obtain err w3 where F: "query_failed ?e ''mysql_query failed: '' mysql (w2\<lparr>px_db := db1\<rparr>) = (err, w3)" by (cases "query_failed ?e ''mysql_query failed: '' mysql (w2\<lparr>px_db := db1\<rparr>)")
      show ?thesis unfolding n by (rule fail [OF _ _ F]) (use run False Q True F l2 l3 in \<open>simp_all add: Let_def\<close>)
    next
      case nf: False
      show ?thesis
      proof (cases res)
        case None
        obtain err w3 where F: "query_failed ?e ''mysql_store_result failed: '' mysql (w2\<lparr>px_db := db2\<rparr>) = (err, w3)"
          by (cases "query_failed ?e ''mysql_store_result failed: '' mysql (w2\<lparr>px_db := db2\<rparr>)")
        show ?thesis unfolding n by (rule fail [OF _ _ F]) (use run False Q nf R None F l2 l4 in \<open>simp_all add: Let_def\<close>)
      next
        case (Some result)
        obtain tr msg h where P: "PackResult (bLogDebug cfg) (t_pack clk) result key (px_knv w2) = Some (tr, msg, h)"
          using run False Q nf R Some by (auto simp: Let_def split: bind_splits)
        let ?w4 = "FreeMySQL mysql (set_knv h (w2\<lparr>px_db := db2\<rparr>))"
        have l5: "q_log ?w4 = q_log w @ [?q]" "px_sent ?w4 = px_sent w" using l4 l2 by simp_all
        show ?thesis
        proof (cases "tr = 0")
          case True
          then have "tree = 0" "\<exists>c. SendResponse ?e sockfd req CR_OUT_OF_MEMORY c (?w4\<lparr>sMySQLError := c\<rparr>) = Some w1"
            using run False Q nf R Some P by (auto simp: Let_def)
          then obtain c where "tree = 0" "SendResponse ?e sockfd req CR_OUT_OF_MEMORY c (?w4\<lparr>sMySQLError := c\<rparr>) = Some w1" by blast
          then have "queried ?q (max_try_num - n) sockfd (tree \<noteq> 0) ?w4 w1" using SendResponse_queried [of ?e sockfd req CR_OUT_OF_MEMORY c _ w1 ?w4] by simp
          then show ?thesis unfolding n using l5 by (rule_tac queried_more)
        next
          case tr: False
          then have "tree = tr" "cache_store ?e clk tr st ?w4 = Some (st1, w1)"
            using run False Q nf R Some P by (auto simp: Let_def split: bind_splits)
          then have "queried ?q (max_try_num - n) sockfd (tree \<noteq> 0) ?w4 w1"
            using cache_store_frame [of ?e clk tr st ?w4 st1 w1] tr by (simp add: queried_def)
          then show ?thesis unfolding n using l5 by (rule_tac queried_more)
        qed
      qed
    qed
  qed
qed

abbreviation request_sql :: "('d, 'k) px_env \<Rightarrow> ProxyPacket \<Rightarrow> byte list" where
  "request_sql env req \<equiv> Decrypt (e_ecb env) (appkey req) (content req)"

text \<open>The two ways of a request.\<close>

lemma request_refused:
  assumes "request_sql env req = [] \<or> \<not> allowed_sql (skip_spaces (request_sql env req))"
  obtains m where "ProcessRequest env cfg clk sockfd req w = SendResponse env sockfd req 1 m (w\<lparr>sMySQLError := m\<rparr>)" "length m < 1000"
proof (cases "request_sql env req = []")
  case True
  then have "ProcessRequest env cfg clk sockfd req w = SendResponse env sockfd req 1 (c_str ''Unauthorized request'') (w\<lparr>sMySQLError := c_str ''Unauthorized request''\<rparr>)"
    by (simp add: ProcessRequest_def Let_def)
  then show thesis by (rule that) (simp add: c_str_def)
next
  case False
  let ?m = "c_str ''statement not starting with SELECT/SHOW/DESC is not supperted.''"
  have "ProcessRequest env cfg clk sockfd req w = SendResponse env sockfd req 1 ?m (w\<lparr>sMySQLError := ?m\<rparr>)"
    using assms False by (simp add: ProcessRequest_def Let_def)
  then show thesis by (rule that) (simp add: c_str_def)
qed

lemma request_run:
  assumes "request_sql env req \<noteq> []" "allowed_sql (skip_spaces (request_sql env req))"
    "key = str_key (GetReqHashKey cfg (skip_spaces (request_sql env req)))"
  shows "ProcessRequest env cfg clk sockfd req w = do {
      (tree, st1, w1) \<leftarrow> cache_lookup env cfg clk (UcStorage_new (iShmFd cfg) key) w;
      (tree2, st2, w2) \<leftarrow> (if tree = 0 then query_loop env cfg clk sockfd req (skip_spaces (request_sql env req)) key 0 st1 w1 else Some (tree, st1, w1));
      (if tree2 = 0 then st_destroy env st2 w2
       else do {
         (rsp, h) \<leftarrow> KnvNode_GetStrVal tree2 (px_knv w2);
         w3 \<leftarrow> SendResponse env sockfd req 0 rsp (set_knv h w2);
         st_destroy env st2 w3 }) }"
  using assms(1,2) unfolding assms(3) by (simp add: ProcessRequest_def Let_def)

text \<open>(C1) The database sees only the decrypted statement of a registered client, and only if it reads. Whatever the libraries
  do, every statement that a request sends to the database is the same one, the decrypted content without leading white space
  up to its first NUL; it is sent at most eleven times; it is not sent at all unless the content decrypts and begins with
  select, show or desc. And the request is answered at most once, on its own connection.\<close>

theorem ProcessRequest_effects:
  assumes "ProcessRequest (logged env) cfg clk sockfd req w = Some w'"
  shows "\<exists>k. q_log w' = q_log w @ replicate k (sql_text (skip_spaces (request_sql env req))) \<and> k \<le> max_try_num + 1 \<and>
    (k \<noteq> 0 \<longrightarrow> request_sql env req \<noteq> [] \<and> allowed_sql (skip_spaces (request_sql env req))) \<and> sent_one sockfd w w'"
proof (cases "request_sql (logged env) req = [] \<or> \<not> allowed_sql (skip_spaces (request_sql (logged env) req))")
  case True
  then obtain m where m: "SendResponse (logged env) sockfd req 1 m (w\<lparr>sMySQLError := m\<rparr>) = Some w'" using request_refused [OF True, of cfg clk sockfd w] assms by metis
  show ?thesis using SendResponse_frame(1,4) [OF m] by (intro exI [of _ 0]) (simp add: sent_one_def)
next
  case False
  let ?e = "logged env" and ?r = "request_sql (logged env) req"
  let ?q = "sql_text (skip_spaces ?r)" and ?key = "str_key (GetReqHashKey cfg (skip_spaces ?r))"
  have run: "?r \<noteq> []" "allowed_sql (skip_spaces ?r)" using False by simp_all
  note R = assms [unfolded request_run [OF run refl]]
  obtain tree st1 w1 where C: "cache_lookup ?e cfg clk (UcStorage_new (iShmFd cfg) ?key) w = Some (tree, st1, w1)"
    using R by (auto split: bind_splits)
  obtain tree2 st2 w2 where L: "(if tree = 0 then query_loop ?e cfg clk sockfd req (skip_spaces ?r) ?key 0 st1 w1 else Some (tree, st1, w1)) = Some (tree2, st2, w2)"
    using R unfolding C by (auto split: bind_splits)
  have q: "queried ?q (max_try_num + 1) sockfd (tree2 \<noteq> 0) w1 w2"
    using L query_loop_log [of env cfg clk sockfd req "skip_spaces ?r" ?key 0 st1 w1 tree2 st2 w2]
    by (cases "tree = 0") (auto simp: queried_def intro: exI [of _ 0])
  have "queried ?q (max_try_num + 1) sockfd False w1 w'"
  proof (cases "tree2 = 0")
    case True
    then have "st_destroy ?e st2 w2 = Some w'" using R unfolding C by (simp add: L)
    then show ?thesis using q True st_destroy_frame(1,2) [of ?e st2 w2 w'] by (simp add: queried_def sent_one_def)
  next
    case False
    then obtain rsp h w3 where "SendResponse ?e sockfd req 0 rsp (set_knv h w2) = Some w3" "st_destroy ?e st2 w3 = Some w'"
      using R unfolding C by (auto simp: L split: bind_splits)
    then show ?thesis
      using q False SendResponse_frame(1,4) [of ?e sockfd req 0 rsp "set_knv h w2" w3] st_destroy_frame(1,2) [of ?e st2 w3 w']
      by (simp add: queried_def sent_one_def)
  qed
  then show ?thesis using run cache_lookup_frame(1,2) [OF C] by (auto simp: queried_def sent_one_def)
qed

text \<open>A server without a cache, whose database refuses the statement.\<close>

definition demo_env :: "(unit, unit) px_env" where
  "demo_env = \<lparr>e_ecb = (\<lambda>_ d _. (0, d)), e_malloc = (\<lambda>_. True), e_free_dyn = id, e_open = 5, e_flock = (\<lambda>_ _ k. (0, k)), e_knv_msg = [],
     my_init = (\<lambda>d. (1, d)), my_connect = (\<lambda>_ d. (True, d)), my_charset = (\<lambda>_ d. d), my_query = (\<lambda>_ _ d. (-1, d)),
     my_store = (\<lambda>_ d. (None, d)), my_errno = (\<lambda>_ _. 1064), my_error = (\<lambda>_ _. [63]), my_close = (\<lambda>_ d. d), my_server_error = (\<lambda>_. True)\<rparr>"

definition demo_cfg :: PxConfig where
  "demo_cfg = \<lparr>mapAppKeys = [([97], [1])], iShmMaxKeyLen = 128, iCacheValidSeconds = 60, iShmFd = 0, sCharset = [], bLogDebug = False\<rparr>"

definition demo_clk :: px_clock where
  "demo_clk = \<lparr>t_read = 1, t_check = 1, t_pack = 1, t_write = 1\<rparr>"

definition demo_req :: "byte list \<Rightarrow> ProxyPacket" where
  "demo_req c = \<lparr>appname = [97], appkey = [1], sequence = 1, errnum = 0, content = c\<rparr>"

definition demo_world :: "'d \<Rightarrow> ('d, unit) PxWorld" where
  "demo_world d = \<lparr>px_st = st_world 5 None knv_empty, vstMySQLPool = [], sMySQLError = [],
     px_traffic = \<lparr>stSendBytesCounter = counter_zero, tvTime = []\<rparr>, px_lock = (), px_db = d, px_sent = []\<rparr>"

text \<open>The statement \<open>show\<close>, with its length in front.\<close>

abbreviation demo_show :: "byte list" where
  "demo_show \<equiv> [4, 0, 0, 0, 115, 104, 111, 119]"

lemma demo_show_sql: "request_sql demo_env (demo_req demo_show) = [115, 104, 111, 119]"
proof -
  have "decrypt_loop (\<lambda>_ d _. (0, d)) [1] demo_show [] = Some demo_show"
    by (simp add: decrypt_loop.simps s32_def max_encrypt_length_def DES_FAILED_def)
  then show ?thesis by (simp add: demo_env_def demo_req_def Decrypt_def Let_def)
qed

lemma demo_run:
  "\<exists>w'. ProcessRequest (logged demo_env) demo_cfg demo_clk 7 (demo_req demo_show) (demo_world ((), [])) = Some w'"
proof -
  let ?e = "logged demo_env" and ?sql = "[115, 104, 111, 119] :: byte list" and ?w = "demo_world ((), [] :: byte list list)"
  have sql: "request_sql ?e (demo_req demo_show) = ?sql" using demo_show_sql by simp
  have ok: "skip_spaces ?sql = ?sql" "allowed_sql ?sql"
    by (simp_all add: skip_spaces_def c_isspace_def allowed_sql_def starts_with_def c_tolower_def c_str_def)
  let ?key = "str_key ?sql" and ?st = "UcStorage_new 0 (str_key ?sql)"
  have key: "GetReqHashKey demo_cfg ?sql = ?sql" by (simp add: GetReqHashKey_def demo_cfg_def)
  have sw: "w_mht (px_st ?w) = (\<lambda>_. None)" "px_knv ?w = knv_empty" by (simp_all add: demo_world_def st_world_def)
  have "\<exists>sw. st_Read (\<lambda>_. True) id 1 ?st (px_st ?w) = Some (-2, ?st, sw) \<and> w_knv sw = knv_empty"
    by (simp add: st_Read_def ReadCache_def read_table_def mht_GetData_def demo_world_def st_world_def UcStorage_new_def key_GetData_def
        str_key_def key_GetValue_def key_init_def)
  then obtain sw where R: "st_Read (\<lambda>_. True) id 1 ?st (px_st ?w) = Some (-2, ?st, sw)" "w_knv sw = knv_empty" by blast
  let ?w1 = "?w\<lparr>px_st := sw\<rparr>"
  have C: "cache_lookup ?e demo_cfg demo_clk ?st ?w = Some (0, ?st, ?w1)"
    using R(1) by (simp add: cache_lookup_def demo_env_def logged_def demo_clk_def)
  let ?err = "c_str ''mysql_query failed: '' @ [63]"
  let ?w2 = "?w1\<lparr>px_db := ((), [?sql]), sMySQLError := ?err, vstMySQLPool := [1]\<rparr>"
  have A: "AllocMySQL ?e demo_cfg ?w1 = (1, ?w1)"
    by (simp add: AllocMySQL_def queue_Get_def InitMySQL_def demo_env_def logged_def demo_cfg_def demo_world_def)
  have F: "query_failed ?e ''mysql_query failed: '' 1 (?w1\<lparr>px_db := ((), [?sql])\<rparr>) = (1064, ?w2)"
    by (simp add: query_failed_def demo_env_def logged_def FreeMySQL_def queue_Put_def demo_world_def)
  have Q: "my_query ?e 1 ?sql (px_db ?w1) = (-1, ((), [?sql]))" by (simp add: demo_env_def logged_def demo_world_def)
  obtain w3 where S: "SendResponse ?e 7 (demo_req demo_show) 1064 ?err ?w2 = Some w3"
    using SendResponse_ok [of ?w2 "{}" "demo_req demo_show" ?e 1064 ?err 1064 ?err 7] R(2) empty_pool by (auto simp: demo_req_def c_str_def)
  have "query_loop ?e demo_cfg demo_clk 7 (demo_req demo_show) ?sql ?key 0 ?st ?w1 = Some (0, ?st, w3)"
    using A F Q S by (subst query_loop.simps) (simp add: sql_text_def conn_error_def Let_def del: One_nat_def)
  moreover have "\<exists>w4. st_destroy ?e ?st w3 = Some w4" by (simp add: st_destroy_def st_Delete_def UcStorage_new_def)
  ultimately show ?thesis
    using C sql ok key by (simp add: request_run [OF _ _ refl] demo_cfg_def del: logged_steps)
qed

theorem ProcessRequest_effects_witness:
  "\<exists>w' k. ProcessRequest (logged demo_env) demo_cfg demo_clk 7 (demo_req demo_show) (demo_world ((), [])) = Some w' \<and>
    q_log w' = replicate k [115, 104, 111, 119] \<and> k \<le> 11 \<and> length (px_sent w') \<le> 1"
proof -
  obtain w' where w: "ProcessRequest (logged demo_env) demo_cfg demo_clk 7 (demo_req demo_show) (demo_world ((), [])) = Some w'" using demo_run by blast
  have "sql_text (skip_spaces (request_sql demo_env (demo_req demo_show))) = [115, 104, 111, 119]"
    by (simp add: demo_show_sql sql_text_def skip_spaces_def c_isspace_def)
  then show ?thesis
    using ProcessRequest_effects [OF w] w by (auto simp: sent_one_def demo_world_def max_try_num_def)
qed

lemma ProcessRequest_refused:
  assumes "request_sql env req = [] \<or> \<not> allowed_sql (skip_spaces (request_sql env req))" "pool_ok (px_knv w) L" "length (appname req) < 65536"
  shows "\<exists>w'. ProcessRequest env cfg clk sockfd req w = Some w' \<and> pool_ok (px_knv w') L \<and>
    px_db w' = px_db w \<and> w_mht (px_st w') = w_mht (px_st w) \<and> vstMySQLPool w' = vstMySQLPool w \<and>
    px_sent w' = px_sent w @ [(sockfd, frame (fields_bytes (packet_fields (appname req) (sequence req) 1 (sMySQLError w'))))] \<and> length (sMySQLError w') < 1000"
proof -
  obtain m where m: "ProcessRequest env cfg clk sockfd req w = SendResponse env sockfd req 1 m (w\<lparr>sMySQLError := m\<rparr>)" "length m < 1000"
    using request_refused [OF assms(1)] by metis
  obtain w' where w': "SendResponse env sockfd req 1 m (w\<lparr>sMySQLError := m\<rparr>) = Some w'" "pool_ok (px_knv w') L" "sMySQLError w' = m"
    "px_sent w' = px_sent w @ [(sockfd, frame (fields_bytes (packet_fields (appname req) (sequence req) 1 m)))]"
    using SendResponse_ok [of "w\<lparr>sMySQLError := m\<rparr>" L req env 1 m 1 m sockfd] assms(2,3) m(2) by auto
  show ?thesis using m w' SendResponse_frame(1-3) [OF w'(1)] by simp
qed

text \<open>The handler on the packet that a client builds.\<close>

lemma handle_message_packet:
  assumes "pool_ok (px_knv w) L" "length app < 65536" "length cont < 2 ^ 30"
  shows "\<exists>h'. pool_ok h' L \<and> (\<forall>q \<in> L. nd h' q = nd (px_knv w) q) \<and>
    handle_message env cfg clk sockfd (fields_bytes (packet_fields app sq err cont)) w =
      (case map_of (mapAppKeys cfg) app of
         None \<Rightarrow> SendResponse env sockfd \<lparr>appname = app, appkey = [], sequence = sq, errnum = 0, content = cont\<rparr> 1 (c_str ''Unregistered appname '' @ app)
                   ((set_knv h' w)\<lparr>sMySQLError := c_str ''Unregistered appname '' @ app\<rparr>)
       | Some k \<Rightarrow> ProcessRequest env cfg clk sockfd \<lparr>appname = app, appkey = k, sequence = sq, errnum = 0, content = cont\<rparr> (set_knv h' w))"
proof -
  obtain fs where fs: "msg_fields (fields_bytes (packet_fields app sq err cont)) = Some fs" "fs \<noteq> []"
    "length (fields_bytes (packet_fields app sq err cont)) < 2 ^ 31" "length (filter (\<lambda>(u, _). u = 11) fs) \<le> 1"
    "field_str (last_field 1 fs) = app" "field_int (last_field 2 fs) = sq" "field_str (last_field 11 fs) = cont"
    using packet_decode [OF assms(2,3), of sq err] by (elim exE conjE)
  obtain n h1 h2 h3 where "NewFromMessage (fields_bytes (packet_fields app sq err cont)) 1 (px_knv w) = Some (n, h1)" "n \<noteq> 0"
    "GetFieldStr n 1 h1 = Some (app, h2)" "GetFieldInt n 2 h2 = Some (sq, h2)"
    "GetFieldStr n 11 h2 = Some (cont, h2)" "KnvNode_Delete n h2 = Some h3" "pool_ok h3 L" "\<forall>q \<in> L. nd h3 q = nd (px_knv w) q"
    using packet_read [OF assms(1) fs(1-4), unfolded fs(5-7)] by (elim exE conjE)
  then show ?thesis
    by (intro exI [of _ h3]) (simp add: handle_message_def Let_def split: option.split)
qed

text \<open>(C5) A request that does not decrypt, or does not begin with select, show or desc, reaches neither the database nor the
  cache. Whatever trees are in use, the request is answered: one packet goes out, with the name and the sequence number of the
  request, error 1 and the error text; the connections, the cache and the database state are the same as before.\<close>

theorem ProcessRequest_refuses:
  assumes "request_sql env req = [] \<or> \<not> allowed_sql (skip_spaces (request_sql env req))" "pool_ok (px_knv w) L" "length (appname req) < 65536"
  shows "\<exists>w'. ProcessRequest env cfg clk sockfd req w = Some w' \<and> pool_ok (px_knv w') L \<and>
    px_db w' = px_db w \<and> w_mht (px_st w') = w_mht (px_st w) \<and> vstMySQLPool w' = vstMySQLPool w \<and>
    px_sent w' = px_sent w @ [(sockfd, frame (fields_bytes (packet_fields (appname req) (sequence req) 1 (sMySQLError w'))))]"
  using ProcessRequest_refused [OF assms] by blast

theorem ProcessRequest_refuses_witness:
  "\<exists>w'. ProcessRequest demo_env demo_cfg demo_clk 7 (demo_req [4, 0, 0, 0, 100, 114, 111, 112]) (demo_world ()) = Some w' \<and>
    px_sent w' = [(7, frame (fields_bytes (packet_fields [97] 1 1 (sMySQLError w'))))]"
proof -
  let ?r = "demo_req [4, 0, 0, 0, 100, 114, 111, 112]"
  have "decrypt_loop (\<lambda>_ d _. (0, d)) [1] [4, 0, 0, 0, 100, 114, 111, 112] [] = Some [4, 0, 0, 0, 100, 114, 111, 112]"
    by (simp add: decrypt_loop.simps s32_def max_encrypt_length_def DES_FAILED_def)
  then have "request_sql demo_env ?r = [100, 114, 111, 112]" by (simp add: demo_env_def demo_req_def Decrypt_def Let_def)
  then have "\<not> allowed_sql (skip_spaces (request_sql demo_env ?r))"
    by (simp add: skip_spaces_def c_isspace_def allowed_sql_def starts_with_def c_tolower_def c_str_def)
  moreover have "pool_ok (px_knv (demo_world ())) {}" using empty_pool by (simp add: demo_world_def st_world_def)
  moreover have "length (appname ?r) < 65536" by (simp add: demo_req_def)
  ultimately show ?thesis
    using ProcessRequest_refuses [of demo_env ?r "demo_world ()" "{}" demo_cfg demo_clk 7] by (auto simp: demo_req_def demo_world_def)
qed

text \<open>Different statements share a cache entry. Two requests of the same client whose statements agree in their first
  \<open>iShmMaxKeyLen - 32\<close> bytes are treated alike as long as the entry is valid: the second one is answered with the result of the
  first statement, byte for byte, and the database is not asked.\<close>

theorem cache_confusion:
  assumes "sql1 = request_sql env req" "sql2 = request_sql env (req\<lparr>content := content2\<rparr>)"
    "sql1 \<noteq> []" "sql2 \<noteq> []" "allowed_sql (skip_spaces sql1)" "allowed_sql (skip_spaces sql2)"
    "iShmMaxKeyLen cfg - 32 \<le> int (length (skip_spaces sql1))" "iShmMaxKeyLen cfg - 32 \<le> int (length (skip_spaces sql2))"
    "take (nat (iShmMaxKeyLen cfg - 32)) (skip_spaces sql1) = take (nat (iShmMaxKeyLen cfg - 32)) (skip_spaces sql2)"
    "cache_lookup env cfg clk (UcStorage_new (iShmFd cfg) (str_key (GetReqHashKey cfg (skip_spaces sql1)))) w = Some (tree, st1, w1)" "tree \<noteq> 0"
  shows "ProcessRequest env cfg clk sockfd (req\<lparr>content := content2\<rparr>) w = ProcessRequest env cfg clk sockfd req w \<and>
    (\<forall>w'. ProcessRequest env cfg clk sockfd req w = Some w' \<longrightarrow> px_db w' = px_db w)"
proof -
  have k: "GetReqHashKey cfg (skip_spaces sql2) = GetReqHashKey cfg (skip_spaces sql1)" using assms(7-9) by (simp add: GetReqHashKey_def)
  have s: "SendResponse env sockfd (req\<lparr>content := content2\<rparr>) e c v = SendResponse env sockfd req e c v" for e c v
    by (simp add: SendResponse_def)
  note R1 = request_run [of env req, OF assms(3,5) [unfolded assms(1)] refl, folded assms(1)]
    and R2 = request_run [of env "req\<lparr>content := content2\<rparr>", OF assms(4,6) [unfolded assms(2)] refl, folded assms(2)]
  have e: "ProcessRequest env cfg clk sockfd (req\<lparr>content := content2\<rparr>) w = ProcessRequest env cfg clk sockfd req w"
    unfolding R1 R2 k s using assms(11) by (simp add: assms(10))
  have "px_db w' = px_db w" if r: "ProcessRequest env cfg clk sockfd req w = Some w'" for w'
  proof -
    obtain rsp h w3 where "SendResponse env sockfd req 0 rsp (set_knv h w1) = Some w3" "st_destroy env st1 w3 = Some w'"
      using r [unfolded R1] assms(11) by (auto simp: assms(10) split: bind_splits)
    then show ?thesis
      using SendResponse_frame(1) [of env sockfd req 0 rsp "set_knv h w1" w3] st_destroy_frame(1) [of env st1 w3 w'] cache_lookup_frame(1) [OF assms(10)] by simp
  qed
  with e show ?thesis by blast
qed

end
