(* ===== verification/Proxy_Api.thy ===== *)
theory Proxy_Api
  imports Proxy_Server
begin

text \<open>
  The client library (\<open>mysql_proxy_api.cpp\<close>): connecting, sending a statement and receiving its response, and the access to
  the rows and fields of a result.

  A handle \<open>MYSQL\<close> is a record; a null pointer is \<open>None\<close>. The results of the socket calls are arguments. The texts of
  \<open>strerror\<close> and of the node library are the arguments \<open>strerr\<close> and \<open>knvmsg\<close>. The token and the header length of
  a packet are those of the server. \<open>current_row_field_num\<close> is the length of the list \<open>current_row_fields\<close>. The result of a call that
  needs a tree is \<open>None\<close> when an operation on the tree does not return.
\<close>

section \<open>Definitions\<close>

definition CR_SOCKET_CREATE_ERROR :: int where "CR_SOCKET_CREATE_ERROR = 2001"

definition CR_CONNECTION_ERROR :: int where "CR_CONNECTION_ERROR = 2002"

definition CR_SERVER_GONE_ERROR :: int where "CR_SERVER_GONE_ERROR = 2006"

definition CR_MALFORMED_PACKET :: int where "CR_MALFORMED_PACKET = 2027"

definition CR_NO_DATA :: int where "CR_NO_DATA = 2051"

definition ENOSYS :: int where "ENOSYS = 38"

definition MYSQL_PROXY_DEFAULT_PORT :: int where "MYSQL_PROXY_DEFAULT_PORT = 34765"

definition MAX_RESPONSE_PACKET_LENGTH :: nat where "MAX_RESPONSE_PACKET_LENGTH = 1024 * 1024 * 500"

record MYSQL_PROXY =
  sockfd :: int
  is_inner_created :: bool
  my_errnum :: int
  my_errmsg :: "byte list"
  my_appname :: "byte list"
  my_appkey :: "byte list"
  my_sequence :: u64
  timeout_ms :: int
  current_query_context :: nat

record ApiGlobals =
  g_errnum :: int
  g_errmsg :: "byte list"

text \<open>\<open>snprintf\<close> into \<open>errmsg[1024]\<close>.\<close>

definition set_error :: "int \<Rightarrow> byte list \<Rightarrow> MYSQL_PROXY \<Rightarrow> MYSQL_PROXY" where
  "set_error e msg my = my\<lparr>my_errnum := e, my_errmsg := take 1023 msg\<rparr>"

definition cstring :: "byte list \<Rightarrow> byte list" where
  "cstring bs = takeWhile (\<lambda>c. c \<noteq> 0) bs"

definition tostr :: "u64 \<Rightarrow> byte list" where
  "tostr i = dec_str (unat i)"

subsection \<open>Sockets\<close>

text \<open>\<open>conn\<close>, \<open>sel\<close> and \<open>opt\<close> are the results of \<open>connect\<close>, \<open>select\<close> and \<open>getsockopt\<close>; \<open>soerr\<close> is the pending error of the socket.\<close>

definition connect_in_time :: "int \<Rightarrow> int \<Rightarrow> bool \<Rightarrow> int \<Rightarrow> bool \<Rightarrow> int \<Rightarrow> int \<Rightarrow> int" where
  "connect_in_time timeout conn inprogress sel isset opt soerr =
     (if timeout \<le> 0 then conn
      else if conn = 0 then 0
      else if \<not> inprogress then -1
      else if sel > 0
      then if isset then if opt = -1 then -1 else if soerr \<noteq> 0 then -1 else 0 else -1
      else sel)"

definition send_in_time :: "int \<Rightarrow> int \<Rightarrow> bool \<Rightarrow> int \<Rightarrow> int" where
  "send_in_time timeout sel isset snt = (if timeout \<le> 0 then snt else if sel > 0 then if isset then snt else 0 else sel)"

text \<open>The data of a successful \<open>recv\<close> are non-empty; the other results are 0 and -1.\<close>

definition recv_in_time :: "int \<Rightarrow> int \<Rightarrow> bool \<Rightarrow> int \<Rightarrow> byte list \<Rightarrow> int \<times> byte list" where
  "recv_in_time timeout sel isset rcv data =
     (if timeout \<le> 0 then (rcv, data) else if sel > 0 then if isset then (rcv, data) else (0, []) else (sel, []))"

text \<open>\<open>sock\<close> is the result of \<open>socket\<close> and \<open>conn\<close> that of \<open>connect_in_time\<close>. The result has the sockets that were closed.\<close>

definition CreateConnection :: "byte list \<Rightarrow> int \<Rightarrow> int \<Rightarrow> int \<Rightarrow> byte list \<Rightarrow> ApiGlobals \<Rightarrow> int \<times> int list \<times> ApiGlobals" where
  "CreateConnection ip port sock conn strerr g =
     (let p = (if port = 0 then MYSQL_PROXY_DEFAULT_PORT else port)
      in if sock < 0 then (-1, [], g\<lparr>g_errnum := CR_SOCKET_CREATE_ERROR, g_errmsg := c_str ''socket failed: '' @ strerr\<rparr>)
         else if conn < 0
         then (-1, [sock], g\<lparr>g_errnum := CR_CONNECTION_ERROR,
                 g_errmsg := c_str ''connecting to '' @ ip @ c_str '':'' @ tostr (word_of_int p) @ c_str ''failed: '' @ strerr\<rparr>)
         else (sock, [], g))"

subsection \<open>Encryption\<close>

text \<open>The client has its own copies of the functions of the server. They use the same loops; \<open>Decrypt\<close> tests the length as a
  \<open>size_t\<close> and not as an \<open>int\<close>.\<close>

definition api_passwd2des :: "(byte list \<Rightarrow> byte list) \<Rightarrow> byte list \<Rightarrow> byte list" where
  "api_passwd2des setparity pw = setparity (passwd_fold 0 pw (replicate 8 0))"

definition api_Encrypt :: "ecb_fun \<Rightarrow> byte list \<Rightarrow> byte list \<Rightarrow> byte list" where
  "api_Encrypt ecb key cont =
     (let len = of_nat (length cont) :: u32;
          source = le_bytes 4 len @ cont;
          source1 = (if length source mod 8 \<noteq> 0 then source @ replicate (8 - length source mod 8) 32 else source)
      in encrypt_loop ecb key source1 (u32n (length source1)) [])"

definition api_Decrypt :: "ecb_fun \<Rightarrow> byte list \<Rightarrow> byte list \<Rightarrow> byte list" where
  "api_Decrypt ecb key cont =
     (if length cont < 4 then []
      else case decrypt_loop ecb key cont [] of
        None \<Rightarrow> []
      | Some result \<Rightarrow>
          if length result > 4
          then let len = usz (s32 (unat (le_word (take 4 result) :: u32)))
               in if u64n (len + 4) \<le> length result then take len (drop 4 result) else []
          else [])"

definition api_StrToHex :: "byte list \<Rightarrow> byte list option" where
  "api_StrToHex cont = map_option (take (length cont * 2)) (hex_loop 0 cont (replicate (length cont * 2 + 2) 0))"

subsection \<open>Handles\<close>

text \<open>The argument says whether the caller brought the memory.\<close>

definition mysql_proxy_init :: "bool \<Rightarrow> MYSQL_PROXY" where
  "mysql_proxy_init given = \<lparr>sockfd = -1, is_inner_created = \<not> given, my_errnum = 0, my_errmsg = [], my_appname = [],
     my_appkey = replicate 8 0, my_sequence = 0, timeout_ms = 0, current_query_context = 0\<rparr>"

text \<open>The socket that is closed and whether the handle is freed.\<close>

definition mysql_proxy_close :: "MYSQL_PROXY option \<Rightarrow> int list \<times> bool" where
  "mysql_proxy_close mysql = (case mysql of None \<Rightarrow> ([], False) | Some my \<Rightarrow> ([sockfd my], is_inner_created my))"

definition mysql_proxy_errno :: "MYSQL_PROXY option \<Rightarrow> ApiGlobals \<Rightarrow> u32" where
  "mysql_proxy_errno mysql g = word_of_int (case mysql of Some my \<Rightarrow> my_errnum my | None \<Rightarrow> g_errnum g)"

definition mysql_proxy_error :: "MYSQL_PROXY option \<Rightarrow> ApiGlobals \<Rightarrow> byte list" where
  "mysql_proxy_error mysql g = (case mysql of Some my \<Rightarrow> my_errmsg my | None \<Rightarrow> g_errmsg g)"

text \<open>The handle that is returned, or \<open>None\<close>; the handle of the caller afterwards; the sockets closed.\<close>

definition mysql_proxy_connect ::
    "(byte list \<Rightarrow> byte list) \<Rightarrow> MYSQL_PROXY option \<Rightarrow> byte list \<Rightarrow> int \<Rightarrow> byte list \<Rightarrow> byte list \<Rightarrow> int \<Rightarrow> int \<Rightarrow> int \<Rightarrow> byte list \<Rightarrow>
     ApiGlobals \<Rightarrow> MYSQL_PROXY option \<times> MYSQL_PROXY option \<times> int list \<times> ApiGlobals" where
  "mysql_proxy_connect setparity mysql host port app pwd timeout sock conn strerr g =
     (let my = (case mysql of Some m \<Rightarrow> m | None \<Rightarrow> mysql_proxy_init False)
      in case CreateConnection host port sock conn strerr g of (fd, closed, g1) \<Rightarrow>
        let my1 = my\<lparr>sockfd := fd\<rparr>
        in if fd < 0
           then case mysql of
                  Some _ \<Rightarrow> (None, Some (my1\<lparr>my_errnum := g_errnum g1, my_errmsg := take 1023 (cstring (g_errmsg g1))\<rparr>), closed, g1)
                | None \<Rightarrow> (None, None, closed @ fst (mysql_proxy_close (Some my1)), g1)
           else let my2 = my1\<lparr>my_appkey := api_passwd2des setparity pwd, my_appname := take 127 (cstring app), my_sequence := 1, timeout_ms := timeout\<rparr>
                in (Some my2, map_option (\<lambda>_. my2) mysql, closed, g1))"

text \<open>The call of the MySQL interface, without a timeout; it ignores the database, the socket path and the flags.\<close>

definition mysql_real_connect ::
    "(byte list \<Rightarrow> byte list) \<Rightarrow> MYSQL_PROXY option \<Rightarrow> byte list \<Rightarrow> byte list \<Rightarrow> byte list \<Rightarrow> byte list \<Rightarrow> int \<Rightarrow> byte list \<Rightarrow> nat \<Rightarrow> int \<Rightarrow> int \<Rightarrow> byte list \<Rightarrow>
     ApiGlobals \<Rightarrow> MYSQL_PROXY option \<times> MYSQL_PROXY option \<times> int list \<times> ApiGlobals" where
  "mysql_real_connect setparity mysql host user passwd db port unix_socket client_flag sock conn strerr g =
     mysql_proxy_connect setparity mysql host port user passwd 0 sock conn strerr g"

subsection \<open>Queries\<close>

text \<open>\<open>snt\<close> is the result of \<open>send_in_time\<close>. The result has the bytes that went out.\<close>

definition SendRequest ::
    "ecb_fun \<Rightarrow> byte list \<Rightarrow> byte list \<Rightarrow> MYSQL_PROXY \<Rightarrow> byte list \<Rightarrow> int \<Rightarrow> knv_heap \<Rightarrow> (int \<times> byte list \<times> MYSQL_PROXY \<times> knv_heap) option" where
  "SendRequest ecb strerr knvmsg my sql snt h = do {
     let cont = api_Encrypt ecb (my_appkey my) sql;
     (tree, h0) \<leftarrow> NewTree 1 None h;
     (if tree = 0 then Some (-1, [], set_error CR_OUT_OF_MEMORY (c_str ''KnvNode::NewTree() failed: '' @ knvmsg @ [10]) my, h0)
      else do {
        (pk, h1) \<leftarrow> build_packet (my_appname my) (my_sequence my) 0 cont h;
        let my1 = my\<lparr>my_sequence := my_sequence my + 1\<rparr>;
        Some (case pk of
                None \<Rightarrow> (-1, [], set_error CR_OUT_OF_MEMORY (c_str ''KnvNode::Serialize() failed: '' @ knvmsg @ [10]) my1, h1)
              | Some rsp \<Rightarrow>
                  if snt < 0 then (-1, [], set_error CR_SERVER_GONE_ERROR (c_str ''Server gone away, errno:'' @ strerr) my1, h1)
                  else (0, take (nat snt) rsp, my1, h1)) }) }"

text \<open>The outer \<open>None\<close> also stands for the write past the end of the buffer of \<open>StrToHex\<close>.\<close>

definition ProcessResponse :: "ecb_fun \<Rightarrow> ProxyPacket \<Rightarrow> MYSQL_PROXY \<times> knv_heap \<Rightarrow> (int \<times> MYSQL_PROXY \<times> knv_heap) option" where
  "ProcessResponse ecb rsp s =
     (case s of (my, h) \<Rightarrow>
        if errnum rsp \<noteq> 0
        then Some (-1, set_error (sint (errnum rsp)) (c_str ''Server response with error msg: '' @ cstring (content rsp) @ [46, 10]) my, h)
        else let rspstr = api_Decrypt ecb (my_appkey my) (content rsp)
        in if rspstr = []
           then do {
             hex \<leftarrow> api_StrToHex (if length (content rsp) > 20 then take 20 (content rsp) @ [46, 46] else content rsp);
             Some (-2, set_error CR_MALFORMED_PACKET
               (c_str ''Decrypt rsp failed, rsp(length='' @ dec_str (length (content rsp)) @ c_str ''):'' @ cstring hex @ [46, 10]) my, h) }
           else do {
             (tree, h1) \<leftarrow> NewFromMessage rspstr 1 h;
             h2 \<leftarrow> (if current_query_context my \<noteq> 0 then KnvNode_Delete (current_query_context my) h1 else Some h1);
             Some (1, my\<lparr>current_query_context := tree\<rparr>, h2) })"

text \<open>What \<open>ParsePacket\<close> does with a message: its return value, or \<open>None\<close> to go on with the next packet.\<close>

definition response_message :: "ecb_fun \<Rightarrow> byte list \<Rightarrow> MYSQL_PROXY \<times> knv_heap \<Rightarrow> (int option \<times> MYSQL_PROXY \<times> knv_heap) option" where
  "response_message ecb msg s =
     (case s of (my, h) \<Rightarrow> do {
        (tree, h1) \<leftarrow> NewFromMessage msg 1 h;
        (if tree = 0 then Some (None, my, h1)
         else do {
           (app, h2) \<leftarrow> GetFieldStr tree 1 h1;
           (sq, h3) \<leftarrow> GetFieldInt tree 2 h2;
           (err, h4) \<leftarrow> GetFieldInt tree 3 h3;
           (cont, h5) \<leftarrow> GetFieldStr tree 11 h4;
           h6 \<leftarrow> KnvNode_Delete tree h5;
           (r, my1, h7) \<leftarrow> ProcessResponse ecb \<lparr>appname = app, appkey = [], sequence = sq, errnum = ucast err, content = cont\<rparr> (my, h6);
           Some (Some r, my1, h7) }) })"

text \<open>The loop of \<open>ParsePacket\<close>, on the bytes from \<open>packet\<close> on, as in \<open>Framing\<close>. When the handler has a return value the loop
  returns it at once; otherwise the value is 0 and the bytes that are left become \<open>reqstr\<close>.\<close>

function api_parse_loop ::
    "(byte list \<Rightarrow> 's \<Rightarrow> (int option \<times> 's) option) \<Rightarrow> u64 \<Rightarrow> byte list \<Rightarrow> 's \<Rightarrow> (int \<times> byte list option \<times> 's) run option" where
  "api_parse_loop handler endpack packet s =
     (if packet = [] then Some (Done (0, Some packet, s))
      else let p = skip_to_token packet
           in if length p \<le> PACKET_HEADER_LENGTH then Some (Done (0, Some p, s))
              else let packlen = packlen_at p
                   in if endpack < endpack - of_nat (length p) + packlen
                      then if unat packlen > MAX_RESPONSE_PACKET_LENGTH then api_parse_loop handler endpack (tl p) s
                           else Some (Done (0, Some p, s))
                      else if string_max_size < unat (packlen - of_nat PACKET_HEADER_LENGTH) then Some Thrown
                      else case handler (take (unat (packlen - of_nat PACKET_HEADER_LENGTH)) (drop PACKET_HEADER_LENGTH p)) s of
                             None \<Rightarrow> None
                           | Some (Some r, s1) \<Rightarrow> Some (Done (r, None, s1))
                           | Some (None, s1) \<Rightarrow> api_parse_loop handler endpack (drop (unat packlen) p) s1)"
  by pat_completeness auto
termination
proof (relation "measure (\<lambda>(handler, endpack, packet, s). length packet)", goal_cases)
  case (2 handler endpack packet s p packlen)
  then show ?case using length_skip_to_token [of packet] by (simp add: PACKET_HEADER_LENGTH_def)
next
  case (3 handler endpack packet s p packlen x y s1)
  then have "PACKET_HEADER_LENGTH \<le> unat packlen" by (metis packlen_ge_header)
  then show ?case using 3 length_skip_to_token [of packet] by (simp add: PACKET_HEADER_LENGTH_def)
qed simp

declare api_parse_loop.simps [simp del]

definition api_ParsePacket ::
    "(byte list \<Rightarrow> 's \<Rightarrow> (int option \<times> 's) option) \<Rightarrow> u64 \<Rightarrow> byte list \<Rightarrow> 's \<Rightarrow> (int \<times> byte list \<times> 's) run option" where
  "api_ParsePacket handler endpack reqstr s =
     (case api_parse_loop handler endpack reqstr s of
        None \<Rightarrow> None
      | Some Thrown \<Rightarrow> Some Thrown
      | Some (Done (r, rest, s1)) \<Rightarrow> Some (Done (r, case rest of Some p \<Rightarrow> p | None \<Rightarrow> reqstr, s1)))"

text \<open>The results of \<open>recv_in_time\<close>, each with the address at which the buffer ends after the bytes were appended. The call does
  not return while results are missing. The value is the one of \<open>ParsePacket\<close>, or \<open>None\<close> with the last length received.\<close>

fun query_recv ::
    "(byte list \<Rightarrow> 's \<Rightarrow> (int option \<times> 's) option) \<Rightarrow> (int \<times> byte list \<times> u64) list \<Rightarrow> byte list \<Rightarrow> 's \<Rightarrow> (int option \<times> int \<times> 's) run option" where
  "query_recv handler [] rspstr s = None"
| "query_recv handler ((len, buffer, endpack) # recvs) rspstr s =
     (if len \<le> 0 then Some (Done (None, len, s))
      else case api_ParsePacket handler endpack (rspstr @ buffer) s of
             None \<Rightarrow> None
           | Some Thrown \<Rightarrow> Some Thrown
           | Some (Done (r, rest, s1)) \<Rightarrow> if r \<noteq> 0 then Some (Done (Some r, len, s1)) else query_recv handler recvs rest s1)"

definition mysql_proxy_real_query ::
    "ecb_fun \<Rightarrow> byte list \<Rightarrow> byte list \<Rightarrow> byte list \<Rightarrow> int \<Rightarrow> (int \<times> byte list \<times> u64) list \<Rightarrow> MYSQL_PROXY \<Rightarrow> knv_heap \<Rightarrow>
     (int \<times> byte list \<times> MYSQL_PROXY \<times> knv_heap) run option" where
  "mysql_proxy_real_query ecb strerr knvmsg stmt snt recvs my h = do {
     (iRet, out, my1, h1) \<leftarrow> SendRequest ecb strerr knvmsg my stmt snt h;
     (if iRet < 0 then Some (Done (iRet - 100, out, my1, h1))
      else do {
        h2 \<leftarrow> (if current_query_context my1 \<noteq> 0 then KnvNode_Delete (current_query_context my1) h1 else Some h1);
        (case query_recv (response_message ecb) recvs [] (my1\<lparr>current_query_context := 0\<rparr>, h2) of
           None \<Rightarrow> None
         | Some Thrown \<Rightarrow> Some Thrown
         | Some (Done (Some r, len, my2, h3)) \<Rightarrow> Some (Done (if r > 0 then 0 else r - 200, out, my2, h3))
         | Some (Done (None, len, my2, h3)) \<Rightarrow>
             Some (Done (-300, out, set_error CR_SERVER_GONE_ERROR
               (if len < 0 then c_str ''Server gone away, errno:'' @ strerr
                else if timeout_ms my2 \<noteq> 0 then c_str ''Recv response timeout'' else c_str ''Peer has shutdown'') my2, h3))) }) }"

definition mysql_proxy_query ::
    "ecb_fun \<Rightarrow> byte list \<Rightarrow> byte list \<Rightarrow> byte list \<Rightarrow> int \<Rightarrow> (int \<times> byte list \<times> u64) list \<Rightarrow> MYSQL_PROXY \<Rightarrow> knv_heap \<Rightarrow>
     (int \<times> byte list \<times> MYSQL_PROXY \<times> knv_heap) run option" where
  "mysql_proxy_query ecb strerr knvmsg stmt = mysql_proxy_real_query ecb strerr knvmsg (cstring stmt)"

subsection \<open>Results\<close>

record MYSQL_FIELD =
  fd_name :: "byte list"
  name_length :: int

record MYSQL_PROXY_RES =
  datatree :: nat
  current_row :: nat
  current_field :: nat
  current_row_fields :: "byte list option list option"
  current_row_lengths :: "nat list option"
  api_all_fields :: "MYSQL_FIELD list option"
  current_field_val :: MYSQL_FIELD

definition mysql_proxy_store_result :: "MYSQL_PROXY \<Rightarrow> MYSQL_PROXY_RES option \<times> MYSQL_PROXY" where
  "mysql_proxy_store_result my =
     (if current_query_context my \<noteq> 0
      then (Some \<lparr>datatree = current_query_context my, current_row = 0, current_field = 0, current_row_fields = None,
                  current_row_lengths = None, api_all_fields = None, current_field_val = \<lparr>fd_name = [], name_length = 0\<rparr>\<rparr>,
            my\<lparr>current_query_context := 0\<rparr>)
      else (None, set_error CR_NO_DATA (c_str ''No record data available'') my))"

definition mysql_free_result_resource :: "bool \<Rightarrow> bool \<Rightarrow> bool \<Rightarrow> MYSQL_PROXY_RES \<Rightarrow> MYSQL_PROXY_RES" where
  "mysql_free_result_resource free_row free_lengths free_fields res =
     res\<lparr>current_row_fields := if free_row then None else current_row_fields res,
         current_row_lengths := if free_lengths then None else current_row_lengths res,
         api_all_fields := if free_fields then None else api_all_fields res\<rparr>"

definition mysql_proxy_free_result :: "MYSQL_PROXY_RES option \<Rightarrow> knv_heap \<Rightarrow> knv_heap option" where
  "mysql_proxy_free_result res h =
     (case res of None \<Rightarrow> Some h | Some r \<Rightarrow> if datatree r \<noteq> 0 then KnvNode_Delete (datatree r) h else Some h)"

definition KNV_FIELDLIST_TAG :: u32 where "KNV_FIELDLIST_TAG = 11"

definition KNV_SETS_TAG :: u32 where "KNV_SETS_TAG = 12"

definition KNV_ROWS_FIELD_START_TAG :: u32 where "KNV_ROWS_FIELD_START_TAG = 11"

definition KNV_ROW_NUM_TAG :: u32 where "KNV_ROW_NUM_TAG = 3"

definition KNV_FIELD_NUM_TAG :: u32 where "KNV_FIELD_NUM_TAG = 4"

definition mysql_proxy_num_rows :: "MYSQL_PROXY_RES option \<Rightarrow> knv_heap \<Rightarrow> (u64 \<times> knv_heap) option" where
  "mysql_proxy_num_rows res h =
     (case res of Some r \<Rightarrow> if datatree r \<noteq> 0 then GetFieldInt (datatree r) KNV_ROW_NUM_TAG h else Some (0, h) | None \<Rightarrow> Some (0, h))"

definition mysql_proxy_num_fields :: "MYSQL_PROXY_RES option \<Rightarrow> knv_heap \<Rightarrow> (nat \<times> knv_heap) option" where
  "mysql_proxy_num_fields res h =
     (case res of
        Some r \<Rightarrow> if datatree r \<noteq> 0 then map_option (\<lambda>(i, g). (u32n (unat i), g)) (GetFieldInt (datatree r) KNV_FIELD_NUM_TAG h) else Some (0, h)
      | None \<Rightarrow> Some (0, h))"

text \<open>The loop of \<open>FetchRow\<close> over the columns.\<close>

fun fetch_columns :: "nat \<Rightarrow> nat list \<Rightarrow> knv_heap \<Rightarrow> (byte list option list \<times> knv_heap) option" where
  "fetch_columns row [] h = Some ([], h)"
| "fetch_columns row (i # is) h = do {
     (n, h1) \<leftarrow> GetField row (KNV_ROWS_FIELD_START_TAG + of_nat i) h;
     (v, h2) \<leftarrow> (if n \<noteq> 0 then map_option (\<lambda>(s, g). (Some s, g)) (KnvNode_GetStrVal n h1) else Some (None, h1));
     (vs, h3) \<leftarrow> fetch_columns row is h2;
     Some (v # vs, h3) }"

definition FetchRow :: "MYSQL_PROXY_RES \<Rightarrow> knv_heap \<Rightarrow> (byte list option list option \<times> MYSQL_PROXY_RES \<times> knv_heap) option" where
  "FetchRow r h =
     (if current_row r = 0 then Some (None, r, h)
      else do {
        let r1 = mysql_free_result_resource True False False r;
        (num, h1) \<leftarrow> mysql_proxy_num_fields (Some r1) h;
        (if num = 0 then Some (None, r1, h1)
         else do {
           (vs, h2) \<leftarrow> fetch_columns (current_row r1) [0..<num] h1;
           Some (Some vs, r1\<lparr>current_row_fields := Some vs\<rparr>, h2) }) })"

text \<open>The two loops that look for the next set with a row: the first row, or 0.\<close>

partial_function (option) find_row :: "nat \<Rightarrow> knv_heap \<Rightarrow> (nat \<times> knv_heap) option" where
  "find_row set_tree h =
     (if set_tree = 0 then Some (0, h)
      else if nd_tag (nd h set_tree) \<noteq> KNV_SETS_TAG then find_row (GetSibling set_tree h) h
      else do {
        (row, h1) \<leftarrow> GetFirstChild set_tree h;
        (if row = 0 then find_row (GetSibling set_tree h1) h1 else Some (row, h1)) })"

definition mysql_proxy_fetch_row ::
    "MYSQL_PROXY_RES \<Rightarrow> knv_heap \<Rightarrow> (byte list option list option \<times> MYSQL_PROXY_RES \<times> knv_heap) option" where
  "mysql_proxy_fetch_row r h =
     (if datatree r = 0 then Some (None, r, h)
      else do {
        (row, h1) \<leftarrow>
          (if current_row r = 0
           then do {
             (set_tree, g1) \<leftarrow> GetFirstChild (datatree r) h;
             find_row set_tree g1 }
           else let next_row = GetSibling (current_row r) h
           in if next_row \<noteq> 0 then Some (next_row, h)
              else let set_tree = nd_parent (nd h (current_row r))
              in if set_tree = 0 then Some (0, h)
                 else do {
                   let next_set = GetSibling set_tree h;
                   (_, g1) \<leftarrow> KnvNode_Remove set_tree h;
                   find_row next_set g1 });
        FetchRow (r\<lparr>current_row := row\<rparr>) h1 })"

definition FetchField :: "MYSQL_PROXY_RES \<Rightarrow> knv_heap \<Rightarrow> (MYSQL_FIELD option \<times> MYSQL_PROXY_RES \<times> knv_heap) option" where
  "FetchField r h =
     (if current_field r = 0 then Some (None, r, h)
      else do {
        (name, h1) \<leftarrow> GetFieldStr (current_field r) 1 h;
        let f = \<lparr>fd_name = take 255 (cstring name), name_length = s32 (length name)\<rparr>;
        Some (Some f, r\<lparr>current_field_val := f\<rparr>, h1) })"

definition mysql_proxy_fetch_field :: "MYSQL_PROXY_RES \<Rightarrow> knv_heap \<Rightarrow> (MYSQL_FIELD option \<times> MYSQL_PROXY_RES \<times> knv_heap) option" where
  "mysql_proxy_fetch_field r h =
     (if datatree r = 0 then Some (None, r, h)
      else if current_field r = 0
      then do {
        (fieldtree, h1) \<leftarrow> GetField (datatree r) KNV_FIELDLIST_TAG h;
        (if fieldtree = 0 then Some (None, r, h1)
         else do {
           (c, h2) \<leftarrow> GetFirstChild fieldtree h1;
           FetchField (r\<lparr>current_field := c\<rparr>) h2 }) }
      else FetchField (r\<lparr>current_field := GetSibling (current_field r) h\<rparr>) h)"

text \<open>The loop of \<open>mysql_proxy_fetch_fields\<close> writes without a bound into an array of \<open>fieldnum\<close> fields; the flag is False when it
  writes past the end.\<close>

partial_function (option) fetch_fields_loop ::
    "nat \<Rightarrow> MYSQL_FIELD list \<Rightarrow> MYSQL_PROXY_RES \<Rightarrow> knv_heap \<Rightarrow> (bool \<times> MYSQL_FIELD list \<times> MYSQL_PROXY_RES \<times> knv_heap) option" where
  "fetch_fields_loop fieldnum acc r h = do {
     (f, r1, h1) \<leftarrow> mysql_proxy_fetch_field r h;
     (case f of
        None \<Rightarrow> Some (True, acc, r1, h1)
      | Some x \<Rightarrow> if length acc < fieldnum then fetch_fields_loop fieldnum (acc @ [x]) r1 h1 else Some (False, acc, r1, h1)) }"

definition mysql_proxy_fetch_fields :: "MYSQL_PROXY_RES \<Rightarrow> knv_heap \<Rightarrow> (bool \<times> MYSQL_FIELD list option \<times> MYSQL_PROXY_RES \<times> knv_heap) option" where
  "mysql_proxy_fetch_fields r h = do {
     (fieldnum, h1) \<leftarrow> mysql_proxy_num_fields (Some r) h;
     (if fieldnum = 0 then Some (True, None, r, h1)
      else do {
        let r1 = mysql_free_result_resource False False True r;
        (ok, fs, r2, h2) \<leftarrow> fetch_fields_loop fieldnum [] (r1\<lparr>current_field := 0\<rparr>) h1;
        Some (ok, Some fs, r2\<lparr>api_all_fields := Some fs\<rparr>, h2) }) }"

fun fetch_lengths_loop :: "nat \<Rightarrow> nat list \<Rightarrow> knv_heap \<Rightarrow> (nat list \<times> knv_heap) option" where
  "fetch_lengths_loop row [] h = Some ([], h)"
| "fetch_lengths_loop row (i # is) h = do {
     (s, h1) \<leftarrow> GetFieldStr row (KNV_ROWS_FIELD_START_TAG + of_nat i) h;
     (ls, h2) \<leftarrow> fetch_lengths_loop row is h1;
     Some (length s # ls, h2) }"

definition mysql_proxy_fetch_lengths :: "MYSQL_PROXY_RES \<Rightarrow> knv_heap \<Rightarrow> (nat list option \<times> MYSQL_PROXY_RES \<times> knv_heap) option" where
  "mysql_proxy_fetch_lengths r h =
     (if current_row r = 0 then Some (None, r, h)
      else do {
        let r1 = r\<lparr>current_row_lengths := None\<rparr>;
        (num, h1) \<leftarrow> mysql_proxy_num_fields (Some r1) h;
        (if num = 0 then Some (None, r1, h1)
         else do {
           (ls, h2) \<leftarrow> fetch_lengths_loop (current_row r1) [0..<num] h1;
           Some (Some ls, r1\<lparr>current_row_lengths := Some ls\<rparr>, h2) }) })"

declare find_row.simps [code] fetch_fields_loop.simps [code]

subsection \<open>Functions without support\<close>

definition mysql_set_character_set :: "MYSQL_PROXY \<Rightarrow> int \<times> MYSQL_PROXY" where
  "mysql_set_character_set my = (-1, set_error ENOSYS (c_str ''Please set MYSQL_CHARSET in proxy server config file.'') my)"

definition mysql_affected_rows :: "MYSQL_PROXY \<Rightarrow> u64 \<times> MYSQL_PROXY" where
  "mysql_affected_rows my = (-1, set_error ENOSYS (c_str ''This API is not supported by proxy server.'') my)"

definition mysql_insert_id :: "MYSQL_PROXY \<Rightarrow> u64 \<times> MYSQL_PROXY" where
  "mysql_insert_id my = (-1, set_error ENOSYS (c_str ''This API is not supported by proxy server.'') my)"

section \<open>The client's copies\<close>

lemma api_Encrypt_eq: "api_Encrypt = Encrypt"
  by (intro ext) (simp add: api_Encrypt_def Encrypt_def Let_def)

lemma api_Decrypt_eq: "length cont < 2 ^ 31 \<Longrightarrow> api_Decrypt ecb key cont = Decrypt ecb key cont"
  by (simp add: api_Decrypt_def Decrypt_def)

lemma api_passwd2des_eq: "api_passwd2des = passwd2des"
  by (intro ext) (simp add: api_passwd2des_def passwd2des_def)

section \<open>Receiving a response\<close>

text \<open>While no message is complete the client's loop does what the server's loop does.\<close>

lemma api_parse_waits:
  "parse_loop MAX_RESPONSE_PACKET_LENGTH (\<lambda>_ _. None) e p () = Some (Done (q, ())) \<Longrightarrow>
   api_parse_loop handler e p s = Some (Done (0, Some q, s))"
proof (induction MAX_RESPONSE_PACKET_LENGTH "\<lambda>(_ :: byte list) (_ :: unit). None :: unit option" e p "()" rule: parse_loop.induct)
  case (1 e p)
  show ?case
    using 1(3) 1(1)
    by (subst api_parse_loop.simps) (simp add: parse_loop.simps [of _ _ _ p] Let_def split: if_splits)
qed

lemma api_parse_frame:
  assumes "buffer_at e (length (frame msg @ x))" "msg \<noteq> []" "length msg < 2 ^ 61" "handler msg s = Some (Some r, s1)"
  shows "api_parse_loop handler e (frame msg @ x) s = Some (Done (r, None, s1))"
proof -
  note F = frame_facts [OF assms(3)]
  have l: "length (frame msg @ x) = 16 + length msg + length x" using F(1) by simp
  have ne: "frame msg @ x \<noteq> []" "\<not> length (frame msg @ x) \<le> PACKET_HEADER_LENGTH"
    using assms(2) l by (auto simp: PACKET_HEADER_LENGTH_def)
  have pl: "unat (packlen_at (frame msg @ x)) < 2 ^ 62" using F(3) [of x] assms(3) by simp
  have e: "\<not> e < e - of_nat (length (frame msg @ x)) + packlen_at (frame msg @ x)"
    unfolding past_end [OF assms(1) pl] F(3) using l by simp
  have u: "unat (packlen_at (frame msg @ x) - of_nat PACKET_HEADER_LENGTH) = length msg"
    using F(3) [of x] by (simp add: unat_sub_if' PACKET_HEADER_LENGTH_def)
  have m: "\<not> string_max_size < length msg" using assms(3) by (simp add: string_max_size_def)
  show ?thesis
    by (subst api_parse_loop.simps)
       (simp only: ne skip_to_token_at [OF F(2)] Let_def e u m F(4) if_False assms(4) option.case prod.case)
qed

text \<open>A response in any pieces: positive lengths, and a buffer that does not wrap.\<close>

definition chunks_of :: "byte list \<Rightarrow> (int \<times> byte list \<times> u64) list \<Rightarrow> bool" where
  "chunks_of bs recvs \<longleftrightarrow> concat (map (fst \<circ> snd) recvs) = bs \<and>
     list_all (\<lambda>(len, b, e). len = int (length b) \<and> b \<noteq> [] \<and> buffer_at e (length bs)) recvs"

lemma query_recv_frame:
  assumes "buf @ concat (map (fst \<circ> snd) recvs) = frame msg" "list_all (\<lambda>(len, b, e). len = int (length b) \<and> b \<noteq> [] \<and> buffer_at e (length (frame msg))) recvs"
    "recvs \<noteq> []" "msg \<noteq> []" "PACKET_HEADER_LENGTH + length msg \<le> MAX_RESPONSE_PACKET_LENGTH" "handler msg s = Some (Some r, s1)" "r \<noteq> 0"
  shows "\<exists>len. query_recv handler recvs buf s = Some (Done (Some r, len, s1))"
  using assms(1-3)
proof (induction recvs arbitrary: buf)
  case (Cons c recvs)
  obtain len b e where c: "c = (len, b, e)" by (cases c)
  have b: "len = int (length b)" "b \<noteq> []" "buffer_at e (length (frame msg))" using Cons.prems(2) c by auto
  then have len: "\<not> len \<le> 0" by simp
  have lm: "length msg < 2 ^ 61" using assms(5) by (simp add: MAX_RESPONSE_PACKET_LENGTH_def)
  show ?case
  proof (cases "recvs = []")
    case True
    then have "buf @ b = frame msg @ []" using Cons.prems(1) c by simp
    then have "api_ParsePacket handler e (buf @ b) s = Some (Done (r, buf @ b, s1))"
      using api_parse_frame [of e msg "[]" handler s r s1] b(3) assms(4,6) lm by (simp add: api_ParsePacket_def)
    then show ?thesis using len assms(7) c by simp
  next
    case False
    let ?r = "concat (map (fst \<circ> snd) recvs)"
    have ne: "?r \<noteq> []" using False Cons.prems(2) by (cases recvs) auto
    have eq: "(buf @ b) @ ?r = frame msg" using Cons.prems(1) c by (simp add: comp_def)
    have "partial_frame MAX_RESPONSE_PACKET_LENGTH (buf @ b)"
      unfolding partial_frame_def using assms(4,5) eq ne by metis
    moreover have "buffer_at e (length (buf @ b))" using b(3) by (rule buffer_at_mono) (simp add: eq [symmetric])
    ultimately have "parse_loop MAX_RESPONSE_PACKET_LENGTH (\<lambda>_ _. None) e (buf @ b) () = Some (Done (buf @ b, ()))"
      by (intro parse_partial) (simp_all add: MAX_RESPONSE_PACKET_LENGTH_def)
    then have "api_ParsePacket handler e (buf @ b) s = Some (Done (0, buf @ b, s))"
      by (simp add: api_ParsePacket_def api_parse_waits)
    then show ?thesis using Cons.IH [OF eq] Cons.prems(2) False len c by simp
  qed
qed simp

lemma response_message_packet:
  assumes "pool_ok h L" "length app < 65536" "length cont < 2 ^ 30"
  shows "\<exists>h'. pool_ok h' L \<and> (\<forall>q \<in> L. nd h' q = nd h q) \<and>
    response_message ecb (fields_bytes (packet_fields app sq err cont)) (my, h) =
      map_option (\<lambda>(r, s). (Some r, s)) (ProcessResponse ecb \<lparr>appname = app, appkey = [], sequence = sq, errnum = err, content = cont\<rparr> (my, h'))"
proof -
  obtain fs where fs: "msg_fields (fields_bytes (packet_fields app sq err cont)) = Some fs" "fs \<noteq> []"
    "length (fields_bytes (packet_fields app sq err cont)) < 2 ^ 31" "length (filter (\<lambda>(u, _). u = 11) fs) \<le> 1"
    "field_str (last_field 1 fs) = app" "field_int (last_field 2 fs) = sq" "field_int (last_field 3 fs) = ucast err" "field_str (last_field 11 fs) = cont"
    using packet_decode [OF assms(2,3), of sq err] by (elim exE conjE)
  obtain n h1 h2 h3 where "NewFromMessage (fields_bytes (packet_fields app sq err cont)) 1 h = Some (n, h1)" "n \<noteq> 0"
    "GetFieldStr n 1 h1 = Some (app, h2)" "GetFieldInt n 2 h2 = Some (sq, h2)" "GetFieldInt n 3 h2 = Some (ucast err, h2)"
    "GetFieldStr n 11 h2 = Some (cont, h2)" "KnvNode_Delete n h2 = Some h3" "pool_ok h3 L" "\<forall>q \<in> L. nd h3 q = nd h q"
    using packet_read [OF assms(1) fs(1-4), unfolded fs(5-8)] by (elim exE conjE)
  moreover have "ucast (ucast err :: u64) = err" by (rule bit_word_eqI) (simp add: bit_simps)
  ultimately show ?thesis
    by (intro exI [of _ h3]) (simp add: response_message_def, cases "ProcessResponse ecb \<lparr>appname = app, appkey = [], sequence = sq, errnum = err, content = cont\<rparr> (my, h3)", auto)
qed

lemma packet_nonempty: "fields_bytes (packet_fields app sq err cont) \<noteq> []"
proof -
  have "vint_buffer i \<noteq> []" for i using pb_eval_vint_length_bounds [of i] vint_buffer_length [of i] by auto
  then show ?thesis by (simp add: packet_fields_def fields_bytes_def field_bytes_def)
qed

lemma SendRequest_ok:
  assumes "pool_ok h L" "ecb_ok ecb (my_appkey my)" "length (my_appname my) < 65536" "length stmt < 2 ^ 30 - 12" "0 \<le> snt"
  shows "\<exists>h'. SendRequest ecb strerr knvmsg my stmt snt h =
      Some (0, take (nat snt) (frame (fields_bytes (packet_fields (my_appname my) (my_sequence my) 0 (Encrypt ecb (my_appkey my) stmt)))),
            my\<lparr>my_sequence := my_sequence my + 1\<rparr>, h') \<and> pool_ok h' L \<and> (\<forall>q \<in> L. nd h' q = nd h q)"
proof -
  let ?c = "Encrypt ecb (my_appkey my) stmt"
  have "length ?c < 2 ^ 30" using Decrypt_Encrypt_ok(3) [OF assms(2), of stmt] assms(4) by simp
  then obtain h' where B: "build_packet (my_appname my) (my_sequence my) 0 ?c h = Some (Some (frame (fields_bytes (packet_fields (my_appname my) (my_sequence my) 0 ?c))), h')"
    "pool_ok h' L" "\<forall>q \<in> L. nd h' q = nd h q" using build_packet_ok [OF assms(1,3)] by blast
  obtain n g where "NewTree 1 None h = Some (n, g)" "n \<noteq> 0" using building_new [OF assms(1), of 1] by auto
  then show ?thesis using B assms(5) by (simp add: SendRequest_def api_Encrypt_eq Let_def)
qed

text \<open>The call as a whole, for a response packet of any content: what \<open>ProcessResponse\<close> makes of it decides.\<close>

lemma real_query_response:
  assumes "pool_ok h L" "ecb_ok ecb (my_appkey my)" "length (my_appname my) < 65536" "length stmt < 2 ^ 30 - 12" "0 \<le> snt"
    "current_query_context my = 0" "length app < 65536" "length cont < MAX_RESPONSE_PACKET_LENGTH - 65536 - 100"
    "chunks_of (frame (fields_bytes (packet_fields app sq err cont))) recvs"
  shows "\<exists>h1. pool_ok h1 L \<and> (\<forall>q \<in> L. nd h1 q = nd h q) \<and>
    (\<forall>r my2 h2. ProcessResponse ecb \<lparr>appname = app, appkey = [], sequence = sq, errnum = err, content = cont\<rparr> (my\<lparr>my_sequence := my_sequence my + 1\<rparr>, h1) =
        Some (r, my2, h2) \<longrightarrow> r \<noteq> 0 \<longrightarrow>
      mysql_proxy_real_query ecb strerr knvmsg stmt snt recvs my h =
        Some (Done (if r > 0 then 0 else r - 200,
          take (nat snt) (frame (fields_bytes (packet_fields (my_appname my) (my_sequence my) 0 (Encrypt ecb (my_appkey my) stmt)))), my2, h2)))"
proof -
  let ?m = "fields_bytes (packet_fields app sq err cont)" and ?my = "my\<lparr>my_sequence := my_sequence my + 1\<rparr>"
  let ?p = "\<lparr>appname = app, appkey = [], sequence = sq, errnum = err, content = cont\<rparr>"
  have c30: "length cont < 2 ^ 30" using assms(8) by (simp add: MAX_RESPONSE_PACKET_LENGTH_def)
  obtain g where S: "SendRequest ecb strerr knvmsg my stmt snt h =
      Some (0, take (nat snt) (frame (fields_bytes (packet_fields (my_appname my) (my_sequence my) 0 (Encrypt ecb (my_appkey my) stmt)))), ?my, g)"
    "pool_ok g L" "\<forall>q \<in> L. nd g q = nd h q" using SendRequest_ok [OF assms(1-5)] by blast
  obtain h1 where R: "pool_ok h1 L" "\<forall>q \<in> L. nd h1 q = nd g q"
    "response_message ecb ?m (?my, g) = map_option (\<lambda>(r, s). (Some r, s)) (ProcessResponse ecb ?p (?my, h1))"
    using response_message_packet [OF S(2) assms(7) c30, of ecb sq err ?my] by blast
  have len: "?m \<noteq> []" "PACKET_HEADER_LENGTH + length ?m \<le> MAX_RESPONSE_PACKET_LENGTH"
    using packet_length [of app cont sq err] assms(7,8) packet_decode [OF assms(7) c30, of sq err] packet_nonempty
    by (auto simp: PACKET_HEADER_LENGTH_def MAX_RESPONSE_PACKET_LENGTH_def)
  have ch: "[] @ concat (map (fst \<circ> snd) recvs) = frame ?m" "list_all (\<lambda>(len, b, e). len = int (length b) \<and> b \<noteq> [] \<and> buffer_at e (length (frame ?m))) recvs"
    using assms(9) by (simp_all add: chunks_of_def)
  have ne: "recvs \<noteq> []" using ch(1) frame_nonempty [of ?m] by auto
  have "mysql_proxy_real_query ecb strerr knvmsg stmt snt recvs my h = Some (Done (if r > 0 then 0 else r - 200,
      take (nat snt) (frame (fields_bytes (packet_fields (my_appname my) (my_sequence my) 0 (Encrypt ecb (my_appkey my) stmt)))), my2, h2))"
    if p: "ProcessResponse ecb ?p (?my, h1) = Some (r, my2, h2)" "r \<noteq> 0" for r my2 h2
  proof -
    have "response_message ecb ?m (?my, g) = Some (Some r, my2, h2)" using R(3) p(1) by simp
    then obtain len where Q: "query_recv (response_message ecb) recvs [] (?my, g) = Some (Done (Some r, len, my2, h2))"
      using query_recv_frame [OF ch ne len, of "response_message ecb" "(?my, g)" r "(my2, h2)"] p(2) by auto
    have "?my\<lparr>current_query_context := 0\<rparr> = ?my" using assms(6) by (cases my) simp
    then have "query_recv (response_message ecb) recvs [] (?my\<lparr>current_query_context := 0\<rparr>, g) = Some (Done (Some r, len, my2, h2))" using Q by metis
    then show ?thesis using S(1) assms(6) by (simp add: mysql_proxy_real_query_def)
  qed
  then show ?thesis using R(1,2) S(3) by (intro exI [of _ h1]) simp
qed

section \<open>Queries\<close>

text \<open>A stored result whose tree has not been expanded yet.\<close>

lemma result_numbers:
  assumes "child_num (nd h n) < 0" "Expand n h = Some (0, g)" "kids_rep g n fs" "nd_tag (nd h n) \<noteq> 0" "nd_tag (nd g n) \<noteq> 0" "0 \<notin> set (kids (nd g n))"
    "n \<noteq> 0" "datatree res = n"
  shows "mysql_proxy_num_rows (Some res) h = Some (field_int (last_field 3 fs), g)"
    "mysql_proxy_num_fields (Some res) g = Some (u32n (unat (field_int (last_field 4 fs))), g)"
proof -
  have "child_num (nd g n) \<ge> 0" using assms(3) by (simp add: kids_rep_def Let_def)
  then have "GetMeta n 3 h = GetMeta n 3 g" using assms(1,2,4,5) by (intro GetMeta_expand) simp_all
  then have "GetFieldInt n 3 h = GetFieldInt n 3 g" by (simp add: GetFieldInt_def GetMetaInt_def)
  then show "mysql_proxy_num_rows (Some res) h = Some (field_int (last_field 3 fs), g)"
    using GetMetaInt_rep [OF assms(3,5,6), of 3] assms(7,8) by (simp add: mysql_proxy_num_rows_def KNV_ROW_NUM_TAG_def GetFieldInt_def)
  show "mysql_proxy_num_fields (Some res) g = Some (u32n (unat (field_int (last_field 4 fs))), g)"
    using GetMetaInt_rep [OF assms(3,5,6), of 4] assms(7,8) by (simp add: mysql_proxy_num_fields_def KNV_FIELD_NUM_TAG_def GetFieldInt_def)
qed

text \<open>A client and two responses that arrive in two pieces.\<close>

definition demo_client :: MYSQL_PROXY where
  "demo_client = (mysql_proxy_init True)\<lparr>my_appname := [97], my_sequence := 1, sockfd := 3\<rparr>"

definition demo_recvs :: "byte list \<Rightarrow> (int \<times> byte list \<times> u64) list" where
  "demo_recvs bs = [(5, take 5 bs, 1000), (int (length bs) - 5, drop 5 bs, 1000)]"

lemma demo_chunks: "5 < length bs \<Longrightarrow> length bs < 1000 \<Longrightarrow> chunks_of bs (demo_recvs bs)"
  by (auto simp: chunks_of_def demo_recvs_def buffer_at_def)

lemma demo_client_sel:
  "length (my_appname demo_client) < 65536" "current_query_context demo_client = 0" "my_appname demo_client = [97]" "my_sequence demo_client = 1"
  by (simp_all add: demo_client_def mysql_proxy_init_def)

lemma demo_frame:
  assumes "length app \<le> 10" "length cont \<le> 100"
  shows "chunks_of (frame (fields_bytes (packet_fields app sq err cont))) (demo_recvs (frame (fields_bytes (packet_fields app sq err cont))))"
proof (rule demo_chunks)
  let ?m = "fields_bytes (packet_fields app sq err cont)"
  have "length ?m \<le> length app + length cont + 80" using assms by (intro packet_length) simp_all
  then have "length ?m \<le> 190" using assms by simp
  then show "5 < length (frame ?m)" "length (frame ?m) < 1000" by (simp_all add: frame_facts(1))
qed

text \<open>(C3) A query returns the result that the server sent. The client sends the packet with its name, its sequence number and the
  encrypted statement; when the server's packet with an encrypted result then arrives, cut into any pieces, the call returns 0,
  \<open>mysql_store_result\<close> hands out the tree of the result, and the numbers of rows and fields are those of the result. No other
  tree in use is touched. The name and the sequence number in the response may be any: the client does not compare them with
  its request.\<close>

theorem real_query_answer:
  assumes "pool_ok h L" "ecb_ok ecb (my_appkey my)" "length (my_appname my) < 65536" "length stmt < 2 ^ 30 - 12" "0 \<le> snt"
    "current_query_context my = 0" "length app < 65536" "msg_fields rsp = Some fs" "fs \<noteq> []" "length rsp < MAX_RESPONSE_PACKET_LENGTH - 66000"
    "chunks_of (frame (fields_bytes (packet_fields app sq 0 (Encrypt ecb (my_appkey my) rsp)))) recvs"
  shows "\<exists>my' h1 h2 res. mysql_proxy_real_query ecb strerr knvmsg stmt snt recvs my h =
      Some (Done (0, take (nat snt) (frame (fields_bytes (packet_fields (my_appname my) (my_sequence my) 0 (Encrypt ecb (my_appkey my) stmt)))), my', h1)) \<and>
    mysql_proxy_store_result my' = (Some res, my\<lparr>my_sequence := my_sequence my + 1\<rparr>) \<and> datatree res \<notin> L \<and> (\<forall>q \<in> L. nd h1 q = nd h q) \<and>
    Expand (datatree res) h1 = Some (0, h2) \<and> kids_rep h2 (datatree res) fs \<and>
    mysql_proxy_num_rows (Some res) h1 = Some (field_int (last_field 3 fs), h2) \<and>
    mysql_proxy_num_fields (Some res) h2 = Some (u32n (unat (field_int (last_field 4 fs))), h2)"
proof -
  let ?k = "my_appkey my" and ?my = "my\<lparr>my_sequence := my_sequence my + 1\<rparr>"
  let ?c = "Encrypt ecb ?k rsp"
  have l: "length rsp < 2 ^ 31 - 16" "length rsp < 2 ^ 31" using assms(10) by (simp_all add: MAX_RESPONSE_PACKET_LENGTH_def)
  note E = Decrypt_Encrypt_ok [OF assms(2) l(1)]
  have lc: "length ?c < MAX_RESPONSE_PACKET_LENGTH - 65536 - 100" using E(3) assms(10) by (simp add: MAX_RESPONSE_PACKET_LENGTH_def)
  have rsp: "rsp \<noteq> []" using msg_fields_begin [OF assms(8,9)] by auto
  have "length ?c < 2 ^ 31" using lc by (simp add: MAX_RESPONSE_PACKET_LENGTH_def)
  then have D: "api_Decrypt ecb ?k ?c = rsp" using E(1) by (simp add: api_Decrypt_eq)
  obtain g where G: "pool_ok g L" "\<forall>q \<in> L. nd g q = nd h q"
    "\<And>r my2 h2. ProcessResponse ecb \<lparr>appname = app, appkey = [], sequence = sq, errnum = 0, content = ?c\<rparr> (?my, g) = Some (r, my2, h2) \<Longrightarrow> r \<noteq> 0 \<Longrightarrow>
      mysql_proxy_real_query ecb strerr knvmsg stmt snt recvs my h = Some (Done (if r > 0 then 0 else r - 200,
          take (nat snt) (frame (fields_bytes (packet_fields (my_appname my) (my_sequence my) 0 (Encrypt ecb ?k stmt)))), my2, h2))"
    using real_query_response [OF assms(1-7) lc assms(11)] by blast
  obtain n h1 h2 where N: "NewFromMessage rsp 1 g = Some (n, h1)" "n \<notin> L" "\<forall>q \<in> L. nd h1 q = nd g q" "nd_tag (nd h1 n) = 1"
    "child_num (nd h1 n) < 0" "Expand n h1 = Some (0, h2)" "expanding h1 (insert n L) n fs h2"
    using NewFromMessage_Expand [OF G(1) assms(8,9) l(2), of 1] by auto
  have n0: "n \<noteq> 0" using N(7) by (auto simp: expanding_def pool_ok_def Let_def)
  have tag: "nd_tag (nd h1 n) \<noteq> 0" using N(4) by simp
  note S = expanding_sel [OF N(7) tag]
  have P: "ProcessResponse ecb \<lparr>appname = app, appkey = [], sequence = sq, errnum = 0, content = ?c\<rparr> (?my, g) = Some (1, ?my\<lparr>current_query_context := n\<rparr>, h1)"
    using D rsp N(1) assms(6) by (simp add: ProcessResponse_def)
  define res where "res = the (fst (mysql_proxy_store_result (?my\<lparr>current_query_context := n\<rparr>)))"
  have R: "mysql_proxy_store_result (?my\<lparr>current_query_context := n\<rparr>) = (Some res, ?my)" "datatree res = n"
    using n0 assms(6) unfolding res_def by (cases my; simp add: mysql_proxy_store_result_def)+
  show ?thesis
    using G(3) [OF P] R N(2,3,6) G(2) S(1) result_numbers [OF N(5,6) S(1) tag S(2,3) n0 R(2)]
    by (intro exI [of _ "?my\<lparr>current_query_context := n\<rparr>"] exI [of _ h1] exI [of _ h2] exI [of _ res]) simp
qed

theorem real_query_answer_witness:
  "\<exists>my' h1 h2 res out. mysql_proxy_real_query ecb_xor [] [] [115, 104, 111, 119] 500
      (demo_recvs (frame (fields_bytes (packet_fields [98] 77 0 (Encrypt ecb_xor (my_appkey demo_client) [24, 2, 32, 1]))))) demo_client knv_empty =
        Some (Done (0, out, my', h1)) \<and>
    fst (mysql_proxy_store_result my') = Some res \<and> mysql_proxy_num_rows (Some res) h1 = Some (2, h2) \<and> mysql_proxy_num_fields (Some res) h2 = Some (1, h2)"
proof -
  let ?k = "my_appkey demo_client" and ?rsp = "[24, 2, 32, 1] :: byte list"
  let ?fs = "[(3, PB_WT_VARINT, int_val 2), (4, PB_WT_VARINT, int_val 1)] :: field list"
  have b: "fields_bytes ?fs = ?rsp" by (simp add: fields_bytes_def field_bytes_def enc_eval)
  have "list_all (\<lambda>(t, wt, v). wf_field t wt v) ?fs" by (simp add: wf_field_def)
  then obtain gs where gs: "msg_fields ?rsp = Some gs" "list_all2 decoded gs ?fs" using msg_fields_bytes [of ?fs] b by auto
  have ne: "gs \<noteq> []" using gs(2) by auto
  have V: "field_int (last_field 3 gs) = 2" "u32n (unat (field_int (last_field 4 gs))) = 1"
    using decoded_last [OF gs(2), of 3] decoded_last [OF gs(2), of 4] by (simp_all add: last_field_def field_int_def u32n_def)
  have "length (Encrypt ecb_xor ?k ?rsp) \<le> 100" using Decrypt_Encrypt_ok(3) [OF ecb_xor_ok, of ?rsp ?k] by simp
  then have c: "chunks_of (frame (fields_bytes (packet_fields [98] 77 0 (Encrypt ecb_xor ?k ?rsp)))) (demo_recvs (frame (fields_bytes (packet_fields [98] 77 0 (Encrypt ecb_xor ?k ?rsp)))))"
    by (intro demo_frame) simp_all
  show ?thesis
    using real_query_answer [OF empty_pool ecb_xor_ok demo_client_sel(1) _ _ demo_client_sel(2) _ gs(1) ne _ c,
        of "[115, 104, 111, 119]" 500 "[]" "[]", unfolded V]
    by (auto simp: MAX_RESPONSE_PACKET_LENGTH_def)
qed

lemma real_query_failed:
  assumes "pool_ok h L" "ecb_ok ecb (my_appkey my)" "length (my_appname my) < 65536" "length stmt < 2 ^ 30 - 12" "0 \<le> snt"
    "current_query_context my = 0" "length app < 65536" "length txt < MAX_RESPONSE_PACKET_LENGTH - 65536 - 100" "err \<noteq> 0"
    "chunks_of (frame (fields_bytes (packet_fields app sq err txt))) recvs"
  shows "\<exists>my' h1. mysql_proxy_real_query ecb strerr knvmsg stmt snt recvs my h =
      Some (Done (-201, take (nat snt) (frame (fields_bytes (packet_fields (my_appname my) (my_sequence my) 0 (Encrypt ecb (my_appkey my) stmt)))), my', h1)) \<and>
    mysql_proxy_errno (Some my') gl = err \<and> mysql_proxy_error (Some my') gl = take 1023 (c_str ''Server response with error msg: '' @ cstring txt @ [46, 10]) \<and>
    fst (mysql_proxy_store_result my') = None \<and> my_sequence my' = my_sequence my + 1 \<and> pool_ok h1 L \<and> (\<forall>q \<in> L. nd h1 q = nd h q)"
proof -
  let ?my = "my\<lparr>my_sequence := my_sequence my + 1\<rparr>"
  let ?my' = "set_error (sint err) (c_str ''Server response with error msg: '' @ cstring txt @ [46, 10]) ?my"
  obtain g where G: "pool_ok g L" "\<forall>q \<in> L. nd g q = nd h q"
    "\<And>r my2 h2. ProcessResponse ecb \<lparr>appname = app, appkey = [], sequence = sq, errnum = err, content = txt\<rparr> (?my, g) = Some (r, my2, h2) \<Longrightarrow> r \<noteq> 0 \<Longrightarrow>
      mysql_proxy_real_query ecb strerr knvmsg stmt snt recvs my h = Some (Done (if r > 0 then 0 else r - 200,
          take (nat snt) (frame (fields_bytes (packet_fields (my_appname my) (my_sequence my) 0 (Encrypt ecb (my_appkey my) stmt)))), my2, h2))"
    using real_query_response [OF assms(1-8,10)] by blast
  have "ProcessResponse ecb \<lparr>appname = app, appkey = [], sequence = sq, errnum = err, content = txt\<rparr> (?my, g) = Some (-1, ?my', g)"
    using assms(9) by (simp add: ProcessResponse_def)
  from G(3) [OF this] show ?thesis
    using G(1,2) assms(6)
    by (intro exI [of _ ?my'] exI [of _ g]) (simp add: set_error_def mysql_proxy_errno_def mysql_proxy_error_def mysql_proxy_store_result_def)
qed

text \<open>An error of the server reaches the caller. When the server's packet has an error number and a text, in any pieces,
  the call returns -201, the error number is the one of the packet, the message has the text up to its first NUL, cut to the
  size of the buffer, and there is no result to store.\<close>

theorem real_query_error:
  assumes "pool_ok h L" "ecb_ok ecb (my_appkey my)" "length (my_appname my) < 65536" "length stmt < 2 ^ 30 - 12" "0 \<le> snt"
    "current_query_context my = 0" "length app < 65536" "length txt < MAX_RESPONSE_PACKET_LENGTH - 65536 - 100" "err \<noteq> 0"
    "chunks_of (frame (fields_bytes (packet_fields app sq err txt))) recvs"
  shows "\<exists>my' h1. mysql_proxy_real_query ecb strerr knvmsg stmt snt recvs my h =
      Some (Done (-201, take (nat snt) (frame (fields_bytes (packet_fields (my_appname my) (my_sequence my) 0 (Encrypt ecb (my_appkey my) stmt)))), my', h1)) \<and>
    mysql_proxy_errno (Some my') gl = err \<and> mysql_proxy_error (Some my') gl = take 1023 (c_str ''Server response with error msg: '' @ cstring txt @ [46, 10]) \<and>
    fst (mysql_proxy_store_result my') = None \<and> my_sequence my' = my_sequence my + 1 \<and> pool_ok h1 L \<and> (\<forall>q \<in> L. nd h1 q = nd h q)"
  by (rule real_query_failed [OF assms])

theorem real_query_error_witness:
  "\<exists>my' h1 out. mysql_proxy_real_query ecb_xor [] [] [115, 104, 111, 119] 500 (demo_recvs (frame (fields_bytes (packet_fields [98] 77 1064 [63, 0, 64])))) demo_client knv_empty =
      Some (Done (-201, out, my', h1)) \<and> mysql_proxy_errno (Some my') \<lparr>g_errnum = 0, g_errmsg = []\<rparr> = 1064"
proof -
  have "chunks_of (frame (fields_bytes (packet_fields [98] 77 1064 [63, 0, 64]))) (demo_recvs (frame (fields_bytes (packet_fields [98] 77 1064 [63, 0, 64]))))"
    by (rule demo_frame) simp_all
  then show ?thesis
    using real_query_error [OF empty_pool ecb_xor_ok demo_client_sel(1) _ _ demo_client_sel(2), of "[115, 104, 111, 119]" 500 "[98]" "[63, 0, 64]" 1064 77]
    by (auto simp: MAX_RESPONSE_PACKET_LENGTH_def) blast
qed

section \<open>Rows\<close>

text \<open>The value of a column: the field with tag 11 plus its index, \<open>NULL\<close> when there is none.\<close>

definition column :: "field list \<Rightarrow> nat \<Rightarrow> byte list option" where
  "column fs i = map_option (\<lambda>f. field_str (Some f)) (last_field (KNV_ROWS_FIELD_START_TAG + of_nat i) fs)"

definition columns_once :: "field list \<Rightarrow> nat \<Rightarrow> bool" where
  "columns_once fs num \<longleftrightarrow> num < 2 ^ 31 \<and> (\<forall>i < num. length (filter (\<lambda>(u, _). u = KNV_ROWS_FIELD_START_TAG + of_nat i) fs) \<le> 1)"

lemma column_tag: "i < 2 ^ 31 \<Longrightarrow> \<not> is_meta_tag (KNV_ROWS_FIELD_START_TAG + of_nat i)"
proof -
  assume i: "i < 2 ^ 31"
  have "unat (KNV_ROWS_FIELD_START_TAG + of_nat i) = 11 + i"
    unfolding KNV_ROWS_FIELD_START_TAG_def using i by (subst unat_add_lem [THEN iffD1]) (simp_all add: unat_of_nat take_bit_nat_eq_self_iff)
  then show ?thesis by (simp add: word_le_nat_alt word_less_nat_alt)
qed

lemma not_meta_nonzero: "\<not> is_meta_tag t \<Longrightarrow> t \<noteq> 0"
  by auto

lemma row_columns:
  assumes "kids_rep h row fs" "nd_tag (nd h row) \<noteq> 0" "0 \<notin> set (kids (nd h row))" "columns_once fs num" "set is \<subseteq> {..<num}"
  shows "fetch_columns row is h = Some (map (column fs) is, h)"
    "fetch_lengths_loop row is h = Some (map (\<lambda>i. length (field_str (last_field (KNV_ROWS_FIELD_START_TAG + of_nat i) fs))) is, h)"
proof -
  have one: "\<not> is_meta_tag (KNV_ROWS_FIELD_START_TAG + of_nat i)" "length (filter (\<lambda>(u, _). u = KNV_ROWS_FIELD_START_TAG + of_nat i) fs) \<le> 1"
    if "i < num" for i using that assms(4) column_tag [of i] by (auto simp: columns_once_def)
  have c: "\<exists>n. GetField row (KNV_ROWS_FIELD_START_TAG + of_nat i) h = Some (n, h) \<and>
      (if n \<noteq> 0 then map_option (\<lambda>(s, g). (Some s, g)) (KnvNode_GetStrVal n h) else Some (None, h)) = Some (column fs i, h)"
    if i: "i < num" for i
  proof -
    have t: "KNV_ROWS_FIELD_START_TAG + of_nat i \<noteq> 0" by (rule not_meta_nonzero [OF one(1) [OF i]])
    show ?thesis
      using FindChildByTag_rep [OF assms(1-3) one [OF i]] kid_str [OF _ t, of h row] one(1) [OF i]
      by (cases "last_field (KNV_ROWS_FIELD_START_TAG + of_nat i) fs") (auto simp: GetField_def column_def)
  qed
  show "fetch_columns row is h = Some (map (column fs) is, h)"
    using assms(5)
  proof (induction "is")
    case (Cons i "is")
    then have "i < num" "fetch_columns row is h = Some (map (column fs) is, h)" by simp_all
    with c [of i] show ?case by (elim meta_impE exE conjE) (simp_all split: if_splits)
  qed simp
  show "fetch_lengths_loop row is h = Some (map (\<lambda>i. length (field_str (last_field (KNV_ROWS_FIELD_START_TAG + of_nat i) fs))) is, h)"
    using assms(5)
  proof (induction "is")
    case (Cons i "is")
    then show ?case using GetChildStr_rep [OF assms(1-3) one, of i] one(1) [of i] by (simp add: GetFieldStr_def)
  qed simp
qed

text \<open>A row and its lengths agree with the message. For a row whose node is expanded and has each column at most once,
  \<open>mysql_fetch_row\<close> gives for every column the string with its tag, NUL bytes included, or a null pointer when the message has
  none, and \<open>mysql_fetch_lengths\<close> then gives the lengths of these strings, 0 for a null pointer.\<close>

theorem FetchRow_columns:
  assumes "kids_rep h (current_row r) fs" "nd_tag (nd h (current_row r)) \<noteq> 0" "0 \<notin> set (kids (nd h (current_row r)))" "current_row r \<noteq> 0"
    "mysql_proxy_num_fields (Some r) h = Some (num, h)" "0 < num" "columns_once fs num"
  shows "\<exists>r1 r2. FetchRow r h = Some (Some (map (column fs) [0..<num]), r1, h) \<and> current_row r1 = current_row r \<and>
    mysql_proxy_fetch_lengths r1 h = Some (Some (map (\<lambda>v. case v of None \<Rightarrow> 0 | Some s \<Rightarrow> length s) (map (column fs) [0..<num])), r2, h)"
proof -
  note C = row_columns [OF assms(1-3,7), of "[0..<num]"]
  have num: "mysql_proxy_num_fields (Some r') h = Some (num, h)" if "datatree r' = datatree r" for r'
    using assms(5) unfolding mysql_proxy_num_fields_def option.case that .
  have len: "(case column fs i of None \<Rightarrow> 0 | Some s \<Rightarrow> length s) = length (field_str (last_field (KNV_ROWS_FIELD_START_TAG + of_nat i) fs))" for i
    by (auto simp: column_def field_str_def split: option.split)
  let ?r0 = "mysql_free_result_resource True False False r"
  let ?r1 = "?r0\<lparr>current_row_fields := Some (map (column fs) [0..<num])\<rparr>"
  have F: "FetchRow r h = Some (Some (map (column fs) [0..<num]), ?r1, h)"
    using assms(4,6) C(1) num [of ?r0] by (simp add: FetchRow_def mysql_free_result_resource_def Let_def atLeast0LessThan)
  have "\<exists>r2. mysql_proxy_fetch_lengths ?r1 h = Some (Some (map (\<lambda>v. case v of None \<Rightarrow> 0 | Some s \<Rightarrow> length s) (map (column fs) [0..<num])), r2, h)"
    using assms(4,6) C(2) num [of "?r1\<lparr>current_row_lengths := None\<rparr>"]
    by (simp add: mysql_proxy_fetch_lengths_def mysql_free_result_resource_def Let_def atLeast0LessThan len comp_def)
  moreover have "current_row ?r1 = current_row r" by (simp add: mysql_free_result_resource_def)
  ultimately show ?thesis using F by blast
qed

text \<open>A row with three columns, the second one \<open>NULL\<close>.\<close>

theorem FetchRow_columns_witness:
  "\<exists>n g h r1 r2. NewFromMessage [32, 3, 90, 1, 7, 106, 2, 0, 9] 1 knv_empty = Some (n, g) \<and> Expand n g = Some (0, h) \<and>
    FetchRow \<lparr>datatree = n, current_row = n, current_field = 0, current_row_fields = None, current_row_lengths = None, api_all_fields = None,
       current_field_val = \<lparr>fd_name = [], name_length = 0\<rparr>\<rparr> h = Some (Some [Some [7], None, Some [0, 9]], r1, h) \<and>
    mysql_proxy_fetch_lengths r1 h = Some (Some [1, 0, 2], r2, h)"
proof -
  let ?m = "[32, 3, 90, 1, 7, 106, 2, 0, 9] :: byte list"
  let ?fs = "[(4, PB_WT_VARINT, int_val 3), (11, PB_WT_STRING, str_val [7]), (13, PB_WT_STRING, str_val [0, 9])] :: field list"
  have b: "fields_bytes ?fs = ?m" by (simp add: fields_bytes_def field_bytes_def str_val_def enc_eval)
  have "list_all (\<lambda>(t, wt, v). wf_field t wt v) ?fs" by (simp add: wf_field_def str_val_def val_i32_def)
  then obtain fs where fs: "msg_fields ?m = Some fs" "list_all2 decoded fs ?fs" using msg_fields_bytes [of ?fs] b by auto
  have ne: "fs \<noteq> []" using fs(2) by auto
  obtain n g h where N: "NewFromMessage ?m 1 knv_empty = Some (n, g)" "nd_tag (nd g n) = 1" "Expand n g = Some (0, h)" "expanding g (insert n {}) n fs h"
    using NewFromMessage_Expand [OF empty_pool fs(1) ne, of 1] by auto
  have tag: "nd_tag (nd g n) \<noteq> 0" using N(2) by simp
  note S = expanding_sel [OF N(4) tag]
  have n0: "n \<noteq> 0" using N(4) by (auto simp: expanding_def pool_ok_def Let_def)
  define r where "r = \<lparr>datatree = n, current_row = n, current_field = 0, current_row_fields = None, current_row_lengths = None, api_all_fields = None,
       current_field_val = \<lparr>fd_name = [], name_length = 0\<rparr>\<rparr>"
  have sel: "current_row r = n" "datatree r = n" by (simp_all add: r_def)
  have D: "field_int (last_field 4 fs) = 3" using decoded_last [OF fs(2), of 4] by (simp add: last_field_def field_int_def)
  have num: "mysql_proxy_num_fields (Some r) h = Some (3, h)"
    using GetMetaInt_rep [OF S, of 4] n0 sel(2) D by (simp add: mysql_proxy_num_fields_def KNV_FIELD_NUM_TAG_def GetFieldInt_def u32n_def)
  obtain a1 a2 a3 where f: "fs = [(4, PB_WT_VARINT, a1), (11, PB_WT_STRING, dec_val PB_WT_STRING (str_val [7]) a2), (13, PB_WT_STRING, dec_val PB_WT_STRING (str_val [0, 9]) a3)]"
    using fs(2) by (auto simp: list_all2_Cons2 decoded_def)
  have u: "[0..<3] = [0, 1, 2 :: nat]" by (simp add: upt_rec)
  have c: "map (column fs) [0..<3] = [Some [7], None, Some [0, 9]]"
    unfolding u f by (simp add: column_def last_field_def KNV_ROWS_FIELD_START_TAG_def field_str_def dec_val_def str_bytes_def str_val_def val_i32_def)
  have once: "columns_once fs 3"
    unfolding columns_once_def f by (simp add: KNV_ROWS_FIELD_START_TAG_def numeral_3_eq_3 less_Suc_eq)
  have "kids_rep h (current_row r) fs" "nd_tag (nd h (current_row r)) \<noteq> 0" "0 \<notin> set (kids (nd h (current_row r)))" "current_row r \<noteq> 0"
    using S n0 sel(1) by simp_all
  from FetchRow_columns [OF this num _ once, unfolded c] show ?thesis
    using N(1,3) unfolding r_def by auto
qed

end
