(* ===== verification/Config_File.thy ===== *)
theory Config_File
  imports Proxy_Server
begin

text \<open>
  The configuration file: the reader of \<open>comm/oi_cfg.c\<close> and the settings that \<open>ProxyInit\<close> of \<open>mysql_proxy_server.cpp\<close> reads with it.

  The variable arguments of \<open>TLib_Cfg_GetConfig\<close> are a list of names with a type, a default and for strings the size of the
  variable; the variables are a list of values in the same order. A C string is its bytes before the NUL. A \<open>double\<close> is its bit
  pattern and \<open>atof\<close> an argument. The file is its bytes, or \<open>None\<close> when it cannot be opened.
\<close>

section \<open>Definitions\<close>

definition MAX_CONFIG_LINE_LEN :: nat where "MAX_CONFIG_LINE_LEN = 1023"

definition US :: byte where "US = 0x1f"

datatype cfg_spec = CFG_LINE "byte list" nat | CFG_STRING "byte list" nat | CFG_LONG int | CFG_INT int | CFG_ULONG int | CFG_UINT int | CFG_DOUBLE u64

type_synonym cfg_param = "byte list \<times> cfg_spec"

datatype cfg_value = CfgStr "byte list" | CfgNum int | CfgDbl u64

subsection \<open>Numbers\<close>

text \<open>\<open>strtol\<close> and \<open>strtoul\<close> with base 0.\<close>

definition digit_val :: "byte \<Rightarrow> nat" where
  "digit_val c = (if 48 \<le> c \<and> c \<le> 57 then unat c - 48 else if 97 \<le> c \<and> c \<le> 122 then unat c - 87
     else if 65 \<le> c \<and> c \<le> 90 then unat c - 55 else 99)"

definition number_in :: "nat \<Rightarrow> byte list \<Rightarrow> nat" where
  "number_in base s = foldl (\<lambda>n c. n * base + digit_val c) 0 (takeWhile (\<lambda>c. digit_val c < base) s)"

definition magnitude :: "byte list \<Rightarrow> nat" where
  "magnitude s =
     (case s of
        c # x # d # _ \<Rightarrow> if c = 48 \<and> (x = 120 \<or> x = 88) \<and> digit_val d < 16 then number_in 16 (drop 2 s)
                         else number_in (if c = 48 then 8 else 10) s
      | c # _ \<Rightarrow> number_in (if c = 48 then 8 else 10) s
      | [] \<Rightarrow> 0)"

definition signed_magnitude :: "byte list \<Rightarrow> bool \<times> nat" where
  "signed_magnitude s =
     (case dropWhile c_isspace s of
        c # r \<Rightarrow> if c = 45 then (True, magnitude r) else if c = 43 then (False, magnitude r) else (False, magnitude (c # r))
      | [] \<Rightarrow> (False, 0))"

definition strtol :: "byte list \<Rightarrow> int" where
  "strtol s = (case signed_magnitude s of (neg, n) \<Rightarrow> if neg then max (- int n) (- (2 ^ 63)) else min (int n) (2 ^ 63 - 1))"

definition strtoul :: "byte list \<Rightarrow> int" where
  "strtoul s = (case signed_magnitude s of (neg, n) \<Rightarrow>
     if n \<ge> 2 ^ 64 then 2 ^ 64 - 1 else if neg then (- int n) mod 2 ^ 64 else int n)"

subsection \<open>Lines\<close>

definition is_blank :: "byte \<Rightarrow> bool" where
  "is_blank c \<longleftrightarrow> c = 32 \<or> c = 9 \<or> c = 10 \<or> c = US"

text \<open>The loop of \<open>get_val\<close>; \<open>first\<close> is \<open>srcp==src\<close>. The result is the string at \<open>desc\<close> and what is left in \<open>src\<close>.\<close>

fun get_val_loop :: "bool \<Rightarrow> nat \<Rightarrow> bool \<Rightarrow> byte list \<Rightarrow> byte list \<Rightarrow> byte list \<times> byte list" where
  "get_val_loop first mtime space desc [] = (desc, [])"
| "get_val_loop first mtime space desc (c # src) =
     (if is_blank c then get_val_loop False mtime True desc src
      else let mtime' = (if space \<or> first then mtime + 1 else mtime)
           in if mtime' = 2 then (desc, c # src) else get_val_loop False mtime' False (desc @ [c]) src)"

definition get_val :: "byte list \<Rightarrow> byte list \<times> byte list" where
  "get_val src = get_val_loop True 0 False [] src"

definition GetParamVal :: "byte list \<Rightarrow> int \<times> byte list \<times> byte list" where
  "GetParamVal sLine = (case get_val sLine of (sParam, sVal) \<Rightarrow> (if sParam \<noteq> [] \<and> hd sParam = 35 then 1 else 0, sParam, sVal))"

text \<open>\<open>strncpy\<close> into a variable of a size, with a NUL in its last byte.\<close>

definition copy_string :: "byte list \<Rightarrow> nat \<Rightarrow> cfg_value" where
  "copy_string s lSize = CfgStr (take (lSize - 1) s)"

fun InitDefault :: "cfg_param list \<Rightarrow> cfg_value list" where
  "InitDefault [] = []"
| "InitDefault ((sParam, spec) # ps) =
     (case spec of
        CFG_LINE sDefault lSize \<Rightarrow> copy_string sDefault lSize
      | CFG_STRING sDefault lSize \<Rightarrow> copy_string sDefault lSize
      | CFG_LONG d \<Rightarrow> CfgNum d | CFG_INT d \<Rightarrow> CfgNum d | CFG_ULONG d \<Rightarrow> CfgNum d | CFG_UINT d \<Rightarrow> CfgNum d
      | CFG_DOUBLE d \<Rightarrow> CfgDbl d) # InitDefault ps"

text \<open>A value that the file sets; \<open>sLine\<close> is the rest of the line and \<open>sV\<close> its first word.\<close>

definition set_value :: "(byte list \<Rightarrow> u64) \<Rightarrow> cfg_spec \<Rightarrow> byte list \<Rightarrow> byte list \<Rightarrow> cfg_value" where
  "set_value atof spec sLine sV =
     (case spec of
        CFG_LINE _ lSize \<Rightarrow> copy_string sLine lSize
      | CFG_STRING _ lSize \<Rightarrow> copy_string sV lSize
      | CFG_LONG _ \<Rightarrow> CfgNum (strtol sV)
      | CFG_ULONG _ \<Rightarrow> CfgNum (strtoul sV)
      | CFG_UINT _ \<Rightarrow> CfgNum (strtoul sV mod 2 ^ 32)
      | CFG_INT _ \<Rightarrow> CfgNum (s32 (nat (strtol sV mod 2 ^ 32)))
      | CFG_DOUBLE _ \<Rightarrow> CfgDbl (atof sV))"

text \<open>The loop of \<open>SetVal\<close>. On its way to the parameter it stores the default into every \<open>double\<close> it passes.\<close>

fun SetVal_loop :: "(byte list \<Rightarrow> u64) \<Rightarrow> cfg_param list \<Rightarrow> cfg_value list \<Rightarrow> byte list \<Rightarrow> byte list \<Rightarrow> byte list \<Rightarrow> cfg_value list" where
  "SetVal_loop atof ((sParam, spec) # ps) (v # vs) sP sLine sV =
     (if sP = sParam then set_value atof spec sLine sV # vs
      else (case spec of CFG_DOUBLE d \<Rightarrow> CfgDbl d | _ \<Rightarrow> v) # SetVal_loop atof ps vs sP sLine sV)"
| "SetVal_loop atof ps vs sP sLine sV = vs"

definition SetVal :: "(byte list \<Rightarrow> u64) \<Rightarrow> cfg_param list \<Rightarrow> cfg_value list \<Rightarrow> byte list \<Rightarrow> byte list \<Rightarrow> cfg_value list" where
  "SetVal atof ps vs sP sV = SetVal_loop atof ps vs sP sV (fst (get_val sV))"

definition fgets :: "byte list \<Rightarrow> (byte list \<times> byte list) option" where
  "fgets rest =
     (if rest = [] then None
      else let l = take MAX_CONFIG_LINE_LEN rest; pre = takeWhile (\<lambda>c. c \<noteq> 10) l;
               line = (if length pre < length l then pre @ [10] else l)
           in Some (line, drop (length line) rest))"

lemma fgets_shorter: "fgets rest = Some (line, rest') \<Longrightarrow> length rest' < length rest"
  by (auto simp: fgets_def Let_def MAX_CONFIG_LINE_LEN_def split: if_splits)

function cfg_loop :: "(byte list \<Rightarrow> u64) \<Rightarrow> cfg_param list \<Rightarrow> cfg_value list \<Rightarrow> byte list \<Rightarrow> cfg_value list" where
  "cfg_loop atof ps vs rest =
     (case fgets rest of
        None \<Rightarrow> vs
      | Some (line, rest') \<Rightarrow>
          case GetParamVal (takeWhile (\<lambda>c. c \<noteq> 0) line) of (r, sParam, sVal) \<Rightarrow>
            cfg_loop atof ps (if r = 0 then SetVal atof ps vs sParam sVal else vs) rest')"
  by pat_completeness auto
termination
  by (relation "measure (\<lambda>(_, _, _, rest). length rest)") (auto dest: fgets_shorter)

declare cfg_loop.simps [simp del]

definition TLib_Cfg_GetConfig :: "(byte list \<Rightarrow> u64) \<Rightarrow> byte list option \<Rightarrow> cfg_param list \<Rightarrow> cfg_value list" where
  "TLib_Cfg_GetConfig atof file ps =
     (case file of None \<Rightarrow> InitDefault ps | Some bs \<Rightarrow> cfg_loop atof ps (InitDefault ps) bs)"

subsection \<open>The settings of the server\<close>

definition server_params :: "cfg_param list" where
  "server_params =
    [(c_str ''LOGFILE'', CFG_STRING (c_str ''/home/oicq/mysql_proxy/log/mysql_proxy_server'') 256),
     (c_str ''KEYFILE'', CFG_STRING (c_str ''/home/oicq/mysql_proxy/conf/key_file.txt'') 256),
     (c_str ''LOG_LEVEL'', CFG_INT 5),
     (c_str ''SERVER_IP'', CFG_STRING (c_str ''0.0.0.0'') 128),
     (c_str ''SERVER_PORT'', CFG_STRING (c_str ''34765'') 32),
     (c_str ''MYSQL_HOST'', CFG_STRING (c_str ''localhost'') 30),
     (c_str ''MYSQL_USER'', CFG_STRING (c_str ''root'') 30),
     (c_str ''MYSQL_PASSWD'', CFG_STRING [] 20),
     (c_str ''MYSQL_DB'', CFG_STRING (c_str ''mysql_test'') 20),
     (c_str ''MYSQL_CHARSET'', CFG_STRING (c_str ''utf8'') 32),
     (c_str ''SEND_BYTES_LIMIT'', CFG_INT 300000000),
     (c_str ''MIN_INTERVAL'', CFG_INT 10),
     (c_str ''ENA_TRAFIC_CTRL'', CFG_INT 1),
     (c_str ''SHM_KEY'', CFG_INT 0x447755),
     (c_str ''SHM_PERCENT'', CFG_INT 20),
     (c_str ''SHM_BLOCKSIZE'', CFG_INT 4096),
     (c_str ''SHM_MAX_KEYLEN'', CFG_INT 128),
     (c_str ''CHILD_NUM'', CFG_INT 1),
     (c_str ''CACHE_VALID_SECONDS'', CFG_INT 60)]"

text \<open>The values as \<open>ProxyInit\<close> uses them; \<open>open_file\<close> gives the contents of the key file.\<close>

definition cfg_str :: "cfg_value list \<Rightarrow> nat \<Rightarrow> byte list" where
  "cfg_str vs i = (case vs ! i of CfgStr s \<Rightarrow> s | _ \<Rightarrow> [])"

definition cfg_num :: "cfg_value list \<Rightarrow> nat \<Rightarrow> int" where
  "cfg_num vs i = (case vs ! i of CfgNum n \<Rightarrow> n | _ \<Rightarrow> 0)"

definition read_settings :: "(byte list \<Rightarrow> u64) \<Rightarrow> (byte list \<Rightarrow> byte list option) \<Rightarrow> byte list option \<Rightarrow> PxSettings" where
  "read_settings atof open_file file =
     (let vs = TLib_Cfg_GetConfig atof file server_params
      in \<lparr>cf_keyfile = open_file (cfg_str vs 1), cf_shm_key = usz (cfg_num vs 13), cf_shm_percent = usz (cfg_num vs 14),
          cf_shm_blocksize = usz (cfg_num vs 15), cf_max_keylen = cfg_num vs 16, cf_child_num = cfg_num vs 17,
          cf_cache_seconds = cfg_num vs 18, cf_send_limit = cfg_num vs 10, cf_min_interval = cfg_num vs 11,
          cf_ena_traffic = cfg_num vs 12, cf_charset = cfg_str vs 9, cf_log_debug = (cfg_num vs 2 \<ge> 5)\<rparr>)"

section \<open>Well-formed files\<close>

text \<open>A file as its author sees it: settings of a name and a value, and remarks.\<close>

datatype cfg_entry = Setting "byte list" "byte list" | Remark "byte list"

fun entry_text :: "cfg_entry \<Rightarrow> byte list" where
  "entry_text (Setting name val) = name @ 32 # val"
| "entry_text (Remark s) = 35 # s"

definition cfg_file :: "cfg_entry list \<Rightarrow> byte list" where
  "cfg_file es = concat (map (\<lambda>e. entry_text e @ [10]) es)"

definition cfg_word :: "byte list \<Rightarrow> bool" where
  "cfg_word s \<longleftrightarrow> s \<noteq> [] \<and> (\<forall>c \<in> set s. \<not> is_blank c \<and> c \<noteq> 0)"

fun entry_ok :: "cfg_entry \<Rightarrow> bool" where
  "entry_ok (Setting name val) \<longleftrightarrow>
     cfg_word name \<and> hd name \<noteq> 35 \<and> cfg_word val \<and> length name + length val + 2 \<le> MAX_CONFIG_LINE_LEN"
| "entry_ok (Remark s) \<longleftrightarrow> (\<forall>c \<in> set s. c \<noteq> 10 \<and> c \<noteq> 0) \<and> length s + 2 \<le> MAX_CONFIG_LINE_LEN"

text \<open>What one entry does to the variables, and the value that a whole file gives to a name.\<close>

fun apply_entry :: "(byte list \<Rightarrow> u64) \<Rightarrow> cfg_param list \<Rightarrow> cfg_value list \<Rightarrow> cfg_entry \<Rightarrow> cfg_value list" where
  "apply_entry atof ps vs (Setting name val) = SetVal_loop atof ps vs name (val @ [10]) val"
| "apply_entry atof ps vs (Remark s) = vs"

fun last_setting :: "byte list \<Rightarrow> cfg_entry list \<Rightarrow> byte list option" where
  "last_setting name [] = None"
| "last_setting name (e # es) =
     (case last_setting name es of
        Some val \<Rightarrow> Some val
      | None \<Rightarrow> (case e of Setting n val \<Rightarrow> if n = name then Some val else None | Remark s \<Rightarrow> None))"

definition is_double :: "cfg_spec \<Rightarrow> bool" where
  "is_double spec \<longleftrightarrow> (case spec of CFG_DOUBLE _ \<Rightarrow> True | _ \<Rightarrow> False)"

subsection \<open>Reading a line\<close>

lemma get_val_word:
  "(\<forall>c \<in> set w. \<not> is_blank c) \<Longrightarrow> get_val_loop False 1 False acc (w @ r) = get_val_loop False 1 False (acc @ w) r"
  by (induction w arbitrary: acc) auto

lemma get_val_start:
  assumes "cfg_word w"
  shows "get_val (w @ r) = get_val_loop False 1 False w r"
proof -
  obtain c cs where "w = c # cs" "\<not> is_blank c" "\<forall>c \<in> set cs. \<not> is_blank c"
    using assms by (cases w) (auto simp: cfg_word_def)
  then show ?thesis by (simp add: get_val_def Let_def get_val_word [of cs "[c]" r, simplified])
qed

lemma get_val_two:
  assumes "cfg_word w" "cfg_word w'"
  shows "get_val (w @ 32 # w' @ r) = (w, w' @ r)"
  using assms(2) by (cases w') (simp_all add: get_val_start [OF assms(1)] is_blank_def cfg_word_def)

lemma get_val_one: "cfg_word w \<Longrightarrow> get_val (w @ [10]) = (w, [])"
  by (simp add: get_val_start is_blank_def)

lemma get_val_keeps:
  "\<exists>r. fst (get_val_loop first m sp desc src) = desc @ r"
  by (induction first m sp desc src rule: get_val_loop.induct) (auto simp: Let_def)

lemma GetParamVal_setting:
  "entry_ok (Setting name val) \<Longrightarrow> GetParamVal (entry_text (Setting name val) @ [10]) = (0, name, val @ [10])"
  using get_val_two [of name val "[10]"] by (simp add: GetParamVal_def)

lemma GetParamVal_remark: "fst (GetParamVal (35 # s)) = 1"
proof -
  obtain r where "fst (get_val (35 # s)) = 35 # r"
    using get_val_keeps [of False 1 False "[35]" s] by (auto simp: get_val_def Let_def is_blank_def US_def)
  then show ?thesis by (auto simp: GetParamVal_def split: prod.split)
qed

lemma fgets_line:
  assumes "10 \<notin> set l" "length l < MAX_CONFIG_LINE_LEN"
  shows "fgets (l @ 10 # rest) = Some (l @ [10], rest)"
proof -
  obtain k where k: "MAX_CONFIG_LINE_LEN - length l = Suc k" using assms(2) by (cases "MAX_CONFIG_LINE_LEN - length l") auto
  have "takeWhile (\<lambda>c. c \<noteq> 10) (l @ 10 # take k rest) = l" using assms(1) by (subst takeWhile_append2) auto
  then show ?thesis using assms by (simp add: fgets_def Let_def k)
qed

lemma entry_line:
  assumes "entry_ok e"
  shows "10 \<notin> set (entry_text e)" "0 \<notin> set (entry_text e)" "length (entry_text e) < MAX_CONFIG_LINE_LEN"
  using assms by (cases e; auto simp: cfg_word_def is_blank_def)+

lemma cfg_loop_entry:
  assumes ok: "entry_ok e"
  shows "cfg_loop atof ps vs (entry_text e @ 10 # rest) = cfg_loop atof ps (apply_entry atof ps vs e) rest"
proof -
  have no0: "takeWhile (\<lambda>c. c \<noteq> 0) (entry_text e @ [10]) = entry_text e @ [10]"
    using entry_line(2) [OF ok] by (subst takeWhile_eq_all_conv) auto
  note step = cfg_loop.simps [of atof ps vs "entry_text e @ 10 # rest"]
  show ?thesis
  proof (cases e)
    case (Setting name val)
    then have "get_val (val @ [10]) = (val, [])" using ok get_val_one by simp
    then show ?thesis
      using step GetParamVal_setting [of name val] ok no0 Setting
      by (simp add: fgets_line entry_line [OF ok, unfolded Setting] SetVal_def del: entry_text.simps)
  next
    case (Remark s)
    obtain p v where "GetParamVal (35 # s @ [10]) = (1, p, v)" using GetParamVal_remark [of "s @ [10]"] by (metis prod.exhaust fst_conv)
    then show ?thesis
      using step no0 Remark entry_line [OF ok] fgets_line [of "entry_text e" rest] by simp
  qed
qed

lemma cfg_file_fold:
  "\<forall>e \<in> set es. entry_ok e \<Longrightarrow> TLib_Cfg_GetConfig atof (Some (cfg_file es)) ps = foldl (apply_entry atof ps) (InitDefault ps) es"
proof -
  have "cfg_loop atof ps vs (cfg_file es) = foldl (apply_entry atof ps) vs es" if "\<forall>e \<in> set es. entry_ok e" for vs
    using that
    by (induction es arbitrary: vs)
       (simp_all add: cfg_file_def cfg_loop_entry, simp add: cfg_loop.simps fgets_def)
  moreover assume "\<forall>e \<in> set es. entry_ok e"
  ultimately show ?thesis by (simp add: TLib_Cfg_GetConfig_def)
qed

subsection \<open>Setting the variables\<close>

lemma length_InitDefault [simp]: "length (InitDefault ps) = length ps"
  by (induction ps rule: InitDefault.induct) auto

lemma length_SetVal_loop [simp]: "length (SetVal_loop atof ps vs name l v) = length vs"
  by (induction atof ps vs name l v rule: SetVal_loop.induct) auto

lemma length_apply_entries [simp]: "length (foldl (apply_entry atof ps) vs es) = length vs"
proof (induction es arbitrary: vs)
  case (Cons e es)
  then show ?case by (cases e) simp_all
qed simp

lemma SetVal_loop_nth:
  assumes "distinct (map fst ps)" "length vs = length ps" "i < length ps" "\<not> is_double (snd (ps ! i))"
  shows "SetVal_loop atof ps vs name l v ! i = (if fst (ps ! i) = name then set_value atof (snd (ps ! i)) l v else vs ! i)"
  using assms
proof (induction atof ps vs name l v arbitrary: i rule: SetVal_loop.induct)
  case (1 atof sParam spec ps v vs sP sLine sV)
  show ?case
  proof (cases i)
    case 0
    then show ?thesis using 1 by (auto simp: is_double_def split: cfg_spec.splits)
  next
    case (Suc j)
    have "fst (ps ! j) \<noteq> sParam" using 1(2,4) Suc by (metis length_Cons Suc_less_eq distinct.simps(2) fst_conv image_eqI list.set_map list.simps(9) nth_mem)
    then show ?thesis using 1 Suc by auto
  qed
qed auto

lemma last_setting_snoc:
  "last_setting name (es @ [e]) = (case e of Setting n val \<Rightarrow> if n = name then Some val else last_setting name es | Remark s \<Rightarrow> last_setting name es)"
  by (induction es) (auto split: option.splits cfg_entry.splits)

lemma apply_entries_nth:
  assumes "distinct (map fst ps)" "length vs = length ps" "i < length ps" "\<not> is_double (snd (ps ! i))"
  shows "foldl (apply_entry atof ps) vs es ! i =
    (case last_setting (fst (ps ! i)) es of None \<Rightarrow> vs ! i | Some val \<Rightarrow> set_value atof (snd (ps ! i)) (val @ [10]) val)"
proof (induction es rule: rev_induct)
  case (snoc e es)
  then show ?case using assms by (cases e) (simp_all add: last_setting_snoc SetVal_loop_nth)
qed simp

lemma SetVal_loop_double:
  assumes "length vs = length ps" "i < length ps" "snd (ps ! i) = CFG_DOUBLE d" "name \<notin> fst ` set (take (Suc i) ps)"
  shows "SetVal_loop atof ps vs name l v ! i = CfgDbl d"
  using assms
proof (induction atof ps vs name l v arbitrary: i rule: SetVal_loop.induct)
  case (1 atof sParam spec ps v vs sP sLine sV)
  then show ?case by (cases i) auto
qed auto

subsection \<open>What the reader guarantees\<close>

text \<open>Of a well-formed file every parameter that is not a \<open>double\<close> gets the value of the last line with its name, converted and
  cut to its type, and its default when there is no such line, whatever the order of the lines.\<close>

theorem GetConfig_reads:
  assumes "distinct (map fst ps)" "\<forall>e \<in> set es. entry_ok e" "i < length ps" "\<not> is_double (snd (ps ! i))"
  shows "TLib_Cfg_GetConfig atof (Some (cfg_file es)) ps ! i =
    (case last_setting (fst (ps ! i)) es of
       None \<Rightarrow> InitDefault ps ! i | Some val \<Rightarrow> set_value atof (snd (ps ! i)) (val @ [10]) val)"
  by (simp add: cfg_file_fold assms apply_entries_nth)

text \<open>A \<open>double\<close> keeps what the file says only until the next line that sets a parameter after it, or no parameter at all: that line
  stores the default again.\<close>

theorem GetConfig_double_reset:
  assumes "\<forall>e \<in> set es. entry_ok e" "entry_ok (Setting name val)" "i < length ps" "snd (ps ! i) = CFG_DOUBLE d"
    "name \<notin> fst ` set (take (Suc i) ps)"
  shows "TLib_Cfg_GetConfig atof (Some (cfg_file (es @ [Setting name val]))) ps ! i = CfgDbl d"
proof -
  have "\<forall>e \<in> set (es @ [Setting name val]). entry_ok e" using assms(1,2) by auto
  then show ?thesis using assms(3-5) by (simp add: cfg_file_fold SetVal_loop_double)
qed

subsection \<open>The settings of the server\<close>

text \<open>The settings as the file's author means them: by name, a number at the width of an \<open>int\<close> and a string cut to its variable.\<close>

definition int_setting :: "string \<Rightarrow> int \<Rightarrow> cfg_entry list \<Rightarrow> int" where
  "int_setting name d es = (case last_setting (c_str name) es of None \<Rightarrow> d | Some val \<Rightarrow> s32 (nat (strtol val mod 2 ^ 32)))"

definition str_setting :: "string \<Rightarrow> string \<Rightarrow> nat \<Rightarrow> cfg_entry list \<Rightarrow> byte list" where
  "str_setting name d lSize es = (case last_setting (c_str name) es of None \<Rightarrow> c_str d | Some val \<Rightarrow> take (lSize - 1) val)"

lemma server_params_distinct: "distinct (map fst server_params)"
  by code_simp

lemma InitDefault_nth:
  assumes "i < length ps"
  shows "snd (ps ! i) = CFG_INT d \<Longrightarrow> InitDefault ps ! i = CfgNum d"
    and "snd (ps ! i) = CFG_STRING s lSize \<Longrightarrow> InitDefault ps ! i = copy_string s lSize"
proof -
  show "snd (ps ! i) = CFG_INT d \<Longrightarrow> InitDefault ps ! i = CfgNum d"
    using assms by (induction ps arbitrary: i rule: InitDefault.induct) (auto simp: nth_Cons split: nat.splits)
  show "snd (ps ! i) = CFG_STRING s lSize \<Longrightarrow> InitDefault ps ! i = copy_string s lSize"
    using assms by (induction ps arbitrary: i rule: InitDefault.induct) (auto simp: nth_Cons split: nat.splits)
qed

lemma server_int:
  assumes "\<forall>e \<in> set es. entry_ok e" "i < length server_params" "server_params ! i = (c_str name, CFG_INT d)"
  shows "cfg_num (TLib_Cfg_GetConfig atof (Some (cfg_file es)) server_params) i = int_setting name d es"
  using GetConfig_reads [OF server_params_distinct assms(1,2), of atof] InitDefault_nth(1) [OF assms(2), of d] assms(3)
  by (simp add: cfg_num_def int_setting_def is_double_def set_value_def split: option.splits)

lemma server_str:
  assumes "\<forall>e \<in> set es. entry_ok e" "i < length server_params" "server_params ! i = (c_str name, CFG_STRING (c_str d) lSize)"
    "length d < lSize"
  shows "cfg_str (TLib_Cfg_GetConfig atof (Some (cfg_file es)) server_params) i = str_setting name d lSize es"
  using GetConfig_reads [OF server_params_distinct assms(1,2), of atof] InitDefault_nth(2) [OF assms(2), of "c_str d" lSize] assms(3,4)
  by (simp add: cfg_str_def str_setting_def is_double_def set_value_def copy_string_def c_str_def split: option.splits)

text \<open>(C40) The settings of the server are those that a well-formed configuration file names, each under its own name and converted to
  its type, the last line with a name counting; a setting the file does not name has its default.\<close>

theorem read_settings_file:
  assumes ok: "\<forall>e \<in> set es. entry_ok e"
  shows "read_settings atof open_file (Some (cfg_file es)) =
    \<lparr>cf_keyfile = open_file (str_setting ''KEYFILE'' ''/home/oicq/mysql_proxy/conf/key_file.txt'' 256 es),
     cf_shm_key = usz (int_setting ''SHM_KEY'' 0x447755 es), cf_shm_percent = usz (int_setting ''SHM_PERCENT'' 20 es),
     cf_shm_blocksize = usz (int_setting ''SHM_BLOCKSIZE'' 4096 es), cf_max_keylen = int_setting ''SHM_MAX_KEYLEN'' 128 es,
     cf_child_num = int_setting ''CHILD_NUM'' 1 es, cf_cache_seconds = int_setting ''CACHE_VALID_SECONDS'' 60 es,
     cf_send_limit = int_setting ''SEND_BYTES_LIMIT'' 300000000 es, cf_min_interval = int_setting ''MIN_INTERVAL'' 10 es,
     cf_ena_traffic = int_setting ''ENA_TRAFIC_CTRL'' 1 es, cf_charset = str_setting ''MYSQL_CHARSET'' ''utf8'' 32 es,
     cf_log_debug = (int_setting ''LOG_LEVEL'' 5 es \<ge> 5)\<rparr>"
proof -
  let ?vs = "TLib_Cfg_GetConfig atof (Some (cfg_file es)) server_params"
  have num: "cfg_num ?vs 2 = int_setting ''LOG_LEVEL'' 5 es" "cfg_num ?vs 10 = int_setting ''SEND_BYTES_LIMIT'' 300000000 es"
    "cfg_num ?vs 11 = int_setting ''MIN_INTERVAL'' 10 es" "cfg_num ?vs 12 = int_setting ''ENA_TRAFIC_CTRL'' 1 es"
    "cfg_num ?vs 13 = int_setting ''SHM_KEY'' 0x447755 es" "cfg_num ?vs 14 = int_setting ''SHM_PERCENT'' 20 es"
    "cfg_num ?vs 15 = int_setting ''SHM_BLOCKSIZE'' 4096 es" "cfg_num ?vs 16 = int_setting ''SHM_MAX_KEYLEN'' 128 es"
    "cfg_num ?vs 17 = int_setting ''CHILD_NUM'' 1 es" "cfg_num ?vs 18 = int_setting ''CACHE_VALID_SECONDS'' 60 es"
    by (rule server_int [OF ok]; simp add: server_params_def)+
  have str: "cfg_str ?vs 1 = str_setting ''KEYFILE'' ''/home/oicq/mysql_proxy/conf/key_file.txt'' 256 es"
    "cfg_str ?vs 9 = str_setting ''MYSQL_CHARSET'' ''utf8'' 32 es"
    by (rule server_str [OF ok]; simp add: server_params_def)+
  show ?thesis unfolding read_settings_def Let_def num str ..
qed

definition demo_conf :: "cfg_entry list" where
  "demo_conf = [Setting (c_str ''CHILD_NUM'') (c_str ''4''), Remark (c_str '' workers''), Setting (c_str ''CHILD_NUM'') (c_str ''0x10'')]"

theorem read_settings_file_witness:
  "cf_child_num (read_settings (\<lambda>_. 0) (\<lambda>_. None) (Some (cfg_file demo_conf))) = 16 \<and>
   cf_cache_seconds (read_settings (\<lambda>_. 0) (\<lambda>_. None) (Some (cfg_file demo_conf))) = 60"
proof -
  have names: "c_str ''CHILD_NUM'' = [67, 72, 73, 76, 68, 95, 78, 85, 77]" "c_str ''4'' = [52]" "c_str ''0x10'' = [48, 120, 49, 48]"
    "c_str '' workers'' = [32, 119, 111, 114, 107, 101, 114, 115]"
    "c_str ''CHILD_NUM'' \<noteq> c_str ''CACHE_VALID_SECONDS''"
    by code_simp+
  have "\<forall>e \<in> set demo_conf. entry_ok e"
    by (simp add: demo_conf_def names cfg_word_def is_blank_def US_def MAX_CONFIG_LINE_LEN_def)
  moreover have "signed_magnitude [48, 120, 49, 48] = (False, 16)" by code_simp
  then have "int_setting ''CHILD_NUM'' 1 demo_conf = 16"
    by (simp add: int_setting_def demo_conf_def names(3) strtol_def)
  moreover have "int_setting ''CACHE_VALID_SECONDS'' 60 demo_conf = 60"
    using names(5) by (simp add: int_setting_def demo_conf_def)
  ultimately show ?thesis using read_settings_file [of demo_conf "\<lambda>_. 0" "\<lambda>_. None"] by simp
qed

text \<open>A number that is written in decimal is read as itself.\<close>

lemma digit_val_dec: "d < 10 \<Longrightarrow> digit_val (of_nat (48 + d)) = d"
proof -
  assume "d < 10"
  then have "d \<in> set [0..<10]" by simp
  moreover have "\<forall>d \<in> set [0..<10]. digit_val (of_nat (48 + d)) = d" by code_simp
  ultimately show ?thesis by blast
qed

lemma dec_digits_value:
  "n < k \<Longrightarrow> (\<forall>c \<in> set (dec_digits k n). digit_val c < 10) \<and> foldl (\<lambda>n c. n * 10 + digit_val c) 0 (dec_digits k n) = n"
proof (induction k arbitrary: n)
  case (Suc k)
  show ?case
  proof (cases "n < 10")
    case True
    then show ?thesis using digit_val_dec [of n] by simp
  next
    case False
    then have "n div 10 < k" using Suc.prems by linarith
    then show ?thesis using Suc.IH [of "n div 10"] digit_val_dec [of "n mod 10"] False by simp
  qed
qed simp

lemma dec_digits_head: "n < k \<Longrightarrow> dec_digits k n \<noteq> [] \<and> (hd (dec_digits k n) = 48 \<longrightarrow> n = 0) \<and> digit_val (hd (dec_digits k n)) < 10"
proof (induction k arbitrary: n)
  case (Suc k)
  show ?case
  proof (cases "n < 10")
    case True
    have "of_nat (48 + n) = (48 :: byte) \<Longrightarrow> n = 0"
      using digit_val_dec [OF True] by (simp add: digit_val_def)
    then show ?thesis using True digit_val_dec [of n] by auto
  next
    case False
    then have "n div 10 < k" using Suc.prems by linarith
    then show ?thesis using Suc.IH [of "n div 10"] False by auto
  qed
qed simp

lemma digit_no_sign: "digit_val c < 10 \<Longrightarrow> \<not> c_isspace c \<and> c \<noteq> 45 \<and> c \<noteq> 43"
  by (auto simp: digit_val_def c_isspace_def word_le_nat_alt split: if_splits)

lemma magnitude_dec: "magnitude (dec_str n) = n"
proof -
  have v: "number_in 10 (dec_str n) = n"
    using dec_digits_value [of n "n + 1"] by (simp add: number_in_def dec_str_def takeWhile_eq_all_conv [THEN iffD2] del: dec_digits.simps)
  show ?thesis
  proof (cases "n = 0")
    case True
    then show ?thesis by (simp add: dec_str_def magnitude_def number_in_def digit_val_def)
  next
    case False
    then show ?thesis
      using v dec_digits_head [of n "n + 1"]
      by (auto simp: magnitude_def dec_str_def simp del: dec_digits.simps split: list.splits)
  qed
qed

theorem strtol_dec: "n < 2 ^ 63 \<Longrightarrow> strtol (dec_str n) = int n"
proof -
  assume "n < 2 ^ 63"
  obtain c r where d: "dec_str n = c # r" "digit_val c < 10"
    using dec_digits_head [of n "n + 1"] by (cases "dec_str n") (auto simp: dec_str_def simp del: dec_digits.simps)
  then have "signed_magnitude (dec_str n) = (False, n)"
    using digit_no_sign [of c] magnitude_dec [of n] by (simp add: signed_magnitude_def)
  then show ?thesis using \<open>n < 2 ^ 63\<close> by (simp add: strtol_def)
qed

lemma int_setting_decimal:
  assumes "last_setting (c_str name) es = Some (dec_str n)" "n < 2 ^ 31"
  shows "int_setting name d es = int n"
  using assms strtol_dec [of n] by (simp add: int_setting_def s32_def)

end
