(* ===== verification/Spec2Isabelle.thy ===== *)
theory Spec2Isabelle
  imports Pb Multi_Hash_Table Mem_Pool Knv_Protocol Fork_Children Proxy_Api Config_File
begin

text \<open>
  Verification of the MySQL proxy: a server that executes the read-only SQL statements of its clients on a pool of database
  connections and caches the results, and the client library that applications link instead of the one of MySQL.

  \<^bold>\<open>The program.\<close> A client (\<open>mysql_proxy_api.cpp\<close>) encrypts a statement with the key of its application, packs it with the name of the
  application and a sequence number into a tree of nodes (\<open>knv/knv_node.cc\<close>), serialises the tree in protobuf format (\<open>knv/pb.c\<close>), puts
  a token and a length in front and sends it. The server (\<open>mysql_proxy_server.cpp\<close>) runs as several processes that a parent supervises
  (\<open>comm/fork_children.c\<close>); each connection has a thread that cuts the byte stream into packets, reads their fields, looks up the key
  of the application (the key file), decrypts and checks the statement, and answers it from the cache (\<open>storage.cc\<close>, over the hash
  table \<open>ht/multi_hash_table.cc\<close> and the block store \<open>ht/link_table.cc\<close> in shared memory) or from the database. The result is again a
  tree. A traffic control with shared counters (\<open>comm/atomic_counter_array.c\<close>) refuses connections above a limit. Nodes and buffers
  come from pools (\<open>knv/obj_pool.h\<close>, \<open>knv/mem_pool.cc\<close>). \<open>knv/protocol.cc\<close> is a packet class over the trees for other services.

  \<^bold>\<open>The theories.\<close>
  \<^item> \<open>Prelude\<close>: words and bytes of the target, the C integer conversions, shared lemmas on lists, options and words.
  \<^item> \<open>Pb\<close> (\<open>knv/pb.h\<close>, \<open>knv/pb.c\<close>, \<open>knv/knv_codec.h\<close>): the wire codec. Reading back what was written gives the same fields, the reader
    stays inside the buffer for every input, and the length evaluation is exact.
  \<^item> \<open>Link_Table\<close> (\<open>ht/link_table.*\<close>): the block store, with an invariant on chains and free list; writing, erasing and reading refine a
    map from positions to byte strings; every call returns.
  \<^item> \<open>Multi_Hash_Table\<close> (\<open>ht/multi_hash_table.*\<close>): the hash table with eviction, iteration and initialisation; it refines a map from keys
    to data.
  \<^item> \<open>Obj_Pool\<close>, \<open>Mem_Pool\<close> (\<open>knv/obj_*.h\<close>, \<open>knv/mem_pool.*\<close>): the pools; the linked lists refine lists, and an interleaving of two
    threads breaks the free list.
  \<^item> \<open>Knv_Ht\<close>, \<open>Knv_Node\<close> (\<open>knv/knv_node.h\<close>, \<open>knv/knv_node.cc\<close>): the nodes, the table of the children of a node and all operations on
    nodes. \<open>Knv_Tree\<close>: the invariant of cached sizes and flags; serialisation writes exactly the reference encoding; changes keep the
    invariant. \<open>Knv_Expand\<close>: a message of any fields is expanded into one node for each field. \<open>Knv_Build\<close>: trees built field by field.
    \<open>Knv_Request\<close>: the operations on two trees. \<open>Knv_Protocol\<close> (\<open>knv/protocol.*\<close>): the packet class with its two formats, splitting and
    merging.
  \<^item> \<open>Crypt\<close>, \<open>Traffic\<close>, \<open>Framing\<close>, \<open>Key_File\<close> (parts of \<open>mysql_proxy_server.cpp\<close>, \<open>comm/atomic_counter_array.c\<close>): encryption and its
    round trip; the window of the traffic control as a ring of 32-bit counters that refines a list of slices with true byte counts when one
    process checks; the packet loop, which delivers every
    message of a stream however it is cut; the file of names and keys.
  \<^item> \<open>Config_File\<close> (\<open>comm/oi_cfg.c\<close>, \<open>ProxyInit\<close>): the reader of the configuration file and the settings of the server: each has the value
    of the last line with its name, or its default.
  \<^item> \<open>Storage\<close> (\<open>storage.*\<close>): the cache over hash table and trees. \<open>Packet\<close>: the packets of client and server and their round trip.
  \<^item> \<open>Proxy_Server\<close> (\<open>mysql_proxy_server.cpp\<close>): connections, result trees, \<open>ProcessRequest\<close>, start-up, the main loop. \<open>Proxy_Api\<close>
    (\<open>mysql_proxy_api.cpp\<close>): the client library. \<open>Fork_Children\<close> (\<open>comm/fork_children.c\<close>): the supervisor as a step relation with the
    signal handler between any two statements.
  \<^item> This theory: what happens to a request from the call of the client to the handler of the server, over any cut of the stream.

  \<^bold>\<open>State and results.\<close> Objects are records with the members of the classes; shared memory is a record of its contents; nodes are
  addresses in \<open>knv_heap\<close>. An operation is a function that returns the result of the C++ function and the new state, on every branch,
  errors included. Machine integers are words, or integers with the conversions written out.

  \<^bold>\<open>Interfaces.\<close> What a component promises to its clients is a locale, interpreted on the definitions of the component:
  \<open>block_store\<close> (\<open>lt\<close>) for the hash table, \<open>kv_store\<close> (\<open>kv\<close>) for the cache, \<open>obj_pool\<close> (\<open>opool\<close>) for the nodes, \<open>child_index\<close> (\<open>kht\<close>) for the
  lookup of children, \<open>stream_parser\<close> (\<open>requests\<close>) for the connection threads.

  \<^bold>\<open>Loops.\<close> Loops over lists and counters are structural or have a termination proof. Loops that follow pointers or parents, and the
  recursion over trees, are partial functions into \<open>option\<close> whose value \<open>None\<close> is a run without end; \<open>None\<close> also stands for an access
  through a null pointer or outside a buffer. Every theorem about a result states that there is one. The query loop of the server is bounded
  by its number of attempts (\<open>max_try_num\<close>), the chain walks of the block store by the number of blocks.

  \<^bold>\<open>Hypotheses.\<close> \<open>ecb_ok\<close>: DES decryption undoes encryption and keeps lengths. \<open>pool_ok\<close>: the node pool and a set of live nodes are apart.
  \<open>buffer_at\<close>: a receive buffer does not lie at the end of the address space. \<open>alloc_ok\<close>: a buffer is as long as was asked for. The
  database, the operating system and the DES library are parameters, functions of any behaviour.

  \<^bold>\<open>Results that show faults.\<close> Some theorems state what goes wrong: \<open>short_length_ends_server\<close>, \<open>oversized_packet\<close>, \<open>worker_lost\<close>, \<open>pool_aba\<close>,
  \<open>fold_lookup_diverges\<close>, \<open>cache_confusion\<close>, \<open>Compare_blind\<close>, \<open>lt_full_table_corrupts\<close>, \<open>mht_SetData_silent_loss\<close>,
  \<open>EncodeAllOidb_unreadable\<close>, \<open>oidb_length_wraps\<close>, \<open>part_exceeds_limit\<close>, \<open>GetConfig_double_reset\<close>, \<open>TrafficCtl_saturates\<close>,
  \<open>traffic_three_processes\<close>, \<open>startup_worker_lost\<close>. Where one of them limits a theorem that holds, the text of that theorem says so.

  \<^bold>\<open>Not modelled.\<close> Monitoring (\<open>comm/Attr_API.c\<close>) and logging only write;
  \<open>ht/shm_adapter.cc\<close> wraps calls of the operating system, whose results are parameters; the locks of \<open>comm/spin_lock.h\<close> are
  machine code; the creation of sockets is a sequence of calls of the operating system; \<open>knv/knv_show.cpp\<close> and the test programs print.
  Texts of error messages are left out where nothing reads them, and so are the branches for a failed \<open>new\<close> or \<open>malloc\<close> of nodes, pools and
  child tables.
\<close>

section \<open>Client and server\<close>

text \<open>The request of a client as the server sees it.\<close>

definition client_request :: "ecb_fun \<Rightarrow> MYSQL_PROXY \<Rightarrow> byte list \<Rightarrow> ProxyPacket" where
  "client_request ecb my stmt = \<lparr>appname = my_appname my, appkey = my_appkey my, sequence = my_sequence my, errnum = 0, content = Encrypt ecb (my_appkey my) stmt\<rparr>"

definition client_packet :: "ecb_fun \<Rightarrow> MYSQL_PROXY \<Rightarrow> byte list \<Rightarrow> byte list" where
  "client_packet ecb my stmt = frame (fields_bytes (packet_fields (my_appname my) (my_sequence my) 0 (Encrypt ecb (my_appkey my) stmt)))"

text \<open>What a network may make of bytes on the way to the server.\<close>

definition arrives :: "byte list \<Rightarrow> (byte list \<times> u64) list \<Rightarrow> u64 \<Rightarrow> bool" where
  "arrives bs recvs final \<longleftrightarrow> concat (map fst recvs) = bs \<and> list_all (\<lambda>(_, e). buffer_at e (length bs)) recvs \<and> buffer_at final 0"

lemma client_packet_small:
  assumes "ecb_ok ecb (my_appkey my)" "length (my_appname my) + length stmt \<le> 4000"
  shows "request_msg (fields_bytes (packet_fields (my_appname my) (my_sequence my) 0 (Encrypt ecb (my_appkey my) stmt)))"
    "length (client_packet ecb my stmt) \<le> 4112" "length (Encrypt ecb (my_appkey my) stmt) < 2 ^ 30"
proof -
  let ?c = "Encrypt ecb (my_appkey my) stmt"
  have c: "length ?c \<le> length stmt + 12" using Decrypt_Encrypt_ok(3) [OF assms(1), of stmt] assms(2) by simp
  then show "length ?c < 2 ^ 30" using assms(2) by simp
  have "length (fields_bytes (packet_fields (my_appname my) (my_sequence my) 0 ?c)) \<le> length (my_appname my) + length ?c + 80"
    using c assms(2) by (intro packet_length) simp_all
  then have l: "length (fields_bytes (packet_fields (my_appname my) (my_sequence my) 0 ?c)) \<le> 4092" using c assms(2) by simp
  then show "request_msg (fields_bytes (packet_fields (my_appname my) (my_sequence my) 0 ?c))"
    using packet_nonempty by (simp add: request_msg_def PACKET_HEADER_LENGTH_def MAX_REQUEST_PACKET_LENGTH_def)
  show "length (client_packet ecb my stmt) \<le> 4112" using l by (simp add: client_packet_def frame_facts(1))
qed

lemma Worker_request:
  assumes "pool_ok (px_knv w) M" "ecb_ok (e_ecb env) (my_appkey my)" "map_of (mapAppKeys cfg) (my_appname my) = Some (my_appkey my)"
    "length (my_appname my) + length stmt \<le> 4000"
  shows "\<exists>k. pool_ok k M \<and> (\<forall>q \<in> M. nd k q = nd (px_knv w) q) \<and>
    (\<forall>recvs final w'. arrives (client_packet (e_ecb env) my stmt) recvs final \<longrightarrow>
       ProcessRequest env cfg clk fd (client_request (e_ecb env) my stmt) (set_knv k w) = Some w' \<longrightarrow>
       Worker (handle_message env cfg clk fd) recvs final w = Some (Done w'))"
proof -
  let ?c = "Encrypt (e_ecb env) (my_appkey my) stmt"
  let ?m = "fields_bytes (packet_fields (my_appname my) (my_sequence my) 0 ?c)"
  note S = client_packet_small [OF assms(2,4)]
  have "length (my_appname my) < 65536" using assms(4) by simp
  then obtain k where k: "pool_ok k M" "\<forall>q \<in> M. nd k q = nd (px_knv w) q"
    "handle_message env cfg clk fd ?m w = ProcessRequest env cfg clk fd (client_request (e_ecb env) my stmt) (set_knv k w)"
    using handle_message_packet [OF assms(1) _ S(3), of "my_appname my" env cfg clk fd "my_sequence my" 0] assms(3)
    by (auto simp: client_request_def)
  have "Worker (handle_message env cfg clk fd) recvs final w = Some (Done w')"
    if a: "arrives (client_packet (e_ecb env) my stmt) recvs final" and
      p: "ProcessRequest env cfg clk fd (client_request (e_ecb env) my stmt) (set_knv k w) = Some w'" for recvs final w'
  proof -
    have "mfold (handle_message env cfg clk fd) [?m] w = Some w'" using k(3) p by simp
    then show ?thesis
      using a S(1) by (intro Worker_messages [of "[?m]" "[]"]) (simp_all add: arrives_def client_packet_def)
  qed
  then show ?thesis using k(1,2) by blast
qed

text \<open>A registered client.\<close>

definition demo_user :: MYSQL_PROXY where
  "demo_user = demo_client\<lparr>my_appkey := [1]\<rparr>"

lemma demo_user_sel [simp]:
  "my_appname demo_user = [97]" "my_appkey demo_user = [1]" "current_query_context demo_user = 0" "map_of (mapAppKeys demo_cfg) [97] = Some [1]"
  "ecb_ok (e_ecb demo_env) [1]" "pool_ok (px_knv (demo_world ())) {}"
  using empty_pool by (simp_all add: demo_user_def demo_client_def mysql_proxy_init_def demo_cfg_def demo_env_def ecb_ok_def DES_FAILED_def demo_world_def st_world_def)

text \<open>(C2) The statement that a client sends is the statement that the server processes. For a registered application, the bytes
  that \<open>SendRequest\<close> hands to the socket, arriving in any pieces, make \<open>Worker\<close> call \<open>ProcessRequest\<close> once, on a request with the
  client's name and sequence number whose decryption is the client's statement, byte for byte; the trees in use on both sides
  stay as they are.\<close>

theorem client_request_processed:
  assumes "pool_ok h L" "pool_ok (px_knv w) M" "ecb_ok (e_ecb env) (my_appkey my)" "map_of (mapAppKeys cfg) (my_appname my) = Some (my_appkey my)"
    "length (my_appname my) + length stmt \<le> 4000" "4112 \<le> snt"
  shows "\<exists>out h' k. SendRequest (e_ecb env) strerr knvmsg my stmt snt h = Some (0, out, my\<lparr>my_sequence := my_sequence my + 1\<rparr>, h') \<and>
    pool_ok h' L \<and> (\<forall>q \<in> L. nd h' q = nd h q) \<and> pool_ok k M \<and> (\<forall>q \<in> M. nd k q = nd (px_knv w) q) \<and>
    request_sql env (client_request (e_ecb env) my stmt) = stmt \<and>
    (\<forall>recvs final w'. arrives out recvs final \<longrightarrow>
       ProcessRequest env cfg clk fd (client_request (e_ecb env) my stmt) (set_knv k w) = Some w' \<longrightarrow>
       Worker (handle_message env cfg clk fd) recvs final w = Some (Done w'))"
proof -
  have l: "length (my_appname my) < 65536" "length stmt < 2 ^ 30 - 12" "length stmt < 2 ^ 31 - 16" using assms(5) by simp_all
  have "take (nat snt) (client_packet (e_ecb env) my stmt) = client_packet (e_ecb env) my stmt"
    using client_packet_small(2) [OF assms(3,5)] assms(6) by simp
  moreover obtain h' where "SendRequest (e_ecb env) strerr knvmsg my stmt snt h =
      Some (0, take (nat snt) (client_packet (e_ecb env) my stmt), my\<lparr>my_sequence := my_sequence my + 1\<rparr>, h')" "pool_ok h' L" "\<forall>q \<in> L. nd h' q = nd h q"
    using SendRequest_ok [OF assms(1,3) l(1,2), of snt strerr knvmsg] assms(6) unfolding client_packet_def by auto
  moreover have "request_sql env (client_request (e_ecb env) my stmt) = stmt"
    using Decrypt_Encrypt_ok(1) [OF assms(3) l(3)] by (simp add: client_request_def)
  moreover obtain k where "pool_ok k M" "\<forall>q \<in> M. nd k q = nd (px_knv w) q"
    "\<forall>recvs final w'. arrives (client_packet (e_ecb env) my stmt) recvs final \<longrightarrow>
       ProcessRequest env cfg clk fd (client_request (e_ecb env) my stmt) (set_knv k w) = Some w' \<longrightarrow>
       Worker (handle_message env cfg clk fd) recvs final w = Some (Done w')"
    using Worker_request [OF assms(2-5), of clk fd] by blast
  ultimately show ?thesis by (intro exI [of _ "client_packet (e_ecb env) my stmt"] exI [of _ h'] exI [of _ k]) simp
qed

theorem client_request_processed_witness:
  "\<exists>out h' k. SendRequest (e_ecb demo_env) [] [] demo_user [115, 104, 111, 119] 5000 knv_empty = Some (0, out, demo_user\<lparr>my_sequence := my_sequence demo_user + 1\<rparr>, h') \<and>
    pool_ok k {} \<and> request_sql demo_env (client_request (e_ecb demo_env) demo_user [115, 104, 111, 119]) = [115, 104, 111, 119]"
  using client_request_processed [of knv_empty "{}" "demo_world ()" "{}" demo_env demo_user demo_cfg "[115, 104, 111, 119]" 5000 "[]" "[]" demo_clk 7] empty_pool
  by auto

text \<open>(C4) A statement that is not a query is refused, from one end to the other. The client's packet, in any pieces, makes the
  server send one packet and touch neither database nor cache nor connections; that packet, in any pieces, makes the client's
  call return -201 with error number 1 and the server's text.\<close>

theorem refused_statement:
  assumes "pool_ok h L" "pool_ok (px_knv w) M" "ecb_ok (e_ecb env) (my_appkey my)" "map_of (mapAppKeys cfg) (my_appname my) = Some (my_appkey my)"
    "length (my_appname my) + length stmt \<le> 4000" "0 \<le> snt" "current_query_context my = 0"
    "stmt = [] \<or> \<not> allowed_sql (skip_spaces stmt)" "arrives (client_packet (e_ecb env) my stmt) recvs final"
  shows "\<exists>w' pk. Worker (handle_message env cfg clk fd) recvs final w = Some (Done w') \<and> px_sent w' = px_sent w @ [(fd, pk)] \<and>
    px_db w' = px_db w \<and> w_mht (px_st w') = w_mht (px_st w) \<and> vstMySQLPool w' = vstMySQLPool w \<and>
    (\<forall>crecvs. chunks_of pk crecvs \<longrightarrow>
      (\<exists>my' h1. mysql_proxy_real_query (e_ecb env) strerr knvmsg stmt snt crecvs my h = Some (Done (-201, take (nat snt) (client_packet (e_ecb env) my stmt), my', h1)) \<and>
         mysql_proxy_errno (Some my') gl = 1 \<and>
         mysql_proxy_error (Some my') gl = take 1023 (c_str ''Server response with error msg: '' @ cstring (sMySQLError w') @ [46, 10])))"
proof -
  let ?r = "client_request (e_ecb env) my stmt"
  have l: "length (my_appname my) < 65536" "length stmt < 2 ^ 30 - 12" "length stmt < 2 ^ 31 - 16" using assms(5) by simp_all
  have sql: "request_sql env ?r = stmt" using Decrypt_Encrypt_ok(1) [OF assms(3) l(3)] by (simp add: client_request_def)
  obtain k where k: "pool_ok k M" "\<And>recvs final w'. arrives (client_packet (e_ecb env) my stmt) recvs final \<Longrightarrow>
       ProcessRequest env cfg clk fd ?r (set_knv k w) = Some w' \<Longrightarrow> Worker (handle_message env cfg clk fd) recvs final w = Some (Done w')"
    using Worker_request [OF assms(2-5), of clk fd] by blast
  have pk: "pool_ok (px_knv (set_knv k w)) M" using k(1) by simp
  obtain w' where w': "ProcessRequest env cfg clk fd ?r (set_knv k w) = Some w'" "px_db w' = px_db w" "w_mht (px_st w') = w_mht (px_st w)"
    "vstMySQLPool w' = vstMySQLPool w" "px_sent w' = px_sent w @ [(fd, frame (fields_bytes (packet_fields (my_appname my) (my_sequence my) 1 (sMySQLError w'))))]"
    "length (sMySQLError w') < 1000"
    using ProcessRequest_refused [OF _ pk, of env ?r cfg clk fd] assms(8) l(1) unfolding sql by (auto simp: client_request_def)
  have lt: "length (sMySQLError w') < MAX_RESPONSE_PACKET_LENGTH - 65536 - 100" using w'(6) by (simp add: MAX_RESPONSE_PACKET_LENGTH_def)
  define pkt where "pkt = frame (fields_bytes (packet_fields (my_appname my) (my_sequence my) 1 (sMySQLError w')))"
  have "\<exists>my' h1. mysql_proxy_real_query (e_ecb env) strerr knvmsg stmt snt crecvs my h = Some (Done (-201, take (nat snt) (client_packet (e_ecb env) my stmt), my', h1)) \<and>
      mysql_proxy_errno (Some my') gl = 1 \<and> mysql_proxy_error (Some my') gl = take 1023 (c_str ''Server response with error msg: '' @ cstring (sMySQLError w') @ [46, 10])"
    if "chunks_of pkt crecvs" for crecvs
    using real_query_failed [OF assms(1,3) l(1,2) assms(6,7) l(1) lt, of 1 "my_sequence my" crecvs strerr knvmsg gl] that
    unfolding client_packet_def pkt_def by (elim meta_impE exE conjE) (rule one_neq_zero, assumption, intro exI conjI, assumption+)
  then show ?thesis
    using k(2) [OF assms(9) w'(1)] w'(2-5) by (intro exI [of _ w'] exI [of _ pkt]) (simp add: pkt_def)
qed

theorem refused_statement_witness:
  "\<exists>w' pk. Worker (handle_message demo_env demo_cfg demo_clk 7) [(client_packet (e_ecb demo_env) demo_user [100, 114], 9999)] 1 (demo_world ()) = Some (Done w') \<and>
    px_sent w' = [(7, pk)] \<and>
    (\<forall>crecvs. chunks_of pk crecvs \<longrightarrow>
      (\<exists>out my' h1. mysql_proxy_real_query (e_ecb demo_env) [] [] [100, 114] 5000 crecvs demo_user knv_empty = Some (Done (-201, out, my', h1)) \<and>
         mysql_proxy_errno (Some my') \<lparr>g_errnum = 0, g_errmsg = []\<rparr> = 1))"
proof -
  let ?s = "[100, 114] :: byte list"
  have "\<not> allowed_sql (skip_spaces ?s)" by (simp add: skip_spaces_def c_isspace_def allowed_sql_def starts_with_def c_tolower_def c_str_def)
  moreover have "length (client_packet (e_ecb demo_env) demo_user ?s) \<le> 4112" by (rule client_packet_small(2)) simp_all
  then have "arrives (client_packet (e_ecb demo_env) demo_user ?s) [(client_packet (e_ecb demo_env) demo_user ?s, 9999)] 1"
    by (simp add: arrives_def buffer_at_def)
  ultimately obtain w' pk where "Worker (handle_message demo_env demo_cfg demo_clk 7) [(client_packet (e_ecb demo_env) demo_user ?s, 9999)] 1 (demo_world ()) = Some (Done w')"
    "px_sent w' = px_sent (demo_world ()) @ [(7, pk)]" and
    C: "\<And>crecvs. chunks_of pk crecvs \<Longrightarrow>
      \<exists>my' h1. mysql_proxy_real_query (e_ecb demo_env) [] [] ?s 5000 crecvs demo_user knv_empty = Some (Done (-201, take (nat 5000) (client_packet (e_ecb demo_env) demo_user ?s), my', h1)) \<and>
         mysql_proxy_errno (Some my') \<lparr>g_errnum = 0, g_errmsg = []\<rparr> = 1"
    using refused_statement [of knv_empty "{}" "demo_world ()" "{}" demo_env demo_user demo_cfg ?s 5000 "[(client_packet (e_ecb demo_env) demo_user ?s, 9999)]" 1 demo_clk 7 "[]" "[]"]
      empty_pool by simp (metis (no_types, lifting))
  then show ?thesis by (intro exI [of _ w'] exI [of _ pk]) (auto simp: demo_world_def dest: C)
qed

end
